(* ===== verification/Prelude.thy ===== *)
theory Prelude
  imports Main "HOL-Library.Word" "HOL-Library.Monad_Syntax"
begin

text \<open>
  Shared vocabulary of the development.

  Bytes are \<^typ>\<open>8 word\<close>. A C array is the list of its cells, and every access goes
  through the checked operations below: an access outside the array, a signed overflow or a
  request for a negative amount of memory is \<^term>\<open>None\<close>, which stands for undefined
  behaviour (or a run that does not return) wherever a definition of the development has an
  option type. A theorem that an operation is \<^term>\<open>Some\<close> of a result therefore says that
  the C++ code stays inside its arrays and integer ranges. The locale of codecs states once
  what an encoder/decoder pair promises.
\<close>

type_synonym byte = "8 word"
type_synonym u16 = "16 word"
type_synonym u32 = "32 word"

named_theorems mem_simps "rewrite rules for checked memory and integer operations"

section \<open>Checked integers\<close>

text \<open>The result of a signed 32-bit computation: overflow is undefined behaviour.\<close>

definition i32 :: "int \<Rightarrow> int option" where
  "i32 x = (if - (2 ^ 31) \<le> x \<and> x < 2 ^ 31 then Some x else None)"

lemma i32_Some [mem_simps]: "- 2147483648 \<le> x \<Longrightarrow> x < 2147483648 \<Longrightarrow> i32 x = Some x"
  by (simp add: i32_def)

lemma i32_SomeD: "i32 x = Some y \<Longrightarrow> y = x \<and> - 2147483648 \<le> x \<and> x < 2147483648"
  by (simp add: i32_def split: if_splits)

lemma sint_u32: "0 \<le> n \<Longrightarrow> n < 2147483648 \<Longrightarrow> sint (word_of_int n :: u32) = n"
  by (simp add: signed_take_bit_int_eq_self sint_sbintrunc')

lemma uint_u32: "0 \<le> n \<Longrightarrow> n < 4294967296 \<Longrightarrow> uint (word_of_int n :: u32) = n"
  by (simp add: uint_word_of_int)

section \<open>Checked memory\<close>

text \<open>
  \<open>rd m off n\<close> reads the cells \<open>off .. off + n - 1\<close>, \<open>wr m off bs\<close> overwrites
  the cells from \<open>off\<close> with \<open>bs\<close>, \<open>get m i\<close> and \<open>put m i x\<close> are the
  one-cell versions.
\<close>

definition rd :: "'a list \<Rightarrow> int \<Rightarrow> int \<Rightarrow> 'a list option" where
  "rd m off n = (if 0 \<le> off \<and> 0 \<le> n \<and> off + n \<le> int (length m)
     then Some (take (nat n) (drop (nat off) m)) else None)"

definition wr :: "'a list \<Rightarrow> int \<Rightarrow> 'a list \<Rightarrow> 'a list option" where
  "wr m off bs = (if 0 \<le> off \<and> off + int (length bs) \<le> int (length m)
     then Some (take (nat off) m @ bs @ drop (nat off + length bs) m) else None)"

definition get :: "'a list \<Rightarrow> int \<Rightarrow> 'a option" where
  "get m i = (if 0 \<le> i \<and> i < int (length m) then Some (m ! nat i) else None)"

definition put :: "'a list \<Rightarrow> int \<Rightarrow> 'a \<Rightarrow> 'a list option" where
  "put m i x = (if 0 \<le> i \<and> i < int (length m) then Some (m[nat i := x]) else None)"

lemma rd_Some [mem_simps]:
  "0 \<le> off \<Longrightarrow> 0 \<le> n \<Longrightarrow> off + n \<le> int (length m) \<Longrightarrow>
   rd m off n = Some (take (nat n) (drop (nat off) m))"
  by (simp add: rd_def)

lemma wr_Some [mem_simps]:
  "0 \<le> off \<Longrightarrow> off + int (length bs) \<le> int (length m) \<Longrightarrow>
   wr m off bs = Some (take (nat off) m @ bs @ drop (nat off + length bs) m)"
  by (simp add: wr_def)

lemma get_Some [mem_simps]: "0 \<le> i \<Longrightarrow> i < int (length m) \<Longrightarrow> get m i = Some (m ! nat i)"
  by (simp add: get_def)

lemma put_Some [mem_simps]: "0 \<le> i \<Longrightarrow> i < int (length m) \<Longrightarrow> put m i x = Some (m[nat i := x])"
  by (simp add: put_def)

lemma get_nat [mem_simps]: "i < length m \<Longrightarrow> get m (int i) = Some (m ! i)"
  by (simp add: get_def)

lemma put_nat [mem_simps]: "i < length m \<Longrightarrow> put m (int i) x = Some (m[i := x])"
  by (simp add: put_def)

lemma rd_whole [mem_simps]: "rd m 0 (int (length m)) = Some m"
  by (simp add: rd_def)

lemma rd_length: "rd m off n = Some bs \<Longrightarrow> length bs = nat n \<and> 0 \<le> n"
  by (auto simp: rd_def split: if_splits)

lemma wr_length: "wr m off bs = Some m' \<Longrightarrow> length m' = length m"
  by (auto simp: wr_def split: if_splits)

lemma put_length: "put m i x = Some m' \<Longrightarrow> length m' = length m"
  by (auto simp: put_def split: if_splits)

section \<open>Lists\<close>

text \<open>The position of the first cell that satisfies a predicate.\<close>

fun first_index :: "('a \<Rightarrow> bool) \<Rightarrow> 'a list \<Rightarrow> nat option" where
  "first_index P [] = None"
| "first_index P (x # xs) = (if P x then Some 0 else map_option Suc (first_index P xs))"

lemma first_index_None: "first_index P xs = None \<longleftrightarrow> (\<forall>x \<in> set xs. \<not> P x)"
  by (induction xs) auto

lemma first_index_Some:
  "first_index P xs = Some i \<Longrightarrow>
   i < length xs \<and> P (xs ! i) \<and> (\<forall>j < i. \<not> P (xs ! j))"
proof (induction xs arbitrary: i)
  case (Cons x xs)
  then show ?case
    by (auto split: if_splits simp: nth_Cons split: nat.splits)
qed simp

lemma first_index_drop: "first_index P xs = Some i \<Longrightarrow> drop i xs = dropWhile (\<lambda>x. \<not> P x) xs"
  by (induction xs arbitrary: i) (auto split: if_splits)

lemma first_index_take: "first_index P xs = Some i \<Longrightarrow> take i xs = takeWhile (\<lambda>x. \<not> P x) xs"
  by (induction xs arbitrary: i) (auto split: if_splits)

lemma first_index_append:
  "first_index P (xs @ ys) =
     (case first_index P xs of Some i \<Rightarrow> Some i | None \<Rightarrow> map_option ((+) (length xs)) (first_index P ys))"
  by (induction xs; cases "first_index P ys") (auto split: option.splits)

lemma first_index_append_None:
  "\<forall>x \<in> set xs. \<not> P x \<Longrightarrow> first_index P (xs @ ys) = map_option ((+) (length xs)) (first_index P ys)"
  using first_index_append [of P xs ys] first_index_None [of P xs] by simp

lemma take_append_drop_wr: "i \<le> length m \<Longrightarrow> length (take i m @ drop i m) = length m"
  by simp

section \<open>Codecs\<close>

text \<open>
  What an encoder and a decoder promise one another: on the valid inputs the decoder
  returns what was encoded. The encoder is then injective there, and decoding is
  the only way to explain an encoding.
\<close>

locale codec =
  fixes enc :: "'a \<Rightarrow> 'b"
    and dec :: "'b \<Rightarrow> 'a option"
    and ok :: "'a \<Rightarrow> bool"
  assumes dec_enc: "ok x \<Longrightarrow> dec (enc x) = Some x"
begin

lemma enc_inj: "ok x \<Longrightarrow> ok y \<Longrightarrow> enc x = enc y \<longleftrightarrow> x = y"
  by (metis dec_enc option.inject)

lemma dec_unique: "ok x \<Longrightarrow> dec (enc x) = Some y \<Longrightarrow> y = x"
  using dec_enc by simp

lemma dec_all: "\<forall>x \<in> set xs. ok x \<Longrightarrow> map (dec \<circ> enc) xs = map Some xs"
  using dec_enc by simp

end

section \<open>Invariants of step relations\<close>

text \<open>
  A component that moves by steps, with an invariant: it holds in the start states and every
  step keeps it, so it holds wherever the component can get.
\<close>

locale step_system =
  fixes start :: "'s \<Rightarrow> bool"
    and move :: "'s \<Rightarrow> 's \<Rightarrow> bool"
    and invar :: "'s \<Rightarrow> bool"
  assumes invar_start: "start s \<Longrightarrow> invar s"
    and invar_move: "invar s \<Longrightarrow> move s s' \<Longrightarrow> invar s'"
begin

lemma invar_moves: "move\<^sup>*\<^sup>* s s' \<Longrightarrow> invar s \<Longrightarrow> invar s'"
  by (induction rule: rtranclp_induct) (auto intro: invar_move)

lemma invar_reached: "start s0 \<Longrightarrow> move\<^sup>*\<^sup>* s0 s \<Longrightarrow> invar s"
  using invar_start invar_moves by blast

end

end
