(* ===== verification/ByteOrder.thy ===== *)
theory ByteOrder
  imports Prelude
begin

text \<open>
  Byte order (src/common/cmmobj/comm/Endian.h).

  The host's byte order is the parameter \<open>le\<close> (true on a little-endian host) of every
  definition that looks at the object representation of an integer. \<open>host16\<close> and
  \<open>host32\<close> are that representation, \<open>of_host16\<close> and \<open>of_host32\<close> read it back;
  \<open>htons\<close>, \<open>htonl\<close>, \<open>ntohs\<close> are the POSIX functions the packet code uses.
\<close>

unbundle bit_operations_syntax

section \<open>Object representation\<close>

definition le16 :: "u16 \<Rightarrow> byte list" where
  "le16 w = [ucast w, ucast (drop_bit 8 w)]"

definition le32 :: "u32 \<Rightarrow> byte list" where
  "le32 w = [ucast w, ucast (drop_bit 8 w), ucast (drop_bit 16 w), ucast (drop_bit 24 w)]"

fun of_le16 :: "byte list \<Rightarrow> u16" where
  "of_le16 [a, b] = ucast a OR push_bit 8 (ucast b)"
| "of_le16 _ = 0"

fun of_le32 :: "byte list \<Rightarrow> u32" where
  "of_le32 [a, b, c, d] =
     ucast a OR push_bit 8 (ucast b) OR push_bit 16 (ucast c) OR push_bit 24 (ucast d)"
| "of_le32 _ = 0"

definition host16 :: "bool \<Rightarrow> u16 \<Rightarrow> byte list" where
  "host16 le w = (if le then le16 w else rev (le16 w))"

definition host32 :: "bool \<Rightarrow> u32 \<Rightarrow> byte list" where
  "host32 le w = (if le then le32 w else rev (le32 w))"

definition of_host16 :: "bool \<Rightarrow> byte list \<Rightarrow> u16" where
  "of_host16 le bs = of_le16 (if le then bs else rev bs)"

definition of_host32 :: "bool \<Rightarrow> byte list \<Rightarrow> u32" where
  "of_host32 le bs = of_le32 (if le then bs else rev bs)"

definition be16 :: "u16 \<Rightarrow> byte list" where
  "be16 w = rev (le16 w)"

definition be32 :: "u32 \<Rightarrow> byte list" where
  "be32 w = rev (le32 w)"

lemma byte_bit_ge: "8 \<le> n \<Longrightarrow> \<not> bit (a :: byte) n"
  using bit_imp_le_length [of a n] by auto

lemma of_le16_le16 [simp]: "of_le16 (le16 w) = w"
  by (rule bit_word_eqI) (auto simp: le16_def bit_simps)

lemma of_le32_le32 [simp]: "of_le32 (le32 w) = w"
proof (rule bit_word_eqI)
  fix n
  assume "n < LENGTH(32)"
  then consider "n < 8" | "8 \<le> n" "n < 16" | "16 \<le> n" "n < 24" | "24 \<le> n" "n < 32"
    by fastforce
  then show "bit (of_le32 (le32 w)) n = bit w n"
    by cases (auto simp: le32_def bit_simps)
qed

lemma le16_of_le16 [simp]: "length bs = 2 \<Longrightarrow> le16 (of_le16 bs) = bs"
  by (auto simp: le16_def length_Suc_conv numeral_2_eq_2 bit_simps byte_bit_ge intro!: bit_word_eqI)

lemma le32_of_le32 [simp]: "length bs = 4 \<Longrightarrow> le32 (of_le32 bs) = bs"
proof -
  assume "length bs = 4"
  then obtain a b c d where "bs = [a, b, c, d]"
    by (auto simp: length_Suc_conv eval_nat_numeral)
  then show ?thesis
    by (auto simp: le32_def bit_simps byte_bit_ge intro!: bit_word_eqI)
qed

lemma host_lengths [simp]:
  "length (le16 w) = 2" "length (le32 v) = 4" "length (host16 le w) = 2"
  "length (host32 le v) = 4" "length (be16 w) = 2" "length (be32 v) = 4"
  by (simp_all add: host16_def host32_def le16_def le32_def be16_def be32_def)

interpretation host16_codec: codec "host16 le" "\<lambda>bs. Some (of_host16 le bs)" "\<lambda>_. True" for le
  by unfold_locales (simp add: host16_def of_host16_def)

interpretation host32_codec: codec "host32 le" "\<lambda>bs. Some (of_host32 le bs)" "\<lambda>_. True" for le
  by unfold_locales (simp add: host32_def of_host32_def)

lemma of_host16_host16 [simp]: "of_host16 le (host16 le w) = w"
  using host16_codec.dec_enc by simp

lemma of_host32_host32 [simp]: "of_host32 le (host32 le w) = w"
  using host32_codec.dec_enc by simp

lemma host16_of_host16 [simp]: "length bs = 2 \<Longrightarrow> host16 le (of_host16 le bs) = bs"
  by (simp add: host16_def of_host16_def)

lemma host32_of_host32 [simp]: "length bs = 4 \<Longrightarrow> host32 le (of_host32 le bs) = bs"
  by (simp add: host32_def of_host32_def)

section \<open>The functions of Endian.h\<close>

text \<open>The union of \<open>IsLittleEndian\<close>: the first byte of the integer 1.\<close>

definition IsLittleEndian :: "bool \<Rightarrow> int" where
  "IsLittleEndian le = uint (host32 le 1 ! 0)"

lemma IsLittleEndian_iff [simp]: "IsLittleEndian le \<noteq> 0 \<longleftrightarrow> le"
  by (simp add: IsLittleEndian_def host32_def le32_def)

lemma IsLittleEndian_zero [simp]: "IsLittleEndian le = 0 \<longleftrightarrow> \<not> le"
  using IsLittleEndian_iff by blast

text \<open>The copying loop of \<open>MirrorCopy\<close>; the result carries the returned counter.\<close>

function mirror_loop :: "byte list \<Rightarrow> byte list \<Rightarrow> int \<Rightarrow> int \<Rightarrow> (byte list \<times> int) option" where
  "mirror_loop dst src sz i =
     (if i < sz then do {
        c \<leftarrow> get src (sz - i - 1);
        dst' \<leftarrow> put dst i c;
        mirror_loop dst' src sz (i + 1)
      } else Some (dst, i))"
  by pat_completeness auto
termination
  by (relation "measure (\<lambda>(dst, src, sz, i). nat (sz - i))") auto

declare mirror_loop.simps [simp del]

definition MirrorCopy :: "byte list \<Rightarrow> byte list \<Rightarrow> int \<Rightarrow> (byte list \<times> int) option" where
  "MirrorCopy dst src sz = mirror_loop dst src sz 0"

lemma mirror_loop_rev:
  "length dst = n \<Longrightarrow> length src = n \<Longrightarrow> i \<le> n \<Longrightarrow>
   mirror_loop dst src (int n) (int i) = Some (take i dst @ drop i (rev src), int n)"
proof (induction "n - i" arbitrary: i dst)
  case 0
  then show ?case by (simp add: mirror_loop.simps)
next
  case (Suc k)
  then have lt: "i < n" by simp
  let ?dst = "dst[i := src ! (n - Suc i)]"
  have "get src (int n - int i - 1) = Some (src ! (n - Suc i))"
    using lt Suc.prems by (simp add: get_def nat_diff_distrib' flip: of_nat_diff)
  moreover have "put dst (int i) (src ! (n - Suc i)) = Some ?dst"
    using lt Suc.prems by (simp add: mem_simps)
  ultimately have "mirror_loop dst src (int n) (int i) = mirror_loop ?dst src (int n) (int (Suc i))"
    using lt by (subst mirror_loop.simps) (simp add: add.commute)
  also have "\<dots> = Some (take (Suc i) ?dst @ drop (Suc i) (rev src), int n)"
    using Suc.prems lt Suc.hyps(2) by (intro Suc.hyps(1)) auto
  also have "take (Suc i) ?dst @ drop (Suc i) (rev src) = take i dst @ drop i (rev src)"
    using lt Suc.prems
    by (simp add: take_Suc_conv_app_nth rev_nth flip: Cons_nth_drop_Suc)
  finally show ?case .
qed

lemma MirrorCopy_rev:
  assumes "length dst = n" "length src = n"
  shows "MirrorCopy dst src (int n) = Some (rev src, int n)"
  using mirror_loop_rev [OF assms, of 0] by (simp add: MirrorCopy_def)

text \<open>
  \<open>tmp = _Src; if (cond) MirrorCopy(&tmp, &_Src, sizeof(_Src)); return tmp;\<close> on the two widths.
\<close>

definition mirror16 :: "bool \<Rightarrow> bool \<Rightarrow> u16 \<Rightarrow> u16 option" where
  "mirror16 le cond w =
     (if cond then do {
        (tmp, _) \<leftarrow> MirrorCopy (host16 le w) (host16 le w) 2;
        Some (of_host16 le tmp)
      } else Some w)"

definition mirror32 :: "bool \<Rightarrow> bool \<Rightarrow> u32 \<Rightarrow> u32 option" where
  "mirror32 le cond w =
     (if cond then do {
        (tmp, _) \<leftarrow> MirrorCopy (host32 le w) (host32 le w) 4;
        Some (of_host32 le tmp)
      } else Some w)"

definition WordToBigEndian :: "bool \<Rightarrow> u16 \<Rightarrow> u16 option" where
  "WordToBigEndian le w = mirror16 le (IsLittleEndian le \<noteq> 0) w"

definition WordToLittleEndian :: "bool \<Rightarrow> u16 \<Rightarrow> u16 option" where
  "WordToLittleEndian le w = mirror16 le (\<not> IsLittleEndian le \<noteq> 0) w"

definition WordFromBigEndian :: "bool \<Rightarrow> u16 \<Rightarrow> u16 option" where
  "WordFromBigEndian le w = mirror16 le (IsLittleEndian le \<noteq> 0) w"

definition WordFromLittleEndian :: "bool \<Rightarrow> u16 \<Rightarrow> u16 option" where
  "WordFromLittleEndian le w = mirror16 le (\<not> IsLittleEndian le \<noteq> 0) w"

definition DWordToBigEndian :: "bool \<Rightarrow> u32 \<Rightarrow> u32 option" where
  "DWordToBigEndian le w = mirror32 le (IsLittleEndian le \<noteq> 0) w"

definition DWordToLittleEndian :: "bool \<Rightarrow> u32 \<Rightarrow> u32 option" where
  "DWordToLittleEndian le w = mirror32 le (\<not> IsLittleEndian le \<noteq> 0) w"

definition DWordFromBigEndian :: "bool \<Rightarrow> u32 \<Rightarrow> u32 option" where
  "DWordFromBigEndian le w = mirror32 le (IsLittleEndian le \<noteq> 0) w"

definition DWordFromLittleEndian :: "bool \<Rightarrow> u32 \<Rightarrow> u32 option" where
  "DWordFromLittleEndian le w = mirror32 le (\<not> IsLittleEndian le \<noteq> 0) w"

text \<open>A \<open>float\<close> is its 32-bit representation, a \<open>short\<close> its 16-bit one.\<close>

definition SwapFloat :: "bool \<Rightarrow> u32 \<Rightarrow> u32 option" where
  "SwapFloat le f = mirror32 le (IsLittleEndian le \<noteq> 0) f"

definition SwapWord :: "bool \<Rightarrow> u16 \<Rightarrow> u16 option" where
  "SwapWord le w = mirror16 le (IsLittleEndian le \<noteq> 0) w"

definition SwapDword :: "bool \<Rightarrow> u32 \<Rightarrow> u32 option" where
  "SwapDword le w = mirror32 le (IsLittleEndian le \<noteq> 0) w"

lemma mirror16_eq:
  "mirror16 le c w = Some (if c then of_host16 le (rev (host16 le w)) else w)"
  using MirrorCopy_rev [of "host16 le w" 2 "host16 le w"] by (simp add: mirror16_def)

lemma mirror32_eq:
  "mirror32 le c w = Some (if c then of_host32 le (rev (host32 le w)) else w)"
  using MirrorCopy_rev [of "host32 le w" 4 "host32 le w"] by (simp add: mirror32_def)

lemma mirror16_involutive: "mirror16 le c w = Some v \<Longrightarrow> mirror16 le c v = Some w"
  by (auto simp: mirror16_eq)

lemma mirror32_involutive: "mirror32 le c w = Some v \<Longrightarrow> mirror32 le c v = Some w"
  by (auto simp: mirror32_eq)

lemmas endian_defs =
  WordToBigEndian_def WordToLittleEndian_def WordFromBigEndian_def WordFromLittleEndian_def
  DWordToBigEndian_def DWordToLittleEndian_def DWordFromBigEndian_def DWordFromLittleEndian_def
  SwapFloat_def SwapWord_def SwapDword_def

section \<open>Network byte order\<close>

text \<open>POSIX: the value whose object representation is the big-endian form of the argument.\<close>

definition htons :: "bool \<Rightarrow> u16 \<Rightarrow> u16" where
  "htons le w = of_host16 le (be16 w)"

definition ntohs :: "bool \<Rightarrow> u16 \<Rightarrow> u16" where
  "ntohs le w = of_le16 (rev (host16 le w))"

definition htonl :: "bool \<Rightarrow> u32 \<Rightarrow> u32" where
  "htonl le w = of_host32 le (be32 w)"

lemma ntohs_htons [simp]: "ntohs le (htons le w) = w"
  by (simp add: ntohs_def htons_def be16_def)

lemma host16_htons [simp]: "host16 le (htons le w) = be16 w"
  by (simp add: htons_def)

lemma host32_htonl [simp]: "host32 le (htonl le w) = be32 w"
  by (simp add: htonl_def)

lemma SwapWord_htons: "SwapWord le w = Some (htons le w)"
  by (simp add: SwapWord_def mirror16_eq htons_def of_host16_def host16_def be16_def)

text \<open>
  On hosts of both byte orders the big-endian conversions of Endian.h never leave their
  arrays, the value they return is laid out in memory as the big-endian bytes of the argument,
  and the conversions from big-endian bring the argument back.
\<close>

theorem endian_portable:
  "\<exists>u v. WordToBigEndian le w = Some u \<and> host16 le u = be16 w \<and> WordFromBigEndian le u = Some w \<and>
     DWordToBigEndian le x = Some v \<and> host32 le v = be32 x \<and> DWordFromBigEndian le v = Some x \<and>
     (\<exists>u' v'. WordToLittleEndian le w = Some u' \<and> host16 le u' = le16 w \<and>
        WordFromLittleEndian le u' = Some w \<and>
        DWordToLittleEndian le x = Some v' \<and> host32 le v' = le32 x \<and>
        DWordFromLittleEndian le v' = Some x)"
  by (simp add: endian_defs mirror16_eq mirror32_eq host16_def host32_def of_host16_def
      of_host32_def be16_def be32_def)

end
