(* ===== verification/CommFun.thy ===== *)
theory CommFun
  imports ByteOrder
begin

text \<open>
  The free functions of CommFun.h (src/common/cmmobj/comm/CommFun.h): hexadecimal and binary
  text, dotted addresses, tokens, wide characters and times. Characters are bytes; a C string
  argument is the list of its characters before the terminating zero. What the C library
  supplies (the clock, the locale's character conversion) is a parameter.
\<close>

section \<open>Hexadecimal text\<close>

definition toupper :: "byte \<Rightarrow> byte" where
  "toupper c = (if 97 \<le> c \<and> c \<le> 122 then c - 32 else c)"

definition hex_digit :: "byte \<Rightarrow> byte" where
  "hex_digit h = (let s = toupper h - 0x30 in if s > 9 then s - 7 else s)"

fun StrToHex_loop :: "byte list \<Rightarrow> byte list \<Rightarrow> nat \<Rightarrow> nat \<Rightarrow> byte list option" where
  "StrToHex_loop dest src i 0 = Some dest"
| "StrToHex_loop dest src i (Suc k) = do {
     h1 \<leftarrow> get src (int (2 * i));
     h2 \<leftarrow> get src (int (2 * i + 1));
     dest \<leftarrow> put dest (int i) (hex_digit h1 * 16 + hex_digit h2);
     StrToHex_loop dest src (Suc i) k
   }"

definition StrToHex :: "byte list \<Rightarrow> byte list \<Rightarrow> int \<Rightarrow> byte list option" where
  "StrToHex dest src nLen = StrToHex_loop dest src 0 (nat nLen)"

definition hex_char :: "byte \<Rightarrow> byte" where
  "hex_char d = (let c = 48 + d in if c > 57 then c + 7 else c)"

fun HexToStr_loop :: "byte list \<Rightarrow> byte list \<Rightarrow> nat \<Rightarrow> nat \<Rightarrow> byte list option" where
  "HexToStr_loop dest src i 0 = Some dest"
| "HexToStr_loop dest src i (Suc k) = do {
     b \<leftarrow> get src (int i);
     dest \<leftarrow> put dest (int (i * 2)) (hex_char (b div 16));
     dest \<leftarrow> put dest (int (i * 2 + 1)) (hex_char (b mod 16));
     HexToStr_loop dest src (Suc i) k
   }"

definition HexToStr :: "byte list \<Rightarrow> byte list \<Rightarrow> int \<Rightarrow> byte list option" where
  "HexToStr dest src nLen = do {
     dest \<leftarrow> HexToStr_loop dest src 0 (nat nLen);
     put dest (nLen * 2) 0
   }"

fun hex_text :: "byte list \<Rightarrow> byte list" where
  "hex_text [] = []"
| "hex_text (b # bs) = hex_char (b div 16) # hex_char (b mod 16) # hex_text bs"

lemma hex_text_length [simp]: "length (hex_text bs) = 2 * length bs"
  by (induction bs) auto

definition nibbles :: "byte list" where
  "nibbles = [0, 1, 2, 3, 4, 5, 6, 7, 8, 9, 10, 11, 12, 13, 14, 15]"

lemma nibble_range: "(x :: byte) < 16 \<Longrightarrow> x \<in> set nibbles"
proof -
  assume "x < 16"
  then have "unat x < 16" by (simp add: word_less_nat_alt)
  then have "x \<in> word_of_nat ` {..<16}" by (auto intro: image_eqI [of _ _ "unat x"])
  then show ?thesis by (simp add: nibbles_def lessThan_nat_numeral lessThan_Suc) blast
qed

lemma hex_digit_char: "d < 16 \<Longrightarrow> hex_digit (hex_char d) = d"
  using nibble_range [of d]
  by (auto simp: nibbles_def hex_digit_def hex_char_def toupper_def Let_def)

lemma nibble_lt: "b div 16 < 16" "b mod 16 < 16" for b :: byte
proof -
  show "b div 16 < 16"
    by (simp add: word_less_nat_alt unat_div less_mult_imp_div_less order_less_le_trans [OF unsigned_less])
  show "b mod 16 < 16" by (simp add: word_mod_less_divisor)
qed

lemma hex_pair: "hex_digit (hex_char (b div 16)) * 16 + hex_digit (hex_char (b mod 16)) = b"
proof -
  show ?thesis using nibble_lt [of b] div_mult_mod_eq [of b 16] by (simp add: hex_digit_char)
qed


lemma take_Suc_nth: "i < length xs \<Longrightarrow> take (Suc i) xs = take i xs @ [xs ! i]"
  by (rule take_Suc_conv_app_nth)

lemma StrToHex_loop_spec:
  "length dest \<ge> i + k \<Longrightarrow> drop (2 * i) src = hex_text bs @ rest \<Longrightarrow> length bs = k \<Longrightarrow>
   StrToHex_loop dest src i k = Some (take i dest @ bs @ drop (i + k) dest)"
proof (induction k arbitrary: i dest bs)
  case (Suc k)
  then obtain b cs where bs: "bs = b # cs" "length cs = k" by (cases bs) auto
  let ?h = "hex_char (b div 16)" and ?l = "hex_char (b mod 16)"
  have d: "drop (2 * i) src = ?h # ?l # hex_text cs @ rest" using Suc.prems(2) bs by simp
  have l: "2 * i + 1 < length src" using arg_cong [OF d, of length] by simp
  have h: "src ! (2 * i) = ?h" "src ! (2 * i + 1) = ?l"
    using l arg_cong [OF d, of "\<lambda>xs. xs ! 0"] arg_cong [OF d, of "\<lambda>xs. xs ! 1"] by simp_all
  have d': "drop (2 * Suc i) src = hex_text cs @ rest"
    using arg_cong [OF d, of "drop 2"] by (simp add: numeral_2_eq_2)
  have "get src (int (2 * i)) = Some ?h" "get src (int (2 * i + 1)) = Some ?l"
    using l h get_nat [of "2 * i" src] get_nat [of "2 * i + 1" src] by simp_all
  then have "StrToHex_loop dest src i (Suc k) = StrToHex_loop (dest[i := b]) src (Suc i) k"
    using Suc.prems(1) hex_pair [of b] put_nat [of i dest b] by simp
  also have "\<dots> = Some (take (Suc i) (dest[i := b]) @ cs @ drop (Suc i + k) (dest[i := b]))"
    using Suc.prems(1) d' bs(2) by (intro Suc.IH) auto
  also have "take (Suc i) (dest[i := b]) = take i dest @ [b]"
    using Suc.prems(1) by (simp add: take_Suc_conv_app_nth)
  finally show ?case using bs by simp
qed simp

lemma HexToStr_loop_spec:
  "length dest \<ge> 2 * (i + k) \<Longrightarrow> i + k \<le> length src \<Longrightarrow>
   HexToStr_loop dest src i k = Some (take (2 * i) dest @ hex_text (take k (drop i src)) @ drop (2 * (i + k)) dest)"
proof (induction k arbitrary: i dest)
  case (Suc k)
  let ?b = "src ! i"
  let ?d = "dest[2 * i := hex_char (?b div 16), 2 * i + 1 := hex_char (?b mod 16)]"
  have "get src (int i) = Some ?b" using Suc.prems by (simp add: mem_simps)
  moreover have "put dest (int (i * 2)) x = Some (dest[2 * i := x])" for x
    using Suc.prems put_nat [of "i * 2" dest x] by (simp add: mult.commute)
  moreover have "put (dest[2 * i := y]) (int (i * 2 + 1)) x = Some (dest[2 * i := y, 2 * i + 1 := x])" for x y
    using Suc.prems put_nat [of "i * 2 + 1" "dest[2 * i := y]" x] by (simp add: mult.commute)
  ultimately have "HexToStr_loop dest src i (Suc k) = HexToStr_loop ?d src (Suc i) k" by simp
  also have "\<dots> = Some (take (2 * Suc i) ?d @ hex_text (take k (drop (Suc i) src)) @ drop (2 * (Suc i + k)) ?d)"
    using Suc.prems by (intro Suc.IH) auto
  also have "take (2 * Suc i) ?d = take (2 * i) dest @ [hex_char (?b div 16), hex_char (?b mod 16)]"
    using Suc.prems by (simp add: take_Suc_conv_app_nth)
  finally have r: "HexToStr_loop dest src i (Suc k) = Some ((take (2 * i) dest @
      [hex_char (?b div 16), hex_char (?b mod 16)]) @ hex_text (take k (drop (Suc i) src)) @
      drop (2 * (Suc i + k)) ?d)" .
  have "hex_text (take (Suc k) (drop i src)) = hex_char (?b div 16) # hex_char (?b mod 16) #
      hex_text (take k (drop (Suc i) src))"
    using Suc.prems by (simp flip: Cons_nth_drop_Suc)
  then show ?case unfolding r by simp
qed simp

lemma HexToStr_spec:
  assumes "2 * length bs < length dest"
  shows "HexToStr dest bs (int (length bs)) = Some (hex_text bs @ 0 # drop (2 * length bs + 1) dest)"
proof -
  have "HexToStr_loop dest bs 0 (length bs) = Some (hex_text bs @ drop (2 * length bs) dest)"
    using HexToStr_loop_spec [of 0 "length bs" dest bs] assms by simp
  moreover have "drop (2 * length bs) dest = dest ! (2 * length bs) # drop (2 * length bs + 1) dest"
    using assms by (simp add: Cons_nth_drop_Suc)
  ultimately show ?thesis
    using put_nat [of "2 * length bs" "hex_text bs @ drop (2 * length bs) dest" 0] assms
    by (simp add: HexToStr_def list_update_append mult.commute)
qed

text \<open>
  \<open>HexToStr\<close> writes two upper-case digits per byte and the terminating zero into an array
  of at least 2 n + 1 cells, and \<open>StrToHex\<close> reads every such text back to the bytes.
\<close>

theorem hex_roundtrip:
  assumes "2 * length bs < length dest" and "length bs \<le> length out"
  shows "\<exists>txt. HexToStr dest bs (int (length bs)) = Some (txt @ 0 # drop (2 * length bs + 1) dest) \<and>
    length txt = 2 * length bs \<and> (\<forall>c \<in> set txt. 48 \<le> c \<and> c \<le> 57 \<or> 65 \<le> c \<and> c \<le> 70) \<and>
    StrToHex out (txt @ rest) (int (length bs)) = Some (bs @ drop (length bs) out)"
proof -
  have "48 \<le> hex_char d \<and> hex_char d \<le> 57 \<or> 65 \<le> hex_char d \<and> hex_char d \<le> 70" if "d < 16" for d
    using nibble_range [OF that] by (auto simp: nibbles_def hex_char_def Let_def)
  then have "\<forall>c \<in> set (hex_text bs). 48 \<le> c \<and> c \<le> 57 \<or> 65 \<le> c \<and> c \<le> 70"
    using nibble_lt by (induction bs) auto
  moreover have "StrToHex out (hex_text bs @ rest) (int (length bs)) = Some (bs @ drop (length bs) out)"
    using StrToHex_loop_spec [of 0 "length bs" out "hex_text bs @ rest" bs rest] assms
    by (simp add: StrToHex_def)
  ultimately show ?thesis using HexToStr_spec [OF assms(1)] by (intro exI [of _ "hex_text bs"]) simp
qed

theorem hex_roundtrip_witness:
  "\<exists>txt. HexToStr [1, 1, 1, 1, 1] [0xAB, 0x0C] 2 = Some (txt @ [0]) \<and> length txt = 4 \<and>
     StrToHex [0, 0] txt 2 = Some [0xAB, 0x0C]"
  using hex_roundtrip [of "[0xAB, 0x0C]" "[1, 1, 1, 1, 1]" "[0, 0]" "[]"] by auto


section \<open>Binary text\<close>

fun bit_text :: "byte \<Rightarrow> byte \<Rightarrow> nat \<Rightarrow> byte list" where
  "bit_text c k 0 = []"
| "bit_text c k (Suc n) = (if c AND k \<noteq> 0 then 49 else 48) # bit_text c (drop_bit 1 k) n"

definition StringToBinary :: "byte list \<Rightarrow> byte list \<Rightarrow> byte list" where
  "StringToBinary src des = (if src = [] then des else des @ concat (map (\<lambda>c. bit_text c 0x80 8) src))"

section \<open>Tokens\<close>

text \<open>The tokens \<open>strtok\<close> cuts: maximal runs without a separator.\<close>

function tokens :: "byte list \<Rightarrow> byte list \<Rightarrow> byte list list" where
  "tokens split s =
     (let s' = dropWhile (\<lambda>c. c \<in> set split) s
      in if s' = [] then []
         else takeWhile (\<lambda>c. c \<notin> set split) s' # tokens split (dropWhile (\<lambda>c. c \<notin> set split) s'))"
  by pat_completeness auto
termination
proof (relation "measure (\<lambda>(d, s). length s)", goal_cases)
  case (2 split s s')
  then obtain c r where s': "s' = c # r" and c: "c \<notin> set split"
    using hd_dropWhile [of "\<lambda>c. c \<in> set split" s] by (metis list.exhaust list.sel(1))
  have "length s' \<le> length s" using 2(1) by (simp add: length_dropWhile_le)
  moreover have "length (dropWhile (\<lambda>c. c \<notin> set split) s') \<le> length r"
    using s' c by (simp add: length_dropWhile_le)
  ultimately show ?case using s' by simp
qed simp

declare tokens.simps [simp del]

text \<open>\<open>lstStr\<close> is the caller's vector; the copy of the text ends at its first zero.\<close>

definition Strtok :: "byte list \<Rightarrow> byte list \<Rightarrow> byte list list \<Rightarrow> bool \<times> byte list list" where
  "Strtok strSrc split lstStr =
     (if strSrc = [] then (False, lstStr)
      else let lst = lstStr @ tokens split (takeWhile (\<lambda>c. c \<noteq> 0) strSrc) in (lst \<noteq> [], lst))"

fun join :: "byte \<Rightarrow> byte list list \<Rightarrow> byte list" where
  "join d [] = []"
| "join d [f] = f"
| "join d (f # fs) = f @ d # join d fs"

lemma tokens_Nil [simp]: "tokens split [] = []"
  by (simp add: tokens.simps)

lemma tokens_skip: "d \<in> set split \<Longrightarrow> tokens split (d # s) = tokens split s"
  by (subst (1 2) tokens.simps) simp

lemma tokens_field:
  assumes "f \<noteq> []" "\<forall>c \<in> set f. c \<notin> set split" "s = [] \<or> hd s \<in> set split"
  shows "tokens split (f @ s) = f # tokens split s"
proof -
  have d: "dropWhile (\<lambda>c. c \<in> set split) (f @ s) = f @ s"
    using assms(1,2) by (cases f) auto
  have t: "takeWhile (\<lambda>c. c \<notin> set split) (f @ s) = f" "dropWhile (\<lambda>c. c \<notin> set split) (f @ s) = s"
    using assms(2,3) by (cases s; simp)+
  show ?thesis
    using assms(1) by (subst tokens.simps) (simp add: d t Let_def)
qed

lemma tokens_join:
  "d \<in> set split \<Longrightarrow> \<forall>f \<in> set fs. f \<noteq> [] \<and> (\<forall>c \<in> set f. c \<notin> set split) \<Longrightarrow> tokens split (join d fs) = fs"
proof (induction d fs rule: join.induct)
  case (2 d f)
  then show ?case using tokens_field [of f split "[]"] by simp
next
  case (3 d f g fs)
  then show ?case using tokens_field [of f split "d # join d (g # fs)"] by (simp add: tokens_skip)
qed simp

lemma set_join: "set (join d fs) \<subseteq> insert d (\<Union> (set ` set fs))"
  by (induction d fs rule: join.induct) auto

lemma join_ne: "fs \<noteq> [] \<Longrightarrow> \<forall>f \<in> set fs. f \<noteq> [] \<Longrightarrow> join d fs \<noteq> []"
  by (induction d fs rule: join.induct) auto

text \<open>
  \<open>Strtok\<close> takes a separated text apart: fields that are non-empty and contain neither the
  separator nor a zero, joined by any of the separators, are appended to the caller's list in
  order, and the call reports success.
\<close>

theorem strtok_join:
  assumes "fs \<noteq> []" and "d \<in> set split" and "d \<noteq> 0"
    and "\<forall>f \<in> set fs. f \<noteq> [] \<and> (\<forall>c \<in> set f. c \<notin> set split \<and> c \<noteq> 0)"
  shows "Strtok (join d fs) split lst = (True, lst @ fs)"
proof -
  have "\<forall>c \<in> set (join d fs). c \<noteq> 0" using assms(3,4) set_join [of d fs] by blast
  then have tw: "takeWhile (\<lambda>c. c \<noteq> 0) (join d fs) = join d fs" by (simp add: takeWhile_eq_all_conv)
  have "tokens split (join d fs) = fs" by (rule tokens_join) (use assms in auto)
  moreover have "join d fs \<noteq> []" by (rule join_ne) (use assms in auto)
  ultimately show ?thesis using assms(1) by (simp add: Strtok_def Let_def tw)
qed

theorem strtok_join_witness:
  "Strtok (join 44 [[49, 50], [51]]) [44, 59] [[65]] = (True, [[65], [49, 50], [51]])"
  using strtok_join [of "[[49, 50], [51]]" 44 "[44, 59]" "[[65]]"] by simp

section \<open>Dotted addresses\<close>

text \<open>The digits \<open>%u\<close> prints, and the number a run of characters is read as.\<close>

fun dec_digits :: "nat \<Rightarrow> byte list" where
  "dec_digits n = (if n < 10 then [48 + of_nat n] else dec_digits (n div 10) @ [48 + of_nat (n mod 10)])"

declare dec_digits.simps [simp del]

fun read_dec :: "int \<Rightarrow> byte list \<Rightarrow> int option" where
  "read_dec temp [] = Some temp"
| "read_dec temp (c # cs) = do {
     t \<leftarrow> i32 (temp * 10);
     t \<leftarrow> i32 (t + sint c);
     t \<leftarrow> i32 (t - 48);
     read_dec t cs
   }"

text \<open>
  \<open>pStart\<close> and \<open>pEnd\<close> meet at the head of the outer loop; the list is what they point at.
  Shifting a negative number or by a negative amount is undefined.
\<close>

function ip_loop :: "byte list \<Rightarrow> int \<Rightarrow> u32 \<Rightarrow> u32 option" where
  "ip_loop s nShift uResult =
     (if s = [] then Some uResult
      else do {
        temp \<leftarrow> read_dec 0 (takeWhile (\<lambda>c. c \<noteq> 46) s);
        if nShift < 0 \<or> temp < 0 then None
        else do {
          let uResult = uResult + push_bit (nat nShift) (of_int temp);
          let rest = dropWhile (\<lambda>c. c \<noteq> 46) s;
          if rest = [] then Some uResult else ip_loop (tl rest) (nShift - 8) uResult
        }
      })"
  by pat_completeness auto
termination
proof (relation "measure (\<lambda>(s, n, u). length s)", goal_cases)
  case (2 s n u t x xa)
  then show ?case
    using length_dropWhile_le [of "\<lambda>c. c \<noteq> 46" s] by (cases "dropWhile (\<lambda>c. c \<noteq> 46) s") auto
qed simp

declare ip_loop.simps [simp del]

definition IPStrToInt :: "byte list \<Rightarrow> u32 option" where
  "IPStrToInt ip = ip_loop ip 24 0"

definition IntIpToStr :: "bool \<Rightarrow> u32 \<Rightarrow> byte list \<Rightarrow> byte list option" where
  "IntIpToStr le ip buf =
     wr buf 0 (join 46 (map (\<lambda>b. dec_digits (unat b)) (host32 le ip)) @ [0])"

lemma dec_digits_range: "c \<in> set (dec_digits n) \<Longrightarrow> 48 \<le> c \<and> c \<le> 57"
proof (induction n rule: dec_digits.induct)
  case (1 n)
  have d: "48 \<le> (48 + of_nat k :: byte) \<and> (48 + of_nat k :: byte) \<le> 57" if "k < 10" for k
  proof -
    have "k \<in> {..<10}" using that by simp
    then show ?thesis by (auto simp: lessThan_nat_numeral lessThan_Suc)
  qed
  show ?case
    using 1 d [of n] d [of "n mod 10"] by (subst (asm) (2) dec_digits.simps) (auto split: if_splits)
qed

lemma dec_digits_ne: "dec_digits n \<noteq> []"
  by (simp add: dec_digits.simps [of n])

lemma read_dec_append: "read_dec t (xs @ ys) = read_dec t xs \<bind> (\<lambda>t. read_dec t ys)"
  by (induction xs arbitrary: t) (auto simp: bind_assoc split: Option.bind_splits)

lemma sint_digit: "k < 10 \<Longrightarrow> sint (48 + of_nat k :: byte) = 48 + int k"
proof -
  assume "k < 10"
  then have "k \<in> {..<10}" by simp
  then show ?thesis by (auto simp: lessThan_nat_numeral lessThan_Suc)
qed

lemma read_dec_digits: "n < 100000000 \<Longrightarrow> read_dec 0 (dec_digits n) = Some (int n)"
proof (induction n rule: dec_digits.induct)
  case (1 n)
  show ?case
  proof (cases "n < 10")
    case True
    then show ?thesis by (simp add: dec_digits.simps [of n] i32_Some sint_digit)
  next
    case False
    then have "read_dec 0 (dec_digits (n div 10)) = Some (int (n div 10))" using 1 by simp
    moreover have "int (n div 10) * 10 + int (n mod 10) = int n" by presburger
    ultimately show ?thesis
      using False 1(2) by (simp add: dec_digits.simps [of n] read_dec_append i32_Some sint_digit zdiv_int zmod_int)
  qed
qed

lemma ip_loop_field:
  assumes "n < 256" "0 \<le> sh"
  shows "ip_loop (dec_digits n @ 46 # s) sh u = ip_loop s (sh - 8) (u + push_bit (nat sh) (of_nat n))"
    and "ip_loop (dec_digits n) sh u = Some (u + push_bit (nat sh) (of_nat n))"
proof -
  have c: "\<forall>c \<in> set (dec_digits n). c \<noteq> 46" using dec_digits_range [of _ n] by fastforce
  then have "takeWhile (\<lambda>c. c \<noteq> 46) (dec_digits n @ 46 # s) = dec_digits n"
    "dropWhile (\<lambda>c. c \<noteq> 46) (dec_digits n @ 46 # s) = 46 # s" by simp_all
  then show "ip_loop (dec_digits n @ 46 # s) sh u = ip_loop s (sh - 8) (u + push_bit (nat sh) (of_nat n))"
    using assms dec_digits_ne [of n] by (subst ip_loop.simps) (simp add: read_dec_digits)
  have tw: "takeWhile (\<lambda>c. c \<noteq> 46) (dec_digits n) = dec_digits n" "dropWhile (\<lambda>c. c \<noteq> 46) (dec_digits n) = []"
    using c by (simp_all add: takeWhile_eq_all_conv)
  show "ip_loop (dec_digits n) sh u = Some (u + push_bit (nat sh) (of_nat n))"
    using assms dec_digits_ne [of n] by (subst ip_loop.simps) (simp add: tw read_dec_digits)
qed


lemma IPStrToInt_dotted:
  assumes "a < 256" "b < 256" "c < 256" "d < 256"
  shows "IPStrToInt (join 46 (map dec_digits [a, b, c, d])) =
    Some (push_bit 24 (of_nat a) + push_bit 16 (of_nat b) + push_bit 8 (of_nat c) + of_nat d)"
  using assms by (simp add: IPStrToInt_def ip_loop_field)

lemma join_bytes: "of_le32 [d, c, b, a] =
   push_bit 24 (of_nat (unat a)) + push_bit 16 (of_nat (unat b)) + push_bit 8 (of_nat (unat c)) + of_nat (unat d)"
proof -
  let ?a = "push_bit 24 (ucast a) :: u32" and ?b = "push_bit 16 (ucast b) :: u32"
    and ?c = "push_bit 8 (ucast c) :: u32" and ?d = "ucast d :: u32"
  have ab: "?a + ?b = ?a OR ?b"
    by (rule disjunctive_add) (auto simp: bit_simps byte_bit_ge)
  have abc: "(?a OR ?b) + ?c = ?a OR ?b OR ?c"
    unfolding or.assoc [symmetric] by (rule disjunctive_add) (auto simp: bit_simps byte_bit_ge)
  have "(?a OR ?b OR ?c) + ?d = ?a OR ?b OR ?c OR ?d"
    unfolding or.assoc [symmetric] by (rule disjunctive_add) (auto simp: bit_simps byte_bit_ge)
  then have "?a + ?b + ?c + ?d = ?a OR ?b OR ?c OR ?d" by (simp only: ab abc)
  then show ?thesis by (simp add: unsigned_def ac_simps)
qed

lemma dotted_length: "n < 256 \<Longrightarrow> length (dec_digits n) \<le> 3"
  by (subst dec_digits.simps, subst dec_digits.simps, subst dec_digits.simps) auto

text \<open>
  The two address functions agree on the dotted text: \<open>IntIpToStr\<close> prints the bytes of an
  address in network order, within 16 characters, and \<open>IPStrToInt\<close> reads the text back to the
  same address in host order. (On a little-endian host they are therefore not inverse.)
\<close>

theorem ip_text_roundtrip:
  assumes "16 \<le> length buf"
  shows "\<exists>txt rest. IntIpToStr le (htonl le ip) buf = Some (txt @ 0 # rest) \<and> 0 \<notin> set txt \<and>
    length txt \<le> 15 \<and> IPStrToInt txt = Some ip"
proof -
  obtain a b c d where be: "be32 ip = [a, b, c, d]" by (simp add: be32_def le32_def)
  let ?t = "join 46 (map dec_digits [unat a, unat b, unat c, unat d])"
  have lt: "unat x < 256" for x :: byte using unsigned_less [of x] by simp
  have len: "length ?t \<le> 15"
    using dotted_length [OF lt [of a]] dotted_length [OF lt [of b]] dotted_length [OF lt [of c]]
      dotted_length [OF lt [of d]] by simp
  have le: "le32 ip = [d, c, b, a]" using arg_cong [OF be, of rev] by (simp add: be32_def)
  have "ip = of_le32 [d, c, b, a]" using of_le32_le32 [of ip] unfolding le by simp
  then have "IPStrToInt ?t = Some ip"
    using IPStrToInt_dotted [OF lt lt lt lt, of a b c d] join_bytes [of d c b a] by simp
  moreover have "IntIpToStr le (htonl le ip) buf = Some (?t @ 0 # drop (Suc (length ?t)) buf)"
    using assms len by (simp add: IntIpToStr_def be wr_def)
  moreover have "0 \<notin> set ?t" using dec_digits_range [of 0] by fastforce
  ultimately show ?thesis using len by blast
qed

theorem ip_text_roundtrip_witness:
  "\<exists>txt rest. IntIpToStr True (htonl True 0x7F000001) (replicate 16 0) = Some (txt @ 0 # rest) \<and>
     0 \<notin> set txt \<and> length txt \<le> 15 \<and> IPStrToInt txt = Some 0x7F000001"
  by (rule ip_text_roundtrip) simp

section \<open>Clock\<close>

text \<open>The broken-down times come from the C library.\<close>

record tm =
  tm_year :: int
  tm_mon :: int
  tm_mday :: int
  tm_hour :: int
  tm_min :: int
  tm_sec :: int

definition GetTimezone :: "tm \<Rightarrow> tm \<Rightarrow> int" where
  "GetTimezone tm_local tm_gmt =
     (let time_zone = tm_hour tm_local - tm_hour tm_gmt
      in if time_zone < -12 then time_zone + 24
         else if time_zone > 12 then time_zone - 24
         else time_zone)"

text \<open>\<open>%d\<close> and \<open>%0wd\<close> of a number that is not negative.\<close>

definition fmt_d :: "int \<Rightarrow> byte list" where
  "fmt_d n = (if n < 0 then 45 # dec_digits (nat (- n)) else dec_digits (nat n))"

definition fmt_0d :: "nat \<Rightarrow> int \<Rightarrow> byte list" where
  "fmt_0d w n =
     (let s = (if n < 0 then 1 else 0); t = dec_digits (nat \<bar>n\<bar>)
      in (if n < 0 then [45] else []) @ replicate (w - s - length t) 48 @ t)"

definition used_zone :: "int \<Rightarrow> int" where
  "used_zone z = (if 0 \<ge> z then 8 else z)"

definition GetSecondTime :: "tm \<Rightarrow> tm \<Rightarrow> byte list" where
  "GetSecondTime t tm_gmt =
     fmt_d (tm_year t + 1900) @ [45] @ fmt_0d 2 (tm_mon t + 1) @ [45] @ fmt_0d 2 (tm_mday t) @ [32] @
     fmt_0d 2 (tm_hour t + used_zone (GetTimezone t tm_gmt)) @ [58] @ fmt_0d 2 (tm_min t) @ [58] @
     fmt_0d 2 (tm_sec t)"

definition GetMillionTime :: "tm \<Rightarrow> tm \<Rightarrow> int \<Rightarrow> byte list" where
  "GetMillionTime t tm_gmt tv_usec = GetSecondTime t tm_gmt @ [46] @ fmt_0d 3 (tv_usec div 1000)"

definition GetCurClock :: "tm \<Rightarrow> byte list" where
  "GetCurClock t = fmt_0d 2 (tm_hour t) @ [58] @ fmt_0d 2 (tm_min t) @ [58] @ fmt_0d 2 (tm_sec t)"

definition IsTimeOut :: "int \<Rightarrow> int \<Rightarrow> int \<Rightarrow> bool" where
  "IsTimeOut CurTime InitTime nTimeOut \<longleftrightarrow> nTimeOut < CurTime - InitTime"

lemma day_mod:
  assumes "-24 \<le> s" "s < (48 :: int)"
  shows "s mod 24 = (if s < 0 then s + 24 else if 24 \<le> s then s - 24 else s)"
proof -
  consider "s < 0" | "0 \<le> s \<and> s < 24" | "24 \<le> s" by linarith
  then show ?thesis
  proof cases
    case 1
    then have "(s + 24) mod 24 = s + 24" using assms by (intro mod_pos_pos_trivial) auto
    then show ?thesis using 1 by simp
  next
    case 3
    then have "(s - 24) mod 24 = s - 24" using assms by (intro mod_pos_pos_trivial) auto
    then show ?thesis using 3 by simp
  qed (simp add: mod_pos_pos_trivial)
qed

text \<open>
  \<open>GetTimezone\<close> recovers the offset of the local clock from the two hours at every hour of
  the day for the whole-hour offsets from -11 to +11. At +12 it does so only before noon UTC
  (afterwards it answers -12), and at +13 and +14 it is off by a whole day.
\<close>

theorem timezone_recovered:
  assumes "0 \<le> tm_hour g" and "tm_hour g < 24" and "-11 \<le> off" and "off \<le> 14"
    and "tm_hour l = (tm_hour g + off) mod 24"
  shows "GetTimezone l g =
    (if off \<le> 11 \<or> off = 12 \<and> tm_hour g < 12 then off else off - 24)"
proof -
  have "tm_hour l = (if tm_hour g + off < 0 then tm_hour g + off + 24
      else if 24 \<le> tm_hour g + off then tm_hour g + off - 24 else tm_hour g + off)"
    unfolding assms(5) by (rule day_mod) (use assms(1-4) in linarith)+
  then show ?thesis using assms(1-4) by (auto simp: GetTimezone_def Let_def)
qed

theorem timezone_recovered_witness:
  "GetTimezone \<lparr>tm_year = 120, tm_mon = 0, tm_mday = 2, tm_hour = 3, tm_min = 0, tm_sec = 0\<rparr>
     \<lparr>tm_year = 120, tm_mon = 0, tm_mday = 1, tm_hour = 19, tm_min = 0, tm_sec = 0\<rparr> = 8"
  using timezone_recovered [where off = 8 and
      g = "\<lparr>tm_year = 120, tm_mon = 0, tm_mday = 1, tm_hour = 19, tm_min = 0, tm_sec = 0\<rparr>" and
      l = "\<lparr>tm_year = 120, tm_mon = 0, tm_mday = 2, tm_hour = 3, tm_min = 0, tm_sec = 0\<rparr>"] by simp

section \<open>Wide characters\<close>

text \<open>
  \<open>mbs\<close> and \<open>wcs\<close> are the locale's conversions: the characters of a text, or nothing when it
  is ill-formed. \<open>wchar_t\<close> is 32 bits wide.
\<close>

definition nWcbBuffLen :: nat where "nWcbBuffLen = 4 * 1024"

definition ucs_bytes :: "u32 \<Rightarrow> byte list" where
  "ucs_bytes w = [ucast (drop_bit 8 w), ucast (w AND 0xFF)]"

definition EncodeUCS :: "(byte list \<Rightarrow> u32 list option) \<Rightarrow> byte list \<Rightarrow> byte list \<Rightarrow> (byte list \<times> int) option" where
  "EncodeUCS mbs SourceBuf DestBuf =
     (case mbs SourceBuf of
        None \<Rightarrow> Some (DestBuf, -2)
      | Some ws \<Rightarrow> do {
          let wcbuf = take nWcbBuffLen ws;
          DestBuf \<leftarrow> wr DestBuf 0 (concat (map ucs_bytes wcbuf));
          Some (DestBuf, int (length wcbuf) * 2)
        })"

fun wide_chars :: "byte list \<Rightarrow> u32 list" where
  "wide_chars (h # l # bs) = (push_bit 8 (ucast h) + ucast l) # wide_chars bs"
| "wide_chars _ = []"

definition DecodeUCS ::
  "(u32 list \<Rightarrow> nat \<Rightarrow> byte list option) \<Rightarrow> byte list \<Rightarrow> byte list \<Rightarrow> int \<Rightarrow> (byte list \<times> int) option" where
  "DecodeUCS wcs SourceBuf DestBuf len = do {
     src \<leftarrow> rd SourceBuf 0 (2 * (len div 2));
     let wcbuf = wide_chars src;
     if int nWcbBuffLen < len div 2 \<or> (int nWcbBuffLen = len div 2 \<and> 0 \<notin> set wcbuf) then None
     else do {
       txt \<leftarrow> wcs (takeWhile (\<lambda>w. w \<noteq> 0) wcbuf) (nat (2 * len));
       DestBuf \<leftarrow> wr DestBuf 0 txt;
       DestBuf \<leftarrow> put DestBuf (int (length txt)) 0;
       Some (DestBuf, int (length txt))
     }
   }"

lemma wide_char_bytes:
  assumes "w < 0x10000"
  shows "push_bit 8 (ucast (ucast (drop_bit 8 w) :: byte)) + ucast (ucast (w AND 0xFF) :: byte) = (w :: u32)"
proof -
  have m: "(0xFF :: u32) = mask 8" "(0x10000 :: u32) = 2 ^ 16" by (simp_all add: mask_eq_exp_minus_1)
  have high: "n < 16" if "bit w n" for n
    using assms that unfolding m by (metis less_mask_eq bit_take_bit_iff take_bit_eq_mask)
  have "push_bit 8 (ucast (ucast (drop_bit 8 w) :: byte)) + (ucast (ucast (w AND 0xFF) :: byte) :: u32) =
      push_bit 8 (ucast (ucast (drop_bit 8 w) :: byte)) OR ucast (ucast (w AND 0xFF) :: byte)"
    by (rule disjunctive_add) (auto simp: bit_simps byte_bit_ge)
  also have "\<dots> = w"
    by (rule bit_word_eqI) (auto simp: m bit_simps not_less; drule high; linarith)
  finally show ?thesis .
qed

lemma wide_chars_bytes: "\<forall>w \<in> set ws. w < 0x10000 \<Longrightarrow> wide_chars (concat (map ucs_bytes ws)) = ws"
  by (induction ws) (auto simp: ucs_bytes_def wide_char_bytes)

lemma ucs_bytes_length [simp]: "length (concat (map ucs_bytes ws)) = 2 * length ws"
  by (induction ws) (auto simp: ucs_bytes_def)

text \<open>
  The UCS-2 coding is reversible for texts of fewer than 4096 characters of the basic
  plane: if the locale reads the text as those characters and writes them as that text, then
  \<open>DecodeUCS\<close> of the bytes and length \<open>EncodeUCS\<close> produces is the zero-terminated text.
\<close>

theorem ucs_roundtrip:
  assumes "mbs s = Some ws" and "wcs ws (4 * length ws) = Some s"
    and "\<forall>w \<in> set ws. 0 < w \<and> w < 0x10000" and "length ws < 4096"
    and "2 * length ws \<le> length dest" and "length s < length out"
  shows "\<exists>enc n. EncodeUCS mbs s dest = Some (enc, n) \<and> n = 2 * int (length ws) \<and>
    DecodeUCS wcs enc out n = Some (s @ 0 # drop (Suc (length s)) out, int (length s))"
proof -
  let ?b = "concat (map ucs_bytes ws)"
  have e: "EncodeUCS mbs s dest = Some (?b @ drop (2 * length ws) dest, 2 * int (length ws))"
    using assms(1,4,5) by (simp add: EncodeUCS_def nWcbBuffLen_def wr_def)
  have "rd (?b @ drop (2 * length ws) dest) 0 (2 * (2 * int (length ws) div 2)) = Some ?b"
    by (simp add: rd_def nat_mult_distrib)
  moreover have "wide_chars ?b = ws" using assms(3) by (intro wide_chars_bytes) auto
  moreover have tw: "takeWhile (\<lambda>w. w \<noteq> 0) ws = ws" using assms(3) by (auto simp: takeWhile_eq_all_conv)
  moreover have "nat (2 * (2 * int (length ws))) = 4 * length ws" by simp
  moreover have "out ! length s # drop (Suc (length s)) out = drop (length s) out"
    using assms(6) by (simp add: Cons_nth_drop_Suc)
  ultimately have "DecodeUCS wcs (?b @ drop (2 * length ws) dest) out (2 * int (length ws)) =
      Some (s @ 0 # drop (Suc (length s)) out, int (length s))"
    using assms(2,4,6) put_nat [of "length s" "s @ drop (length s) out" 0]
    by (simp add: DecodeUCS_def nWcbBuffLen_def Let_def wr_def list_update_append upd_conv_take_nth_drop tw)
  then show ?thesis using e by blast
qed

theorem ucs_roundtrip_witness:
  "\<exists>enc. EncodeUCS (\<lambda>s. Some (map ucast s)) [72, 105] [0, 0, 0, 0] = Some (enc, 4) \<and>
     DecodeUCS (\<lambda>ws n. Some (map ucast (take n ws))) enc [1, 1, 1] 4 = Some ([72, 105, 0], 2)"
  using ucs_roundtrip [where mbs = "\<lambda>s. Some (map ucast s)" and s = "[72, 105]" and ws = "[72, 105]"
      and wcs = "\<lambda>ws n. Some (map ucast (take n ws))" and dest = "[0, 0, 0, 0]" and out = "[1, 1, 1]"] by simp

end
