(* ===== verification/AppData.thy ===== *)
theory AppData
  imports CommFun "HOL-Library.AList" "HOL-Library.List_Lexorder" "HOL-Library.Char_ord"
begin

text \<open>
  What the applications share: JSON values as nlohmann's library keeps them, the texts of numbers,
  tokens of texts, the topics of the message bus (include/common_inc/SubTopic.h), and the
  alarm tables of the database with the SQL statements the applications send to them.
  \<^term>\<open>None\<close> is an exception the code does not catch, an assertion of the JSON libraries or
  undefined behaviour.
\<close>

section \<open>JSON values\<close>

text \<open>
  A default-constructed value is null; the first assignment to a member makes it an object, the first
  \<open>push_back\<close> an array; on values of other kinds the library throws.
\<close>

datatype json = JNull | JStr string | JArr "json list" | JObj "(string \<times> json) list"

definition jset :: "string \<Rightarrow> json \<Rightarrow> json \<Rightarrow> json option" where
  "jset k v j = (case j of
     JNull \<Rightarrow> Some (JObj [(k, v)])
   | JObj m \<Rightarrow> Some (JObj (AList.update k v m))
   | _ \<Rightarrow> None)"

definition jpush :: "json \<Rightarrow> json \<Rightarrow> json option" where
  "jpush v j = (case j of
     JNull \<Rightarrow> Some (JArr [v])
   | JArr xs \<Rightarrow> Some (JArr (xs @ [v]))
   | _ \<Rightarrow> None)"

definition jget :: "string \<Rightarrow> json \<Rightarrow> json" where
  "jget k j = (case j of JObj m \<Rightarrow> (case map_of m k of Some v \<Rightarrow> v | None \<Rightarrow> JNull) | _ \<Rightarrow> JNull)"

definition jtext :: "string \<Rightarrow> json \<Rightarrow> string option" where
  "jtext k j = (case jget k j of JStr s \<Rightarrow> Some s | _ \<Rightarrow> None)"

text \<open>Iterating over a value; an object is visited in the order of its keys.\<close>

definition jitems :: "(string \<times> json) list \<Rightarrow> (string \<times> json) list" where
  "jitems m = sort_key fst m"

definition jvalues :: "json \<Rightarrow> json list" where
  "jvalues j = (case j of JNull \<Rightarrow> [] | JStr s \<Rightarrow> [JStr s] | JArr vs \<Rightarrow> vs | JObj m \<Rightarrow> map snd (jitems m))"

text \<open>\<open>j[k1][k2] = v\<close> goes through the member.\<close>

definition jpush_at :: "string \<Rightarrow> json \<Rightarrow> json \<Rightarrow> json option" where
  "jpush_at k v j = do {
     xs \<leftarrow> jpush v (jget k j);
     jset k xs j}"

lemma jset_JObj [simp]: "jset k v (JObj m) = Some (JObj (AList.update k v m))"
  by (simp add: jset_def)

lemma jset_JNull [simp]: "jset k v JNull = Some (JObj [(k, v)])"
  by (simp add: jset_def)

lemma jget_JObj [simp]: "jget k (JObj m) = (case map_of m k of Some v \<Rightarrow> v | None \<Rightarrow> JNull)"
  by (simp add: jget_def)

lemma jget_JNull [simp]: "jget k JNull = JNull"
  by (simp add: jget_def)

section \<open>Texts\<close>

text \<open>A \<open>char*\<close> made of a text ends at its first zero.\<close>

definition byte_of :: "char \<Rightarrow> byte" where
  "byte_of c = of_nat (of_char c)"

definition to_bytes :: "string \<Rightarrow> byte list" where
  "to_bytes s = map byte_of s"

definition of_bytes :: "byte list \<Rightarrow> string" where
  "of_bytes bs = map (\<lambda>b. char_of (unat b)) bs"

definition c_str :: "string \<Rightarrow> string" where
  "c_str s = takeWhile (\<lambda>c. byte_of c \<noteq> 0) s"

definition to_string :: "int \<Rightarrow> string" where
  "to_string i = (if i < 0 then CHR ''-'' # of_bytes (dec_digits (nat (- i)))
     else of_bytes (dec_digits (nat i)))"

text \<open>\<open>Strtok\<close> on a text, from an empty list.\<close>

definition strtok_text :: "string \<Rightarrow> string \<Rightarrow> string list" where
  "strtok_text s split = map of_bytes (snd (Strtok (to_bytes s) (to_bytes split) []))"

text \<open>\<open>atoi\<close>: blanks, a sign, digits; a result that does not fit is undefined.\<close>

definition is_digit :: "byte \<Rightarrow> bool" where
  "is_digit c \<longleftrightarrow> 48 \<le> c \<and> c \<le> 57"

definition digits_value :: "byte list \<Rightarrow> int" where
  "digits_value ds = foldl (\<lambda>v c. v * 10 + (uint c - 48)) 0 ds"

definition atoi :: "string \<Rightarrow> int option" where
  "atoi s = (let b = dropWhile (\<lambda>c. c = 32 \<or> 9 \<le> c \<and> c \<le> 13) (to_bytes (c_str s)) in
     case b of
       c # r \<Rightarrow> if c = 45 then i32 (- digits_value (takeWhile is_digit r))
                 else if c = 43 then i32 (digits_value (takeWhile is_digit r))
                 else i32 (digits_value (takeWhile is_digit b))
     | [] \<Rightarrow> Some 0)"

lemma byte_of_inverse [simp]: "char_of (unat (byte_of c)) = c"
proof -
  have "of_char c < (256 :: nat)"
    using of_char_mod_256 [where 'a = nat, of c] by (metis mod_less_divisor zero_less_numeral)
  then show ?thesis by (simp add: byte_of_def unat_of_nat)
qed

lemma byte_of_char_of [simp]: "byte_of (char_of (unat b)) = b"
proof -
  have "unat b < 256" using unsigned_less [of b] by simp
  then show ?thesis by (simp add: byte_of_def of_char_of)
qed

lemma of_to_bytes [simp]: "of_bytes (to_bytes s) = s"
  by (simp add: of_bytes_def to_bytes_def comp_def)

lemma to_of_bytes [simp]: "to_bytes (of_bytes bs) = bs"
  by (simp add: of_bytes_def to_bytes_def comp_def)

lemma to_bytes_append [simp]: "to_bytes (s @ t) = to_bytes s @ to_bytes t"
  by (simp add: to_bytes_def)

lemma byte_of_eq [simp]: "byte_of c = byte_of d \<longleftrightarrow> c = d"
  by (metis byte_of_inverse)

lemma c_str_id [simp]: "\<forall>c \<in> set s. byte_of c \<noteq> 0 \<Longrightarrow> c_str s = s"
  by (simp add: c_str_def)

lemma dec_digits_is_digit: "c \<in> set (dec_digits n) \<Longrightarrow> is_digit c"
  using dec_digits_range by (simp add: is_digit_def)

lemma digits_value_append: "digits_value (xs @ [c]) = digits_value xs * 10 + (uint c - 48)"
  by (simp add: digits_value_def)

lemma digits_value_dec: "digits_value (dec_digits n) = int n"
proof (induction n rule: dec_digits.induct)
  case (1 n)
  have d: "uint (48 + of_nat k :: byte) = 48 + int k" if "k < 10" for k
  proof -
    have "k = 0 \<or> k = 1 \<or> k = 2 \<or> k = 3 \<or> k = 4 \<or> k = 5 \<or> k = 6 \<or> k = 7 \<or> k = 8 \<or> k = 9"
      using that by presburger
    then show ?thesis by (elim disjE) simp_all
  qed
  show ?case
  proof (cases "n < 10")
    case True
    then show ?thesis by (simp add: dec_digits.simps [of n] digits_value_def d)
  next
    case False
    then have "digits_value (dec_digits (n div 10)) = int (n div 10)" using 1 by simp
    then show ?thesis
      using False by (simp add: dec_digits.simps [of n] digits_value_append d zdiv_int zmod_int)
  qed
qed

lemma to_string_no_nul: "c \<in> set (to_string i) \<Longrightarrow> byte_of c \<noteq> 0"
proof -
  have "byte_of c \<noteq> 0" if "c \<in> set (of_bytes (dec_digits n))" for n
    using that dec_digits_range by (fastforce simp: of_bytes_def)
  moreover have "byte_of CHR ''-'' \<noteq> 0" by (simp add: byte_of_def)
  ultimately show "c \<in> set (to_string i) \<Longrightarrow> byte_of c \<noteq> 0"
    by (auto simp: to_string_def split: if_splits)
qed

lemma atoi_to_string:
  assumes "- (2 ^ 31) \<le> i" "i < 2 ^ 31"
  shows "atoi (to_string i) = Some i"
proof -
  have ds: "takeWhile is_digit (dec_digits n) = dec_digits n" for n
    using dec_digits_is_digit by (simp add: takeWhile_eq_all_conv)
  have str: "c_str (to_string i) = to_string i" using to_string_no_nul by simp
  show ?thesis
  proof (cases "i < 0")
    case True
    have "to_bytes (to_string i) = 45 # dec_digits (nat (- i))"
      using True by (simp add: to_string_def to_bytes_def [of "_ # _"] to_bytes_def [symmetric])
        (simp add: byte_of_def)
    then show ?thesis
      using True assms by (simp add: atoi_def str ds digits_value_dec i32_def)
  next
    case False
    obtain c r where cr: "dec_digits (nat i) = c # r" using dec_digits_ne by (metis list.exhaust)
    then have c: "48 \<le> c" "c \<le> 57" using dec_digits_range [of c "nat i"] by simp_all
    then have "c \<noteq> 45" "c \<noteq> 43" "c \<noteq> 32" "\<not> c \<le> 13"
      by (auto simp: word_le_nat_alt)
    moreover have "to_bytes (to_string i) = dec_digits (nat i)"
      using False by (simp add: to_string_def)
    ultimately show ?thesis
      using False assms digits_value_dec [of "nat i"] ds [of "nat i"]
      by (simp add: atoi_def str cr i32_def)
  qed
qed

lemma to_string_inj: "to_string i = to_string j \<longleftrightarrow> i = j"
proof
  have inj: "dec_digits m = dec_digits n \<longleftrightarrow> m = n" for m n
    using digits_value_dec by (metis of_nat_eq_iff)
  have digit: "of_bytes (dec_digits n) \<noteq> CHR ''-'' # r" for n r
  proof
    assume "of_bytes (dec_digits n) = CHR ''-'' # r"
    then have "dec_digits n = to_bytes (CHR ''-'' # r)" by (metis to_of_bytes)
    then have "45 \<in> set (dec_digits n)" by (simp add: to_bytes_def byte_of_def)
    then show False using dec_digits_range [of 45 n] by simp
  qed
  assume eq: "to_string i = to_string j"
  have of_inj: "of_bytes xs = of_bytes ys \<longleftrightarrow> xs = ys" for xs ys by (metis to_of_bytes)
  show "i = j"
    using eq digit digit [symmetric] by (auto simp: to_string_def of_inj inj split: if_splits)
qed simp

text \<open>Two fields with a separator between them come apart again.\<close>

lemma strtok_text_pair:
  assumes "a \<noteq> []" "b \<noteq> []" "\<forall>c \<in> set (a @ b). c \<noteq> d \<and> byte_of c \<noteq> 0" "byte_of d \<noteq> 0"
  shows "strtok_text (a @ d # b) [d] = [a, b]"
proof -
  have "tokens [byte_of d] (join (byte_of d) [to_bytes a, to_bytes b]) = [to_bytes a, to_bytes b]"
    using assms(1-3) by (intro tokens_join) (auto simp: to_bytes_def)
  then have t: "tokens (to_bytes [d]) (to_bytes (a @ d # b)) = [to_bytes a, to_bytes b]"
    by (simp add: to_bytes_def)
  have w: "takeWhile (\<lambda>c. c \<noteq> 0) (to_bytes (a @ d # b)) = to_bytes (a @ d # b)"
    using assms(3,4) by (auto simp: to_bytes_def takeWhile_eq_all_conv)
  have "to_bytes (a @ d # b) \<noteq> []" by (simp add: to_bytes_def)
  then show ?thesis
    unfolding strtok_text_def Strtok_def w by (simp only: t) simp
qed

section \<open>Topics\<close>

definition TcpCliConnTopic :: "string \<Rightarrow> string" where "TcpCliConnTopic p = p @ ''tcpcli_conn''"
definition TcpSrvCloseConnTopic :: "string \<Rightarrow> string" where "TcpSrvCloseConnTopic p = p @ ''tcpcli_close''"
definition TcpSrvRecMsgTopic :: "string \<Rightarrow> string" where "TcpSrvRecMsgTopic p = p @ ''tcpcli_revmsg''"
definition TcpSrvSendMsgTopic :: "string \<Rightarrow> string" where "TcpSrvSendMsgTopic p = p @ ''tcpcli_sendmsg''"
definition SqliteSaveDBTopic :: "string \<Rightarrow> string" where "SqliteSaveDBTopic d = d @ ''SaveToDB''"
definition SqliteReadDBTopic :: "string \<Rightarrow> string" where "SqliteReadDBTopic d = d @ ''GetFromDB''"
definition SqliteDelDBTopic :: "string \<Rightarrow> string" where "SqliteDelDBTopic d = d @ ''DelFromDB''"
definition AlgCreateTopic :: "string \<Rightarrow> string \<Rightarrow> string" where
  "AlgCreateTopic t i = t @ i @ ''AlgObjCreate''"
definition AlgResultTopic :: "string \<Rightarrow> string \<Rightarrow> string" where
  "AlgResultTopic t i = t @ i @ ''AlgResultReport''"
definition FaceFeatureExtTopic :: "string \<Rightarrow> string \<Rightarrow> string" where
  "FaceFeatureExtTopic t i = t @ i @ ''FaceFeatureExt''"
definition FaceFeatureUpdateTopic :: "string \<Rightarrow> string \<Rightarrow> string" where
  "FaceFeatureUpdateTopic t i = t @ i @ ''FaceFeatureUpdate''"

section \<open>Tables with growing keys\<close>

text \<open>
  A table whose key is \<open>INTEGER PRIMARY KEY autoincrement\<close>: the rows in the order of their keys, and
  the largest key ever given out. The three statements of the applications: an insertion
  with a null key, the deletion that keeps the newest rows
  (\<open>delete from t where id <= (select max(id) - n from t)\<close>, where the maximum of no rows is
  null and deletes nothing), and the selection from a key on, in the order of the keys.
\<close>

record 'r table =
  tb_rows :: "(int \<times> 'r) list"
  tb_seq :: int

definition empty_table :: "'r table" where
  "empty_table = \<lparr>tb_rows = [], tb_seq = 0\<rparr>"

definition sql_insert :: "'r \<Rightarrow> 'r table \<Rightarrow> 'r table" where
  "sql_insert r t = \<lparr>tb_rows = tb_rows t @ [(tb_seq t + 1, r)], tb_seq = tb_seq t + 1\<rparr>"

definition sql_trim :: "int \<Rightarrow> 'r table \<Rightarrow> 'r table" where
  "sql_trim n t = (if tb_rows t = [] then t
     else t\<lparr>tb_rows := filter (\<lambda>(i, _). \<not> i \<le> Max (fst ` set (tb_rows t)) - n) (tb_rows t)\<rparr>)"

definition sql_from :: "int \<Rightarrow> 'r table \<Rightarrow> (int \<times> 'r) list" where
  "sql_from k t = filter (\<lambda>(i, _). k \<le> i) (tb_rows t)"

definition table_ok :: "'r table \<Rightarrow> bool" where
  "table_ok t \<longleftrightarrow> sorted_wrt (<) (map fst (tb_rows t)) \<and> (\<forall>i \<in> fst ` set (tb_rows t). 1 \<le> i \<and> i \<le> tb_seq t) \<and>
     0 \<le> tb_seq t"

lemma empty_table_ok: "table_ok empty_table"
  by (simp add: table_ok_def empty_table_def)

lemma sql_insert_ok: "table_ok t \<Longrightarrow> table_ok (sql_insert r t)"
  by (fastforce simp: table_ok_def sql_insert_def sorted_wrt_append)

lemma sql_trim_sub: "set (tb_rows (sql_trim n t)) \<subseteq> set (tb_rows t)"
  by (auto simp: sql_trim_def)

lemma sql_trim_ok: "table_ok t \<Longrightarrow> table_ok (sql_trim n t)"
  by (auto simp: table_ok_def sql_trim_def sorted_wrt_map intro: sorted_wrt_filter)

lemma sorted_keys_nth:
  fixes rs :: "(int \<times> 'r) list"
  assumes "sorted_wrt (<) (map fst rs)" "i \<le> j" "j < length rs"
  shows "fst (rs ! i) \<le> fst (rs ! j)"
proof (cases "i = j")
  case False
  then show ?thesis using sorted_wrt_nth_less [OF assms(1), of i j] assms(2,3) by simp
qed simp

section \<open>Maps from texts\<close>

text \<open>A \<open>std::map\<close> from texts, in the order of its keys.\<close>

type_synonym 'v smap = "(string \<times> 'v) list"

fun smap_insert :: "string \<Rightarrow> 'v \<Rightarrow> 'v smap \<Rightarrow> 'v smap" where
  "smap_insert k v [] = [(k, v)]"
| "smap_insert k v ((k', v') # m) = (if k < k' then (k, v) # (k', v') # m
     else if k = k' then (k', v') # m else (k', v') # smap_insert k v m)"

fun smap_set :: "string \<Rightarrow> 'v \<Rightarrow> 'v smap \<Rightarrow> 'v smap" where
  "smap_set k v [] = []"
| "smap_set k v ((k', v') # m) = (if k = k' then (k', v) # m else (k', v') # smap_set k v m)"

definition smap_ok :: "'v smap \<Rightarrow> bool" where
  "smap_ok m \<longleftrightarrow> sorted_wrt (<) (map fst m)"

lemma smap_insert_keys: "fst ` set (smap_insert k v m) = insert k (fst ` set m)"
  by (induction k v m rule: smap_insert.induct) auto

lemma smap_insert_ok: "smap_ok m \<Longrightarrow> smap_ok (smap_insert k v m)"
proof (induction k v m rule: smap_insert.induct)
  case (2 k v k' v' m)
  have keys: "x \<in> fst ` set (smap_insert k v m) \<Longrightarrow> x = k \<or> x \<in> fst ` set m" for x
    by (simp add: smap_insert_keys)
  show ?case
    using 2 keys unfolding smap_ok_def by fastforce
qed (simp add: smap_ok_def)

lemma smap_set_keys: "map fst (smap_set k v m) = map fst m"
  by (induction k v m rule: smap_set.induct) auto

lemma map_of_smap_insert: "map_of m k = None \<Longrightarrow> map_of (smap_insert k v m) = (map_of m)(k \<mapsto> v)"
  by (induction k v m rule: smap_insert.induct) (auto split: if_splits)

lemma map_of_smap_set: "map_of m k = Some a \<Longrightarrow> map_of (smap_set k v m) = (map_of m)(k \<mapsto> v)"
  by (induction k v m rule: smap_set.induct) (auto split: if_splits)

lemma smap_insert_same: "smap_ok m \<Longrightarrow> map_of m k = Some x \<Longrightarrow> smap_insert k v m = m"
proof (induction k v m rule: smap_insert.induct)
  case (2 k v k' v' m)
  have "\<not> k < k'"
  proof
    assume "k < k'"
    then have "\<forall>p \<in> set ((k', v') # m). k < fst p" using "2.prems"(1) by (fastforce simp: smap_ok_def)
    then show False using map_of_SomeD [OF "2.prems"(2)] by fastforce
  qed
  then show ?case using 2 by (auto simp: smap_ok_def split: if_splits)
qed simp

end
