(* ===== verification/CommSafeDetect.thy ===== *)
theory CommSafeDetect
  imports AppData
begin

text \<open>
  The detection task of the safety application (app/CommSafe/CommSafeDetect.cpp): the results of
  the detection algorithm become rows of the alarm table, persons without a helmet raise the voice
  alarm, and clients read the table in batches. Floating-point operations are an argument, with no
  law assumed of them; drawing the boxes, shrinking the picture and encoding it is the argument
  \<open>encode\<close>, applied to the detections that are drawn.
\<close>

section \<open>Boxes and detections\<close>

record 'f float_ops =
  fl_add :: "'f \<Rightarrow> 'f \<Rightarrow> 'f"
  fl_sub :: "'f \<Rightarrow> 'f \<Rightarrow> 'f"
  fl_half :: "'f \<Rightarrow> 'f"
  fl_less :: "'f \<Rightarrow> 'f \<Rightarrow> bool"
  fl_nonpos :: "'f \<Rightarrow> bool"

record 'f box =
  box_x :: 'f
  box_y :: 'f
  box_w :: 'f
  box_h :: 'f

record 'f detection =
  sort_class :: int
  prob :: "'f list"
  bbox :: "'f box"

definition s32DetectQueueSize :: int where "s32DetectQueueSize = 20"

definition IsOverlap :: "'f float_ops \<Rightarrow> 'f box \<Rightarrow> 'f box \<Rightarrow> bool" where
  "IsOverlap F father child = (let
     x1 = fl_sub F (box_x father) (fl_half F (box_w father));
     x2 = fl_add F (box_x father) (fl_half F (box_w father));
     y1 = fl_sub F (box_y father) (fl_half F (box_h father));
     y2 = fl_add F (box_y father) (fl_half F (box_h father));
     y3 = fl_add F (box_y child) (fl_half F (box_h child))
     in fl_less F y1 y3 \<and> fl_less F y3 y2 \<and> fl_less F x1 (box_x child) \<and> fl_less F (box_x child) x2)"

text \<open>The detections of the task's class with a positive score, in order.\<close>

fun inference_loop :: "'f float_ops \<Rightarrow> 'f detection list \<Rightarrow> string \<Rightarrow> int \<Rightarrow> nat \<Rightarrow>
    'f detection list \<Rightarrow> 'f detection list option" where
  "inference_loop F dets strTask i 0 drawn = Some drawn"
| "inference_loop F dets strTask i (Suc n) drawn = do {
     d \<leftarrow> get dets i;
     fTopScore \<leftarrow> get (prob d) (sort_class d);
     if strTask \<noteq> to_string (sort_class d) \<or> fl_nonpos F fTopScore
     then inference_loop F dets strTask (i + 1) n drawn
     else inference_loop F dets strTask (i + 1) n (drawn @ [d])}"

definition DetectInference :: "'f float_ops \<Rightarrow> 'f detection list \<Rightarrow> int \<Rightarrow> string \<Rightarrow>
    'f box list \<Rightarrow> (bool \<times> 'f box list \<times> 'f detection list) option" where
  "DetectInference F dets nTotal strTask vecBox = do {
     drawn \<leftarrow> inference_loop F dets strTask 0 (nat nTotal) [];
     Some (drawn \<noteq> [], vecBox @ map bbox drawn, drawn)}"

section \<open>The task\<close>

record CCommSafeDetect =
  dt_jTaskCfg :: json
  dt_lstStrTask :: "string list"
  dt_mapDataSrc :: "string \<Rightarrow> json option"
  dt_has_bus :: bool

definition new_CCommSafeDetect :: CCommSafeDetect where
  "new_CCommSafeDetect = \<lparr>dt_jTaskCfg = JNull, dt_lstStrTask = [], dt_mapDataSrc = (\<lambda>_. None),
     dt_has_bus = False\<rparr>"

text \<open>What a configuration call does to the message bus: subscriptions and requests, in order.\<close>

datatype bus_call = BusAttach string | BusRequest string

fun insert_sources :: "json list \<Rightarrow> (string \<Rightarrow> json option) \<Rightarrow> (string \<Rightarrow> json option) option" where
  "insert_sources [] m = Some m"
| "insert_sources (src # srcs) m = do {
     ip \<leftarrow> jtext ''ip'' src;
     insert_sources srcs (if m ip = None then m(ip \<mapsto> src) else m)}"

definition DetectInit :: "json \<Rightarrow> json \<Rightarrow> json list \<Rightarrow> CCommSafeDetect \<Rightarrow>
    (bus_call list \<times> CCommSafeDetect) option" where
  "DetectInit jTaskCfg jAlgCfg vecDataSrc d = do {
     lst \<leftarrow> jtext ''task_lst'' jTaskCfg;
     (attach, bus) \<leftarrow> (if dt_has_bus d then Some ([], True)
       else do {
         t \<leftarrow> jtext ''type'' jTaskCfg;
         i \<leftarrow> jtext ''idx'' jTaskCfg;
         Some ([BusAttach (AlgResultTopic t i)], True)});
     m \<leftarrow> insert_sources vecDataSrc (\<lambda>_. None);
     at \<leftarrow> jtext ''type'' jAlgCfg;
     ai \<leftarrow> jtext ''idx'' jAlgCfg;
     Some (attach @ [BusRequest (AlgCreateTopic at ai)],
       \<lparr>dt_jTaskCfg = jTaskCfg, dt_lstStrTask = strtok_text lst ''|'', dt_mapDataSrc = m,
        dt_has_bus = bus\<rparr>)}"

section \<open>Results of the algorithm\<close>

text \<open>A row of the alarm table, without its key.\<close>

record detect_row =
  dr_task_flag :: string
  dr_alg_idx :: string
  dr_alert_type :: string
  dr_alert_date :: string
  dr_data_src :: string
  dr_img :: string

text \<open>The state of the loop over the tasks: the two flags and box lists, and the table.\<close>

record 'f pro_state =
  ps_person_task :: bool
  ps_helmet_task :: bool
  ps_person_box :: "'f box list"
  ps_helmet_box :: "'f box list"
  ps_table :: "detect_row table"

definition make_row :: "CCommSafeDetect \<Rightarrow> string \<Rightarrow> string \<Rightarrow> string \<Rightarrow> string \<Rightarrow> detect_row option" where
  "make_row d task strIp now img = do {
     tt \<leftarrow> jtext ''type'' (dt_jTaskCfg d);
     ti \<leftarrow> jtext ''idx'' (dt_jTaskCfg d);
     src \<leftarrow> dt_mapDataSrc d strIp;
     st \<leftarrow> jtext ''type'' src;
     si \<leftarrow> jtext ''idx'' src;
     sd \<leftarrow> jtext ''desc'' src;
     Some \<lparr>dr_task_flag = c_str (tt @ ti), dr_alg_idx = c_str ''0'', dr_alert_type = c_str task,
       dr_alert_date = c_str now, dr_data_src = c_str (st @ si @ '':'' @ sd), dr_img = c_str img\<rparr>}"

definition task_step :: "'f float_ops \<Rightarrow> ('f detection list \<Rightarrow> string) \<Rightarrow> string \<Rightarrow> CCommSafeDetect \<Rightarrow>
    string \<Rightarrow> 'f detection list \<Rightarrow> int \<Rightarrow> string \<Rightarrow> 'f pro_state \<Rightarrow> 'f pro_state option" where
  "task_step F encode now d strIp dets nTotal task s = (let
     s1 = s\<lparr>ps_person_task := ps_person_task s \<or> task = to_string 0,
            ps_helmet_task := ps_helmet_task s \<or> task = to_string 23\<rparr> in do {
     (found, vecBox, drawn) \<leftarrow> DetectInference F dets nTotal task [];
     if \<not> found then Some s1
     else do {
       row \<leftarrow> make_row d task strIp now (encode drawn);
       let s2 = s1\<lparr>ps_table := sql_insert row (sql_trim s32DetectQueueSize (ps_table s1))\<rparr>;
       let s3 = (if task = to_string 0 then s2\<lparr>ps_person_box := vecBox\<rparr> else s2);
       Some (if task = to_string 23 then s3\<lparr>ps_helmet_box := vecBox\<rparr> else s3)}})"

fun task_loop :: "'f float_ops \<Rightarrow> ('f detection list \<Rightarrow> string) \<Rightarrow> string \<Rightarrow> CCommSafeDetect \<Rightarrow>
    string \<Rightarrow> 'f detection list \<Rightarrow> int \<Rightarrow> string list \<Rightarrow> 'f pro_state \<Rightarrow> 'f pro_state option" where
  "task_loop F encode now d strIp dets nTotal [] s = Some s"
| "task_loop F encode now d strIp dets nTotal (task # tasks) s = do {
     s1 \<leftarrow> task_step F encode now d strIp dets nTotal task s;
     task_loop F encode now d strIp dets nTotal tasks s1}"

fun any_overlap :: "'f float_ops \<Rightarrow> 'f box \<Rightarrow> 'f box list \<Rightarrow> bool" where
  "any_overlap F personBox [] = False"
| "any_overlap F personBox (h # hs) = (if IsOverlap F personBox h then True else any_overlap F personBox hs)"

fun alarm_loop :: "'f float_ops \<Rightarrow> 'f box list \<Rightarrow> 'f box list \<Rightarrow> bool \<Rightarrow> bool" where
  "alarm_loop F [] hs bAlarm = bAlarm"
| "alarm_loop F (p # ps) hs bAlarm = (if \<not> any_overlap F p hs then True else alarm_loop F ps hs False)"

definition play_alarm :: "'f float_ops \<Rightarrow> 'f pro_state \<Rightarrow> bool" where
  "play_alarm F s =
     (if \<not> (ps_person_task s \<and> ps_helmet_task s) then False
      else if length (ps_person_box s) = 0 then False
      else if length (ps_person_box s) \<le> length (ps_helmet_box s)
      then alarm_loop F (ps_person_box s) (ps_helmet_box s) True
      else True)"

text \<open>The handler of a result: whether the alarm is played, and the table.\<close>

definition DetectProResultMsg :: "'f float_ops \<Rightarrow> ('f detection list \<Rightarrow> string) \<Rightarrow> string \<Rightarrow> string \<Rightarrow>
    'f detection list \<Rightarrow> int \<Rightarrow> CCommSafeDetect \<Rightarrow> detect_row table \<Rightarrow> (bool \<times> detect_row table) option" where
  "DetectProResultMsg F encode now strIp dets nTotal d t =
     (if dt_mapDataSrc d strIp = None then Some (False, t)
      else do {
        s \<leftarrow> task_loop F encode now d strIp dets nTotal (dt_lstStrTask d)
          \<lparr>ps_person_task = False, ps_helmet_task = False, ps_person_box = [], ps_helmet_box = [],
           ps_table = t\<rparr>;
        Some (play_alarm F s, ps_table s)})"

section \<open>Reports\<close>

text \<open>A db_cell of a query result, as the JSON the database layer builds has it.\<close>

datatype db_cell = CInt int | CText string

definition detect_doc :: "int \<times> detect_row \<Rightarrow> (string \<times> db_cell) list" where
  "detect_doc = (\<lambda>(i, r). [(''id'', CInt i), (''task_flag'', CText (dr_task_flag r)),
     (''alg_idx'', CText (dr_alg_idx r)), (''alert_type'', CText (dr_alert_type r)),
     (''alert_date'', CText (dr_alert_date r)), (''data_src'', CText (dr_data_src r)),
     (''img'', CText (dr_img r))])"

text \<open>The keys go into a \<open>vector<int>\<close>, which keeps their low 32 bits.\<close>

definition to_int32 :: "int \<Rightarrow> int" where
  "to_int32 i = sint (word_of_int i :: u32)"

definition report_info :: "int list \<Rightarrow> json \<Rightarrow> json option" where
  "report_info keys jRspData = (let vecIdx = map to_int32 keys; len = length vecIdx;
     s32Min = (if len = 0 then 0 else vecIdx ! 0);
     s32Max = (if len = 0 then -1 else vecIdx ! (len - 1)) in do {
       j1 \<leftarrow> jset ''start_idx'' (JStr (to_string s32Min)) jRspData;
       j2 \<leftarrow> jset ''end_idx'' (JStr (to_string s32Max)) j1;
       jset ''total_size'' (JStr (to_string (int len))) j2})"

definition DetectReportInfo :: "detect_row table \<Rightarrow> json \<Rightarrow> json option" where
  "DetectReportInfo t jRspData = report_info (map fst (tb_rows t)) jRspData"

text \<open>The source column holds the source's id and its description.\<close>

definition data_src_json :: "string \<Rightarrow> json \<Rightarrow> json option" where
  "data_src_json strValue jRecord = (case strtok_text strValue '':'' of
     [a, b] \<Rightarrow> do {
       j1 \<leftarrow> jset ''transfer_id'' (JStr a) JNull;
       j2 \<leftarrow> jset ''desc'' (JStr b) j1;
       jset ''data_src'' j2 jRecord}
   | _ \<Rightarrow> jset ''data_src'' JNull jRecord)"

fun detect_record :: "(string \<times> db_cell) list \<Rightarrow> json \<Rightarrow> json option" where
  "detect_record [] jRecord = Some jRecord"
| "detect_record ((strKey, t) # ms) jRecord =
     (if strKey = [] then Some jRecord
      else if strKey = ''id'' then (case t of
          CInt i \<Rightarrow> jset ''idx'' (JStr (to_string i)) jRecord \<bind> detect_record ms
        | CText _ \<Rightarrow> None)
      else (case t of
          CInt _ \<Rightarrow> None
        | CText strValue \<Rightarrow>
            if strKey = ''data_src'' then data_src_json strValue jRecord \<bind> detect_record ms
            else jset strKey (JStr strValue) jRecord \<bind> detect_record ms))"

fun records :: "((string \<times> db_cell) list \<Rightarrow> json \<Rightarrow> json option) \<Rightarrow> (string \<times> db_cell) list list \<Rightarrow> json list option" where
  "records rec [] = Some []"
| "records rec (row # rows) = do {
     j \<leftarrow> rec row JNull;
     js \<leftarrow> records rec rows;
     Some (j # js)}"

text \<open>\<open>len\<close> is compared with the signed batch size, then used as a \<open>size_t\<close> loop bound.\<close>

definition batch_rows :: "int \<Rightarrow> 'r list \<Rightarrow> 'r list option" where
  "batch_rows s32BatchSize rows =
     (let len = (if s32BatchSize < int (length rows) then s32BatchSize else int (length rows)) in
      if len < 0 then None else Some (take (nat len) rows))"

definition DetectReportResult :: "int \<Rightarrow> int \<Rightarrow> detect_row table \<Rightarrow> json list option" where
  "DetectReportResult s32StartIdx s32BatchSize t = do {
     rows \<leftarrow> batch_rows s32BatchSize (map detect_doc (sql_from s32StartIdx t));
     records detect_record rows}"

lemma batch_rows_take: "batch_rows n rows = Some rows' \<Longrightarrow> \<exists>m. rows' = take m rows"
  by (auto simp: batch_rows_def Let_def split: if_splits intro: exI [of _ "length rows"])

section \<open>The alarm\<close>

definition dets_ok :: "'f detection list \<Rightarrow> bool" where
  "dets_ok dets \<longleftrightarrow> (\<forall>d \<in> set dets. 0 \<le> sort_class d \<and> sort_class d < int (length (prob d)))"

definition targets :: "'f float_ops \<Rightarrow> string \<Rightarrow> 'f detection list \<Rightarrow> 'f detection list" where
  "targets F task dets = filter (\<lambda>d. task = to_string (sort_class d) \<and>
     \<not> fl_nonpos F (prob d ! nat (sort_class d))) dets"

text \<open>The boxes of the detections of a class, as the task of that class finds them.\<close>

definition class_boxes :: "'f float_ops \<Rightarrow> int \<Rightarrow> 'f detection list \<Rightarrow> 'f box list" where
  "class_boxes F c dets = map bbox (filter (\<lambda>d. sort_class d = c \<and>
     \<not> fl_nonpos F (prob d ! nat c)) dets)"

lemma inference_loop_targets:
  assumes "dets_ok dets"
  shows "i + n \<le> length dets \<Longrightarrow> inference_loop F dets task (int i) n drawn =
    Some (drawn @ targets F task (take n (drop i dets)))"
proof (induction n arbitrary: i drawn)
  case (Suc n)
  have i: "i < length dets" using Suc.prems by simp
  then have t: "take (Suc n) (drop i dets) = dets ! i # take n (drop (Suc i) dets)"
    by (simp add: Cons_nth_drop_Suc [symmetric])
  have "0 \<le> sort_class (dets ! i)" "sort_class (dets ! i) < int (length (prob (dets ! i)))"
    using assms i by (auto simp: dets_ok_def)
  then have "get (prob (dets ! i)) (sort_class (dets ! i)) =
      Some (prob (dets ! i) ! nat (sort_class (dets ! i)))"
    by (rule get_Some)
  then have step: "inference_loop F dets task (int i) (Suc n) drawn =
      (if task \<noteq> to_string (sort_class (dets ! i)) \<or>
          fl_nonpos F (prob (dets ! i) ! nat (sort_class (dets ! i)))
       then inference_loop F dets task (int (Suc i)) n drawn
       else inference_loop F dets task (int (Suc i)) n (drawn @ [dets ! i]))"
    using i by (simp add: get_nat ac_simps)
  have "targets F task (take (Suc n) (drop i dets)) =
      (if task \<noteq> to_string (sort_class (dets ! i)) \<or>
          fl_nonpos F (prob (dets ! i) ! nat (sort_class (dets ! i)))
       then [] else [dets ! i]) @ targets F task (take n (drop (Suc i) dets))"
    by (simp only: t targets_def filter.simps) simp
  then show ?case
    using Suc.IH [of "Suc i"] Suc.prems by (simp only: step) simp
qed (simp add: targets_def)

lemma DetectInference_targets:
  "dets_ok dets \<Longrightarrow> DetectInference F dets (int (length dets)) task [] =
    Some (targets F task dets \<noteq> [], map bbox (targets F task dets), targets F task dets)"
  using inference_loop_targets [of dets 0 "length dets" F task "[]"]
  by (simp add: DetectInference_def)

lemma class_boxes_targets: "map bbox (targets F (to_string c) dets) = class_boxes F c dets"
  by (auto simp: targets_def class_boxes_def to_string_inj intro!: arg_cong [of _ _ "map bbox"] filter_cong)

lemma task_loop_boxes:
  assumes ok: "dets_ok dets"
  shows "task_loop F enc now d ip dets (int (length dets)) tasks s = Some s' \<Longrightarrow>
    ps_person_task s' = (ps_person_task s \<or> to_string 0 \<in> set tasks) \<and>
    ps_helmet_task s' = (ps_helmet_task s \<or> to_string 23 \<in> set tasks) \<and>
    ps_person_box s' = (if to_string 0 \<in> set tasks \<and> class_boxes F 0 dets \<noteq> []
      then class_boxes F 0 dets else ps_person_box s) \<and>
    ps_helmet_box s' = (if to_string 23 \<in> set tasks \<and> class_boxes F 23 dets \<noteq> []
      then class_boxes F 23 dets else ps_helmet_box s)"
proof (induction tasks arbitrary: s)
  case (Cons task tasks)
  obtain s1 where s1: "task_step F enc now d ip dets (int (length dets)) task s = Some s1"
    and r: "task_loop F enc now d ip dets (int (length dets)) tasks s1 = Some s'"
    using Cons.prems by (auto split: bind_splits)
  have "ps_person_task s1 = (ps_person_task s \<or> task = to_string 0) \<and>
    ps_helmet_task s1 = (ps_helmet_task s \<or> task = to_string 23) \<and>
    ps_person_box s1 = (if task = to_string 0 \<and> class_boxes F 0 dets \<noteq> []
      then class_boxes F 0 dets else ps_person_box s) \<and>
    ps_helmet_box s1 = (if task = to_string 23 \<and> class_boxes F 23 dets \<noteq> []
      then class_boxes F 23 dets else ps_helmet_box s)"
    using s1 class_boxes_targets [of F 0 dets] class_boxes_targets [of F 23 dets]
    by (auto simp: task_step_def Let_def DetectInference_targets [OF ok] to_string_inj
        split: if_splits bind_splits)
  then show ?case using Cons.IH [OF r] by auto
qed simp

lemma any_overlap_iff: "any_overlap F p hs \<longleftrightarrow> (\<exists>h \<in> set hs. IsOverlap F p h)"
  by (induction hs) auto

lemma alarm_loop_iff:
  "alarm_loop F ps hs b \<longleftrightarrow> (ps = [] \<and> b) \<or> (\<exists>p \<in> set ps. \<forall>h \<in> set hs. \<not> IsOverlap F p h)"
  by (induction F ps hs b rule: alarm_loop.induct) (auto simp: any_overlap_iff)


section \<open>The alarm table\<close>

text \<open>
  The keys of a table built by insertions and trims are the consecutive numbers up to the last one given
  out, so a trim keeps exactly the newest rows.
\<close>

definition newest :: "nat \<Rightarrow> 'a list \<Rightarrow> 'a list" where
  "newest k xs = drop (length xs - k) xs"

fun numbered :: "int \<Rightarrow> 'r list \<Rightarrow> (int \<times> 'r) list" where
  "numbered i [] = []"
| "numbered i (r # rs) = (i + 1, r) # numbered (i + 1) rs"

definition keys_run :: "'r table \<Rightarrow> bool" where
  "keys_run t \<longleftrightarrow> map fst (tb_rows t) = [tb_seq t - int (length (tb_rows t)) + 1 .. tb_seq t]"

lemma numbered_append: "numbered i (xs @ ys) = numbered i xs @ numbered (i + int (length xs)) ys"
  by (induction xs arbitrary: i) (simp_all add: ac_simps)

lemma length_numbered [simp]: "length (numbered i xs) = length xs"
  by (induction xs arbitrary: i) simp_all

lemma newest_newest: "newest k (newest k xs @ ys) = newest k (xs @ ys)"
  by (cases "length xs \<le> k") (simp_all add: newest_def add.commute [of "length ys"])

lemma newest_short [simp]: "length xs \<le> k \<Longrightarrow> newest k xs = xs"
  by (simp add: newest_def)

lemma length_newest [simp]: "length (newest k xs) = min k (length xs)"
  by (simp add: newest_def)

lemma newest_snoc: "newest k xs @ [x] = newest (Suc k) (xs @ [x])"
  by (simp add: newest_def)

lemma drop_upto: "drop k [i .. j :: int] = [i + int k .. j]"
proof (induction k arbitrary: i)
  case (Suc k)
  show ?case
  proof (cases "i \<le> j")
    case True
    then show ?thesis using Suc.IH [of "i + 1"] by (subst upto_rec1) (simp_all add: ac_simps)
  qed simp
qed simp

lemma keys_run_trim:
  assumes "keys_run t"
  shows "tb_rows (sql_trim (int n) t) = newest n (tb_rows t) \<and> keys_run (sql_trim (int n) t)"
proof (cases "tb_rows t = []")
  case True
  then show ?thesis using assms by (simp add: sql_trim_def newest_def)
next
  case False
  let ?rs = "tb_rows t" and ?q = "tb_seq t"
  let ?k = "length ?rs - n"
  have keys: "map fst ?rs = [?q - int (length ?rs) + 1 .. ?q]" using assms by (simp add: keys_run_def)
  have "fst ` set ?rs = set (map fst ?rs)" by simp
  then have "fst ` set ?rs = {?q - int (length ?rs) + 1 .. ?q}" by (simp only: keys set_upto)
  then have mx: "Max (fst ` set ?rs) = ?q" using False by (simp add: Max_eq_iff Suc_le_eq)
  have key: "fst (?rs ! i) = ?q - int (length ?rs) + 1 + int i" if "i < length ?rs" for i
    using that arg_cong [OF keys, of "\<lambda>l. l ! i"] by simp
  let ?P = "\<lambda>(i, _). \<not> i \<le> ?q - int n"
  have old: "\<not> ?P x" if x: "x \<in> set (take ?k ?rs)" for x
  proof -
    obtain i where "i < ?k" "i < length ?rs" "x = ?rs ! i" using x by (auto simp: in_set_conv_nth)
    then show ?thesis using key [of i] by (simp add: case_prod_beta)
  qed
  have new: "?P x" if x: "x \<in> set (drop ?k ?rs)" for x
  proof -
    obtain i where "i < length ?rs - ?k" "x = ?rs ! (?k + i)" using x by (auto simp: in_set_conv_nth)
    then show ?thesis using key [of "?k + i"] by (auto simp: case_prod_beta)
  qed
  have "filter ?P ?rs = filter ?P (take ?k ?rs) @ filter ?P (drop ?k ?rs)"
    by (simp only: filter_append [symmetric] append_take_drop_id)
  also have "\<dots> = drop ?k ?rs" using old new by simp
  finally have rows: "tb_rows (sql_trim (int n) t) = drop ?k ?rs"
    using False mx by (simp add: sql_trim_def)
  moreover have "map fst (drop ?k ?rs) = [?q - int (length (drop ?k ?rs)) + 1 .. ?q]"
    unfolding drop_map [symmetric] keys drop_upto by (cases "length ?rs \<le> n") (simp_all add: of_nat_diff algebra_simps)
  moreover have "tb_seq (sql_trim (int n) t) = ?q" by (simp add: sql_trim_def)
  ultimately show ?thesis by (simp add: newest_def keys_run_def)
qed

lemma keys_run_insert:
  assumes "keys_run t"
  shows "keys_run (sql_insert r t)"
  using assms by (simp add: keys_run_def sql_insert_def upto_rec2 [of _ "tb_seq t + 1"])

lemma task_step_table:
  assumes "task_step F enc now d ip dets n task s = Some s'" "keys_run (ps_table s)" "length (tb_rows (ps_table s)) \<le> 21"
  shows "\<exists>found boxes drawn. DetectInference F dets n task [] = Some (found, boxes, drawn) \<and>
    (\<not> found \<and> ps_table s' = ps_table s \<or>
     (\<exists>row. found \<and> make_row d task ip now (enc drawn) = Some row \<and> keys_run (ps_table s') \<and>
        tb_seq (ps_table s') = tb_seq (ps_table s) + 1 \<and>
        tb_rows (ps_table s') = newest 21 (tb_rows (ps_table s) @ [(tb_seq (ps_table s) + 1, row)])))"
proof -
  have "DetectInference F dets n task [] \<noteq> None"
    using assms(1) by (cases "DetectInference F dets n task []") (simp_all add: task_step_def Let_def)
  then obtain found boxes drawn where i: "DetectInference F dets n task [] = Some (found, boxes, drawn)" by auto
  show ?thesis
  proof (cases found)
    case False
    then have "s' = s\<lparr>ps_person_task := ps_person_task s \<or> task = to_string 0,
        ps_helmet_task := ps_helmet_task s \<or> task = to_string 23\<rparr>"
      using assms(1) i by (simp add: task_step_def Let_def)
    then have "ps_table s' = ps_table s" by simp
    then show ?thesis using i False by blast
  next
    case True
    obtain row where row: "make_row d task ip now (enc drawn) = Some row"
      using assms(1) i True by (cases "make_row d task ip now (enc drawn)") (simp_all add: task_step_def Let_def)
    have t: "ps_table s' = sql_insert row (sql_trim 20 (ps_table s))"
      using assms(1) [unfolded task_step_def Let_def i] True row
      by (simp add: s32DetectQueueSize_def split: if_splits) (elim subst, simp)+
    have k: "tb_rows (sql_trim 20 (ps_table s)) = newest 20 (tb_rows (ps_table s))" "keys_run (sql_trim 20 (ps_table s))"
      using keys_run_trim [OF assms(2), of 20] by simp_all
    have "tb_seq (sql_trim 20 (ps_table s)) = tb_seq (ps_table s)" by (simp add: sql_trim_def)
    then have "tb_rows (ps_table s') = newest 20 (tb_rows (ps_table s)) @ [(tb_seq (ps_table s) + 1, row)]"
        "tb_seq (ps_table s') = tb_seq (ps_table s) + 1"
      by (simp_all add: t k(1) sql_insert_def)
    moreover have "keys_run (ps_table s')" unfolding t using k(2) by (rule keys_run_insert)
    ultimately show ?thesis
      using i True row newest_snoc [of 20 "tb_rows (ps_table s)" "(tb_seq (ps_table s) + 1, row)"]
      by (intro exI [of _ found] exI [of _ boxes] exI [of _ drawn]) simp
  qed
qed

text \<open>The rows the tasks write, in the order of the task list: one for each task that sees something.\<close>

fun alert_rows :: "'f float_ops \<Rightarrow> ('f detection list \<Rightarrow> string) \<Rightarrow> string \<Rightarrow> CCommSafeDetect \<Rightarrow> string \<Rightarrow>
    'f detection list \<Rightarrow> string list \<Rightarrow> detect_row list \<Rightarrow> bool" where
  "alert_rows F enc now d ip dets [] rows \<longleftrightarrow> rows = []"
| "alert_rows F enc now d ip dets (task # tasks) rows \<longleftrightarrow>
     (if targets F task dets = [] then alert_rows F enc now d ip dets tasks rows
      else (case rows of [] \<Rightarrow> False
        | row # rows' \<Rightarrow> make_row d task ip now (enc (targets F task dets)) = Some row \<and>
            alert_rows F enc now d ip dets tasks rows'))"

lemma task_loop_invar:
  "task_loop F enc now d ip dets n tasks s = Some s' \<Longrightarrow> keys_run (ps_table s) \<Longrightarrow>
    length (tb_rows (ps_table s)) \<le> 21 \<Longrightarrow> keys_run (ps_table s') \<and> length (tb_rows (ps_table s')) \<le> 21"
proof (induction tasks arbitrary: s)
  case (Cons task tasks)
  obtain s1 where s1: "task_step F enc now d ip dets n task s = Some s1"
    and r: "task_loop F enc now d ip dets n tasks s1 = Some s'"
    using Cons.prems(1) by (auto split: bind_splits)
  have "keys_run (ps_table s1) \<and> length (tb_rows (ps_table s1)) \<le> 21"
    using task_step_table [OF s1 Cons.prems(2,3)] Cons.prems(2,3) by auto
  then show ?case using Cons.IH [OF r] by blast
qed simp

lemma task_loop_rows:
  assumes ok: "dets_ok dets"
  shows "task_loop F enc now d ip dets (int (length dets)) tasks s = Some s' \<Longrightarrow> keys_run (ps_table s) \<Longrightarrow>
    length (tb_rows (ps_table s)) \<le> 21 \<Longrightarrow>
    \<exists>rows. alert_rows F enc now d ip dets tasks rows \<and>
      tb_seq (ps_table s') = tb_seq (ps_table s) + int (length rows) \<and>
      tb_rows (ps_table s') = newest 21 (tb_rows (ps_table s) @ numbered (tb_seq (ps_table s)) rows)"
proof (induction tasks arbitrary: s)
  case (Cons task tasks)
  obtain s1 where s1: "task_step F enc now d ip dets (int (length dets)) task s = Some s1"
    and r: "task_loop F enc now d ip dets (int (length dets)) tasks s1 = Some s'"
    using Cons.prems(1) by (auto split: bind_splits)
  note step = task_step_table [OF s1 Cons.prems(2,3), unfolded DetectInference_targets [OF ok]]
  show ?case
  proof (cases "targets F task dets = []")
    case True
    then have "ps_table s1 = ps_table s" using step by auto
    then show ?thesis using Cons.IH [OF r] Cons.prems(2,3) True by simp
  next
    case False
    then obtain row where row: "make_row d task ip now (enc (targets F task dets)) = Some row"
        "keys_run (ps_table s1)" "tb_seq (ps_table s1) = tb_seq (ps_table s) + 1"
        "tb_rows (ps_table s1) = newest 21 (tb_rows (ps_table s) @ [(tb_seq (ps_table s) + 1, row)])"
      using step by auto
    then obtain rows where rows: "alert_rows F enc now d ip dets tasks rows"
        "tb_seq (ps_table s') = tb_seq (ps_table s1) + int (length rows)"
        "tb_rows (ps_table s') = newest 21 (tb_rows (ps_table s1) @ numbered (tb_seq (ps_table s1)) rows)"
      using Cons.IH [OF r] by auto
    have "tb_rows (ps_table s') = newest 21 (tb_rows (ps_table s) @ numbered (tb_seq (ps_table s)) (row # rows))"
      using newest_newest [of 21 "tb_rows (ps_table s) @ [(tb_seq (ps_table s) + 1, row)]"
          "numbered (tb_seq (ps_table s) + 1) rows"]
      by (simp only: rows(3) row(3,4) numbered.simps append_assoc append_Cons append_Nil)
    then show ?thesis using row rows False by (intro exI [of _ "row # rows"]) simp
  qed
qed simp

text \<open>A result of some task arrives at a table.\<close>

definition detect_move :: "'f float_ops \<Rightarrow> detect_row table \<Rightarrow> detect_row table \<Rightarrow> bool" where
  "detect_move F t t' \<longleftrightarrow> (\<exists>enc now ip dets n d b. DetectProResultMsg F enc now ip dets n d t = Some (b, t'))"

lemma DetectProResultMsg_table:
  assumes "DetectProResultMsg F enc now ip dets n d t = Some (b, t')" "keys_run t \<and> length (tb_rows t) \<le> 21"
  shows "keys_run t' \<and> length (tb_rows t') \<le> 21"
proof (cases "dt_mapDataSrc d ip = None")
  case True
  then show ?thesis using assms by (simp add: DetectProResultMsg_def)
next
  case False
  then obtain s where "task_loop F enc now d ip dets n (dt_lstStrTask d)
      \<lparr>ps_person_task = False, ps_helmet_task = False, ps_person_box = [], ps_helmet_box = [],
       ps_table = t\<rparr> = Some s" and "t' = ps_table s"
    using assms(1) by (auto simp: DetectProResultMsg_def split: bind_splits)
  then show ?thesis using task_loop_invar assms(2) by fastforce
qed

interpretation detect_table: step_system "\<lambda>t. t = empty_table" "detect_move F"
  "\<lambda>t. keys_run t \<and> length (tb_rows t) \<le> 21" for F
proof
  show "keys_run t \<and> length (tb_rows t) \<le> 21" if "t = empty_table" for t :: "detect_row table"
    using that by (simp add: keys_run_def empty_table_def)
  show "keys_run t' \<and> length (tb_rows t') \<le> 21"
    if "keys_run t \<and> length (tb_rows t) \<le> 21" "detect_move F t t'" for t t'
    using that DetectProResultMsg_table [of F] unfolding detect_move_def by metis
qed

text \<open>
  C30. The alarm table stays small and keeps the newest: whatever results arrived before, when the
  handler processes a result of a configured source, each task of its list that sees something writes one
  row, in the order of the list, with the next key and the fields of that task, source and picture; of the
  old rows and these the table then holds exactly the newest 21, fewer only while fewer were ever
  written, under consecutive keys. A result of any other source leaves the table as it is.
\<close>

theorem detect_table_bounded:
  assumes "(detect_move F)\<^sup>*\<^sup>* empty_table t"
    and "DetectProResultMsg F enc now ip dets (int (length dets)) d t = Some (b, t')" and "dets_ok dets"
  shows "\<exists>rows. alert_rows F enc now d ip dets (if dt_mapDataSrc d ip = None then [] else dt_lstStrTask d) rows \<and>
    tb_rows t' = newest 21 (tb_rows t @ numbered (tb_seq t) rows) \<and> tb_seq t' = tb_seq t + int (length rows) \<and>
    length (tb_rows t') \<le> 21 \<and>
    map fst (tb_rows t') = [tb_seq t' - int (length (tb_rows t')) + 1 .. tb_seq t']"
proof -
  have t: "keys_run t" "length (tb_rows t) \<le> 21"
    using detect_table.invar_reached [OF refl assms(1)] by auto
  have t': "keys_run t' \<and> length (tb_rows t') \<le> 21"
    using DetectProResultMsg_table [OF assms(2)] t by blast
  show ?thesis
  proof (cases "dt_mapDataSrc d ip = None")
    case True
    then show ?thesis using assms(2) t t' by (simp add: DetectProResultMsg_def keys_run_def)
  next
    case False
    let ?s = "\<lparr>ps_person_task = False, ps_helmet_task = False, ps_person_box = [], ps_helmet_box = [], ps_table = t\<rparr>"
    obtain s where "task_loop F enc now d ip dets (int (length dets)) (dt_lstStrTask d) ?s = Some s" and "t' = ps_table s"
      using assms(2) False by (auto simp: DetectProResultMsg_def split: bind_splits)
    then have "\<exists>rows. alert_rows F enc now d ip dets (dt_lstStrTask d) rows \<and> tb_seq t' = tb_seq t + int (length rows) \<and>
        tb_rows t' = newest 21 (tb_rows t @ numbered (tb_seq t) rows)"
      using task_loop_rows [OF assms(3), of F enc now d ip "dt_lstStrTask d" ?s s] t by simp
    then obtain rows where rows: "alert_rows F enc now d ip dets (dt_lstStrTask d) rows"
        "tb_seq t' = tb_seq t + int (length rows)" "tb_rows t' = newest 21 (tb_rows t @ numbered (tb_seq t) rows)"
      by blast
    have "(if dt_mapDataSrc d ip = None then [] else dt_lstStrTask d) = dt_lstStrTask d" using False by auto
    then show ?thesis using rows t' [unfolded keys_run_def] by (intro exI [of _ rows]) simp
  qed
qed

section \<open>Reading the table in batches\<close>

lemma records_append:
  "records rec (xs @ ys) = do {a \<leftarrow> records rec xs; b \<leftarrow> records rec ys; Some (a @ b)}"
  by (induction xs) (auto split: bind_splits)

lemma records_length: "records rec xs = Some js \<Longrightarrow> length js = length xs"
  by (induction xs arbitrary: js) (auto split: bind_splits)

lemma records_nth: "records rec xs = Some js \<Longrightarrow> i < length xs \<Longrightarrow> rec (xs ! i) JNull = Some (js ! i)"
proof (induction xs arbitrary: js i)
  case (Cons x xs)
  then show ?case by (cases i) (auto split: bind_splits)
qed simp

lemma filter_next_keys:
  fixes R :: "(int \<times> 'r) list"
  assumes "sorted_wrt (<) (map fst R)" "0 < n" "n \<le> length R"
  shows "filter (\<lambda>(i, _). fst (R ! (n - 1)) + 1 \<le> i) R = drop n R"
proof -
  let ?P = "\<lambda>(i, _ :: 'r). fst (R ! (n - 1)) + 1 \<le> i"
  have less: "fst (R ! i) < fst (R ! j)" if "i < j" "j < length R" for i j
    using assms(1) that by (simp add: sorted_wrt_iff_nth_less)
  have "\<not> ?P x" if x: "x \<in> set (take n R)" for x
  proof -
    obtain i where i: "i < n" "x = R ! i" using x by (auto simp: in_set_conv_nth)
    then have "fst x \<le> fst (R ! (n - 1))"
      using less [of i "n - 1"] assms(2,3) by (cases "i = n - 1") (auto simp: less_imp_le)
    then show ?thesis by (simp add: case_prod_beta)
  qed
  then have a: "filter ?P (take n R) = []" by (simp add: filter_empty_conv)
  have "?P x" if x: "x \<in> set (drop n R)" for x
  proof -
    obtain i where i: "i < length R - n" "x = R ! (n + i)" using x by (auto simp: in_set_conv_nth)
    have "n - 1 < n + i" "n + i < length R" using assms(2) i(1) by linarith+
    then show ?thesis using less [of "n - 1" "n + i"] i by (simp add: case_prod_beta)
  qed
  then have b: "filter ?P (drop n R) = drop n R" by simp
  show ?thesis
    using a b filter_append [of ?P "take n R" "drop n R"] by simp
qed

text \<open>
  What the manager's generic report functions rely on: a source of reports has rows under ascending
  keys; a batch is a slice of the rows from a key on, turned into records; and a record carries the
  key of its row. A client can then page through the reports.
\<close>

locale report_source =
  fixes docs :: "'s \<Rightarrow> (int \<times> (string \<times> db_cell) list) list"
    and rec :: "(string \<times> db_cell) list \<Rightarrow> json \<Rightarrow> json option"
    and batch :: "int \<Rightarrow> int \<Rightarrow> 's \<Rightarrow> json list option"
    and good :: "'s \<Rightarrow> bool"
  assumes ascending: "good s \<Longrightarrow> sorted_wrt (<) (map fst (docs s))"
    and batch_eq: "batch k n s =
      (case batch_rows n (map snd (filter (\<lambda>(i, _). k \<le> i) (docs s))) of
         None \<Rightarrow> None | Some rows \<Rightarrow> records rec rows)"
    and record_key: "good s \<Longrightarrow> (i, row) \<in> set (docs s) \<Longrightarrow> rec row JNull = Some j \<Longrightarrow>
      jtext ''idx'' j = Some (to_string i)"
begin

lemma batch_length: "batch k n s = Some page \<Longrightarrow> int (length page) \<le> n"
  by (auto simp: batch_eq batch_rows_def Let_def split: option.splits if_splits dest!: records_length)

lemma batch_all:
  assumes "int (length (docs s)) \<le> n"
  shows "batch k n s = records rec (map snd (filter (\<lambda>(i, _). k \<le> i) (docs s)))"
proof -
  have "int (length (filter (\<lambda>(i, _). k \<le> i) (docs s))) \<le> n"
    using length_filter_le [of "\<lambda>(i, _). k \<le> i" "docs s"] assms by linarith
  then show ?thesis by (simp add: batch_eq batch_rows_def Let_def)
qed

lemma next_page:
  assumes g: "good s" and n: "0 < n" and N: "int (length (docs s)) \<le> N"
    and all: "batch k N s = Some al" and page: "batch k n s = Some page" "int (length page) = n"
    and l: "jtext ''idx'' (last page) = Some (to_string l)"
  shows "\<exists>rest. batch (l + 1) N s = Some rest \<and> al = page @ rest"
proof -
  let ?R = "filter (\<lambda>(i, _). k \<le> i) (docs s)"
  let ?m = "nat n"
  have sorted: "sorted_wrt (<) (map fst ?R)"
    using ascending [OF g] by (simp add: sorted_wrt_map sorted_wrt_filter)
  have len: "?m \<le> length ?R" and recs: "records rec (take ?m (map snd ?R)) = Some page"
    using page n by (auto simp: batch_eq batch_rows_def Let_def dest!: records_length
        split: option.splits if_splits)
  have m: "0 < ?m" "length page = ?m" using n page(2) by auto
  have al: "records rec (take ?m (map snd ?R) @ map snd (drop ?m ?R)) = Some al"
    using all batch_all [OF N, of k] by (simp add: drop_map take_map flip: map_append)
  obtain rest where rest: "records rec (map snd (drop ?m ?R)) = Some rest" "al = page @ rest"
    using al recs by (auto simp: records_append split: bind_splits)
  let ?x = "?R ! (?m - 1)"
  have x: "?x \<in> set ?R" using len m by (intro nth_mem) simp
  have "rec (snd ?x) JNull = Some (last page)"
    using records_nth [OF recs, of "?m - 1"] len m last_conv_nth [of page] by fastforce
  then have "to_string (fst ?x) = to_string l"
    using record_key [OF g, of "fst ?x" "snd ?x"] x l by auto
  then have "l = fst ?x" by (simp add: to_string_inj)
  moreover have "k \<le> fst ?x" using x by auto
  ultimately have "filter (\<lambda>(i, _). l + 1 \<le> i) (docs s) = filter (\<lambda>(i, _). l + 1 \<le> i) ?R"
    by (auto simp: filter_filter intro!: filter_cong)
  then have "filter (\<lambda>(i, _). l + 1 \<le> i) (docs s) = drop ?m ?R"
    using filter_next_keys [OF sorted m(1) len] \<open>l = fst ?x\<close> by simp
  then show ?thesis using rest batch_all [OF N, of "l + 1"] by simp
qed

end

lemma keyed_docs_from:
  "map snd (filter (\<lambda>(i, _). k \<le> i) (map (\<lambda>(i, r). (i, f (i, r))) rs)) =
   map f (filter (\<lambda>(i, _). k \<le> i) rs)"
  by (induction rs) auto

lemma detect_record_key:
  "detect_record (detect_doc (i, r)) JNull = Some j \<Longrightarrow> jtext ''idx'' j = Some (to_string i)"
  by (auto simp: detect_doc_def data_src_json_def jset_def jtext_def jget_def
      split: list.splits option.splits json.splits bind_splits)

interpretation detect_reports: report_source
  "\<lambda>t. map (\<lambda>(i, r). (i, detect_doc (i, r))) (tb_rows t)" detect_record DetectReportResult table_ok
proof
  fix t :: "detect_row table" and k n i row j
  show "sorted_wrt (<) (map fst (map (\<lambda>(i, r). (i, detect_doc (i, r))) (tb_rows t)))"
    if "table_ok t"
    using that by (simp add: table_ok_def comp_def case_prod_beta)
  show "DetectReportResult k n t = (case batch_rows n (map snd (filter (\<lambda>(i, _). k \<le> i)
      (map (\<lambda>(i, r). (i, detect_doc (i, r))) (tb_rows t)))) of None \<Rightarrow> None
      | Some rows \<Rightarrow> records detect_record rows)"
    unfolding keyed_docs_from
    by (cases "batch_rows n (map detect_doc (sql_from k t))")
      (simp_all add: DetectReportResult_def sql_from_def)
  show "jtext ''idx'' j = Some (to_string i)"
    if "(i, row) \<in> set (map (\<lambda>(i, r). (i, detect_doc (i, r))) (tb_rows t))"
      "detect_record row JNull = Some j"
    using that detect_record_key by auto
qed

text \<open>A configured task and two results, for the witnesses.\<close>

definition demo_task :: CCommSafeDetect where
  "demo_task = \<lparr>dt_jTaskCfg = JObj [(''type'', JStr ''detect''), (''idx'', JStr ''1'')],
     dt_lstStrTask = [to_string 23, to_string 0],
     dt_mapDataSrc = [''10.0.0.7'' \<mapsto> JObj [(''type'', JStr ''rtspcli''), (''idx'', JStr ''2''),
       (''desc'', JStr ''gate'')]], dt_has_bus = True\<rparr>"

definition demo_floats :: "int float_ops" where
  "demo_floats = \<lparr>fl_add = (+), fl_sub = (-), fl_half = (\<lambda>x. x div 2), fl_less = (<),
     fl_nonpos = (\<lambda>x. x \<le> 0)\<rparr>"

definition demo_dets :: "int detection list" where
  "demo_dets = [\<lparr>sort_class = 0, prob = [5], bbox = \<lparr>box_x = 0, box_y = 0, box_w = 4, box_h = 4\<rparr>\<rparr>]"

text \<open>
  Clients can page through the alarms without loss or repetition: after a full page, asking for
  the batch that starts after the index in the page's last record gives exactly the rest of what
  one big batch would have given, for every table the task can have built.
\<close>

theorem detect_paging:
  assumes "table_ok t" and "0 < n" and "int (length (tb_rows t)) \<le> N"
    and "DetectReportResult k N t = Some al"
    and "DetectReportResult k n t = Some page" and "int (length page) = n"
    and "jtext ''idx'' (last page) = Some (to_string l)"
  shows "\<exists>rest. DetectReportResult (l + 1) N t = Some rest \<and> al = page @ rest"
  using detect_reports.next_page [OF assms(1,2) _ assms(4-7)] assms(3) by simp

definition demo_table :: "detect_row table" where
  "demo_table = \<lparr>tb_rows = [(4, \<lparr>dr_task_flag = ''detect1'', dr_alg_idx = ''0'', dr_alert_type = ''0'',
     dr_alert_date = ''d'', dr_data_src = ''rtspcli2:gate'', dr_img = ''i''\<rparr>),
     (5, \<lparr>dr_task_flag = ''detect1'', dr_alg_idx = ''0'', dr_alert_type = ''23'',
     dr_alert_date = ''e'', dr_data_src = ''rtspcli2:gate'', dr_img = ''j''\<rparr>)], tb_seq = 5\<rparr>"

lemma data_src_json_total: "\<exists>j'. data_src_json v (JObj m) = Some j'"
  by (auto simp: data_src_json_def split: list.split)

lemma detect_record_total: "\<exists>j. detect_record (detect_doc (i, r)) JNull = Some j"
proof -
  obtain v where v: "data_src_json (dr_data_src r) (JObj [(''idx'', JStr (to_string i)),
      (''task_flag'', JStr (dr_task_flag r)), (''alg_idx'', JStr (dr_alg_idx r)),
      (''alert_type'', JStr (dr_alert_type r)), (''alert_date'', JStr (dr_alert_date r))]) = Some v"
    using data_src_json_total by blast
  moreover from v obtain m where "v = JObj m"
    by (auto simp: data_src_json_def split: list.splits)
  ultimately show ?thesis by (simp add: detect_doc_def)
qed

lemma records_total: "(\<And>r. r \<in> set rs \<Longrightarrow> \<exists>j. rec r JNull = Some j) \<Longrightarrow> \<exists>js. records rec rs = Some js"
  by (induction rs) fastforce+

theorem detect_paging_witness:
  "\<exists>al page rest. DetectReportResult 0 100 demo_table = Some al \<and> DetectReportResult 0 1 demo_table = Some page \<and>
     length page = 1 \<and> DetectReportResult 5 100 demo_table = Some rest \<and> al = page @ rest"
proof -
  have ok: "table_ok demo_table" by (simp add: table_ok_def demo_table_def)
  have len: "length (tb_rows demo_table) = 2" by (simp add: demo_table_def)
  have batch: "DetectReportResult 0 100 demo_table =
      records detect_record (map detect_doc (tb_rows demo_table))"
    "DetectReportResult 0 1 demo_table = records detect_record [detect_doc (hd (tb_rows demo_table))]"
    by (simp_all add: DetectReportResult_def batch_rows_def sql_from_def demo_table_def)
  obtain al where al: "DetectReportResult 0 100 demo_table = Some al"
    using records_total [of "map detect_doc (tb_rows demo_table)" detect_record] batch(1)
      detect_record_total by fastforce
  obtain j where j: "detect_record (detect_doc (hd (tb_rows demo_table))) JNull = Some j"
    using detect_record_total by (metis surj_pair)
  then have page: "DetectReportResult 0 1 demo_table = Some [j]" by (simp add: batch(2))
  have key: "jtext ''idx'' j = Some (to_string 4)"
    using j detect_record_key [of 4] by (simp add: demo_table_def)
  have "\<exists>rest. DetectReportResult (4 + 1) 100 demo_table = Some rest \<and> al = [j] @ rest"
    by (rule detect_paging [OF ok _ _ al page]) (use key len in simp_all)
  then show ?thesis using al page by auto
qed

text \<open>
  What a client reads about an alarm is what the task wrote: the row made for a task and a
  source, read back as a record, has the key, the task's flag, type and date, the picture, and the
  source's id and description apart, provided neither contains a colon and both are there.
\<close>

theorem detect_row_recovered:
  assumes "make_row d task ip now img = Some r" and "dt_mapDataSrc d ip = Some src"
    and "jtext ''type'' src = Some st" "jtext ''idx'' src = Some si" "jtext ''desc'' src = Some sd"
    and "st @ si \<noteq> []" "sd \<noteq> []"
    and "\<forall>c \<in> set (st @ si @ sd). c \<noteq> CHR '':'' \<and> byte_of c \<noteq> 0"
  shows "\<exists>j. detect_record (detect_doc (i, r)) JNull = Some j \<and>
    jtext ''idx'' j = Some (to_string i) \<and> jtext ''alert_type'' j = Some (c_str task) \<and>
    jtext ''alert_date'' j = Some (c_str now) \<and> jtext ''img'' j = Some (c_str img) \<and>
    jtext ''transfer_id'' (jget ''data_src'' j) = Some (st @ si) \<and>
    jtext ''desc'' (jget ''data_src'' j) = Some sd"
proof -
  have colon: "byte_of CHR '':'' \<noteq> 0" by (simp add: byte_of_def)
  have fields: "dr_alert_type r = c_str task" "dr_alert_date r = c_str now" "dr_img r = c_str img"
    "dr_data_src r = c_str (st @ si @ '':'' @ sd)"
    using assms(1-5) by (auto simp: make_row_def split: bind_splits)
  have "c_str (st @ si @ '':'' @ sd) = (st @ si) @ CHR '':'' # sd"
    using assms(8) colon by simp
  moreover have "strtok_text ((st @ si) @ CHR '':'' # sd) '':'' = [st @ si, sd]"
    using assms(6-8) colon by (intro strtok_text_pair) auto
  ultimately have "data_src_json (dr_data_src r) (JObj m) = Some (JObj (AList.update ''data_src''
      (JObj [(''transfer_id'', JStr (st @ si)), (''desc'', JStr sd)]) m))" for m
    by (simp add: fields(4) data_src_json_def)
  then show ?thesis
    by (simp add: detect_doc_def fields(1-3) jtext_def)
qed

theorem detect_row_recovered_witness:
  "\<exists>r j. make_row demo_task ''0'' ''10.0.0.7'' ''now'' ''img'' = Some r \<and>
     detect_record (detect_doc (7, r)) JNull = Some j \<and>
     jtext ''transfer_id'' (jget ''data_src'' j) = Some ''rtspcli2'' \<and>
     jtext ''desc'' (jget ''data_src'' j) = Some ''gate''"
proof -
  obtain r where r: "make_row demo_task ''0'' ''10.0.0.7'' ''now'' ''img'' = Some r"
    by (simp add: make_row_def demo_task_def jtext_def)
  have "\<exists>j. detect_record (detect_doc (7, r)) JNull = Some j \<and>
    jtext ''idx'' j = Some (to_string 7) \<and> jtext ''alert_type'' j = Some (c_str ''0'') \<and>
    jtext ''alert_date'' j = Some (c_str ''now'') \<and> jtext ''img'' j = Some (c_str ''img'') \<and>
    jtext ''transfer_id'' (jget ''data_src'' j) = Some (''rtspcli'' @ ''2'') \<and>
    jtext ''desc'' (jget ''data_src'' j) = Some ''gate''"
    by (rule detect_row_recovered [OF r, where src = "JObj [(''type'', JStr ''rtspcli''),
          (''idx'', JStr ''2''), (''desc'', JStr ''gate'')]"])
      (simp_all add: demo_task_def jtext_def byte_of_def)
  then show ?thesis using r by auto
qed

text \<open>
  A request for a batch of negative size is not refused: the loop bound becomes a huge unsigned
  number and the rows are read past the end of the result, whatever the table holds.
\<close>

theorem negative_batch_overruns:
  assumes "n < 0"
  shows "DetectReportResult k n t = None"
  using assms by (simp add: DetectReportResult_def batch_rows_def Let_def)

theorem negative_batch_overruns_witness: "DetectReportResult 0 (-1) demo_table = None"
  by (rule negative_batch_overruns) simp


text \<open>
  Twenty-two results with one person each: after twenty-one of them the table is full, and the next takes
  the place of the oldest.
\<close>

definition demo_row :: detect_row where
  "demo_row = \<lparr>dr_task_flag = ''detect1'', dr_alg_idx = ''0'', dr_alert_type = ''0'', dr_alert_date = ''now'',
     dr_data_src = ''rtspcli2:gate'', dr_img = ''i''\<rparr>"

definition demo_next :: "detect_row table \<Rightarrow> detect_row table" where
  "demo_next t = sql_insert demo_row (sql_trim 20 t)"

lemma demo_zero: "to_string 0 = ''0''"
  by code_simp

lemma demo_result:
  "\<exists>b. DetectProResultMsg demo_floats (\<lambda>_. ''i'') ''now'' ''10.0.0.7'' demo_dets (int (length demo_dets)) demo_task t =
     Some (b, demo_next t)"
proof -
  have ok: "dets_ok demo_dets" by (simp add: dets_ok_def demo_dets_def)
  have "targets demo_floats (to_string 23) demo_dets = []" "targets demo_floats (to_string 0) demo_dets = demo_dets"
    by (simp_all add: targets_def demo_dets_def demo_floats_def to_string_inj)
  moreover have "make_row demo_task (to_string 0) ''10.0.0.7'' ''now'' ''i'' = Some demo_row"
    by (simp add: make_row_def demo_task_def jtext_def demo_row_def byte_of_def demo_zero)
  ultimately show ?thesis
    by (simp add: DetectProResultMsg_def demo_task_def task_step_def Let_def DetectInference_targets [OF ok]
        demo_next_def s32DetectQueueSize_def) (simp add: demo_dets_def demo_task_def)
qed

lemma demo_next_run:
  assumes "keys_run t"
  shows "keys_run (demo_next t) \<and> tb_seq (demo_next t) = tb_seq t + 1 \<and>
    length (tb_rows (demo_next t)) = min 21 (length (tb_rows t) + 1)"
proof -
  have k: "tb_rows (sql_trim 20 t) = newest 20 (tb_rows t)" "keys_run (sql_trim 20 t)"
    using keys_run_trim [OF assms, of 20] by simp_all
  have "tb_seq (sql_trim 20 t) = tb_seq t" by (simp add: sql_trim_def)
  then show ?thesis
    using keys_run_insert [OF k(2), of demo_row] k(1) by (simp add: demo_next_def) (simp add: sql_insert_def)
qed

lemma demo_reached:
  "(detect_move demo_floats)\<^sup>*\<^sup>* empty_table ((demo_next ^^ n) empty_table) \<and>
   keys_run ((demo_next ^^ n) empty_table) \<and> tb_seq ((demo_next ^^ n) empty_table) = int n \<and>
   length (tb_rows ((demo_next ^^ n) empty_table)) = min 21 n"
proof (induction n)
  case (Suc n)
  let ?t = "(demo_next ^^ n) empty_table"
  have "detect_move demo_floats ?t (demo_next ?t)" unfolding detect_move_def using demo_result by blast
  then have "(detect_move demo_floats)\<^sup>*\<^sup>* empty_table (demo_next ?t)"
    using Suc by (blast intro: rtranclp.rtrancl_into_rtrancl)
  then show ?case using Suc demo_next_run [of ?t] by simp
qed (simp add: empty_table_def keys_run_def)

theorem detect_table_bounded_witness:
  "\<exists>t t' b. (detect_move demo_floats)\<^sup>*\<^sup>* empty_table t \<and> length (tb_rows t) = 21 \<and>
     DetectProResultMsg demo_floats (\<lambda>_. ''i'') ''now'' ''10.0.0.7'' demo_dets (int (length demo_dets)) demo_task t = Some (b, t') \<and>
     tb_rows t' = tl (tb_rows t) @ [(22, demo_row)] \<and> map fst (tb_rows t') = [2 .. 22]"
proof -
  let ?t = "(demo_next ^^ 21) empty_table"
  have t: "(detect_move demo_floats)\<^sup>*\<^sup>* empty_table ?t" "tb_seq ?t = 21" "length (tb_rows ?t) = 21"
    using demo_reached [of 21] by simp_all
  obtain b where b: "DetectProResultMsg demo_floats (\<lambda>_. ''i'') ''now'' ''10.0.0.7'' demo_dets (int (length demo_dets))
      demo_task ?t = Some (b, demo_next ?t)"
    using demo_result by blast
  have ok: "dets_ok demo_dets" by (simp add: dets_ok_def demo_dets_def)
  have "targets demo_floats (to_string 23) demo_dets = []" "targets demo_floats (to_string 0) demo_dets = demo_dets"
    by (simp_all add: targets_def demo_dets_def demo_floats_def to_string_inj)
  moreover have "demo_dets \<noteq> []" by (simp add: demo_dets_def)
  moreover have "make_row demo_task (to_string 0) ''10.0.0.7'' ''now'' ''i'' = Some demo_row"
    by (simp add: make_row_def demo_task_def jtext_def demo_row_def byte_of_def demo_zero)
  ultimately have one: "alert_rows demo_floats (\<lambda>_. ''i'') ''now'' demo_task ''10.0.0.7'' demo_dets
      (if dt_mapDataSrc demo_task ''10.0.0.7'' = None then [] else dt_lstStrTask demo_task) rows \<longleftrightarrow> rows = [demo_row]" for rows
    by (cases rows) (auto simp: demo_task_def)
  have t': "tb_rows (demo_next ?t) = newest 21 (tb_rows ?t @ [(22, demo_row)])" "tb_seq (demo_next ?t) = 22"
      "map fst (tb_rows (demo_next ?t)) = [tb_seq (demo_next ?t) - int (length (tb_rows (demo_next ?t))) + 1 .. tb_seq (demo_next ?t)]"
    using detect_table_bounded [OF t(1) b ok, unfolded one] t(2) by auto
  have "length (tb_rows (demo_next ?t)) = 21" by (simp add: t'(1) t(3))
  then have "map fst (tb_rows (demo_next ?t)) = [2 .. 22]" using t'(2,3) by simp
  moreover have "tb_rows (demo_next ?t) = tl (tb_rows ?t) @ [(22, demo_row)]"
    using t(3) by (simp add: t'(1) newest_def drop_Suc)
  ultimately show ?thesis using t(1,3) b by blast
qed

end
