(* ===== verification/DetectNms.thy ===== *)
theory DetectNms
  imports Complex_Main CommSafeDetect
begin

text \<open>
  What the detection algorithm makes of the network's outputs (alg/VisionAlgModule/detection/DetectAlg.cpp,
  down to \<open>outputs_transform\<close>): the boxes of the cells of three grids, and the suppression of boxes
  that overlap. Floating-point operations are an argument; the only laws assumed of them are
  that zero equals itself and is not less than itself, and that a positive number is not zero. \<^term>\<open>None\<close> is an access outside an array.
\<close>

section \<open>Boxes\<close>

text \<open>The operations on \<open>float\<close> and \<open>double\<close>, the conversions between them, and \<open>double\<close> literals.\<close>

record ('f, 'd) nms_ops = "'f float_ops" +
  fl_mul :: "'f \<Rightarrow> 'f \<Rightarrow> 'f"
  fl_div :: "'f \<Rightarrow> 'f \<Rightarrow> 'f"
  fl_zero :: 'f
  fl_eq :: "'f \<Rightarrow> 'f \<Rightarrow> bool"
  fl_of_int :: "int \<Rightarrow> 'f"
  fl_neg :: "'f \<Rightarrow> 'f"
  fl_exp :: "'f \<Rightarrow> 'f"
  dbl :: "'f \<Rightarrow> 'd"
  fl_of_dbl :: "'d \<Rightarrow> 'f"
  dbl_lit :: "rat \<Rightarrow> 'd"
  dbl_add :: "'d \<Rightarrow> 'd \<Rightarrow> 'd"
  dbl_sub :: "'d \<Rightarrow> 'd \<Rightarrow> 'd"
  dbl_mul :: "'d \<Rightarrow> 'd \<Rightarrow> 'd"
  dbl_div :: "'d \<Rightarrow> 'd \<Rightarrow> 'd"
  dbl_pow :: "'d \<Rightarrow> int \<Rightarrow> 'd"

definition zero_law :: "('f, 'd) nms_ops \<Rightarrow> bool" where
  "zero_law F \<longleftrightarrow> fl_eq F (fl_zero F) (fl_zero F) \<and> \<not> fl_less F (fl_zero F) (fl_zero F) \<and>
     (\<forall>x. fl_less F (fl_zero F) x \<longrightarrow> \<not> fl_eq F x (fl_zero F))"

definition overlap :: "('f, 'd) nms_ops \<Rightarrow> 'f \<Rightarrow> 'f \<Rightarrow> 'f \<Rightarrow> 'f \<Rightarrow> 'f" where
  "overlap F x1 w1 x2 w2 = (let
     l1 = fl_sub F x1 (fl_half F w1);
     l2 = fl_sub F x2 (fl_half F w2);
     left = (if fl_less F l2 l1 then l1 else l2);
     r1 = fl_add F x1 (fl_half F w1);
     r2 = fl_add F x2 (fl_half F w2);
     right = (if fl_less F r1 r2 then r1 else r2)
     in fl_sub F right left)"

definition box_intersection :: "('f, 'd) nms_ops \<Rightarrow> 'f box \<Rightarrow> 'f box \<Rightarrow> 'f" where
  "box_intersection F a b = (let
     w = overlap F (box_x a) (box_w a) (box_x b) (box_w b);
     h = overlap F (box_y a) (box_h a) (box_y b) (box_h b)
     in if fl_less F w (fl_zero F) \<or> fl_less F h (fl_zero F) then fl_zero F else fl_mul F w h)"

definition box_union :: "('f, 'd) nms_ops \<Rightarrow> 'f box \<Rightarrow> 'f box \<Rightarrow> 'f" where
  "box_union F a b = (let i = box_intersection F a b in
     fl_sub F (fl_add F (fl_mul F (box_w a) (box_h a)) (fl_mul F (box_w b) (box_h b))) i)"

definition box_iou :: "('f, 'd) nms_ops \<Rightarrow> 'f box \<Rightarrow> 'f box \<Rightarrow> 'f" where
  "box_iou F a b = fl_div F (box_intersection F a b) (box_union F a b)"

section \<open>Suppression\<close>

text \<open>The first class with the greatest score, and the score.\<close>

fun class_loop :: "('f, 'd) nms_ops \<Rightarrow> 'f list \<Rightarrow> int \<Rightarrow> nat \<Rightarrow> int \<Rightarrow> 'f \<Rightarrow> (int \<times> 'f) option" where
  "class_loop F p j 0 c maxProb = Some (c, maxProb)"
| "class_loop F p j (Suc n) c maxProb = do {
     x \<leftarrow> get p j;
     if fl_less F maxProb x then class_loop F p (j + 1) n j x else class_loop F p (j + 1) n c maxProb}"

text \<open>The detections above the threshold, each with its class, are collected in \<open>detbuf\<close>.\<close>

fun collect_loop :: "('f, 'd) nms_ops \<Rightarrow> nat \<Rightarrow> 'f \<Rightarrow> int \<Rightarrow> nat \<Rightarrow> 'f detection list \<Rightarrow> 'f detection list \<Rightarrow>
    ('f detection list \<times> 'f detection list) option" where
  "collect_loop F classes fDrawThresh i 0 dets detbuf = Some (dets, detbuf)"
| "collect_loop F classes fDrawThresh i (Suc n) dets detbuf = do {
     d \<leftarrow> get dets i;
     p \<leftarrow> get (prob d) 0;
     (c, maxProb) \<leftarrow> class_loop F (prob d) 1 (classes - 1) 0 p;
     let d1 = d\<lparr>sort_class := c\<rparr>;
     dets1 \<leftarrow> put dets i d1;
     collect_loop F classes fDrawThresh (i + 1) n dets1 (if fl_less F fDrawThresh maxProb then detbuf @ [d1] else detbuf)}"

text \<open>Comparing box \<open>i\<close> with the later ones: the lower score is set to zero.\<close>

fun suppress_loop :: "('f, 'd) nms_ops \<Rightarrow> 'f \<Rightarrow> 'f box \<Rightarrow> int \<Rightarrow> int \<Rightarrow> nat \<Rightarrow> 'f detection list \<Rightarrow> 'f detection list option" where
  "suppress_loop F fIOUThresh a i j 0 detbuf = Some detbuf"
| "suppress_loop F fIOUThresh a i j (Suc n) detbuf = do {
     di \<leftarrow> get detbuf i;
     dj \<leftarrow> get detbuf j;
     if sort_class di = sort_class dj \<and> fl_less F fIOUThresh (box_iou F a (bbox dj)) then do {
       pj \<leftarrow> get (prob dj) (sort_class dj);
       pi \<leftarrow> get (prob di) (sort_class di);
       if fl_less F pj pi then do {
         p \<leftarrow> put (prob dj) (sort_class dj) (fl_zero F);
         detbuf1 \<leftarrow> put detbuf j (dj\<lparr>prob := p\<rparr>);
         suppress_loop F fIOUThresh a i (j + 1) n detbuf1}
       else do {
         p \<leftarrow> put (prob di) (sort_class di) (fl_zero F);
         put detbuf i (di\<lparr>prob := p\<rparr>)}}
     else suppress_loop F fIOUThresh a i (j + 1) n detbuf}"

fun keep_loop :: "('f, 'd) nms_ops \<Rightarrow> 'f \<Rightarrow> int \<Rightarrow> nat \<Rightarrow> 'f detection list \<Rightarrow> 'f detection list \<Rightarrow> int \<Rightarrow>
    ('f detection list \<times> int) option" where
  "keep_loop F fIOUThresh i 0 detbuf dets nTotal = Some (dets, nTotal)"
| "keep_loop F fIOUThresh i (Suc n) detbuf dets nTotal = do {
     d \<leftarrow> get detbuf i;
     p \<leftarrow> get (prob d) (sort_class d);
     if fl_eq F p (fl_zero F) then keep_loop F fIOUThresh (i + 1) n detbuf dets nTotal
     else do {
       detbuf1 \<leftarrow> suppress_loop F fIOUThresh (bbox d) i (i + 1) n detbuf;
       d1 \<leftarrow> get detbuf1 i;
       p1 \<leftarrow> get (prob d1) (sort_class d1);
       if fl_less F (fl_zero F) p1 then do {
         dets1 \<leftarrow> put dets nTotal d1;
         keep_loop F fIOUThresh (i + 1) n detbuf1 dets1 (nTotal + 1)}
       else keep_loop F fIOUThresh (i + 1) n detbuf1 dets nTotal}}"

definition do_nms_sort :: "('f, 'd) nms_ops \<Rightarrow> 'f detection list \<Rightarrow> int \<Rightarrow> nat \<Rightarrow> 'f \<Rightarrow> 'f \<Rightarrow> ('f detection list \<times> int) option" where
  "do_nms_sort F dets nTotal classes fIOUThresh fDrawThresh = do {
     (dets1, detbuf) \<leftarrow> collect_loop F classes fDrawThresh 0 (nat nTotal) dets [];
     keep_loop F fIOUThresh 0 (length detbuf) detbuf dets1 0}"

section \<open>The boxes that remain\<close>

definition score :: "'f detection \<Rightarrow> 'f" where
  "score d = prob d ! nat (sort_class d)"

definition class_ok :: "'f detection \<Rightarrow> bool" where
  "class_ok d \<longleftrightarrow> 0 \<le> sort_class d \<and> sort_class d < int (length (prob d))"

definition clear :: "('f, 'd) nms_ops \<Rightarrow> 'f detection \<Rightarrow> 'f detection" where
  "clear F d = d\<lparr>prob := (prob d)[nat (sort_class d) := fl_zero F]\<rparr>"

definition conflict :: "('f, 'd) nms_ops \<Rightarrow> 'f \<Rightarrow> 'f detection \<Rightarrow> 'f detection \<Rightarrow> bool" where
  "conflict F t d e \<longleftrightarrow> sort_class d = sort_class e \<and> fl_less F t (box_iou F (bbox d) (bbox e))"

definition best_class :: "('f, 'd) nms_ops \<Rightarrow> nat \<Rightarrow> 'f detection \<Rightarrow> int \<times> 'f" where
  "best_class F classes d = the (class_loop F (prob d) 1 (classes - 1) 0 (prob d ! 0))"

lemma clear_simps [simp]:
  "sort_class (clear F d) = sort_class d" "bbox (clear F d) = bbox d" "class_ok (clear F d) = class_ok d"
  by (simp_all add: clear_def class_ok_def)

lemma score_clear: "class_ok d \<Longrightarrow> score (clear F d) = fl_zero F"
  by (simp add: score_def clear_def class_ok_def nat_less_iff)

lemma get_score: "class_ok d \<Longrightarrow> get (prob d) (sort_class d) = Some (score d)"
  by (simp add: class_ok_def get_def score_def)

lemma put_score: "class_ok d \<Longrightarrow> put (prob d) (sort_class d) (fl_zero F) = Some (prob (clear F d))"
  by (simp add: class_ok_def put_def clear_def)

lemma clear_prob: "d\<lparr>prob := prob (clear F d)\<rparr> = clear F d"
  by (simp add: clear_def)

lemma class_loop_some:
  "1 \<le> j \<Longrightarrow> j + int n \<le> int (length p) \<Longrightarrow> 0 \<le> c \<Longrightarrow> c < int (length p) \<Longrightarrow> m = p ! nat c \<Longrightarrow>
   \<exists>c' m'. class_loop F p j n c m = Some (c', m') \<and> 0 \<le> c' \<and> c' < int (length p) \<and> m' = p ! nat c'"
proof (induction n arbitrary: j c m)
  case (Suc n)
  then show ?case by (simp add: get_def)
qed simp

lemma best_class_some:
  assumes "length (prob d) = classes" "1 \<le> classes"
  shows "class_loop F (prob d) 1 (classes - 1) 0 (prob d ! 0) = Some (best_class F classes d)"
    and "class_ok (d\<lparr>sort_class := fst (best_class F classes d)\<rparr>)"
    and "snd (best_class F classes d) = score (d\<lparr>sort_class := fst (best_class F classes d)\<rparr>)"
proof -
  obtain c m where cm: "class_loop F (prob d) 1 (classes - 1) 0 (prob d ! 0) = Some (c, m)" "0 \<le> c" "c < int classes" "m = prob d ! nat c"
    using class_loop_some [of 1 "classes - 1" "prob d" 0 "prob d ! 0" F] assms by auto
  show "class_loop F (prob d) 1 (classes - 1) 0 (prob d ! 0) = Some (best_class F classes d)"
    and "class_ok (d\<lparr>sort_class := fst (best_class F classes d)\<rparr>)"
    and "snd (best_class F classes d) = score (d\<lparr>sort_class := fst (best_class F classes d)\<rparr>)"
    using cm assms by (simp_all add: best_class_def class_ok_def score_def)
qed

definition classified :: "('f, 'd) nms_ops \<Rightarrow> nat \<Rightarrow> 'f detection \<Rightarrow> 'f detection" where
  "classified F classes d = d\<lparr>sort_class := fst (best_class F classes d)\<rparr>"

lemma collect_loop_spec:
  assumes "\<forall>d \<in> set dets. length (prob d) = classes" "1 \<le> classes" "i + n \<le> length dets"
  shows "\<exists>dets1. collect_loop F classes t (int i) n dets buf =
      Some (dets1, buf @ map (classified F classes) (filter (\<lambda>d. fl_less F t (snd (best_class F classes d))) (take n (drop i dets)))) \<and>
    length dets1 = length dets \<and> (\<forall>d \<in> set dets1. length (prob d) = classes)"
  using assms
proof (induction n arbitrary: i dets buf)
  case (Suc n)
  let ?d = "dets ! i"
  have i: "i < length dets" using Suc.prems(3) by simp
  have len: "length (prob ?d) = classes" using Suc.prems(1) i by simp
  then have p0: "get (prob ?d) 0 = Some (prob ?d ! 0)" using Suc.prems(2) by (simp add: get_def)
  let ?d1 = "classified F classes ?d"
  let ?dets = "dets[i := ?d1]"
  have all: "\<forall>d \<in> set ?dets. length (prob d) = classes"
    using Suc.prems(1) len by (auto simp: classified_def dest!: set_update_subset_insert [THEN subsetD])
  have dr: "take n (drop (Suc i) ?dets) = take n (drop (Suc i) dets)" by simp
  have step: "collect_loop F classes t (int i) (Suc n) dets buf =
      collect_loop F classes t (int (Suc i)) n ?dets (if fl_less F t (snd (best_class F classes ?d)) then buf @ [?d1] else buf)"
    using i p0 best_class_some(1) [OF len Suc.prems(2), of F]
    by (cases "best_class F classes ?d") (simp add: get_nat put_nat classified_def add.commute Let_def)
  have "take (Suc n) (drop i dets) = ?d # take n (drop (Suc i) dets)" using i by (simp add: Cons_nth_drop_Suc [symmetric])
  moreover have "Suc i + n \<le> length ?dets" using Suc.prems(3) by simp
  ultimately show ?case
    unfolding step using Suc.IH [OF all Suc.prems(2), of "Suc i" "if fl_less F t (snd (best_class F classes ?d)) then buf @ [?d1] else buf"] dr
    by (auto split: if_splits)
qed simp

text \<open>Candidate \<open>j\<close> beats candidate \<open>k\<close>, which is another one: they are in conflict, and the score of \<open>j\<close> is
  greater or, for a later one, at least not less.\<close>

definition beats :: "('f, 'd) nms_ops \<Rightarrow> 'f \<Rightarrow> 'f detection list \<Rightarrow> nat \<Rightarrow> nat \<Rightarrow> bool" where
  "beats F t cs j k \<longleftrightarrow> j < k \<and> conflict F t (cs ! j) (cs ! k) \<and> fl_less F (score (cs ! k)) (score (cs ! j)) \<or>
     k < j \<and> conflict F t (cs ! k) (cs ! j) \<and> \<not> fl_less F (score (cs ! j)) (score (cs ! k))"

definition lost :: "('f, 'd) nms_ops \<Rightarrow> 'f \<Rightarrow> 'f detection list \<Rightarrow> nat \<Rightarrow> bool" where
  "lost F t cs k \<longleftrightarrow> (\<exists>j < length cs. beats F t cs j k)"

definition candidate :: "('f, 'd) nms_ops \<Rightarrow> 'f detection \<Rightarrow> bool" where
  "candidate F d \<longleftrightarrow> class_ok d \<and> fl_less F (fl_zero F) (score d)"

definition cleared_from :: "('f, 'd) nms_ops \<Rightarrow> 'f \<Rightarrow> 'f detection list \<Rightarrow> 'f detection list \<Rightarrow> bool" where
  "cleared_from F t cs buf \<longleftrightarrow> length buf = length cs \<and>
     (\<forall>k < length cs. buf ! k = cs ! k \<or> buf ! k = clear F (cs ! k) \<and> lost F t cs k)"

lemma cleared_from_nth:
  assumes "cleared_from F t cs buf" "k < length cs"
  obtains "buf ! k = cs ! k" | "buf ! k = clear F (cs ! k)" "lost F t cs k"
  using assms by (auto simp: cleared_from_def)

lemma cleared_from_length: "cleared_from F t cs buf \<Longrightarrow> length buf = length cs"
  by (simp add: cleared_from_def)

lemma cleared_from_clear:
  "cleared_from F t cs buf \<Longrightarrow> k < length cs \<Longrightarrow> lost F t cs k \<Longrightarrow> cleared_from F t cs (buf[k := clear F (cs ! k)])"
  by (auto simp: cleared_from_def nth_list_update)

lemma clear_clear [simp]: "clear F (clear F d) = clear F d"
  by (simp add: clear_def)

lemma cleared_from_class_ok:
  "cleared_from F t cs buf \<Longrightarrow> \<forall>c \<in> set cs. candidate F c \<Longrightarrow> k < length cs \<Longrightarrow>
   class_ok (buf ! k) \<and> clear F (buf ! k) = clear F (cs ! k) \<and> sort_class (buf ! k) = sort_class (cs ! k) \<and> bbox (buf ! k) = bbox (cs ! k)"
  by (erule (1) cleared_from_nth) (simp_all add: candidate_def)

lemma score_pos_uncleared:
  assumes "zero_law F" "cleared_from F t cs buf" "\<forall>c \<in> set cs. candidate F c" "k < length cs"
  shows "fl_less F (fl_zero F) (score (buf ! k)) \<longleftrightarrow> buf ! k = cs ! k"
    and "buf ! k \<noteq> cs ! k \<Longrightarrow> score (buf ! k) = fl_zero F"
  using assms(2,4)
proof (atomize (full), rule cleared_from_nth)
  assume k: "buf ! k = clear F (cs ! k)"
  have "score (clear F (cs ! k)) = fl_zero F"
    using assms(3,4) by (intro score_clear) (simp add: candidate_def)
  moreover have "fl_less F (fl_zero F) (score (cs ! k))" using assms(3,4) by (simp add: candidate_def)
  ultimately show "(fl_less F (fl_zero F) (score (buf ! k)) = (buf ! k = cs ! k)) \<and> (buf ! k \<noteq> cs ! k \<longrightarrow> score (buf ! k) = fl_zero F)"
    using assms(1) k by (metis zero_law_def)
qed (use assms(3,4) in \<open>simp add: candidate_def\<close>)


lemma suppress_loop_Suc:
  assumes "\<forall>c \<in> set cs. candidate F c" "cleared_from F t cs buf" "i < j" "j < length cs" "buf ! i = cs ! i"
  shows "suppress_loop F t (bbox (cs ! i)) (int i) (int j) (Suc n) buf =
    (if conflict F t (cs ! i) (cs ! j) then
       if fl_less F (score (buf ! j)) (score (cs ! i))
       then suppress_loop F t (bbox (cs ! i)) (int i) (int (Suc j)) n (buf[j := clear F (cs ! j)])
       else Some (buf[i := clear F (cs ! i)])
     else suppress_loop F t (bbox (cs ! i)) (int i) (int (Suc j)) n buf)"
proof -
  have len: "length buf = length cs" "i < length buf" "j < length buf" using assms by (auto dest: cleared_from_length)
  have g: "get buf (int i) = Some (cs ! i)" "get buf (int j) = Some (buf ! j)"
    using len assms(5) by (simp_all add: get_nat)
  have ok: "class_ok (cs ! i)" "class_ok (buf ! j)" "sort_class (buf ! j) = sort_class (cs ! j)" "bbox (buf ! j) = bbox (cs ! j)"
    "clear F (buf ! j) = clear F (cs ! j)"
    using cleared_from_class_ok [OF assms(2,1,4)] assms(1) len by (auto simp: candidate_def)
  have s: "get (prob (buf ! j)) (sort_class (cs ! j)) = Some (score (buf ! j))"
    "put (prob (buf ! j)) (sort_class (cs ! j)) (fl_zero F) = Some (prob (clear F (cs ! j)))"
    "(buf ! j)\<lparr>prob := prob (clear F (cs ! j))\<rparr> = clear F (cs ! j)"
    using get_score [OF ok(2)] put_score [OF ok(2), of F] clear_prob [of F "buf ! j"] ok by simp_all
  show ?thesis
    using s get_score [OF ok(1)] put_score [OF ok(1), of F] len g ok(3,4)
    by (cases "sort_class (cs ! i) = sort_class (cs ! j)"; cases "fl_less F t (box_iou F (bbox (cs ! i)) (bbox (cs ! j)))")
      (simp_all add: conflict_def add.commute put_nat clear_prob s(3))
qed

text \<open>One pass of the inner loop keeps the relation to the candidates, touches nothing before
  \<open>j\<close> but box \<open>i\<close>, and ends with box \<open>i\<close> cleared or with every later box in conflict with it cleared.\<close>

lemma suppress_spec:
  assumes "zero_law F" "\<forall>c \<in> set cs. candidate F c"
    and "cleared_from F t cs buf" "i < j" "j + n \<le> length cs" "buf ! i = cs ! i"
  shows "\<exists>buf1. suppress_loop F t (bbox (cs ! i)) (int i) (int j) n buf = Some buf1 \<and> cleared_from F t cs buf1 \<and>
    (\<forall>k < j. k \<noteq> i \<longrightarrow> buf1 ! k = buf ! k) \<and>
    (\<forall>k < length cs. buf ! k \<noteq> cs ! k \<longrightarrow> buf1 ! k \<noteq> cs ! k) \<and>
    (buf1 ! i = cs ! i \<longrightarrow> (\<forall>k. j \<le> k \<and> k < j + n \<and> conflict F t (cs ! i) (cs ! k) \<longrightarrow> buf1 ! k \<noteq> cs ! k))"
  using assms(3-6)
proof (induction n arbitrary: j buf)
  case (Suc n)
  have len: "length buf = length cs" "i < length cs" "j < length cs" using Suc.prems by (auto dest: cleared_from_length)
  have ci: "candidate F (cs ! i)" and cj: "candidate F (cs ! j)" using assms(2) len by simp_all
  note step = suppress_loop_Suc [OF assms(2) Suc.prems(1,2) len(3) Suc.prems(4), of n]
  have inj: "clear F (cs ! j) \<noteq> cs ! j" "clear F (cs ! i) \<noteq> cs ! i"
    using ci cj assms(1) score_clear [of "cs ! j" F] score_clear [of "cs ! i" F] by (metis candidate_def zero_law_def)+
  show ?case
  proof (cases "conflict F t (cs ! i) (cs ! j)")
    case False
    have le: "Suc j + n \<le> length cs" "i < Suc j" using Suc.prems by simp_all
    from Suc.IH [OF Suc.prems(1) le(2,1) Suc.prems(4)]
    obtain buf1 where b: "suppress_loop F t (bbox (cs ! i)) (int i) (int (Suc j)) n buf = Some buf1" "cleared_from F t cs buf1"
      "\<forall>k < Suc j. k \<noteq> i \<longrightarrow> buf1 ! k = buf ! k" "\<forall>k < length cs. buf ! k \<noteq> cs ! k \<longrightarrow> buf1 ! k \<noteq> cs ! k"
      "buf1 ! i = cs ! i \<longrightarrow> (\<forall>k. Suc j \<le> k \<and> k < Suc j + n \<and> conflict F t (cs ! i) (cs ! k) \<longrightarrow> buf1 ! k \<noteq> cs ! k)" by blast
    have "\<forall>k. j \<le> k \<and> k < j + Suc n \<and> conflict F t (cs ! i) (cs ! k) \<longrightarrow> buf1 ! k \<noteq> cs ! k" if "buf1 ! i = cs ! i"
      using b(5) that False by (metis Suc_leI add_Suc_right add_Suc le_neq_implies_less)
    moreover have "suppress_loop F t (bbox (cs ! i)) (int i) (int j) (Suc n) buf = Some buf1" using step b(1) False by simp
    moreover have "\<forall>k < j. k \<noteq> i \<longrightarrow> buf1 ! k = buf ! k" using b(3) by simp
    ultimately show ?thesis using b(2,4) by blast
  next
    case True
    show ?thesis
    proof (cases "fl_less F (score (buf ! j)) (score (cs ! i))")
      case less: True
      let ?buf = "buf[j := clear F (cs ! j)]"
      have "lost F t cs j"
        using Suc.prems(1) len(3)
      proof (cases rule: cleared_from_nth)
        case 1
        then show ?thesis unfolding lost_def beats_def using True less len(2) Suc.prems(2) by auto
      qed
      then have cf: "cleared_from F t cs ?buf" using Suc.prems(1) len by (intro cleared_from_clear)
      have le: "Suc j + n \<le> length cs" "?buf ! i = cs ! i" "i < Suc j" using Suc.prems by auto
      from Suc.IH [OF cf le(3,1,2)]
      obtain buf1 where b: "suppress_loop F t (bbox (cs ! i)) (int i) (int (Suc j)) n ?buf = Some buf1" "cleared_from F t cs buf1"
        "\<forall>k < Suc j. k \<noteq> i \<longrightarrow> buf1 ! k = ?buf ! k" "\<forall>k < length cs. ?buf ! k \<noteq> cs ! k \<longrightarrow> buf1 ! k \<noteq> cs ! k"
        "buf1 ! i = cs ! i \<longrightarrow> (\<forall>k. Suc j \<le> k \<and> k < Suc j + n \<and> conflict F t (cs ! i) (cs ! k) \<longrightarrow> buf1 ! k \<noteq> cs ! k)" by blast
      have j: "buf1 ! j \<noteq> cs ! j" using b(4) len inj(1) by auto
      have "\<forall>k. j \<le> k \<and> k < j + Suc n \<and> conflict F t (cs ! i) (cs ! k) \<longrightarrow> buf1 ! k \<noteq> cs ! k" if "buf1 ! i = cs ! i"
        using b(5) that j by (metis Suc_leI add_Suc_right add_Suc le_neq_implies_less)
      moreover have "\<forall>k < length cs. buf ! k \<noteq> cs ! k \<longrightarrow> buf1 ! k \<noteq> cs ! k" using b(4) j by (metis nth_list_update_neq)
      moreover have "\<forall>k < j. k \<noteq> i \<longrightarrow> buf1 ! k = buf ! k" using b(3) by simp
      moreover have "suppress_loop F t (bbox (cs ! i)) (int i) (int j) (Suc n) buf = Some buf1"
        using step b(1) True less by simp
      ultimately show ?thesis using b(2) by blast
    next
      case less: False
      have "buf ! j = cs ! j"
        using less ci score_pos_uncleared(2) [OF assms(1) Suc.prems(1) assms(2) len(3)] by (metis candidate_def)
      then have l: "lost F t cs i"
        unfolding lost_def beats_def using True less len(3) Suc.prems(2) by auto
      let ?buf = "buf[i := clear F (cs ! i)]"
      have "suppress_loop F t (bbox (cs ! i)) (int i) (int j) (Suc n) buf = Some ?buf"
        using step True less by simp
      moreover have "cleared_from F t cs ?buf" using Suc.prems(1) len l by (intro cleared_from_clear)
      moreover have "?buf ! i \<noteq> cs ! i" using len inj(2) by simp
      moreover have "\<forall>k < j. k \<noteq> i \<longrightarrow> ?buf ! k = buf ! k" by simp
      moreover have "\<forall>k < length cs. buf ! k \<noteq> cs ! k \<longrightarrow> ?buf ! k \<noteq> cs ! k"
        using Suc.prems(4) by (metis nth_list_update_neq)
      ultimately show ?thesis by blast
    qed
  qed
qed auto

text \<open>The suppression as a recursion over the candidates alone: the first contends with the later ones,
  removing those it beats, until one removes it.\<close>

fun contest :: "('f, 'd) nms_ops \<Rightarrow> 'f \<Rightarrow> 'f detection \<Rightarrow> 'f detection list \<Rightarrow> 'f detection list \<times> bool" where
  "contest F t d [] = ([], True)"
| "contest F t d (e # es) = (if conflict F t d e then
       if fl_less F (score e) (score d) then contest F t d es else (e # es, False)
     else (case contest F t d es of (rest, won) \<Rightarrow> (e # rest, won)))"

lemma contest_length: "length (fst (contest F t d es)) \<le> length es"
  by (induction es) (auto split: prod.splits)

function nms_reference :: "('f, 'd) nms_ops \<Rightarrow> 'f \<Rightarrow> 'f detection list \<Rightarrow> 'f detection list" where
  "nms_reference F t [] = []"
| "nms_reference F t (d # ds) = (if snd (contest F t d ds) then d # nms_reference F t (fst (contest F t d ds))
     else nms_reference F t (fst (contest F t d ds)))"
  by pat_completeness auto
termination
  by (relation "measure (\<lambda>(F, t, ds). length ds)") (auto simp: contest_length le_imp_less_Suc)

text \<open>The candidates from position \<open>j\<close> on that are still there.\<close>

definition remaining :: "'f detection list \<Rightarrow> 'f detection list \<Rightarrow> nat \<Rightarrow> 'f detection list" where
  "remaining cs buf j = map ((!) cs) (filter (\<lambda>k. buf ! k = cs ! k) [j..<length cs])"

lemma remaining_step:
  "j < length cs \<Longrightarrow> remaining cs buf j = (if buf ! j = cs ! j then cs ! j # remaining cs buf (Suc j) else remaining cs buf (Suc j))"
  by (simp add: remaining_def upt_conv_Cons)

lemma remaining_update: "i < j \<Longrightarrow> remaining cs (buf[i := x]) j = remaining cs buf j"
  unfolding remaining_def by (intro arg_cong [of _ _ "map ((!) cs)"] filter_cong) auto

lemma suppress_contest:
  assumes "zero_law F" "\<forall>c \<in> set cs. candidate F c"
    and "cleared_from F t cs buf" "i < j" "j + n = length cs" "buf ! i = cs ! i"
  shows "\<exists>buf1. suppress_loop F t (bbox (cs ! i)) (int i) (int j) n buf = Some buf1 \<and>
    remaining cs buf1 j = fst (contest F t (cs ! i) (remaining cs buf j)) \<and>
    (buf1 ! i = cs ! i \<longleftrightarrow> snd (contest F t (cs ! i) (remaining cs buf j)))"
  using assms(3-6)
proof (induction n arbitrary: j buf)
  case 0
  then show ?case by (simp add: remaining_def)
next
  case (Suc n)
  have len: "length buf = length cs" "i < length cs" "j < length cs" using Suc.prems by (auto dest: cleared_from_length)
  have ci: "candidate F (cs ! i)" and cj: "candidate F (cs ! j)" using assms(2) len by simp_all
  note step = suppress_loop_Suc [OF assms(2) Suc.prems(1,2) len(3) Suc.prems(4), of n]
  have inj: "clear F (cs ! j) \<noteq> cs ! j" "clear F (cs ! i) \<noteq> cs ! i"
    using ci cj assms(1) score_clear [of "cs ! j" F] score_clear [of "cs ! i" F] by (metis candidate_def zero_law_def)+
  have le: "Suc j + n = length cs" "Suc j + n \<le> length cs" "i < Suc j" using Suc.prems by simp_all
  note rem = remaining_step [OF len(3)]
  show ?case
  proof (cases "conflict F t (cs ! i) (cs ! j)")
    case False
    then have eq: "suppress_loop F t (bbox (cs ! i)) (int i) (int j) (Suc n) buf =
        suppress_loop F t (bbox (cs ! i)) (int i) (int (Suc j)) n buf" using step by simp
    from Suc.IH [OF Suc.prems(1) le(3,1) Suc.prems(4)] obtain buf1 where
      b: "suppress_loop F t (bbox (cs ! i)) (int i) (int (Suc j)) n buf = Some buf1"
        "remaining cs buf1 (Suc j) = fst (contest F t (cs ! i) (remaining cs buf (Suc j)))"
        "buf1 ! i = cs ! i \<longleftrightarrow> snd (contest F t (cs ! i) (remaining cs buf (Suc j)))" by blast
    have "buf1 ! j = buf ! j"
      using suppress_spec [OF assms(1,2) Suc.prems(1) le(3,2) Suc.prems(4)] b(1) Suc.prems(2) by auto
    then show ?thesis using b(2,3) False unfolding eq b(1) by (auto simp: rem split: prod.splits)
  next
    case conf: True
    show ?thesis
    proof (cases "fl_less F (score (buf ! j)) (score (cs ! i))")
      case less: True
      let ?buf = "buf[j := clear F (cs ! j)]"
      have eq: "suppress_loop F t (bbox (cs ! i)) (int i) (int j) (Suc n) buf =
          suppress_loop F t (bbox (cs ! i)) (int i) (int (Suc j)) n ?buf" using step conf less by simp
      have "lost F t cs j" if "buf ! j = cs ! j"
        unfolding lost_def beats_def using conf less len(2) Suc.prems(2) that by auto
      then have "lost F t cs j" using Suc.prems(1) len(3) by (metis cleared_from_nth)
      then have cf: "cleared_from F t cs ?buf" using Suc.prems(1) len by (intro cleared_from_clear)
      have bi: "?buf ! i = cs ! i" using Suc.prems(2,4) by simp
      from Suc.IH [OF cf le(3,1) bi] obtain buf1 where
        b: "suppress_loop F t (bbox (cs ! i)) (int i) (int (Suc j)) n ?buf = Some buf1"
          "remaining cs buf1 (Suc j) = fst (contest F t (cs ! i) (remaining cs ?buf (Suc j)))"
          "buf1 ! i = cs ! i \<longleftrightarrow> snd (contest F t (cs ! i) (remaining cs ?buf (Suc j)))" by blast
      have "\<exists>b. Some buf1 = Some b \<and> (\<forall>k < length cs. ?buf ! k \<noteq> cs ! k \<longrightarrow> b ! k \<noteq> cs ! k)"
        using suppress_spec [OF assms(1,2) cf le(3,2) bi] b(1) by metis
      then have "buf1 ! j \<noteq> cs ! j" using inj(1) len by simp
      moreover have "remaining cs ?buf (Suc j) = remaining cs buf (Suc j)" by (rule remaining_update) simp
      ultimately show ?thesis using b(2,3) conf less unfolding eq b(1) by (auto simp: rem)
    next
      case less: False
      have bj: "buf ! j = cs ! j"
        using less ci score_pos_uncleared(2) [OF assms(1) Suc.prems(1) assms(2) len(3)] by (metis candidate_def)
      have "suppress_loop F t (bbox (cs ! i)) (int i) (int j) (Suc n) buf = Some (buf[i := clear F (cs ! i)])"
        using step conf less by simp
      moreover have "remaining cs (buf[i := clear F (cs ! i)]) j = remaining cs buf j" by (rule remaining_update) (rule Suc.prems(2))
      moreover have "(buf[i := clear F (cs ! i)]) ! i \<noteq> cs ! i" using inj(2) len by simp
      ultimately show ?thesis using conf less bj by (auto simp: rem)
    qed
  qed
qed

text \<open>The positions \<open>ks\<close> from \<open>i\<close> on that the outer loop keeps.\<close>

definition kept :: "('f, 'd) nms_ops \<Rightarrow> 'f \<Rightarrow> 'f detection list \<Rightarrow> 'f detection list \<Rightarrow> nat \<Rightarrow> nat list \<Rightarrow> bool" where
  "kept F t cs buf i ks \<longleftrightarrow> sorted_wrt (<) ks \<and> set ks \<subseteq> {k. i \<le> k \<and> k < length cs \<and> buf ! k = cs ! k} \<and>
     sorted_wrt (\<lambda>k l. \<not> conflict F t (cs ! k) (cs ! l)) ks \<and>
     (\<forall>k. i \<le> k \<and> k < length cs \<and> k \<notin> set ks \<longrightarrow> lost F t cs k)"

lemma kept_skip:
  assumes "kept F t cs buf1 (Suc i) ks" "lost F t cs i" "\<forall>k < length cs. buf ! k \<noteq> cs ! k \<longrightarrow> buf1 ! k \<noteq> cs ! k"
  shows "kept F t cs buf i ks"
proof -
  have "lost F t cs k" if "i \<le> k" "k < length cs" "k \<notin> set ks" for k
    using assms(1,2) that by (cases "k = i") (simp_all add: kept_def)
  then show ?thesis using assms(1,3) by (auto simp: kept_def)
qed

lemma kept_add:
  assumes "kept F t cs buf1 (Suc i) ks" "\<forall>k < length cs. buf ! k \<noteq> cs ! k \<longrightarrow> buf1 ! k \<noteq> cs ! k" "buf ! i = cs ! i" "i < length cs"
    and "\<forall>k. Suc i \<le> k \<and> k < length cs \<and> conflict F t (cs ! i) (cs ! k) \<longrightarrow> buf1 ! k \<noteq> cs ! k"
  shows "kept F t cs buf i (i # ks)"
proof -
  have "lost F t cs k" if "i \<le> k" "k < length cs" "k \<notin> set (i # ks)" for k
    using assms(1) that by (simp add: kept_def)
  then show ?thesis using assms by (auto simp: kept_def)
qed

lemma zero_laws:
  assumes "zero_law F"
  shows "fl_eq F (fl_zero F) (fl_zero F)" "\<not> fl_less F (fl_zero F) (fl_zero F)" "fl_less F (fl_zero F) x \<Longrightarrow> \<not> fl_eq F x (fl_zero F)"
  using assms by (simp_all add: zero_law_def)

lemma keep_loop_cleared:
  assumes "zero_law F" "\<forall>c \<in> set cs. candidate F c" "cleared_from F t cs buf" "i < length cs" "buf ! i \<noteq> cs ! i"
  shows "keep_loop F t (int i) (Suc n) buf dets (int m) = keep_loop F t (int (Suc i)) n buf dets (int m)"
    and "lost F t cs i"
proof -
  have "class_ok (buf ! i)" using cleared_from_class_ok [OF assms(3,2,4)] by simp
  moreover have "score (buf ! i) = fl_zero F" using score_pos_uncleared(2) [OF assms(1,3,2,4,5)] .
  moreover have "get buf (int i) = Some (buf ! i)" using assms(3,4) by (simp add: get_nat cleared_from_length)
  ultimately show "keep_loop F t (int i) (Suc n) buf dets (int m) = keep_loop F t (int (Suc i)) n buf dets (int m)"
    using zero_laws(1) [OF assms(1)] by (simp add: get_score add.commute)
  show "lost F t cs i" using assms(3-5) by (auto simp: cleared_from_def)
qed

text \<open>A box that is still there is kept, or cleared by a later one.\<close>

lemma keep_loop_step:
  assumes "zero_law F" "\<forall>c \<in> set cs. candidate F c" "cleared_from F t cs buf" "i + Suc n = length cs" "buf ! i = cs ! i" "m < length dets"
  obtains buf1 where "cleared_from F t cs buf1" "\<forall>k < length cs. buf ! k \<noteq> cs ! k \<longrightarrow> buf1 ! k \<noteq> cs ! k"
    "buf1 ! i = cs ! i" "\<forall>k. Suc i \<le> k \<and> k < length cs \<and> conflict F t (cs ! i) (cs ! k) \<longrightarrow> buf1 ! k \<noteq> cs ! k"
    "nms_reference F t (remaining cs buf i) = cs ! i # nms_reference F t (remaining cs buf1 (Suc i))"
    "keep_loop F t (int i) (Suc n) buf dets (int m) = keep_loop F t (int (Suc i)) n buf1 (dets[m := cs ! i]) (int (Suc m))"
  | buf1 where "cleared_from F t cs buf1" "\<forall>k < length cs. buf ! k \<noteq> cs ! k \<longrightarrow> buf1 ! k \<noteq> cs ! k" "lost F t cs i"
    "nms_reference F t (remaining cs buf i) = nms_reference F t (remaining cs buf1 (Suc i))"
    "keep_loop F t (int i) (Suc n) buf dets (int m) = keep_loop F t (int (Suc i)) n buf1 dets (int m)"
proof -
  have i: "i < length cs" "Suc i + n \<le> length cs" and len: "length buf = length cs"
    using assms(3,4) by (auto dest: cleared_from_length)
  have ci: "class_ok (cs ! i)" "fl_less F (fl_zero F) (score (cs ! i))" using assms(2) i by (simp_all add: candidate_def)
  have g: "get buf (int i) = Some (cs ! i)" using i len assms(5) by (simp add: get_nat)
  obtain buf1 where b: "suppress_loop F t (bbox (cs ! i)) (int i) (int (Suc i)) n buf = Some buf1" "cleared_from F t cs buf1"
    "\<forall>k < length cs. buf ! k \<noteq> cs ! k \<longrightarrow> buf1 ! k \<noteq> cs ! k"
    "buf1 ! i = cs ! i \<longrightarrow> (\<forall>k. Suc i \<le> k \<and> k < Suc i + n \<and> conflict F t (cs ! i) (cs ! k) \<longrightarrow> buf1 ! k \<noteq> cs ! k)"
    using suppress_spec [OF assms(1,2,3) lessI i(2) assms(5)] by blast
  have ref: "nms_reference F t (remaining cs buf i) = (if buf1 ! i = cs ! i then cs ! i # nms_reference F t (remaining cs buf1 (Suc i))
      else nms_reference F t (remaining cs buf1 (Suc i)))"
  proof -
    have "Suc i + n = length cs" using assms(4) by simp
    from suppress_contest [OF assms(1,2,3) lessI this assms(5)] b(1)
    show ?thesis using assms(5) by (simp add: remaining_step [OF i(1)])
  qed
  have g1: "get buf1 (int i) = Some (buf1 ! i)" using i(1) cleared_from_length [OF b(2)] by (simp add: get_nat)
  have ok1: "class_ok (buf1 ! i)" using cleared_from_class_ok [OF b(2) assms(2) i(1)] by simp
  have eq: "keep_loop F t (int i) (Suc n) buf dets (int m) =
      (if fl_less F (fl_zero F) (score (buf1 ! i)) then keep_loop F t (int (Suc i)) n buf1 (dets[m := buf1 ! i]) (int (Suc m))
       else keep_loop F t (int (Suc i)) n buf1 dets (int m))"
    using g g1 b(1) assms(6) zero_laws(3) [OF assms(1) ci(2)] get_score [OF ci(1)] get_score [OF ok1]
    by (simp add: add.commute put_nat)
  note pos = score_pos_uncleared(1) [OF assms(1) b(2) assms(2) i(1)]
  show thesis
  proof (cases "buf1 ! i = cs ! i")
    case True
    then show ?thesis using that(1) [OF b(2,3)] b(4) eq pos assms(4) ref by simp
  next
    case False
    moreover have "lost F t cs i" using b(2) i(1) False by (auto simp: cleared_from_def)
    ultimately show ?thesis using that(2) [OF b(2,3)] eq pos ref by simp
  qed
qed

text \<open>The outer loop keeps boxes that do not conflict with each other; every box it drops has lost to another.\<close>

lemma keep_loop_spec:
  assumes "zero_law F" "\<forall>c \<in> set cs. candidate F c"
    and "cleared_from F t cs buf" "i + n = length cs" "m + n \<le> length dets"
  shows "\<exists>dets1 ks. keep_loop F t (int i) n buf dets (int m) = Some (dets1, int (m + length ks)) \<and> length dets1 = length dets \<and>
    length ks \<le> n \<and> take (m + length ks) dets1 = take m dets @ map ((!) cs) ks \<and> kept F t cs buf i ks \<and>
    map ((!) cs) ks = nms_reference F t (remaining cs buf i)"
  using assms(3-5)
proof (induction n arbitrary: i buf dets m)
  case 0
  then show ?case by (intro exI [of _ dets] exI [of _ "[]"]) (auto simp: kept_def remaining_def)
next
  case (Suc n)
  have i: "i < length cs" "Suc i + n = length cs" and m: "m < length dets" "m + n \<le> length dets" "Suc m + n \<le> length dets"
    using Suc.prems by simp_all
  show ?case
  proof (cases "buf ! i = cs ! i")
    case False
    note st = keep_loop_cleared [OF assms(1,2) Suc.prems(1) i(1) False]
    have "remaining cs buf i = remaining cs buf (Suc i)" using False by (simp add: remaining_step [OF i(1)])
    then show ?thesis unfolding st(1) using Suc.IH [OF Suc.prems(1) i(2) m(2)] kept_skip [OF _ st(2)] le_SucI by metis
  next
    case True
    from assms(1,2) Suc.prems(1,2) True m(1) show ?thesis
    proof (cases rule: keep_loop_step)
      case (1 buf1)
      have l: "Suc m + n \<le> length (dets[m := cs ! i])" using m(3) by simp
      from Suc.IH [OF 1(1) i(2) l] obtain dets1 ks where r:
        "keep_loop F t (int (Suc i)) n buf1 (dets[m := cs ! i]) (int (Suc m)) = Some (dets1, int (Suc m + length ks))"
        "length dets1 = length (dets[m := cs ! i])" "length ks \<le> n"
        "take (Suc m + length ks) dets1 = take (Suc m) (dets[m := cs ! i]) @ map ((!) cs) ks" "kept F t cs buf1 (Suc i) ks"
        "map ((!) cs) ks = nms_reference F t (remaining cs buf1 (Suc i))" by blast
      show ?thesis
        using r(1-4,6) m(1) kept_add [OF r(5) 1(2) True i(1) 1(4)] unfolding 1(5,6)
        by (intro exI [of _ dets1] exI [of _ "i # ks"]) (simp add: take_Suc_conv_app_nth)
    next
      case (2 buf1)
      show ?thesis unfolding 2(4,5) using Suc.IH [OF 2(1) i(2) m(2)] kept_skip [OF _ 2(3,2)] le_SucI by blast
    qed
  qed
qed


definition candidates :: "('f, 'd) nms_ops \<Rightarrow> nat \<Rightarrow> 'f \<Rightarrow> 'f detection list \<Rightarrow> 'f detection list" where
  "candidates F classes t ds = map (classified F classes) (filter (\<lambda>d. fl_less F t (snd (best_class F classes d))) ds)"

lemma candidates_candidate:
  assumes "\<forall>x. fl_less F t x \<longrightarrow> fl_less F (fl_zero F) x" "1 \<le> classes" "\<forall>d \<in> set ds. length (prob d) = classes"
  shows "\<forall>c \<in> set (candidates F classes t ds). candidate F c"
proof
  fix c assume "c \<in> set (candidates F classes t ds)"
  then obtain d where d: "d \<in> set ds" "c = classified F classes d" "fl_less F t (snd (best_class F classes d))"
    by (auto simp: candidates_def)
  then have "length (prob d) = classes" using assms(3) by simp
  note best_class_some(2,3) [OF this assms(2), of F]
  then show "candidate F c" using d assms(1) by (simp add: candidate_def classified_def)
qed

text \<open>The suppression never leaves its arrays; what it returns is given by positions among the candidates.\<close>

lemma do_nms_sort_spec:
  assumes "zero_law F" "\<forall>x. fl_less F draw x \<longrightarrow> fl_less F (fl_zero F) x" "1 \<le> classes" "\<forall>d \<in> set dets. length (prob d) = classes"
    and "n \<le> length dets"
  shows "\<exists>dets1 ks. do_nms_sort F dets (int n) classes t draw = Some (dets1, int (length ks)) \<and> length dets1 = length dets \<and>
    length ks \<le> n \<and> take (length ks) dets1 = map ((!) (candidates F classes draw (take n dets))) ks \<and>
    kept F t (candidates F classes draw (take n dets)) (candidates F classes draw (take n dets)) 0 ks \<and>
    map ((!) (candidates F classes draw (take n dets))) ks = nms_reference F t (candidates F classes draw (take n dets))"
proof -
  let ?cs = "candidates F classes draw (take n dets)"
  obtain dets0 where c: "collect_loop F classes draw 0 n dets [] = Some (dets0, ?cs)" "length dets0 = length dets"
    using collect_loop_spec [OF assms(4,3), of 0 n F draw "[]"] assms(5) by (auto simp: candidates_def)
  have "\<forall>d \<in> set (take n dets). length (prob d) = classes" using assms(4) by (meson in_set_takeD)
  then have cand: "\<forall>c \<in> set ?cs. candidate F c" by (rule candidates_candidate [OF assms(2,3)])
  have "length ?cs \<le> length (take n dets)" unfolding candidates_def length_map by (rule length_filter_le)
  then have le: "length ?cs \<le> n" using assms(5) by simp
  have "cleared_from F t ?cs ?cs" by (simp add: cleared_from_def)
  from keep_loop_spec [OF assms(1) cand this, of 0 "length ?cs" 0 dets0] le c(2) assms(5)
  obtain dets1 ks where "keep_loop F t 0 (length ?cs) ?cs dets0 0 = Some (dets1, int (length ks))"
    "length dets1 = length dets" "length ks \<le> length ?cs" "take (length ks) dets1 = map ((!) ?cs) ks" "kept F t ?cs ?cs 0 ks"
    "map ((!) ?cs) ks = nms_reference F t (remaining ?cs ?cs 0)"
    by auto
  moreover have "remaining ?cs ?cs 0 = ?cs" by (simp add: remaining_def map_nth)
  ultimately show ?thesis using le c(1) by (auto simp: do_nms_sort_def)
qed


section \<open>The boxes of the grids\<close>

definition logistic :: "('f, 'd) nms_ops \<Rightarrow> 'f \<Rightarrow> 'd" where
  "logistic F x = dbl_div F (dbl_lit F 1) (dbl_add F (dbl_lit F 1) (dbl F (fl_exp F (fl_neg F x))))"

definition sig_xy :: "('f, 'd) nms_ops \<Rightarrow> 'f \<Rightarrow> 'f" where
  "sig_xy F x = fl_of_dbl F (dbl_sub F (dbl_mul F (logistic F x) (dbl_lit F 2)) (dbl_lit F (1 / 2)))"

definition sig_wh :: "('f, 'd) nms_ops \<Rightarrow> 'f \<Rightarrow> 'f" where
  "sig_wh F x = fl_of_dbl F (dbl_pow F (dbl_mul F (logistic F x) (dbl_lit F 2)) 2)"

definition sig :: "('f, 'd) nms_ops \<Rightarrow> 'f \<Rightarrow> 'f" where
  "sig F x = fl_of_dbl F (logistic F x)"

definition get_yolo_box :: "('f, 'd) nms_ops \<Rightarrow> 'f \<Rightarrow> 'f \<Rightarrow> 'f \<Rightarrow> 'f \<Rightarrow> 'f list \<Rightarrow> int \<Rightarrow> int \<Rightarrow> int \<Rightarrow> int \<Rightarrow> int \<Rightarrow>
    int \<Rightarrow> int \<Rightarrow> 'f box option" where
  "get_yolo_box F x y w h biases n i j lw lh netw neth = do {
     bw \<leftarrow> get biases (2 * n);
     bh \<leftarrow> get biases (2 * n + 1);
     Some \<lparr>box_x = fl_div F (fl_add F (fl_of_int F i) x) (fl_of_int F lw),
       box_y = fl_div F (fl_add F (fl_of_int F j) y) (fl_of_int F lh),
       box_w = fl_div F (fl_mul F w bw) (fl_of_int F netw),
       box_h = fl_div F (fl_mul F h bh) (fl_of_int F neth)\<rparr>}"

text \<open>One prediction is replaced in place.\<close>

definition update :: "'f list \<Rightarrow> int \<Rightarrow> ('f \<Rightarrow> 'f) \<Rightarrow> 'f list option" where
  "update p k g = do {x \<leftarrow> get p k; put p k (g x)}"

fun sig_loop :: "('f, 'd) nms_ops \<Rightarrow> int \<Rightarrow> int \<Rightarrow> nat \<Rightarrow> 'f list \<Rightarrow> 'f list option" where
  "sig_loop F offset c 0 p = Some p"
| "sig_loop F offset c (Suc n) p = do {p1 \<leftarrow> update p (offset + 5 + c) (sig F); sig_loop F offset (c + 1) n p1}"

fun prob_loop :: "('f, 'd) nms_ops \<Rightarrow> 'f list \<Rightarrow> 'f \<Rightarrow> int \<Rightarrow> int \<Rightarrow> nat \<Rightarrow> 'f list \<Rightarrow> 'f list option" where
  "prob_loop F p obj offset c 0 pr = Some pr"
| "prob_loop F p obj offset c (Suc n) pr = do {
     x \<leftarrow> get p (offset + 5 + c);
     pr1 \<leftarrow> put pr c (fl_mul F obj x);
     prob_loop F p obj offset (c + 1) n pr1}"

text \<open>One cell of the grid for one anchor: the predictions at \<open>offset\<close>, the next free detection at \<open>count\<close>.\<close>

definition cell_step :: "('f, 'd) nms_ops \<Rightarrow> int \<Rightarrow> int \<Rightarrow> int \<Rightarrow> int list \<Rightarrow> int \<Rightarrow> 'f list \<Rightarrow> nat \<Rightarrow> 'f \<Rightarrow> int \<Rightarrow> int \<Rightarrow>
    'f list \<times> int \<times> 'f detection list \<Rightarrow> ('f list \<times> int \<times> 'f detection list) option" where
  "cell_step F netw neth grid masks a anchors classes obj_thresh wh offset st = (case st of (p, count, dets) \<Rightarrow> do {
     let row = wh div grid;
     let col = wh mod grid;
     p \<leftarrow> update p offset (sig_xy F);
     p \<leftarrow> update p (offset + 1) (sig_xy F);
     p \<leftarrow> update p (offset + 2) (sig_wh F);
     p \<leftarrow> update p (offset + 3) (sig_wh F);
     p \<leftarrow> update p (offset + 4) (sig F);
     p \<leftarrow> sig_loop F offset 0 classes p;
     objectness \<leftarrow> get p (offset + 4);
     if fl_less F obj_thresh objectness then do {
       d \<leftarrow> get dets count;
       x \<leftarrow> get p offset;
       y \<leftarrow> get p (offset + 1);
       w \<leftarrow> get p (offset + 2);
       h \<leftarrow> get p (offset + 3);
       mask_a \<leftarrow> get masks a;
       b \<leftarrow> get_yolo_box F x y w h anchors mask_a col row grid grid netw neth;
       pr \<leftarrow> prob_loop F p objectness offset 0 classes (prob d);
       dets1 \<leftarrow> put dets count (d\<lparr>bbox := b, prob := pr\<rparr>);
       Some (p, count + 1, dets1)}
     else Some (p, count, dets)})"

fun cell_loop :: "('f, 'd) nms_ops \<Rightarrow> int \<Rightarrow> int \<Rightarrow> int \<Rightarrow> int list \<Rightarrow> int \<Rightarrow> 'f list \<Rightarrow> nat \<Rightarrow> 'f \<Rightarrow> int \<Rightarrow> nat \<Rightarrow> int \<Rightarrow>
    'f list \<times> int \<times> 'f detection list \<Rightarrow> ('f list \<times> int \<times> 'f detection list) option" where
  "cell_loop F netw neth grid masks a anchors classes obj_thresh wh 0 offset st = Some st"
| "cell_loop F netw neth grid masks a anchors classes obj_thresh wh (Suc n) offset st = do {
     st1 \<leftarrow> cell_step F netw neth grid masks a anchors classes obj_thresh wh offset st;
     cell_loop F netw neth grid masks a anchors classes obj_thresh (wh + 1) n (offset + (1 + 4 + int classes)) st1}"

fun anchor_loop :: "('f, 'd) nms_ops \<Rightarrow> int \<Rightarrow> int \<Rightarrow> int \<Rightarrow> int list \<Rightarrow> 'f list \<Rightarrow> nat \<Rightarrow> 'f \<Rightarrow> int \<Rightarrow> nat \<Rightarrow> int \<Rightarrow>
    'f list \<times> int \<times> 'f detection list \<Rightarrow> ('f list \<times> int \<times> 'f detection list) option" where
  "anchor_loop F netw neth grid masks anchors classes obj_thresh a 0 offset st = Some st"
| "anchor_loop F netw neth grid masks anchors classes obj_thresh a (Suc n) offset st = do {
     st1 \<leftarrow> cell_loop F netw neth grid masks a anchors classes obj_thresh 0 (nat (grid * grid)) offset st;
     anchor_loop F netw neth grid masks anchors classes obj_thresh (a + 1) n
       (offset + grid * grid * (1 + 4 + int classes)) st1}"

definition nanchor :: int where "nanchor = 3"

definition get_network_boxes :: "('f, 'd) nms_ops \<Rightarrow> 'f list \<Rightarrow> int \<Rightarrow> int \<Rightarrow> int \<Rightarrow> int list \<Rightarrow> 'f list \<Rightarrow> int \<Rightarrow> nat \<Rightarrow> 'f \<Rightarrow>
    'f detection list \<Rightarrow> ('f list \<times> 'f detection list) option" where
  "get_network_boxes F predictions netw neth grid masks anchors box_off classes obj_thresh dets = do {
     (p, count, dets1) \<leftarrow> anchor_loop F netw neth grid masks anchors classes obj_thresh 0 (nat nanchor) 0 (predictions, box_off, dets);
     Some (p, dets1)}"

definition GRID0 :: int where "GRID0 = 80"
definition GRID1 :: int where "GRID1 = 40"
definition GRID2 :: int where "GRID2 = 20"
definition nboxes_0 :: int where "nboxes_0 = GRID0 * GRID0 * nanchor"
definition nboxes_1 :: int where "nboxes_1 = GRID1 * GRID1 * nanchor"
definition nboxes_2 :: int where "nboxes_2 = GRID2 * GRID2 * nanchor"
definition nboxes_total :: int where "nboxes_total = nboxes_0 + nboxes_1 + nboxes_2"

text \<open>The network's outputs 1, 2 and 3; the draw threshold is an argument, a constant in the code.\<close>

definition outputs_transform :: "('f, 'd) nms_ops \<Rightarrow> 'f list list \<Rightarrow> int \<Rightarrow> int \<Rightarrow> nat \<Rightarrow> 'f \<Rightarrow> 'f \<Rightarrow> 'f \<Rightarrow> 'f detection list \<Rightarrow>
    ('f detection list \<times> int) option" where
  "outputs_transform F outputs net_width net_height classes obj_thresh iou_thresh fConstDrawThresh dets = do {
     output_0 \<leftarrow> get outputs 1;
     output_1 \<leftarrow> get outputs 2;
     output_2 \<leftarrow> get outputs 3;
     let anchors = map (fl_of_int F) [10, 13, 16, 30, 33, 23, 30, 61, 62, 45, 59, 119, 116, 90, 156, 198, 373, 326];
     (_, dets) \<leftarrow> get_network_boxes F output_0 net_width net_height GRID0 [0, 1, 2] anchors 0 classes obj_thresh dets;
     (_, dets) \<leftarrow> get_network_boxes F output_1 net_width net_height GRID1 [3, 4, 5] anchors nboxes_0 classes obj_thresh dets;
     (_, dets) \<leftarrow> get_network_boxes F output_2 net_width net_height GRID2 [6, 7, 8] anchors (nboxes_0 + nboxes_1) classes obj_thresh dets;
     do_nms_sort F dets nboxes_total classes iou_thresh fConstDrawThresh}"


section \<open>Staying inside the arrays\<close>

text \<open>What one or more cells keep: the lengths, the number of classes, and the detections outside the
  \<open>n\<close> positions from \<open>count\<close> on.\<close>

definition grid_ok :: "nat \<Rightarrow> int \<Rightarrow> 'f list \<times> int \<times> 'f detection list \<Rightarrow> 'f list \<times> int \<times> 'f detection list \<Rightarrow> bool" where
  "grid_ok classes n st st1 = (case (st, st1) of ((p, count, dets), (p1, count1, dets1)) \<Rightarrow>
     length p1 = length p \<and> length dets1 = length dets \<and> count \<le> count1 \<and> count1 \<le> count + n \<and>
     (\<forall>d \<in> set dets1. length (prob d) = classes) \<and>
     (\<forall>k < length dets. int k < count \<or> count1 \<le> int k \<longrightarrow> dets1 ! k = dets ! k))"

lemma grid_okE:
  assumes "grid_ok classes n (p, count, dets) st1"
  obtains p1 count1 dets1 where "st1 = (p1, count1, dets1)" "length p1 = length p" "length dets1 = length dets"
    "count \<le> count1" "count1 \<le> count + n" "\<forall>d \<in> set dets1. length (prob d) = classes"
    "\<forall>k < length dets. int k < count \<or> count1 \<le> int k \<longrightarrow> dets1 ! k = dets ! k"
  using assms by (cases st1) (auto simp: grid_ok_def)

lemma grid_ok_trans:
  assumes "grid_ok classes m st st1" "grid_ok classes n st1 st2"
  shows "grid_ok classes (m + n) st st2"
proof -
  obtain p count dets where st: "st = (p, count, dets)" by (cases st)
  obtain p1 count1 dets1 where st1: "st1 = (p1, count1, dets1)" by (cases st1)
  show ?thesis using assms unfolding st st1 grid_ok_def by (cases st2) auto
qed

lemma update_some: "0 \<le> k \<Longrightarrow> k < int (length p) \<Longrightarrow> \<exists>p1. update p k g = Some p1 \<and> length p1 = length p"
  by (simp add: update_def get_def put_def)

lemma get_some: "0 \<le> k \<Longrightarrow> k < int (length p) \<Longrightarrow> \<exists>x. get p k = Some x"
  by (simp add: get_def)

lemma sig_loop_some:
  "0 \<le> offset \<Longrightarrow> 0 \<le> c \<Longrightarrow> offset + 5 + c + int n \<le> int (length p) \<Longrightarrow>
   \<exists>p1. sig_loop F offset c n p = Some p1 \<and> length p1 = length p"
proof (induction n arbitrary: c p)
  case (Suc n)
  then obtain p1 where p1: "update p (offset + 5 + c) (sig F) = Some p1" "length p1 = length p"
    using update_some [of "offset + 5 + c" p "sig F"] by auto
  then show ?case using Suc.IH [of "c + 1" p1] Suc.prems by simp
qed simp

lemma prob_loop_some:
  "0 \<le> offset \<Longrightarrow> 0 \<le> c \<Longrightarrow> offset + 5 + c + int n \<le> int (length p) \<Longrightarrow> c + int n \<le> int (length pr) \<Longrightarrow>
   \<exists>pr1. prob_loop F p x offset c n pr = Some pr1 \<and> length pr1 = length pr"
proof (induction n arbitrary: c pr)
  case (Suc n)
  then obtain y where "get p (offset + 5 + c) = Some y" using get_some [of "offset + 5 + c" p] by auto
  then show ?case using Suc.IH [of "c + 1" "pr[nat c := fl_mul F x y]"] Suc.prems by (simp add: put_def)
qed simp

lemma get_yolo_box_some:
  assumes "0 \<le> m" "2 * m + 1 < int (length anchors)"
  shows "\<exists>b. get_yolo_box F x y w h anchors m i j lw lh netw neth = Some b"
  using assms by (simp add: get_yolo_box_def get_def)

definition masks_ok :: "int list \<Rightarrow> 'f list \<Rightarrow> bool" where
  "masks_ok masks anchors \<longleftrightarrow> (\<forall>m \<in> set masks. 0 \<le> m \<and> 2 * m + 1 < int (length anchors))"

lemma cell_step_some:
  assumes "masks_ok masks anchors" "0 \<le> a" "a < int (length masks)" "0 \<le> offset" "offset + (5 + int classes) \<le> int (length p)"
    and "0 \<le> count" "count < int (length dets)" "\<forall>d \<in> set dets. length (prob d) = classes"
  shows "\<exists>st1. cell_step F netw neth grid masks a anchors classes t wh offset (p, count, dets) = Some st1 \<and>
    grid_ok classes 1 (p, count, dets) st1"
proof -
  note bd = assms(4,5)
  obtain p1 where p1: "update p offset (sig_xy F) = Some p1" "length p1 = length p" using update_some [of offset p] bd by auto
  obtain p2 where p2: "update p1 (offset + 1) (sig_xy F) = Some p2" "length p2 = length p" using update_some [of "offset + 1" p1] p1 bd by auto
  obtain p3 where p3: "update p2 (offset + 2) (sig_wh F) = Some p3" "length p3 = length p" using update_some [of "offset + 2" p2] p2 bd by auto
  obtain p4 where p4: "update p3 (offset + 3) (sig_wh F) = Some p4" "length p4 = length p" using update_some [of "offset + 3" p3] p3 bd by auto
  obtain p5 where p5: "update p4 (offset + 4) (sig F) = Some p5" "length p5 = length p" using update_some [of "offset + 4" p4] p4 bd by auto
  obtain q where q: "sig_loop F offset 0 classes p5 = Some q" "length q = length p" using sig_loop_some [of offset 0 classes p5] p5 bd by auto
  obtain ob where ob: "get q (offset + 4) = Some ob" using get_some [of "offset + 4" q] q bd by auto
  obtain x y w h where xy: "get q offset = Some x" "get q (offset + 1) = Some y" "get q (offset + 2) = Some w" "get q (offset + 3) = Some h"
    using get_some [of offset q] get_some [of "offset + 1" q] get_some [of "offset + 2" q] get_some [of "offset + 3" q] q bd by auto
  obtain m where m: "get masks a = Some m" "m \<in> set masks" using assms(2,3) by (simp add: get_def nat_less_iff)
  then have "0 \<le> m" "2 * m + 1 < int (length anchors)" using assms(1) by (simp_all add: masks_ok_def)
  then obtain b where b: "get_yolo_box F x y w h anchors m (wh mod grid) (wh div grid) grid grid netw neth = Some b"
    using get_yolo_box_some [of m anchors F x y w h "wh mod grid" "wh div grid" grid grid netw neth] by blast
  let ?d = "dets ! nat count"
  have d: "get dets count = Some ?d" "length (prob ?d) = classes" using assms(6-8) by (simp_all add: get_def nat_less_iff)
  obtain pr where pr: "prob_loop F q ob offset 0 classes (prob ?d) = Some pr" "length pr = classes"
    using prob_loop_some [of offset 0 classes q "prob ?d"] q d bd by auto
  let ?dets = "dets[nat count := ?d\<lparr>bbox := b, prob := pr\<rparr>]"
  have st: "cell_step F netw neth grid masks a anchors classes t wh offset (p, count, dets) =
      Some (if fl_less F t ob then (q, count + 1, ?dets) else (q, count, dets))"
    using p1 p2 p3 p4 p5 q ob xy m b d pr assms(6,7) by (simp add: cell_step_def put_def Let_def)
  have "\<forall>d \<in> set ?dets. length (prob d) = classes"
    using assms(8) pr(2) by (auto dest!: set_update_subset_insert [THEN subsetD])
  then show ?thesis unfolding st using q(2) assms(6,8) by (auto simp: grid_ok_def nth_list_update)
qed

lemma cell_loop_some:
  assumes "masks_ok masks anchors" "0 \<le> a" "a < int (length masks)" "0 \<le> offset" "offset + int n * (5 + int classes) \<le> int (length p)"
    and "0 \<le> count" "count + int n \<le> int (length dets)" "\<forall>d \<in> set dets. length (prob d) = classes"
  shows "\<exists>st1. cell_loop F netw neth grid masks a anchors classes t wh n offset (p, count, dets) = Some st1 \<and>
    grid_ok classes (int n) (p, count, dets) st1"
  using assms(4-8)
proof (induction n arbitrary: wh offset p count dets)
  case 0
  then show ?case by (simp add: grid_ok_def)
next
  case (Suc n)
  have off: "offset + (5 + int classes) + int n * (5 + int classes) \<le> int (length p)"
    using Suc.prems(2) by (simp add: algebra_simps)
  moreover have "0 \<le> int n * (5 + int classes)" by simp
  ultimately have "offset + (5 + int classes) \<le> int (length p)" by linarith
  from cell_step_some [OF assms(1-3) Suc.prems(1) this Suc.prems(3) _ Suc.prems(5)] Suc.prems(4)
  obtain st1 where st1: "cell_step F netw neth grid masks a anchors classes t wh offset (p, count, dets) = Some st1"
    "grid_ok classes 1 (p, count, dets) st1" by fastforce
  from st1(2) obtain p1 count1 dets1 where r: "st1 = (p1, count1, dets1)" "length p1 = length p" "length dets1 = length dets"
    "count \<le> count1" "count1 \<le> count + 1" "\<forall>d \<in> set dets1. length (prob d) = classes" by (rule grid_okE)
  have "\<exists>st2. cell_loop F netw neth grid masks a anchors classes t (wh + 1) n (offset + (5 + int classes)) (p1, count1, dets1) = Some st2 \<and>
      grid_ok classes (int n) (p1, count1, dets1) st2"
    using Suc.prems r off by (intro Suc.IH) auto
  then obtain st2 where "cell_loop F netw neth grid masks a anchors classes t (wh + 1) n (offset + (5 + int classes)) st1 = Some st2"
    "grid_ok classes (int n) st1 st2" unfolding r(1) by blast
  then show ?case using st1 grid_ok_trans [OF st1(2)] by simp
qed


lemma anchor_loop_some:
  assumes "masks_ok masks anchors" "0 \<le> a" "a + int n \<le> int (length masks)" "0 \<le> grid" "0 \<le> offset"
    and "offset + int n * (grid * grid) * (5 + int classes) \<le> int (length p)"
    and "0 \<le> count" "count + int n * (grid * grid) \<le> int (length dets)" "\<forall>d \<in> set dets. length (prob d) = classes"
  shows "\<exists>st1. anchor_loop F netw neth grid masks anchors classes t a n offset (p, count, dets) = Some st1 \<and>
    grid_ok classes (int n * (grid * grid)) (p, count, dets) st1"
  using assms(2,3,5-9)
proof (induction n arbitrary: a offset p count dets)
  case 0
  then show ?case by (simp add: grid_ok_def)
next
  case (Suc n)
  let ?g = "grid * grid" and ?K = "5 + int classes"
  have g: "0 \<le> ?g" "int (nat ?g) = ?g" by simp_all
  have off: "offset + ?g * ?K + int n * ?g * ?K \<le> int (length p)" using Suc.prems(4) by (simp add: algebra_simps)
  have cnt: "count + ?g + int n * ?g \<le> int (length dets)" using Suc.prems(6) by (simp add: algebra_simps)
  have nn: "0 \<le> int n * ?g * ?K" "0 \<le> int n * ?g" "0 \<le> ?g * ?K" using g(1) by simp_all
  have "offset + int (nat ?g) * ?K \<le> int (length p)" "count + int (nat ?g) \<le> int (length dets)" "a < int (length masks)"
    using off cnt nn Suc.prems(2) unfolding g(2) by linarith+
  from cell_loop_some [OF assms(1) Suc.prems(1) this(3) Suc.prems(3) this(1) Suc.prems(5) this(2) Suc.prems(7), unfolded g(2)]
  obtain st1 where st1: "cell_loop F netw neth grid masks a anchors classes t 0 (nat ?g) offset (p, count, dets) = Some st1"
    "grid_ok classes ?g (p, count, dets) st1" by blast
  from st1(2) obtain p1 count1 dets1 where r: "st1 = (p1, count1, dets1)" "length p1 = length p" "length dets1 = length dets"
    "count \<le> count1" "count1 \<le> count + ?g" "\<forall>d \<in> set dets1. length (prob d) = classes" by (rule grid_okE)
  have "\<exists>st2. anchor_loop F netw neth grid masks anchors classes t (a + 1) n (offset + ?g * ?K) (p1, count1, dets1) = Some st2 \<and>
      grid_ok classes (int n * ?g) (p1, count1, dets1) st2"
    using Suc.prems(1,2,3,5) r off cnt nn by (intro Suc.IH) simp_all
  then obtain st2 where st2: "anchor_loop F netw neth grid masks anchors classes t (a + 1) n (offset + ?g * ?K) st1 = Some st2"
    "grid_ok classes (int n * ?g) st1 st2" unfolding r(1) by blast
  have "?g + int n * ?g = int (Suc n) * ?g" by (simp add: algebra_simps)
  then have "grid_ok classes (int (Suc n) * ?g) (p, count, dets) st2"
    using grid_ok_trans [OF st1(2) st2(2)] by simp
  then show ?case using st1(1) st2(1) by simp
qed

text \<open>A grid's boxes are written to its own part of the detections, and nowhere else.\<close>

lemma get_network_boxes_some:
  assumes "masks_ok masks anchors" "length masks = 3" "0 \<le> grid" "int (length p) = 3 * (grid * grid) * (5 + int classes)"
    and "0 \<le> box_off" "box_off + 3 * (grid * grid) \<le> int (length dets)" "\<forall>d \<in> set dets. length (prob d) = classes"
  shows "\<exists>p1 dets1. get_network_boxes F p netw neth grid masks anchors box_off classes t dets = Some (p1, dets1) \<and>
    length p1 = length p \<and> length dets1 = length dets \<and> (\<forall>d \<in> set dets1. length (prob d) = classes) \<and>
    (\<forall>k < length dets. int k < box_off \<or> box_off + 3 * (grid * grid) \<le> int k \<longrightarrow> dets1 ! k = dets ! k)"
proof -
  have "\<exists>st1. anchor_loop F netw neth grid masks anchors classes t 0 3 0 (p, box_off, dets) = Some st1 \<and>
      grid_ok classes (int 3 * (grid * grid)) (p, box_off, dets) st1"
    using assms by (intro anchor_loop_some) simp_all
  then obtain st1 where st1: "anchor_loop F netw neth grid masks anchors classes t 0 3 0 (p, box_off, dets) = Some st1"
    "grid_ok classes (int 3 * (grid * grid)) (p, box_off, dets) st1" by blast
  from st1(2) show ?thesis
  proof (rule grid_okE)
    fix p1 count1 dets1
    assume r: "st1 = (p1, count1, dets1)" "length p1 = length p" "length dets1 = length dets"
      "count1 \<le> box_off + int 3 * (grid * grid)" "\<forall>d \<in> set dets1. length (prob d) = classes"
      "\<forall>k < length dets. int k < box_off \<or> count1 \<le> int k \<longrightarrow> dets1 ! k = dets ! k"
    then show ?thesis using st1(1) by (intro exI [of _ p1] exI [of _ dets1]) (auto simp: get_network_boxes_def nanchor_def)
  qed
qed


section \<open>What the algorithm reports\<close>

definition example_ops :: "(int, int) nms_ops" where
  "example_ops = \<lparr>fl_add = (+), fl_sub = (-), fl_half = (\<lambda>x. x div 2), fl_less = (<), fl_nonpos = (\<lambda>x. x \<le> 0),
     fl_mul = (*), fl_div = (\<lambda>a b. (a * 100) div b), fl_zero = 0, fl_eq = (=), fl_of_int = id, fl_neg = uminus, fl_exp = id, dbl = id,
     fl_of_dbl = id, dbl_lit = (\<lambda>r. \<lfloor>r\<rfloor>), dbl_add = (+), dbl_sub = (-), dbl_mul = (*), dbl_div = (div), dbl_pow = (\<lambda>x n. x ^ nat n)\<rparr>"

lemma example_zero_law: "zero_law example_ops"
  by (simp add: zero_law_def example_ops_def)

definition square :: "int \<Rightarrow> int \<Rightarrow> int \<Rightarrow> int detection" where
  "square x y p = \<lparr>sort_class = 0, prob = [p], bbox = \<lparr>box_x = x, box_y = y, box_w = 20, box_h = 20\<rparr>\<rparr>"

definition order_above :: "('f, 'd) nms_ops \<Rightarrow> 'f \<Rightarrow> bool" where
  "order_above F draw \<longleftrightarrow>
     (\<forall>x y. fl_less F draw x \<and> fl_less F draw y \<and> fl_less F x y \<longrightarrow> \<not> fl_less F y x) \<and>
     (\<forall>x y z. fl_less F draw x \<and> fl_less F draw y \<and> fl_less F draw z \<and> \<not> fl_less F x y \<and> \<not> fl_less F y z \<longrightarrow> \<not> fl_less F x z)"

text \<open>The last one of the best.\<close>

lemma last_best:
  assumes "order_above F draw" "\<forall>c \<in> set cs. fl_less F draw (score c)" "cs \<noteq> []"
  shows "\<exists>m < length cs. \<forall>k < length cs. \<not> fl_less F (score (cs ! m)) (score (cs ! k)) \<and>
    (m < k \<longrightarrow> fl_less F (score (cs ! k)) (score (cs ! m)))"
  using assms(2,3)
proof (induction cs rule: rev_induct)
  case (snoc c cs)
  have asym: "\<not> fl_less F y x" if "fl_less F draw x" "fl_less F draw y" "fl_less F x y" for x y
    using assms(1) that unfolding order_above_def by blast
  have trans: "\<not> fl_less F x z" if "fl_less F draw x" "fl_less F draw y" "fl_less F draw z" "\<not> fl_less F x y" "\<not> fl_less F y z" for x y z
    using assms(1) that unfolding order_above_def by blast
  have c: "fl_less F draw (score c)" "\<And>k. k < length cs \<Longrightarrow> fl_less F draw (score (cs ! k))" using snoc.prems(1) by simp_all
  have cc: "\<not> fl_less F (score c) (score c)" using asym c(1) by blast
  show ?case
  proof (cases "cs = []")
    case True
    then show ?thesis using cc by simp
  next
    case False
    then obtain m where m: "m < length cs" "\<And>k. k < length cs \<Longrightarrow> \<not> fl_less F (score (cs ! m)) (score (cs ! k))"
      "\<And>k. k < length cs \<Longrightarrow> m < k \<Longrightarrow> fl_less F (score (cs ! k)) (score (cs ! m))"
      using snoc.IH snoc.prems(1) by auto
    show ?thesis
    proof (cases "fl_less F (score c) (score (cs ! m))")
      case True
      then have "\<not> fl_less F (score (cs ! m)) (score c)" using asym c m(1) by blast
      then show ?thesis using True m by (intro exI [of _ m]) (auto simp: nth_append less_Suc_eq)
    next
      case False
      then have "\<not> fl_less F (score c) (score (cs ! k))" if "k < length cs" for k
        using trans [OF c(1) c(2) [OF m(1)] c(2) [OF that]] m(2) [OF that] by blast
      then show ?thesis using cc by (intro exI [of _ "length cs"]) (auto simp: nth_append less_Suc_eq)
    qed
  qed
qed simp

lemma candidates_above:
  assumes "1 \<le> classes" "\<forall>d \<in> set ds. length (prob d) = classes"
  shows "\<forall>c \<in> set (candidates F classes draw ds). fl_less F draw (score c)"
proof
  fix c assume "c \<in> set (candidates F classes draw ds)"
  then obtain d where d: "d \<in> set ds" "c = classified F classes d" "fl_less F draw (snd (best_class F classes d))"
    by (auto simp: candidates_def)
  then show "fl_less F draw (score c)" using best_class_some(3) [OF _ assms(1), of d F] assms(2) by (simp add: classified_def)
qed

text \<open>C7. The suppression is total and stays inside its arrays: for every list of detections it
  returns a number of boxes at the front of the list, exactly those of the recursion over the candidates.
  They are candidates - detections whose best score passes the threshold - in their order, no two of which
  are of one class with an overlap above the threshold, and every candidate that is missing is beaten by
  another one of its class that overlaps it, with a greater score, or later and with a score that is not
  less. So a candidate that nobody beats is kept, and where \<open><\<close> orders the scores above the threshold, one
  of the candidates with the best score is.\<close>

theorem nms_separates:
  assumes "zero_law F" "\<forall>x. fl_less F draw x \<longrightarrow> fl_less F (fl_zero F) x" "1 \<le> classes" "\<forall>d \<in> set dets. length (prob d) = classes"
    and "n \<le> length dets" "cs = candidates F classes draw (take n dets)"
  shows "\<exists>dets1 ks. do_nms_sort F dets (int n) classes t draw = Some (dets1, int (length ks)) \<and> length dets1 = length dets \<and>
    length ks \<le> n \<and> take (length ks) dets1 = map ((!) cs) ks \<and> map ((!) cs) ks = nms_reference F t cs \<and>
    sorted_wrt (<) ks \<and> set ks \<subseteq> {..<length cs} \<and> sorted_wrt (\<lambda>k l. \<not> conflict F t (cs ! k) (cs ! l)) ks \<and>
    (\<forall>k < length cs. k \<notin> set ks \<longrightarrow> (\<exists>j < length cs. beats F t cs j k)) \<and>
    (order_above F draw \<and> cs \<noteq> [] \<longrightarrow> (\<exists>m \<in> set ks. \<forall>k < length cs. \<not> fl_less F (score (cs ! m)) (score (cs ! k))))"
proof -
  obtain dets1 ks where r: "do_nms_sort F dets (int n) classes t draw = Some (dets1, int (length ks))" "length dets1 = length dets"
    "length ks \<le> n" "take (length ks) dets1 = map ((!) cs) ks" "kept F t cs cs 0 ks" "map ((!) cs) ks = nms_reference F t cs"
    using do_nms_sort_spec [OF assms(1-5), of t] assms(6) by blast
  have l: "\<forall>k < length cs. k \<notin> set ks \<longrightarrow> (\<exists>j < length cs. beats F t cs j k)" using r(5) by (simp add: kept_def lost_def)
  have "\<exists>m \<in> set ks. \<forall>k < length cs. \<not> fl_less F (score (cs ! m)) (score (cs ! k))" if oc: "order_above F draw \<and> cs \<noteq> []"
  proof -
    have "\<forall>d \<in> set (take n dets). length (prob d) = classes" using assms(4) by (meson in_set_takeD)
    from last_best [OF conjunct1 [OF oc] _ conjunct2 [OF oc]] candidates_above [OF assms(3) this]
    obtain m where m: "m < length cs" "\<And>k. k < length cs \<Longrightarrow> \<not> fl_less F (score (cs ! m)) (score (cs ! k))"
      "\<And>k. k < length cs \<Longrightarrow> m < k \<Longrightarrow> fl_less F (score (cs ! k)) (score (cs ! m))" unfolding assms(6) by blast
    have "\<not> (\<exists>j < length cs. beats F t cs j m)" unfolding beats_def using m(2,3) by blast
    then have "m \<in> set ks" using l m(1) by blast
    then show ?thesis using m(2) by blast
  qed
  then have best: "order_above F draw \<and> cs \<noteq> [] \<longrightarrow> (\<exists>m \<in> set ks. \<forall>k < length cs. \<not> fl_less F (score (cs ! m)) (score (cs ! k)))"
    by (rule impI)
  have "sorted_wrt (<) ks" "set ks \<subseteq> {..<length cs}" "sorted_wrt (\<lambda>k l. \<not> conflict F t (cs ! k) (cs ! l)) ks"
    using r(5) by (auto simp: kept_def)
  with r(1-4,6) l best show ?thesis by (intro exI [of _ dets1] exI [of _ ks] conjI)
qed

theorem nms_separates_witness:
  "\<exists>dets1. do_nms_sort example_ops [square 10 10 60, square 12 10 50, square 40 40 30, square 80 80 90] (int 4) 1 40 45 = Some (dets1, 2) \<and>
    take 2 dets1 = [square 10 10 60, square 80 80 90] \<and> order_above example_ops 45"
proof -
  let ?ds = "[square 10 10 60, square 12 10 50, square 40 40 30, square 80 80 90]"
  have c: "candidates example_ops 1 45 (take 4 ?ds) = [square 10 10 60, square 12 10 50, square 80 80 90]"
    by (simp add: candidates_def classified_def best_class_def square_def example_ops_def)
  have r: "nms_reference example_ops 40 [square 10 10 60, square 12 10 50, square 80 80 90] = [square 10 10 60, square 80 80 90]"
    by code_simp
  have h: "\<forall>x. fl_less example_ops 45 x \<longrightarrow> fl_less example_ops (fl_zero example_ops) x"
    "\<forall>d \<in> set ?ds. length (prob d) = 1" "4 \<le> length ?ds" by (simp_all add: example_ops_def square_def)
  obtain dets1 ks where k: "do_nms_sort example_ops ?ds (int 4) 1 40 45 = Some (dets1, int (length ks))"
    "take (length ks) dets1 = map ((!) [square 10 10 60, square 12 10 50, square 80 80 90]) ks"
    "map ((!) [square 10 10 60, square 12 10 50, square 80 80 90]) ks = [square 10 10 60, square 80 80 90]"
    using nms_separates [OF example_zero_law h(1) order_refl h(2,3) refl, of 40] unfolding c r by (elim exE conjE) (rule that)
  have "length ks = 2" using arg_cong [OF k(3), of length] by simp
  moreover have "order_above example_ops 45" by (simp add: order_above_def example_ops_def)
  ultimately show ?thesis using k by simp
qed

text \<open>The boxes are not sorted by score before the suppression: a box that overlaps only a box that is
  itself removed is lost as well, and whether it is depends on the order of the detections.\<close>

theorem nms_order_dependent:
  "map_option snd (do_nms_sort example_ops [square 16 10 60, square 10 10 50, square 22 10 70] 3 1 40 45) = Some 1 \<and>
   map_option snd (do_nms_sort example_ops [square 22 10 70, square 16 10 60, square 10 10 50] 3 1 40 45) = Some 2"
  by code_simp

lemma grid_boxes:
  assumes "masks_ok masks anchors" "length masks = 3" "0 \<le> grid" "int (length p) = 3 * (grid * grid) * (5 + int classes)"
    and "0 \<le> box_off" "box_off + 3 * (grid * grid) \<le> int N" "length dets = N" "\<forall>d \<in> set dets. length (prob d) = classes"
  shows "\<exists>p1 dets1. get_network_boxes F p netw neth grid masks anchors box_off classes t dets = Some (p1, dets1) \<and>
    length dets1 = N \<and> (\<forall>d \<in> set dets1. length (prob d) = classes)"
  using get_network_boxes_some [OF assms(1-5) _ assms(8)] assms(6,7) by metis

lemma nboxes_values: "nboxes_0 = 19200" "nboxes_1 = 4800" "nboxes_2 = 1200" "nboxes_total = 25200"
  by (simp_all add: nboxes_0_def nboxes_1_def nboxes_2_def nboxes_total_def GRID0_def GRID1_def GRID2_def nanchor_def)

lemma outputs_transform_some:
  assumes "zero_law F" "\<forall>x. fl_less F draw x \<longrightarrow> fl_less F (fl_zero F) x" "1 \<le> classes" "\<forall>d \<in> set dets. length (prob d) = classes"
    and "int (length dets) = nboxes_total" "int (length output_0) = nboxes_0 * (5 + int classes)"
    and "int (length output_1) = nboxes_1 * (5 + int classes)" "int (length output_2) = nboxes_2 * (5 + int classes)"
  shows "\<exists>dets1 n. outputs_transform F [extra, output_0, output_1, output_2] net_width net_height classes obj t draw dets = Some (dets1, int n) \<and>
    int n \<le> nboxes_total \<and> int (length dets1) = nboxes_total \<and> sorted_wrt (\<lambda>d e. \<not> conflict F t d e) (take n dets1)"
proof -
  define anchors where "anchors = map (fl_of_int F) [10, 13, 16, 30, 33, 23, 30, 61, 62, 45, 59, 119, 116, 90, 156, 198, 373, 326]"
  have len: "length dets = 25200" using assms(5) unfolding nboxes_values by linarith
  have ok: "masks_ok [0, 1, 2] anchors" "masks_ok [3, 4, 5] anchors" "masks_ok [6, 7, 8] anchors" by (simp_all add: masks_ok_def anchors_def)
  have l: "int (length output_0) = 3 * (80 * 80) * (5 + int classes)" "int (length output_1) = 3 * (40 * 40) * (5 + int classes)"
    "int (length output_2) = 3 * (20 * 20) * (5 + int classes)" using assms(6-8) unfolding nboxes_values by simp_all
  obtain p0 d0 where d0: "get_network_boxes F output_0 net_width net_height 80 [0, 1, 2] anchors 0 classes obj dets = Some (p0, d0)"
    "length d0 = 25200" "\<forall>d \<in> set d0. length (prob d) = classes"
    using grid_boxes [OF ok(1) _ _ l(1) _ _ len assms(4), of 0 F net_width net_height obj] by auto
  obtain p1 d1 where d1: "get_network_boxes F output_1 net_width net_height 40 [3, 4, 5] anchors 19200 classes obj d0 = Some (p1, d1)"
    "length d1 = 25200" "\<forall>d \<in> set d1. length (prob d) = classes"
    using grid_boxes [OF ok(2) _ _ l(2) _ _ d0(2) d0(3), of 19200 F net_width net_height obj] by auto
  obtain p2 d2 where d2: "get_network_boxes F output_2 net_width net_height 20 [6, 7, 8] anchors 24000 classes obj d1 = Some (p2, d2)"
    "length d2 = 25200" "\<forall>d \<in> set d2. length (prob d) = classes"
    using grid_boxes [OF ok(3) _ _ l(3) _ _ d1(2) d1(3), of 24000 F net_width net_height obj] by auto
  have le: "25200 \<le> length d2" using d2(2) by simp
  obtain dets1 ks where r: "do_nms_sort F d2 (int 25200) classes t draw = Some (dets1, int (length ks))" "length dets1 = 25200"
    "length ks \<le> 25200" "take (length ks) dets1 = map ((!) (candidates F classes draw (take 25200 d2))) ks"
    "kept F t (candidates F classes draw (take 25200 d2)) (candidates F classes draw (take 25200 d2)) 0 ks"
    using do_nms_sort_spec [OF assms(1-3) d2(3) le, of t] unfolding d2(2) by blast
  have "outputs_transform F [extra, output_0, output_1, output_2] net_width net_height classes obj t draw dets = Some (dets1, int (length ks))"
    unfolding outputs_transform_def Let_def anchors_def [symmetric] nboxes_values GRID0_def GRID1_def GRID2_def
    using d0(1) d1(1) d2(1) r(1) by (simp add: get_def)
  then show ?thesis using r(2-5) by (intro exI [of _ dets1] exI [of _ "length ks"]) (auto simp: nboxes_values kept_def sorted_wrt_map)
qed

text \<open>The conversion of the network's outputs never leaves its arrays: with outputs of the three grids'
  sizes and 25200 detections it fills the grids' parts of the detections and returns at most 25200 boxes,
  none of which conflicts with a later one.\<close>

theorem outputs_in_bounds:
  assumes "zero_law F" "\<forall>x. fl_less F draw x \<longrightarrow> fl_less F (fl_zero F) x" "1 \<le> classes" "\<forall>d \<in> set dets. length (prob d) = classes"
    and "int (length dets) = nboxes_total" "int (length output_0) = nboxes_0 * (5 + int classes)"
    and "int (length output_1) = nboxes_1 * (5 + int classes)" "int (length output_2) = nboxes_2 * (5 + int classes)"
  shows "\<exists>dets1 n. outputs_transform F [extra, output_0, output_1, output_2] net_width net_height classes obj t draw dets = Some (dets1, int n) \<and>
    int n \<le> nboxes_total \<and> int (length dets1) = nboxes_total \<and> sorted_wrt (\<lambda>d e. \<not> conflict F t d e) (take n dets1)"
  using assms by (rule outputs_transform_some)

theorem outputs_in_bounds_witness:
  "\<exists>dets1 n. outputs_transform example_ops [[], replicate 115200 0, replicate 28800 0, replicate 7200 0] 640 640 1 40 40 45
      (replicate 25200 (square 0 0 0)) = Some (dets1, int n) \<and> int n \<le> nboxes_total"
  using outputs_in_bounds [OF example_zero_law, of 45 1 "replicate 25200 (square 0 0 0)" "replicate 115200 0" "replicate 28800 0" "replicate 7200 0"
      "[]" 640 640 40 40]
  by (fastforce simp: nboxes_values example_ops_def square_def)

end
