(* ===== verification/ImgSlices.thy ===== *)
theory ImgSlices
  imports DetectNms "HOL-Library.Log_Nat"
begin

text \<open>
  The picture the detection networks see (img/ProcImg.h): the padded square, its reduction, and the
  full-size slices with their positions, in single-precision arithmetic; the coordinates of a box found
  in a slice, in the square.
\<close>

section \<open>Single precision\<close>

text \<open>The unit in the last of the 24 binary digits of a positive number, and rounding to nearest, ties to even.\<close>

definition fl_unit :: "rat \<Rightarrow> int" where
  "fl_unit q = (if 1 \<le> q then int (floorlog 2 (nat \<lfloor>q\<rfloor>)) - 24 else - int (floorlog 2 (nat (\<lceil>1 / q\<rceil> - 1))) - 23)"

definition pow2 :: "int \<Rightarrow> rat" where
  "pow2 e = (if 0 \<le> e then 2 ^ nat e else 1 / 2 ^ nat (- e))"

definition round_even :: "rat \<Rightarrow> int" where
  "round_even r = (let n = \<lfloor>r\<rfloor>; f = r - of_int n in if f < 1 / 2 \<or> f = 1 / 2 \<and> even n then n else n + 1)"

definition fl32 :: "rat \<Rightarrow> rat" where
  "fl32 q = (if q \<le> 0 then 0 else of_int (round_even (q / pow2 (fl_unit q))) * pow2 (fl_unit q))"

section \<open>Slices\<close>

text \<open>A region outside the picture makes the library throw; nobody catches it.\<close>

definition roi_ok :: "int \<Rightarrow> int \<Rightarrow> int \<Rightarrow> int \<Rightarrow> bool" where
  "roi_ok cols inWidth x y \<longleftrightarrow> 0 \<le> x \<and> x + inWidth \<le> cols \<and> 0 \<le> y \<and> y + inWidth \<le> cols"

function y_loop :: "int \<Rightarrow> int \<Rightarrow> rat \<Rightarrow> rat \<Rightarrow> int \<Rightarrow> int \<Rightarrow> int \<Rightarrow> (int \<times> int) list \<Rightarrow> (int \<times> int) list option" where
  "y_loop cols inWidth k dx x y j transPts = (if of_int j < k then
     if roi_ok cols inWidth x y
     then y_loop cols inWidth k dx x \<lfloor>fl32 (of_int y + dx)\<rfloor> (j + 1) (transPts @ [(x, y)])
     else None
   else Some transPts)"
  by pat_completeness auto
termination
  by (relation "measure (\<lambda>(cols, w, k, dx, x, y, j, pts). nat (\<lceil>k\<rceil> - j))") (auto simp: less_ceiling_iff)

function x_loop :: "int \<Rightarrow> int \<Rightarrow> rat \<Rightarrow> rat \<Rightarrow> int \<Rightarrow> int \<Rightarrow> (int \<times> int) list \<Rightarrow> (int \<times> int) list option" where
  "x_loop cols inWidth k dx x i transPts = (if of_int i < k then do {
     pts \<leftarrow> y_loop cols inWidth k dx x 0 0 transPts;
     x_loop cols inWidth k dx \<lfloor>fl32 (of_int x + dx)\<rfloor> (i + 1) pts}
   else Some transPts)"
  by pat_completeness auto
termination
  by (relation "measure (\<lambda>(cols, w, k, dx, x, i, pts). nat (\<lceil>k\<rceil> - i))") (auto simp: less_ceiling_iff)

definition slice_points :: "int \<Rightarrow> int \<Rightarrow> (int \<times> int) list option" where
  "slice_points cols inWidth = (let k = fl32 (of_int cols / of_int inWidth) in
     if k < 2 then Some []
     else let dx = fl32 (of_int inWidth - fl32 (of_int inWidth / k)) in
       x_loop cols inWidth (fl32 (k + 1)) dx 0 0 [])"


section \<open>The positions\<close>

function positions :: "rat \<Rightarrow> rat \<Rightarrow> int \<Rightarrow> int \<Rightarrow> int list" where
  "positions k dx y j = (if of_int j < k then y # positions k dx \<lfloor>fl32 (of_int y + dx)\<rfloor> (j + 1) else [])"
  by pat_completeness auto
termination
  by (relation "measure (\<lambda>(k, dx, y, j). nat (\<lceil>k\<rceil> - j))") (auto simp: less_ceiling_iff)

declare y_loop.simps [simp del] x_loop.simps [simp del] positions.simps [simp del]

lemma y_loop_positions:
  "y_loop cols w k dx x y j pts =
   (if \<forall>y1 \<in> set (positions k dx y j). roi_ok cols w x y1 then Some (pts @ map (Pair x) (positions k dx y j)) else None)"
proof (induction cols w k dx x y j pts rule: y_loop.induct)
  case (1 cols w k dx x y j pts)
  note unf = y_loop.simps [of cols w k dx x y j pts] positions.simps [of k dx y j]
  show ?case
  proof (cases "of_int j < k \<and> roi_ok cols w x y")
    case True
    then have c: "of_int j < k" "roi_ok cols w x y" by simp_all
    have l: "y_loop cols w k dx x y j pts = y_loop cols w k dx x \<lfloor>fl32 (of_int y + dx)\<rfloor> (j + 1) (pts @ [(x, y)])"
      unfolding unf using c by simp
    have r: "positions k dx y j = y # positions k dx \<lfloor>fl32 (of_int y + dx)\<rfloor> (j + 1)" unfolding unf using c by simp
    show ?thesis unfolding l r 1 [OF c] using c by simp
  next
    case False
    then show ?thesis
    proof (cases "of_int j < k")
      case True
      then have "y \<in> set (positions k dx y j)" unfolding unf by simp
      then show ?thesis using True False unfolding unf(1) by auto
    qed (simp add: unf)
  qed
qed

lemma x_loop_positions:
  "x_loop cols w k dx x i pts =
   (if \<forall>x1 \<in> set (positions k dx x i). \<forall>y1 \<in> set (positions k dx 0 0). roi_ok cols w x1 y1
    then Some (pts @ List.product (positions k dx x i) (positions k dx 0 0)) else None)"
proof (induction cols w k dx x i pts rule: x_loop.induct)
  case (1 cols w k dx x i pts)
  note unf = x_loop.simps [of cols w k dx x i pts] positions.simps [of k dx x i]
  let ?ys = "positions k dx 0 0"
  show ?case
  proof (cases "of_int i < k")
    case True
    let ?x = "\<lfloor>fl32 (of_int x + dx)\<rfloor>"
    have l: "x_loop cols w k dx x i pts = (if \<forall>y1 \<in> set ?ys. roi_ok cols w x y1
        then x_loop cols w k dx ?x (i + 1) (pts @ map (Pair x) ?ys) else None)"
      unfolding unf y_loop_positions using True by simp
    have r: "positions k dx x i = x # positions k dx ?x (i + 1)" unfolding unf using True by simp
    show ?thesis
    proof (cases "\<forall>y1 \<in> set ?ys. roi_ok cols w x y1")
      case y: True
      then have "y_loop cols w k dx x 0 0 pts = Some (pts @ map (Pair x) ?ys)" unfolding y_loop_positions by (rule if_P)
      note IH = 1 [OF True this]
      show ?thesis unfolding l r IH using y by simp
    next
      case False
      then show ?thesis unfolding l r by auto
    qed
  qed (simp add: unf)
qed

definition step :: "int \<Rightarrow> int \<Rightarrow> rat" where
  "step cols w = fl32 (of_int w - fl32 (of_int w / fl32 (of_int cols / of_int w)))"

definition positions_of :: "int \<Rightarrow> int \<Rightarrow> int list" where
  "positions_of cols w = (let k = fl32 (of_int cols / of_int w) in
     if k < 2 then [] else positions (fl32 (k + 1)) (step cols w) 0 0)"

text \<open>The slices are taken at all pairs of positions, or the library throws at one of them.\<close>

lemma slice_points_positions:
  "slice_points cols w = (let ps = positions_of cols w in
     if \<forall>x \<in> set ps. \<forall>y \<in> set ps. roi_ok cols w x y then Some (List.product ps ps) else None)"
  by (simp add: slice_points_def positions_of_def step_def x_loop_positions Let_def)


section \<open>Rounding errors\<close>

lemma pow2_pos: "0 < pow2 e"
  by (simp add: pow2_def)

lemma round_even_error: "\<bar>of_int (round_even r) - r\<bar> \<le> 1 / 2"
proof -
  define n where "n = \<lfloor>r\<rfloor>"
  have "of_int n \<le> r" "r < of_int n + 1" unfolding n_def by linarith+
  moreover have "\<bar>rat_of_int n + 1 - r\<bar> = of_int n + 1 - r" "\<bar>rat_of_int n - r\<bar> = r - of_int n" using calculation by simp_all
  ultimately show ?thesis unfolding round_even_def Let_def n_def [symmetric] by auto
qed

lemma round_even_int: "round_even (of_int n) = n"
  by (simp add: round_even_def)

lemma fl_unit_ge:
  assumes "1 \<le> q"
  shows "2 ^ 23 * pow2 (fl_unit q) \<le> q"
proof -
  let ?n = "nat \<lfloor>q\<rfloor>"
  have n: "0 < ?n" "of_nat ?n \<le> q" using assms by (simp_all add: le_floor_iff)
  define l where "l = floorlog 2 ?n"
  have l: "2 ^ (l - 1) \<le> ?n" "1 \<le> l" using floorlog_bounds [of ?n 2] n(1) floorlog_eq_zero_iff [of 2 ?n]
    by (auto simp: l_def)
  have "2 ^ 23 * pow2 (int l - 24) \<le> (2 ^ (l - 1) :: rat)"
  proof (cases "24 \<le> l")
    case True
    then have "l - 1 = 23 + nat (int l - 24)" by linarith
    then show ?thesis using True by (simp add: pow2_def power_add)
  next
    case False
    then have "23 = (l - 1) + nat (24 - int l)" using l(2) by linarith
    then have "(2 :: rat) ^ 23 = 2 ^ (l - 1) * 2 ^ nat (24 - int l)" by (metis power_add)
    then show ?thesis using False by (simp add: pow2_def pos_divide_le_eq)
  qed
  also have "\<dots> \<le> of_nat ?n" using l(1) by (metis of_nat_le_iff of_nat_numeral of_nat_power)
  also have "\<dots> \<le> q" by (rule n(2))
  finally show ?thesis using assms by (simp add: fl_unit_def l_def)
qed

lemma fl32_error:
  assumes "1 \<le> q"
  shows "\<bar>fl32 q - q\<bar> \<le> q / 2 ^ 24"
proof -
  let ?u = "pow2 (fl_unit q)"
  have u: "0 < ?u" by (rule pow2_pos)
  have "\<bar>of_int (round_even (q / ?u)) - q / ?u\<bar> * ?u \<le> 1 / 2 * ?u" by (rule mult_right_mono [OF round_even_error]) (use u in simp)
  also have "\<bar>of_int (round_even (q / ?u)) - q / ?u\<bar> * ?u = \<bar>(of_int (round_even (q / ?u)) - q / ?u) * ?u\<bar>"
    using u by (simp add: abs_mult)
  also have "(of_int (round_even (q / ?u)) - q / ?u) * ?u = fl32 q - q" using u assms by (simp add: fl32_def left_diff_distrib)
  finally show ?thesis using fl_unit_ge [OF assms] by simp
qed

lemma fl32_int:
  assumes "0 < n" "n < 2 ^ 24"
  shows "fl32 (of_int n) = of_int n"
proof -
  have "floorlog 2 (nat n) \<le> 24" using assms by (intro floorlog_leI) simp_all
  then have e: "fl_unit (of_int n) \<le> 0" using assms(1) by (simp add: fl_unit_def)
  define j where "j = nat (- fl_unit (of_int n))"
  have p: "pow2 (fl_unit (of_int n)) = 1 / 2 ^ j" using e by (auto simp: pow2_def j_def)
  have "(of_int n :: rat) / (1 / 2 ^ j) = of_int (n * 2 ^ j)" by simp
  then show ?thesis using assms(1) unfolding fl32_def p by (simp only: round_even_int) simp
qed

section \<open>Pictures of a whole number of widths\<close>

text \<open>The next position, multiplied by the quotient to stay with integers.\<close>

lemma width_exact:
  assumes "2 \<le> n" "0 < w" "n * w < 2 ^ 24"
  shows "fl32 (of_int (n * w) / of_int w) = of_int n"
proof -
  have "n * 1 \<le> n * w" using assms by (intro mult_left_mono) simp_all
  then have "n < 2 ^ 24" using assms(3) by linarith
  then have "fl32 (of_int n) = of_int n" using assms(1) by (intro fl32_int) simp_all
  then show ?thesis using assms(2) by simp
qed

lemma step_bounds:
  assumes "2 \<le> n" "n \<le> w" "4 \<le> w" "n * w < 2 ^ 24"
  shows "\<bar>of_int n * step (n * w) w - (of_int (n * w) - of_int w)\<bar> \<le> (of_int (n * w) + 1) / 2 ^ 24"
    and "1 \<le> step (n * w) w"
proof -
  let ?N = "rat_of_int n" and ?W = "rat_of_int w"
  define e :: rat where "e = 1 / 2 ^ 24"
  define c where "c = ?W / ?N"
  have e: "0 < e" "e < 1 / 100" by (simp_all add: e_def)
  have N: "2 \<le> ?N" "?N \<le> ?W" "4 \<le> ?W" using assms by simp_all
  have Nc: "?N * c = ?W" and c: "1 \<le> c" "2 * c \<le> ?W" using N mult_right_mono [of 2 ?N c] by (simp_all add: c_def)
  have Nce: "?N * (c * e) = ?W * e" using Nc by (metis mult.assoc)
  define a where "a = fl32 c"
  have "\<bar>a - c\<bar> \<le> c * e" using fl32_error [OF c(1)] by (simp add: a_def e_def)
  then have a: "a \<le> c + c * e" "c - c * e \<le> a" by linarith+
  have ce: "c * e \<le> c / 100" using e(2) c(1) by (simp add: mult_le_cancel_left)
  have q: "2 - 1 / 25 \<le> ?W - a" using a(1) ce c(2) N(3) by linarith
  define dx where "dx = fl32 (?W - a)"
  have qe: "(?W - a) * e \<le> (?W - a) / 100" using e(2) q by (simp add: mult_le_cancel_left)
  have d: "\<bar>dx - (?W - a)\<bar> \<le> (?W - a) * e" using fl32_error [of "?W - a"] q by (simp add: dx_def e_def)
  have st: "step (n * w) w = dx" unfolding step_def a_def dx_def c_def using width_exact [of n w] assms by (simp only:)
  have "?W - a - dx \<le> (?W - a) / 100" using d qe unfolding abs_le_iff by (metis minus_diff_eq order_trans)
  then show "1 \<le> step (n * w) w" using q unfolding st by (simp add: field_simps)
  have "\<bar>?N * (dx - (?W - a))\<bar> \<le> ?N * ((?W - a) * e)" using mult_left_mono [OF d, of ?N] N(1) by (simp add: abs_mult)
  then have "?N * (dx - (?W - a)) \<le> ?N * ((?W - a) * e)" "- (?N * ((?W - a) * e)) \<le> ?N * (dx - (?W - a))" by (simp_all only: abs_le_iff) linarith
  moreover have "?N * (dx - (?W - a)) = ?N * dx - ?N * ?W + ?N * a" by (simp add: algebra_simps)
  moreover have "?N * a \<le> ?W + ?W * e" "?W - ?W * e \<le> ?N * a"
    using mult_left_mono [OF a(1), of ?N] mult_left_mono [OF a(2), of ?N] N(1) Nc Nce
    unfolding distrib_left right_diff_distrib by linarith+
  moreover have "?N * ((?W - a) * e) = ?N * ?W * e - (?N * a) * e" by (simp add: algebra_simps)
  moreover have "(?W - ?W * e) * e \<le> (?N * a) * e" using calculation(5) e(1) by (intro mult_right_mono) simp_all
  moreover have "?W * e * e \<le> 1 * e"
  proof (rule mult_right_mono)
    have "w \<le> n * w" using assms(1,3) by simp
    then have "w < 2 ^ 24" using assms(4) by linarith
    then show "?W * e \<le> 1" by (simp add: e_def)
  qed (use e(1) in simp)
  ultimately have "\<bar>?N * dx - (?N * ?W - ?W)\<bar> \<le> (?N * ?W + 1) * e"
    by (simp add: algebra_simps abs_le_iff)
  then show "\<bar>of_int n * step (n * w) w - (of_int (n * w) - of_int w)\<bar> \<le> (of_int (n * w) + 1) / 2 ^ 24"
    unfolding st by (simp add: e_def)
qed


text \<open>The next position, multiplied by the quotient to stay with integers.\<close>

lemma next_position:
  assumes "2 \<le> n" "n \<le> w" "4 \<le> w" "n * (n + 4) * w < 2 ^ 24" "0 \<le> y" "y \<le> n * w"
  shows "n * \<lfloor>fl32 (of_int y + step (n * w) w)\<rfloor> \<le> n * y + (n * w - w)"
    and "n * y + (n * w - w - n) \<le> n * \<lfloor>fl32 (of_int y + step (n * w) w)\<rfloor>"
proof -
  let ?N = "rat_of_int n" and ?W = "rat_of_int w" and ?Y = "rat_of_int y" and ?dx = "step (n * w) w"
  define e :: rat where "e = 1 / 2 ^ 24"
  have "n * w * 1 \<le> n * w * (n + 4)" using assms(1-3) by (intro mult_left_mono) simp_all
  moreover have "n * w * (n + 4) = n * (n + 4) * w" by simp
  ultimately have "n * w < 2 ^ 24" using assms(4) by linarith
  note st = step_bounds [OF assms(1-3) this]
  define z where "z = ?Y + ?dx"
  have z1: "1 \<le> z" using st(2) assms(5) by (simp add: z_def)
  have z: "\<bar>fl32 z - z\<bar> \<le> z * e" using fl32_error [OF z1] by (simp add: e_def)
  have nz: "\<bar>?N * z - (?N * ?Y + (?N * ?W - ?W))\<bar> \<le> (?N * ?W + 1) * e" using st(1) by (simp add: z_def e_def algebra_simps)
  have "\<bar>?N * fl32 z - ?N * z\<bar> = ?N * \<bar>fl32 z - z\<bar>"
    using assms(1) by (simp add: abs_mult right_diff_distrib [symmetric])
  also have "\<dots> \<le> ?N * (z * e)" using z assms(1) by (intro mult_left_mono) simp_all
  also have "\<dots> = (?N * z) * e" by simp
  finally have f: "\<bar>?N * fl32 z - ?N * z\<bar> \<le> (?N * z) * e" .
  have "?N * ?Y \<le> ?N * (?N * ?W)" using assms(1,6) by (intro mult_left_mono) (simp_all flip: of_int_mult)
  moreover have "(?N * ?W + 1) * e \<le> 1" using \<open>n * w < 2 ^ 24\<close> by (simp add: e_def flip: of_int_mult)
  ultimately have "?N * z \<le> ?N * ?N * ?W + ?N * ?W + 1" using nz assms(3) by linarith
  then have "(?N * z) * e \<le> (?N * ?N * ?W + ?N * ?W + 1) * e" by (intro mult_right_mono) (simp_all add: e_def)
  with f nz have "\<bar>?N * fl32 z - (?N * ?Y + (?N * ?W - ?W))\<bar> \<le> (?N * ?N * ?W + 2 * (?N * ?W) + 2) * e"
    by (simp add: algebra_simps abs_le_iff)
  moreover have "(?N * ?N * ?W + 2 * (?N * ?W) + 2) * e < 1"
  proof -
    have "1 * 1 \<le> n * w" using assms(1-3) by (intro mult_mono) simp_all
    then have "n * n * w + 2 * (n * w) + 2 < 2 ^ 24" using assms(4) by (simp add: algebra_simps)
    then have "rat_of_int (n * n * w + 2 * (n * w) + 2) < of_int (2 ^ 24)" unfolding of_int_less_iff .
    then show ?thesis by (simp add: e_def)
  qed
  ultimately have r: "\<bar>?N * fl32 z - of_int (n * y + (n * w - w))\<bar> < 1" by simp
  let ?f = "\<lfloor>fl32 z\<rfloor>"
  have fl: "of_int ?f \<le> fl32 z" "fl32 z < of_int ?f + 1" by linarith+
  have "?N * of_int ?f \<le> ?N * fl32 z" "?N * fl32 z < ?N * (of_int ?f + 1)" using fl assms(1) by simp_all
  then have "rat_of_int (n * ?f) < of_int (n * y + (n * w - w) + 1)" "rat_of_int (n * y + (n * w - w) - 1) < of_int (n * ?f + n)"
    using r by (simp_all add: algebra_simps abs_less_iff)
  then show "n * \<lfloor>fl32 (of_int y + ?dx)\<rfloor> \<le> n * y + (n * w - w)" "n * y + (n * w - w - n) \<le> n * \<lfloor>fl32 (of_int y + ?dx)\<rfloor>"
    unfolding of_int_less_iff z_def by linarith+
qed


lemma covered:
  "successively (\<lambda>a b. b \<le> a + w) ps \<Longrightarrow> ps \<noteq> [] \<Longrightarrow> hd ps \<le> c \<Longrightarrow> c < last ps + w \<Longrightarrow> \<exists>p \<in> set ps. p \<le> c \<and> c < p + (w :: int)"
proof (induction ps rule: induct_list012)
  case (3 x y zs)
  show ?case
  proof (cases "c < x + w")
    case False
    then have "hd (y # zs) \<le> c" using 3(3) by simp
    then show ?thesis using 3 by (simp add: successively_Cons)
  qed (use 3 in auto)
qed auto

lemma positions_whole:
  assumes "2 \<le> n" "n \<le> w" "4 \<le> w" "n * (n + 4) * w < 2 ^ 24"
    and "0 \<le> y" "n * y \<le> j * (n * w - w)" "j * (n * w - w - n) \<le> n * y" "0 \<le> j" "j + int m = n"
  shows "let ps = positions (of_int (n + 1)) (step (n * w) w) y j in
    ps \<noteq> [] \<and> hd ps = y \<and> successively (\<lambda>a b. b \<le> a + w) ps \<and> n * (n * w - w - n) \<le> n * last ps \<and>
    length ps = Suc m \<and> (\<forall>p \<in> set ps. 0 \<le> p \<and> p \<le> n * w - w)"
  using assms(5-9)
proof (induction m arbitrary: y j)
  case 0
  have "n * y \<le> n * (n * w - w)" using "0.prems" by simp
  then have "y \<le> n * w - w" using assms(1) by simp
  then show ?case using 0 by (simp add: positions.simps [of _ _ y] positions.simps [of _ _ _ "n + 1"])
next
  case (Suc m)
  let ?y = "\<lfloor>fl32 (of_int y + step (n * w) w)\<rfloor>"
  have nw: "0 \<le> n * w - w" using assms(1,3) by simp
  have "j * (n * w - w) \<le> n * (n * w - w)" using Suc.prems(5) nw by (intro mult_right_mono) simp_all
  then have "n * y \<le> n * (n * w - w)" using Suc.prems(2) by linarith
  then have y: "y \<le> n * w - w" using assms(1) by simp
  then have "y \<le> n * w" using assms(3) by simp
  note np = next_position [OF assms(1-4) Suc.prems(1) this]
  have "n * ?y \<le> n * (y + w)" using np(1) assms(3) by (simp add: algebra_simps)
  then have s: "?y \<le> y + w" using assms(1) by simp
  have "2 * w \<le> n * w" using assms(1,3) by simp
  moreover have "0 \<le> n * y" using assms(1) Suc.prems(1) by simp
  ultimately have "0 \<le> n * y + (n * w - w - n)" using assms(2) by linarith
  then have "0 \<le> n * ?y" using np(2) by linarith
  then have y0: "0 \<le> ?y" using assms(1) by (simp add: zero_le_mult_iff)
  have b: "n * ?y \<le> (j + 1) * (n * w - w)" "(j + 1) * (n * w - w - n) \<le> n * ?y"
    using np Suc.prems(2,3) by (simp_all only: distrib_right mult_1_left)
  have step: "positions (of_int (n + 1)) (step (n * w) w) y j = y # positions (of_int (n + 1)) (step (n * w) w) ?y (j + 1)"
    using Suc.prems(5) by (subst positions.simps) simp
  show ?case
    unfolding step using Suc.IH [OF y0 b] Suc.prems y s by (simp add: Let_def successively_Cons)
qed

text \<open>A picture whose width is \<open>n\<close> network widths is covered by its slices but for less than \<open>n\<close> lines and columns.\<close>

lemma positions_of_whole:
  assumes "2 \<le> n" "n \<le> w" "4 \<le> w" "n * (n + 4) * w < 2 ^ 24"
  shows "length (positions_of (n * w) w) = nat (n + 1)" "\<forall>p \<in> set (positions_of (n * w) w). 0 \<le> p \<and> p + w \<le> n * w"
    "0 \<le> c \<Longrightarrow> c < n * w - n \<Longrightarrow> \<exists>p \<in> set (positions_of (n * w) w). p \<le> c \<and> c < p + w"
proof -
  have "n * w * 1 \<le> n * w * (n + 4)" using assms(1-3) by (intro mult_left_mono) simp_all
  moreover have "n * w * (n + 4) = n * (n + 4) * w" by simp
  ultimately have lt: "n * w < 2 ^ 24" using assms(4) by linarith
  have w0: "0 < w" using assms(3) by simp
  have "2 * w \<le> n * w" using assms(1,3) by simp
  then have "n + 1 \<le> n * w" using assms(2,3) by linarith
  then have "fl32 (of_int (n + 1)) = of_int (n + 1)" using lt assms(1) by (intro fl32_int) simp_all
  then have ps: "positions_of (n * w) w = positions (of_int (n + 1)) (step (n * w) w) 0 0"
    unfolding positions_of_def Let_def width_exact [OF assms(1) w0 lt] using assms(1) by simp
  have "0 + int (nat n) = n" using assms(1) by simp
  note pw = positions_whole [OF assms order_refl _ _ order_refl this, simplified Let_def ps [symmetric], simplified]
  show "length (positions_of (n * w) w) = nat (n + 1)" using pw assms(1) by (simp add: nat_add_distrib)
  show "\<forall>p \<in> set (positions_of (n * w) w). 0 \<le> p \<and> p + w \<le> n * w" using pw by auto
  have "n * (n * w - w - n) \<le> n * last (positions_of (n * w) w)" using pw by simp
  then have "n * w - w - n \<le> last (positions_of (n * w) w)" using assms(1) by simp
  then show "\<exists>p \<in> set (positions_of (n * w) w). p \<le> c \<and> c < p + w" if "0 \<le> c" "c < n * w - n"
    using that pw by (intro covered) auto
qed


section \<open>The square\<close>

text \<open>Half of a number, rounded towards zero as in the code.\<close>

definition half :: "int \<Rightarrow> int" where
  "half a = (if 0 \<le> a then a div 2 else - ((- a) div 2))"

text \<open>Pictures are lists of pixels, line by line. Each line of the square is black or a line of the source;
  a source that is taller than wide loses lines at both ends.\<close>

definition square_line :: "'p \<Rightarrow> nat \<Rightarrow> nat \<Rightarrow> 'p list \<Rightarrow> nat \<Rightarrow> 'p list" where
  "square_line black cols rows src i = (let dh = half (int cols - int rows) in
     if int i < dh \<or> dh + int rows \<le> int i then replicate cols black
     else take cols (drop (nat (int i - dh) * cols) src))"

definition square_img :: "'p \<Rightarrow> nat \<Rightarrow> nat \<Rightarrow> 'p list \<Rightarrow> 'p list" where
  "square_img black cols rows src = concat (map (square_line black cols rows src) [0..<cols])"

text \<open>The reduced square, by the library's \<open>resize\<close>, the square, and the positions of the slices in it.\<close>

definition ImgToSlices :: "('p list \<Rightarrow> int \<Rightarrow> 'p list) \<Rightarrow> 'p \<Rightarrow> nat \<Rightarrow> nat \<Rightarrow> 'p list \<Rightarrow> int \<Rightarrow> ('p list \<times> 'p list \<times> (int \<times> int) list) option" where
  "ImgToSlices resize black cols rows src inWidth = do {
     let squareImg = square_img black cols rows src;
     transPts \<leftarrow> slice_points (int cols) inWidth;
     Some (resize squareImg inWidth, squareImg, transPts)}"

text \<open>A slice shares the square's memory: converting its colours changes the square, and the network is
  given the address of its first pixel.\<close>

definition in_slice :: "nat \<Rightarrow> nat \<Rightarrow> int \<times> int \<Rightarrow> nat \<Rightarrow> bool" where
  "in_slice cols w p k = (case p of (x, y) \<Rightarrow>
     x \<le> int (k mod cols) \<and> int (k mod cols) < x + int w \<and> y \<le> int (k div cols) \<and> int (k div cols) < y + int w)"

definition cvt_slice :: "('p \<Rightarrow> 'p) \<Rightarrow> nat \<Rightarrow> nat \<Rightarrow> int \<times> int \<Rightarrow> 'p list \<Rightarrow> 'p list" where
  "cvt_slice swap cols w p sq = map (\<lambda>k. if in_slice cols w p k then swap (sq ! k) else sq ! k) [0..<length sq]"

definition model_input :: "nat \<Rightarrow> nat \<Rightarrow> int \<times> int \<Rightarrow> 'p list \<Rightarrow> 'p list option" where
  "model_input cols w p sq = (case p of (x, y) \<Rightarrow> let start = nat (y * int cols + x) in
     if start + w * w \<le> length sq then Some (take (w * w) (drop start sq)) else None)"

fun slice_inputs :: "('p \<Rightarrow> 'p) \<Rightarrow> nat \<Rightarrow> nat \<Rightarrow> (int \<times> int) list \<Rightarrow> 'p list \<Rightarrow> 'p list list option" where
  "slice_inputs swap cols w [] sq = Some []"
| "slice_inputs swap cols w (p # ps) sq = (let sq1 = cvt_slice swap cols w p sq in do {
     inp \<leftarrow> model_input cols w p sq1;
     rest \<leftarrow> slice_inputs swap cols w ps sq1;
     Some (inp # rest)})"

definition GetOriginRect :: "('f, 'd) nms_ops \<Rightarrow> 'f box \<Rightarrow> int \<times> int \<Rightarrow> int \<Rightarrow> int \<Rightarrow> 'f box" where
  "GetOriginRect F inRect transPt inWidth srcWidth = (let
     w = fl_of_int F inWidth; s = fl_of_int F srcWidth in
     \<lparr>box_x = fl_div F (fl_add F (fl_mul F (box_x inRect) w) (fl_of_int F (fst transPt))) s,
       box_y = fl_div F (fl_add F (fl_mul F (box_y inRect) w) (fl_of_int F (snd transPt))) s,
       box_w = fl_div F (fl_mul F (box_w inRect) w) s,
       box_h = fl_div F (fl_mul F (box_h inRect) w) s\<rparr>)"

lemma length_concat_const: "\<forall>l \<in> set ls. length l = n \<Longrightarrow> length (concat ls) = length ls * n"
  by (induction ls) auto

lemma nth_concat_const:
  assumes "\<forall>l \<in> set ls. length l = n" "r < length ls" "c < n"
  shows "concat ls ! (r * n + c) = ls ! r ! c"
  using assms
proof (induction ls arbitrary: r)
  case (Cons l ls)
  show ?case
  proof (cases r)
    case (Suc r1)
    then show ?thesis using Cons by (simp add: nth_append add.assoc)
  qed (use Cons.prems in \<open>simp add: nth_append\<close>)
qed simp

lemma length_square_line:
  assumes "length src = rows * cols" "i < cols"
  shows "length (square_line black cols rows src i) = cols"
proof (cases "int i < half (int cols - int rows) \<or> half (int cols - int rows) + int rows \<le> int i")
  case False
  define r where "r = nat (int i - half (int cols - int rows))"
  have "r < rows" unfolding r_def using False by linarith
  then have "Suc r * cols \<le> rows * cols" by (intro mult_le_mono1) simp
  then show ?thesis using False assms(1) by (simp add: square_line_def Let_def r_def [symmetric])
qed (simp add: square_line_def Let_def)

lemma length_square: "length src = rows * cols \<Longrightarrow> length (square_img black cols rows src) = cols * cols"
  unfolding square_img_def by (subst length_concat_const [of _ cols]) (auto simp: length_square_line)

lemma square_pixel:
  assumes "length src = rows * cols" "r < cols" "c < cols"
  shows "square_img black cols rows src ! (r * cols + c) = (let dh = half (int cols - int rows) in
    if int r < dh \<or> dh + int rows \<le> int r then black else src ! (nat (int r - dh) * cols + c))"
proof -
  have "square_img black cols rows src ! (r * cols + c) = square_line black cols rows src r ! c"
    unfolding square_img_def using assms by (subst nth_concat_const [of _ cols]) (auto simp: length_square_line)
  also have "\<dots> = (let dh = half (int cols - int rows) in
    if int r < dh \<or> dh + int rows \<le> int r then black else src ! (nat (int r - dh) * cols + c))"
  proof (cases "int r < half (int cols - int rows) \<or> half (int cols - int rows) + int rows \<le> int r")
    case False
    define i where "i = nat (int r - half (int cols - int rows))"
    have "i < rows" unfolding i_def using False by linarith
    then have "Suc i * cols \<le> rows * cols" by (intro mult_le_mono1) simp
    moreover have "i * cols \<le> Suc i * cols" by simp
    ultimately have "i * cols \<le> length src" using assms(1) by linarith
    then show ?thesis using False assms by (simp add: square_line_def Let_def i_def [symmetric])
  qed (use assms in \<open>simp add: square_line_def Let_def\<close>)
  finally show ?thesis .
qed


text \<open>How often a pixel's colours have been converted.\<close>

definition conversions :: "nat \<Rightarrow> nat \<Rightarrow> (int \<times> int) list \<Rightarrow> nat \<Rightarrow> nat" where
  "conversions cols w ps k = length (filter (\<lambda>p. in_slice cols w p k) ps)"

definition slice_start :: "nat \<Rightarrow> int \<times> int \<Rightarrow> nat" where
  "slice_start cols p = nat (snd p * int cols + fst p)"

lemma cvt_slice_nth:
  "k < length sq \<Longrightarrow> cvt_slice swap cols w p sq ! k = (swap ^^ conversions cols w [p] k) (sq ! k)"
  by (simp add: cvt_slice_def conversions_def)

lemma length_cvt_slice [simp]: "length (cvt_slice swap cols w p sq) = length sq"
  by (simp add: cvt_slice_def)

lemma slice_start_fits:
  assumes "roi_ok (int cols) (int w) x y" "0 < w"
  shows "slice_start cols (x, y) + w * w \<le> cols * cols"
proof -
  have r: "0 \<le> x" "x \<le> int cols - int w" "0 \<le> y" "y \<le> int cols - int w" "w \<le> cols" using assms by (simp_all add: roi_ok_def)
  have "y * int cols \<le> (int cols - int w) * int cols" using r by (intro mult_right_mono) simp_all
  moreover have "(int cols - int w) * 1 \<le> (int cols - int w) * int w" using r assms(2) by (intro mult_left_mono) simp_all
  ultimately have "y * int cols + x + int w * int w \<le> int cols * int cols" using r(2) by (simp add: algebra_simps)
  moreover have "0 \<le> y * int cols + x" using r by simp
  ultimately have "int (nat (y * int cols + x) + w * w) \<le> int (cols * cols)" by simp
  then show ?thesis unfolding slice_start_def of_nat_le_iff by simp
qed

lemma model_input_some:
  assumes "slice_start cols p + w * w \<le> length sq"
  shows "model_input cols w p sq = Some (take (w * w) (drop (slice_start cols p) sq))"
  using assms by (cases p) (simp add: model_input_def slice_start_def)

lemma slice_inputs_spec:
  assumes "\<forall>p \<in> set ps. slice_start cols p + w * w \<le> length sq"
  shows "\<exists>inps. slice_inputs swap cols w ps sq = Some inps \<and> length inps = length ps \<and>
    (\<forall>i < length ps. \<forall>j < w * w. inps ! i ! j =
      (swap ^^ conversions cols w (take (Suc i) ps) (slice_start cols (ps ! i) + j)) (sq ! (slice_start cols (ps ! i) + j)))"
  using assms
proof (induction ps arbitrary: sq)
  case (Cons p ps)
  let ?sq = "cvt_slice swap cols w p sq"
  have p: "slice_start cols p + w * w \<le> length ?sq" using Cons.prems by simp
  from Cons.IH [of ?sq] Cons.prems obtain inps where i: "slice_inputs swap cols w ps ?sq = Some inps" "length inps = length ps"
    "\<forall>i < length ps. \<forall>j < w * w. inps ! i ! j =
      (swap ^^ conversions cols w (take (Suc i) ps) (slice_start cols (ps ! i) + j)) (?sq ! (slice_start cols (ps ! i) + j))" by auto
  let ?inps = "take (w * w) (drop (slice_start cols p) ?sq) # inps"
  have "?inps ! k ! j = (swap ^^ conversions cols w (take (Suc k) (p # ps)) (slice_start cols ((p # ps) ! k) + j))
      (sq ! (slice_start cols ((p # ps) ! k) + j))" if "k < Suc (length ps)" "j < w * w" for k j
  proof (cases k)
    case 0
    then show ?thesis using that p by (simp add: cvt_slice_nth)
  next
    case (Suc m)
    let ?k = "slice_start cols (ps ! m) + j"
    have "slice_start cols (ps ! m) + w * w \<le> length sq" using Cons.prems Suc that(1) by simp
    then have "?sq ! ?k = (swap ^^ conversions cols w [p] ?k) (sq ! ?k)" using that(2) by (intro cvt_slice_nth) simp
    moreover have "conversions cols w (p # take (Suc m) ps) ?k = conversions cols w (take (Suc m) ps) ?k + conversions cols w [p] ?k"
      by (simp add: conversions_def)
    ultimately show ?thesis using Suc that i(3) by (simp add: funpow_add)
  qed
  then show ?case using i(1,2) model_input_some [OF p] by (intro exI [of _ ?inps]) (simp add: Let_def)
qed simp

text \<open>Without rounding, a box found in a slice is given its own place in the square.\<close>

definition rat_ops :: "(rat, rat) nms_ops" where
  "rat_ops = \<lparr>fl_add = (+), fl_sub = (-), fl_half = (\<lambda>x. x / 2), fl_less = (<), fl_nonpos = (\<lambda>x. x \<le> 0),
     fl_mul = (*), fl_div = (/), fl_zero = 0, fl_eq = (=), fl_of_int = of_int, fl_neg = uminus, fl_exp = id, dbl = id,
     fl_of_dbl = id, dbl_lit = id, dbl_add = (+), dbl_sub = (-), dbl_mul = (*), dbl_div = (/), dbl_pow = (\<lambda>x n. x ^ nat n)\<rparr>"

lemma origin_rect_recovers:
  assumes "0 < w" "0 < s"
  shows "GetOriginRect rat_ops \<lparr>box_x = (a - of_int x) / of_int w, box_y = (b - of_int y) / of_int w, box_w = c / of_int w, box_h = d / of_int w\<rparr>
      (x, y) w s = \<lparr>box_x = a / of_int s, box_y = b / of_int s, box_w = c / of_int s, box_h = d / of_int s\<rparr>"
  using assms by (simp add: GetOriginRect_def rat_ops_def Let_def)

section \<open>What the networks are given\<close>

text \<open>C36. For a picture whose width is \<open>n\<close> network widths (and small enough for the rounding errors not to
  matter) the slices exist, there are \<open>(n + 1)\<^sup>2\<close> of them, all inside the square,
  and together they cover it but for less than \<open>n\<close> lines and columns at the far ends.\<close>

theorem slices_cover:
  assumes "2 \<le> n" "n \<le> w" "4 \<le> w" "n * (n + 4) * w < 2 ^ 24" "int cols = n * w"
  shows "\<exists>transPts. ImgToSlices resize black cols rows src w = Some (resize (square_img black cols rows src) w, square_img black cols rows src, transPts) \<and>
    length transPts = nat (n + 1) * nat (n + 1) \<and> (\<forall>(x, y) \<in> set transPts. roi_ok (int cols) w x y) \<and>
    (\<forall>a b. 0 \<le> a \<and> a < int cols - n \<and> 0 \<le> b \<and> b < int cols - n \<longrightarrow>
      (\<exists>(x, y) \<in> set transPts. x \<le> a \<and> a < x + w \<and> y \<le> b \<and> b < y + w))"
proof -
  let ?ps = "positions_of (n * w) w"
  note pw = positions_of_whole [OF assms(1-4)]
  have "slice_points (int cols) w = Some (List.product ?ps ?ps)"
    using pw(2) unfolding assms(5) slice_points_positions Let_def by (auto simp: roi_ok_def)
  then have "ImgToSlices resize black cols rows src w =
      Some (resize (square_img black cols rows src) w, square_img black cols rows src, List.product ?ps ?ps)"
    by (simp add: ImgToSlices_def Let_def)
  moreover have "length (List.product ?ps ?ps) = nat (n + 1) * nat (n + 1)" by (simp add: length_product pw(1))
  moreover have "\<forall>(x, y) \<in> set (List.product ?ps ?ps). roi_ok (int cols) w x y"
    using pw(2) unfolding assms(5) by (auto simp: roi_ok_def)
  moreover have "\<exists>(x, y) \<in> set (List.product ?ps ?ps). x \<le> a \<and> a < x + w \<and> y \<le> b \<and> b < y + w"
    if "0 \<le> a" "a < n * w - n" "0 \<le> b" "b < n * w - n" for a b
    using pw(3) [OF that(1,2)] pw(3) [OF that(3,4)] by auto
  ultimately show ?thesis unfolding assms(5) by blast
qed

theorem slices_cover_witness:
  "\<exists>transPts. ImgToSlices (\<lambda>sq w. []) (0 :: nat) 1920 1080 [] 640 = Some ([], square_img 0 1920 1080 [], transPts) \<and> length transPts = 16"
  using slices_cover [of 3 640 1920 "\<lambda>sq w. []" "0 :: nat" 1080 "[]"] by auto

lemma positions_step:
  "of_int j < k \<Longrightarrow> \<lfloor>fl32 (of_int y + dx)\<rfloor> = y1 \<Longrightarrow> positions k dx y j = y # positions k dx y1 (j + 1)"
  by (subst positions.simps) simp

lemma outside_throws:
  assumes "p \<in> set (positions_of (int cols) w)" "int cols < p + w"
  shows "ImgToSlices resize black cols rows src w = None"
proof -
  have "\<not> roi_ok (int cols) w p p" using assms(2) by (simp add: roi_ok_def)
  then have "slice_points (int cols) w = None" using assms(1) unfolding slice_points_positions Let_def by auto
  then show ?thesis by (simp add: ImgToSlices_def Let_def)
qed

lemma positions_1600: "positions_of 1600 640 = [0, 384, 768, 1152]"
proof -
  have k: "fl32 (of_int 1600 / of_int 640) = 5 / 2" "fl32 (5 / 2 + 1) = 7 / 2" "step 1600 640 = 384" by code_simp+
  have f: "\<lfloor>fl32 (of_int 0 + 384)\<rfloor> = 384" "\<lfloor>fl32 (of_int 384 + 384)\<rfloor> = 768" "\<lfloor>fl32 (of_int 768 + 384)\<rfloor> = 1152"
    "\<lfloor>fl32 (of_int 1152 + 384)\<rfloor> = 1536"
    using fl32_int [of 384] fl32_int [of 768] fl32_int [of 1152] fl32_int [of 1536] by simp_all
  show ?thesis
    unfolding positions_of_def k Let_def by (simp add: positions_step [OF _ f(1)] positions_step [OF _ f(2)]
      positions_step [OF _ f(3)] positions_step [OF _ f(4)] positions.simps [of _ _ 1536])
qed

lemma floor_fl32:
  assumes "1 \<le> q" "of_int m + q / 2 ^ 24 \<le> q" "q + q / 2 ^ 24 < of_int m + 1"
  shows "\<lfloor>fl32 q\<rfloor> = m"
proof (rule floor_unique)
  have "- (q / 2 ^ 24) \<le> fl32 q - q" "fl32 q - q \<le> q / 2 ^ 24"
    using fl32_error [OF assms(1)] by (simp_all only: abs_le_iff) linarith
  then show "of_int m \<le> fl32 q" "fl32 q < of_int m + 1" using assms(2,3) by linarith+
qed

lemma positions_2304: "positions_of 2304 640 = [0, 462, 924, 1386, 1848]"
proof -
  let ?dx = "7573049 / 16384 :: rat"
  have k: "fl32 (of_int 2304 / of_int 640) = 7549747 / 2097152" "fl32 (7549747 / 2097152 + 1) = 9646899 / 2097152"
    "fl32 (of_int 640 / (7549747 / 2097152)) = 11650845 / 65536" "fl32 (of_int 640 - 11650845 / 65536) = ?dx" by code_simp+
  have st: "step 2304 640 = ?dx" unfolding step_def k(1,3,4) ..
  have f: "\<lfloor>fl32 (of_int 0 + ?dx)\<rfloor> = 462" "\<lfloor>fl32 (of_int 462 + ?dx)\<rfloor> = 924" "\<lfloor>fl32 (of_int 924 + ?dx)\<rfloor> = 1386"
    "\<lfloor>fl32 (of_int 1386 + ?dx)\<rfloor> = 1848" "\<lfloor>fl32 (of_int 1848 + ?dx)\<rfloor> = 2310" by (rule floor_fl32; simp)+
  show ?thesis
    unfolding positions_of_def k(1,2) st Let_def by (simp add: positions_step [OF _ f(1)] positions_step [OF _ f(2)]
      positions_step [OF _ f(3)] positions_step [OF _ f(4)] positions_step [OF _ f(5)] positions.simps [of _ _ 2310])
qed

text \<open>For other widths - 1600, 2304 or 2688 pixels, for example - the last slice reaches outside the
  square, where the library throws; the exception is not caught.\<close>

theorem odd_widths_throw:
  "ImgToSlices resize black 1600 rows src 640 = None \<and> ImgToSlices resize black 2304 rows src 640 = None"
  by (intro conjI outside_throws [of 1152] outside_throws [of 1848]) (simp_all add: positions_1600 positions_2304)

text \<open>What the network reads for a slice is the memory from the slice's first pixel on: its first line is
  the slice's first line, but line \<open>r\<close> is not the slice's line \<open>r\<close>; and a pixel that slices share is
  converted once for each slice handled so far, so that its colours change back and forth.\<close>

theorem slice_inputs_memory:
  assumes "\<forall>(x, y) \<in> set ps. roi_ok (int cols) (int w) x y" "0 < w" "w < cols" "length sq = cols * cols"
  shows "\<exists>inps. slice_inputs swap cols w ps sq = Some inps \<and> length inps = length ps \<and>
    (\<forall>i < length ps. \<forall>r < w. \<forall>c < w. let k = slice_start cols (ps ! i) + r * w + c; own = slice_start cols (ps ! i) + r * cols + c in
      inps ! i ! (r * w + c) = (swap ^^ conversions cols w (take (Suc i) ps) k) (sq ! k) \<and> (k = own \<longleftrightarrow> r = 0))"
proof -
  have "\<forall>p \<in> set ps. slice_start cols p + w * w \<le> length sq"
    using assms slice_start_fits by fastforce
  from slice_inputs_spec [OF this, of swap] obtain inps where i: "slice_inputs swap cols w ps sq = Some inps" "length inps = length ps"
    "\<forall>i < length ps. \<forall>j < w * w. inps ! i ! j =
      (swap ^^ conversions cols w (take (Suc i) ps) (slice_start cols (ps ! i) + j)) (sq ! (slice_start cols (ps ! i) + j))" by blast
  have "r * w + c < w * w" if "r < w" "c < w" for r c
  proof -
    have "Suc r * w \<le> w * w" using that(1) by (intro mult_le_mono1) simp
    then show ?thesis using that(2) by simp
  qed
  then show ?thesis using i assms(3) by (intro exI [of _ inps]) (simp add: Let_def add.assoc)
qed

theorem slice_inputs_memory_witness:
  "\<exists>inps. slice_inputs rev 3 2 [(0, 0), (1, 1)] [''ab'', ''cd'', ''ef'', ''gh'', ''ij'', ''kl'', ''mn'', ''op'', ''qr''] = Some inps \<and>
    length inps = 2"
  using slice_inputs_memory [of "[(0, 0), (1, 1)]" 3 2 "[''ab'', ''cd'', ''ef'', ''gh'', ''ij'', ''kl'', ''mn'', ''op'', ''qr'']" rev]
  by (auto simp: roi_ok_def)

end
