(* ===== verification/DetectDecode.thy ===== *)
theory DetectDecode
  imports ImgSlices
begin

text \<open>
  What the outputs of a detection network stand for (DetectAlg.cpp, \<open>get_network_boxes\<close> and
  \<open>outputs_transform\<close>), as lists over the cells of the grids: the boxes that are decoded and the boxes
  that remain after the suppression. The loops of the code compute exactly these lists.
\<close>

section \<open>The boxes of a grid\<close>

text \<open>Cell \<open>k\<close> of a grid with \<open>g * g\<close> cells for each of three anchors; its predictions start at \<open>k * (5 + classes)\<close>.\<close>

definition cell_box :: "('f, 'd) nms_ops \<Rightarrow> int \<Rightarrow> int \<Rightarrow> int \<Rightarrow> int list \<Rightarrow> 'f list \<Rightarrow> nat \<Rightarrow> 'f list \<Rightarrow> nat \<Rightarrow> 'f box" where
  "cell_box F netw neth grid masks anchors classes p k = (let
     gg = nat (grid * grid); wh = int (k mod gg); m = masks ! (k div gg); o1 = k * (5 + classes) in
     \<lparr>box_x = fl_div F (fl_add F (fl_of_int F (wh mod grid)) (sig_xy F (p ! o1))) (fl_of_int F grid),
       box_y = fl_div F (fl_add F (fl_of_int F (wh div grid)) (sig_xy F (p ! (o1 + 1)))) (fl_of_int F grid),
       box_w = fl_div F (fl_mul F (sig_wh F (p ! (o1 + 2))) (anchors ! nat (2 * m))) (fl_of_int F netw),
       box_h = fl_div F (fl_mul F (sig_wh F (p ! (o1 + 3))) (anchors ! nat (2 * m + 1))) (fl_of_int F neth)\<rparr>)"

definition cell_probs :: "('f, 'd) nms_ops \<Rightarrow> nat \<Rightarrow> 'f list \<Rightarrow> nat \<Rightarrow> 'f list" where
  "cell_probs F classes p k = map (\<lambda>c. fl_mul F (sig F (p ! (k * (5 + classes) + 4))) (sig F (p ! (k * (5 + classes) + 5 + c)))) [0..<classes]"

definition cell_fires :: "('f, 'd) nms_ops \<Rightarrow> nat \<Rightarrow> 'f \<Rightarrow> 'f list \<Rightarrow> nat \<Rightarrow> bool" where
  "cell_fires F classes obj_thresh p k \<longleftrightarrow> fl_less F obj_thresh (sig F (p ! (k * (5 + classes) + 4)))"

definition cell_result :: "('f, 'd) nms_ops \<Rightarrow> int \<Rightarrow> int \<Rightarrow> int \<Rightarrow> int list \<Rightarrow> 'f list \<Rightarrow> nat \<Rightarrow> 'f list \<Rightarrow> nat \<Rightarrow> 'f box \<times> 'f list" where
  "cell_result F netw neth grid masks anchors classes p k =
     (cell_box F netw neth grid masks anchors classes p k, cell_probs F classes p k)"

definition grid_results :: "('f, 'd) nms_ops \<Rightarrow> int \<Rightarrow> int \<Rightarrow> int \<Rightarrow> int list \<Rightarrow> 'f list \<Rightarrow> nat \<Rightarrow> 'f \<Rightarrow> 'f list \<Rightarrow> ('f box \<times> 'f list) list" where
  "grid_results F netw neth grid masks anchors classes obj_thresh p =
     map (cell_result F netw neth grid masks anchors classes p) (filter (cell_fires F classes obj_thresh p) [0..<3 * nat (grid * grid)])"

section \<open>The loops\<close>

fun fill :: "'f detection list \<Rightarrow> nat \<Rightarrow> ('f box \<times> 'f list) list \<Rightarrow> 'f detection list" where
  "fill dets c [] = dets"
| "fill dets c (x # xs) = fill (dets[c := (dets ! c)\<lparr>bbox := fst x, prob := snd x\<rparr>]) (Suc c) xs"

lemma fill_append: "fill dets c (xs @ ys) = fill (fill dets c xs) (c + length xs) ys"
  by (induction xs arbitrary: dets c) simp_all

lemma length_fill [simp]: "length (fill dets c xs) = length dets"
  by (induction xs arbitrary: dets c) simp_all

lemma fill_blank:
  "length xs \<le> n \<Longrightarrow> fill (pre @ replicate n d @ post) (length pre) xs =
   pre @ map (\<lambda>x. d\<lparr>bbox := fst x, prob := snd x\<rparr>) xs @ replicate (n - length xs) d @ post"
proof (induction xs arbitrary: pre n)
  case (Cons x xs)
  then obtain m where n: "n = Suc m" by (cases n) auto
  let ?y = "d\<lparr>bbox := fst x, prob := snd x\<rparr>"
  have "fill (pre @ replicate n d @ post) (length pre) (x # xs) = fill ((pre @ [?y]) @ replicate m d @ post) (length (pre @ [?y])) xs"
    unfolding n by (simp add: list_update_append nth_append)
  then show ?case using Cons.IH [of m "pre @ [?y]"] Cons.prems unfolding n by simp
qed simp

lemma get_off: "k + numeral v < length p \<Longrightarrow> get p (int k + numeral v) = Some (p ! (k + numeral v))"
  "k + 1 < length p \<Longrightarrow> get p (int k + 1) = Some (p ! (k + 1))"
  using get_nat [of "k + numeral v" p] get_nat [of "k + 1" p] by (simp_all add: add.commute)

lemma update_off: "k + numeral v < length p \<Longrightarrow> update p (int k + numeral v) g = Some (p[k + numeral v := g (p ! (k + numeral v))])"
  "k + 1 < length p \<Longrightarrow> update p (int k + 1) g = Some (p[k + 1 := g (p ! (k + 1))])"
  "k < length p \<Longrightarrow> update p (int k) g = Some (p[k := g (p ! k)])"
  using get_nat [of "k + numeral v" p] get_nat [of "k + 1" p] get_nat [of k p]
    put_nat [of "k + numeral v" p] put_nat [of "k + 1" p] put_nat [of k p] by (simp_all add: update_def add.commute)

lemma sig_loop_spec:
  "k + 5 + c + n \<le> length p \<Longrightarrow> \<exists>q. sig_loop F (int k) (int c) n p = Some q \<and> length q = length p \<and>
    (\<forall>j < length p. q ! j = (if k + 5 + c \<le> j \<and> j < k + 5 + c + n then sig F (p ! j) else p ! j))"
proof (induction n arbitrary: c p)
  case (Suc n)
  let ?p = "p[k + 5 + c := sig F (p ! (k + 5 + c))]"
  have u: "update p (int k + 5 + int c) (sig F) = Some ?p"
    using update_off(3) [of "k + 5 + c" p "sig F"] Suc.prems by (simp add: ac_simps)
  have "k + 5 + Suc c + n \<le> length ?p" using Suc.prems by simp
  from Suc.IH [OF this] obtain q where q: "sig_loop F (int k) (int (Suc c)) n ?p = Some q" "length q = length ?p"
    "\<And>j. j < length ?p \<Longrightarrow> q ! j = (if k + 5 + Suc c \<le> j \<and> j < k + 5 + Suc c + n then sig F (?p ! j) else ?p ! j)" by blast
  have "q ! j = (if k + 5 + c \<le> j \<and> j < k + 5 + c + Suc n then sig F (p ! j) else p ! j)" if "j < length p" for j
    using q(3) [of j] that Suc.prems by (cases "j = k + 5 + c") auto
  then show ?case using u q(1,2) by (intro exI [of _ q]) (simp add: add.commute)
qed auto

lemma prob_loop_spec:
  "k + 5 + c + n \<le> length p \<Longrightarrow> c + n \<le> length pr \<Longrightarrow> prob_loop F p x (int k) (int c) n pr =
    Some (take c pr @ map (\<lambda>i. fl_mul F x (p ! (k + 5 + i))) [c..<c + n] @ drop (c + n) pr)"
proof (induction n arbitrary: c pr)
  case (Suc n)
  let ?y = "fl_mul F x (p ! (k + 5 + c))"
  have g: "get p (int k + 5 + int c) = Some (p ! (k + 5 + c))"
    using get_nat [of "k + 5 + c" p] Suc.prems by (simp add: ac_simps)
  have s: "int c + 1 = int (Suc c)" by simp
  have "prob_loop F p x (int k) (int c) (Suc n) pr = prob_loop F p x (int k) (int (Suc c)) n (pr[c := ?y])"
    using g Suc.prems put_nat [of c pr ?y] unfolding prob_loop.simps s by simp
  also have "\<dots> = Some (take (Suc c) (pr[c := ?y]) @ map (\<lambda>i. fl_mul F x (p ! (k + 5 + i))) [Suc c..<Suc c + n] @ drop (Suc c + n) (pr[c := ?y]))"
    using Suc.prems by (intro Suc.IH) simp_all
  also have "take (Suc c) (pr[c := ?y]) = take c pr @ [?y]" using Suc.prems by (simp add: take_Suc_conv_app_nth)
  finally have "prob_loop F p x (int k) (int c) (Suc n) pr = Some (take c pr @ [?y] @ map (\<lambda>i. fl_mul F x (p ! (k + 5 + i))) [Suc c..<Suc c + n] @ drop (Suc c + n) pr)"
    by simp
  moreover have "[c..<c + Suc n] = c # [Suc c..<Suc c + n]" by (simp add: upt_conv_Cons del: upt_Suc)
  ultimately show ?case by (simp del: prob_loop.simps upt_Suc)
qed simp

text \<open>One cell: its predictions are replaced, the later ones are as before, and its box is filled in if it fires.\<close>

lemma cell_step_exact:
  assumes "k * (5 + classes) + (5 + classes) \<le> length p" "length p = length p0" "\<forall>j < length p. k * (5 + classes) \<le> j \<longrightarrow> p ! j = p0 ! j"
    and "count < length dets" "\<forall>d \<in> set dets. length (prob d) = classes"
    and "k div gg < length masks" "0 \<le> masks ! (k div gg)" "2 * masks ! (k div gg) + 1 < int (length anchors)" "gg = nat (grid * grid)"
  shows "\<exists>q. cell_step F netw neth grid masks (int (k div gg)) anchors classes t (int (k mod gg)) (int (k * (5 + classes))) (p, int count, dets) =
      Some (q, if cell_fires F classes t p0 k
        then (int (Suc count), fill dets count [cell_result F netw neth grid masks anchors classes p0 k]) else (int count, dets)) \<and>
    length q = length p0 \<and> (\<forall>j < length q. Suc k * (5 + classes) \<le> j \<longrightarrow> q ! j = p0 ! j)"
proof -
  define o1 where "o1 = k * (5 + classes)"
  have o: "o1 + 5 + classes \<le> length p" "\<And>j. j < length p \<Longrightarrow> o1 \<le> j \<Longrightarrow> p ! j = p0 ! j" using assms(1,3) by (simp_all add: o1_def)
  let ?p5 = "p[o1 := sig_xy F (p ! o1), o1 + 1 := sig_xy F (p ! (o1 + 1)), o1 + 2 := sig_wh F (p ! (o1 + 2)),
    o1 + 3 := sig_wh F (p ! (o1 + 3)), o1 + 4 := sig F (p ! (o1 + 4))]"
  have "o1 + 5 + 0 + classes \<le> length ?p5" using o(1) by simp
  from sig_loop_spec [OF this] obtain q where q: "sig_loop F (int o1) (int 0) classes ?p5 = Some q" "length q = length ?p5"
    "\<And>j. j < length ?p5 \<Longrightarrow> q ! j = (if o1 + 5 + 0 \<le> j \<and> j < o1 + 5 + 0 + classes then sig F (?p5 ! j) else ?p5 ! j)" by blast
  have q0: "q ! o1 = sig_xy F (p0 ! o1)" "q ! (o1 + 1) = sig_xy F (p0 ! (o1 + 1))" "q ! (o1 + 2) = sig_wh F (p0 ! (o1 + 2))"
    "q ! (o1 + 3) = sig_wh F (p0 ! (o1 + 3))" "q ! (o1 + 4) = sig F (p0 ! (o1 + 4))"
    using q(3) [of o1] q(3) [of "o1 + 1"] q(3) [of "o1 + 2"] q(3) [of "o1 + 3"] q(3) [of "o1 + 4"] o by simp_all
  have qc: "q ! (o1 + 5 + c) = sig F (p0 ! (o1 + 5 + c))" if "c < classes" for c using q(3) [of "o1 + 5 + c"] o that by simp
  have qj: "q ! j = p0 ! j" if "j < length q" "o1 + 5 + classes \<le> j" for j using q(2) q(3) [of j] o that by simp
  let ?m = "masks ! (k div gg)" and ?d = "dets ! count"
  have l: "o1 + 4 < length p" "o1 + 3 < length p" "o1 + 2 < length p" "o1 + 1 < length p" "o1 < length p" using o(1) by simp_all
  have u: "do {p \<leftarrow> update p (int o1) (sig_xy F); p \<leftarrow> update p (int o1 + 1) (sig_xy F); p \<leftarrow> update p (int o1 + 2) (sig_wh F);
      p \<leftarrow> update p (int o1 + 3) (sig_wh F); p \<leftarrow> update p (int o1 + 4) (sig F); sig_loop F (int o1) 0 classes p} = Some q"
    using l q(1) by (simp add: update_off)
  then obtain x1 x2 x3 x4 x5 where x: "update p (int o1) (sig_xy F) = Some x1" "update x1 (int o1 + 1) (sig_xy F) = Some x2"
    "update x2 (int o1 + 2) (sig_wh F) = Some x3" "update x3 (int o1 + 3) (sig_wh F) = Some x4" "update x4 (int o1 + 4) (sig F) = Some x5"
    "sig_loop F (int o1) 0 classes x5 = Some q" by (auto split: bind_splits)
  have ql: "o1 + 4 < length q" "o1 + 3 < length q" "o1 + 2 < length q" "o1 + 1 < length q" "o1 < length q" using l q(2) by simp_all
  have g: "get q (int o1 + 4) = Some (sig F (p0 ! (o1 + 4)))" "get q (int o1) = Some (sig_xy F (p0 ! o1))"
    "get q (int o1 + 1) = Some (sig_xy F (p0 ! (o1 + 1)))" "get q (int o1 + 2) = Some (sig_wh F (p0 ! (o1 + 2)))"
    "get q (int o1 + 3) = Some (sig_wh F (p0 ! (o1 + 3)))"
    using get_off(1) [of o1 _ q] get_off(2) [of o1 q] get_nat [of o1 q] ql q0 by simp_all
  have m: "get masks (int (k div gg)) = Some ?m" using assms(6) by (rule get_nat)
  have b: "get_yolo_box F (sig_xy F (p0 ! o1)) (sig_xy F (p0 ! (o1 + 1))) (sig_wh F (p0 ! (o1 + 2))) (sig_wh F (p0 ! (o1 + 3))) anchors ?m
      (int (k mod gg) mod grid) (int (k mod gg) div grid) grid grid netw neth = Some (cell_box F netw neth grid masks anchors classes p0 k)"
    using assms(7,8) by (simp add: get_yolo_box_def cell_box_def get_def o1_def assms(9) Let_def)
  have d: "get dets (int count) = Some ?d" "length (prob ?d) = classes" using assms(4,5) by (simp_all add: get_nat)
  have "o1 + 5 + 0 + classes \<le> length q" "0 + classes \<le> length (prob ?d)" using o(1) q(2) d(2) by simp_all
  from prob_loop_spec [OF this, of F "sig F (p0 ! (o1 + 4))"]
  have pr: "prob_loop F q (sig F (p0 ! (o1 + 4))) (int o1) 0 classes (prob ?d) = Some (cell_probs F classes p0 k)"
    using d(2) qc by (simp add: cell_probs_def o1_def add.assoc)
  have "cell_step F netw neth grid masks (int (k div gg)) anchors classes t (int (k mod gg)) (int o1) (p, int count, dets) =
      Some (q, if cell_fires F classes t p0 k
        then (int (Suc count), fill dets count [cell_result F netw neth grid masks anchors classes p0 k]) else (int count, dets))"
    using x g m b d pr put_nat [OF assms(4)]
    by (simp add: cell_step_def Let_def cell_fires_def cell_result_def o1_def [symmetric])
  then show ?thesis using q(2) qj assms(2) by (auto simp: o1_def algebra_simps)
qed


lemma fill_probs:
  "\<forall>d \<in> set dets. length (prob d) = n \<Longrightarrow> \<forall>x \<in> set xs. length (snd x) = n \<Longrightarrow> \<forall>d \<in> set (fill dets c xs). length (prob d) = n"
proof (induction xs arbitrary: dets c)
  case (Cons x xs)
  have "\<forall>d \<in> set (dets[c := (dets ! c)\<lparr>bbox := fst x, prob := snd x\<rparr>]). length (prob d) = n"
    using Cons.prems by (auto dest!: set_update_subset_insert [THEN subsetD])
  then show ?case using Cons.IH Cons.prems(2) by simp
qed simp

definition cell_results :: "('f, 'd) nms_ops \<Rightarrow> int \<Rightarrow> int \<Rightarrow> int \<Rightarrow> int list \<Rightarrow> 'f list \<Rightarrow> nat \<Rightarrow> 'f \<Rightarrow> 'f list \<Rightarrow> nat \<Rightarrow> nat \<Rightarrow> ('f box \<times> 'f list) list" where
  "cell_results F netw neth grid masks anchors classes t p k n =
     map (cell_result F netw neth grid masks anchors classes p) (filter (cell_fires F classes t p) [k..<k + n])"

lemma cell_results_simps:
  "cell_results F netw neth grid masks anchors classes t p k 0 = []"
  "cell_results F netw neth grid masks anchors classes t p k (Suc n) =
     (if cell_fires F classes t p k then [cell_result F netw neth grid masks anchors classes p k] else []) @
     cell_results F netw neth grid masks anchors classes t p (Suc k) n"
  by (simp_all add: cell_results_def upt_conv_Cons del: upt_Suc)

lemma cell_results_add:
  "cell_results F netw neth grid masks anchors classes t p k (m + n) =
   cell_results F netw neth grid masks anchors classes t p k m @ cell_results F netw neth grid masks anchors classes t p (k + m) n"
proof -
  have "[k..<k + (m + n)] = [k..<k + m] @ [k + m..<k + m + n]" by (metis add.assoc le_add1 upt_add_eq_append)
  then show ?thesis by (simp add: cell_results_def)
qed

lemma cell_results_probs: "\<forall>x \<in> set (cell_results F netw neth grid masks anchors classes t p k n). length (snd x) = classes"
  by (auto simp: cell_results_def cell_result_def cell_probs_def)

lemma length_cell_results: "length (cell_results F netw neth grid masks anchors classes t p k n) \<le> n"
  unfolding cell_results_def length_map by (rule order_trans [OF length_filter_le]) simp

lemma cell_loop_exact:
  assumes "gg = nat (grid * grid)" "a < length masks" "0 \<le> masks ! a" "2 * masks ! a + 1 < int (length anchors)"
    and "k = a * gg + wh" "wh + n \<le> gg" "(k + n) * (5 + classes) \<le> length p" "length p = length p0"
    and "\<forall>j < length p. k * (5 + classes) \<le> j \<longrightarrow> p ! j = p0 ! j"
    and "count + n \<le> length dets" "\<forall>d \<in> set dets. length (prob d) = classes"
  shows "\<exists>q. cell_loop F netw neth grid masks (int a) anchors classes t (int wh) n (int (k * (5 + classes))) (p, int count, dets) =
      Some (q, int (count + length (cell_results F netw neth grid masks anchors classes t p0 k n)),
        fill dets count (cell_results F netw neth grid masks anchors classes t p0 k n)) \<and>
    length q = length p0 \<and> (\<forall>j < length q. (k + n) * (5 + classes) \<le> j \<longrightarrow> q ! j = p0 ! j)"
  using assms(5-11)
proof (induction n arbitrary: wh k p count dets)
  case 0
  then show ?case by (simp add: cell_results_simps)
next
  case (Suc n)
  let ?K = "5 + classes"
  have k: "k div gg = a" "k mod gg = wh" using Suc.prems(1,2) by simp_all
  have "Suc k * ?K \<le> (k + Suc n) * ?K" by (rule mult_le_mono1) simp
  from order_trans [OF this Suc.prems(3)] have len: "k * ?K + ?K \<le> length p" by (simp add: add.commute)
  let ?xs = "if cell_fires F classes t p0 k then [cell_result F netw neth grid masks anchors classes p0 k] else []"
  let ?c = "count + length ?xs" and ?d = "fill dets count ?xs"
  have "count < length dets" using Suc.prems(6) by simp
  from cell_step_exact [OF len Suc.prems(4,5) this Suc.prems(7), of gg masks anchors grid F netw neth t, unfolded k, OF assms(2,3,4,1)]
  obtain q where q: "cell_step F netw neth grid masks (int a) anchors classes t (int wh) (int (k * ?K)) (p, int count, dets) = Some (q, int ?c, ?d)"
    "length q = length p0" "\<forall>j < length q. Suc k * ?K \<le> j \<longrightarrow> q ! j = p0 ! j" by (auto split: if_splits)
  have "\<forall>x \<in> set ?xs. length (snd x) = classes" by (simp add: cell_result_def cell_probs_def)
  from fill_probs [OF Suc.prems(7) this] have pr: "\<forall>d \<in> set ?d. length (prob d) = classes" .
  have h: "Suc k = a * gg + Suc wh" "Suc wh + n \<le> gg" "(Suc k + n) * ?K \<le> length q" "?c + n \<le> length ?d"
    using Suc.prems q(2) by auto
  from Suc.IH [OF h(1-3) q(2,3) h(4) pr] obtain q1 where q1:
    "cell_loop F netw neth grid masks (int a) anchors classes t (int (Suc wh)) n (int (Suc k * ?K)) (q, int ?c, ?d) =
      Some (q1, int (?c + length (cell_results F netw neth grid masks anchors classes t p0 (Suc k) n)),
        fill ?d ?c (cell_results F netw neth grid masks anchors classes t p0 (Suc k) n))"
    "length q1 = length p0" "\<forall>j < length q1. (Suc k + n) * ?K \<le> j \<longrightarrow> q1 ! j = p0 ! j" by blast
  have e: "int (k * ?K) + (1 + 4 + int classes) = int (Suc k * ?K)" "int wh + 1 = int (Suc wh)" by simp_all
  have "cell_loop F netw neth grid masks (int a) anchors classes t (int wh) (Suc n) (int (k * ?K)) (p, int count, dets) =
      cell_loop F netw neth grid masks (int a) anchors classes t (int (Suc wh)) n (int (Suc k * ?K)) (q, int ?c, ?d)"
    unfolding cell_loop.simps q(1) e by simp
  then show ?case unfolding q1(1) cell_results_simps(2) fill_append length_append using q1(2,3) by (auto simp: add.assoc)
qed


lemma anchor_loop_exact:
  assumes "gg = nat (grid * grid)" "\<forall>m \<in> set masks. 0 \<le> m \<and> 2 * m + 1 < int (length anchors)"
    and "a + n \<le> length masks" "(a * gg + n * gg) * (5 + classes) \<le> length p" "length p = length p0"
    and "\<forall>j < length p. a * gg * (5 + classes) \<le> j \<longrightarrow> p ! j = p0 ! j"
    and "count + n * gg \<le> length dets" "\<forall>d \<in> set dets. length (prob d) = classes"
  shows "\<exists>q c. anchor_loop F netw neth grid masks anchors classes t (int a) n (int (a * gg * (5 + classes))) (p, int count, dets) =
      Some (q, c, fill dets count (cell_results F netw neth grid masks anchors classes t p0 (a * gg) (n * gg)))"
  using assms(3-8)
proof (induction n arbitrary: a p count dets)
  case 0
  then show ?case by (simp add: cell_results_simps)
next
  case (Suc n)
  let ?K = "5 + classes"
  let ?xs = "cell_results F netw neth grid masks anchors classes t p0 (a * gg) gg"
  let ?c = "count + length ?xs" and ?d = "fill dets count ?xs"
  have m: "a < length masks" "0 \<le> masks ! a" "2 * masks ! a + 1 < int (length anchors)" using assms(2) Suc.prems(1) by simp_all
  have "(a * gg + gg) * ?K \<le> (a * gg + Suc n * gg) * ?K" by (rule mult_le_mono1) simp
  then have len: "(a * gg + gg) * ?K \<le> length p" using Suc.prems(2) by linarith
  have cnt: "count + gg \<le> length dets" using Suc.prems(5) by simp
  from cell_loop_exact [OF assms(1) m, of "a * gg" 0 gg classes p p0 count dets F netw neth t] len Suc.prems(3,4,6) cnt
  obtain q where q: "cell_loop F netw neth grid masks (int a) anchors classes t 0 gg (int (a * gg * ?K)) (p, int count, dets) = Some (q, int ?c, ?d)"
    "length q = length p0" "\<forall>j < length q. (a * gg + gg) * ?K \<le> j \<longrightarrow> q ! j = p0 ! j" by auto
  have pr: "\<forall>d \<in> set ?d. length (prob d) = classes" by (rule fill_probs [OF Suc.prems(6) cell_results_probs])
  have s: "a * gg + gg = Suc a * gg" "a * gg + Suc n * gg = Suc a * gg + n * gg" by simp_all
  have h: "Suc a + n \<le> length masks" "(Suc a * gg + n * gg) * ?K \<le> length q" "?c + n * gg \<le> length ?d"
    using Suc.prems(1,2,3,5) q(2) length_cell_results [of F netw neth grid masks anchors classes t p0 "a * gg" gg] unfolding s by simp_all
  from Suc.IH [OF h(1,2) q(2) q(3) [unfolded s] h(3) pr] obtain q1 c1 where q1:
    "anchor_loop F netw neth grid masks anchors classes t (int (Suc a)) n (int (Suc a * gg * ?K)) (q, int ?c, ?d) =
      Some (q1, c1, fill ?d ?c (cell_results F netw neth grid masks anchors classes t p0 (Suc a * gg) (n * gg)))" by blast
  have "int gg = grid * grid" unfolding assms(1) by simp
  then have gr: "grid * grid = int gg" by simp
  have e: "int (a * gg * ?K) + grid * grid * (1 + 4 + int classes) = int (Suc a * gg * ?K)" "int a + 1 = int (Suc a)"
    unfolding gr by (simp_all add: algebra_simps)
  have "anchor_loop F netw neth grid masks anchors classes t (int a) (Suc n) (int (a * gg * ?K)) (p, int count, dets) =
      anchor_loop F netw neth grid masks anchors classes t (int (Suc a)) n (int (Suc a * gg * ?K)) (q, int ?c, ?d)"
    unfolding anchor_loop.simps assms(1) [symmetric] q(1) e by simp
  also note q1
  also have "fill ?d ?c (cell_results F netw neth grid masks anchors classes t p0 (Suc a * gg) (n * gg)) =
      fill dets count (cell_results F netw neth grid masks anchors classes t p0 (a * gg) (Suc n * gg))"
    unfolding mult_Suc [of n] cell_results_add s(1) fill_append ..
  finally show ?case by blast
qed

text \<open>A grid's results are written to its part of the detections, one after the other.\<close>

lemma get_network_boxes_exact:
  assumes "gg = nat (grid * grid)" "\<forall>m \<in> set masks. 0 \<le> m \<and> 2 * m + 1 < int (length anchors)" "length masks = 3"
    and "length p = 3 * gg * (5 + classes)" "off + 3 * gg \<le> length dets" "\<forall>d \<in> set dets. length (prob d) = classes"
  shows "\<exists>q. get_network_boxes F p netw neth grid masks anchors (int off) classes t dets =
    Some (q, fill dets off (grid_results F netw neth grid masks anchors classes t p))"
proof -
  have "grid_results F netw neth grid masks anchors classes t p = cell_results F netw neth grid masks anchors classes t p (0 * gg) (3 * gg)"
    by (simp add: grid_results_def cell_results_def assms(1))
  moreover have "\<exists>q c. anchor_loop F netw neth grid masks anchors classes t (int 0) 3 (int (0 * gg * (5 + classes))) (p, int off, dets) =
      Some (q, c, fill dets off (cell_results F netw neth grid masks anchors classes t p (0 * gg) (3 * gg)))"
    using assms(3-6) by (intro anchor_loop_exact [OF assms(1,2)]) simp_all
  ultimately show ?thesis by (auto simp: get_network_boxes_def nanchor_def)
qed


section \<open>The boxes of a network\<close>

definition yolo_anchors :: "('f, 'd) nms_ops \<Rightarrow> 'f list" where
  "yolo_anchors F = map (fl_of_int F) [10, 13, 16, 30, 33, 23, 30, 61, 62, 45, 59, 119, 116, 90, 156, 198, 373, 326]"

definition network_results :: "('f, 'd) nms_ops \<Rightarrow> int \<Rightarrow> int \<Rightarrow> nat \<Rightarrow> 'f \<Rightarrow> 'f list \<Rightarrow> 'f list \<Rightarrow> 'f list \<Rightarrow> ('f box \<times> 'f list) list" where
  "network_results F netw neth classes t o0 o1 o2 =
     grid_results F netw neth GRID0 [0, 1, 2] (yolo_anchors F) classes t o0 @
     grid_results F netw neth GRID1 [3, 4, 5] (yolo_anchors F) classes t o1 @
     grid_results F netw neth GRID2 [6, 7, 8] (yolo_anchors F) classes t o2"

definition network_boxes :: "('f, 'd) nms_ops \<Rightarrow> int \<Rightarrow> int \<Rightarrow> nat \<Rightarrow> 'f \<Rightarrow> 'f \<Rightarrow> 'f \<Rightarrow> 'f list \<Rightarrow> 'f list \<Rightarrow> 'f list \<Rightarrow> 'f detection list" where
  "network_boxes F netw neth classes obj iou draw o0 o1 o2 = nms_reference F iou (candidates F classes draw
     (map (\<lambda>x. \<lparr>sort_class = 0, prob = snd x, bbox = fst x\<rparr>) (network_results F netw neth classes obj o0 o1 o2)))"

lemma candidates_append: "candidates F classes draw (ds @ es) = candidates F classes draw ds @ candidates F classes draw es"
  by (simp add: candidates_def)

lemma candidates_blank:
  assumes "zero_law F" "\<forall>x. fl_less F draw x \<longrightarrow> fl_less F (fl_zero F) x" "1 \<le> classes" "prob d = replicate classes (fl_zero F)"
  shows "candidates F classes draw (replicate n d) = []"
proof -
  have "length (prob d) = classes" using assms(4) by simp
  note b = best_class_some(2,3) [OF this assms(3), of F]
  have "snd (best_class F classes d) = fl_zero F"
    using b assms(4) by (simp add: score_def class_ok_def nat_less_iff)
  then have "\<not> fl_less F draw (snd (best_class F classes d))" using assms(1,2) by (auto simp: zero_law_def)
  then show ?thesis by (simp add: candidates_def)
qed

lemma candidates_class:
  "candidates F classes draw (map (\<lambda>x. d\<lparr>bbox := fst x, prob := snd x\<rparr>) xs) =
   candidates F classes draw (map (\<lambda>x. \<lparr>sort_class = 0, prob = snd x, bbox = fst x\<rparr>) xs)"
  by (induction xs) (auto simp: candidates_def classified_def best_class_def)

lemma grid_results_length: "length (grid_results F netw neth grid masks anchors classes t p) \<le> 3 * nat (grid * grid)"
  unfolding grid_results_def length_map by (rule order_trans [OF length_filter_le]) simp

lemma grid_results_probs: "x \<in> set (grid_results F netw neth grid masks anchors classes t p) \<Longrightarrow> length (snd x) = classes"
  by (auto simp: grid_results_def cell_result_def cell_probs_def)

text \<open>A part of the detections after its grid: the boxes found, and blank detections.\<close>

definition block :: "'f detection \<Rightarrow> nat \<Rightarrow> ('f box \<times> 'f list) list \<Rightarrow> 'f detection list" where
  "block d n xs = map (\<lambda>x. d\<lparr>bbox := fst x, prob := snd x\<rparr>) xs @ replicate (n - length xs) d"

lemma length_block: "length xs \<le> n \<Longrightarrow> length (block d n xs) = n"
  by (simp add: block_def)

lemma block_probs:
  "length (prob d) = classes \<Longrightarrow> e \<in> set (block d n (grid_results F netw neth grid masks anchors classes t p)) \<Longrightarrow> length (prob e) = classes"
  by (auto simp: block_def dest: grid_results_probs)

lemma get_network_boxes_block:
  assumes "n = 3 * nat (grid * grid)" "\<forall>m \<in> set masks. 0 \<le> m \<and> 2 * m + 1 < int (length anchors)" "length masks = 3"
    and "length p = n * (5 + classes)" "length pre = off" "\<forall>e \<in> set pre \<union> set post \<union> {d}. length (prob e) = classes"
  shows "\<exists>q. get_network_boxes F p netw neth grid masks anchors (int off) classes t (pre @ replicate n d @ post) =
    Some (q, pre @ block d n (grid_results F netw neth grid masks anchors classes t p) @ post)"
proof -
  have "off + 3 * nat (grid * grid) \<le> length (pre @ replicate n d @ post)" using assms(1,5) by simp
  moreover have "\<forall>e \<in> set (pre @ replicate n d @ post). length (prob e) = classes" using assms(6) by auto
  moreover have "length (grid_results F netw neth grid masks anchors classes t p) \<le> n" unfolding assms(1) by (rule grid_results_length)
  ultimately show ?thesis
    using get_network_boxes_exact [OF refl assms(2,3), where grid = grid and p = p and classes = classes and off = off and
        dets = "pre @ replicate n d @ post" and F = F and netw = netw and neth = neth and t = t]
      fill_blank [of "grid_results F netw neth grid masks anchors classes t p" n pre d post] assms(1,4,5)
    by (simp add: block_def)
qed

lemma candidates_block:
  assumes "zero_law F" "\<forall>x. fl_less F draw x \<longrightarrow> fl_less F (fl_zero F) x" "1 \<le> classes" "prob d = replicate classes (fl_zero F)"
  shows "candidates F classes draw (block d n xs) =
    candidates F classes draw (map (\<lambda>x. \<lparr>sort_class = 0, prob = snd x, bbox = fst x\<rparr>) xs)"
  unfolding block_def candidates_append candidates_blank [OF assms] candidates_class by simp

lemma outputs_transform_exact:
  assumes "zero_law F" "\<forall>x. fl_less F draw x \<longrightarrow> fl_less F (fl_zero F) x" "1 \<le> classes" "prob d = replicate classes (fl_zero F)"
    and "int (length o0) = nboxes_0 * (5 + int classes)" "int (length o1) = nboxes_1 * (5 + int classes)" "int (length o2) = nboxes_2 * (5 + int classes)"
    and "bs = network_boxes F netw neth classes obj iou draw o0 o1 o2"
  shows "\<exists>dets1. outputs_transform F [extra, o0, o1, o2] netw neth classes obj iou draw (replicate (nat nboxes_total) d) = Some (dets1, int (length bs)) \<and>
    length dets1 = nat nboxes_total \<and> length bs \<le> nat nboxes_total \<and> take (length bs) dets1 = bs"
proof -
  let ?A = "yolo_anchors F"
  define b0 where "b0 = block d 19200 (grid_results F netw neth 80 [0, 1, 2] ?A classes obj o0)"
  define b1 where "b1 = block d 4800 (grid_results F netw neth 40 [3, 4, 5] ?A classes obj o1)"
  define b2 where "b2 = block d 1200 (grid_results F netw neth 20 [6, 7, 8] ?A classes obj o2)"
  have l: "length o0 = 19200 * (5 + classes)" "length o1 = 4800 * (5 + classes)" "length o2 = 1200 * (5 + classes)"
    using assms(5-7) unfolding nboxes_values by simp_all
  have m: "\<forall>m \<in> set [0, 1, 2]. 0 \<le> m \<and> 2 * m + 1 < int (length ?A)" "\<forall>m \<in> set [3, 4, 5]. 0 \<le> m \<and> 2 * m + 1 < int (length ?A)"
    "\<forall>m \<in> set [6, 7, 8]. 0 \<le> m \<and> 2 * m + 1 < int (length ?A)" by (simp_all add: yolo_anchors_def)
  have pr: "length (prob d) = classes" using assms(4) by simp
  have lb: "length b0 = 19200" "length b1 = 4800" "length b2 = 1200"
    unfolding b0_def b1_def b2_def by (rule length_block, rule order_trans [OF grid_results_length], simp)+
  have pb: "\<forall>e \<in> set b0. length (prob e) = classes" "\<forall>e \<in> set b1. length (prob e) = classes" "\<forall>e \<in> set b2. length (prob e) = classes"
    unfolding b0_def b1_def b2_def using block_probs [OF pr] by blast+
  define c where "c = replicate 1200 d"
  define r where "r = replicate 4800 d @ c"
  have pc: "\<forall>e \<in> set r. length (prob e) = classes" "\<forall>e \<in> set c. length (prob e) = classes" using pr by (auto simp: c_def r_def)
  have all: "replicate 25200 d = [] @ replicate 19200 d @ r"
    unfolding r_def c_def append_Nil replicate_add [symmetric] by (rule arg_cong2 [of _ _ _ _ replicate]) simp_all
  have "\<exists>q. get_network_boxes F o0 netw neth 80 [0, 1, 2] ?A (int 0) classes obj ([] @ replicate 19200 d @ r) = Some (q, [] @ b0 @ r)"
    unfolding b0_def using l(1) pr pc by (intro get_network_boxes_block m) auto
  then obtain q0 where s0: "get_network_boxes F o0 netw neth 80 [0, 1, 2] ?A 0 classes obj (replicate 25200 d) = Some (q0, b0 @ r)"
    unfolding all by auto
  have "\<exists>q. get_network_boxes F o1 netw neth 40 [3, 4, 5] ?A (int 19200) classes obj (b0 @ replicate 4800 d @ c) = Some (q, b0 @ b1 @ c)"
    unfolding b1_def using l(2) pr pc pb lb(1) by (intro get_network_boxes_block m) auto
  then obtain q1 where s1: "get_network_boxes F o1 netw neth 40 [3, 4, 5] ?A 19200 classes obj (b0 @ r) = Some (q1, b0 @ b1 @ c)"
    unfolding r_def by auto
  have "\<exists>q. get_network_boxes F o2 netw neth 20 [6, 7, 8] ?A (int 24000) classes obj ((b0 @ b1) @ replicate 1200 d @ []) = Some (q, (b0 @ b1) @ b2 @ [])"
    unfolding b2_def using l(3) pr pb lb(1,2) by (intro get_network_boxes_block m) auto
  then obtain q2 where s2: "get_network_boxes F o2 netw neth 20 [6, 7, 8] ?A 24000 classes obj (b0 @ b1 @ c) = Some (q2, b0 @ b1 @ b2)"
    unfolding c_def by auto
  let ?d = "b0 @ b1 @ b2"
  have ld: "length ?d = 25200" using lb by simp
  then have ld1: "25200 \<le> length ?d" by simp
  have pd: "\<forall>e \<in> set ?d. length (prob e) = classes" using pb by auto
  have tk: "take 25200 ?d = ?d" using ld by simp
  have cd: "nms_reference F iou (candidates F classes draw ?d) = bs"
    unfolding candidates_append b0_def b1_def b2_def candidates_block [OF assms(1-4)] assms(8) network_boxes_def network_results_def
      map_append candidates_append GRID0_def GRID1_def GRID2_def ..
  obtain dets1 ks where n: "do_nms_sort F ?d (int 25200) classes iou draw = Some (dets1, int (length ks))" "length dets1 = length ?d"
    "length ks \<le> 25200" "take (length ks) dets1 = map ((!) (candidates F classes draw ?d)) ks" "map ((!) (candidates F classes draw ?d)) ks = bs"
    using do_nms_sort_spec [OF assms(1-3) pd ld1, of iou] unfolding tk cd by blast
  have "length ks = length bs" using arg_cong [OF n(5), of length] by simp
  moreover have "outputs_transform F [extra, o0, o1, o2] netw neth classes obj iou draw (replicate (nat nboxes_total) d) = Some (dets1, int (length ks))"
    unfolding outputs_transform_def Let_def nboxes_values GRID0_def GRID1_def GRID2_def yolo_anchors_def [symmetric]
    using s0 s1 s2 n(1) by (simp add: get_def)
  ultimately show ?thesis using n(2-5) ld by (simp add: nboxes_values)
qed


text \<open>An example: two neighbouring cells of the coarsest grid fire with the same scores, and the first loses.\<close>

definition net_ops :: "(rat, rat) nms_ops" where
  "net_ops = rat_ops\<lparr>fl_exp := (\<lambda>x. if x \<le> 0 then 0 else 9)\<rparr>"

definition example_out :: "rat list" where
  "example_out = replicate 62 1 @ replicate 37138 (- 1)"

definition example_box :: "rat detection" where
  "example_box = \<lparr>sort_class = 0, prob = replicate 26 1, bbox = \<lparr>box_x = 1 / 8, box_y = 3 / 40, box_w = 29 / 40, box_h = 9 / 16\<rparr>\<rparr>"

lemma net_ops_laws: "zero_law net_ops" "\<forall>x. fl_less net_ops (2 / 5) x \<longrightarrow> fl_less net_ops (fl_zero net_ops) x"
  by (simp_all add: zero_law_def net_ops_def rat_ops_def)

lemma net_ops_sig: "sig net_ops 1 = 1" "sig net_ops (- 1) = 1 / 10" "sig_xy net_ops 1 = 3 / 2" "sig_wh net_ops 1 = 4"
  by (simp_all add: sig_def sig_xy_def sig_wh_def logistic_def net_ops_def rat_ops_def)

lemma grid_results_low:
  assumes "n = 3 * nat (grid * grid)"
  shows "grid_results net_ops netw neth grid masks anchors 26 (2 / 5) (replicate (n * 31) (- 1)) = []"
proof -
  have "k * 31 + 4 < n * 31" if "k < n" for k using that by simp
  then have "\<not> cell_fires net_ops 26 (2 / 5) (replicate (n * 31) (- 1)) k" if "k < n" for k
    using that by (simp add: cell_fires_def net_ops_sig) (simp add: net_ops_def rat_ops_def)
  then show ?thesis unfolding grid_results_def assms by (auto simp: filter_empty_conv)
qed

lemma example_out_nth: "j < 62 \<Longrightarrow> example_out ! j = 1" "62 \<le> j \<Longrightarrow> j < 37200 \<Longrightarrow> example_out ! j = - 1"
  unfolding example_out_def nth_append length_replicate by simp_all

lemma filter_first_two:
  assumes "2 \<le> n" "\<And>k. k < n \<Longrightarrow> P k \<longleftrightarrow> k < 2"
  shows "filter P [0..<n] = [0, 1]"
proof -
  obtain m where n: "n = 2 + m" using assms(1) le_Suc_ex by blast
  have "[0..<n] = [0, 1] @ [2..<n]" unfolding n by (simp add: upt_conv_Cons numeral_2_eq_2 del: upt_Suc)
  moreover have "filter P [2..<n] = []" using assms(2) by (auto simp: filter_empty_conv)
  ultimately show ?thesis using assms by simp
qed

lemma example_grid:
  "grid_results net_ops 640 640 20 [6, 7, 8] (yolo_anchors net_ops) 26 (2 / 5) example_out =
   [(\<lparr>box_x = 3 / 40, box_y = 3 / 40, box_w = 29 / 40, box_h = 9 / 16\<rparr>, replicate 26 1), (bbox example_box, replicate 26 1)]"
proof -
  define N where "N = 3 * nat (20 * 20)"
  have N: "N = 1200" by (simp add: N_def)
  have "cell_fires net_ops 26 (2 / 5) example_out k \<longleftrightarrow> k < 2" if "k < N" for k
    using example_out_nth [of "k * 31 + 4"] that unfolding N
    by (cases "k < 2") (simp_all add: cell_fires_def net_ops_sig, simp_all add: net_ops_def rat_ops_def)
  then have "filter (cell_fires net_ops 26 (2 / 5) example_out) [0..<N] = [0, 1]" by (intro filter_first_two) (simp_all add: N)
  moreover have "cell_probs net_ops 26 example_out k = replicate 26 1" if "k < 2" for k
  proof -
    have "cell_probs net_ops 26 example_out k = map (\<lambda>c. 1) [0..<26]"
      unfolding cell_probs_def using that by (intro map_cong refl) (simp add: example_out_nth net_ops_sig, simp add: net_ops_def rat_ops_def)
    then show ?thesis by (simp add: map_replicate_const)
  qed
  moreover have "cell_box net_ops 640 640 20 [6, 7, 8] (yolo_anchors net_ops) 26 example_out 0 =
      \<lparr>box_x = 3 / 40, box_y = 3 / 40, box_w = 29 / 40, box_h = 9 / 16\<rparr>"
    by (simp add: cell_box_def Let_def example_out_nth net_ops_sig yolo_anchors_def) (simp add: net_ops_def rat_ops_def)
  moreover have "cell_box net_ops 640 640 20 [6, 7, 8] (yolo_anchors net_ops) 26 example_out 1 = bbox example_box"
    by (simp add: cell_box_def Let_def example_out_nth net_ops_sig yolo_anchors_def example_box_def) (simp add: net_ops_def rat_ops_def)
  ultimately show ?thesis unfolding grid_results_def N_def [symmetric] by (simp add: cell_result_def)
qed

lemma example_network:
  "network_boxes net_ops 640 640 26 (2 / 5) (2 / 5) (2 / 5) (replicate 595200 (- 1)) (replicate 148800 (- 1)) example_out = [example_box]"
proof -
  have "network_results net_ops 640 640 26 (2 / 5) (replicate 595200 (- 1)) (replicate 148800 (- 1)) example_out =
      [(\<lparr>box_x = 3 / 40, box_y = 3 / 40, box_w = 29 / 40, box_h = 9 / 16\<rparr>, replicate 26 1), (bbox example_box, replicate 26 1)]"
    using grid_results_low [of 19200 80] grid_results_low [of 4800 40] example_grid
    by (simp add: network_results_def GRID0_def GRID1_def GRID2_def)
  then have "network_boxes net_ops 640 640 26 (2 / 5) (2 / 5) (2 / 5) (replicate 595200 (- 1)) (replicate 148800 (- 1)) example_out =
    nms_reference net_ops (2 / 5) (candidates net_ops 26 (2 / 5)
      [\<lparr>sort_class = 0, prob = replicate 26 1, bbox = \<lparr>box_x = 3 / 40, box_y = 3 / 40, box_w = 29 / 40, box_h = 9 / 16\<rparr>\<rparr>, example_box])"
    by (simp add: network_boxes_def example_box_def)
  also have "\<dots> = [example_box]" by code_simp
  finally show ?thesis .
qed


text \<open>The conversion of the outputs is the list specification: with outputs of the three grids' sizes, the
  boxes returned are those of the cells whose objectness passes the threshold - each with its place in the grid,
  its anchor and its scores - less the ones whose best class does not pass the threshold and the suppressed ones.\<close>

theorem outputs_decoded:
  assumes "zero_law F" "\<forall>x. fl_less F draw x \<longrightarrow> fl_less F (fl_zero F) x" "1 \<le> classes" "prob d = replicate classes (fl_zero F)"
    and "int (length o0) = nboxes_0 * (5 + int classes)" "int (length o1) = nboxes_1 * (5 + int classes)" "int (length o2) = nboxes_2 * (5 + int classes)"
    and "bs = network_boxes F netw neth classes obj iou draw o0 o1 o2"
  shows "\<exists>dets1. outputs_transform F [extra, o0, o1, o2] netw neth classes obj iou draw (replicate (nat nboxes_total) d) = Some (dets1, int (length bs)) \<and>
    length dets1 = nat nboxes_total \<and> length bs \<le> nat nboxes_total \<and> take (length bs) dets1 = bs"
  using assms by (rule outputs_transform_exact)

theorem outputs_decoded_witness:
  "\<exists>dets1. outputs_transform net_ops [[], replicate 595200 (- 1), replicate 148800 (- 1), example_out] 640 640 26 (2 / 5) (2 / 5) (2 / 5)
      (replicate (nat nboxes_total) (example_box\<lparr>prob := replicate 26 0\<rparr>)) = Some (dets1, 1) \<and> take 1 dets1 = [example_box]"
proof -
  have z: "prob (example_box\<lparr>prob := replicate 26 0\<rparr>) = replicate 26 (fl_zero net_ops)" by (simp add: net_ops_def rat_ops_def)
  have l: "int (length (replicate 595200 (- 1 :: rat))) = nboxes_0 * (5 + int 26)" "int (length (replicate 148800 (- 1 :: rat))) = nboxes_1 * (5 + int 26)"
    "int (length example_out) = nboxes_2 * (5 + int 26)" by (simp_all add: nboxes_values example_out_def)
  have one: "1 \<le> (26 :: nat)" by simp
  from outputs_decoded [OF net_ops_laws one z l refl, where netw = 640 and neth = 640 and obj = "2 / 5" and iou = "2 / 5" and extra = "[]"] show ?thesis unfolding example_network by auto
qed

end
