(* ===== verification/VideoQueue.thy ===== *)
theory VideoQueue
  imports Prelude "HOL-Library.Sublist"
begin

text \<open>
  The picture queues of a camera (transfer/rtsp/net/VideoQueue.h and .cpp) and their manager
  (VideoQueueMng.cpp). A camera has three bounded queues, one per kind of consumer; every
  picture is offered to all three, and a queue that is full does not take it.
  A \<open>cv::Mat\<close> is its size and its pixel bytes; \<open>boost::circular_buffer\<close> is a list with a
  capacity, with the operations of its documentation. The locale of bounded queues states what a
  consumer relies on; it is interpreted on each of the three queues.
\<close>

section \<open>Data\<close>

record Mat =
  mat_rows :: int
  mat_cols :: int
  mat_data :: "byte list"

definition mat_empty :: "Mat \<Rightarrow> bool" where
  "mat_empty m \<longleftrightarrow> mat_data m = []"

definition no_mat :: Mat where
  "no_mat = \<lparr>mat_rows = 0, mat_cols = 0, mat_data = []\<rparr>"

record st_cvMat =
  strShotTime :: string
  srcMat :: Mat

datatype eActType = NonSelfDef | SelfDef

datatype eQueueType = FaceQueue | ActQueue | SelfDefActQueue

fun queue_index :: "eQueueType \<Rightarrow> nat" where
  "queue_index FaceQueue = 0"
| "queue_index ActQueue = 1"
| "queue_index SelfDefActQueue = 2"

definition gTaskQueueNum :: nat where "gTaskQueueNum = 3"
definition gTaskQueueCapacity :: nat where "gTaskQueueCapacity = 2"

text \<open>\<open>boost::circular_buffer\<close>: a full buffer that is pushed to loses its front element.\<close>

record 'a circular_buffer =
  cb_capacity :: nat
  cb_items :: "'a list"

definition cb_full :: "'a circular_buffer \<Rightarrow> bool" where
  "cb_full b \<longleftrightarrow> length (cb_items b) = cb_capacity b"

definition cb_push_back :: "'a \<Rightarrow> 'a circular_buffer \<Rightarrow> 'a circular_buffer" where
  "cb_push_back x b = (if cb_full b
     then if cb_capacity b = 0 then b else b\<lparr>cb_items := tl (cb_items b) @ [x]\<rparr>
     else b\<lparr>cb_items := cb_items b @ [x]\<rparr>)"

definition cb_pop_front :: "'a circular_buffer \<Rightarrow> 'a circular_buffer" where
  "cb_pop_front b = b\<lparr>cb_items := tl (cb_items b)\<rparr>"

record CVSQueue =
  m_s32Height :: int
  m_s32Width :: int
  m_VideoStreamQue :: "st_cvMat circular_buffer list"

section \<open>Operations of a queue object\<close>

definition new_CVSQueue :: CVSQueue where
  "new_CVSQueue = \<lparr>m_s32Height = 0, m_s32Width = 0,
     m_VideoStreamQue = replicate gTaskQueueNum \<lparr>cb_capacity = gTaskQueueCapacity, cb_items = []\<rparr>\<rparr>"

definition release_mat :: "st_cvMat \<Rightarrow> st_cvMat" where
  "release_mat s = (if mat_empty (srcMat s) then s else s\<lparr>srcMat := no_mat\<rparr>)"

definition ReleaseQueue :: "CVSQueue \<Rightarrow> CVSQueue" where
  "ReleaseQueue q = q\<lparr>m_VideoStreamQue :=
     map (\<lambda>b. b\<lparr>cb_items := map release_mat (cb_items b)\<rparr>) (m_VideoStreamQue q)\<rparr>"

text \<open>The loop both \<open>Push\<close> functions end with.\<close>

definition offer :: "st_cvMat \<Rightarrow> CVSQueue \<Rightarrow> CVSQueue" where
  "offer x q = q\<lparr>m_VideoStreamQue :=
     map (\<lambda>b. if \<not> cb_full b then cb_push_back x b else b) (m_VideoStreamQue q)\<rparr>"

text \<open>
  \<open>Push(const BYTE*)\<close> copies \<open>m_s32Width * m_s32Height * 3\<close> bytes from the decoder's
  buffer: \<^term>\<open>None\<close> when the product overflows, when the matrix would have a negative
  dimension, or when the buffer is shorter.
\<close>

definition PushBytes :: "string \<Rightarrow> byte list \<Rightarrow> CVSQueue \<Rightarrow> CVSQueue option" where
  "PushBytes CurTime src q =
     (if m_s32Height q < 0 \<or> m_s32Width q < 0 then None else do {
        wh \<leftarrow> i32 (m_s32Width q * m_s32Height q);
        n \<leftarrow> i32 (wh * 3);
        pixels \<leftarrow> rd src 0 n;
        Some (offer \<lparr>strShotTime = CurTime,
          srcMat = \<lparr>mat_rows = m_s32Height q, mat_cols = m_s32Width q, mat_data = pixels\<rparr>\<rparr> q)})"

definition PushMat :: "string \<Rightarrow> Mat \<Rightarrow> CVSQueue \<Rightarrow> CVSQueue" where
  "PushMat CurTime cvMat q = offer \<lparr>strShotTime = CurTime, srcMat = cvMat\<rparr> q"

text \<open>The caller's matrix is an output parameter: it keeps its value when the queue is empty.\<close>

definition PopQueue :: "eQueueType \<Rightarrow> st_cvMat \<Rightarrow> CVSQueue \<Rightarrow> st_cvMat \<times> CVSQueue" where
  "PopQueue QueueType out q = (let b = m_VideoStreamQue q ! queue_index QueueType in
     case cb_items b of
       [] \<Rightarrow> (out, q)
     | x # _ \<Rightarrow> (x, q\<lparr>m_VideoStreamQue :=
         (m_VideoStreamQue q)[queue_index QueueType := cb_pop_front b]\<rparr>))"

definition QueueGetActImage :: "st_cvMat \<Rightarrow> CVSQueue \<Rightarrow> st_cvMat \<times> CVSQueue" where
  "QueueGetActImage = PopQueue ActQueue"

definition QueueGetSelfDefActImage :: "st_cvMat \<Rightarrow> CVSQueue \<Rightarrow> st_cvMat \<times> CVSQueue" where
  "QueueGetSelfDefActImage = PopQueue SelfDefActQueue"

definition QueueGetCmmImage :: "st_cvMat \<Rightarrow> CVSQueue \<Rightarrow> st_cvMat \<times> CVSQueue" where
  "QueueGetCmmImage = PopQueue FaceQueue"

definition GetFaceQueSize :: "CVSQueue \<Rightarrow> nat" where
  "GetFaceQueSize q = length (cb_items (m_VideoStreamQue q ! queue_index FaceQueue))"

definition GetActQueSize :: "CVSQueue \<Rightarrow> nat" where
  "GetActQueSize q = length (cb_items (m_VideoStreamQue q ! queue_index ActQueue))"

definition SetFirstPicSize :: "int \<Rightarrow> int \<Rightarrow> CVSQueue \<Rightarrow> CVSQueue" where
  "SetFirstPicSize h w q = q\<lparr>m_s32Height := h, m_s32Width := w\<rparr>"

section \<open>Well-formed queue objects\<close>

definition waiting :: "eQueueType \<Rightarrow> CVSQueue \<Rightarrow> st_cvMat list" where
  "waiting t q = cb_items (m_VideoStreamQue q ! queue_index t)"

definition queue_wf :: "CVSQueue \<Rightarrow> bool" where
  "queue_wf q \<longleftrightarrow> length (m_VideoStreamQue q) = 3 \<and>
     (\<forall>b \<in> set (m_VideoStreamQue q). cb_capacity b = 2 \<and> length (cb_items b) \<le> 2)"

lemma queue_index_less: "queue_index t < 3"
  by (cases t) auto

lemma queue_index_inj: "queue_index t = queue_index u \<longleftrightarrow> t = u"
  by (cases t; cases u) auto

lemma queue_wf_nth:
  "queue_wf q \<Longrightarrow> cb_capacity (m_VideoStreamQue q ! queue_index t) = 2 \<and>
     length (cb_items (m_VideoStreamQue q ! queue_index t)) \<le> 2"
  unfolding queue_wf_def by (metis nth_mem queue_index_less)

lemma new_CVSQueue_wf: "queue_wf new_CVSQueue"
  by (simp add: queue_wf_def new_CVSQueue_def gTaskQueueNum_def gTaskQueueCapacity_def)

lemma waiting_new: "waiting t new_CVSQueue = []"
  by (cases t) (simp_all add: waiting_def new_CVSQueue_def gTaskQueueNum_def numeral_3_eq_3)

lemma offer_wf: "queue_wf q \<Longrightarrow> queue_wf (offer x q)"
  by (auto simp: queue_wf_def offer_def cb_push_back_def cb_full_def)

lemma waiting_offer:
  assumes "queue_wf q"
  shows "waiting t (offer x q) =
    (if length (waiting t q) < 2 then waiting t q @ [x] else waiting t q)"
proof -
  have "queue_index t < length (m_VideoStreamQue q)"
    using assms queue_index_less by (simp add: queue_wf_def)
  then show ?thesis
    using queue_wf_nth [OF assms, of t]
    by (auto simp: waiting_def offer_def cb_push_back_def cb_full_def)
qed

lemma PopQueue_wf:
  assumes "queue_wf q"
  shows "queue_wf (snd (PopQueue t out q))"
proof -
  let ?b = "m_VideoStreamQue q ! queue_index t"
  have "length (cb_items (cb_pop_front ?b)) \<le> 2" "cb_capacity (cb_pop_front ?b) = 2"
    using queue_wf_nth [OF assms, of t] by (auto simp: cb_pop_front_def)
  then show ?thesis
    using assms by (auto simp: PopQueue_def queue_wf_def Let_def split: list.splits
      dest!: set_update_subset_insert [THEN subsetD])
qed

lemma PopQueue_waiting:
  assumes "queue_wf q"
  shows "waiting u (snd (PopQueue t out q)) = (if u = t then tl (waiting t q) else waiting u q)"
    and "fst (PopQueue t out q) = (case waiting t q of [] \<Rightarrow> out | x # _ \<Rightarrow> x)"
proof -
  have "queue_index t < length (m_VideoStreamQue q)"
    using assms queue_index_less by (simp add: queue_wf_def)
  then show "waiting u (snd (PopQueue t out q)) = (if u = t then tl (waiting t q) else waiting u q)"
    using queue_index_inj [of t u] queue_index_inj [of u t]
    by (auto simp: waiting_def PopQueue_def cb_pop_front_def Let_def nth_list_update
        split: list.splits)
  show "fst (PopQueue t out q) = (case waiting t q of [] \<Rightarrow> out | x # _ \<Rightarrow> x)"
    by (simp add: waiting_def PopQueue_def Let_def split: list.splits)
qed

section \<open>Bounded queues that refuse what does not fit\<close>

text \<open>
  The interface of a picture queue, as its producer and consumer see it: a step gives out some
  pictures and is offered at most one; the queue takes the offer exactly when it has room, and gives
  out from the front. Over any run the pictures given out and the ones still waiting are then
  the ones that were taken, in order.
\<close>

locale bounded_queue =
  fixes qstep :: "'op \<Rightarrow> 's \<Rightarrow> ('a list \<times> 's) option"
    and offers :: "'op \<Rightarrow> 's \<Rightarrow> 'a list"
    and content :: "'s \<Rightarrow> 'a list"
    and good :: "'s \<Rightarrow> bool"
    and cap :: nat
  assumes step_good: "good s \<Longrightarrow> qstep p s = Some (out, s') \<Longrightarrow> good s'"
    and content_bounded: "good s \<Longrightarrow> length (content s) \<le> cap"
    and step_exact: "good s \<Longrightarrow> qstep p s = Some (out, s') \<Longrightarrow>
      out @ content s' = content s @ (if length (content s) < cap then offers p s else [])"
begin

primrec run :: "'op list \<Rightarrow> 's \<Rightarrow> ('a list \<times> 'a list \<times> 's) option" where
  "run [] s = Some ([], [], s)"
| "run (p # ps) s = (case qstep p s of None \<Rightarrow> None | Some (out, s1) \<Rightarrow>
     (case run ps s1 of None \<Rightarrow> None | Some (outs, offs, s2) \<Rightarrow>
        Some (out @ outs, offers p s @ offs, s2)))"

lemma run_good: "good s \<Longrightarrow> run ps s = Some (outs, offs, s') \<Longrightarrow> good s'"
  by (induction ps arbitrary: s outs offs)
    (auto split: option.splits, metis step_good)

lemma run_fifo:
  "good s \<Longrightarrow> run ps s = Some (outs, offs, s') \<Longrightarrow>
   subseq (outs @ content s') (content s @ offs)"
proof (induction ps arbitrary: s outs offs)
  case (Cons p ps)
  obtain out s1 outs1 offs1 where st: "qstep p s = Some (out, s1)"
    and r: "run ps s1 = Some (outs1, offs1, s')"
    and eq: "outs = out @ outs1" "offs = offers p s @ offs1"
    using Cons.prems(2) by (auto split: option.splits)
  have "subseq (outs1 @ content s') (content s1 @ offs1)"
    using Cons.IH [OF step_good [OF Cons.prems(1) st] r] .
  then have "subseq (out @ outs1 @ content s') ((out @ content s1) @ offs1)"
    using list_emb_append_mono [of "(=)" out out] by simp
  also have "\<dots> = content s @ (if length (content s) < cap then offers p s else []) @ offs1"
    using step_exact [OF Cons.prems(1) st] by simp
  also have "subseq \<dots> (content s @ offers p s @ offs1)"
    using list_emb_append2 [of "(=)" offs1 offs1 "offers p s"]
      list_emb_append_mono [of "(=)" "content s" "content s" offs1 "offers p s @ offs1"] by simp
  finally show ?case by (simp add: eq)
qed simp

lemma run_bounded: "good s \<Longrightarrow> run ps s = Some (outs, offs, s') \<Longrightarrow> length (content s') \<le> cap"
  using run_good content_bounded by blast

end

section \<open>Runs of a queue object\<close>

datatype queue_op =
    OpPushMat string Mat
  | OpPushBytes string "byte list"
  | OpPop eQueueType
  | OpSize int int

fun queue_op_step :: "queue_op \<Rightarrow> CVSQueue \<Rightarrow> ((eQueueType \<times> st_cvMat) list \<times> CVSQueue) option" where
  "queue_op_step (OpPushMat now m) q = Some ([], PushMat now m q)"
| "queue_op_step (OpPushBytes now src) q = map_option (Pair []) (PushBytes now src q)"
| "queue_op_step (OpPop t) q = (case PopQueue t \<lparr>strShotTime = [], srcMat = no_mat\<rparr> q of (x, q') \<Rightarrow>
     Some (if waiting t q = [] then [] else [(t, x)], q'))"
| "queue_op_step (OpSize h w) q = Some ([], SetFirstPicSize h w q)"

text \<open>The picture an operation offers to the queues.\<close>

fun offered :: "queue_op \<Rightarrow> CVSQueue \<Rightarrow> st_cvMat list" where
  "offered (OpPushMat now m) q = [\<lparr>strShotTime = now, srcMat = m\<rparr>]"
| "offered (OpPushBytes now src) q = [\<lparr>strShotTime = now, srcMat = \<lparr>mat_rows = m_s32Height q,
     mat_cols = m_s32Width q, mat_data = take (nat (m_s32Width q * m_s32Height q * 3)) src\<rparr>\<rparr>]"
| "offered _ q = []"

definition queue_step_of :: "eQueueType \<Rightarrow> queue_op \<Rightarrow> CVSQueue \<Rightarrow> (st_cvMat list \<times> CVSQueue) option" where
  "queue_step_of t p q = map_option (\<lambda>(outs, q'). (map snd (filter (\<lambda>x. fst x = t) outs), q'))
     (queue_op_step p q)"

lemma PushBytes_Some:
  assumes "PushBytes now src q = Some q'"
  shows "q' = offer \<lparr>strShotTime = now, srcMat = \<lparr>mat_rows = m_s32Height q,
     mat_cols = m_s32Width q, mat_data = take (nat (m_s32Width q * m_s32Height q * 3)) src\<rparr>\<rparr> q"
  using assms by (auto simp: PushBytes_def rd_def split: if_splits bind_splits dest!: i32_SomeD)

lemma SetFirstPicSize_simps [simp]:
  "waiting t (SetFirstPicSize h w q) = waiting t q"
  "queue_wf (SetFirstPicSize h w q) = queue_wf q"
  by (simp_all add: SetFirstPicSize_def waiting_def queue_wf_def)

lemma queue_op_step_wf:
  "queue_wf q \<Longrightarrow> queue_op_step p q = Some (outs, q') \<Longrightarrow> queue_wf q'"
  using PopQueue_wf [of q]
  by (cases p) (auto simp: PushMat_def offer_wf split: prod.splits dest!: PushBytes_Some,
      metis snd_conv)

lemma queue_op_step_exact:
  assumes wf: "queue_wf q" and st: "queue_op_step p q = Some (outs, q')"
  shows "map snd (filter (\<lambda>x. fst x = t) outs) @ waiting t q' =
    waiting t q @ (if length (waiting t q) < 2 then offered p q else [])"
proof (cases p)
  case (OpPop u)
  obtain x q1 where pop: "PopQueue u \<lparr>strShotTime = [], srcMat = no_mat\<rparr> q = (x, q1)"
    by fastforce
  then show ?thesis
    using PopQueue_waiting(1) [OF wf, of t u "\<lparr>strShotTime = [], srcMat = no_mat\<rparr>"]
      PopQueue_waiting(2) [OF wf, of u "\<lparr>strShotTime = [], srcMat = no_mat\<rparr>"] st OpPop
    by (auto split: if_splits list.splits)
qed (use st wf in \<open>auto simp: PushMat_def waiting_offer dest!: PushBytes_Some\<close>)

interpretation picture_queue: bounded_queue "queue_step_of t" offered "waiting t" queue_wf 2 for t
proof unfold_locales
  fix q p outs q'
  show "length (waiting t q) \<le> 2" if "queue_wf q"
    using queue_wf_nth [OF that, of t] by (simp add: waiting_def)
  show "queue_wf q'" if "queue_wf q" "queue_step_of t p q = Some (outs, q')"
    using that queue_op_step_wf by (auto simp: queue_step_of_def)
  show "outs @ waiting t q' = waiting t q @ (if length (waiting t q) < 2 then offered p q else [])"
    if "queue_wf q" "queue_step_of t p q = Some (outs, q')"
    using that queue_op_step_exact by (auto simp: queue_step_of_def)
qed

text \<open>A run of a queue object: what left queue \<open>t\<close>, what was pushed, and the object.\<close>

fun queue_run :: "eQueueType \<Rightarrow> queue_op list \<Rightarrow> CVSQueue \<Rightarrow>
    (st_cvMat list \<times> st_cvMat list \<times> CVSQueue) option" where
  "queue_run t [] q = Some ([], [], q)"
| "queue_run t (p # ps) q = (case queue_step_of t p q of None \<Rightarrow> None | Some (out, q1) \<Rightarrow>
     (case queue_run t ps q1 of None \<Rightarrow> None | Some (outs, offs, q2) \<Rightarrow>
        Some (out @ outs, offered p q @ offs, q2)))"

lemma queue_run_eq: "queue_run t ps q = picture_queue.run t ps q"
  by (induction ps arbitrary: q) (simp_all split: option.splits prod.splits)

text \<open>
  Over any sequence of pushes, pops and size changes on a new queue object, the pictures a
  consumer has taken from its queue, followed by the at most two still waiting, are pushed pictures
  in the order of the pushes: nothing is repeated, reordered or invented, whatever the other two
  consumers do.
\<close>

theorem picture_queue_fifo:
  assumes "queue_run t ops new_CVSQueue = Some (popped, pushed, q)"
  shows "subseq (popped @ waiting t q) pushed \<and> length (waiting t q) \<le> 2"
  using picture_queue.run_fifo [of new_CVSQueue t ops popped pushed q]
    picture_queue.run_bounded [of new_CVSQueue t ops popped pushed q]
    assms by (simp add: queue_run_eq new_CVSQueue_wf waiting_new)

theorem picture_queue_fifo_witness:
  "\<exists>popped pushed q. queue_run ActQueue
     [OpSize 1 1, OpPushBytes ''a'' [1, 2, 3], OpPushMat ''b'' no_mat, OpPushMat ''c'' no_mat,
      OpPop ActQueue, OpPushMat ''d'' no_mat] new_CVSQueue = Some (popped, pushed, q) \<and>
     map strShotTime popped = [''a''] \<and> map strShotTime (waiting ActQueue q) = [''b'', ''d''] \<and>
     map strShotTime pushed = [''a'', ''b'', ''c'', ''d''] \<and>
     subseq (popped @ waiting ActQueue q) pushed"
proof -
  let ?ops = "[OpSize 1 1, OpPushBytes ''a'' [1, 2, 3], OpPushMat ''b'' no_mat, OpPushMat ''c'' no_mat,
      OpPop ActQueue, OpPushMat ''d'' no_mat]"
  have "\<exists>popped pushed q. queue_run ActQueue ?ops new_CVSQueue = Some (popped, pushed, q) \<and>
     map strShotTime popped = [''a''] \<and> map strShotTime (waiting ActQueue q) = [''b'', ''d''] \<and>
     map strShotTime pushed = [''a'', ''b'', ''c'', ''d'']"
    by (simp add: queue_step_of_def SetFirstPicSize_def new_CVSQueue_def gTaskQueueNum_def
        gTaskQueueCapacity_def numeral_3_eq_3 PushBytes_def i32_def rd_def offer_def cb_push_back_def
        cb_full_def PushMat_def PopQueue_def waiting_def cb_pop_front_def numeral_2_eq_2 Let_def)
  then obtain popped pushed q where r: "queue_run ActQueue ?ops new_CVSQueue = Some (popped, pushed, q)"
    and rest: "map strShotTime popped = [''a'']" "map strShotTime (waiting ActQueue q) = [''b'', ''d'']"
     "map strShotTime pushed = [''a'', ''b'', ''c'', ''d'']"
    by - (elim exE conjE, rule that)
  show ?thesis
    by (intro exI conjI) (rule r, (rule rest)+, rule conjunct1 [OF picture_queue_fifo [OF r]])
qed

section \<open>The decoder's picture\<close>

text \<open>
  Copying a decoded picture of \<open>h\<close> by \<open>w\<close> pixels stays inside the decoder's buffer of
  \<open>3 * w * h\<close> bytes exactly when the size remembered from the first picture is not larger (and
  its byte count fits an \<open>int\<close>); then every queue is offered the first
  \<open>3 * m_s32Width * m_s32Height\<close> bytes, stamped with the time. A smaller picture after the first
  one (a camera whose resolution was reduced) is read past its end.
\<close>

theorem push_inside_picture:
  assumes "0 \<le> m_s32Height q" "0 \<le> m_s32Width q" "int (length src) = 3 * w * h"
  shows "PushBytes now src q =
    (if m_s32Width q * m_s32Height q * 3 < 2 ^ 31 \<and> m_s32Width q * m_s32Height q \<le> w * h
     then Some (PushMat now \<lparr>mat_rows = m_s32Height q, mat_cols = m_s32Width q,
       mat_data = take (nat (3 * m_s32Width q * m_s32Height q)) src\<rparr> q)
     else None)"
proof -
  define p where "p = m_s32Width q * m_s32Height q"
  have p: "0 \<le> p" "m_s32Width q * m_s32Height q = p" "3 * m_s32Width q * m_s32Height q = p * 3"
    using mult_nonneg_nonneg [OF assms(2,1)] by (simp_all add: p_def)
  show ?thesis
    unfolding PushBytes_def PushMat_def p
    using assms p(1) by (auto simp: i32_def rd_def split: if_splits bind_splits)
qed

theorem push_inside_picture_witness:
  "PushBytes ''now'' [1, 2, 3] (SetFirstPicSize 1 1 new_CVSQueue) =
     Some (PushMat ''now'' \<lparr>mat_rows = 1, mat_cols = 1, mat_data = [1, 2, 3]\<rparr>
       (SetFirstPicSize 1 1 new_CVSQueue)) \<and>
   PushBytes ''now'' [1, 2, 3] (SetFirstPicSize 1 2 new_CVSQueue) = None"
  using push_inside_picture [of "SetFirstPicSize 1 1 new_CVSQueue" "[1, 2, 3]" 1 1 "''now''"]
    push_inside_picture [of "SetFirstPicSize 1 2 new_CVSQueue" "[1, 2, 3]" 1 1 "''now''"]
  by (simp add: SetFirstPicSize_def)

section \<open>The manager of the queue objects\<close>

text \<open>
  Queue objects live on a heap, at addresses that are never used twice; the manager's map holds the
  only shared owners, so deleting an entry destroys the object. A weak pointer is an
  address (or null), and locking it succeeds while the object is alive.
\<close>

record queue_manager =
  m_mapVSObjs :: "string \<Rightarrow> nat option"
  vq_heap :: "nat \<Rightarrow> CVSQueue option"
  vq_next :: nat

definition no_queues :: queue_manager where
  "no_queues = \<lparr>m_mapVSObjs = (\<lambda>_. None), vq_heap = (\<lambda>_. None), vq_next = 0\<rparr>"

type_synonym VSQueWekPtr = "nat option"

definition lock_weak :: "queue_manager \<Rightarrow> VSQueWekPtr \<Rightarrow> nat option" where
  "lock_weak m wek = (case wek of None \<Rightarrow> None
     | Some a \<Rightarrow> if vq_heap m a = None then None else Some a)"

definition QueueIsExist :: "string \<Rightarrow> queue_manager \<Rightarrow> bool" where
  "QueueIsExist strCamCode m \<longleftrightarrow> m_mapVSObjs m strCamCode \<noteq> None"

definition AddQueueObj :: "string \<Rightarrow> queue_manager \<Rightarrow> queue_manager" where
  "AddQueueObj strCamCode m = (case m_mapVSObjs m strCamCode of
     Some _ \<Rightarrow> m
   | None \<Rightarrow> m\<lparr>m_mapVSObjs := (m_mapVSObjs m)(strCamCode := Some (vq_next m)),
       vq_heap := (vq_heap m)(vq_next m := Some new_CVSQueue), vq_next := Suc (vq_next m)\<rparr>)"

definition DelQueueObj :: "string \<Rightarrow> queue_manager \<Rightarrow> queue_manager" where
  "DelQueueObj strCamCode m = (case m_mapVSObjs m strCamCode of
     Some a \<Rightarrow> m\<lparr>m_mapVSObjs := (m_mapVSObjs m)(strCamCode := None),
       vq_heap := (vq_heap m)(a := None)\<rparr>
   | None \<Rightarrow> m)"

definition GetVSQueueObj :: "string \<Rightarrow> VSQueWekPtr \<Rightarrow> queue_manager \<Rightarrow> VSQueWekPtr" where
  "GetVSQueueObj strCamCode vsQueWekPtr m = (case m_mapVSObjs m strCamCode of
     Some a \<Rightarrow> Some a
   | None \<Rightarrow> vsQueWekPtr)"

text \<open>Calling an operation on the object at an address.\<close>

definition on_queue :: "nat \<Rightarrow> (CVSQueue \<Rightarrow> st_cvMat \<times> CVSQueue) \<Rightarrow> st_cvMat \<Rightarrow> queue_manager \<Rightarrow>
    st_cvMat \<times> queue_manager" where
  "on_queue a f out m = (case vq_heap m a of
     Some q \<Rightarrow> (case f q of (x, q') \<Rightarrow> (x, m\<lparr>vq_heap := (vq_heap m)(a := Some q')\<rparr>))
   | None \<Rightarrow> (out, m))"

definition MngGetActImage ::
    "string \<Rightarrow> eActType \<Rightarrow> st_cvMat \<Rightarrow> queue_manager \<Rightarrow> st_cvMat \<times> queue_manager" where
  "MngGetActImage strCamCode ActType dst m = (case m_mapVSObjs m strCamCode of
     Some a \<Rightarrow> on_queue a (if ActType = SelfDef then QueueGetSelfDefActImage dst
                           else QueueGetActImage dst) dst m
   | None \<Rightarrow> (dst, m))"

definition MngGetCmmImage ::
    "string \<Rightarrow> st_cvMat \<Rightarrow> queue_manager \<Rightarrow> st_cvMat \<times> queue_manager" where
  "MngGetCmmImage strCamCode dst m = (case m_mapVSObjs m strCamCode of
     Some a \<Rightarrow> on_queue a (QueueGetCmmImage dst) dst m
   | None \<Rightarrow> (dst, m))"

text \<open>Every entry has its own live, well-formed object, and every live object has an entry.\<close>

definition queues_ok :: "queue_manager \<Rightarrow> bool" where
  "queues_ok m \<longleftrightarrow>
     (\<forall>c a. m_mapVSObjs m c = Some a \<longrightarrow> (\<exists>q. vq_heap m a = Some q \<and> queue_wf q) \<and> a < vq_next m) \<and>
     (\<forall>c d a. m_mapVSObjs m c = Some a \<longrightarrow> m_mapVSObjs m d = Some a \<longrightarrow> c = d) \<and>
     (\<forall>a. vq_heap m a \<noteq> None \<longrightarrow> (\<exists>c. m_mapVSObjs m c = Some a))"

lemma no_queues_ok: "queues_ok no_queues"
  by (simp add: queues_ok_def no_queues_def)

lemma queues_okD:
  assumes "queues_ok m"
  shows "m_mapVSObjs m c = Some a \<Longrightarrow> a < vq_next m"
    and "m_mapVSObjs m c = Some a \<Longrightarrow> \<exists>q. vq_heap m a = Some q \<and> queue_wf q"
    and "m_mapVSObjs m c = Some a \<Longrightarrow> m_mapVSObjs m d = Some a \<Longrightarrow> c = d"
    and "vq_heap m a = Some q \<Longrightarrow> \<exists>c. m_mapVSObjs m c = Some a"
    and "vq_heap m a = Some q \<Longrightarrow> queue_wf q"
  using assms unfolding queues_ok_def
  by (blast, blast, blast, blast, metis option.discI option.inject)

lemma AddQueueObj_ok:
  assumes ok: "queues_ok m"
  shows "queues_ok (AddQueueObj c m)"
proof (cases "m_mapVSObjs m c")
  case None
  show ?thesis
    unfolding queues_ok_def
  proof (intro conjI allI impI)
    fix d a
    assume d: "m_mapVSObjs (AddQueueObj c m) d = Some a"
    show "\<exists>q. vq_heap (AddQueueObj c m) a = Some q \<and> queue_wf q"
      using d None queues_okD(2) [OF ok, of d a]
      by (auto simp: AddQueueObj_def new_CVSQueue_wf split: if_splits)
    show "a < vq_next (AddQueueObj c m)"
      using d None queues_okD(1) [OF ok, of d a] by (auto simp: AddQueueObj_def split: if_splits)
    fix e
    assume "m_mapVSObjs (AddQueueObj c m) e = Some a"
    then show "d = e"
      using d None queues_okD(1) [OF ok, of d a] queues_okD(1) [OF ok, of e a]
        queues_okD(3) [OF ok, of d a e]
      by (auto simp: AddQueueObj_def split: if_splits)
  next
    fix a
    assume a: "vq_heap (AddQueueObj c m) a \<noteq> None"
    show "\<exists>d. m_mapVSObjs (AddQueueObj c m) d = Some a"
    proof (cases "a = vq_next m")
      case True
      then show ?thesis using None by (auto simp: AddQueueObj_def)
    next
      case False
      then obtain d where "m_mapVSObjs m d = Some a"
        using a None queues_okD(4) [OF ok, of a] by (auto simp: AddQueueObj_def)
      moreover from this have "d \<noteq> c" using None by auto
      ultimately have "m_mapVSObjs (AddQueueObj c m) d = Some a"
        using None by (simp add: AddQueueObj_def)
      then show ?thesis ..
    qed
  qed
qed (simp add: AddQueueObj_def ok)

lemma DelQueueObj_ok:
  assumes ok: "queues_ok m"
  shows "queues_ok (DelQueueObj c m)"
proof (cases "m_mapVSObjs m c")
  case (Some b)
  show ?thesis
    unfolding queues_ok_def
  proof (intro conjI allI impI)
    fix d a
    assume d: "m_mapVSObjs (DelQueueObj c m) d = Some a"
    then have d': "m_mapVSObjs m d = Some a" "d \<noteq> c"
      using Some by (auto simp: DelQueueObj_def split: if_splits)
    then have "a \<noteq> b" using queues_okD(3) [OF ok, of d a c] Some by auto
    then show "\<exists>q. vq_heap (DelQueueObj c m) a = Some q \<and> queue_wf q"
      using queues_okD(2) [OF ok d'(1)] Some by (auto simp: DelQueueObj_def)
    show "a < vq_next (DelQueueObj c m)"
      using Some queues_okD(1) [OF ok d'(1)] by (simp add: DelQueueObj_def)
    fix e
    assume "m_mapVSObjs (DelQueueObj c m) e = Some a"
    then show "d = e"
      using Some queues_okD(3) [OF ok d'(1), of e] by (auto simp: DelQueueObj_def split: if_splits)
  next
    fix a
    assume "vq_heap (DelQueueObj c m) a \<noteq> None"
    then obtain d where "a \<noteq> b" "m_mapVSObjs m d = Some a"
      using Some queues_okD(4) [OF ok, of a] by (auto simp: DelQueueObj_def split: if_splits)
    then have "m_mapVSObjs (DelQueueObj c m) d = Some a"
      using Some by (auto simp: DelQueueObj_def)
    then show "\<exists>d. m_mapVSObjs (DelQueueObj c m) d = Some a" ..
  qed
qed (simp add: DelQueueObj_def ok)

lemma AddQueueObj_map:
  "m_mapVSObjs (AddQueueObj c m) d =
     (if d = c \<and> m_mapVSObjs m c = None then Some (vq_next m) else m_mapVSObjs m d)"
  by (auto simp: AddQueueObj_def split: option.splits)

lemma DelQueueObj_map: "m_mapVSObjs (DelQueueObj c m) d = (if d = c then None else m_mapVSObjs m d)"
  by (auto simp: DelQueueObj_def split: option.splits)

lemma on_queue_map [simp]: "m_mapVSObjs (snd (on_queue a f out m)) = m_mapVSObjs m"
  by (simp add: on_queue_def split: option.splits prod.splits)

lemma on_queue_ok:
  assumes "queues_ok m" "\<And>q. queue_wf q \<Longrightarrow> queue_wf (snd (f q))"
  shows "queues_ok (snd (on_queue a f out m))"
proof (cases "vq_heap m a")
  case (Some q)
  obtain x q' where f: "f q = (x, q')" by fastforce
  have "queue_wf q" using queues_okD(5) [OF assms(1) Some] .
  then have "queue_wf q'" using assms(2) [of q] f by simp
  then have "vq_heap (snd (on_queue a f out m)) b \<noteq> None \<longleftrightarrow> vq_heap m b \<noteq> None"
    "\<exists>q. vq_heap m b = Some q \<and> queue_wf q \<Longrightarrow>
     \<exists>q. vq_heap (snd (on_queue a f out m)) b = Some q \<and> queue_wf q" for b
    using Some f by (auto simp: on_queue_def)
  moreover have "vq_next (snd (on_queue a f out m)) = vq_next m"
    using Some f by (simp add: on_queue_def)
  ultimately show ?thesis
    using assms(1) unfolding queues_ok_def by simp
qed (use assms(1) in \<open>simp add: on_queue_def\<close>)

lemma MngGetActImage_ok: "queues_ok m \<Longrightarrow> queues_ok (snd (MngGetActImage c t out m))"
  by (auto simp: MngGetActImage_def QueueGetActImage_def QueueGetSelfDefActImage_def PopQueue_wf
      split: option.splits intro!: on_queue_ok)

lemma MngGetCmmImage_ok: "queues_ok m \<Longrightarrow> queues_ok (snd (MngGetCmmImage c out m))"
  by (auto simp: MngGetCmmImage_def QueueGetCmmImage_def PopQueue_wf
      split: option.splits intro!: on_queue_ok)

lemma MngGet_map [simp]:
  "m_mapVSObjs (snd (MngGetActImage c t out m)) = m_mapVSObjs m"
  "m_mapVSObjs (snd (MngGetCmmImage c out m)) = m_mapVSObjs m"
  by (simp_all add: MngGetActImage_def MngGetCmmImage_def split: option.splits)

lemma lock_weak_ok:
  "queues_ok m \<Longrightarrow> lock_weak m w = Some a \<Longrightarrow>
   \<exists>q. w = Some a \<and> vq_heap m a = Some q \<and> queue_wf q"
  by (auto simp: lock_weak_def queues_okD(5) split: option.splits if_splits)

end
