(* ===== verification/RtspCliMng.thy ===== *)
theory RtspCliMng
  imports VideoQueue CommFun
begin

text \<open>
  One camera's client (transfer/rtsp/net/RtspCliMng.h and .cpp): it opens the camera, puts the
  decoded pictures into the camera's queue object, restarts when the camera's data change, and
  is meant to reconnect after a silence. The ONVIF client, the decoder of the H264 stream, the
  JPEG decoder and the clock are arguments: their answers may differ from call to call.
  The live555 scheduler, the RTSP client, the decoder object and the snapshot thread are modelled by
  whether they exist. \<^term>\<open>None\<close> is an uncaught exception or undefined behaviour.
\<close>

section \<open>A camera's data\<close>

record TCameraBaseInfo =
  bUpdate :: bool
  s64Id :: int
  s32Port :: int
  s32GetStreamMode :: int
  s32State :: int
  s32CoordinateX :: int
  s32CoordinateY :: int
  s32Width :: int
  s32Height :: int
  s32IsReport :: int
  s32OffOrOn :: int
  s32WorkMode :: int
  strCameraCode :: string
  strCameraName :: string
  strDiscernSysCode :: string
  strDoorCode :: string
  strIP :: string
  strMac :: string
  strUserName :: string
  strPassword :: string
  strProtocol :: string
  strCameraPixel :: string
  strTaskSet :: string
  strImageGroupSet :: string
  strInstallAddr :: string
  strStartTime :: string
  strEndTime :: string
  strCreateTime :: string
  strRegion :: string
  strCameraLiveId :: string
  strRemark :: string
  m_cb :: "(string \<Rightarrow> string \<Rightarrow> string \<Rightarrow> string) option"

definition SetCameraBaseInfo :: "TCameraBaseInfo \<Rightarrow> TCameraBaseInfo \<Rightarrow> TCameraBaseInfo" where
  "SetCameraBaseInfo SrcInfo DesInfo = DesInfo\<lparr>
     bUpdate := bUpdate SrcInfo, s64Id := s64Id SrcInfo,
     strCameraCode := strCameraCode SrcInfo, strCameraName := strCameraName SrcInfo,
     strDiscernSysCode := strDiscernSysCode SrcInfo, strDoorCode := strDoorCode SrcInfo,
     strIP := strIP SrcInfo, strMac := strMac SrcInfo, s32Port := s32Port SrcInfo,
     strUserName := strUserName SrcInfo, strPassword := strPassword SrcInfo,
     strProtocol := strProtocol SrcInfo, strCameraPixel := strCameraPixel SrcInfo,
     s32GetStreamMode := s32GetStreamMode SrcInfo, strTaskSet := strTaskSet SrcInfo,
     strImageGroupSet := strImageGroupSet SrcInfo, s32State := s32State SrcInfo,
     strInstallAddr := strInstallAddr SrcInfo, strCreateTime := strCreateTime SrcInfo,
     strRegion := strRegion SrcInfo, s32IsReport := s32IsReport SrcInfo,
     s32OffOrOn := s32OffOrOn SrcInfo, strRemark := strRemark SrcInfo,
     strStartTime := strStartTime SrcInfo, strEndTime := strEndTime SrcInfo,
     s32CoordinateX := s32CoordinateX SrcInfo, s32CoordinateY := s32CoordinateY SrcInfo,
     s32Width := s32Width SrcInfo, s32Height := s32Height SrcInfo,
     strCameraLiveId := strCameraLiveId SrcInfo, s32WorkMode := s32WorkMode SrcInfo,
     m_cb := m_cb SrcInfo\<rparr>"

text \<open>The copy is complete: no field of the destination survives.\<close>

lemma SetCameraBaseInfo_copy [simp]: "SetCameraBaseInfo SrcInfo DesInfo = SrcInfo"
  by (simp add: SetCameraBaseInfo_def)

section \<open>The client's state\<close>

definition s32ReconTimeOut :: int where "s32ReconTimeOut = 5"
definition STREAM_MODEL :: int where "STREAM_MODEL = 0"

record CRtspCliMng =
  m_CamBaseInfo :: TCameraBaseInfo
  m_TimeForReConn :: int
  m_bReconnFlag :: bool
  m_bFirstPicFlag :: bool
  m_VSQueWekPtr :: VSQueWekPtr
  has_scheduler :: bool
  has_env :: bool
  m_strRtspUrl :: string
  has_ffmpeg :: bool
  has_client :: bool
  m_strSnapshotUrl :: string
  m_strSnapShotAuth :: string
  m_strSnapShotHost :: string
  m_strSnapShotPag :: string
  has_snap_thread :: bool

definition empty_camera :: TCameraBaseInfo where
  "empty_camera = \<lparr>bUpdate = False, s64Id = 0, s32Port = 0, s32GetStreamMode = 0, s32State = 0,
     s32CoordinateX = 0, s32CoordinateY = 0, s32Width = 0, s32Height = 0, s32IsReport = 0,
     s32OffOrOn = 1, s32WorkMode = 0, strCameraCode = [], strCameraName = [],
     strDiscernSysCode = [], strDoorCode = [], strIP = [], strMac = [], strUserName = [],
     strPassword = [], strProtocol = [], strCameraPixel = [], strTaskSet = [],
     strImageGroupSet = [], strInstallAddr = [], strStartTime = [], strEndTime = [],
     strCreateTime = [], strRegion = [], strCameraLiveId = [], strRemark = [], m_cb = None\<rparr>"

definition new_CRtspCliMng :: "int \<Rightarrow> TCameraBaseInfo \<Rightarrow> queue_manager \<Rightarrow> CRtspCliMng" where
  "new_CRtspCliMng now camBaseInfo m = (let cam = SetCameraBaseInfo camBaseInfo empty_camera in
     \<lparr>m_CamBaseInfo = cam, m_TimeForReConn = now, m_bReconnFlag = False, m_bFirstPicFlag = True,
      m_VSQueWekPtr = GetVSQueueObj (strCameraCode cam) None m,
      has_scheduler = False, has_env = False, m_strRtspUrl = [], has_ffmpeg = False,
      has_client = False, m_strSnapshotUrl = [], m_strSnapShotAuth = [], m_strSnapShotHost = [],
      m_strSnapShotPag = [], has_snap_thread = False\<rparr>)"

section \<open>Opening and closing\<close>

text \<open>The ONVIF client: the answers to the two requests, given address, user and password.\<close>

record onvif =
  GetStreamUri :: "string \<Rightarrow> string \<Rightarrow> string \<Rightarrow> string"
  GetSnapshotUri :: "string \<Rightarrow> string \<Rightarrow> string \<Rightarrow> string"

fun str_find :: "string \<Rightarrow> string \<Rightarrow> nat option" where
  "str_find pat [] = (if pat = [] then Some 0 else None)"
| "str_find pat (c # cs) = (if take (length pat) (c # cs) = pat then Some 0
     else map_option Suc (str_find pat cs))"

text \<open>
  The index of the page in the snapshot URL. When the address does not occur, \<open>find\<close> answers
  \<open>npos\<close>, which the addition of the length wraps to the length less one.
\<close>

definition snap_index :: "string \<Rightarrow> string \<Rightarrow> nat" where
  "snap_index url ip = (case str_find ip url of
     Some i \<Rightarrow> i + length ip
   | None \<Rightarrow> nat ((2 ^ 64 - 1 + int (length ip)) mod 2 ^ 64))"

definition GetRtspAndSnapUrl :: "onvif \<Rightarrow> CRtspCliMng \<Rightarrow> (bool \<times> CRtspCliMng) option" where
  "GetRtspAndSnapUrl onv c = (let cam = m_CamBaseInfo c;
     url = GetStreamUri onv (strIP cam) (strUserName cam) (strPassword cam);
     snap = GetSnapshotUri onv (strIP cam) (strUserName cam) (strPassword cam);
     c1 = c\<lparr>m_strRtspUrl := url, m_strSnapshotUrl := snap\<rparr>;
     idx = snap_index snap (strIP cam) in
     if url = [] \<or> snap = [] then Some (False, c1)
     else if length snap < idx then None
     else Some (True, c1\<lparr>m_strSnapShotPag := drop idx snap,
       m_strSnapShotAuth := strUserName cam @ '':'' @ strPassword cam,
       m_strSnapShotHost := strIP cam\<rparr>))"

definition SetFirstPicFlag :: "bool \<Rightarrow> CRtspCliMng \<Rightarrow> CRtspCliMng" where
  "SetFirstPicFlag bFlag c = c\<lparr>m_bFirstPicFlag := bFlag\<rparr>"

definition SetPullStreamCB :: "CRtspCliMng \<Rightarrow> CRtspCliMng" where
  "SetPullStreamCB c = (if s32WorkMode (m_CamBaseInfo c) = STREAM_MODEL
     then SetFirstPicFlag True (c\<lparr>has_ffmpeg := True, has_client := True, has_scheduler := True,
            has_env := True\<rparr>)
     else c\<lparr>has_snap_thread := True\<rparr>)"

definition OpenCamera :: "onvif \<Rightarrow> CRtspCliMng \<Rightarrow> CRtspCliMng option" where
  "OpenCamera onv c = do {
     (ok, c1) \<leftarrow> GetRtspAndSnapUrl onv c;
     Some (if \<not> ok then c1 else SetPullStreamCB c1)}"

definition CloseCamera :: "CRtspCliMng \<Rightarrow> CRtspCliMng" where
  "CloseCamera c = c\<lparr>has_client := False, has_snap_thread := False\<rparr>"

definition CloseScheduler :: "CRtspCliMng \<Rightarrow> CRtspCliMng" where
  "CloseScheduler c = c\<lparr>has_env := False, has_scheduler := False\<rparr>"

definition CloseFmpeg :: "CRtspCliMng \<Rightarrow> CRtspCliMng" where
  "CloseFmpeg c = c\<lparr>has_ffmpeg := False\<rparr>"

definition ReleaseSource :: "CRtspCliMng \<Rightarrow> CRtspCliMng" where
  "ReleaseSource c = CloseFmpeg (CloseCamera (CloseScheduler c))"

section \<open>Reconnection and update flags\<close>

definition GetConnTimeOut :: "int \<Rightarrow> CRtspCliMng \<Rightarrow> bool \<times> CRtspCliMng" where
  "GetConnTimeOut now c = (let bRet = IsTimeOut now (m_TimeForReConn c) s32ReconTimeOut;
     bTimeOut = (m_bReconnFlag c \<and> bRet) in
     (bTimeOut, if bTimeOut then c\<lparr>m_bReconnFlag := True\<rparr> else c))"

definition SetConnTimeOut :: "int \<Rightarrow> bool \<Rightarrow> CRtspCliMng \<Rightarrow> CRtspCliMng" where
  "SetConnTimeOut now bReconnFlag c = c\<lparr>m_TimeForReConn := now, m_bReconnFlag := bReconnFlag\<rparr>"

definition SetUpdateInfo :: "TCameraBaseInfo \<Rightarrow> bool \<Rightarrow> CRtspCliMng \<Rightarrow> CRtspCliMng" where
  "SetUpdateInfo camBaseInfo b c = (let cam = (if b then SetCameraBaseInfo camBaseInfo (m_CamBaseInfo c)
     else m_CamBaseInfo c) in c\<lparr>m_CamBaseInfo := cam\<lparr>bUpdate := b\<rparr>\<rparr>)"

definition SetUpdate :: "bool \<Rightarrow> CRtspCliMng \<Rightarrow> CRtspCliMng" where
  "SetUpdate b c = c\<lparr>m_CamBaseInfo := (m_CamBaseInfo c)\<lparr>bUpdate := b\<rparr>\<rparr>"

definition GetUpdate :: "CRtspCliMng \<Rightarrow> bool" where
  "GetUpdate c = bUpdate (m_CamBaseInfo c)"

definition UpdateCamBaseInfo :: "TCameraBaseInfo \<Rightarrow> CRtspCliMng \<Rightarrow> CRtspCliMng" where
  "UpdateCamBaseInfo camBaseInfo c = SetUpdateInfo camBaseInfo True c"

definition RestartCam :: "onvif \<Rightarrow> CRtspCliMng \<Rightarrow> CRtspCliMng option" where
  "RestartCam onv c = do {
     c1 \<leftarrow> OpenCamera onv (ReleaseSource c);
     Some (SetUpdate False c1)}"

section \<open>Pictures\<close>

text \<open>
  A frame of the stream: the number of parameter-set records, the receive buffer, and what the
  decoder makes of it (height, width and pixels, or nothing).
\<close>

record frame =
  fr_records :: int
  fr_buffer :: "byte list"
  fr_picture :: "(int \<times> int \<times> byte list) option"

definition put_queue :: "nat \<Rightarrow> CVSQueue \<Rightarrow> queue_manager \<Rightarrow> queue_manager" where
  "put_queue a q m = m\<lparr>vq_heap := (vq_heap m)(a := Some q)\<rparr>"

text \<open>Setting the first size and pushing a decoded picture, on the locked queue object.\<close>

definition store_picture :: "string \<Rightarrow> nat \<Rightarrow> int \<times> int \<times> byte list \<Rightarrow>
    CRtspCliMng \<times> queue_manager \<Rightarrow> (CRtspCliMng \<times> queue_manager) option" where
  "store_picture CurTime a pic = (\<lambda>(c, m). case pic of (h, w, pixels) \<Rightarrow> do {
     q \<leftarrow> vq_heap m a;
     let q1 = (if m_bFirstPicFlag c then SetFirstPicSize h w q else q);
     q2 \<leftarrow> PushBytes CurTime pixels q1;
     Some (if m_bFirstPicFlag c then SetFirstPicFlag False c else c, put_queue a q2 m)})"

definition is_I_frame :: "byte \<Rightarrow> bool" where
  "is_I_frame x \<longleftrightarrow> x = 0x65 \<or> x = 0x25"

definition CallBackFunc :: "int \<Rightarrow> string \<Rightarrow> frame \<Rightarrow>
    CRtspCliMng \<times> queue_manager \<Rightarrow> (CRtspCliMng \<times> queue_manager) option" where
  "CallBackFunc now CurTime f = (\<lambda>(c, m).
     if GetUpdate c then Some (c, m)
     else if fr_records f < 2 then Some (c, m)
     else do {
       x \<leftarrow> get (fr_buffer f) 0;
       if \<not> is_I_frame x then Some (c, m)
       else do {
         (c1, m1) \<leftarrow> (case lock_weak m (m_VSQueWekPtr c) of
             None \<Rightarrow> Some (c, m)
           | Some a \<Rightarrow> if \<not> has_ffmpeg c then None
               else (case fr_picture f of
                   None \<Rightarrow> Some (c, m)
                 | Some pic \<Rightarrow> store_picture CurTime a pic (c, m)));
         Some (SetConnTimeOut now False c1, m1)}})"

fun deliver :: "int \<Rightarrow> string \<Rightarrow> frame list \<Rightarrow>
    CRtspCliMng \<times> queue_manager \<Rightarrow> (CRtspCliMng \<times> queue_manager) option" where
  "deliver now CurTime [] s = Some s"
| "deliver now CurTime (f # fs) s = do {
     s1 \<leftarrow> CallBackFunc now CurTime f s;
     deliver now CurTime fs s1}"

text \<open>One round of the pull thread; \<open>SingleStep\<close> delivers the frames that have arrived.\<close>

definition PullStream :: "onvif \<Rightarrow> int \<Rightarrow> string \<Rightarrow> frame list \<Rightarrow>
    CRtspCliMng \<times> queue_manager \<Rightarrow> (CRtspCliMng \<times> queue_manager) option" where
  "PullStream onv now CurTime fs = (\<lambda>(c, m).
     if GetUpdate c then do {
       c1 \<leftarrow> RestartCam onv c;
       Some (c1, m)}
     else if has_scheduler c then do {
       (c1, m1) \<leftarrow> deliver now CurTime fs (c, m);
       (case GetConnTimeOut now c1 of (bTimeOut, c2) \<Rightarrow>
         if bTimeOut then do {
           c3 \<leftarrow> RestartCam onv (SetUpdate True c2);
           Some (c3, m1)}
         else Some (c2, m1))}
     else Some (c, m))"

definition GetSnapShotPic :: "CRtspCliMng \<Rightarrow> string option" where
  "GetSnapShotPic c = (case m_cb (m_CamBaseInfo c) of
     None \<Rightarrow> None
   | Some cb \<Rightarrow> Some (cb (m_strSnapShotAuth c) (m_strSnapShotHost c) (m_strSnapShotPag c)))"

definition SnapShotLoop :: "(string \<Rightarrow> Mat) \<Rightarrow> int \<Rightarrow> string \<Rightarrow>
    CRtspCliMng \<times> queue_manager \<Rightarrow> (CRtspCliMng \<times> queue_manager) option" where
  "SnapShotLoop imdecode now CurTime = (\<lambda>(c, m). do {
     strMatData \<leftarrow> GetSnapShotPic c;
     m1 \<leftarrow> (case lock_weak m (m_VSQueWekPtr c) of
         None \<Rightarrow> Some m
       | Some a \<Rightarrow> do {
           q \<leftarrow> vq_heap m a;
           Some (put_queue a (PushMat CurTime (imdecode strMatData) q) m)});
     Some (SetConnTimeOut now False c, m1)})"

section \<open>What the operations keep\<close>

lemma put_queue_ok:
  assumes "queues_ok m" "vq_heap m a = Some q" "queue_wf q'"
  shows "queues_ok (put_queue a q' m)"
proof -
  have "vq_heap (put_queue a q' m) b \<noteq> None \<longleftrightarrow> vq_heap m b \<noteq> None"
    "\<exists>q. vq_heap m b = Some q \<and> queue_wf q \<Longrightarrow>
     \<exists>q. vq_heap (put_queue a q' m) b = Some q \<and> queue_wf q" for b
    using assms(2,3) by (auto simp: put_queue_def)
  then show ?thesis
    using assms(1) unfolding queues_ok_def by (simp add: put_queue_def)
qed

lemma put_queue_simps [simp]:
  "m_mapVSObjs (put_queue a q m) = m_mapVSObjs m"
  "vq_next (put_queue a q m) = vq_next m"
  "vq_heap (put_queue a q m) b = (if b = a then Some q else vq_heap m b)"
  by (simp_all add: put_queue_def)

lemma PushBytes_wf: "queue_wf q \<Longrightarrow> PushBytes now src q = Some q' \<Longrightarrow> queue_wf q'"
  by (auto dest!: PushBytes_Some simp: offer_wf)

text \<open>
  The part of a client no picture changes: everything but the time, the reconnection flag and the
  first-picture flag.
\<close>

definition config :: "CRtspCliMng \<Rightarrow> CRtspCliMng" where
  "config c = c\<lparr>m_TimeForReConn := 0, m_bReconnFlag := False, m_bFirstPicFlag := False\<rparr>"

lemma config_SetConnTimeOut [simp]: "config (SetConnTimeOut now b c) = config c"
  by (simp add: config_def SetConnTimeOut_def)

lemma config_SetFirstPicFlag [simp]: "config (SetFirstPicFlag b c) = config c"
  by (simp add: config_def SetFirstPicFlag_def)

lemma config_eqD:
  assumes "config c = config d"
  shows "m_CamBaseInfo c = m_CamBaseInfo d" "m_VSQueWekPtr c = m_VSQueWekPtr d"
    "has_scheduler c = has_scheduler d" "has_ffmpeg c = has_ffmpeg d"
  using assms by (cases c, cases d, simp add: config_def)+

lemma store_picture_ok:
  assumes ok: "queues_ok m" and st: "store_picture t a pic (c, m) = Some (c', m')"
  shows "queues_ok m'" "m_mapVSObjs m' = m_mapVSObjs m" "config c' = config c"
    "m_bReconnFlag c' = m_bReconnFlag c" "b \<noteq> a \<Longrightarrow> vq_heap m' b = vq_heap m b"
proof -
  obtain h w px where pic: "pic = (h, w, px)" by (metis prod_cases3)
  obtain q q2 where q: "vq_heap m a = Some q"
    and q2: "PushBytes t px (if m_bFirstPicFlag c then SetFirstPicSize h w q else q) = Some q2"
    and c': "c' = (if m_bFirstPicFlag c then SetFirstPicFlag False c else c)"
    and m': "m' = put_queue a q2 m"
    using st unfolding store_picture_def pic by (auto simp: Let_def split: bind_splits)
  have "queue_wf q2"
    using PushBytes_wf [OF _ q2] queues_okD(5) [OF ok q] by simp
  then show "queues_ok m'" using put_queue_ok [OF ok q] by (simp add: m')
  show "m_mapVSObjs m' = m_mapVSObjs m" "b \<noteq> a \<Longrightarrow> vq_heap m' b = vq_heap m b" by (simp_all add: m')
  show "config c' = config c" "m_bReconnFlag c' = m_bReconnFlag c"
    by (simp_all add: c' SetFirstPicFlag_def [abs_def] config_def)
qed

lemma CallBackFunc_ok:
  assumes ok: "queues_ok m" and st: "CallBackFunc now t f (c, m) = Some (c', m')"
  shows "queues_ok m' \<and> m_mapVSObjs m' = m_mapVSObjs m \<and> config c' = config c \<and>
    (\<not> m_bReconnFlag c \<longrightarrow> \<not> m_bReconnFlag c') \<and>
    (\<forall>b. m_VSQueWekPtr c \<noteq> Some b \<longrightarrow> vq_heap m' b = vq_heap m b)"
proof (cases "GetUpdate c \<or> fr_records f < 2")
  case False
  obtain x where x: "get (fr_buffer f) 0 = Some x"
    using st False by (auto simp: CallBackFunc_def split: bind_splits)
  show ?thesis
  proof (cases "is_I_frame x")
    case True
    let ?res = "case lock_weak m (m_VSQueWekPtr c) of None \<Rightarrow> Some (c, m)
      | Some a \<Rightarrow> if \<not> has_ffmpeg c then None else (case fr_picture f of None \<Rightarrow> Some (c, m)
        | Some pic \<Rightarrow> store_picture t a pic (c, m))"
    obtain c1 where r: "?res = Some (c1, m')" and c': "c' = SetConnTimeOut now False c1"
      using st False x True by (auto simp: CallBackFunc_def split: bind_splits)
    show ?thesis
    proof (cases "lock_weak m (m_VSQueWekPtr c) = None \<or> fr_picture f = None")
      case True
      then have "c1 = c \<and> m' = m" using r by (auto split: option.splits if_splits)
      then show ?thesis using ok c' by (simp add: SetConnTimeOut_def config_def)
    next
      case False
      then obtain a pic where a: "lock_weak m (m_VSQueWekPtr c) = Some a"
        and sp: "store_picture t a pic (c, m) = Some (c1, m')"
        using r by (auto split: if_splits)
      have "m_VSQueWekPtr c = Some a" using lock_weak_ok [OF ok a] by blast
      then show ?thesis
        using store_picture_ok [OF ok sp] c' by (simp add: SetConnTimeOut_def config_def)
    qed
  next
    case False
    then show ?thesis using st x ok by (auto simp: CallBackFunc_def split: if_splits)
  qed
qed (use st ok in \<open>auto simp: CallBackFunc_def split: if_splits\<close>)

lemma deliver_ok:
  "queues_ok m \<Longrightarrow> deliver now t fs (c, m) = Some (c', m') \<Longrightarrow>
   queues_ok m' \<and> m_mapVSObjs m' = m_mapVSObjs m \<and> config c' = config c \<and>
   (\<not> m_bReconnFlag c \<longrightarrow> \<not> m_bReconnFlag c') \<and>
   (\<forall>b. m_VSQueWekPtr c \<noteq> Some b \<longrightarrow> vq_heap m' b = vq_heap m b)"
proof (induction fs arbitrary: c m)
  case (Cons f fs)
  then obtain c1 m1 where f: "CallBackFunc now t f (c, m) = Some (c1, m1)"
    and r: "deliver now t fs (c1, m1) = Some (c', m')"
    by (auto split: bind_splits)
  note 1 = CallBackFunc_ok [OF Cons.prems(1) f]
  then have "m_VSQueWekPtr c1 = m_VSQueWekPtr c" by (blast dest: config_eqD(2))
  then show ?case
    using 1 Cons.IH [OF _ r] by metis
qed simp

lemma OpenCamera_flags:
  "OpenCamera onv c = Some c' \<Longrightarrow> m_bReconnFlag c' = m_bReconnFlag c \<and>
     m_VSQueWekPtr c' = m_VSQueWekPtr c \<and> m_CamBaseInfo c' = m_CamBaseInfo c"
  by (auto simp: OpenCamera_def GetRtspAndSnapUrl_def SetPullStreamCB_def SetFirstPicFlag_def Let_def
      split: bind_splits if_splits)

lemma ReleaseSource_simps [simp]:
  "m_bReconnFlag (ReleaseSource c) = m_bReconnFlag c"
  "m_VSQueWekPtr (ReleaseSource c) = m_VSQueWekPtr c"
  "m_CamBaseInfo (ReleaseSource c) = m_CamBaseInfo c"
  by (simp_all add: ReleaseSource_def CloseCamera_def CloseScheduler_def CloseFmpeg_def)

lemma SetUpdate_simps [simp]:
  "m_bReconnFlag (SetUpdate b c) = m_bReconnFlag c"
  "m_VSQueWekPtr (SetUpdate b c) = m_VSQueWekPtr c"
  "m_CamBaseInfo (SetUpdate b c) = (m_CamBaseInfo c)\<lparr>bUpdate := b\<rparr>"
  by (simp_all add: SetUpdate_def)

lemma UpdateCamBaseInfo_simps [simp]:
  "m_bReconnFlag (UpdateCamBaseInfo cam c) = m_bReconnFlag c"
  "m_VSQueWekPtr (UpdateCamBaseInfo cam c) = m_VSQueWekPtr c"
  "m_CamBaseInfo (UpdateCamBaseInfo cam c) = cam\<lparr>bUpdate := True\<rparr>"
  by (simp_all add: UpdateCamBaseInfo_def SetUpdateInfo_def Let_def)

lemma RestartCam_flags:
  "RestartCam onv c = Some c' \<Longrightarrow> m_bReconnFlag c' = m_bReconnFlag c \<and>
     m_VSQueWekPtr c' = m_VSQueWekPtr c \<and> m_CamBaseInfo c' = (m_CamBaseInfo c)\<lparr>bUpdate := False\<rparr>"
  by (auto simp: RestartCam_def split: bind_splits dest!: OpenCamera_flags)

lemma GetConnTimeOut_off: "\<not> m_bReconnFlag c \<Longrightarrow> GetConnTimeOut now c = (False, c)"
  by (simp add: GetConnTimeOut_def Let_def)

lemma PullStream_ok:
  assumes ok: "queues_ok m" and off: "\<not> m_bReconnFlag c"
    and st: "PullStream onv now t fs (c, m) = Some (c', m')"
  shows "queues_ok m' \<and> m_mapVSObjs m' = m_mapVSObjs m \<and> \<not> m_bReconnFlag c' \<and>
    m_VSQueWekPtr c' = m_VSQueWekPtr c \<and>
    m_CamBaseInfo c' = (m_CamBaseInfo c)\<lparr>bUpdate := False\<rparr> \<and>
    (\<forall>b. m_VSQueWekPtr c \<noteq> Some b \<longrightarrow> vq_heap m' b = vq_heap m b)"
proof (cases "GetUpdate c")
  case True
  then show ?thesis
    using st ok off by (auto simp: PullStream_def split: bind_splits dest!: RestartCam_flags)
next
  case False
  then have upd: "m_CamBaseInfo c = (m_CamBaseInfo c)\<lparr>bUpdate := False\<rparr>"
    by (simp add: GetUpdate_def)
  show ?thesis
  proof (cases "has_scheduler c")
    case True
    obtain c1 m1 where d: "deliver now t fs (c, m) = Some (c1, m1)"
      using st False True by (auto simp: PullStream_def split: bind_splits)
    note 1 = deliver_ok [OF ok d]
    then have "c' = c1 \<and> m' = m1"
      using st False True d off by (auto simp: PullStream_def GetConnTimeOut_off)
    then show ?thesis using 1 off config_eqD [of c1 c] upd by metis
  qed (use st ok off False upd in \<open>simp add: PullStream_def\<close>)
qed

lemma SnapShotLoop_ok:
  assumes ok: "queues_ok m" and st: "SnapShotLoop dec now t (c, m) = Some (c', m')"
  shows "queues_ok m' \<and> m_mapVSObjs m' = m_mapVSObjs m \<and> \<not> m_bReconnFlag c' \<and>
    m_VSQueWekPtr c' = m_VSQueWekPtr c \<and> m_CamBaseInfo c' = m_CamBaseInfo c \<and>
    (\<forall>b. m_VSQueWekPtr c \<noteq> Some b \<longrightarrow> vq_heap m' b = vq_heap m b)"
proof (cases "lock_weak m (m_VSQueWekPtr c)")
  case None
  then show ?thesis using st ok by (auto simp: SnapShotLoop_def SetConnTimeOut_def split: bind_splits)
next
  case (Some a)
  obtain q where a: "m_VSQueWekPtr c = Some a" "vq_heap m a = Some q" "queue_wf q"
    using lock_weak_ok [OF ok Some] by blast
  then obtain data where m': "m' = put_queue a (PushMat t (dec data) q) m"
    and c': "c' = SetConnTimeOut now False c"
    using st Some by (auto simp: SnapShotLoop_def split: bind_splits)
  have "queue_wf (PushMat t (dec data) q)" using a(3) by (simp add: PushMat_def offer_wf)
  then show ?thesis
    using put_queue_ok [OF ok a(2)] a(1) by (simp add: m' c' SetConnTimeOut_def)
qed

section \<open>Runs of a client\<close>

text \<open>
  What can happen to a client: it is opened, its pull thread or its snapshot thread does a
  round, its camera's data are replaced, or somebody else works on the queue objects.
\<close>

inductive client_step :: "CRtspCliMng \<times> queue_manager \<Rightarrow> CRtspCliMng \<times> queue_manager \<Rightarrow> bool" where
  step_open: "OpenCamera onv c = Some c' \<Longrightarrow> client_step (c, m) (c', m)"
| step_pull: "PullStream onv now t fs s = Some s' \<Longrightarrow> client_step s s'"
| step_snap: "SnapShotLoop dec now t s = Some s' \<Longrightarrow> client_step s s'"
| step_update: "client_step (c, m) (UpdateCamBaseInfo cam c, m)"
| step_other: "queues_ok m' \<Longrightarrow> client_step (c, m) (c, m')"

inductive_cases client_stepE: "client_step s s'"

lemma client_step_off:
  "client_step s s' \<Longrightarrow> queues_ok (snd s) \<and> \<not> m_bReconnFlag (fst s) \<Longrightarrow>
   queues_ok (snd s') \<and> \<not> m_bReconnFlag (fst s')"
proof (induction rule: client_step.induct)
  case (step_pull onv now t fs s s')
  then show ?case using PullStream_ok [of "snd s" "fst s" onv now t fs "fst s'" "snd s'"] by simp
next
  case (step_snap dec now t s s')
  then show ?case using SnapShotLoop_ok [of "snd s" dec now t "fst s" "fst s'" "snd s'"] by simp
qed (auto dest: OpenCamera_flags)

interpretation client_system: step_system
  "\<lambda>s. queues_ok (snd s) \<and> (\<exists>t0 cam. fst s = new_CRtspCliMng t0 cam (snd s))" client_step
  "\<lambda>s. queues_ok (snd s) \<and> \<not> m_bReconnFlag (fst s)"
  by unfold_locales (auto simp: new_CRtspCliMng_def Let_def dest: client_step_off)

text \<open>A concrete camera and its client, for the witnesses.\<close>

definition demo_onvif :: onvif where
  "demo_onvif = \<lparr>GetStreamUri = (\<lambda>ip u p. ''rtsp://'' @ ip),
     GetSnapshotUri = (\<lambda>ip u p. ''http://'' @ ip @ ''/snap'')\<rparr>"

definition demo_camera :: TCameraBaseInfo where
  "demo_camera = empty_camera\<lparr>strCameraCode := ''A'', strIP := ''10.0.0.7''\<rparr>"

lemmas client_eval = OpenCamera_def GetRtspAndSnapUrl_def snap_index_def demo_onvif_def demo_camera_def
  empty_camera_def SetPullStreamCB_def SetFirstPicFlag_def STREAM_MODEL_def Let_def
  new_CRtspCliMng_def

text \<open>
  The reconnection never happens. The flag that arms it is set to false by every call that
  writes it, so whatever a client has been through, a round of its pull thread only delivers
  the frames that have arrived, however long the camera has been silent.
\<close>

theorem reconnect_never:
  assumes "client_step\<^sup>*\<^sup>* (new_CRtspCliMng t0 cam m0, m0) (c, m)" and "queues_ok m0"
    and "\<not> GetUpdate c" and "has_scheduler c"
  shows "GetConnTimeOut now c = (False, c) \<and>
    PullStream onv now t fs (c, m) = deliver now t fs (c, m)"
proof -
  have off: "\<not> m_bReconnFlag c" "queues_ok m"
    using client_system.invar_reached [OF _ assms(1)] assms(2) by auto
  have "PullStream onv now t fs (c, m) = deliver now t fs (c, m)"
  proof (cases "deliver now t fs (c, m)")
    case (Some s)
    obtain c1 m1 where s: "s = (c1, m1)" by fastforce
    then have "\<not> m_bReconnFlag c1"
      using deliver_ok [OF off(2), of now t fs c c1 m1] off(1) Some by simp
    then show ?thesis using assms(3,4) Some
      by (simp add: PullStream_def GetConnTimeOut_off s)
  qed (use assms(3,4) in \<open>simp add: PullStream_def\<close>)
  then show ?thesis using off(1) by (simp add: GetConnTimeOut_off)
qed

theorem reconnect_never_witness:
  "\<exists>c. OpenCamera demo_onvif (new_CRtspCliMng 0 demo_camera no_queues) = Some c \<and>
     PullStream demo_onvif 1000000 ''t'' [] (c, no_queues) = Some (c, no_queues)"
proof -
  let ?c0 = "new_CRtspCliMng 0 demo_camera no_queues"
  obtain c where c: "OpenCamera demo_onvif ?c0 = Some c" "has_scheduler c" "\<not> GetUpdate c"
    by (simp add: client_eval GetUpdate_def)
  have "PullStream demo_onvif 1000000 ''t'' [] (c, no_queues) = deliver 1000000 ''t'' [] (c, no_queues)"
    by (rule conjunct2, rule reconnect_never [of 0 demo_camera no_queues])
      (use c step_open in \<open>auto simp: no_queues_ok\<close>)
  then show ?thesis using c by simp
qed

text \<open>Successive rounds of the pull thread, each with its own answers, time and frames.\<close>

fun pull_rounds :: "(onvif \<times> int \<times> string \<times> frame list) list \<Rightarrow>
    CRtspCliMng \<times> queue_manager \<Rightarrow> (CRtspCliMng \<times> queue_manager) option" where
  "pull_rounds [] s = Some s"
| "pull_rounds ((onv, now, t, fs) # rs) s = do {
     s1 \<leftarrow> PullStream onv now t fs s;
     pull_rounds rs s1}"

lemma pull_idle:
  "\<not> GetUpdate c \<Longrightarrow> \<not> has_scheduler c \<Longrightarrow> pull_rounds rs (c, m) = Some (c, m)"
  by (induction rs) (auto simp: PullStream_def)

text \<open>
  A camera that cannot be reached when its client is restarted is never tried again. If the
  ONVIF answer to a restart is empty, the pull thread's later rounds do nothing at all, whatever
  the camera answers then: the client has neither a scheduler nor a pending update.
\<close>

theorem failed_restart_stuck:
  assumes "GetUpdate c"
    and "GetStreamUri onv (strIP (m_CamBaseInfo c)) (strUserName (m_CamBaseInfo c))
      (strPassword (m_CamBaseInfo c)) = []"
  shows "\<exists>c1. pull_rounds ((onv, now, t, fs) # rs) (c, m) = Some (c1, m) \<and> \<not> has_scheduler c1 \<and>
    \<not> has_snap_thread c1 \<and> m_CamBaseInfo c1 = (m_CamBaseInfo c)\<lparr>bUpdate := False\<rparr>"
proof -
  let ?c1 = "SetUpdate False ((ReleaseSource c)\<lparr>m_strRtspUrl := [], m_strSnapshotUrl :=
    GetSnapshotUri onv (strIP (m_CamBaseInfo c)) (strUserName (m_CamBaseInfo c))
      (strPassword (m_CamBaseInfo c))\<rparr>)"
  have "PullStream onv now t fs (c, m) = Some (?c1, m)"
    using assms by (simp add: PullStream_def RestartCam_def OpenCamera_def GetRtspAndSnapUrl_def Let_def)
  moreover have "\<not> GetUpdate ?c1" "\<not> has_scheduler ?c1" "\<not> has_snap_thread ?c1"
    by (simp_all add: GetUpdate_def SetUpdate_def ReleaseSource_def CloseCamera_def
        CloseScheduler_def CloseFmpeg_def)
  ultimately show ?thesis
    using pull_idle [of ?c1 rs m] by (intro exI [of _ ?c1]) simp
qed

theorem failed_restart_stuck_witness:
  "\<exists>c1. pull_rounds [(\<lparr>GetStreamUri = (\<lambda>_ _ _. []), GetSnapshotUri = (\<lambda>_ _ _. [])\<rparr>, 0, ''t'', []),
       (demo_onvif, 60, ''t'', []), (demo_onvif, 120, ''t'', [])]
     (UpdateCamBaseInfo demo_camera (new_CRtspCliMng 0 demo_camera no_queues), no_queues) =
       Some (c1, no_queues) \<and> \<not> has_scheduler c1"
  using failed_restart_stuck [of "UpdateCamBaseInfo demo_camera (new_CRtspCliMng 0 demo_camera no_queues)"
      "\<lparr>GetStreamUri = (\<lambda>_ _ _. []), GetSnapshotUri = (\<lambda>_ _ _. [])\<rparr>" 0 "''t''" "[]"
      "[(demo_onvif, 60, ''t'', []), (demo_onvif, 120, ''t'', [])]" no_queues]
  by (auto simp: GetUpdate_def)

text \<open>
  A restart after an update works with the new data: the client remembers the camera it was
  given, takes the stream address the camera announces for the new address and account, cuts
  the snapshot page out of the snapshot URL after the address, and owns the resources of the
  camera's working mode and no others.
\<close>

theorem restart_applies_update:
  assumes "GetStreamUri onv (strIP cam) (strUserName cam) (strPassword cam) = url" and "url \<noteq> []"
    and "GetSnapshotUri onv (strIP cam) (strUserName cam) (strPassword cam) = pre @ strIP cam @ page"
    and "pre @ strIP cam @ page \<noteq> []"
    and "str_find (strIP cam) (pre @ strIP cam @ page) = Some (length pre)"
  shows "\<exists>c'. PullStream onv now t fs (UpdateCamBaseInfo cam c, m) = Some (c', m) \<and>
    m_CamBaseInfo c' = cam\<lparr>bUpdate := False\<rparr> \<and> m_strRtspUrl c' = url \<and>
    m_strSnapShotPag c' = page \<and> m_strSnapShotHost c' = strIP cam \<and>
    m_strSnapShotAuth c' = strUserName cam @ '':'' @ strPassword cam \<and>
    has_scheduler c' = (s32WorkMode cam = 0) \<and> has_client c' = (s32WorkMode cam = 0) \<and>
    has_ffmpeg c' = (s32WorkMode cam = 0) \<and> has_snap_thread c' = (s32WorkMode cam \<noteq> 0)"
proof -
  have idx: "snap_index (pre @ strIP cam @ page) (strIP cam) = length pre + length (strIP cam)"
    by (simp add: snap_index_def assms(5))
  have "drop (length pre + length (strIP cam)) (pre @ strIP cam @ page) = page" by simp
  then show ?thesis
    using assms(1,2,4) idx
    by (simp add: PullStream_def GetUpdate_def RestartCam_def OpenCamera_def GetRtspAndSnapUrl_def
        assms(3) Let_def SetPullStreamCB_def STREAM_MODEL_def SetFirstPicFlag_def
        SetUpdate_def ReleaseSource_def CloseCamera_def CloseScheduler_def CloseFmpeg_def)
qed

theorem restart_applies_update_witness:
  "\<exists>c'. PullStream demo_onvif 5 ''t'' []
      (UpdateCamBaseInfo demo_camera (new_CRtspCliMng 0 empty_camera no_queues), no_queues) =
        Some (c', no_queues) \<and> m_strRtspUrl c' = ''rtsp://10.0.0.7'' \<and>
      m_strSnapShotPag c' = ''/snap'' \<and> has_scheduler c'"
  using restart_applies_update [of demo_onvif demo_camera "''rtsp://10.0.0.7''" "''http://''" "''/snap''"
      5 "''t''" "[]" "new_CRtspCliMng 0 empty_camera no_queues" no_queues]
  by (auto simp: demo_onvif_def demo_camera_def empty_camera_def)

text \<open>
  The restart as the threads interleave: \<open>other\<close> is what the thread of the manager does to the
  client after the camera is opened and before the update flag is cleared. Alone, it is the restart.
\<close>

definition RestartCam_with ::
    "onvif \<Rightarrow> (CRtspCliMng \<Rightarrow> CRtspCliMng) \<Rightarrow> CRtspCliMng \<Rightarrow> CRtspCliMng option" where
  "RestartCam_with onv other c = do {
     c1 \<leftarrow> OpenCamera onv (ReleaseSource c);
     Some (SetUpdate False (other c1))}"

lemma RestartCam_alone: "RestartCam_with onv (\<lambda>c. c) c = RestartCam onv c"
  by (simp add: RestartCam_with_def RestartCam_def)

text \<open>
  An update that arrives while a restart is under way is lost: it is recorded in the
  camera's data, but the flag that would trigger the next restart is cleared with the old
  one, and the client stays connected to the stream address of the old data.
\<close>

theorem update_lost_in_restart:
  assumes "RestartCam_with onv (UpdateCamBaseInfo cam) c = Some c'"
  shows "m_CamBaseInfo c' = cam\<lparr>bUpdate := False\<rparr> \<and> \<not> GetUpdate c' \<and>
    m_strRtspUrl c' = GetStreamUri onv (strIP (m_CamBaseInfo c)) (strUserName (m_CamBaseInfo c))
      (strPassword (m_CamBaseInfo c))"
  using assms
  by (auto simp: RestartCam_with_def OpenCamera_def GetRtspAndSnapUrl_def Let_def
      UpdateCamBaseInfo_def SetUpdateInfo_def SetUpdate_def GetUpdate_def SetPullStreamCB_def
      SetFirstPicFlag_def split: bind_splits if_splits)

theorem update_lost_in_restart_witness:
  "\<exists>c'. RestartCam_with demo_onvif (UpdateCamBaseInfo (demo_camera\<lparr>strIP := ''10.0.0.8''\<rparr>))
      (new_CRtspCliMng 0 demo_camera no_queues) = Some c' \<and>
     strIP (m_CamBaseInfo c') = ''10.0.0.8'' \<and> m_strRtspUrl c' = ''rtsp://10.0.0.7'' \<and> \<not> GetUpdate c'"
proof -
  let ?cam = "demo_camera\<lparr>strIP := ''10.0.0.8''\<rparr>" and ?c = "new_CRtspCliMng 0 demo_camera no_queues"
  obtain c' where c': "RestartCam_with demo_onvif (UpdateCamBaseInfo ?cam) ?c = Some c'"
    by (simp add: RestartCam_with_def client_eval)
  have "m_CamBaseInfo ?c = demo_camera" by (simp add: new_CRtspCliMng_def Let_def)
  then show ?thesis
    using update_lost_in_restart [OF c'] c' by (auto simp: demo_onvif_def demo_camera_def)
qed

section \<open>Sessions of constant size\<close>

definition frame_of_size :: "int \<Rightarrow> int \<Rightarrow> frame \<Rightarrow> bool" where
  "frame_of_size h w f \<longleftrightarrow> fr_buffer f \<noteq> [] \<and> (case fr_picture f of None \<Rightarrow> True
     | Some (h', w', px) \<Rightarrow> h' = h \<and> w' = w \<and> int (length px) = w * h * 3)"

text \<open>The queue object is set to the size, or will be with the next picture.\<close>

definition size_ready :: "int \<Rightarrow> int \<Rightarrow> CRtspCliMng \<times> queue_manager \<Rightarrow> bool" where
  "size_ready h w = (\<lambda>(c, m). m_bFirstPicFlag c \<or> (\<forall>a q. m_VSQueWekPtr c = Some a \<longrightarrow>
     vq_heap m a = Some q \<longrightarrow> m_s32Height q = h \<and> m_s32Width q = w))"

lemma PushBytes_exact:
  assumes "m_s32Height q = h" "m_s32Width q = w" "0 \<le> h" "0 \<le> w" "w * h * 3 < 2 ^ 31"
    "int (length px) = w * h * 3"
  shows "\<exists>q'. PushBytes t px q = Some q' \<and> m_s32Height q' = h \<and> m_s32Width q' = w"
proof -
  have "0 \<le> w * h" using assms(3,4) by simp
  define p where "p = w * h"
  have "0 \<le> p" "w * h = p" using mult_nonneg_nonneg [OF assms(4,3)] by (simp_all add: p_def)
  then show ?thesis
    using assms by (simp add: PushBytes_def i32_def rd_def offer_def)
qed

lemma CallBackFunc_total:
  assumes ok: "queues_ok m" and ff: "has_ffmpeg c" and f: "frame_of_size h w f"
    and sz: "0 \<le> h" "0 \<le> w" "w * h * 3 < 2 ^ 31" and rdy: "size_ready h w (c, m)"
  shows "\<exists>s'. CallBackFunc now t f (c, m) = Some s' \<and> size_ready h w s'"
proof -
  have "fr_buffer f \<noteq> []" using f by (simp add: frame_of_size_def)
  then have buf: "get (fr_buffer f) 0 = Some (fr_buffer f ! 0)" by (simp add: get_def)
  have keep: "size_ready h w (SetConnTimeOut now b d, n) = size_ready h w (d, n)" for b d n
    by (simp add: size_ready_def SetConnTimeOut_def)
  show ?thesis
  proof (cases "lock_weak m (m_VSQueWekPtr c)")
    case (Some a)
    obtain q where a: "m_VSQueWekPtr c = Some a" "vq_heap m a = Some q"
      using lock_weak_ok [OF ok Some] by blast
    show ?thesis
    proof (cases "fr_picture f")
      case (Some pic)
      obtain px where pic: "pic = (h, w, px)" "int (length px) = w * h * 3"
        using f Some by (auto simp: frame_of_size_def)
      let ?q = "if m_bFirstPicFlag c then SetFirstPicSize h w q else q"
      have "m_s32Height ?q = h" "m_s32Width ?q = w"
        using rdy a by (auto simp: size_ready_def SetFirstPicSize_def)
      then obtain q' where q': "PushBytes t px ?q = Some q'" "m_s32Height q' = h" "m_s32Width q' = w"
        using PushBytes_exact [OF _ _ sz pic(2)] by blast
      then show ?thesis
        using \<open>lock_weak m (m_VSQueWekPtr c) = Some a\<close> Some a buf rdy ff pic
        by (auto simp: CallBackFunc_def store_picture_def Let_def keep)
          (auto simp: size_ready_def SetFirstPicFlag_def)
    qed (use Some buf rdy ff in \<open>auto simp: CallBackFunc_def keep\<close>)
  qed (use buf rdy in \<open>auto simp: CallBackFunc_def keep\<close>)
qed

text \<open>
  While the camera keeps its picture size, its frames are processed without touching memory
  outside the decoded pictures: delivering any frames whose decoded pictures all have one size
  succeeds, from a freshly opened client or from one that has already seen that size.
\<close>

theorem constant_size_session_safe:
  assumes "queues_ok m" "has_ffmpeg c" "size_ready h w (c, m)"
    and "0 \<le> h" "0 \<le> w" "w * h * 3 < 2 ^ 31" and "\<forall>f \<in> set fs. frame_of_size h w f"
  shows "\<exists>c' m'. deliver now t fs (c, m) = Some (c', m') \<and> queues_ok m' \<and> size_ready h w (c', m')"
  using assms
proof (induction fs arbitrary: c m)
  case (Cons f fs)
  have f: "frame_of_size h w f" using Cons.prems(7) by simp
  obtain c1 m1 where 1: "CallBackFunc now t f (c, m) = Some (c1, m1)" "size_ready h w (c1, m1)"
    using CallBackFunc_total [OF Cons.prems(1,2) f Cons.prems(4-6,3), of now t] by auto
  then have "queues_ok m1" "has_ffmpeg c1"
    using CallBackFunc_ok [OF Cons.prems(1) 1(1)] Cons.prems(2) config_eqD(4) [of c1 c] by auto
  then show ?case
    using Cons.IH [of m1 c1] 1 Cons.prems(4-7) by simp
qed simp

theorem constant_size_session_safe_witness:
  "\<exists>c' m'. deliver 0 ''t'' [\<lparr>fr_records = 2, fr_buffer = [0x65], fr_picture = Some (1, 1, [1, 2, 3])\<rparr>]
     ((new_CRtspCliMng 0 demo_camera (AddQueueObj ''A'' no_queues))\<lparr>has_ffmpeg := True\<rparr>,
      AddQueueObj ''A'' no_queues) = Some (c', m') \<and> queues_ok m' \<and> size_ready 1 1 (c', m')"
  by (rule constant_size_session_safe)
    (simp_all add: AddQueueObj_ok no_queues_ok size_ready_def new_CRtspCliMng_def Let_def
      frame_of_size_def)

end
