(* ===== verification/VideoMng.thy ===== *)
theory VideoMng
  imports RtspCliMng
begin

text \<open>
  The cameras of the video service (transfer/rtsp/net/PullStream.cpp, PullStreamMng.cpp,
  VideoMng.cpp, VideoModule.cpp): one pull-stream object and one picture-queue object per camera
  code, kept in two maps that the operations of the video manager change together. The step
  relation interleaves those operations with the rounds of the cameras' threads and with the
  consumers that take pictures; the invariant says how the two maps agree.
\<close>

section \<open>Pull-stream objects and their manager\<close>

record CPullStream =
  m_bRuning :: bool
  m_RtspClientMngPtr :: CRtspCliMng

definition new_CPullStream :: "int \<Rightarrow> TCameraBaseInfo \<Rightarrow> queue_manager \<Rightarrow> CPullStream" where
  "new_CPullStream now camBaseInfo m =
     \<lparr>m_bRuning = False, m_RtspClientMngPtr = new_CRtspCliMng now camBaseInfo m\<rparr>"

definition StartStream :: "onvif \<Rightarrow> CPullStream \<Rightarrow> (bool \<times> CPullStream) option" where
  "StartStream onv p = (if m_bRuning p then Some (False, p)
     else do {
       c \<leftarrow> OpenCamera onv (m_RtspClientMngPtr p);
       Some (True, p\<lparr>m_RtspClientMngPtr := c, m_bRuning := True\<rparr>)})"

definition PullStreamLoop :: "onvif \<Rightarrow> int \<Rightarrow> string \<Rightarrow> frame list \<Rightarrow>
    CPullStream \<times> queue_manager \<Rightarrow> (CPullStream \<times> queue_manager) option" where
  "PullStreamLoop onv now CurTime fs = (\<lambda>(p, m). do {
     (c, m1) \<leftarrow> PullStream onv now CurTime fs (m_RtspClientMngPtr p, m);
     Some (p\<lparr>m_RtspClientMngPtr := c\<rparr>, m1)})"

definition UpdateCameraBaseInfo :: "TCameraBaseInfo \<Rightarrow> CPullStream \<Rightarrow> CPullStream" where
  "UpdateCameraBaseInfo camBaseInfo p =
     p\<lparr>m_RtspClientMngPtr := UpdateCamBaseInfo camBaseInfo (m_RtspClientMngPtr p)\<rparr>"

text \<open>The two singletons the video manager works on.\<close>

record video =
  vm_queues :: queue_manager
  m_mapPSObjs :: "string \<Rightarrow> CPullStream option"

definition no_video :: video where
  "no_video = \<lparr>vm_queues = no_queues, m_mapPSObjs = (\<lambda>_. None)\<rparr>"

definition PSMngAdd :: "int \<Rightarrow> TCameraBaseInfo \<Rightarrow> video \<Rightarrow> video" where
  "PSMngAdd now camBaseInfo v = (case m_mapPSObjs v (strCameraCode camBaseInfo) of
     Some _ \<Rightarrow> v
   | None \<Rightarrow> v\<lparr>m_mapPSObjs := (m_mapPSObjs v)(strCameraCode camBaseInfo :=
       Some (new_CPullStream now camBaseInfo (vm_queues v)))\<rparr>)"

definition PSMngDel :: "string \<Rightarrow> video \<Rightarrow> video" where
  "PSMngDel strCamCode v = (case m_mapPSObjs v strCamCode of
     Some _ \<Rightarrow> v\<lparr>m_mapPSObjs := (m_mapPSObjs v)(strCamCode := None)\<rparr>
   | None \<Rightarrow> v)"

definition PSMngStart :: "onvif \<Rightarrow> string \<Rightarrow> video \<Rightarrow> video option" where
  "PSMngStart onv strCamCode v = (case m_mapPSObjs v strCamCode of
     Some p \<Rightarrow> do {
       (ok, p') \<leftarrow> StartStream onv p;
       Some (v\<lparr>m_mapPSObjs := (m_mapPSObjs v)(strCamCode := Some p')\<rparr>)}
   | None \<Rightarrow> Some v)"

definition CameraIsExist :: "string \<Rightarrow> video \<Rightarrow> bool" where
  "CameraIsExist strCamCode v \<longleftrightarrow> m_mapPSObjs v strCamCode \<noteq> None"

definition PSMngUpdate :: "TCameraBaseInfo \<Rightarrow> video \<Rightarrow> video" where
  "PSMngUpdate camBaseInfo v = (case m_mapPSObjs v (strCameraCode camBaseInfo) of
     Some p \<Rightarrow> v\<lparr>m_mapPSObjs := (m_mapPSObjs v)(strCameraCode camBaseInfo :=
       Some (UpdateCameraBaseInfo camBaseInfo p))\<rparr>
   | None \<Rightarrow> v)"

section \<open>The video manager\<close>

definition add_queue :: "string \<Rightarrow> video \<Rightarrow> video" where
  "add_queue c v = v\<lparr>vm_queues := AddQueueObj c (vm_queues v)\<rparr>"

definition AddPullStreamObj :: "int \<Rightarrow> TCameraBaseInfo \<Rightarrow> video \<Rightarrow> bool \<times> video" where
  "AddPullStreamObj now camBaseInfo v =
     (if QueueIsExist (strCameraCode camBaseInfo) (vm_queues v)
      then (False, PSMngUpdate camBaseInfo v)
      else (True, PSMngAdd now camBaseInfo (add_queue (strCameraCode camBaseInfo) v)))"

fun StartPullStreamObj :: "onvif \<Rightarrow> int \<Rightarrow> (string \<times> TCameraBaseInfo) list \<Rightarrow> video \<Rightarrow> video option" where
  "StartPullStreamObj onv now [] v = Some v"
| "StartPullStreamObj onv now ((k, cam) # mapCamera) v = (case AddPullStreamObj now cam v of
     (added, v1) \<Rightarrow> if \<not> added then StartPullStreamObj onv now mapCamera v1
       else do {
         v2 \<leftarrow> PSMngStart onv (strCameraCode cam) v1;
         StartPullStreamObj onv now mapCamera v2})"

definition VideoStart :: "onvif \<Rightarrow> int \<Rightarrow> (string \<times> TCameraBaseInfo) list \<Rightarrow> video \<Rightarrow> (bool \<times> video) option" where
  "VideoStart onv now mapCamera v = map_option (Pair True) (StartPullStreamObj onv now mapCamera v)"

definition DelPullStreamObj :: "TCameraBaseInfo \<Rightarrow> video \<Rightarrow> video" where
  "DelPullStreamObj camBaseInfo v = (let v1 = PSMngDel (strCameraCode camBaseInfo) v in
     v1\<lparr>vm_queues := DelQueueObj (strCameraCode camBaseInfo) (vm_queues v1)\<rparr>)"

definition ModifyPullStreamObj :: "onvif \<Rightarrow> int \<Rightarrow> TCameraBaseInfo \<Rightarrow> video \<Rightarrow> video option" where
  "ModifyPullStreamObj onv now camBaseInfo v =
     (if \<not> CameraIsExist (strCameraCode camBaseInfo) v
      then PSMngStart onv (strCameraCode camBaseInfo)
             (PSMngAdd now camBaseInfo (add_queue (strCameraCode camBaseInfo) v))
      else Some (PSMngUpdate camBaseInfo v))"

fun SyncAddCameraInfo :: "onvif \<Rightarrow> int \<Rightarrow> TCameraBaseInfo list \<Rightarrow> video \<Rightarrow> video option" where
  "SyncAddCameraInfo onv now [] v = Some v"
| "SyncAddCameraInfo onv now (cam # cams) v = do {
     v1 \<leftarrow> PSMngStart onv (strCameraCode cam) (snd (AddPullStreamObj now cam v));
     SyncAddCameraInfo onv now cams v1}"

fun SyncDelCameraInfo :: "TCameraBaseInfo list \<Rightarrow> video \<Rightarrow> video" where
  "SyncDelCameraInfo [] v = v"
| "SyncDelCameraInfo (cam # cams) v = SyncDelCameraInfo cams (DelPullStreamObj cam v)"

fun SyncModifyCameraInfo :: "onvif \<Rightarrow> int \<Rightarrow> TCameraBaseInfo list \<Rightarrow> video \<Rightarrow> video option" where
  "SyncModifyCameraInfo onv now [] v = Some v"
| "SyncModifyCameraInfo onv now (cam # cams) v = do {
     v1 \<leftarrow> ModifyPullStreamObj onv now cam v;
     SyncModifyCameraInfo onv now cams v1}"

section \<open>The module's face\<close>

text \<open>The module hands its calls on to the managers; its own state is the callback object.\<close>

record 'cb module_state =
  m_pBDRCallBack :: "'cb option"
  ms_video :: video

definition InitModule :: "'cb option \<Rightarrow> 'cb module_state \<Rightarrow> bool \<times> 'cb module_state" where
  "InitModule pCallbackObj s = (True,
     if m_pBDRCallBack s = None then s\<lparr>m_pBDRCallBack := pCallbackObj\<rparr> else s)"

definition StartModule :: "onvif \<Rightarrow> int \<Rightarrow> (string \<times> TCameraBaseInfo) list \<Rightarrow>
    'cb module_state \<Rightarrow> (bool \<times> 'cb module_state) option" where
  "StartModule onv now mapCamera s = map_option (\<lambda>(b, v). (b, s\<lparr>ms_video := v\<rparr>))
     (VideoStart onv now mapCamera (ms_video s))"

definition ModuleGetActImage :: "string \<Rightarrow> st_cvMat \<Rightarrow> video \<Rightarrow> st_cvMat \<times> video" where
  "ModuleGetActImage code stcvMat v =
     (case MngGetActImage code NonSelfDef stcvMat (vm_queues v) of
        (x, m) \<Rightarrow> (x, v\<lparr>vm_queues := m\<rparr>))"

definition ModuleGetCmmImage :: "string \<Rightarrow> st_cvMat \<Rightarrow> video \<Rightarrow> st_cvMat \<times> video" where
  "ModuleGetCmmImage code stcvMat v =
     (case MngGetCmmImage code stcvMat (vm_queues v) of
        (x, m) \<Rightarrow> (x, v\<lparr>vm_queues := m\<rparr>))"

definition ReportCameraRunState ::
    "('cb \<Rightarrow> string \<Rightarrow> int \<Rightarrow> bool) \<Rightarrow> string \<Rightarrow> int \<Rightarrow> 'cb module_state \<Rightarrow> bool" where
  "ReportCameraRunState call CameraCode state s = (case m_pBDRCallBack s of
     None \<Rightarrow> False
   | Some cb \<Rightarrow> call cb CameraCode state)"

section \<open>How the two maps agree\<close>

definition stream_ok :: "video \<Rightarrow> string \<Rightarrow> CPullStream \<Rightarrow> bool" where
  "stream_ok v code p \<longleftrightarrow>
     m_VSQueWekPtr (m_RtspClientMngPtr p) = m_mapVSObjs (vm_queues v) code \<and>
     m_mapVSObjs (vm_queues v) code \<noteq> None \<and>
     \<not> m_bReconnFlag (m_RtspClientMngPtr p) \<and>
     strCameraCode (m_CamBaseInfo (m_RtspClientMngPtr p)) = code"

text \<open>\<open>R\<close> is the set of the codes whose stream need not be running.\<close>

definition video_ok :: "string set \<Rightarrow> video \<Rightarrow> bool" where
  "video_ok R v \<longleftrightarrow> queues_ok (vm_queues v) \<and>
     (\<forall>code. m_mapPSObjs v code = None \<longleftrightarrow> m_mapVSObjs (vm_queues v) code = None) \<and>
     (\<forall>code p. m_mapPSObjs v code = Some p \<longrightarrow> stream_ok v code p \<and> (code \<notin> R \<longrightarrow> m_bRuning p))"

lemma video_okD:
  assumes "video_ok R v"
  shows "queues_ok (vm_queues v)"
    and "m_mapPSObjs v code = None \<longleftrightarrow> m_mapVSObjs (vm_queues v) code = None"
    and "m_mapPSObjs v code = Some p \<Longrightarrow> stream_ok v code p"
    and "m_mapPSObjs v code = Some p \<Longrightarrow> code \<notin> R \<Longrightarrow> m_bRuning p"
  using assms by (simp_all add: video_ok_def)

lemma no_video_ok: "video_ok {} no_video"
  by (simp add: video_ok_def no_video_def no_queues_ok) (simp add: no_queues_def)

lemma PSMngUpdate_ok:
  assumes ok: "video_ok {} v"
  shows "video_ok {} (PSMngUpdate cam v)"
proof (cases "m_mapPSObjs v (strCameraCode cam)")
  case (Some p)
  have p: "stream_ok v (strCameraCode cam) p" "m_bRuning p"
    using video_okD(3,4) [OF ok Some] by auto
  show ?thesis
    unfolding video_ok_def
  proof (intro conjI allI impI)
    show "queues_ok (vm_queues (PSMngUpdate cam v))"
      using video_okD(1) [OF ok] Some by (simp add: PSMngUpdate_def)
    show "m_mapPSObjs (PSMngUpdate cam v) code = None \<longleftrightarrow>
      m_mapVSObjs (vm_queues (PSMngUpdate cam v)) code = None" for code
      using video_okD(2) [OF ok, of code] Some p(1) by (auto simp: PSMngUpdate_def stream_ok_def)
    show "stream_ok (PSMngUpdate cam v) code r"
      if "m_mapPSObjs (PSMngUpdate cam v) code = Some r" for code r
      using that video_okD(3) [OF ok, of code r] Some p
      by (auto simp: PSMngUpdate_def stream_ok_def UpdateCameraBaseInfo_def split: if_splits)
    show "m_bRuning r" if "m_mapPSObjs (PSMngUpdate cam v) code = Some r" for code r
      using that video_okD(4) [OF ok, of code r] Some p
      by (auto simp: PSMngUpdate_def UpdateCameraBaseInfo_def split: if_splits)
  qed
qed (simp add: PSMngUpdate_def ok)

text \<open>A queue and a client for a camera that has neither.\<close>

lemma add_both_ok:
  assumes ok: "video_ok {} v" and new: "m_mapPSObjs v (strCameraCode cam) = None"
  shows "video_ok {strCameraCode cam} (PSMngAdd now cam (add_queue (strCameraCode cam) v))"
    (is "video_ok _ ?v")
  unfolding video_ok_def
proof (intro conjI allI impI)
  have no: "m_mapVSObjs (vm_queues v) (strCameraCode cam) = None"
    using video_okD(2) [OF ok] new by blast
  have v': "m_mapPSObjs ?v = (m_mapPSObjs v)(strCameraCode cam := Some (new_CPullStream now cam
      (AddQueueObj (strCameraCode cam) (vm_queues v))))"
    "vm_queues ?v = AddQueueObj (strCameraCode cam) (vm_queues v)"
    using new by (simp_all add: PSMngAdd_def add_queue_def)
  show "queues_ok (vm_queues ?v)"
    using AddQueueObj_ok [OF video_okD(1) [OF ok]] by (simp add: v')
  show "m_mapPSObjs ?v code = None \<longleftrightarrow> m_mapVSObjs (vm_queues ?v) code = None" for code
    using video_okD(2) [OF ok, of code] no by (auto simp: v' AddQueueObj_map)
  show "stream_ok ?v code r" if "m_mapPSObjs ?v code = Some r" for code r
    using that video_okD(3) [OF ok, of code r] no
    by (auto simp: v' stream_ok_def AddQueueObj_map new_CPullStream_def new_CRtspCliMng_def Let_def
        GetVSQueueObj_def split: if_splits)
  show "m_bRuning r" if "m_mapPSObjs ?v code = Some r" "code \<notin> {strCameraCode cam}" for code r
    using that video_okD(4) [OF ok, of code r] by (auto simp: v')
qed

lemma PSMngStart_ok:
  assumes ok: "video_ok R v" and R: "R \<subseteq> {code}" and st: "PSMngStart onv code v = Some v'"
  shows "video_ok {} v'"
proof (cases "m_mapPSObjs v code")
  case None
  then show ?thesis using ok R st unfolding video_ok_def PSMngStart_def by fastforce
next
  case (Some p)
  obtain b p' where p': "StartStream onv p = Some (b, p')"
    and v': "v' = v\<lparr>m_mapPSObjs := (m_mapPSObjs v)(code := Some p')\<rparr>"
    using st Some by (auto simp: PSMngStart_def split: bind_splits)
  have sp: "stream_ok v code p'" "m_bRuning p'"
    using p' video_okD(3) [OF ok Some]
    by (auto simp: StartStream_def stream_ok_def split: if_splits bind_splits dest!: OpenCamera_flags)
  show ?thesis
    unfolding video_ok_def
  proof (intro conjI allI impI)
    show "queues_ok (vm_queues v')" using video_okD(1) [OF ok] by (simp add: v')
    show "m_mapPSObjs v' c = None \<longleftrightarrow> m_mapVSObjs (vm_queues v') c = None" for c
      using video_okD(2) [OF ok, of c] video_okD(2) [OF ok, of code] Some by (auto simp: v')
    show "stream_ok v' c r" if "m_mapPSObjs v' c = Some r" for c r
      using that sp video_okD(3) [OF ok, of c r] by (auto simp: v' stream_ok_def split: if_splits)
    show "m_bRuning r" if "m_mapPSObjs v' c = Some r" for c r
      using that sp R video_okD(4) [OF ok, of c r] by (auto simp: v' split: if_splits)
  qed
qed

lemma AddPullStreamObj_ok:
  assumes ok: "video_ok {} v"
  shows "video_ok (if fst (AddPullStreamObj now cam v) then {strCameraCode cam} else {})
    (snd (AddPullStreamObj now cam v))"
  using PSMngUpdate_ok [OF ok] add_both_ok [OF ok] video_okD(2) [OF ok, of "strCameraCode cam"]
  by (simp add: AddPullStreamObj_def QueueIsExist_def)

lemma StartPullStreamObj_ok:
  "video_ok {} v \<Longrightarrow> StartPullStreamObj onv now cams v = Some v' \<Longrightarrow> video_ok {} v'"
proof (induction cams arbitrary: v)
  case (Cons kc cams)
  obtain k cam where kc: "kc = (k, cam)" by fastforce
  obtain added v1 where a: "AddPullStreamObj now cam v = (added, v1)" by fastforce
  then have 1: "video_ok (if added then {strCameraCode cam} else {}) v1"
    using AddPullStreamObj_ok [OF Cons.prems(1), of now cam] by simp
  show ?case
  proof (cases added)
    case True
    then obtain v2 where "PSMngStart onv (strCameraCode cam) v1 = Some v2"
      and "StartPullStreamObj onv now cams v2 = Some v'"
      using Cons.prems(2) a kc by (auto split: bind_splits)
    then show ?thesis using Cons.IH PSMngStart_ok 1 True by fastforce
  qed (use Cons 1 a kc in auto)
qed simp

lemma SyncAddCameraInfo_ok:
  "video_ok {} v \<Longrightarrow> SyncAddCameraInfo onv now cams v = Some v' \<Longrightarrow> video_ok {} v'"
proof (induction cams arbitrary: v)
  case (Cons cam cams)
  obtain v1 where v1: "PSMngStart onv (strCameraCode cam) (snd (AddPullStreamObj now cam v)) = Some v1"
    "SyncAddCameraInfo onv now cams v1 = Some v'"
    using Cons.prems(2) by (auto split: bind_splits)
  have "video_ok {} v1"
    by (rule PSMngStart_ok [OF AddPullStreamObj_ok [OF Cons.prems(1)] _ v1(1)]) simp
  then show ?case using Cons.IH v1(2) by blast
qed simp

lemma DelPullStreamObj_ok:
  assumes ok: "video_ok {} v"
  shows "video_ok {} (DelPullStreamObj cam v)"
proof -
  have v': "m_mapPSObjs (DelPullStreamObj cam v) = (m_mapPSObjs v)(strCameraCode cam := None)"
    "vm_queues (DelPullStreamObj cam v) = DelQueueObj (strCameraCode cam) (vm_queues v)"
    by (auto simp: DelPullStreamObj_def PSMngDel_def Let_def fun_eq_iff split: option.splits)
  show ?thesis
    unfolding video_ok_def stream_ok_def v' DelQueueObj_map
    using DelQueueObj_ok [OF video_okD(1) [OF ok]] video_okD(2-4) [OF ok]
    by (auto simp: stream_ok_def split: if_splits)
qed

lemma SyncDelCameraInfo_ok: "video_ok {} v \<Longrightarrow> video_ok {} (SyncDelCameraInfo cams v)"
  by (induction cams arbitrary: v) (simp_all add: DelPullStreamObj_ok)

lemma ModifyPullStreamObj_eq:
  assumes ok: "video_ok {} v"
  shows "ModifyPullStreamObj onv now cam v =
    PSMngStart onv (strCameraCode cam) (snd (AddPullStreamObj now cam v))"
proof (cases "m_mapPSObjs v (strCameraCode cam)")
  case None
  then show ?thesis
    using video_okD(2) [OF ok, of "strCameraCode cam"]
    by (simp add: ModifyPullStreamObj_def CameraIsExist_def AddPullStreamObj_def QueueIsExist_def)
next
  case (Some p)
  have "m_bRuning (UpdateCameraBaseInfo cam p)"
    using video_okD(4) [OF ok Some] by (simp add: UpdateCameraBaseInfo_def)
  then have "StartStream onv (UpdateCameraBaseInfo cam p) = Some (False, UpdateCameraBaseInfo cam p)"
    by (simp add: StartStream_def)
  then show ?thesis
    using Some video_okD(2) [OF ok, of "strCameraCode cam"]
    by (simp add: ModifyPullStreamObj_def CameraIsExist_def AddPullStreamObj_def QueueIsExist_def
        PSMngUpdate_def PSMngStart_def)
qed

lemma SyncModify_eq_SyncAdd:
  "video_ok {} v \<Longrightarrow> SyncModifyCameraInfo onv now cams v = SyncAddCameraInfo onv now cams v"
proof (induction cams arbitrary: v)
  case (Cons cam cams)
  show ?case
  proof (cases "PSMngStart onv (strCameraCode cam) (snd (AddPullStreamObj now cam v))")
    case (Some v1)
    have "video_ok {} v1"
      by (rule PSMngStart_ok [OF AddPullStreamObj_ok [OF Cons.prems] _ Some]) simp
    then show ?thesis using Cons.IH Some by (simp add: ModifyPullStreamObj_eq [OF Cons.prems])
  qed (simp add: ModifyPullStreamObj_eq [OF Cons.prems])
qed simp

text \<open>A round of a camera's thread changes that camera's objects.\<close>

lemma client_round_ok:
  assumes ok: "video_ok {} v" and p: "m_mapPSObjs v code = Some p"
    and m': "queues_ok m'" "m_mapVSObjs m' = m_mapVSObjs (vm_queues v)"
    and c': "\<not> m_bReconnFlag c'" "m_VSQueWekPtr c' = m_VSQueWekPtr (m_RtspClientMngPtr p)"
      "strCameraCode (m_CamBaseInfo c') = strCameraCode (m_CamBaseInfo (m_RtspClientMngPtr p))"
  shows "video_ok {} (v\<lparr>vm_queues := m', m_mapPSObjs :=
    (m_mapPSObjs v)(code := Some (p\<lparr>m_RtspClientMngPtr := c'\<rparr>))\<rparr>)"
  using video_okD(3,4) [OF ok p] video_okD(2-4) [OF ok] m' c' p
  by (auto simp: video_ok_def stream_ok_def split: if_splits)

section \<open>The service as it runs\<close>

text \<open>
  A step is one operation of the video manager, one round of the pull thread or of the snapshot
  thread of one camera, or a consumer taking a picture.
\<close>

definition with_client :: "string \<Rightarrow> CPullStream \<Rightarrow> CRtspCliMng \<times> queue_manager \<Rightarrow> video \<Rightarrow> video" where
  "with_client code p s v = v\<lparr>vm_queues := snd s,
     m_mapPSObjs := (m_mapPSObjs v)(code := Some (p\<lparr>m_RtspClientMngPtr := fst s\<rparr>))\<rparr>"

inductive camera_round :: "string \<Rightarrow> video \<Rightarrow> video \<Rightarrow> bool" where
  round_pull: "m_mapPSObjs v code = Some p \<Longrightarrow>
     PullStreamLoop onv now t fs (p, vm_queues v) = Some (p', m') \<Longrightarrow>
     camera_round code v (v\<lparr>vm_queues := m', m_mapPSObjs := (m_mapPSObjs v)(code := Some p')\<rparr>)"
| round_snap: "m_mapPSObjs v code = Some p \<Longrightarrow> has_snap_thread (m_RtspClientMngPtr p) \<Longrightarrow>
     SnapShotLoop dec now t (m_RtspClientMngPtr p, vm_queues v) = Some s \<Longrightarrow>
     camera_round code v (with_client code p s v)"

inductive video_step :: "video \<Rightarrow> video \<Rightarrow> bool" where
  vs_start: "VideoStart onv now mapCamera v = Some (b, v') \<Longrightarrow> video_step v v'"
| vs_add: "SyncAddCameraInfo onv now cams v = Some v' \<Longrightarrow> video_step v v'"
| vs_del: "video_step v (SyncDelCameraInfo cams v)"
| vs_modify: "SyncModifyCameraInfo onv now cams v = Some v' \<Longrightarrow> video_step v v'"
| vs_round: "camera_round code v v' \<Longrightarrow> video_step v v'"
| vs_act: "video_step v (snd (ModuleGetActImage code out v))"
| vs_cmm: "video_step v (snd (ModuleGetCmmImage code out v))"

lemma camera_round_facts:
  "camera_round code v v' \<Longrightarrow> video_ok {} v \<Longrightarrow>
    video_ok {} v' \<and> m_mapVSObjs (vm_queues v') = m_mapVSObjs (vm_queues v) \<and>
    (\<forall>a. m_mapVSObjs (vm_queues v) code \<noteq> Some a \<longrightarrow>
       vq_heap (vm_queues v') a = vq_heap (vm_queues v) a)"
proof (induction rule: camera_round.induct)
  case (round_pull v code p onv now t fs p' m')
  note ok = round_pull(3)
  obtain c' where ps: "PullStream onv now t fs (m_RtspClientMngPtr p, vm_queues v) = Some (c', m')"
    and p': "p' = p\<lparr>m_RtspClientMngPtr := c'\<rparr>"
    using round_pull(2) by (auto simp: PullStreamLoop_def split: bind_splits)
  have sp: "stream_ok v code p" using video_okD(3) [OF ok round_pull(1)] .
  then have "\<not> m_bReconnFlag (m_RtspClientMngPtr p)" by (simp add: stream_ok_def)
  note facts = PullStream_ok [OF video_okD(1) [OF ok] this ps]
  then have "video_ok {} (v\<lparr>vm_queues := m', m_mapPSObjs := (m_mapPSObjs v)(code := Some p')\<rparr>)"
    unfolding p' by (intro client_round_ok [OF ok round_pull(1)]) simp_all
  then show ?case using facts sp by (simp add: stream_ok_def)
next
  case (round_snap v code p dec now t s)
  note ok = round_snap(4)
  have sp: "stream_ok v code p" using video_okD(3) [OF ok round_snap(1)] .
  obtain c' m' where s: "s = (c', m')" by fastforce
  note facts = SnapShotLoop_ok [OF video_okD(1) [OF ok] round_snap(3) [unfolded s]]
  then have "video_ok {} (with_client code p s v)"
    unfolding with_client_def s fst_conv snd_conv
    by (intro client_round_ok [OF ok round_snap(1)]) simp_all
  then show ?case using facts sp s by (simp add: stream_ok_def with_client_def)
qed

lemma with_queues_ok:
  "video_ok {} v \<Longrightarrow> queues_ok m' \<Longrightarrow> m_mapVSObjs m' = m_mapVSObjs (vm_queues v) \<Longrightarrow>
   video_ok {} (v\<lparr>vm_queues := m'\<rparr>)"
  by (simp add: video_ok_def stream_ok_def)

lemma video_step_ok: "video_step v v' \<Longrightarrow> video_ok {} v \<Longrightarrow> video_ok {} v'"
proof (induction rule: video_step.induct)
  case (vs_start onv now mapCamera v b v')
  then show ?case using StartPullStreamObj_ok by (auto simp: VideoStart_def)
next
  case (vs_modify onv now cams v v')
  then show ?case using SyncAddCameraInfo_ok by (simp add: SyncModify_eq_SyncAdd)
next
  case (vs_act v code out)
  then show ?case
    using with_queues_ok [OF vs_act] MngGetActImage_ok [OF video_okD(1) [OF vs_act]]
    by (simp add: ModuleGetActImage_def case_prod_beta)
next
  case (vs_cmm v code out)
  then show ?case
    using with_queues_ok [OF vs_cmm] MngGetCmmImage_ok [OF video_okD(1) [OF vs_cmm]]
    by (simp add: ModuleGetCmmImage_def case_prod_beta)
qed (auto intro: SyncAddCameraInfo_ok SyncDelCameraInfo_ok dest: camera_round_facts)

interpretation video_system: step_system "\<lambda>v. v = no_video" video_step "video_ok {}"
  by unfold_locales (auto simp: no_video_ok intro: video_step_ok)

text \<open>
  C19. In every state the service can get into, a camera code has a pull-stream object exactly
  when it has a picture queue; the client of every pull-stream object writes into the live queue
  object of its own code, and two codes never share one; and every pull-stream object is running.
\<close>

theorem video_consistent:
  assumes "video_step\<^sup>*\<^sup>* no_video v"
  shows "(CameraIsExist code v \<longleftrightarrow> QueueIsExist code (vm_queues v)) \<and>
    (m_mapPSObjs v code = Some p \<longrightarrow> m_bRuning p \<and>
      lock_weak (vm_queues v) (m_VSQueWekPtr (m_RtspClientMngPtr p)) = m_mapVSObjs (vm_queues v) code \<and>
      (\<forall>d. d \<noteq> code \<longrightarrow> m_mapVSObjs (vm_queues v) d \<noteq> m_mapVSObjs (vm_queues v) code))"
proof -
  have ok: "video_ok {} v" using video_system.invar_reached [OF refl assms] .
  then have qok: "queues_ok (vm_queues v)" by (rule video_okD(1))
  show ?thesis
  proof (intro conjI impI)
    show "CameraIsExist code v \<longleftrightarrow> QueueIsExist code (vm_queues v)"
      by (simp only: CameraIsExist_def QueueIsExist_def video_okD(2) [OF ok, of code])
    assume p: "m_mapPSObjs v code = Some p"
    show "m_bRuning p" using video_okD(4) [OF ok p] by (simp only: empty_iff simp_thms)
    obtain a where a: "m_mapVSObjs (vm_queues v) code = Some a"
      "m_VSQueWekPtr (m_RtspClientMngPtr p) = Some a"
      using video_okD(3) [OF ok p] unfolding stream_ok_def by fastforce
    obtain q where "vq_heap (vm_queues v) a = Some q" using queues_okD(2) [OF qok a(1)] by blast
    then show "lock_weak (vm_queues v) (m_VSQueWekPtr (m_RtspClientMngPtr p)) =
      m_mapVSObjs (vm_queues v) code"
      by (simp add: a lock_weak_def)
    show "\<forall>d. d \<noteq> code \<longrightarrow> m_mapVSObjs (vm_queues v) d \<noteq> m_mapVSObjs (vm_queues v) code"
    proof (intro allI impI notI)
      fix d
      assume d: "d \<noteq> code" "m_mapVSObjs (vm_queues v) d = m_mapVSObjs (vm_queues v) code"
      show False using queues_okD(3) [OF qok a(1) trans [OF d(2) a(1)]] d(1) by (rule notE [rotated, OF sym])
    qed
  qed
qed

theorem video_consistent_witness:
  "\<exists>v p. video_step no_video v \<and> m_mapPSObjs v ''A'' = Some p \<and> m_bRuning p \<and>
     QueueIsExist ''A'' (vm_queues v)"
proof -
  have "\<exists>v p. SyncAddCameraInfo demo_onvif 0 [demo_camera] no_video = Some v \<and>
    m_mapPSObjs v (strCameraCode demo_camera) = Some p"
    by (simp add: AddPullStreamObj_def QueueIsExist_def no_video_def no_queues_def add_queue_def
        PSMngAdd_def PSMngStart_def StartStream_def new_CPullStream_def client_eval)
  then obtain v p where v: "SyncAddCameraInfo demo_onvif 0 [demo_camera] no_video = Some v"
    and p: "m_mapPSObjs v (strCameraCode demo_camera) = Some p" by blast
  have code: "strCameraCode demo_camera = ''A''" by (simp add: demo_camera_def)
  have st: "video_step no_video v" using v by (rule vs_add)
  have "m_bRuning p \<and> QueueIsExist ''A'' (vm_queues v)"
    using video_consistent [OF r_into_rtranclp [of video_step, OF st], of "''A''" p] p code
    by (simp add: CameraIsExist_def)
  then show ?thesis using st p code by auto
qed

text \<open>
  C35. The cameras do not disturb one another: a round of the threads of one camera, in any state
  the service can get into, leaves every other camera's queue object as it is.
\<close>

theorem camera_isolation:
  assumes "video_step\<^sup>*\<^sup>* no_video v" and "camera_round code v v'" and "other \<noteq> code"
    and "m_mapVSObjs (vm_queues v) other = Some a"
  shows "m_mapVSObjs (vm_queues v') other = Some a \<and>
    vq_heap (vm_queues v') a = vq_heap (vm_queues v) a"
proof -
  have ok: "video_ok {} v" using video_system.invar_reached [OF refl assms(1)] .
  have "m_mapVSObjs (vm_queues v) code \<noteq> Some a"
    using queues_okD(3) [OF video_okD(1) [OF ok] assms(4), of code] assms(3) by auto
  then show ?thesis using camera_round_facts [OF assms(2) ok] assms(4) by simp
qed

theorem camera_isolation_witness:
  "\<exists>v v'. video_step no_video v \<and> camera_round ''A'' v v' \<and>
     m_mapVSObjs (vm_queues v') ''B'' = Some 1 \<and> vq_heap (vm_queues v') 1 = vq_heap (vm_queues v) 1 \<and>
     vq_heap (vm_queues v') 0 \<noteq> vq_heap (vm_queues v) 0"
proof -
  let ?cams = "[demo_camera, demo_camera\<lparr>strCameraCode := ''B''\<rparr>]"
  let ?f = "\<lparr>fr_records = 2, fr_buffer = [0x65], fr_picture = Some (1, 1, [1, 2, 3])\<rparr>"
  have "\<exists>v p p' m'. SyncAddCameraInfo demo_onvif 0 ?cams no_video = Some v \<and>
    m_mapPSObjs v ''A'' = Some p \<and> m_mapVSObjs (vm_queues v) ''B'' = Some 1 \<and>
    PullStreamLoop demo_onvif 0 ''t'' [?f] (p, vm_queues v) = Some (p', m') \<and>
    vq_heap m' 0 \<noteq> vq_heap (vm_queues v) 0"
    by (simp add: AddPullStreamObj_def QueueIsExist_def no_video_def no_queues_def add_queue_def
        PSMngAdd_def PSMngStart_def StartStream_def new_CPullStream_def client_eval AddQueueObj_def
        PullStreamLoop_def PullStream_def GetUpdate_def CallBackFunc_def get_def is_I_frame_def
        GetVSQueueObj_def lock_weak_def store_picture_def SetFirstPicSize_def PushBytes_def i32_def
        rd_def offer_def SetConnTimeOut_def GetConnTimeOut_def put_queue_def new_CVSQueue_def)
  then obtain v p p' m' where v: "SyncAddCameraInfo demo_onvif 0 ?cams no_video = Some v"
    and p: "m_mapPSObjs v ''A'' = Some p" and b: "m_mapVSObjs (vm_queues v) ''B'' = Some 1"
    and r: "PullStreamLoop demo_onvif 0 ''t'' [?f] (p, vm_queues v) = Some (p', m')"
    and new: "vq_heap m' 0 \<noteq> vq_heap (vm_queues v) 0" by blast
  have st: "video_step no_video v" using v by (rule vs_add)
  note round = round_pull [OF p r]
  have "m_mapVSObjs m' ''B'' = Some 1 \<and> vq_heap m' 1 = vq_heap (vm_queues v) 1"
    using camera_isolation [OF r_into_rtranclp [of video_step, OF st] round _ b] by simp
  then show ?thesis using st round new
    by (intro exI conjI) (rule st, rule round, simp_all)
qed

text \<open>
  Modifying cameras is adding them: in every state the service can get into, the two
  synchronisation requests have the same effect, because a camera that is there is updated and one
  that is not is created and started in both.
\<close>

theorem modify_is_add:
  assumes "video_step\<^sup>*\<^sup>* no_video v"
  shows "SyncModifyCameraInfo onv now cams v = SyncAddCameraInfo onv now cams v"
  using SyncModify_eq_SyncAdd [OF video_system.invar_reached [OF refl assms]] .

theorem modify_is_add_witness:
  "SyncModifyCameraInfo demo_onvif 7 [demo_camera, demo_camera] no_video =
     SyncAddCameraInfo demo_onvif 7 [demo_camera, demo_camera] no_video"
  by (rule modify_is_add) simp

text \<open>
  Deleting a camera drops its pictures for good: after it is deleted and added again its
  queues are empty, and a consumer gets its own matrix back; a client of the deleted incarnation
  finds no queue object to write to.
\<close>

theorem readded_camera_empty:
  assumes "video_step\<^sup>*\<^sup>* no_video v" and "m_mapPSObjs v (strCameraCode cam) = Some p"
    and "SyncAddCameraInfo onv now [cam] (SyncDelCameraInfo [cam] v) = Some v'"
  shows "fst (ModuleGetCmmImage (strCameraCode cam) out v') = out \<and>
    fst (ModuleGetActImage (strCameraCode cam) out v') = out \<and>
    lock_weak (vm_queues v') (m_VSQueWekPtr (m_RtspClientMngPtr p)) = None"
proof -
  let ?c = "strCameraCode cam"
  have ok: "video_ok {} v" using video_system.invar_reached [OF refl assms(1)] .
  obtain a where a: "m_mapVSObjs (vm_queues v) ?c = Some a"
    "m_VSQueWekPtr (m_RtspClientMngPtr p) = Some a"
    using video_okD(3) [OF ok assms(2)] by (auto simp: stream_ok_def)
  have "a < vq_next (vm_queues v)" using queues_okD(1) [OF video_okD(1) [OF ok] a(1)] .
  moreover have "vm_queues v' = AddQueueObj ?c (DelQueueObj ?c (vm_queues v))"
    using assms(3) assms(2)
    by (auto simp: DelPullStreamObj_def PSMngDel_def Let_def AddPullStreamObj_def QueueIsExist_def
        DelQueueObj_map PSMngAdd_def add_queue_def PSMngStart_def split: bind_splits)
  ultimately show ?thesis
    using a
    by (simp add: AddQueueObj_def DelQueueObj_def ModuleGetCmmImage_def ModuleGetActImage_def
        MngGetCmmImage_def MngGetActImage_def on_queue_def QueueGetCmmImage_def QueueGetActImage_def
        PopQueue_def new_CVSQueue_def gTaskQueueNum_def numeral_3_eq_3 Let_def lock_weak_def)
qed

theorem readded_camera_empty_witness:
  "\<exists>v v'. video_step no_video v \<and>
     SyncAddCameraInfo demo_onvif 9 [demo_camera] (SyncDelCameraInfo [demo_camera] v) = Some v' \<and>
     fst (ModuleGetCmmImage (strCameraCode demo_camera) \<lparr>strShotTime = [], srcMat = no_mat\<rparr> v') =
       \<lparr>strShotTime = [], srcMat = no_mat\<rparr>"
proof -
  have "\<exists>v p v'. SyncAddCameraInfo demo_onvif 0 [demo_camera] no_video = Some v \<and>
    m_mapPSObjs v (strCameraCode demo_camera) = Some p \<and>
    SyncAddCameraInfo demo_onvif 9 [demo_camera] (SyncDelCameraInfo [demo_camera] v) = Some v'"
    by (simp add: AddPullStreamObj_def QueueIsExist_def no_video_def no_queues_def add_queue_def
        PSMngAdd_def PSMngStart_def StartStream_def new_CPullStream_def client_eval AddQueueObj_def
        DelPullStreamObj_def PSMngDel_def DelQueueObj_def)
  then obtain v p v' where v: "SyncAddCameraInfo demo_onvif 0 [demo_camera] no_video = Some v"
    and p: "m_mapPSObjs v (strCameraCode demo_camera) = Some p"
    and v': "SyncAddCameraInfo demo_onvif 9 [demo_camera] (SyncDelCameraInfo [demo_camera] v) = Some v'"
    by blast
  have st: "video_step no_video v" using v by (rule vs_add)
  show ?thesis
    using readded_camera_empty [OF r_into_rtranclp [of video_step, OF st] p v',
        of "\<lparr>strShotTime = [], srcMat = no_mat\<rparr>"] st v' by blast
qed

end
