(* ===== verification/CfgTables.thy ===== *)
theory CfgTables
  imports AppData
begin

text \<open>
  The system configuration and its tables (main/DbMng/SqliteDbSvr.cpp and the loading half of
  main/CfgMng/CfgMng.cpp). A configuration is a JSON object: root nodes (Transfer, Db, Alg,
  Task, App) hold sub nodes, sub nodes hold arrays of elements. An element becomes a row of the
  root node's table; nested attributes are written as \<open>key:value|key:value|&\<close>. Loading splits them
  again. A table is the list of its rows without their keys, a row the list of its columns in
  the order of the table.
\<close>

section \<open>Reading a configuration\<close>

type_synonym cfg_row = "(string \<times> string) list"
type_synonym cfg_db = "string \<Rightarrow> cfg_row list"
type_synonym cfg_map = "string \<Rightarrow> json list option"

text \<open>\<open>CfgObj\<close>: the elements stored under one key.\<close>

definition CfgSave :: "string \<Rightarrow> json \<Rightarrow> cfg_map \<Rightarrow> cfg_map" where
  "CfgSave strKey elm m = m(strKey \<mapsto> (case m strKey of None \<Rightarrow> [elm] | Some js \<Rightarrow> js @ [elm]))"

definition GetSysCfg :: "string \<Rightarrow> cfg_map \<Rightarrow> json list" where
  "GetSysCfg strKey m = (case m strKey of None \<Rightarrow> [] | Some js \<Rightarrow> js)"

definition GetSysCfgFirst :: "string \<Rightarrow> cfg_map \<Rightarrow> json option" where
  "GetSysCfgFirst strKey m = (case m strKey of Some (x # _) \<Rightarrow> Some x | _ \<Rightarrow> None)"

text \<open>The constant \<open>operator[]\<close>, and the members an iteration with \<open>it.key()\<close> sees.\<close>

definition jat :: "string \<Rightarrow> json \<Rightarrow> json option" where
  "jat k j = (case j of JObj m \<Rightarrow> map_of m k | _ \<Rightarrow> None)"

definition keyed :: "json \<Rightarrow> (string \<times> json) list option" where
  "keyed j = (case j of JNull \<Rightarrow> Some [] | JObj m \<Rightarrow> Some (jitems m)
     | JArr xs \<Rightarrow> if xs = [] then Some [] else None | JStr _ \<Rightarrow> None)"

section \<open>Writing the tables\<close>

fun attr_text :: "(string \<times> json) list \<Rightarrow> string \<Rightarrow> string option" where
  "attr_text [] strResult = Some strResult"
| "attr_text ((k, v) # m) strResult = (case v of
     JStr s \<Rightarrow> attr_text m (strResult @ k @ '':'' @ s @ ''|'')
   | _ \<Rightarrow> None)"

definition ParseSubElmFun :: "string \<Rightarrow> string \<Rightarrow> json \<Rightarrow> string option" where
  "ParseSubElmFun strResult strSubName elm = do {
     subElm \<leftarrow> (if strSubName = '''' then Some elm else jat strSubName elm);
     m \<leftarrow> keyed subElm;
     attr_text m strResult}"

fun data_src_text :: "json list \<Rightarrow> string \<Rightarrow> string option" where
  "data_src_text [] strDataSrc = Some strDataSrc"
| "data_src_text (subElm # elms) strDataSrc = do {
     s \<leftarrow> ParseSubElmFun strDataSrc '''' subElm;
     data_src_text elms (s @ ''&'')}"

definition AppRow :: "string \<Rightarrow> json \<Rightarrow> cfg_row option" where
  "AppRow strSubNode elm = do {
     ty \<leftarrow> jtext ''type'' elm;
     alg \<leftarrow> jtext ''alg_idx'' elm;
     src \<leftarrow> data_src_text (jvalues (jget ''data_src'' elm)) '''';
     lst \<leftarrow> jtext ''task_lst'' elm;
     st \<leftarrow> jtext ''start_time'' elm;
     en \<leftarrow> jtext ''end_time'' elm;
     idx \<leftarrow> jtext ''idx'' elm;
     Some [(''node'', c_str strSubNode), (''type'', c_str ty), (''alg_idx'', c_str alg),
       (''data_src'', c_str src), (''task_lst'', c_str lst), (''start_time'', c_str st),
       (''end_time'', c_str en), (''idx'', c_str idx)]}"

definition TaskRow :: "string \<Rightarrow> json \<Rightarrow> cfg_row option" where
  "TaskRow strSubNode elm = do {
     ty \<leftarrow> jtext ''type'' elm;
     lst \<leftarrow> jtext ''lst'' elm;
     idx \<leftarrow> jtext ''idx'' elm;
     Some [(''node'', c_str strSubNode), (''type'', c_str ty), (''lst'', c_str lst), (''idx'', c_str idx)]}"

definition AlgRow :: "string \<Rightarrow> json \<Rightarrow> cfg_row option" where
  "AlgRow strSubNode elm = do {
     ty \<leftarrow> jtext ''type'' elm;
     name \<leftarrow> jtext ''name'' elm;
     ver \<leftarrow> jtext ''version'' elm;
     strModel \<leftarrow> ParseSubElmFun '''' ''model'' elm;
     strParams \<leftarrow> ParseSubElmFun '''' ''params'' elm;
     en \<leftarrow> jtext ''enable'' elm;
     idx \<leftarrow> jtext ''idx'' elm;
     de \<leftarrow> jtext ''desc'' elm;
     Some [(''node'', c_str strSubNode), (''type'', c_str ty), (''name'', c_str name),
       (''version'', c_str ver), (''model'', c_str (strModel @ ''&'')),
       (''params'', c_str (strParams @ ''&'')), (''enable'', c_str en), (''idx'', c_str idx),
       (''desc'', c_str de)]}"

definition TransferRow :: "string \<Rightarrow> json \<Rightarrow> cfg_row option" where
  "TransferRow strSubNode elm = do {
     ty \<leftarrow> jtext ''type'' elm;
     ip \<leftarrow> jtext ''ip'' elm;
     port \<leftarrow> jtext ''port'' elm;
     strParams \<leftarrow> ParseSubElmFun '''' ''params'' elm;
     en \<leftarrow> jtext ''enable'' elm;
     idx \<leftarrow> jtext ''idx'' elm;
     de \<leftarrow> jtext ''desc'' elm;
     Some [(''node'', c_str strSubNode), (''type'', c_str ty), (''ip'', c_str ip),
       (''port'', c_str port), (''params'', c_str (strParams @ ''&'')), (''enable'', c_str en),
       (''idx'', c_str idx), (''desc'', c_str de)]}"

text \<open>The three loops every table function has: configurations, sub nodes, elements.\<close>

fun elm_rows :: "(json \<Rightarrow> cfg_row option) \<Rightarrow> json list \<Rightarrow> cfg_row list option" where
  "elm_rows row [] = Some []"
| "elm_rows row (elm # elms) = do { r \<leftarrow> row elm; rs \<leftarrow> elm_rows row elms; Some (r # rs)}"

fun node_rows :: "(string \<Rightarrow> json \<Rightarrow> cfg_row option) \<Rightarrow> (string \<times> json) list \<Rightarrow> cfg_row list option" where
  "node_rows row [] = Some []"
| "node_rows row ((strSubNode, v) # nodes) = do {
     rs \<leftarrow> elm_rows (row strSubNode) (jvalues v);
     rest \<leftarrow> node_rows row nodes;
     Some (rs @ rest)}"

fun cfg_rows :: "(string \<Rightarrow> json \<Rightarrow> cfg_row option) \<Rightarrow> json list \<Rightarrow> cfg_row list option" where
  "cfg_rows row [] = Some []"
| "cfg_rows row (val # vals) = do {
     nodes \<leftarrow> keyed val;
     rs \<leftarrow> node_rows row nodes;
     rest \<leftarrow> cfg_rows row vals;
     Some (rs @ rest)}"

text \<open>
  \<open>create table if not exists\<close>, then \<open>select *\<close>: a table with rows is left alone, an empty one
  receives the rows.
\<close>

definition DbExeInitFun :: "string \<Rightarrow> cfg_row list \<Rightarrow> cfg_db \<Rightarrow> cfg_db" where
  "DbExeInitFun strDbTable rows db = (if db strDbTable \<noteq> [] then db else db(strDbTable := rows))"

definition table_opt :: "(string \<Rightarrow> json \<Rightarrow> cfg_row option) \<Rightarrow> string \<Rightarrow> cfg_map \<Rightarrow> cfg_db \<Rightarrow> cfg_db option" where
  "table_opt row strNode cfg db = (let vecCfg = GetSysCfg strNode cfg in
     if vecCfg = [] then Some db
     else do { rows \<leftarrow> cfg_rows row vecCfg; Some (DbExeInitFun strNode rows db)})"

definition AppCfgTableDbOpt :: "cfg_map \<Rightarrow> cfg_db \<Rightarrow> cfg_db option" where
  "AppCfgTableDbOpt = table_opt AppRow ''App''"

definition TaskCfgTableDbOpt :: "cfg_map \<Rightarrow> cfg_db \<Rightarrow> cfg_db option" where
  "TaskCfgTableDbOpt = table_opt TaskRow ''Task''"

definition AlgCfgTableDbOpt :: "cfg_map \<Rightarrow> cfg_db \<Rightarrow> cfg_db option" where
  "AlgCfgTableDbOpt = table_opt AlgRow ''Alg''"

definition DbOrTransferTableOpt :: "string \<Rightarrow> cfg_map \<Rightarrow> cfg_db \<Rightarrow> cfg_db option" where
  "DbOrTransferTableOpt strNode = table_opt TransferRow strNode"

definition DBTableOpt :: "cfg_map \<Rightarrow> cfg_db \<Rightarrow> cfg_db option" where
  "DBTableOpt cfg db = do {
     db1 \<leftarrow> AppCfgTableDbOpt cfg db;
     db2 \<leftarrow> TaskCfgTableDbOpt cfg db1;
     db3 \<leftarrow> AlgCfgTableDbOpt cfg db2;
     db4 \<leftarrow> DbOrTransferTableOpt ''Transfer'' cfg db3;
     DbOrTransferTableOpt ''Db'' cfg db4}"

section \<open>Loading the tables\<close>

fun split_attrs :: "string list \<Rightarrow> json \<Rightarrow> json option" where
  "split_attrs [] jTmp = Some jTmp"
| "split_attrs (val # vals) jTmp = (case strtok_text val '':'' of
     [] \<Rightarrow> split_attrs vals jTmp
   | k # r \<Rightarrow> jset k (JStr (case r of [] \<Rightarrow> '''' | v # _ \<Rightarrow> v)) jTmp \<bind> split_attrs vals)"

fun split_groups :: "string list \<Rightarrow> json list option" where
  "split_groups [] = Some []"
| "split_groups (grp # groups) = do {
     jTmp \<leftarrow> split_attrs (strtok_text grp ''|'') JNull;
     js \<leftarrow> split_groups groups;
     Some (jTmp # js)}"

definition SpliteStrFun :: "string \<Rightarrow> json list option" where
  "SpliteStrFun strValue = split_groups (strtok_text strValue ''&'')"

definition load_cell :: "string \<times> string \<Rightarrow> string \<times> json \<Rightarrow> (string \<times> json) option" where
  "load_cell cell s = (case (cell, s) of ((key, strValue), (strSubNodeName, jSubNode)) \<Rightarrow>
     if key = ''id'' then Some s
     else if key = ''node'' then Some (strValue, jSubNode)
     else if key = ''data_src'' then do {
       vecParam \<leftarrow> SpliteStrFun strValue;
       j \<leftarrow> jset key (JArr vecParam) jSubNode;
       Some (strSubNodeName, j)}
     else if key = ''model'' \<or> key = ''params'' then do {
       vecParam \<leftarrow> SpliteStrFun strValue;
       j \<leftarrow> jset key (case vecParam of [] \<Rightarrow> JObj [] | p # _ \<Rightarrow> p) jSubNode;
       Some (strSubNodeName, j)}
     else do {
       j \<leftarrow> jset key (JStr strValue) jSubNode;
       Some (strSubNodeName, j)})"

fun load_row :: "cfg_row \<Rightarrow> string \<times> json \<Rightarrow> (string \<times> json) option" where
  "load_row [] s = Some s"
| "load_row (cell # cells) s = load_cell cell s \<bind> load_row cells"

fun load_rows :: "string \<Rightarrow> cfg_row list \<Rightarrow> json \<Rightarrow> json option" where
  "load_rows strTableName [] cfg = Some cfg"
| "load_rows strTableName (row # rows) cfg = do {
     (strSubNodeName, jSubNode) \<leftarrow> load_row row ('''', JNull);
     sub \<leftarrow> jpush_at strSubNodeName jSubNode (jget strTableName cfg);
     cfg' \<leftarrow> jset strTableName sub cfg;
     load_rows strTableName rows cfg'}"

definition LoadRuntimeSysCfgTableInDb :: "cfg_map \<Rightarrow> cfg_db \<Rightarrow> string \<Rightarrow> json \<Rightarrow> json option" where
  "LoadRuntimeSysCfgTableInDb exFactory db strTableName cfg =
     (case GetSysCfgFirst ''DbSqliteSvr'' exFactory of
        None \<Rightarrow> Some cfg
      | Some jSqliteSvr \<Rightarrow> do {
          _ \<leftarrow> jtext ''type'' jSqliteSvr;
          load_rows strTableName (db strTableName) cfg})"

section \<open>Nested attributes survive\<close>

text \<open>Texts a separator splits nowhere.\<close>

definition plain :: "string \<Rightarrow> bool" where
  "plain s \<longleftrightarrow> (\<forall>c \<in> set s. byte_of c \<noteq> 0)"

definition field :: "string \<Rightarrow> bool" where
  "field s \<longleftrightarrow> plain s \<and> (\<forall>c \<in> set s. c \<notin> set '':|&'')"

lemma separators_no_nul [simp]: "byte_of (CHR '':'') \<noteq> 0" "byte_of (CHR ''|'') \<noteq> 0" "byte_of (CHR ''&'') \<noteq> 0"
  by (simp_all add: byte_of_def)

lemma c_str_plain: "plain s \<Longrightarrow> c_str s = s"
  by (simp add: plain_def)

lemma plain_append [simp]: "plain (s @ t) \<longleftrightarrow> plain s \<and> plain t"
  by (auto simp: plain_def)

lemma plain_Cons [simp]: "plain (c # t) \<longleftrightarrow> byte_of c \<noteq> 0 \<and> plain t"
  by (auto simp: plain_def)

lemma plain_Nil [simp]: "plain []"
  by (simp add: plain_def)

lemma strtok_text_terminated:
  assumes "\<forall>f \<in> set fs. f \<noteq> [] \<and> plain f \<and> d \<notin> set f" and "byte_of d \<noteq> 0"
  shows "strtok_text (concat (map (\<lambda>f. f @ [d]) fs)) [d] = fs"
proof -
  have tok: "tokens [byte_of d] (to_bytes (concat (map (\<lambda>f. f @ [d]) fs))) = map to_bytes fs"
    using assms(1)
  proof (induction fs)
    case (Cons f fs)
    have "tokens [byte_of d] (to_bytes f @ byte_of d # to_bytes (concat (map (\<lambda>f. f @ [d]) fs))) =
      to_bytes f # tokens [byte_of d] (byte_of d # to_bytes (concat (map (\<lambda>f. f @ [d]) fs)))"
      using Cons.prems by (intro tokens_field) (auto simp: to_bytes_def)
    then show ?case using Cons by (simp add: tokens_skip to_bytes_def)
  qed (simp add: to_bytes_def)
  have "plain (concat (map (\<lambda>f. f @ [d]) fs))"
    using assms by (induction fs) auto
  then have w: "takeWhile (\<lambda>c. c \<noteq> 0) (to_bytes (concat (map (\<lambda>f. f @ [d]) fs))) =
      to_bytes (concat (map (\<lambda>f. f @ [d]) fs))"
    by (auto simp: to_bytes_def takeWhile_eq_all_conv plain_def)
  have b: "to_bytes [d] = [byte_of d]" by (simp add: to_bytes_def)
  show ?thesis
  proof (cases "fs = []")
    case False
    then have "to_bytes (concat (map (\<lambda>f. f @ [d]) fs)) \<noteq> []" by (cases fs) (auto simp: to_bytes_def)
    then show ?thesis unfolding strtok_text_def Strtok_def w b using tok by (simp add: o_def)
  qed (simp add: strtok_text_def Strtok_def to_bytes_def)
qed

text \<open>The members of a nested object: sorted by key, texts without separators.\<close>

definition attrs_ok :: "(string \<times> json) list \<Rightarrow> bool" where
  "attrs_ok m \<longleftrightarrow> sorted_wrt (<) (map fst m) \<and>
     (\<forall>(k, v) \<in> set m. k \<noteq> [] \<and> field k \<and> (case v of JStr s \<Rightarrow> field s | _ \<Rightarrow> False))"

lemma attrs_okD:
  assumes "attrs_ok m" "p \<in> set m"
  shows "\<exists>k s. p = (k, JStr s) \<and> k \<noteq> [] \<and> field k \<and> field s"
  using assms by (cases p; cases "snd p") (auto simp: attrs_ok_def)

definition jstr :: "json \<Rightarrow> string" where
  "jstr j = (case j of JStr s \<Rightarrow> s | _ \<Rightarrow> [])"

definition pair_text :: "string \<times> json \<Rightarrow> string" where
  "pair_text p = fst p @ '':'' @ jstr (snd p)"

definition attrs_text :: "(string \<times> json) list \<Rightarrow> string" where
  "attrs_text m = concat (map (\<lambda>f. f @ ''|'') (map pair_text m))"

lemma jstr_JStr [simp]: "jstr (JStr s) = s"
  by (simp add: jstr_def)

lemma attr_text_ok: "\<forall>(k, v) \<in> set m. case v of JStr s \<Rightarrow> Q s | _ \<Rightarrow> False \<Longrightarrow> attr_text m r = Some (r @ attrs_text m)"
  by (induction m arbitrary: r) (auto simp: attrs_text_def pair_text_def split: json.splits)

lemma jitems_sorted: "sorted_wrt (<) (map fst m) \<Longrightarrow> jitems m = m"
  unfolding jitems_def
  by (rule sort_key_id_if_sorted) (simp add: strict_sorted_imp_sorted)

lemma field_plain: "field s \<Longrightarrow> plain s"
  by (simp add: field_def)

lemma strtok_pair:
  assumes "k \<noteq> []" "field k" "field s"
  shows "strtok_text (k @ '':'' @ s) '':'' = (if s = [] then [k] else [k, s])"
proof (cases "s = []")
  case True
  then show ?thesis
    using strtok_text_terminated [of "[k]" "CHR '':''"] assms by (auto simp: field_def)
next
  case False
  then show ?thesis
    using strtok_text_pair [of k s "CHR '':''"] assms by (auto simp: field_def plain_def)
qed

lemma update_new: "k \<notin> fst ` set m \<Longrightarrow> AList.update k v m = m @ [(k, v)]"
  by (induction m) auto

lemma split_attrs_ok:
  assumes "attrs_ok m" and "\<forall>p \<in> set acc. fst p \<notin> fst ` set m" and "acc \<noteq> [] \<or> m \<noteq> []"
  shows "split_attrs (map pair_text m) (if acc = [] then JNull else JObj acc) = Some (JObj (acc @ m))"
  using assms
proof (induction m arbitrary: acc)
  case (Cons p m)
  obtain k s where p: "p = (k, JStr s)" and ks: "k \<noteq> []" "field k" "field s"
    using Cons.prems(1) by (cases p) (auto simp: attrs_ok_def split: json.splits)
  have pt: "pair_text p = k @ '':'' @ s" using p by (simp add: pair_text_def)
  have m: "attrs_ok m" "\<forall>q \<in> set m. fst q \<noteq> k"
    using Cons.prems(1) p by (auto simp: attrs_ok_def)
  have "jset k (JStr s) (if acc = [] then JNull else JObj acc) = Some (JObj (acc @ [(k, JStr s)]))"
    using Cons.prems(2) p update_new [of k acc] by (auto simp: image_iff)
  moreover have "split_attrs (map pair_text m) (JObj (acc @ [(k, JStr s)])) = Some (JObj ((acc @ [(k, JStr s)]) @ m))"
    using Cons.IH [of "acc @ [(k, JStr s)]"] Cons.prems(2) m p by (auto simp: image_iff)
  moreover obtain r where "strtok_text (pair_text p) '':'' = k # r" "(case r of [] \<Rightarrow> '''' | v # _ \<Rightarrow> v) = s"
    using strtok_pair [OF ks] pt by (cases "s = []") (simp_all add: p)
  ultimately show ?case using p [symmetric] by simp
qed simp

lemma pair_text_ok:
  assumes "attrs_ok m" "f \<in> set (map pair_text m)"
  shows "f \<noteq> []" "plain f" "CHR ''|'' \<notin> set f" "CHR ''&'' \<notin> set f"
proof -
  obtain p where p: "p \<in> set m" "f = pair_text p" using assms(2) by auto
  then obtain k s where "p = (k, JStr s)" and ks: "field k" "field s"
    using attrs_okD [OF assms(1)] by blast
  then have f: "f = k @ '':'' @ s" using p by (simp add: pair_text_def)
  show "f \<noteq> []" "plain f" "CHR ''|'' \<notin> set f" "CHR ''&'' \<notin> set f"
    using f ks by (auto simp: field_def)
qed

lemma attrs_text_group: "attrs_ok m \<Longrightarrow> strtok_text (attrs_text m) ''|'' = map pair_text m"
  unfolding attrs_text_def
  by (rule strtok_text_terminated) (use pair_text_ok in auto)

lemma attrs_text_plain:
  assumes "attrs_ok m"
  shows "plain (attrs_text m)" "CHR ''&'' \<notin> set (attrs_text m)"
  using pair_text_ok(2,4) [OF assms] unfolding attrs_text_def
  by (auto simp: plain_def)

lemma attrs_text_ne: "attrs_text m = [] \<longleftrightarrow> m = []"
  by (cases m) (auto simp: attrs_text_def)

lemma split_groups_ok:
  "\<forall>m \<in> set ms. attrs_ok m \<and> m \<noteq> [] \<Longrightarrow> split_groups (map attrs_text ms) = Some (map JObj ms)"
proof (induction ms)
  case (Cons m ms)
  then show ?case using split_attrs_ok [of m "[]"] by (simp add: attrs_text_group)
qed simp

lemma SpliteStrFun_groups:
  assumes "\<forall>m \<in> set ms. attrs_ok m \<and> m \<noteq> []"
  shows "SpliteStrFun (concat (map (\<lambda>m. attrs_text m @ ''&'') ms)) = Some (map JObj ms)"
proof -
  have "strtok_text (concat (map (\<lambda>f. f @ ''&'') (map attrs_text ms))) ''&'' = map attrs_text ms"
  proof (rule strtok_text_terminated)
    show "\<forall>f \<in> set (map attrs_text ms). f \<noteq> [] \<and> plain f \<and> CHR ''&'' \<notin> set f"
      using assms attrs_text_plain by (auto simp: attrs_text_ne)
  qed simp
  then show ?thesis using split_groups_ok [OF assms] by (simp add: SpliteStrFun_def o_def)
qed

lemma SpliteStrFun_params:
  assumes "attrs_ok m"
  shows "SpliteStrFun (attrs_text m @ ''&'') = Some (if m = [] then [] else [JObj m])"
proof (cases "m = []")
  case True
  have "strtok_text ''&'' ''&'' = []"
    by (simp add: strtok_text_def Strtok_def to_bytes_def tokens_skip)
  then show ?thesis using True by (simp add: SpliteStrFun_def attrs_text_def)
next
  case False
  then show ?thesis using SpliteStrFun_groups [of "[m]"] assms by simp
qed

section \<open>Rows survive\<close>

text \<open>
  The column texts of an attribute, and the values that can be read back: plain texts, sorted
  separator-free objects, and for \<open>data_src\<close> arrays of non-empty such objects.
\<close>

definition members :: "json \<Rightarrow> (string \<times> json) list" where
  "members j = (case j of JObj m \<Rightarrow> m | _ \<Rightarrow> [])"

definition col_text :: "string \<Rightarrow> json \<Rightarrow> string" where
  "col_text c v =
     (if c = ''data_src'' then concat (map (\<lambda>j. attrs_text (members j) @ ''&'') (jvalues v))
      else if c = ''model'' \<or> c = ''params'' then attrs_text (members v) @ ''&''
      else jstr v)"

definition obj_ok :: "json \<Rightarrow> bool" where
  "obj_ok j = (case j of JObj m \<Rightarrow> attrs_ok m | _ \<Rightarrow> False)"

definition val_ok :: "string \<Rightarrow> json \<Rightarrow> bool" where
  "val_ok c v =
     (if c = ''data_src'' then (case v of JArr js \<Rightarrow> \<forall>j \<in> set js. obj_ok j \<and> j \<noteq> JObj [] | _ \<Rightarrow> False)
      else if c = ''model'' \<or> c = ''params'' then obj_ok v
      else (case v of JStr s \<Rightarrow> plain s | _ \<Rightarrow> False))"

lemma obj_ok_members: "obj_ok j \<Longrightarrow> attrs_ok (members j) \<and> j = JObj (members j)"
  by (auto simp: obj_ok_def members_def split: json.splits)

lemma load_cell_ok:
  assumes "val_ok c v" and "c \<noteq> ''id''" "c \<noteq> ''node''" and "c \<notin> fst ` set acc"
  shows "load_cell (c, col_text c v) (n, if acc = [] then JNull else JObj acc) = Some (n, JObj (acc @ [(c, v)]))"
proof -
  have ins: "jset c w (if acc = [] then JNull else JObj acc) = Some (JObj (acc @ [(c, w)]))" for w
    using update_new [OF assms(4), of w] by simp
  show ?thesis
  proof (cases "c = ''data_src''")
    case True
    then obtain js where v: "v = JArr js" and js: "\<forall>j \<in> set js. obj_ok j \<and> j \<noteq> JObj []"
      using assms(1) by (cases v) (simp_all add: val_ok_def)
    have m: "\<forall>m \<in> set (map members js). attrs_ok m \<and> m \<noteq> []"
      using js obj_ok_members by fastforce
    have "map JObj (map members js) = js" using js obj_ok_members by (induction js) auto
    then show ?thesis
      using SpliteStrFun_groups [OF m] ins True v
      by (simp add: load_cell_def col_text_def jvalues_def o_def)
  next
    case src: False
    show ?thesis
    proof (cases "c = ''model'' \<or> c = ''params''")
      case True
      then have ok: "attrs_ok (members v)" "v = JObj (members v)"
        using assms(1) src obj_ok_members [of v] by (simp_all add: val_ok_def)
      have l: "load_cell (c, col_text c v) (n, j0) = do {
          vs \<leftarrow> SpliteStrFun (attrs_text (members v) @ ''&'');
          j \<leftarrow> jset c (case vs of [] \<Rightarrow> JObj [] | p # _ \<Rightarrow> p) j0;
          Some (n, j)}" for j0
        using True src assms(2,3) by (simp add: load_cell_def col_text_def)
      show ?thesis
      proof (cases "members v = []")
        case True
        then show ?thesis
          using ok ins unfolding l SpliteStrFun_params [OF ok(1)] by simp
      next
        case False
        then show ?thesis
          using ok(2) [symmetric] ins unfolding l SpliteStrFun_params [OF ok(1)] by simp
      qed
    next
      case False
      then obtain s where "v = JStr s" using assms(1) src by (cases v) (simp_all add: val_ok_def)
      then show ?thesis using False src ins assms(2,3) by (simp add: load_cell_def col_text_def)
    qed
  qed
qed

text \<open>A row of an element's columns is loaded as the element's attributes, in the column order.\<close>

definition columns_of :: "string list \<Rightarrow> json \<Rightarrow> (string \<times> json) list" where
  "columns_of cols elm = map (\<lambda>c. (c, jget c elm)) cols"

definition elm_ok :: "string list \<Rightarrow> json \<Rightarrow> bool" where
  "elm_ok cols elm \<longleftrightarrow> (\<forall>c \<in> set cols. val_ok c (jget c elm))"

definition row_of :: "string list \<Rightarrow> string \<Rightarrow> json \<Rightarrow> cfg_row" where
  "row_of cols n elm = (''node'', n) # map (\<lambda>c. (c, col_text c (jget c elm))) cols"

lemma load_row_cols:
  assumes "elm_ok cols elm" "distinct cols" "''id'' \<notin> set cols" "''node'' \<notin> set cols"
    and "\<forall>c \<in> set cols. c \<notin> fst ` set acc" "cols \<noteq> [] \<or> acc \<noteq> []"
  shows "load_row (map (\<lambda>c. (c, col_text c (jget c elm))) cols) (n, if acc = [] then JNull else JObj acc) =
    Some (n, JObj (acc @ columns_of cols elm))"
  using assms
proof (induction cols arbitrary: acc)
  case (Cons c cols)
  let ?acc = "acc @ [(c, jget c elm)]"
  have "load_cell (c, col_text c (jget c elm)) (n, if acc = [] then JNull else JObj acc) = Some (n, JObj ?acc)"
    using Cons.prems by (intro load_cell_ok) (auto simp: elm_ok_def)
  moreover have "load_row (map (\<lambda>c. (c, col_text c (jget c elm))) cols) (n, JObj ?acc) =
      Some (n, JObj (?acc @ columns_of cols elm))"
    using Cons.IH [of ?acc] Cons.prems by (auto simp: elm_ok_def)
  ultimately show ?case by (simp add: columns_of_def)
qed (simp add: columns_of_def)

lemma load_row_of:
  assumes "elm_ok cols elm" "distinct cols" "''id'' \<notin> set cols" "''node'' \<notin> set cols" "cols \<noteq> []"
  shows "load_row (row_of cols n elm) ('''', JNull) = Some (n, JObj (columns_of cols elm))"
  using load_row_cols [OF assms(1-4), of "[]"] assms(5) by (simp add: row_of_def load_cell_def)

section \<open>Root nodes survive\<close>

text \<open>
  A root node: sub nodes sorted by name, each with a non-empty array of elements that can be read
  back; and what loading makes of it, the elements with the columns of the table.
\<close>

definition root_ok :: "string list \<Rightarrow> json \<Rightarrow> bool" where
  "root_ok cols j = (case j of
     JObj nodes \<Rightarrow> nodes \<noteq> [] \<and> sorted_wrt (<) (map fst nodes) \<and>
       (\<forall>(n, v) \<in> set nodes. plain n \<and>
         (case v of JArr elms \<Rightarrow> elms \<noteq> [] \<and> (\<forall>e \<in> set elms. elm_ok cols e) | _ \<Rightarrow> False))
   | _ \<Rightarrow> False)"

definition reload_node :: "string list \<Rightarrow> string \<times> json \<Rightarrow> string \<times> json" where
  "reload_node cols p = (fst p, JArr (map (\<lambda>e. JObj (columns_of cols e)) (jvalues (snd p))))"

definition reload :: "string list \<Rightarrow> json \<Rightarrow> json" where
  "reload cols j = JObj (map (reload_node cols) (members j))"

text \<open>A configuration whose root \<open>t\<close> holds the given sub nodes, added to another one.\<close>

definition with_root :: "json \<Rightarrow> string \<Rightarrow> (string \<times> json) list \<Rightarrow> json" where
  "with_root cfg t nodes = (if nodes = [] then cfg else JObj (members cfg @ [(t, JObj nodes)]))"

definition fresh_root :: "string \<Rightarrow> json \<Rightarrow> bool" where
  "fresh_root t cfg \<longleftrightarrow> (cfg = JNull \<or> cfg = JObj (members cfg)) \<and> t \<notin> fst ` set (members cfg)"

lemma update_end: "k \<notin> fst ` set m \<Longrightarrow> AList.update k v (m @ [(k, w)]) = m @ [(k, v)]"
  by (induction m) auto

lemma map_of_end: "k \<notin> fst ` set m \<Longrightarrow> map_of (m @ [(k, w)]) k = Some w"
  by (induction m) auto

lemma members_JObj [simp]: "members (JObj m) = m"
  by (simp add: members_def)

lemma members_JNull [simp]: "members JNull = []"
  by (simp add: members_def)

lemma jget_with_root:
  assumes "fresh_root t cfg"
  shows "jget t (with_root cfg t nodes) = (if nodes = [] then JNull else JObj nodes)"
proof (cases "nodes = []")
  case True
  have "map_of (members cfg) t = None" using assms by (simp add: fresh_root_def map_of_eq_None_iff)
  then have "jget t cfg = JNull" using assms unfolding fresh_root_def by (metis jget_JNull jget_JObj option.simps(4))
  then show ?thesis using True by (simp add: with_root_def)
next
  case False
  then show ?thesis using assms by (simp add: with_root_def fresh_root_def map_of_end del: map_of_append)
qed

lemma jset_with_root:
  assumes "fresh_root t cfg" "nodes' \<noteq> []"
  shows "jset t (JObj nodes') (with_root cfg t nodes) = Some (with_root cfg t nodes')"
proof (cases "nodes = []")
  case True
  then have "jset t (JObj nodes') cfg = Some (JObj (members cfg @ [(t, JObj nodes')]))"
    using assms(1) update_new [of t "members cfg"] unfolding fresh_root_def
    by (metis append_Nil jset_JNull jset_JObj members_JNull)
  then show ?thesis using True assms(2) by (simp add: with_root_def)
next
  case False
  then show ?thesis using assms by (simp add: with_root_def fresh_root_def update_end)
qed

locale cfg_table =
  fixes row :: "string \<Rightarrow> json \<Rightarrow> cfg_row option"
    and cols :: "string list"
  assumes cols_ok: "distinct cols" "''id'' \<notin> set cols" "''node'' \<notin> set cols" "cols \<noteq> []"
    and row_of_elm: "plain n \<Longrightarrow> elm_ok cols elm \<Longrightarrow> row n elm = Some (row_of cols n elm)"
begin

lemma elm_rows_ok:
  "plain n \<Longrightarrow> \<forall>e \<in> set elms. elm_ok cols e \<Longrightarrow> elm_rows (row n) elms = Some (map (row_of cols n) elms)"
  by (induction elms) (simp_all add: row_of_elm)

lemma load_push:
  assumes "fresh_root t cfg" "elm_ok cols elm"
    and "jpush_at n (JObj (columns_of cols elm)) (if nodes = [] then JNull else JObj nodes) = Some (JObj nodes')"
    and "nodes' \<noteq> []"
  shows "load_rows t (row_of cols n elm # rows) (with_root cfg t nodes) = load_rows t rows (with_root cfg t nodes')"
  using load_row_of [OF assms(2) cols_ok] assms(3) jset_with_root [OF assms(1,4)]
  by (simp add: jget_with_root [OF assms(1)])

lemma load_more:
  assumes "fresh_root t cfg" "\<forall>e \<in> set elms. elm_ok cols e" "n \<notin> fst ` set nodes"
  shows "load_rows t (map (row_of cols n) elms @ rows) (with_root cfg t (nodes @ [(n, JArr es)])) =
    load_rows t rows (with_root cfg t (nodes @ [(n, JArr (es @ map (\<lambda>e. JObj (columns_of cols e)) elms))]))"
  using assms(2)
proof (induction elms arbitrary: es)
  case (Cons e elms)
  let ?j = "JObj (columns_of cols e)"
  have "jpush_at n ?j (JObj (nodes @ [(n, JArr es)])) = Some (JObj (nodes @ [(n, JArr (es @ [?j]))]))"
    using assms(3) by (simp add: jpush_at_def jpush_def map_of_end update_end del: map_of_append)
  then show ?case
    using Cons load_push [OF assms(1), of e n "nodes @ [(n, JArr es)]" "nodes @ [(n, JArr (es @ [?j]))]"]
    by simp
qed simp

lemma load_node:
  assumes "fresh_root t cfg" "\<forall>e \<in> set elms. elm_ok cols e" "n \<notin> fst ` set nodes" "elms \<noteq> []"
  shows "load_rows t (map (row_of cols n) elms @ rows) (with_root cfg t nodes) =
    load_rows t rows (with_root cfg t (nodes @ [reload_node cols (n, JArr elms)]))"
proof -
  obtain e elms' where e: "elms = e # elms'" using assms(4) by (cases elms) auto
  let ?j = "JObj (columns_of cols e)"
  have n: "map_of nodes n = None" using assms(3) by (simp add: map_of_eq_None_iff)
  have "jpush_at n ?j (if nodes = [] then JNull else JObj nodes) = Some (JObj (nodes @ [(n, JArr [?j])]))"
    using assms(3) n by (simp add: jpush_at_def jpush_def update_new)
  then show ?thesis
    using load_push [OF assms(1), of e n nodes "nodes @ [(n, JArr [?j])]" "map (row_of cols n) elms' @ rows"]
      load_more [OF assms(1), of elms' n nodes rows "[?j]"] assms(2,3) e
    by (simp add: reload_node_def jvalues_def)
qed

lemma load_nodes:
  assumes "fresh_root t cfg" "sorted_wrt (<) (map fst nodes)" "\<forall>p \<in> set nodes. fst p \<notin> fst ` set before"
    and "\<forall>(n, v) \<in> set nodes. plain n \<and>
      (case v of JArr elms \<Rightarrow> elms \<noteq> [] \<and> (\<forall>e \<in> set elms. elm_ok cols e) | _ \<Rightarrow> False)"
  shows "\<exists>rows. node_rows row nodes = Some rows \<and> (nodes \<noteq> [] \<longrightarrow> rows \<noteq> []) \<and>
    load_rows t rows (with_root cfg t before) = Some (with_root cfg t (before @ map (reload_node cols) nodes))"
  using assms(2-4)
proof (induction nodes arbitrary: before)
  case (Cons p nodes)
  obtain n elms where p: "p = (n, JArr elms)" and n: "plain n" "elms \<noteq> []" "\<forall>e \<in> set elms. elm_ok cols e"
    using Cons.prems(3) by (cases p; cases "snd p") auto
  have "\<forall>q \<in> set nodes. fst q \<notin> fst ` set (before @ [reload_node cols p])"
    using Cons.prems(1,2) p by (force simp: reload_node_def)
  then obtain rows where rows: "node_rows row nodes = Some rows"
      "load_rows t rows (with_root cfg t (before @ [reload_node cols p])) =
        Some (with_root cfg t ((before @ [reload_node cols p]) @ map (reload_node cols) nodes))"
    using Cons.IH [of "before @ [reload_node cols p]"] Cons.prems by auto
  have "node_rows row (p # nodes) = Some (map (row_of cols n) elms @ rows)"
    using p n elm_rows_ok rows(1) by (simp add: jvalues_def)
  moreover have "load_rows t (map (row_of cols n) elms @ rows) (with_root cfg t before) =
      Some (with_root cfg t (before @ map (reload_node cols) (p # nodes)))"
    using load_node [OF assms(1) n(3), of n before rows] n(2) Cons.prems(2) p rows(2) by simp
  ultimately show ?case using n(2) by blast
qed simp

lemma load_saved:
  assumes "fresh_root t cfg" "root_ok cols j"
  shows "\<exists>rows. cfg_rows row [j] = Some rows \<and> rows \<noteq> [] \<and>
    load_rows t rows cfg = Some (JObj (members cfg @ [(t, reload cols j)]))"
proof -
  obtain nodes where j: "j = JObj nodes" and nodes: "nodes \<noteq> []" "sorted_wrt (<) (map fst nodes)"
      "\<forall>(n, v) \<in> set nodes. plain n \<and>
        (case v of JArr elms \<Rightarrow> elms \<noteq> [] \<and> (\<forall>e \<in> set elms. elm_ok cols e) | _ \<Rightarrow> False)"
    using assms(2) by (cases j) (simp_all add: root_ok_def)
  obtain rows where "node_rows row nodes = Some rows" "rows \<noteq> []"
      "load_rows t rows (with_root cfg t []) = Some (with_root cfg t (map (reload_node cols) nodes))"
    using load_nodes [OF assms(1) nodes(2) _ nodes(3), of "[]"] nodes(1) by auto
  then show ?thesis
    using j nodes(1) by (auto simp: with_root_def reload_def keyed_def jitems_sorted [OF nodes(2)])
qed

end

section \<open>The tables\<close>

definition app_columns :: "string list" where
  "app_columns = [''type'', ''alg_idx'', ''data_src'', ''task_lst'', ''start_time'', ''end_time'', ''idx'']"

definition task_columns :: "string list" where
  "task_columns = [''type'', ''lst'', ''idx'']"

definition alg_columns :: "string list" where
  "alg_columns = [''type'', ''name'', ''version'', ''model'', ''params'', ''enable'', ''idx'', ''desc'']"

definition transfer_columns :: "string list" where
  "transfer_columns = [''type'', ''ip'', ''port'', ''params'', ''enable'', ''idx'', ''desc'']"

text \<open>What the row functions read of an element that can be read back.\<close>

lemma val_ok_text:
  assumes "val_ok c (jget c elm)" "c \<noteq> ''data_src''" "c \<noteq> ''model''" "c \<noteq> ''params''"
  shows "jtext c elm = Some (col_text c (jget c elm))" "c_str (col_text c (jget c elm)) = col_text c (jget c elm)"
  using assms c_str_plain by (auto simp: val_ok_def col_text_def jtext_def split: json.splits)

lemma val_ok_params:
  assumes "val_ok c (jget c elm)" "c = ''model'' \<or> c = ''params''"
  shows "ParseSubElmFun [] c elm = Some (attrs_text (members (jget c elm)))"
    and "c_str (attrs_text (members (jget c elm)) @ ''&'') = col_text c (jget c elm)"
proof -
  have c: "c \<noteq> ''data_src''" "c \<noteq> ''''" using assms(2) by auto
  have ok: "attrs_ok (members (jget c elm))" "jget c elm = JObj (members (jget c elm))"
    using assms obj_ok_members [of "jget c elm"] by (auto simp: val_ok_def)
  then have "jat c elm = Some (JObj (members (jget c elm)))"
    by (cases elm) (auto simp: jat_def jget_def split: option.splits)
  then show "ParseSubElmFun [] c elm = Some (attrs_text (members (jget c elm)))"
    using ok(1) c attr_text_ok [of "members (jget c elm)" field "[]"]
    by (auto simp: ParseSubElmFun_def keyed_def jitems_sorted attrs_ok_def)
  show "c_str (attrs_text (members (jget c elm)) @ ''&'') = col_text c (jget c elm)"
    using attrs_text_plain(1) [OF ok(1)] c(1) assms(2) by (simp add: c_str_plain col_text_def)
qed

lemma data_src_text_ok:
  assumes "\<forall>j \<in> set js. obj_ok j"
  shows "data_src_text js r = Some (r @ concat (map (\<lambda>j. attrs_text (members j) @ ''&'') js))"
  using assms
proof (induction js arbitrary: r)
  case (Cons j js)
  then have ok: "attrs_ok (members j)" "j = JObj (members j)" using obj_ok_members by simp_all
  then have "ParseSubElmFun r [] j = Some (r @ attrs_text (members j))"
    using attr_text_ok [of "members j" field r]
    by (cases j) (auto simp: ParseSubElmFun_def keyed_def jitems_sorted attrs_ok_def)
  then show ?case using Cons by simp
qed simp

lemma val_ok_data_src:
  assumes "val_ok ''data_src'' (jget ''data_src'' elm)"
  shows "data_src_text (jvalues (jget ''data_src'' elm)) [] = Some (col_text ''data_src'' (jget ''data_src'' elm))"
    and "c_str (col_text ''data_src'' (jget ''data_src'' elm)) = col_text ''data_src'' (jget ''data_src'' elm)"
proof -
  obtain js where js: "jget ''data_src'' elm = JArr js" "\<forall>j \<in> set js. obj_ok j"
    using assms by (cases "jget ''data_src'' elm") (auto simp: val_ok_def)
  then show "data_src_text (jvalues (jget ''data_src'' elm)) [] = Some (col_text ''data_src'' (jget ''data_src'' elm))"
    using data_src_text_ok [of js "[]"] by (simp add: col_text_def jvalues_def)
  have "\<forall>j \<in> set js. plain (attrs_text (members j))" using js(2) obj_ok_members attrs_text_plain(1) by blast
  then have "plain (col_text ''data_src'' (jget ''data_src'' elm))"
    unfolding col_text_def js(1) by (auto simp: jvalues_def plain_def)
  then show "c_str (col_text ''data_src'' (jget ''data_src'' elm)) = col_text ''data_src'' (jget ''data_src'' elm)"
    by (rule c_str_plain)
qed

lemmas val_ok_simps = val_ok_text val_ok_params val_ok_data_src

interpretation app_table: cfg_table AppRow app_columns
proof
  fix n elm assume "plain n" "elm_ok app_columns elm"
  then show "AppRow n elm = Some (row_of app_columns n elm)"
    by (simp add: elm_ok_def app_columns_def AppRow_def row_of_def val_ok_simps c_str_plain del: c_str_id)
qed (simp_all add: app_columns_def)

interpretation task_table: cfg_table TaskRow task_columns
proof
  fix n elm assume "plain n" "elm_ok task_columns elm"
  then show "TaskRow n elm = Some (row_of task_columns n elm)"
    by (simp add: elm_ok_def task_columns_def TaskRow_def row_of_def val_ok_simps c_str_plain)
qed (simp_all add: task_columns_def)

interpretation alg_table: cfg_table AlgRow alg_columns
proof
  fix n elm assume "plain n" "elm_ok alg_columns elm"
  then show "AlgRow n elm = Some (row_of alg_columns n elm)"
    by (simp add: elm_ok_def alg_columns_def AlgRow_def row_of_def val_ok_simps c_str_plain)
qed (simp_all add: alg_columns_def)

interpretation transfer_table: cfg_table TransferRow transfer_columns
proof
  fix n elm assume "plain n" "elm_ok transfer_columns elm"
  then show "TransferRow n elm = Some (row_of transfer_columns n elm)"
    by (simp add: elm_ok_def transfer_columns_def TransferRow_def row_of_def val_ok_simps c_str_plain)
qed (simp_all add: transfer_columns_def)

end
