(* ===== verification/SmartBuffer.thy ===== *)
theory SmartBuffer
  imports Prelude
begin

text \<open>
  The growing byte buffer \<open>CSmartBuffer\<close> (src/common/cmmobj/buf/SmartBuffer.h and
  SmartBuffer.cpp).

  \<open>smart_buffer\<close> is the packed struct \<open>m_Data\<close>; the heap array is a list of bytes,
  \<^term>\<open>None\<close> is the null pointer. Operations that may read or write outside the array
  or overflow an \<open>int\<close> return an option. \<open>content\<close> is the abstraction to the
  bytes the buffer holds, \<open>buf_ok\<close> its representation invariant.
\<close>

record smart_buffer =
  step_size :: int
  allocated_size :: int
  data_size :: int
  buffer :: "byte list option"

section \<open>Operations\<close>

abbreviation mem :: "smart_buffer \<Rightarrow> byte list" where
  "mem b \<equiv> (case buffer b of None \<Rightarrow> [] | Some m \<Rightarrow> m)"

definition new_array :: "int \<Rightarrow> byte list option" where
  "new_array n = (if 0 \<le> n then Some (replicate (nat n) 0) else None)"

definition SmartBuffer_step :: "int \<Rightarrow> smart_buffer" where
  "SmartBuffer_step step =
     \<lparr>step_size = step, allocated_size = 0, data_size = 0, buffer = None\<rparr>"

definition SmartBuffer_alloc :: "int \<Rightarrow> int \<Rightarrow> smart_buffer option" where
  "SmartBuffer_alloc alloc step = do {
     m \<leftarrow> new_array alloc;
     Some \<lparr>step_size = step, allocated_size = alloc, data_size = 0, buffer = Some m\<rparr>
   }"

definition SmartBuffer_copy :: "smart_buffer \<Rightarrow> smart_buffer option" where
  "SmartBuffer_copy c = do {
     _ \<leftarrow> new_array (allocated_size c);
     m \<leftarrow> rd (mem c) 0 (allocated_size c);
     Some (c\<lparr>buffer := Some m\<rparr>)
   }"

definition append_bytes :: "smart_buffer \<Rightarrow> byte list \<Rightarrow> int \<Rightarrow> smart_buffer option" where
  "append_bytes b src len = do {
     need \<leftarrow> i32 (data_size b + len);
     b1 \<leftarrow>
       (if need > allocated_size b then do {
          n \<leftarrow> i32 (need + step_size b);
          t \<leftarrow> new_array n;
          t' \<leftarrow> (if data_size b > 0 then do {
                   old \<leftarrow> rd (mem b) 0 (data_size b);
                   wr t 0 old
                 } else Some t);
          Some (b\<lparr>buffer := Some t', allocated_size := n\<rparr>)
        } else Some b);
     new \<leftarrow> rd src 0 len;
     m \<leftarrow> wr (mem b1) (data_size b1) new;
     Some (b1\<lparr>buffer := map_option (\<lambda>_. m) (buffer b1), data_size := need\<rparr>)
   }"

definition append_char :: "smart_buffer \<Rightarrow> byte \<Rightarrow> smart_buffer option" where
  "append_char b c = append_bytes b [c] 1"

definition buf_length :: "smart_buffer \<Rightarrow> int" where
  "buf_length b = data_size b"

definition append_buffer :: "smart_buffer \<Rightarrow> smart_buffer \<Rightarrow> smart_buffer option" where
  "append_buffer b c = append_bytes b (mem c) (buf_length c)"

definition empty_buf :: "smart_buffer \<Rightarrow> smart_buffer" where
  "empty_buf b = b\<lparr>buffer := None, allocated_size := 0, data_size := 0\<rparr>"

definition set_data :: "smart_buffer \<Rightarrow> byte list \<Rightarrow> int \<Rightarrow> smart_buffer option" where
  "set_data b src len = append_bytes (empty_buf b) src len"

definition isEmpty :: "smart_buffer \<Rightarrow> bool" where
  "isEmpty b = (data_size b = 0)"

text \<open>\<open>operator=\<close> on another buffer.\<close>

definition assign_buffer :: "smart_buffer \<Rightarrow> smart_buffer \<Rightarrow> smart_buffer option" where
  "assign_buffer b c = set_data b (mem c) (buf_length c)"

definition ends :: "smart_buffer \<Rightarrow> smart_buffer option" where
  "ends b = append_bytes b [0] 1"

definition endl :: "smart_buffer \<Rightarrow> smart_buffer option" where
  "endl b = append_bytes b [10] 1"

definition at_index :: "smart_buffer \<Rightarrow> int \<Rightarrow> byte option option" where
  "at_index b i =
     (if i < 0 \<or> data_size b \<le> i then Some None
      else do { c \<leftarrow> get (mem b) i; Some (Some c) })"

text \<open>\<open>find (char&)\<close>: the loop over the bytes, and its start.\<close>

function find_char_from :: "smart_buffer \<Rightarrow> byte \<Rightarrow> int \<Rightarrow> int option" where
  "find_char_from b c i =
     (if i < data_size b then do {
        x \<leftarrow> get (mem b) i;
        if c = x then Some i else find_char_from b c (i + 1)
      } else Some (-1))"
  by pat_completeness auto
termination
  by (relation "measure (\<lambda>(b, c, i). nat (data_size b - i))") auto

declare find_char_from.simps [simp del]

definition find_char :: "smart_buffer \<Rightarrow> byte \<Rightarrow> int option" where
  "find_char b c = find_char_from b c 0"

text \<open>\<open>find (const void*, int, int)\<close>: a byte string from an index on.\<close>

function find_bytes_from :: "smart_buffer \<Rightarrow> byte list \<Rightarrow> int \<Rightarrow> int \<Rightarrow> int \<Rightarrow> int option" where
  "find_bytes_from b pat len depth i =
     (if i \<le> depth then do {
        p0 \<leftarrow> get pat 0;
        x \<leftarrow> get (mem b) i;
        if p0 \<noteq> x then find_bytes_from b pat len depth (i + 1)
        else do {
          p \<leftarrow> rd pat 0 len;
          s \<leftarrow> rd (mem b) i len;
          if p = s then Some i else find_bytes_from b pat len depth (i + 1)
        }
      } else Some (-1))"
  by pat_completeness auto
termination
  by (relation "measure (\<lambda>(b, pat, len, depth, i). nat (depth - i + 1))") auto

declare find_bytes_from.simps [simp del]

definition find_bytes :: "smart_buffer \<Rightarrow> byte list \<Rightarrow> int \<Rightarrow> int \<Rightarrow> int option" where
  "find_bytes b pat len from_index =
     (if len \<le> 0 \<or> from_index \<ge> data_size b \<or> len > data_size b then Some (-1)
      else find_bytes_from b pat len (data_size b - len) from_index)"

text \<open>
  \<open>memcpy\<close> inside one array, from a higher to a lower address, as the byte loop it is on
  the platform (the C standard leaves the overlapping copy undefined).
\<close>

function copy_down :: "byte list \<Rightarrow> int \<Rightarrow> int \<Rightarrow> int \<Rightarrow> byte list option" where
  "copy_down m off n k =
     (if k < n then do {
        x \<leftarrow> get m (off + k);
        m' \<leftarrow> put m k x;
        copy_down m' off n (k + 1)
      } else Some m)"
  by pat_completeness auto
termination
  by (relation "measure (\<lambda>(m, off, n, k). nat (n - k))") auto

declare copy_down.simps [simp del]

definition truncate_buf :: "smart_buffer \<Rightarrow> int \<Rightarrow> smart_buffer option" where
  "truncate_buf b len =
     (if data_size b < len then Some (empty_buf b)
      else do {
        left \<leftarrow> i32 (data_size b - len);
        m \<leftarrow> copy_down (mem b) len left 0;
        Some (b\<lparr>buffer := map_option (\<lambda>_. m) (buffer b), data_size := left\<rparr>)
      })"

definition substr :: "smart_buffer \<Rightarrow> int \<Rightarrow> int \<Rightarrow> smart_buffer option" where
  "substr b start stop =
     (if 0 > start \<or> 0 > stop \<or> stop < start then Some b
      else do {
        n \<leftarrow> i32 (stop - start + 1);
        if data_size b > n then do {
          m \<leftarrow> copy_down (mem b) start n 0;
          let right = data_size b - n;
          m' \<leftarrow> (if 0 < right then wr m n (replicate (nat right) 0) else Some m);
          Some (b\<lparr>buffer := map_option (\<lambda>_. m') (buffer b), data_size := n\<rparr>)
        } else Some b
      })"

section \<open>Representation invariant and abstraction\<close>

definition buf_ok :: "smart_buffer \<Rightarrow> bool" where
  "buf_ok b \<longleftrightarrow> 0 \<le> step_size b \<and> 0 \<le> data_size b \<and> data_size b \<le> allocated_size b \<and>
     allocated_size b < 2 ^ 31 \<and> int (length (mem b)) = allocated_size b"

definition content :: "smart_buffer \<Rightarrow> byte list" where
  "content b = take (nat (data_size b)) (mem b)"

lemma buf_okD:
  assumes "buf_ok b"
  shows "0 \<le> step_size b" "0 \<le> data_size b" "data_size b \<le> allocated_size b"
    "allocated_size b < 2147483648" "int (length (mem b)) = allocated_size b"
    "nat (data_size b) \<le> length (mem b)"
  using assms by (auto simp: buf_ok_def)

lemma content_length:
  assumes "buf_ok b"
  shows "length (content b) = nat (data_size b)" "int (length (content b)) = data_size b"
  using assms by (auto simp: buf_ok_def content_def)

lemma step_ok [simp]: "0 \<le> n \<Longrightarrow> buf_ok (SmartBuffer_step n)"
  by (simp add: buf_ok_def SmartBuffer_step_def)

lemma content_step [simp]: "content (SmartBuffer_step n) = []"
  by (simp add: content_def SmartBuffer_step_def)

lemma empty_ok [simp]: "buf_ok b \<Longrightarrow> buf_ok (empty_buf b)"
  by (simp add: buf_ok_def empty_buf_def)

lemma content_empty [simp]: "content (empty_buf b) = []"
  by (simp add: content_def empty_buf_def)

lemma step_size_empty [simp]: "step_size (empty_buf b) = step_size b"
  by (simp add: empty_buf_def)

lemma isEmpty_content: "buf_ok b \<Longrightarrow> isEmpty b \<longleftrightarrow> content b = []"
  by (auto simp: isEmpty_def content_def buf_ok_def)

lemma buf_length_content: "buf_ok b \<Longrightarrow> buf_length b = int (length (content b))"
  by (simp add: buf_length_def content_length(2))

subsection \<open>Appending\<close>

lemma append_bytes_content:
  assumes ok: "buf_ok b" and small: "data_size b + int (length src) + step_size b < 2 ^ 31"
  shows "\<exists>b'. append_bytes b src (int (length src)) = Some b' \<and> buf_ok b' \<and>
           content b' = content b @ src \<and> step_size b' = step_size b"
proof -
  note k = buf_okD [OF ok]
  let ?d = "nat (data_size b)" and ?l = "length src"
  from small have sm: "data_size b + int ?l + step_size b < 2147483648" by simp
  have need: "i32 (data_size b + int ?l) = Some (data_size b + int ?l)"
    by (rule i32_Some) (use k sm in linarith)+
  show ?thesis
  proof (cases "data_size b + int ?l > allocated_size b")
    case True
    let ?n = "data_size b + int ?l + step_size b"
    have "i32 ?n = Some ?n"
      by (rule i32_Some) (use k sm in linarith)+
    moreover have "new_array ?n = Some (replicate (nat ?n) 0)"
      using k by (simp add: new_array_def)
    moreover have "?d + ?l \<le> nat ?n" using k by simp
    ultimately show ?thesis
      using True k need sm
      by (auto simp: append_bytes_def mem_simps buf_ok_def content_def min_def)
  next
    case False
    then show ?thesis
      using k need small
      by (auto simp: append_bytes_def mem_simps buf_ok_def content_def split: option.splits)
  qed
qed


lemma append_char_content:
  assumes "buf_ok b" "data_size b + 1 + step_size b < 2 ^ 31"
  shows "\<exists>b'. append_char b c = Some b' \<and> buf_ok b' \<and> content b' = content b @ [c] \<and>
           step_size b' = step_size b"
  using append_bytes_content [of b "[c]"] assms by (simp add: append_char_def)

lemma set_data_content:
  assumes "buf_ok b" "int (length src) + step_size b < 2 ^ 31"
  shows "\<exists>b'. set_data b src (int (length src)) = Some b' \<and> buf_ok b' \<and> content b' = src \<and>
           step_size b' = step_size b"
  using append_bytes_content [of "empty_buf b" src] assms
  by (simp add: set_data_def) (simp add: empty_buf_def)

subsection \<open>Searching\<close>

lemma mem_nth_content: "buf_ok b \<Longrightarrow> i < length (content b) \<Longrightarrow> mem b ! i = content b ! i"
  by (simp add: content_def)

lemma get_mem: "buf_ok b \<Longrightarrow> i < length (content b) \<Longrightarrow> get (mem b) (int i) = Some (content b ! i)"
  using buf_okD [of b] by (simp add: get_def content_def)

lemma find_char_from_spec:
  assumes "buf_ok b" "i \<le> length (content b)"
  shows "find_char_from b c (int i) =
    Some (case first_index ((=) c) (drop i (content b)) of None \<Rightarrow> -1 | Some j \<Rightarrow> int (i + j))"
  using assms(2)
proof (induction "length (content b) - i" arbitrary: i)
  case 0
  then show ?case
    using assms(1) by (simp add: find_char_from.simps content_length)
next
  case (Suc k)
  then have lt: "i < length (content b)" by simp
  then have "int i < data_size b"
    using content_length [OF assms(1)] by simp
  then have "find_char_from b c (int i) =
      (if c = content b ! i then Some (int i) else find_char_from b c (int (Suc i)))"
    using get_mem [OF assms(1) lt] by (simp add: find_char_from.simps [of b c "int i"] add.commute)
  moreover have "find_char_from b c (int (Suc i)) = Some (case first_index ((=) c)
      (drop (Suc i) (content b)) of None \<Rightarrow> -1 | Some j \<Rightarrow> int (Suc i + j))"
    using Suc.hyps(2) lt by (intro Suc.hyps(1)) auto
  moreover have "drop i (content b) = content b ! i # drop (Suc i) (content b)"
    using lt by (simp add: Cons_nth_drop_Suc)
  ultimately show ?case by (auto split: option.splits)
qed

lemma find_char_spec:
  "buf_ok b \<Longrightarrow> find_char b c =
    Some (case first_index ((=) c) (content b) of None \<Rightarrow> -1 | Some j \<Rightarrow> int j)"
  using find_char_from_spec [of b 0 c] by (simp add: find_char_def split: option.splits)

subsection \<open>Copying down, truncating, cutting\<close>

lemma copy_down_spec:
  "k \<le> n \<Longrightarrow> off + n \<le> length m \<Longrightarrow>
   copy_down m (int off) (int n) (int k) =
     Some (take k m @ take (n - k) (drop (off + k) m) @ drop n m)"
proof (induction "n - k" arbitrary: k m)
  case 0
  then show ?case by (simp add: copy_down.simps)
next
  case (Suc d)
  then have lt: "k < n" by simp
  let ?x = "m ! (off + k)"
  have "get m (int off + int k) = Some ?x"
    using lt Suc.prems by (simp add: get_def nat_add_distrib flip: of_nat_add)
  then have "copy_down m (int off) (int n) (int k) =
      copy_down (m[k := ?x]) (int off) (int n) (int (Suc k))"
    using lt Suc.prems by (subst copy_down.simps) (simp add: mem_simps add.commute)
  also have "\<dots> = Some (take (Suc k) (m[k := ?x]) @
      take (n - Suc k) (drop (off + Suc k) (m[k := ?x])) @ drop n (m[k := ?x]))"
    using Suc.hyps(2) Suc.prems lt by (intro Suc.hyps(1)) auto
  also have "take (Suc k) (m[k := ?x]) = take k m @ [?x]"
    using lt Suc.prems by (simp add: take_Suc_conv_app_nth)
  also have "take (n - Suc k) (drop (off + Suc k) (m[k := ?x])) =
      take (n - Suc k) (drop (Suc (off + k)) m)"
    by simp
  also have "drop n (m[k := ?x]) = drop n m"
    using lt by simp
  finally show ?case
    using lt Suc.prems take_Suc_Cons [of "n - Suc k" ?x "drop (Suc (off + k)) m"]
    by (simp add: Suc_diff_Suc Cons_nth_drop_Suc)
qed

lemma copy_down_whole:
  assumes "0 \<le> off" "0 \<le> n" "off + n \<le> int (length m)"
  shows "copy_down m off n 0 = Some (take (nat n) (drop (nat off) m) @ drop (nat n) m)"
  using copy_down_spec [of 0 "nat n" "nat off" m] assms by simp

lemma copy_down_nat:
  "off + n \<le> length m \<Longrightarrow> copy_down m (int off) (int n) 0 = Some (take n (drop off m) @ drop n m)"
  using copy_down_spec [of 0 n off m] by simp

lemma truncate_content:
  assumes ok: "buf_ok b" and pos: "0 \<le> n"
  shows "\<exists>b'. truncate_buf b n = Some b' \<and> buf_ok b' \<and> content b' = drop (nat n) (content b) \<and>
           step_size b' = step_size b"
proof (cases "data_size b < n")
  case True
  then show ?thesis
    using ok by (auto simp: truncate_buf_def content_length)
next
  case False
  note k = buf_okD [OF ok]
  have l: "i32 (data_size b - n) = Some (data_size b - n)"
    by (rule i32_Some) (use k pos False in linarith)+
  have c: "copy_down (mem b) n (data_size b - n) 0 = Some (take (nat (data_size b - n))
      (drop (nat n) (mem b)) @ drop (nat (data_size b - n)) (mem b))"
    by (rule copy_down_whole) (use k pos False in linarith)+
  show ?thesis
    using False k pos
    by (auto simp: truncate_buf_def l c buf_ok_def content_def drop_take nat_diff_distrib
        split: option.splits)
qed


subsection \<open>Searching for a byte string\<close>

definition occurs_at :: "byte list \<Rightarrow> byte list \<Rightarrow> nat \<Rightarrow> bool" where
  "occurs_at pat s i \<longleftrightarrow> i + length pat \<le> length s \<and> take (length pat) (drop i s) = pat"

lemma find_bytes_step:
  assumes ok: "buf_ok b" and ne: "pat \<noteq> []" and le: "i + length pat \<le> length (content b)"
  shows "find_bytes_from b pat (int (length pat)) (int d) (int i) =
    (if i \<le> d then
       if occurs_at pat (content b) i then Some (int i)
       else find_bytes_from b pat (int (length pat)) (int d) (int (Suc i))
     else Some (-1))"
proof -
  from ne obtain p ps where pat: "pat = p # ps" by (cases pat) auto
  have lt: "i < length (content b)" using le ne by (cases pat) auto
  note k = content_length [OF ok] buf_okD [OF ok]
  have r: "rd (mem b) (int i) (int (length pat)) = Some (take (length pat) (drop i (content b)))"
    using le k by (simp add: rd_def content_def drop_take min_def)
  have h: "take (length pat) (drop i (content b)) = content b ! i # take (length ps) (drop (Suc i) (content b))"
    using lt by (simp add: pat flip: Cons_nth_drop_Suc)
  show ?thesis
    using get_mem [OF ok lt] r h le
    by (subst find_bytes_from.simps) (auto simp: pat get_def mem_simps rd_whole [of pat, unfolded pat]
        occurs_at_def add.commute)
qed

lemma find_bytes_from_spec:
  assumes ok: "buf_ok b" and ne: "pat \<noteq> []" and d: "d + length pat = length (content b)"
  shows "\<exists>r. find_bytes_from b pat (int (length pat)) (int d) (int i) = Some r \<and>
    (r = -1 \<and> (\<forall>j \<ge> i. \<not> occurs_at pat (content b) j) \<or>
     (\<exists>j \<ge> i. r = int j \<and> occurs_at pat (content b) j \<and> (\<forall>k. i \<le> k \<and> k < j \<longrightarrow> \<not> occurs_at pat (content b) k)))"
proof (induction "Suc d - i" arbitrary: i)
  case 0
  then have "int d < int i" by simp
  moreover have "\<forall>j \<ge> i. \<not> occurs_at pat (content b) j"
    using d \<open>int d < int i\<close> by (auto simp: occurs_at_def)
  ultimately show ?case by (simp add: find_bytes_from.simps)
next
  case (Suc m)
  then have "i \<le> d" by simp
  then have le: "i + length pat \<le> length (content b)" using d by simp
  show ?case
  proof (cases "occurs_at pat (content b) i")
    case True
    then show ?thesis
      using find_bytes_step [OF ok ne le, of d] \<open>i \<le> d\<close> by auto
  next
    case False
    have "m = Suc d - Suc i" using Suc.hyps(2) by simp
    from Suc.hyps(1) [OF this] obtain r where r:
      "find_bytes_from b pat (int (length pat)) (int d) (int (Suc i)) = Some r"
      "r = -1 \<and> (\<forall>j \<ge> Suc i. \<not> occurs_at pat (content b) j) \<or>
       (\<exists>j \<ge> Suc i. r = int j \<and> occurs_at pat (content b) j \<and>
          (\<forall>k. Suc i \<le> k \<and> k < j \<longrightarrow> \<not> occurs_at pat (content b) k))"
      by blast
    then show ?thesis
      using find_bytes_step [OF ok ne le, of d] \<open>i \<le> d\<close> False
      by (metis Suc_leD le_antisym not_less_eq_eq)
  qed
qed

section \<open>The interface the packet code relies on\<close>

text \<open>
  A bounded byte buffer seen from its client: \<open>cont\<close> is what it holds, \<open>cap\<close> how much
  can be appended safely. The two lemmas are the client's composite moves: resynchronising on a
  byte, and cutting a frame that ends in a byte.
\<close>

locale byte_buffer =
  fixes inv :: "'b \<Rightarrow> bool"
    and cont :: "'b \<Rightarrow> byte list"
    and cap :: nat
    and app :: "'b \<Rightarrow> byte list \<Rightarrow> int \<Rightarrow> 'b option"
    and clear :: "'b \<Rightarrow> 'b"
    and find_byte :: "'b \<Rightarrow> byte \<Rightarrow> int option"
    and trunc :: "'b \<Rightarrow> int \<Rightarrow> 'b option"
  assumes app_cont: "inv b \<Longrightarrow> length (cont b) + length s \<le> cap \<Longrightarrow>
      \<exists>b'. app b s (int (length s)) = Some b' \<and> inv b' \<and> cont b' = cont b @ s"
    and clear_cont: "inv b \<Longrightarrow> inv (clear b) \<and> cont (clear b) = []"
    and find_cont: "inv b \<Longrightarrow> find_byte b c =
      Some (case first_index ((=) c) (cont b) of None \<Rightarrow> -1 | Some j \<Rightarrow> int j)"
    and trunc_cont: "inv b \<Longrightarrow> 0 \<le> n \<Longrightarrow>
      \<exists>b'. trunc b n = Some b' \<and> inv b' \<and> cont b' = drop (nat n) (cont b)"
begin

lemma resync:
  assumes "inv b"
  shows "\<exists>i. find_byte b c = Some i \<and>
    (if i = -1 then c \<notin> set (cont b) else 0 \<le> i \<and> c \<in> set (cont b) \<and>
       cont b \<noteq> [] \<and> cont b ! nat i = c \<and>
       (\<exists>b'. trunc b i = Some b' \<and> inv b' \<and> cont b' = dropWhile (\<lambda>x. x \<noteq> c) (cont b)) \<and>
       (i = 0 \<longrightarrow> dropWhile (\<lambda>x. x \<noteq> c) (cont b) = cont b))"
proof (cases "first_index ((=) c) (cont b)")
  case None
  moreover from None have "c \<notin> set (cont b)" by (auto simp: first_index_None)
  ultimately show ?thesis
    using find_cont [OF assms, of c] by simp
next
  case (Some j)
  note j = first_index_Some [OF Some] first_index_drop [OF Some]
  have dw: "drop j (cont b) = dropWhile (\<lambda>x. x \<noteq> c) (cont b)"
    using j(2) by (simp add: eq_commute [of c])
  have "c \<in> set (cont b)" using j(1) nth_mem by fastforce
  moreover obtain b' where "trunc b (int j) = Some b'" "inv b'" "cont b' = drop j (cont b)"
    using trunc_cont [OF assms, of "int j"] by auto
  moreover have "j = 0 \<Longrightarrow> dropWhile (\<lambda>x. x \<noteq> c) (cont b) = cont b"
    using dw by simp
  ultimately show ?thesis
    using find_cont [OF assms, of c] Some j(1) dw by force
qed

lemma cut_frame:
  assumes "inv b"
  shows "\<exists>i. find_byte b c = Some i \<and>
    (if i = -1 then first_index ((=) c) (cont b) = None
     else (\<exists>j. i = int j \<and> first_index ((=) c) (cont b) = Some j \<and> j < length (cont b) \<and>
        (\<exists>b'. trunc b (i + 1) = Some b' \<and> inv b' \<and> cont b' = drop (Suc j) (cont b))))"
proof (cases "first_index ((=) c) (cont b)")
  case None
  then show ?thesis using find_cont [OF assms, of c] by simp
next
  case (Some j)
  obtain b' where "trunc b (int j + 1) = Some b'" "inv b'" "cont b' = drop (Suc j) (cont b)"
    using trunc_cont [OF assms, of "int j + 1"] by (auto simp: nat_add_distrib)
  then show ?thesis
    using find_cont [OF assms, of c] Some first_index_Some [OF Some] by auto
qed

end

definition small_buf :: "smart_buffer \<Rightarrow> bool" where
  "small_buf b \<longleftrightarrow> buf_ok b \<and> step_size b \<le> 2 ^ 20"

lemma small_bufD: "small_buf b \<Longrightarrow> buf_ok b" "small_buf b \<Longrightarrow> step_size b \<le> 1048576"
  by (simp_all add: small_buf_def)

lemma small_step [simp]: "0 \<le> n \<Longrightarrow> n \<le> 2 ^ 20 \<Longrightarrow> small_buf (SmartBuffer_step n)"
  by (simp add: small_buf_def) (simp add: SmartBuffer_step_def)

interpretation sbuf: byte_buffer small_buf content "2 ^ 30" append_bytes empty_buf find_char truncate_buf
proof unfold_locales
  fix b and s :: "byte list"
  assume b: "small_buf b" and "length (content b) + length s \<le> 2 ^ 30"
  then have "data_size b + int (length s) + step_size b < 2 ^ 31"
    using small_bufD [OF b] content_length [of b] by simp
  then show "\<exists>b'. append_bytes b s (int (length s)) = Some b' \<and> small_buf b' \<and> content b' = content b @ s"
    using append_bytes_content [OF small_bufD(1) [OF b]] b by (fastforce simp: small_buf_def)
next
  fix b and n :: int
  assume "small_buf b" "0 \<le> n"
  then show "\<exists>b'. truncate_buf b n = Some b' \<and> small_buf b' \<and> content b' = drop (nat n) (content b)"
    using truncate_content [of b n] by (fastforce simp: small_buf_def)
qed (auto simp: small_buf_def find_char_spec)

lemma sbuf_append_char:
  assumes "small_buf b" "length (content b) < 2 ^ 30"
  shows "\<exists>b'. append_char b c = Some b' \<and> small_buf b' \<and> content b' = content b @ [c]"
  using sbuf.app_cont [of b "[c]"] assms by (simp add: append_char_def)

section \<open>Properties\<close>

text \<open>
  Searching for a byte string from an index on stays inside the array and returns the
  first position at or after the index where the string occurs, or -1 if there is none.
\<close>

theorem find_bytes_first:
  assumes "buf_ok b" and "pat \<noteq> []"
  shows "\<exists>r. find_bytes b pat (int (length pat)) (int i) = Some r \<and>
    (r = -1 \<and> (\<forall>j \<ge> i. \<not> occurs_at pat (content b) j) \<or>
     (\<exists>j \<ge> i. r = int j \<and> occurs_at pat (content b) j \<and>
        (\<forall>k. i \<le> k \<and> k < j \<longrightarrow> \<not> occurs_at pat (content b) k)))"
proof (cases "int i \<ge> data_size b \<or> int (length pat) > data_size b")
  case True
  then have "\<forall>j \<ge> i. \<not> occurs_at pat (content b) j"
    using content_length [OF assms(1)] assms(2) by (auto simp: occurs_at_def)
  then show ?thesis using True by (auto simp: find_bytes_def)
next
  case False
  let ?d = "length (content b) - length pat"
  have d: "?d + length pat = length (content b)" "data_size b - int (length pat) = int ?d"
    using False content_length [OF assms(1)] by auto
  show ?thesis
    using find_bytes_from_spec [OF assms d(1), of i] False assms(2) by (simp add: find_bytes_def d(2))
qed

theorem find_bytes_first_witness:
  "\<exists>r. find_bytes \<lparr>step_size = 0, allocated_size = 4, data_size = 4, buffer = Some [7, 1, 2, 1]\<rparr> [1, 2]
     2 0 = Some r \<and> (r = -1 \<or> (\<exists>j \<ge> 0. r = int j))"
  using find_bytes_first [of "\<lparr>step_size = 0, allocated_size = 4, data_size = 4, buffer = Some [7, 1, 2, 1]\<rparr>"
      "[1, 2]" 0]
  by (auto simp: buf_ok_def)

text \<open>
  \<open>substr\<close> with both bounds inside the data keeps exactly the bytes from the first to
  the last index. (With an end index past the data the code can copy bytes from behind the data;
  with an interval at least as long as the data it does nothing.)
\<close>

theorem substr_inside:
  assumes "buf_ok b" and "i \<le> j" and "j < length (content b)"
  shows "\<exists>b'. substr b (int i) (int j) = Some b' \<and> buf_ok b' \<and>
    content b' = take (Suc j - i) (drop i (content b))"
proof -
  note k = buf_okD [OF assms(1)] and cl = content_length [OF assms(1)]
  define N where "N = Suc j - i"
  have N: "int j - int i + 1 = int N" "N \<noteq> 0" "i + N \<le> nat (data_size b)"
    using assms cl by (auto simp: N_def)
  have n: "i32 (int N) = Some (int N)"
    by (rule i32_Some) (use N k in linarith)+
  show ?thesis
  proof (cases "data_size b > int N")
    case True
    let ?m = "take N (drop i (mem b)) @ drop N (mem b)"
    let ?z = "replicate (nat (data_size b - int N)) (0::byte)"
    have c: "copy_down (mem b) (int i) (int N) 0 = Some ?m"
      by (rule copy_down_nat) (use N k in linarith)
    have len: "length ?m = length (mem b)"
      using N k by simp
    have w: "wr ?m (int N) ?z = Some (take N ?m @ ?z @ drop (N + length ?z) ?m)"
      by (subst wr_Some) (use True k len in simp_all)
    have tm: "take N ?m = take N (drop i (mem b))"
      using N k by simp
    have tc: "take N (drop i (content b)) = take N (drop i (mem b))"
      using N by (simp add: content_def drop_take min_def)
    define M where "M = take N ?m @ ?z @ drop (N + length ?z) ?m"
    have "length (take N ?m) = N" using len N k by simp
    then have tM: "take N M = take N (drop i (content b))"
      using tm tc by (simp add: M_def)
    have lM: "length M = length (mem b)"
      using N k True by (simp add: M_def)
    from True k obtain m0 where m0: "buffer b = Some m0" by (auto split: option.splits)
    let ?b' = "b\<lparr>buffer := Some M, data_size := int N\<rparr>"
    have "substr b (int i) (int j) = Some ?b'"
      using True assms(2) c w m0 by (simp add: substr_def N(1) n Let_def M_def del: wr_Some)
    moreover have "buf_ok ?b'"
      using k True lM by (simp add: buf_ok_def)
    moreover have "content ?b' = take N (drop i (content b))"
      using tM by (simp add: content_def)
    ultimately show ?thesis by (auto simp: N_def)
  next
    case False
    then have "i = 0" "Suc j = length (content b)" using N cl by (auto simp: N_def)
    moreover have "substr b (int i) (int j) = Some b"
      using False assms(2) by (simp add: substr_def N(1) n)
    ultimately show ?thesis using assms(1) by simp
  qed
qed

theorem substr_inside_witness:
  "\<exists>b'. substr \<lparr>step_size = 0, allocated_size = 4, data_size = 4, buffer = Some [7, 1, 2, 1]\<rparr> 1 2 = Some b' \<and>
     content b' = [1, 2]"
  using substr_inside [of "\<lparr>step_size = 0, allocated_size = 4, data_size = 4, buffer = Some [7, 1, 2, 1]\<rparr>" 1 2]
  by (auto simp: buf_ok_def content_def)

text \<open>
  C11. The buffer refines a list of bytes: from any state of the representation invariant,
  appending (within the integer range), clearing, truncating from the front, cutting out a substring with both
  ends inside the data, and searching for a byte stay inside the array, keep the invariant and act on the content
  as list append, the empty list, drop, take after drop and the index of the first occurrence.
\<close>

theorem smart_buffer_refines_list:
  assumes "buf_ok b" and "data_size b + int (length s) + step_size b < 2 ^ 31" and "0 \<le> n"
  shows "(\<exists>b'. append_bytes b s (int (length s)) = Some b' \<and> buf_ok b' \<and> content b' = content b @ s) \<and>
    buf_ok (empty_buf b) \<and> content (empty_buf b) = [] \<and>
    (\<exists>b'. truncate_buf b n = Some b' \<and> buf_ok b' \<and> content b' = drop (nat n) (content b)) \<and>
    (\<forall>i j. i \<le> j \<and> j < length (content b) \<longrightarrow>
      (\<exists>b'. substr b (int i) (int j) = Some b' \<and> buf_ok b' \<and> content b' = take (Suc j - i) (drop i (content b)))) \<and>
    find_char b c = Some (case first_index ((=) c) (content b) of None \<Rightarrow> -1 | Some j \<Rightarrow> int j) \<and>
    buf_length b = int (length (content b)) \<and> (isEmpty b \<longleftrightarrow> content b = [])"
  using append_bytes_content [OF assms(1,2)] truncate_content [OF assms(1,3)] substr_inside [OF assms(1)] assms(1)
  by (auto simp: find_char_spec buf_length_content isEmpty_content)

theorem smart_buffer_refines_list_witness:
  "(\<exists>b'. append_bytes \<lparr>step_size = 0, allocated_size = 4, data_size = 4, buffer = Some [7, 1, 2, 1]\<rparr> [5, 6] 2 = Some b' \<and>
     buf_ok b' \<and> content b' = [7, 1, 2, 1, 5, 6]) \<and>
   (\<exists>b'. substr \<lparr>step_size = 0, allocated_size = 4, data_size = 4, buffer = Some [7, 1, 2, 1]\<rparr> 1 2 = Some b' \<and>
     buf_ok b' \<and> content b' = [1, 2])"
proof -
  let ?b = "\<lparr>step_size = 0, allocated_size = 4, data_size = 4, buffer = Some [7, 1, 2, 1]\<rparr>"
  have ok: "buf_ok ?b" and c: "content ?b = [7, 1, 2, 1]" by (simp_all add: buf_ok_def content_def)
  from smart_buffer_refines_list [OF ok, of "[5, 6]" 0 0] have
    "\<exists>b'. append_bytes ?b [5, 6] 2 = Some b' \<and> buf_ok b' \<and> content b' = [7, 1, 2, 1, 5, 6]"
    "\<forall>i j. i \<le> j \<and> j < 4 \<longrightarrow> (\<exists>b'. substr ?b (int i) (int j) = Some b' \<and> buf_ok b' \<and> content b' = take (Suc j - i) (drop i [7, 1, 2, 1]))"
    unfolding c by simp_all
  moreover from this(2) [rule_format, of 1 2] have "\<exists>b'. substr ?b 1 2 = Some b' \<and> buf_ok b' \<and> content b' = [1, 2]"
    by (simp add: numeral_2_eq_2)
  ultimately show ?thesis by blast
qed

end
