(* ===== verification/Crc.thy ===== *)
theory Crc
  imports Prelude
begin

text \<open>
  The checksum of the TCP packets (src/common/cmmobj/comm/CalcCrc.h): the table-driven
  CRC-16 with polynomial 0x1021 and initial value 0.

  \<open>CalcCRC1021\<close> is the loop over the buffer; \<open>crc_bits\<close> is the bitwise division it
  optimises (one shift per bit), the reference definition of the equivalence.
\<close>

unbundle bit_operations_syntax

definition pu16CRC1021Table :: "u16 list" where
  "pu16CRC1021Table =
   [0x0000, 0x1021, 0x2042, 0x3063, 0x4084, 0x50A5, 0x60C6, 0x70E7,
    0x8108, 0x9129, 0xA14A, 0xB16B, 0xC18C, 0xD1AD, 0xE1CE, 0xF1EF,
    0x1231, 0x0210, 0x3273, 0x2252, 0x52B5, 0x4294, 0x72F7, 0x62D6,
    0x9339, 0x8318, 0xB37B, 0xA35A, 0xD3BD, 0xC39C, 0xF3FF, 0xE3DE,
    0x2462, 0x3443, 0x0420, 0x1401, 0x64E6, 0x74C7, 0x44A4, 0x5485,
    0xA56A, 0xB54B, 0x8528, 0x9509, 0xE5EE, 0xF5CF, 0xC5AC, 0xD58D,
    0x3653, 0x2672, 0x1611, 0x0630, 0x76D7, 0x66F6, 0x5695, 0x46B4,
    0xB75B, 0xA77A, 0x9719, 0x8738, 0xF7DF, 0xE7FE, 0xD79D, 0xC7BC,
    0x48C4, 0x58E5, 0x6886, 0x78A7, 0x0840, 0x1861, 0x2802, 0x3823,
    0xC9CC, 0xD9ED, 0xE98E, 0xF9AF, 0x8948, 0x9969, 0xA90A, 0xB92B,
    0x5AF5, 0x4AD4, 0x7AB7, 0x6A96, 0x1A71, 0x0A50, 0x3A33, 0x2A12,
    0xDBFD, 0xCBDC, 0xFBBF, 0xEB9E, 0x9B79, 0x8B58, 0xBB3B, 0xAB1A,
    0x6CA6, 0x7C87, 0x4CE4, 0x5CC5, 0x2C22, 0x3C03, 0x0C60, 0x1C41,
    0xEDAE, 0xFD8F, 0xCDEC, 0xDDCD, 0xAD2A, 0xBD0B, 0x8D68, 0x9D49,
    0x7E97, 0x6EB6, 0x5ED5, 0x4EF4, 0x3E13, 0x2E32, 0x1E51, 0x0E70,
    0xFF9F, 0xEFBE, 0xDFDD, 0xCFFC, 0xBF1B, 0xAF3A, 0x9F59, 0x8F78,
    0x9188, 0x81A9, 0xB1CA, 0xA1EB, 0xD10C, 0xC12D, 0xF14E, 0xE16F,
    0x1080, 0x00A1, 0x30C2, 0x20E3, 0x5004, 0x4025, 0x7046, 0x6067,
    0x83B9, 0x9398, 0xA3FB, 0xB3DA, 0xC33D, 0xD31C, 0xE37F, 0xF35E,
    0x02B1, 0x1290, 0x22F3, 0x32D2, 0x4235, 0x5214, 0x6277, 0x7256,
    0xB5EA, 0xA5CB, 0x95A8, 0x8589, 0xF56E, 0xE54F, 0xD52C, 0xC50D,
    0x34E2, 0x24C3, 0x14A0, 0x0481, 0x7466, 0x6447, 0x5424, 0x4405,
    0xA7DB, 0xB7FA, 0x8799, 0x97B8, 0xE75F, 0xF77E, 0xC71D, 0xD73C,
    0x26D3, 0x36F2, 0x0691, 0x16B0, 0x6657, 0x7676, 0x4615, 0x5634,
    0xD94C, 0xC96D, 0xF90E, 0xE92F, 0x99C8, 0x89E9, 0xB98A, 0xA9AB,
    0x5844, 0x4865, 0x7806, 0x6827, 0x18C0, 0x08E1, 0x3882, 0x28A3,
    0xCB7D, 0xDB5C, 0xEB3F, 0xFB1E, 0x8BF9, 0x9BD8, 0xABBB, 0xBB9A,
    0x4A75, 0x5A54, 0x6A37, 0x7A16, 0x0AF1, 0x1AD0, 0x2AB3, 0x3A92,
    0xFD2E, 0xED0F, 0xDD6C, 0xCD4D, 0xBDAA, 0xAD8B, 0x9DE8, 0x8DC9,
    0x7C26, 0x6C07, 0x5C64, 0x4C45, 0x3CA2, 0x2C83, 0x1CE0, 0x0CC1,
    0xEF1F, 0xFF3E, 0xCF5D, 0xDF7C, 0xAF9B, 0xBFBA, 0x8FD9, 0x9FF8,
    0x6E17, 0x7E36, 0x4E55, 0x5E74, 0x2E93, 0x3EB2, 0x0ED1, 0x1EF0]"

definition crc_step :: "u16 \<Rightarrow> byte \<Rightarrow> u16" where
  "crc_step crc b =
     (let u8Data = (ucast (drop_bit 8 crc) XOR b) AND 0xFF
      in pu16CRC1021Table ! unat u8Data XOR push_bit 8 crc)"

definition CalcCRC1021 :: "byte list \<Rightarrow> int \<Rightarrow> u16 option" where
  "CalcCRC1021 buf n = do { bs \<leftarrow> rd buf 0 n; Some (foldl crc_step 0 bs) }"

section \<open>The bitwise reference\<close>

definition shift_bit :: "u16 \<Rightarrow> u16" where
  "shift_bit c = (if bit c 15 then push_bit 1 c XOR 0x1021 else push_bit 1 c)"

definition shift_byte :: "u16 \<Rightarrow> u16" where
  "shift_byte c = shift_bit (shift_bit (shift_bit (shift_bit
     (shift_bit (shift_bit (shift_bit (shift_bit c)))))))"

definition crc_bits :: "byte list \<Rightarrow> u16" where
  "crc_bits bs = foldl (\<lambda>c b. shift_byte (c XOR push_bit 8 (ucast b))) 0 bs"

lemma shift_bit_xor: "shift_bit (a XOR b) = shift_bit a XOR shift_bit b"
  by (simp add: shift_bit_def bit_xor_iff push_bit_xor xor.assoc xor.left_commute xor.commute)

lemma shift_byte_xor: "shift_byte (a XOR b) = shift_byte a XOR shift_byte b"
  by (simp add: shift_byte_def shift_bit_xor)

text \<open>A value below 256 is shifted out without meeting the polynomial.\<close>

lemma shift_bit_low: "\<not> bit c 15 \<Longrightarrow> shift_bit c = push_bit 1 c"
  by (simp add: shift_bit_def)

lemma shift_bit_push: "k < 8 \<Longrightarrow> shift_bit (push_bit k (ucast (b :: byte))) = push_bit (Suc k) (ucast b)"
proof -
  assume "k < 8"
  then have "\<not> bit b (15 - k)" using bit_imp_le_length [of b "15 - k"] by auto
  then show ?thesis by (simp add: shift_bit_low bit_simps)
qed

lemma shift_byte_low: "shift_byte (ucast (b :: byte)) = push_bit 8 (ucast b)"
proof -
  let ?x = "ucast b :: u16"
  have "shift_byte (push_bit 0 ?x) = push_bit (Suc (Suc (Suc (Suc (Suc (Suc (Suc (Suc 0)))))))) ?x"
    unfolding shift_byte_def by ((subst shift_bit_push, simp)+) (rule refl)
  then show ?thesis by (simp add: eval_nat_numeral)
qed

text \<open>The table holds the shifted bytes.\<close>

fun table_from :: "u16 \<Rightarrow> u16 list \<Rightarrow> bool" where
  "table_from i [] = True"
| "table_from i (v # vs) = (v = shift_byte i \<and> table_from (i + 0x100) vs)"

lemma table_from_nth:
  "table_from i vs \<Longrightarrow> k < length vs \<Longrightarrow> vs ! k = shift_byte (i + word_of_nat k * 0x100)"
proof (induction vs arbitrary: i k)
  case (Cons v vs)
  then show ?case by (cases k) (auto simp: algebra_simps)
qed simp

lemma table_ok: "table_from 0 pu16CRC1021Table"
  by (simp add: pu16CRC1021Table_def shift_byte_def shift_bit_def)

lemma table_nth: "pu16CRC1021Table ! unat (b :: byte) = shift_byte (push_bit 8 (ucast b))"
proof -
  have "unat b < 2 ^ LENGTH(8)" by (rule unsigned_less)
  then have "unat b < 256" by simp
  moreover have "length pu16CRC1021Table = 256" by (simp add: pu16CRC1021Table_def)
  ultimately have "pu16CRC1021Table ! unat b = shift_byte (word_of_nat (unat b) * 0x100)"
    using table_from_nth [OF table_ok, of "unat b"] by simp
  also have "word_of_nat (unat b) * 0x100 = push_bit 8 (ucast b :: u16)"
    by (simp add: push_bit_eq_mult unsigned_def)
  finally show ?thesis .
qed

lemma crc_step_bits: "crc_step c b = shift_byte (c XOR push_bit 8 (ucast b))"
proof -
  let ?h = "ucast (drop_bit 8 c) :: byte" and ?l = "ucast c :: byte"
  have c: "c = push_bit 8 (ucast ?h) XOR ucast ?l"
    by (rule bit_word_eqI) (auto simp: bit_simps)
  have p: "push_bit 8 c = push_bit 8 (ucast ?l :: u16)"
    by (rule bit_word_eqI) (auto simp: bit_simps)
  have m: "(?h XOR b) AND 0xFF = ?h XOR b"
  proof -
    have "(0xFF :: byte) = - 1" by simp
    then show ?thesis by (simp only: and.right_neutral)
  qed
  have "shift_byte (c XOR push_bit 8 (ucast b)) =
      shift_byte (push_bit 8 (ucast (?h XOR b))) XOR shift_byte (ucast ?l)"
    by (subst c) (simp add: shift_byte_xor unsigned_xor_eq push_bit_xor ac_simps)
  then show ?thesis
    by (simp add: crc_step_def m table_nth shift_byte_low p Let_def)
qed

lemma foldl_crc_bits: "foldl crc_step c bs = foldl (\<lambda>c b. shift_byte (c XOR push_bit 8 (ucast b))) c bs"
  by (induction bs arbitrary: c) (simp_all add: crc_step_bits)


section \<open>The checksum as a code\<close>

text \<open>
  One step is a bijection of the register for a fixed byte and injective in the byte for a
  fixed register, which is why a change confined to one byte always changes the checksum.
\<close>

lemma xor_same_right: "(a :: u16) XOR c = b XOR c \<longleftrightarrow> a = b"
proof
  assume "a XOR c = b XOR c"
  then have "(a XOR c) XOR c = (b XOR c) XOR c" by (rule arg_cong [where f = "\<lambda>x. x XOR c"])
  then show "a = b" by (simp add: xor.assoc)
qed simp

lemma shift_bit_inj: "shift_bit a = shift_bit b \<Longrightarrow> a = b"
proof -
  assume eq: "shift_bit a = shift_bit b"
  have parity: "bit (shift_bit x) 0 = bit x 15" for x
    by (auto simp: shift_bit_def bit_simps bit_0 even_xor_iff)
  from eq have top: "bit a 15 = bit b 15" using parity by metis
  with eq have "push_bit 1 a = push_bit 1 b"
    by (auto simp: shift_bit_def xor_same_right split: if_splits)
  then have eq1: "bit (push_bit 1 a) n = bit (push_bit 1 b) n" for n by (rule arg_cong)
  have low: "bit a n = bit b n" if "n < 15" for n
    using eq1 [of "Suc n"] that unfolding bit_push_bit_iff by simp
  show "a = b"
  proof (rule bit_word_eqI)
    fix n
    assume "n < LENGTH(16)"
    then have "n < 15 \<or> n = 15" by auto
    then show "bit a n = bit b n" using low top by blast
  qed
qed

lemma shift_bit_inj_iff: "shift_bit a = shift_bit b \<longleftrightarrow> a = b"
  by (rule iffI [OF shift_bit_inj]) simp_all

lemma shift_byte_inj: "shift_byte a = shift_byte b \<longleftrightarrow> a = b"
  by (simp add: shift_byte_def shift_bit_inj_iff)

lemma crc_step_inj_reg: "crc_step c b = crc_step d b \<longleftrightarrow> c = d"
  by (simp add: crc_step_bits shift_byte_inj xor_same_right)

lemma foldl_crc_inj: "foldl crc_step c bs = foldl crc_step d bs \<longleftrightarrow> c = d"
  by (induction bs arbitrary: c d) (simp_all add: crc_step_inj_reg)

definition join16 :: "byte \<Rightarrow> byte \<Rightarrow> u16" where
  "join16 hi lo = push_bit 8 (ucast hi) XOR ucast lo"

lemma join16_inj: "join16 a b = join16 c d \<longleftrightarrow> a = c \<and> b = d"
proof
  assume eq: "join16 a b = join16 c d"
  have hi: "ucast (drop_bit 8 (join16 x y)) = x" for x y :: byte
    by (rule bit_word_eqI) (auto simp: join16_def bit_simps dest: bit_imp_le_length)
  have lo: "ucast (join16 x y) = y" for x y :: byte
    by (rule bit_word_eqI) (auto simp: join16_def bit_simps dest: bit_imp_le_length)
  show "a = c \<and> b = d" using eq hi lo by metis
qed simp

text \<open>Two steps process sixteen bits at once.\<close>

lemma crc_two_steps: "foldl crc_step c [a, b] = shift_byte (shift_byte (c XOR join16 a b))"
  by (simp add: crc_step_bits join16_def shift_byte_xor shift_byte_low xor.assoc)

lemma shift_byte_zero [simp]: "shift_byte 0 = 0"
  using shift_byte_xor [of 0 0] by simp

lemma CalcCRC1021_foldl: "CalcCRC1021 bs (int (length bs)) = Some (foldl crc_step 0 bs)"
  by (simp add: CalcCRC1021_def mem_simps)

lemma CalcCRC1021_at:
  "0 \<le> n \<Longrightarrow> n \<le> int (length bs) \<Longrightarrow> CalcCRC1021 bs n = Some (foldl crc_step 0 (take (nat n) bs))"
  by (simp add: CalcCRC1021_def rd_def)

section \<open>Properties\<close>

text \<open>
  C33. The table-driven checksum computes the bitwise CRC-16 division (polynomial 0x1021,
  initial value 0) of the whole buffer, without reading outside it.
\<close>

theorem crc_table_equivalent: "CalcCRC1021 bs (int (length bs)) = Some (crc_bits bs)"
  by (simp add: CalcCRC1021_foldl crc_bits_def foldl_crc_bits)

text \<open>
  C34. Every corruption confined to two neighbouring bytes of a buffer changes its checksum.
\<close>

theorem crc_detects_burst:
  "CalcCRC1021 (u @ [a, b] @ v) (int (length u + 2 + length v)) =
     CalcCRC1021 (u @ [c, d] @ v) (int (length u + 2 + length v)) \<longleftrightarrow> a = c \<and> b = d"
proof -
  have eq: "CalcCRC1021 (u @ [x, y] @ v) (int (length u + 2 + length v)) =
      Some (foldl crc_step (shift_byte (shift_byte (foldl crc_step 0 u XOR join16 x y))) v)" for x y
    using CalcCRC1021_foldl [of "u @ [x, y] @ v"] crc_two_steps [of "foldl crc_step 0 u" x y] by simp
  show ?thesis
    unfolding eq
    by (simp add: foldl_crc_inj shift_byte_inj xor.commute [of _ "join16 _ _"] xor_same_right join16_inj)
qed

text \<open>
  Appending the checksum of a buffer, high byte first, gives a buffer with checksum 0.
\<close>

theorem crc_residue:
  assumes "CalcCRC1021 bs (int (length bs)) = Some c"
  shows "CalcCRC1021 (bs @ [ucast (drop_bit 8 c), ucast c]) (int (length bs) + 2) = Some 0"
proof -
  let ?m = "bs @ [ucast (drop_bit 8 c), ucast c]"
  have "join16 (ucast (drop_bit 8 c)) (ucast c) = c"
    by (rule bit_word_eqI) (auto simp: join16_def bit_simps)
  moreover have "foldl crc_step 0 bs = c"
    using assms by (simp add: CalcCRC1021_foldl)
  ultimately show ?thesis
    using CalcCRC1021_foldl [of ?m] crc_two_steps [of c "ucast (drop_bit 8 c)" "ucast c"]
    by (simp add: add.commute)
qed

theorem crc_residue_witness:
  "CalcCRC1021 [0x31] (int (length [0x31 :: byte])) = Some 0x2672 \<and>
   CalcCRC1021 ([0x31] @ [ucast (drop_bit 8 (0x2672 :: u16)), ucast (0x2672 :: u16)])
     (int (length [0x31 :: byte]) + 2) = Some 0"
proof -
  have h: "CalcCRC1021 [0x31] (int (length [0x31 :: byte])) = Some 0x2672"
    unfolding CalcCRC1021_foldl by (simp add: crc_step_bits shift_byte_def shift_bit_def)
  show ?thesis using h crc_residue [OF h] by blast
qed

end
