(* ===== verification/Escape.thy ===== *)
theory Escape
  imports Prelude
begin

text \<open>
  The byte stuffing of the TCP packets (src/common/cmmobj/comm/Convt.h).

  A byte that equals the head flag 0x7D, the tail flag 0x0B or the escape byte 0x34 is sent as
  0x34 followed by its complement. \<open>ConvtCode\<close> and \<open>UnconvtCode\<close> are the two loops over
  C arrays (a null pointer is \<^term>\<open>None\<close>); they return the array written to and the number
  of bytes written. \<open>esc\<close> and \<open>unesc\<close> are their specifications on lists.
\<close>

unbundle bit_operations_syntax

section \<open>The loops\<close>

function convt_loop :: "byte list \<Rightarrow> int \<Rightarrow> byte list \<Rightarrow> int \<Rightarrow> int \<Rightarrow> (byte list \<times> int) option" where
  "convt_loop inb n out i k =
     (if i < n then do {
        t \<leftarrow> get inb i;
        if t = 0x7D \<or> t = 0x0B \<or> t = 0x34 then do {
          out \<leftarrow> put out k 0x34;
          out \<leftarrow> put out (k + 1) (NOT t);
          convt_loop inb n out (i + 1) (k + 2)
        } else do {
          out \<leftarrow> put out k t;
          convt_loop inb n out (i + 1) (k + 1)
        }
      } else Some (out, k))"
  by pat_completeness auto
termination
  by (relation "measure (\<lambda>(inb, n, out, i, k). nat (n - i))") auto

declare convt_loop.simps [simp del]

definition ConvtCode :: "byte list option \<Rightarrow> int \<Rightarrow> byte list option \<Rightarrow> (byte list option \<times> int) option" where
  "ConvtCode inb n out =
     (case (inb, out) of
        (Some i, Some out) \<Rightarrow> do { (out, k) \<leftarrow> convt_loop i n out 0 0; Some (Some out, k) }
      | _ \<Rightarrow> Some (out, 0))"

function unconvt_loop :: "byte list \<Rightarrow> int \<Rightarrow> byte list \<Rightarrow> int \<Rightarrow> int \<Rightarrow> (byte list \<times> int) option" where
  "unconvt_loop inb n out i k =
     (if i < n then do {
        t \<leftarrow> get inb i;
        if t = 0x34 then do {
          c \<leftarrow> get inb (i + 1);
          out \<leftarrow> put out k (NOT c);
          unconvt_loop inb n out (i + 2) (k + 1)
        } else do {
          out \<leftarrow> put out k t;
          unconvt_loop inb n out (i + 1) (k + 1)
        }
      } else Some (out, k))"
  by pat_completeness auto
termination
  by (relation "measure (\<lambda>(inb, n, out, i, k). nat (n - i))") auto

declare unconvt_loop.simps [simp del]

definition UnconvtCode :: "byte list option \<Rightarrow> int \<Rightarrow> byte list option \<Rightarrow> (byte list option \<times> int) option" where
  "UnconvtCode inb n out =
     (case (inb, out) of
        (Some i, Some out) \<Rightarrow> do { (out, k) \<leftarrow> unconvt_loop i n out 0 0; Some (Some out, k) }
      | _ \<Rightarrow> Some (out, 0))"

section \<open>Specification on lists\<close>

definition special :: "byte \<Rightarrow> bool" where
  "special b \<longleftrightarrow> b = 0x7D \<or> b = 0x0B \<or> b = 0x34"

fun esc :: "byte list \<Rightarrow> byte list" where
  "esc [] = []"
| "esc (b # bs) = (if special b then 0x34 # NOT b # esc bs else b # esc bs)"

text \<open>
  The decoder looks one byte past its input when the input ends in an escape byte; \<open>t\<close>
  is the byte behind the input.
\<close>

fun unesc :: "byte \<Rightarrow> byte list \<Rightarrow> byte list" where
  "unesc t [] = []"
| "unesc t [b] = (if b = 0x34 then [NOT t] else [b])"
| "unesc t (b # c # bs) = (if b = 0x34 then NOT c # unesc t bs else b # unesc t (c # bs))"

lemma unesc_esc [simp]: "unesc t (esc bs) = bs"
proof (induction bs)
  case (Cons b bs)
  show ?case
  proof (cases "special b")
    case True
    then show ?thesis using Cons.IH by simp
  next
    case False
    then have "b \<noteq> 0x34" by (simp add: special_def)
    then show ?thesis using Cons.IH False by (cases "esc bs") auto
  qed
qed simp

lemma esc_append [simp]: "esc (xs @ ys) = esc xs @ esc ys"
  by (induction xs) auto

lemma esc_clean: "x \<in> set (esc bs) \<Longrightarrow> x \<noteq> 0x7D \<and> x \<noteq> 0x0B"
  by (induction bs) (auto simp: special_def split: if_splits)

lemma length_esc: "length bs \<le> length (esc bs)" "length (esc bs) \<le> 2 * length bs"
  by (induction bs) auto

lemma length_esc_exact: "length (esc bs) = length bs + length (filter special bs)"
  by (induction bs) auto

lemma length_unesc: "length (unesc t bs) \<le> length bs"
  by (induction t bs rule: unesc.induct) auto

lemma unesc_nonempty: "bs \<noteq> [] \<Longrightarrow> unesc t bs \<noteq> []"
  by (cases "(t, bs)" rule: unesc.cases) auto

interpretation esc_codec: codec esc "\<lambda>bs. Some (unesc t bs)" "\<lambda>_. True" for t
  by unfold_locales simp

lemma esc_inj: "esc xs = esc ys \<longleftrightarrow> xs = ys"
  using esc_codec.enc_inj [of xs ys] by simp

section \<open>The loops meet the specification\<close>

definition over :: "'a list \<Rightarrow> nat \<Rightarrow> 'a list \<Rightarrow> 'a list" where
  "over m k xs = take k m @ xs @ drop (k + length xs) m"

lemma over_Nil [simp]: "over m k [] = m"
  by (simp add: over_def)

lemma length_over [simp]: "k + length xs \<le> length m \<Longrightarrow> length (over m k xs) = length m"
  by (simp add: over_def)

lemma put_over: "k < length m \<Longrightarrow> put m (int k) x = Some (over m k [x])"
  by (simp add: put_def over_def upd_conv_take_nth_drop)

lemma over_over:
  "k + length xs + length ys \<le> length m \<Longrightarrow> over (over m k xs) (k + length xs) ys = over m k (xs @ ys)"
proof -
  assume "k + length xs + length ys \<le> length m"
  then have "length (take k m) = k" by simp
  then show ?thesis by (simp add: over_def ac_simps)
qed

lemma over_zero: "over m 0 xs = xs @ drop (length xs) m"
  by (simp add: over_def)

lemma drop_nth_Cons: "i < length xs \<Longrightarrow> drop i xs = xs ! i # drop (Suc i) xs"
  by (simp add: Cons_nth_drop_Suc)

lemma convt_loop_esc:
  "i \<le> n \<Longrightarrow> n \<le> length inb \<Longrightarrow> k + length (esc (drop i (take n inb))) \<le> length out \<Longrightarrow>
   convt_loop inb (int n) out (int i) (int k) =
     Some (over out k (esc (drop i (take n inb))), int (k + length (esc (drop i (take n inb)))))"
proof (induction "n - i" arbitrary: i k out)
  case 0
  then show ?case by (simp add: convt_loop.simps)
next
  case (Suc d)
  then have lt: "i < n" by simp
  let ?t = "inb ! i" and ?r = "esc (drop (Suc i) (take n inb))"
  have dr: "drop i (take n inb) = ?t # drop (Suc i) (take n inb)"
    using lt Suc.prems by (subst drop_nth_Cons) auto
  have g: "get inb (int i) = Some ?t" using lt Suc.prems by (simp add: mem_simps)
  show ?case
  proof (cases "special ?t")
    case True
    let ?o = "over out k [0x34, NOT ?t]"
    have "put out (int k) 0x34 = Some (over out k [0x34])"
      using Suc.prems dr True by (intro put_over) simp
    moreover have "put (over out k [0x34]) (int k + 1) (NOT ?t) = Some ?o"
      using Suc.prems dr True put_over [of "Suc k" "over out k [0x34]" "NOT ?t"]
        over_over [of k "[0x34]" "[NOT ?t]" out] by (simp add: add.commute)
    ultimately have "convt_loop inb (int n) out (int i) (int k) =
        convt_loop inb (int n) ?o (int (Suc i)) (int (k + 2))"
      using lt g True by (subst convt_loop.simps) (simp add: special_def add.commute)
    also have "\<dots> = Some (over ?o (k + 2) ?r, int (k + 2 + length ?r))"
      using Suc.hyps(2) Suc.prems lt dr True by (intro Suc.hyps(1)) auto
    also have "over ?o (k + 2) ?r = over out k (esc (drop i (take n inb)))"
      using over_over [of k "[0x34, NOT ?t]" ?r out] Suc.prems dr True by simp
    finally show ?thesis using dr True by simp
  next
    case False
    let ?o = "over out k [?t]"
    have "put out (int k) ?t = Some ?o"
      using Suc.prems dr False by (intro put_over) simp
    then have "convt_loop inb (int n) out (int i) (int k) =
        convt_loop inb (int n) ?o (int (Suc i)) (int (k + 1))"
      using lt g False by (subst convt_loop.simps) (simp add: special_def add.commute)
    also have "\<dots> = Some (over ?o (k + 1) ?r, int (k + 1 + length ?r))"
      using Suc.hyps(2) Suc.prems lt dr False by (intro Suc.hyps(1)) auto
    also have "over ?o (k + 1) ?r = over out k (esc (drop i (take n inb)))"
      using over_over [of k "[?t]" ?r out] Suc.prems dr False by simp
    finally show ?thesis using dr False by simp
  qed
qed

lemma ConvtCode_esc:
  assumes "n \<le> length inb" "length (esc (take n inb)) \<le> length out"
  shows "ConvtCode (Some inb) (int n) (Some out) =
    Some (Some (esc (take n inb) @ drop (length (esc (take n inb))) out), int (length (esc (take n inb))))"
  using convt_loop_esc [of 0 n inb 0 out] assms by (simp add: ConvtCode_def over_zero)


lemma unconvt_loop_unesc:
  "n < length inb \<Longrightarrow> k + length (unesc (inb ! n) (drop i (take n inb))) \<le> length out \<Longrightarrow>
   unconvt_loop inb (int n) out (int i) (int k) =
     Some (over out k (unesc (inb ! n) (drop i (take n inb))),
           int (k + length (unesc (inb ! n) (drop i (take n inb)))))"
proof (induction "n - i" arbitrary: i k out rule: less_induct)
  case less
  let ?t = "inb ! n"
  show ?case
  proof (cases "i < n")
    case False
    then show ?thesis by (simp add: unconvt_loop.simps)
  next
    case lt: True
    have dr: "drop i (take n inb) = inb ! i # drop (Suc i) (take n inb)"
      using lt less.prems by (subst drop_nth_Cons) auto
    have g: "get inb (int i) = Some (inb ! i)" using lt less.prems by (simp add: mem_simps)
    show ?thesis
    proof (cases "inb ! i = 0x34")
      case True
      let ?c = "inb ! Suc i" and ?r = "unesc ?t (drop (i + 2) (take n inb))"
      have u: "unesc ?t (drop i (take n inb)) = NOT ?c # ?r"
      proof (cases "Suc i < n")
        case True
        then have "drop (Suc i) (take n inb) = ?c # drop (i + 2) (take n inb)"
          using less.prems by (subst drop_nth_Cons) auto
        then show ?thesis using dr \<open>inb ! i = 0x34\<close> by simp
      next
        case False
        then have "Suc i = n" using lt by simp
        then show ?thesis using dr \<open>inb ! i = 0x34\<close> by simp
      qed
      have "get inb (int i + 1) = Some ?c"
        using lt less.prems get_nat [of "Suc i" inb] by (simp add: add.commute)
      moreover have "put out (int k) (NOT ?c) = Some (over out k [NOT ?c])"
        using less.prems u by (intro put_over) simp
      ultimately have "unconvt_loop inb (int n) out (int i) (int k) =
          unconvt_loop inb (int n) (over out k [NOT ?c]) (int (i + 2)) (int (k + 1))"
        using lt g True by (subst unconvt_loop.simps) (simp add: add.commute)
      also have "\<dots> = Some (over (over out k [NOT ?c]) (k + 1) ?r, int (k + 1 + length ?r))"
        using less.prems lt u by (intro less.hyps) auto
      also have "over (over out k [NOT ?c]) (k + 1) ?r = over out k (NOT ?c # ?r)"
        using over_over [of k "[NOT ?c]" ?r out] less.prems u by simp
      finally show ?thesis using u by simp
    next
      case False
      let ?r = "unesc ?t (drop (Suc i) (take n inb))"
      have u: "unesc ?t (drop i (take n inb)) = inb ! i # ?r"
        using dr False by (cases "drop (Suc i) (take n inb)") auto
      have "put out (int k) (inb ! i) = Some (over out k [inb ! i])"
        using less.prems u by (intro put_over) simp
      then have "unconvt_loop inb (int n) out (int i) (int k) =
          unconvt_loop inb (int n) (over out k [inb ! i]) (int (Suc i)) (int (k + 1))"
        using lt g False by (subst unconvt_loop.simps) (simp add: add.commute)
      also have "\<dots> = Some (over (over out k [inb ! i]) (k + 1) ?r, int (k + 1 + length ?r))"
        using less.prems lt u by (intro less.hyps) auto
      also have "over (over out k [inb ! i]) (k + 1) ?r = over out k (inb ! i # ?r)"
        using over_over [of k "[inb ! i]" ?r out] less.prems u by simp
      finally show ?thesis using u by simp
    qed
  qed
qed

lemma UnconvtCode_unesc:
  assumes "n < length inb" "length (unesc (inb ! n) (take n inb)) \<le> length out"
  shows "UnconvtCode (Some inb) (int n) (Some out) =
    Some (Some (unesc (inb ! n) (take n inb) @ drop (length (unesc (inb ! n) (take n inb))) out),
          int (length (unesc (inb ! n) (take n inb))))"
  using unconvt_loop_unesc [of n inb 0 0 out] assms by (simp add: UnconvtCode_def over_zero)

section \<open>Properties\<close>

text \<open>
  C4. Stuffing and unstuffing are inverse: into an output array at least twice as long as
  the data, \<open>ConvtCode\<close> writes a text free of both frame flags, at most twice as long as the
  data, and \<open>UnconvtCode\<close>, given that text (with any byte behind it), writes the data back.
\<close>

theorem escape_roundtrip:
  assumes "2 * length bs \<le> length out" and "length bs \<le> length out'"
  shows "\<exists>enc. ConvtCode (Some bs) (int (length bs)) (Some out) =
      Some (Some (enc @ drop (length enc) out), int (length enc)) \<and>
    length bs \<le> length enc \<and> length enc \<le> 2 * length bs \<and> 0x7D \<notin> set enc \<and> 0x0B \<notin> set enc \<and>
    UnconvtCode (Some (enc @ t # rest)) (int (length enc)) (Some out') =
      Some (Some (bs @ drop (length bs) out'), int (length bs))"
proof -
  have "ConvtCode (Some bs) (int (length bs)) (Some out) =
      Some (Some (esc bs @ drop (length (esc bs)) out), int (length (esc bs)))"
    using ConvtCode_esc [of "length bs" bs out] length_esc(2) [of bs] assms by simp
  moreover have "UnconvtCode (Some (esc bs @ t # rest)) (int (length (esc bs))) (Some out') =
      Some (Some (bs @ drop (length bs) out'), int (length bs))"
    using UnconvtCode_unesc [of "length (esc bs)" "esc bs @ t # rest" out'] assms by simp
  ultimately show ?thesis
    using length_esc [of bs] esc_clean [of "0x7D" bs] esc_clean [of "0x0B" bs] by blast
qed

theorem escape_roundtrip_witness:
  "\<exists>enc. ConvtCode (Some [0x7D, 1]) 2 (Some [0, 0, 0, 0]) = Some (Some (enc @ drop (length enc) [0, 0, 0, 0]), int (length enc)) \<and>
     UnconvtCode (Some (enc @ [0x0B])) (int (length enc)) (Some [0, 0]) = Some (Some [0x7D, 1], 2)"
  using escape_roundtrip [where bs = "[0x7D, 1]" and out = "[0, 0, 0, 0]" and out' = "[0, 0]" and t = "0x0B" and rest = "[]"] by auto

end
