(* ===== verification/TcpPkg.thy ===== *)
theory TcpPkg
  imports SmartBuffer ByteOrder Crc Escape
begin

text \<open>
  The framing of the TCP protocol, \<open>CNetTcpDataPkg\<close>
  (src/common/cmmobj/network/NetTcpDataPkg.h and NetTcpDataPkg.cpp).

  A packet is the head flag 0x7D, four length bytes, the stuffed text of version, sequence
  number, command, type, result, body and checksum, and the tail flag 0x0B. \<open>net_pkg\<close> is
  the object's state; \<open>calls\<close> records the callbacks it has made, oldest first. The loop of
  \<open>ReadWholePkg\<close> is \<open>ReadWholePkg_step\<close> (one turn; the flag says whether it goes on)
  iterated. \<^term>\<open>None\<close> is an access outside an array or a turn that never ends.
\<close>

section \<open>Data\<close>

record pkg_head =
  flag :: byte
  pkg_length :: u32
  version :: byte
  seqno :: u16
  cmd :: byte
  pkg_type :: byte
  result :: byte

definition head_bytes :: "bool \<Rightarrow> pkg_head \<Rightarrow> byte list" where
  "head_bytes le h =
     [flag h] @ host32 le (pkg_length h) @ [version h] @ host16 le (seqno h) @
     [cmd h, pkg_type h, result h]"

record pkg_tail =
  crc :: u16
  tail_flag :: byte

definition tail_bytes :: "bool \<Rightarrow> pkg_tail \<Rightarrow> byte list" where
  "tail_bytes le t = host16 le (crc t) @ [tail_flag t]"

definition CURRENT_PROTOCOL_VERSION :: byte where "CURRENT_PROTOCOL_VERSION = 4"
definition nPkgHeadLen :: int where "nPkgHeadLen = 11"
definition nPkgTailLen :: int where "nPkgTailLen = 3"
definition nPkgNobodyLen :: int where "nPkgNobodyLen = nPkgHeadLen + nPkgTailLen"
definition nHeadFlagLen :: int where "nHeadFlagLen = 1"
definition nTailFlagLen :: int where "nTailFlagLen = 1"
definition nIntLen :: int where "nIntLen = 4"
definition s32HeardOffSet :: int where "s32HeardOffSet = nHeadFlagLen + nIntLen"
definition cHeadFlag :: byte where "cHeadFlag = 0x7D"
definition cTailFlag :: byte where "cTailFlag = 0x0B"
definition nMaxRecCache :: int where "nMaxRecCache = 3000 * 1024"
definition nMaxPkgLen :: int where "nMaxPkgLen = 3000 * 1024"

lemmas pkg_consts =
  CURRENT_PROTOCOL_VERSION_def nPkgHeadLen_def nPkgTailLen_def nPkgNobodyLen_def nHeadFlagLen_def
  nTailFlagLen_def nIntLen_def s32HeardOffSet_def cHeadFlag_def cTailFlag_def nMaxRecCache_def
  nMaxPkgLen_def

lemma head_bytes_length: "int (length (head_bytes le h)) = nPkgHeadLen"
  by (simp add: head_bytes_def pkg_consts)

lemma tail_bytes_length: "int (length (tail_bytes le t)) = nPkgTailLen"
  by (simp add: tail_bytes_def pkg_consts)

text \<open>The callbacks: the print callback and the distribution to the server.\<close>

datatype call =
    Print byte "byte list"
  | Distribute byte int "byte list" string string

record net_pkg =
  m_receive_buffer :: smart_buffer
  m_pkg_buffer :: smart_buffer
  m_bHaveHead :: bool
  m_seqno :: u16
  m_PrintPkgDataFunc :: bool
  m_DistributePkgDataFunc :: bool
  m_u8Version :: byte
  m_nOriginalDataLen :: int
  m_strServerFlag :: string
  m_strCliFlag :: string
  calls :: "call list"

definition NetTcpDataPkg :: "string \<Rightarrow> string \<Rightarrow> bool \<Rightarrow> bool \<Rightarrow> net_pkg" where
  "NetTcpDataPkg server cli f g =
     \<lparr>m_receive_buffer = SmartBuffer_step 1024, m_pkg_buffer = SmartBuffer_step 1024,
      m_bHaveHead = False, m_seqno = 0, m_PrintPkgDataFunc = g, m_DistributePkgDataFunc = f,
      m_u8Version = 0x04, m_nOriginalDataLen = 0, m_strServerFlag = server,
      m_strCliFlag = cli, calls = []\<rparr>"

section \<open>Building a packet\<close>

definition AllocateMem :: "int \<Rightarrow> (byte list \<times> int) option" where
  "AllocateMem nBodyBufferLen = do {
     nBufferLen \<leftarrow> i32 (nPkgHeadLen + nBodyBufferLen + nPkgTailLen);
     sz \<leftarrow> i32 (nBufferLen + 1);
     pBuffer \<leftarrow> new_array sz;
     Some (pBuffer, nBufferLen)
   }"

definition MakeSendPkgHead :: "pkg_head \<Rightarrow> pkg_head" where
  "MakeSendPkgHead h = h\<lparr>pkg_type := 0x00, result := 0x00\<rparr>"

definition MakeResponePkgHead :: "bool \<Rightarrow> net_pkg \<Rightarrow> pkg_head \<Rightarrow> pkg_head option" where
  "MakeResponePkgHead le p h = do {
     s \<leftarrow> SwapWord le (m_seqno p);
     Some (h\<lparr>pkg_type := 0x01, result := 0x01, seqno := s\<rparr>)
   }"

definition MSG_REQ :: int where "MSG_REQ = 1"
definition MSG_RSP :: int where "MSG_RSP = 2"

text \<open>
  \<open>PkgProtocolData\<close>: \<open>output\<close> is the caller's array, \<open>outputlen\<close> its length variable;
  both are returned with the C++ result.
\<close>

definition PkgProtocolData ::
  "bool \<Rightarrow> net_pkg \<Rightarrow> int \<Rightarrow> u16 \<Rightarrow> byte list option \<Rightarrow> u32 \<Rightarrow> byte list \<Rightarrow> u32 \<Rightarrow> u32 \<Rightarrow>
   (byte list \<times> u32 \<times> bool) option" where
  "PkgProtocolData le p nSendType command input inputlen output outputlen outsize = do {
     (pBuffer, nAllocMemLen) \<leftarrow> AllocateMem (sint inputlen);
     if (word_of_int nAllocMemLen :: u32) > outsize then Some (output, outputlen, False)
     else do {
       let h0 = \<lparr>flag = cHeadFlag, pkg_length = 0, version = m_u8Version p, seqno = 0,
                 cmd = ucast command, pkg_type = 0, result = 0\<rparr>;
       h \<leftarrow> (if nSendType = MSG_REQ then Some (MakeSendPkgHead h0)
             else if nSendType = MSG_RSP then MakeResponePkgHead le p h0
             else Some h0);
       pBuffer \<leftarrow> wr pBuffer 0 (head_bytes le h);
       pBuffer \<leftarrow> (case input of None \<Rightarrow> Some pBuffer
                   | Some src \<Rightarrow> do { body \<leftarrow> rd src 0 (uint inputlen); wr pBuffer nPkgHeadLen body });
       c \<leftarrow> CalcCRC1021 (drop (nat s32HeardOffSet) pBuffer) (nAllocMemLen - s32HeardOffSet - nPkgTailLen);
       let t = \<lparr>crc = htons le c, tail_flag = cTailFlag\<rparr>;
       pBuffer \<leftarrow> wr pBuffer (nPkgHeadLen + uint inputlen) (tail_bytes le t);
       output \<leftarrow> put output 0 (flag h);
       (conv, convtLen) \<leftarrow> ConvtCode (Some (drop (nat s32HeardOffSet) pBuffer))
          (nAllocMemLen - s32HeardOffSet - nTailFlagLen) (Some (drop (nat s32HeardOffSet) output));
       output \<leftarrow> (case conv of None \<Rightarrow> None | Some m \<Rightarrow> Some (take (nat s32HeardOffSet) output @ m));
       let outlen = (word_of_int (s32HeardOffSet + convtLen + nTailFlagLen) :: u32);
       output \<leftarrow> wr output nHeadFlagLen (host32 le (htonl le outlen));
       output \<leftarrow> put output (s32HeardOffSet + convtLen) (tail_flag t);
       Some (output, outlen, True)
     }
   }"

section \<open>Taking packets apart\<close>

definition SetHaveHead :: "bool \<Rightarrow> net_pkg \<Rightarrow> net_pkg" where
  "SetHaveHead b p = p\<lparr>m_bHaveHead := b\<rparr>"

definition GetHaveHead :: "net_pkg \<Rightarrow> bool" where
  "GetHaveHead p = m_bHaveHead p"

definition ReadPkgHead :: "net_pkg \<Rightarrow> (net_pkg \<times> bool) option" where
  "ReadPkgHead p = do {
     nHeadIndex \<leftarrow> find_char (m_receive_buffer p) cHeadFlag;
     if nHeadIndex = -1 then
       Some (SetHaveHead False (p\<lparr>m_receive_buffer := empty_buf (m_receive_buffer p)\<rparr>), False)
     else do {
       p \<leftarrow> (if 0 < nHeadIndex then do {
               b \<leftarrow> truncate_buf (m_receive_buffer p) nHeadIndex;
               Some (p\<lparr>m_receive_buffer := b\<rparr>)
             } else Some p);
       Some (SetHaveHead True p, True)
     }
   }"

definition GetProtocolVersion :: "net_pkg \<Rightarrow> byte" where
  "GetProtocolVersion p = m_u8Version p"

definition SetProtocolVersion :: "byte \<Rightarrow> net_pkg \<Rightarrow> net_pkg" where
  "SetProtocolVersion v p = p\<lparr>m_u8Version := v\<rparr>"

text \<open>The fields of the packed head, read from the packet buffer.\<close>

definition head_at :: "bool \<Rightarrow> byte list \<Rightarrow> pkg_head option" where
  "head_at le m = do {
     bs \<leftarrow> rd m 0 nPkgHeadLen;
     Some \<lparr>flag = bs ! 0, pkg_length = of_host32 le (take 4 (drop 1 bs)), version = bs ! 5,
           seqno = of_host16 le (take 2 (drop 6 bs)), cmd = bs ! 8, pkg_type = bs ! 9,
           result = bs ! 10\<rparr>
   }"

definition ParsePkgData :: "bool \<Rightarrow> net_pkg \<Rightarrow> net_pkg option" where
  "ParsePkgData le p = do {
     h \<leftarrow> head_at le (mem (m_pkg_buffer p));
     let p = SetProtocolVersion (version h) p;
     p \<leftarrow> (if CURRENT_PROTOCOL_VERSION \<ge> GetProtocolVersion p then do {
             s \<leftarrow> SwapWord le (seqno h);
             let p = p\<lparr>m_seqno := s\<rparr>;
             let nPkgTotalLen = sint (pkg_length h);
             p \<leftarrow> (if m_PrintPkgDataFunc p then do {
                     bs \<leftarrow> rd (mem (m_pkg_buffer p)) 0 nPkgTotalLen;
                     Some (p\<lparr>calls := calls p @ [Print (cmd h) bs]\<rparr>)
                   } else Some p);
             if m_DistributePkgDataFunc p then do {
               body \<leftarrow> rd (mem (m_pkg_buffer p)) nPkgHeadLen (nPkgTotalLen - nPkgNobodyLen);
               Some (p\<lparr>calls := calls p @ [Distribute (cmd h) (sint (result h)) body
                        (m_strServerFlag p) (m_strCliFlag p)]\<rparr>)
             } else Some p
           } else Some p);
     Some (p\<lparr>m_pkg_buffer := empty_buf (m_pkg_buffer p)\<rparr>)
   }"

definition drop_frame :: "net_pkg \<Rightarrow> net_pkg option" where
  "drop_frame p = do {
     b \<leftarrow> truncate_buf (m_receive_buffer p) (m_nOriginalDataLen p);
     Some (SetHaveHead False (p\<lparr>m_receive_buffer := b\<rparr>))
   }"

text \<open>Rebuilding the packet from its unstuffed text, and the checksum test.\<close>

definition check_frame :: "bool \<Rightarrow> net_pkg \<Rightarrow> byte list \<Rightarrow> int \<Rightarrow> net_pkg option" where
  "check_frame le p unCode unConvtLen = do {
     let rawLen = s32HeardOffSet + unConvtLen + nTailFlagLen;
     b \<leftarrow> append_char (empty_buf (m_pkg_buffer p)) cHeadFlag;
     b \<leftarrow> append_bytes b (host32 le (word_of_int rawLen)) nIntLen;
     b \<leftarrow> append_bytes b unCode unConvtLen;
     b \<leftarrow> append_char b cTailFlag;
     let p = p\<lparr>m_pkg_buffer := b\<rparr>;
     if rawLen \<ge> nPkgNobodyLen then do {
       t \<leftarrow> rd (mem b) (rawLen - nPkgTailLen) nPkgTailLen;
       c \<leftarrow> CalcCRC1021 (drop (nat s32HeardOffSet) (mem b)) (rawLen - s32HeardOffSet - nPkgTailLen);
       if c = ntohs le (of_host16 le (take 2 t)) then ParsePkgData le p else Some p
     } else Some p
   }"

text \<open>One turn of the loop of \<open>ReadWholePkg\<close> once the head is known.\<close>

definition read_frame :: "bool \<Rightarrow> net_pkg \<Rightarrow> (net_pkg \<times> bool) option" where
  "read_frame le p = do {
     nTailIndex \<leftarrow> find_char (m_receive_buffer p) cTailFlag;
     if nTailIndex = -1 then Some (p, False)
     else do {
       let p = p\<lparr>m_nOriginalDataLen := nTailIndex + 1\<rparr>;
       if m_nOriginalDataLen p < nPkgNobodyLen then do { p \<leftarrow> drop_frame p; Some (p, True) }
       else do {
         unCode \<leftarrow> new_array nMaxPkgLen;
         (unCode, unConvtLen) \<leftarrow>
           UnconvtCode (Some (drop (nat s32HeardOffSet) (mem (m_receive_buffer p))))
             (m_nOriginalDataLen p - s32HeardOffSet - nTailFlagLen) (Some unCode);
         if 0 \<ge> unConvtLen then do { p \<leftarrow> drop_frame p; Some (p, True) }
         else do {
           p \<leftarrow> check_frame le p (case unCode of None \<Rightarrow> [] | Some m \<Rightarrow> m) unConvtLen;
           p \<leftarrow> drop_frame p;
           Some (p, True)
         }
       }
     }
   }"

definition ReadWholePkg_step :: "bool \<Rightarrow> net_pkg \<Rightarrow> (net_pkg \<times> bool) option" where
  "ReadWholePkg_step le p = do {
     (p, ok) \<leftarrow> (if \<not> GetHaveHead p then ReadPkgHead p else Some (p, True));
     if \<not> ok then Some (p, False) else read_frame le p
   }"

partial_function (option) ReadWholePkg :: "bool \<Rightarrow> net_pkg \<Rightarrow> net_pkg option" where
  "ReadWholePkg le p = do {
     (p', again) \<leftarrow> ReadWholePkg_step le p;
     if again then ReadWholePkg le p' else Some p'
   }"

definition UnDataPkg :: "bool \<Rightarrow> net_pkg \<Rightarrow> byte list \<Rightarrow> u32 \<Rightarrow> (net_pkg \<times> bool) option" where
  "UnDataPkg le p recvbuf recvlen =
     (if recvlen = 0 \<or> (word_of_int nMaxPkgLen :: u32) < recvlen then Some (p, False)
      else do {
        let b0 = (if buf_length (m_receive_buffer p) > nMaxRecCache
                  then empty_buf (m_receive_buffer p) else m_receive_buffer p);
        b \<leftarrow> append_bytes b0 recvbuf (sint recvlen);
        let p = p\<lparr>m_receive_buffer := b\<rparr>;
        p \<leftarrow> (if \<not> GetHaveHead p then do {
                (p, ok) \<leftarrow> ReadPkgHead p;
                if ok then ReadWholePkg le p else Some p
              } else ReadWholePkg le p);
        Some (p, True)
      })"

end
