(* ===== verification/TcpStream.thy ===== *)
theory TcpStream
  imports TcpPkg
begin

text \<open>
  The packet protocol as a function of the byte stream: what \<open>CNetTcpDataPkg\<close> promises.

  \<open>scan\<close> cuts the received bytes into raw frames and keeps the unfinished rest;
  \<open>handle\<close> is the effect of one raw frame on the object. The receive loop refines them
  (\<open>ReadWholePkg_scan\<close>), reassembly does not depend on how the stream is cut
  (\<open>scan_append\<close>), and a frame built by \<open>PkgProtocolData\<close> is taken apart into what was
  sent.
\<close>

unbundle bit_operations_syntax

section \<open>Cutting the stream into frames\<close>

function scan :: "bool \<Rightarrow> byte list \<Rightarrow> byte list list \<times> bool \<times> byte list" where
  "scan h c =
     (let c' = (if h then c else dropWhile (\<lambda>x. x \<noteq> 0x7D) c)
      in if \<not> h \<and> c' = [] then ([], False, [])
         else (case first_index ((=) 0x0B) c' of
             None \<Rightarrow> ([], True, c')
           | Some j \<Rightarrow> (let (fs, h', r) = scan False (drop (Suc j) c') in (take (Suc j) c' # fs, h', r))))"
  by pat_completeness auto
termination
proof (relation "measure (\<lambda>(h, c). length c)", goal_cases)
  case (2 h c c' j)
  have "length c' \<le> length c"
    using 2(1) by (simp add: length_dropWhile_le)
  moreover have "j < length c'"
    using first_index_Some [OF 2(3)] by simp
  ultimately show ?case by simp
qed simp

declare scan.simps [simp del]

lemma scan_no_head: "dropWhile (\<lambda>x. x \<noteq> 0x7D) c = [] \<Longrightarrow> scan False c = ([], False, [])"
  by (simp add: scan.simps [of False])

lemma scan_no_tail: "first_index ((=) 0x0B) c = None \<Longrightarrow> scan True c = ([], True, c)"
  by (simp add: scan.simps [of True])

lemma scan_tail:
  "first_index ((=) 0x0B) c = Some j \<Longrightarrow>
   scan True c = (let (fs, h, r) = scan False (drop (Suc j) c) in (take (Suc j) c # fs, h, r))"
  by (simp add: scan.simps [of True])

lemma scan_head:
  "dropWhile (\<lambda>x. x \<noteq> 0x7D) c \<noteq> [] \<Longrightarrow> scan False c = scan True (dropWhile (\<lambda>x. x \<noteq> 0x7D) c)"
  by (subst scan.simps) (simp add: scan.simps [of True] del: dropWhile_eq_Nil_conv)

lemma scan_Nil [simp]: "scan False [] = ([], False, [])" "scan True [] = ([], True, [])"
  by (simp_all add: scan.simps [of False] scan.simps [of True])

lemma dropWhile_drop_append:
  "dropWhile P a \<noteq> [] \<Longrightarrow> dropWhile P (a @ b) = dropWhile P a @ b"
  by (induction a) auto

lemma dropWhile_all_append: "dropWhile P a = [] \<Longrightarrow> dropWhile P (a @ b) = dropWhile P b"
  by (induction a) auto

text \<open>Scanning in two pieces: the rest of the first piece is scanned again with the second.\<close>

lemma scan_append:
  "scan h a = (fs, h', r) \<Longrightarrow> scan h (a @ b) = (let (gs, h'', r') = scan h' (r @ b) in (fs @ gs, h'', r'))"
proof (induction h a arbitrary: fs h' r rule: scan.induct)
  case (1 h a)
  let ?a = "if h then a else dropWhile (\<lambda>x. x \<noteq> 0x7D) a"
  show ?case
  proof (cases "\<not> h \<and> ?a = []")
    case True
    then have nh: "\<not> h" by blast
    with True have nil: "dropWhile (\<lambda>x. x \<noteq> 0x7D) a = []" by (simp del: dropWhile_eq_Nil_conv)
    then have "fs = [] \<and> h' = False \<and> r = []"
      using "1.prems" nh scan_no_head [of a] by (simp del: dropWhile_eq_Nil_conv)
    moreover have "scan False (a @ b) = scan False b"
    proof (cases "dropWhile (\<lambda>x. x \<noteq> 0x7D) b = []")
      case True
      then show ?thesis
        using nil dropWhile_all_append [of "\<lambda>x. x \<noteq> 0x7D" a b]
        by (simp add: scan_no_head del: dropWhile_eq_Nil_conv)
    next
      case False
      then show ?thesis
        using nil dropWhile_all_append [of "\<lambda>x. x \<noteq> 0x7D" a b]
        by (simp add: scan_head del: dropWhile_eq_Nil_conv)
    qed
    ultimately show ?thesis using True by simp
  next
    case False
    have ha: "scan h a = scan True ?a" using False scan_head [of a] by auto
    have hab: "scan h (a @ b) = scan True (?a @ b)"
      using False scan_head [of "a @ b"] dropWhile_drop_append [of "\<lambda>x. x \<noteq> 0x7D" a b] by auto
    show ?thesis
    proof (cases "first_index ((=) 0x0B) ?a")
      case None
      then show ?thesis using "1.prems" ha hab scan_no_tail [of ?a] by (auto split: prod.splits)
    next
      case (Some j)
      then have jl: "j < length ?a" using first_index_Some by blast
      obtain gs h1 r1 where rec: "scan False (drop (Suc j) ?a) = (gs, h1, r1)"
        by (metis prod_cases3)
      have fs: "fs = take (Suc j) ?a # gs" "h' = h1" "r = r1"
        using "1.prems" ha scan_tail [OF Some] rec by simp_all
      have "first_index ((=) 0x0B) (?a @ b) = Some j"
        using Some by (simp add: first_index_append)
      then have "scan True (?a @ b) = (let (fs, h, r) = scan False (drop (Suc j) (?a @ b)) in
          (take (Suc j) (?a @ b) # fs, h, r))"
        by (rule scan_tail)
      also have "drop (Suc j) (?a @ b) = drop (Suc j) ?a @ b" using jl by simp
      also have "take (Suc j) (?a @ b) = take (Suc j) ?a" using jl by simp
      also have "scan False (drop (Suc j) ?a @ b) =
          (let (gs', h'', r') = scan h1 (r1 @ b) in (gs @ gs', h'', r'))"
        by (rule "1.IH" [OF refl False Some rec])
      finally show ?thesis using hab fs by (auto split: prod.splits)
    qed
  qed
qed

lemma scan_rest_length: "scan h c = (fs, h', r) \<Longrightarrow> length r \<le> length c"
proof (induction h c arbitrary: fs h' r rule: scan.induct)
  case (1 h c)
  let ?c = "if h then c else dropWhile (\<lambda>x. x \<noteq> 0x7D) c"
  have le: "length ?c \<le> length c" by (simp add: length_dropWhile_le)
  show ?case
  proof (cases "\<not> h \<and> ?c = []")
    case True
    then have nh: "\<not> h" by blast
    with True have nil: "dropWhile (\<lambda>x. x \<noteq> 0x7D) c = []" by (simp del: dropWhile_eq_Nil_conv)
    show ?thesis using "1.prems" nh nil scan_no_head [of c] by (simp del: dropWhile_eq_Nil_conv)
  next
    case False
    have hc: "scan h c = scan True ?c" using False scan_head [of c] by auto
    show ?thesis
    proof (cases "first_index ((=) 0x0B) ?c")
      case None
      then show ?thesis using "1.prems" hc scan_no_tail [of ?c] le by simp
    next
      case (Some j)
      obtain gs h1 r1 where rec: "scan False (drop (Suc j) ?c) = (gs, h1, r1)"
        by (metis prod_cases3)
      then have "length r1 \<le> length (drop (Suc j) ?c)"
        by (rule "1.IH" [OF refl False Some])
      then show ?thesis
        using "1.prems" hc scan_tail [OF Some] rec le by simp
    qed
  qed
qed


section \<open>The effect of one frame\<close>

definition frame_text :: "byte list \<Rightarrow> byte list" where
  "frame_text f = unesc 0x0B (take (length f - 6) (drop 5 f))"

definition text_ok :: "byte list \<Rightarrow> bool" where
  "text_ok pl \<longleftrightarrow> 8 \<le> length pl \<and>
     foldl crc_step 0 (take (length pl - 2) pl) = of_le16 (rev (drop (length pl - 2) pl))"

definition packet_bytes :: "bool \<Rightarrow> byte list \<Rightarrow> byte list" where
  "packet_bytes le pl = 0x7D # host32 le (word_of_int (6 + int (length pl))) @ pl @ [0x0B]"

definition text_body :: "byte list \<Rightarrow> byte list" where
  "text_body pl = drop 6 (take (length pl - 2) pl)"

definition accept :: "bool \<Rightarrow> byte list \<Rightarrow> net_pkg \<Rightarrow> net_pkg" where
  "accept le pl p =
     (if pl ! 0 \<le> 4 then
        p\<lparr>m_u8Version := pl ! 0, m_seqno := of_le16 (rev (take 2 (drop 1 pl))),
          calls := calls p @
            (if m_PrintPkgDataFunc p then [Print (pl ! 3) (packet_bytes le pl)] else []) @
            (if m_DistributePkgDataFunc p
             then [Distribute (pl ! 3) (sint (pl ! 5)) (text_body pl) (m_strServerFlag p) (m_strCliFlag p)]
             else [])\<rparr>
      else p\<lparr>m_u8Version := pl ! 0\<rparr>)"

definition handle :: "bool \<Rightarrow> byte list \<Rightarrow> net_pkg \<Rightarrow> net_pkg" where
  "handle le f p =
     (if 14 \<le> length f \<and> text_ok (frame_text f)
      then accept le (frame_text f) (p\<lparr>m_nOriginalDataLen := int (length f)\<rparr>)
      else p\<lparr>m_nOriginalDataLen := int (length f)\<rparr>)"

lemma handle_frame_fields [simp]:
  "handle le f (p\<lparr>m_receive_buffer := b\<rparr>) = (handle le f p)\<lparr>m_receive_buffer := b\<rparr>"
  "handle le f (p\<lparr>m_pkg_buffer := b\<rparr>) = (handle le f p)\<lparr>m_pkg_buffer := b\<rparr>"
  "handle le f (p\<lparr>m_bHaveHead := h\<rparr>) = (handle le f p)\<lparr>m_bHaveHead := h\<rparr>"
  "m_receive_buffer (handle le f p) = m_receive_buffer p"
  "m_pkg_buffer (handle le f p) = m_pkg_buffer p"
  "m_bHaveHead (handle le f p) = m_bHaveHead p"
  by (simp_all add: handle_def accept_def)

lemma fold_handle_fields [simp]:
  "fold (handle le) fs (p\<lparr>m_receive_buffer := b\<rparr>) = (fold (handle le) fs p)\<lparr>m_receive_buffer := b\<rparr>"
  "fold (handle le) fs (p\<lparr>m_pkg_buffer := b\<rparr>) = (fold (handle le) fs p)\<lparr>m_pkg_buffer := b\<rparr>"
  "fold (handle le) fs (p\<lparr>m_bHaveHead := h\<rparr>) = (fold (handle le) fs p)\<lparr>m_bHaveHead := h\<rparr>"
  by (induction fs arbitrary: p) simp_all

lemma packet_bytes_length [simp]: "length (packet_bytes le pl) = 6 + length pl"
  by (simp add: packet_bytes_def)

lemma packet_bytes_drop: "drop 5 (packet_bytes le pl) = pl @ [0x0B]"
  by (simp add: packet_bytes_def)

lemma rd_mem:
  assumes "small_buf b" "0 \<le> off" "0 \<le> n" "off + n \<le> int (length (content b))"
  shows "rd (mem b) off n = Some (take (nat n) (drop (nat off) (content b)))"
proof -
  note k = small_bufD(1) [OF assms(1)]
  have "nat off + nat n \<le> nat (data_size b)"
    using assms content_length [OF k] by simp
  then have "take (nat n) (drop (nat off) (mem b)) = take (nat n) (drop (nat off) (content b))"
    by (simp add: content_def drop_take min_def)
  then show ?thesis
    using assms buf_okD [OF k] content_length [OF k] by (simp add: rd_def)
qed

lemma mem_content: "small_buf b \<Longrightarrow> mem b = content b @ drop (length (content b)) (mem b)"
  using content_length [of b] buf_okD(6) [of b] by (simp add: small_buf_def content_def)

subsection \<open>Rebuilding and parsing the packet\<close>

lemma build_packet:
  assumes k: "small_buf k" and l: "length pl \<le> 3072000" and u: "length pl \<le> length un"
  shows "\<exists>b. do {
      b \<leftarrow> append_char (empty_buf k) cHeadFlag;
      b \<leftarrow> append_bytes b (host32 le (word_of_int (s32HeardOffSet + int (length pl) + nTailFlagLen))) nIntLen;
      b \<leftarrow> append_bytes b (pl @ drop (length pl) un) (int (length pl));
      append_char b cTailFlag
    } = Some b \<and> small_buf b \<and> content b = packet_bytes le pl"
proof -
  let ?h = "host32 le (word_of_int (s32HeardOffSet + int (length pl) + nTailFlagLen))"
  obtain b1 where b1: "append_char (empty_buf k) cHeadFlag = Some b1" "small_buf b1"
      "content b1 = [cHeadFlag]"
    using sbuf_append_char [of "empty_buf k" cHeadFlag] sbuf.clear_cont [OF k] by auto
  obtain b2 where b2: "append_bytes b1 ?h nIntLen = Some b2" "small_buf b2" "content b2 = cHeadFlag # ?h"
    using sbuf.app_cont [OF b1(2), of ?h] b1(3) by (auto simp: pkg_consts)
  have cut: "append_bytes b2 (pl @ drop (length pl) un) (int (length pl)) = append_bytes b2 pl (int (length pl))"
    by (simp add: append_bytes_def rd_def)
  obtain b3 where b3: "append_bytes b2 pl (int (length pl)) = Some b3" "small_buf b3"
      "content b3 = cHeadFlag # ?h @ pl"
    using sbuf.app_cont [OF b2(2), of pl] b2(3) l by auto
  obtain b4 where b4: "append_char b3 cTailFlag = Some b4" "small_buf b4"
      "content b4 = cHeadFlag # ?h @ pl @ [cTailFlag]"
    using sbuf_append_char [OF b3(2), of cTailFlag] b3(3) l by auto
  have "content b4 = packet_bytes le pl"
    using b4(3) by (simp add: packet_bytes_def pkg_consts add.commute)
  then show ?thesis using b1(1) b2(1) b3(1) b4(1,2) cut by simp
qed

lemma swap_host16: "SwapWord le (of_host16 le bs) = Some (of_le16 (rev bs))" if "length bs = 2"
proof (cases le)
  case True
  with that show ?thesis by (simp add: SwapWord_htons htons_def of_host16_def be16_def)
next
  case False
  with that show ?thesis by (simp add: SwapWord_htons htons_def of_host16_def be16_def)
qed

lemma ntohs_host16: "ntohs le (of_host16 le bs) = of_le16 (rev bs)" if "length bs = 2"
  using that by (simp add: ntohs_def)

lemma head_at_packet:
  assumes "small_buf b" "content b = packet_bytes le pl" "8 \<le> length pl" "length pl \<le> 3072000"
  shows "head_at le (mem b) = Some \<lparr>flag = 0x7D, pkg_length = word_of_int (6 + int (length pl)),
    version = pl ! 0, seqno = of_host16 le (take 2 (drop 1 pl)), cmd = pl ! 3, pkg_type = pl ! 4,
    result = pl ! 5\<rparr>"
proof -
  let ?c = "packet_bytes le pl" and ?hl = "host32 le (word_of_int (6 + int (length pl)))"
  have r: "rd (mem b) 0 nPkgHeadLen = Some (take 11 ?c)"
    using rd_mem [OF assms(1), of 0 nPkgHeadLen] assms(2,3) by (simp add: pkg_consts)
  have c: "take 11 ?c = (0x7D # ?hl) @ take 6 pl"
    using assms(3) by (simp add: packet_bytes_def)
  have len: "length (0x7D # ?hl) = 5" by simp
  have n: "take 11 ?c ! (5 + i) = pl ! i" if "i < 6" for i
    unfolding c using that assms(3) len by (simp add: nth_append)
  have "take 4 (drop 1 (take 11 ?c)) = ?hl" "take 11 ?c ! 0 = 0x7D" unfolding c by simp_all
  moreover have "take 2 (drop 6 (take 11 ?c)) = take 2 (drop 1 pl)"
    unfolding c using assms(3) by (simp add: drop_take)
  ultimately show ?thesis
    using n [of 0] n [of 3] n [of 4] n [of 5] by (simp add: head_at_def r)
qed

lemma ParsePkgData_packet:
  assumes b: "small_buf (m_pkg_buffer p)" "content (m_pkg_buffer p) = packet_bytes le pl"
    and l: "8 \<le> length pl" "length pl \<le> 3072000"
  shows "ParsePkgData le p = Some ((accept le pl p)\<lparr>m_pkg_buffer := empty_buf (m_pkg_buffer p)\<rparr>)"
proof -
  let ?m = "mem (m_pkg_buffer p)" and ?n = "6 + int (length pl)"
  have len: "sint (word_of_int ?n :: u32) = ?n" using l by (intro sint_u32) auto
  have whole: "rd ?m 0 ?n = Some (packet_bytes le pl)"
    using rd_mem [OF b(1), of 0 ?n] b(2) by (simp add: nat_add_distrib)
  have "take (length pl - 8) (drop 11 (packet_bytes le pl)) = text_body pl"
    using l by (simp add: packet_bytes_def text_body_def drop_take)
  then have body: "rd ?m nPkgHeadLen (?n - nPkgNobodyLen) = Some (text_body pl)"
    using rd_mem [OF b(1), of nPkgHeadLen "?n - nPkgNobodyLen"] b(2) l
    by (simp add: pkg_consts nat_diff_distrib)
  have seq: "SwapWord le (of_host16 le (take 2 (drop 1 pl))) = Some (of_le16 (rev (take 2 (drop 1 pl))))"
    using l by (intro swap_host16) simp
  show ?thesis
    using len whole body seq
    by (simp add: ParsePkgData_def head_at_packet [OF b l] SetProtocolVersion_def GetProtocolVersion_def
        CURRENT_PROTOCOL_VERSION_def accept_def Let_def)
qed


lemma accept_fields [simp]:
  "accept le pl (p\<lparr>m_pkg_buffer := b\<rparr>) = (accept le pl p)\<lparr>m_pkg_buffer := b\<rparr>"
  "m_pkg_buffer (accept le pl p) = m_pkg_buffer p"
  by (simp_all add: accept_def)

lemma mem_take:
  assumes "small_buf b" "i + n \<le> length (content b)"
  shows "take n (drop i (mem b)) = take n (drop i (content b))"
    and "n \<le> length (drop i (mem b))"
proof -
  have "mem b = content b @ drop (length (content b)) (mem b)" by (rule mem_content [OF assms(1)])
  then have "drop i (mem b) = drop i (content b) @ drop (length (content b)) (mem b)"
    using assms(2) by (metis drop_append diff_is_0_eq' drop0 add_leD1)
  then show "take n (drop i (mem b)) = take n (drop i (content b))"
    and "n \<le> length (drop i (mem b))" using assms(2) by simp_all
qed

lemma mem_nth: "small_buf b \<Longrightarrow> i < length (content b) \<Longrightarrow> mem b ! i = content b ! i"
  using mem_nth_content small_bufD(1) by blast

lemma check_frame_text:
  assumes k: "small_buf (m_pkg_buffer p)" and l: "length pl \<le> 3072000" "length pl \<le> length un"
  shows "\<exists>k. check_frame le p (pl @ drop (length pl) un) (int (length pl)) =
      Some ((if text_ok pl then accept le pl p else p)\<lparr>m_pkg_buffer := k\<rparr>) \<and> small_buf k"
proof -
  let ?raw = "s32HeardOffSet + int (length pl) + nTailFlagLen"
  obtain b1 b2 b3 b where bs:
    "append_char (empty_buf (m_pkg_buffer p)) cHeadFlag = Some b1"
    "append_bytes b1 (host32 le (word_of_int ?raw)) nIntLen = Some b2"
    "append_bytes b2 (pl @ drop (length pl) un) (int (length pl)) = Some b3"
    "append_char b3 cTailFlag = Some b" and b: "small_buf b" "content b = packet_bytes le pl"
    using build_packet [OF k l, of le] unfolding bind_eq_Some_conv by blast
  note cf = check_frame_def Let_def bs bind.bind_lunit net_pkg.select_convs
  have raw: "nPkgNobodyLen \<le> ?raw \<longleftrightarrow> 8 \<le> length pl" by (simp add: pkg_consts)
  show ?thesis
  proof (cases "8 \<le> length pl")
    case False
    then have "check_frame le p (pl @ drop (length pl) un) (int (length pl)) = Some (p\<lparr>m_pkg_buffer := b\<rparr>)"
      unfolding cf raw by simp
    then show ?thesis using b(1) False by (auto simp: text_ok_def)
  next
    case True
    let ?pl = "take (length pl - 2) pl" and ?crc = "drop (length pl - 2) pl"
    have "take 3 (drop (3 + length pl) (packet_bytes le pl)) = ?crc @ [0x0B]"
    proof -
      have "3 + length pl = (length pl - 2) + 5" using True by simp
      then have "drop (3 + length pl) (packet_bytes le pl) = drop (length pl - 2) (pl @ [0x0B])"
        by (simp only: drop_drop [symmetric] packet_bytes_drop)
      then show ?thesis using True by simp
    qed
    then have t: "rd (mem b) (?raw - nPkgTailLen) nPkgTailLen = Some (?crc @ [0x0B])"
      using rd_mem [OF b(1), of "?raw - nPkgTailLen" nPkgTailLen] b(2)
      by (simp add: pkg_consts nat_add_distrib)
    have in5: "5 + (length pl - 2) \<le> length (content b)" using b(2) by simp
    have "take (length pl - 2) (drop 5 (mem b)) = ?pl"
      using mem_take(1) [OF b(1) in5] by (simp add: b(2) packet_bytes_drop)
    then have c: "CalcCRC1021 (drop (nat s32HeardOffSet) (mem b)) (?raw - s32HeardOffSet - nPkgTailLen) =
        Some (foldl crc_step 0 ?pl)"
      using CalcCRC1021_at [of "int (length pl - 2)" "drop 5 (mem b)"] True mem_take(2) [OF b(1) in5]
      by (simp add: pkg_consts of_nat_diff nat_diff_distrib)
    have tl: "ntohs le (of_host16 le (take 2 (?crc @ [0x0B]))) = of_le16 (rev ?crc)"
      using True by (simp add: ntohs_host16)
    have "ParsePkgData le (p\<lparr>m_pkg_buffer := b\<rparr>) =
        Some ((accept le pl p)\<lparr>m_pkg_buffer := empty_buf b\<rparr>)"
      using ParsePkgData_packet [of "p\<lparr>m_pkg_buffer := b\<rparr>" le pl] b True l(1) by simp
    then have "check_frame le p (pl @ drop (length pl) un) (int (length pl)) =
        Some (if text_ok pl then (accept le pl p)\<lparr>m_pkg_buffer := empty_buf b\<rparr> else p\<lparr>m_pkg_buffer := b\<rparr>)"
      unfolding cf raw t c tl using True by (simp add: text_ok_def)
    then show ?thesis
      using b(1) sbuf.clear_cont [OF b(1)] by (auto split: if_splits)
  qed
qed

subsection \<open>One turn of the loop\<close>

lemma read_frame_wait:
  assumes "small_buf (m_receive_buffer p)" "first_index ((=) 0x0B) (content (m_receive_buffer p)) = None"
  shows "read_frame le p = Some (p, False)"
  using sbuf.cut_frame [OF assms(1), of cTailFlag] assms(2)
  by (auto simp: read_frame_def pkg_consts split: if_splits)

lemma handle_fields [simp]:
  "handle le f (p\<lparr>m_nOriginalDataLen := n\<rparr>) = handle le f p"
  by (simp add: handle_def)

lemma drop_frame_cut:
  "m_nOriginalDataLen q = n \<Longrightarrow> truncate_buf (m_receive_buffer q) n = Some b \<Longrightarrow>
   drop_frame q = Some (q\<lparr>m_receive_buffer := b, m_bHaveHead := False\<rparr>)"
  by (simp add: drop_frame_def SetHaveHead_def)

lemma read_frame_handle:
  assumes r: "small_buf (m_receive_buffer p)" and k: "small_buf (m_pkg_buffer p)"
    and len: "length (content (m_receive_buffer p)) \<le> 3072000"
    and j: "first_index ((=) 0x0B) (content (m_receive_buffer p)) = Some j"
  shows "\<exists>b k. read_frame le p = Some ((handle le (take (Suc j) (content (m_receive_buffer p))) p)
      \<lparr>m_receive_buffer := b, m_pkg_buffer := k, m_bHaveHead := False\<rparr>, True) \<and>
    small_buf b \<and> small_buf k \<and> content b = drop (Suc j) (content (m_receive_buffer p))"
proof -
  let ?c = "content (m_receive_buffer p)" and ?f = "take (Suc j) (content (m_receive_buffer p))"
  obtain b where find: "find_char (m_receive_buffer p) cTailFlag = Some (int j)"
    and b: "truncate_buf (m_receive_buffer p) (int j + 1) = Some b" "small_buf b"
      "content b = drop (Suc j) ?c"
    using sbuf.cut_frame [OF r, of cTailFlag] j by (auto simp: pkg_consts split: if_splits)
  have jl: "j < length ?c" "?c ! j = 0x0B" using first_index_Some [OF j] by auto
  have fl: "length ?f = Suc j" using jl by simp
  let ?p = "p\<lparr>m_nOriginalDataLen := int j + 1\<rparr>"
  show ?thesis
  proof (cases "Suc j < 14")
    case True
    then have "read_frame le p = Some (?p\<lparr>m_receive_buffer := b, m_bHaveHead := False\<rparr>, True)"
      using drop_frame_cut [of ?p "int j + 1" b] b(1)
      by (simp add: read_frame_def find nPkgNobodyLen_def nPkgHeadLen_def nPkgTailLen_def)
    then show ?thesis
      using True fl b k by (intro exI [of _ b] exI [of _ "m_pkg_buffer p"]) (auto simp: handle_def)
  next
    case False
    let ?in = "drop 5 (mem (m_receive_buffer p))" and ?pl = "frame_text ?f"
    have in5: "5 + (j - 5) \<le> length ?c" "5 + Suc (j - 5) \<le> length ?c" using jl False by simp_all
    have n: "j - 5 < length ?in" using mem_take(2) [OF r in5(2)] by simp
    have tl: "?in ! (j - 5) = 0x0B" using mem_nth [OF r jl(1)] jl(2) n False by simp
    have "take (j - 5) ?in = take (length ?f - 6) (drop 5 ?f)"
      using mem_take(1) [OF r in5(1)] fl False by (simp add: drop_take)
    then have pl: "unesc (?in ! (j - 5)) (take (j - 5) ?in) = ?pl"
      using tl by (simp add: frame_text_def)
    have pll: "length ?pl \<le> length ?f - 6"
      unfolding frame_text_def by (rule order_trans [OF length_unesc]) simp
    have pll': "length ?pl \<le> 3072000" using pll fl jl len by simp
    have "?pl \<noteq> []" unfolding frame_text_def using jl False by (intro unesc_nonempty) simp
    then have ne: "\<not> int (length ?pl) \<le> 0" by simp
    let ?un = "replicate 3072000 (0 :: byte)"
    have ar: "new_array nMaxPkgLen = Some ?un" by (simp add: new_array_def pkg_consts)
    have un: "UnconvtCode (Some (drop (nat s32HeardOffSet) (mem (m_receive_buffer p))))
        (int j + 1 - s32HeardOffSet - nTailFlagLen) (Some ?un) =
        Some (Some (?pl @ drop (length ?pl) ?un), int (length ?pl))"
    proof -
      have "int j + 1 - s32HeardOffSet - nTailFlagLen = int (j - 5)" "nat s32HeardOffSet = 5"
        using False by (simp_all add: pkg_consts)
      then show ?thesis
        using UnconvtCode_unesc [OF n, of ?un, unfolded pl] pll' by (simp del: drop_replicate)
    qed
    obtain k' where cf: "check_frame le ?p (?pl @ drop (length ?pl) ?un) (int (length ?pl)) =
        Some ((if text_ok ?pl then accept le ?pl ?p else ?p)\<lparr>m_pkg_buffer := k'\<rparr>)" and k': "small_buf k'"
      using check_frame_text [of ?p ?pl ?un le] k pll' by auto
    let ?q = "(if text_ok ?pl then accept le ?pl ?p else ?p)\<lparr>m_pkg_buffer := k'\<rparr>"
    have q: "?q = (handle le ?f p)\<lparr>m_pkg_buffer := k'\<rparr>"
      using False fl by (simp add: handle_def add.commute del: length_take)
    have "drop_frame ?q = Some (?q\<lparr>m_receive_buffer := b, m_bHaveHead := False\<rparr>)"
      by (rule drop_frame_cut [of _ "int j + 1"]) (simp_all add: accept_def b(1))
    moreover have "\<not> int j + 1 < nPkgNobodyLen" "int j \<noteq> -1" using False by (simp_all add: pkg_consts)
    ultimately have "read_frame le p = Some (?q\<lparr>m_receive_buffer := b, m_bHaveHead := False\<rparr>, True)"
      using ne cf by (simp add: read_frame_def find ar un Let_def del: drop_replicate)
    then show ?thesis unfolding q
      using b k' by (intro exI [of _ b] exI [of _ k']) simp
  qed
qed


subsection \<open>The loop\<close>

lemma ReadPkgHead_spec:
  assumes r: "small_buf (m_receive_buffer p)"
  shows "\<exists>b. small_buf b \<and> content b = dropWhile (\<lambda>x. x \<noteq> 0x7D) (content (m_receive_buffer p)) \<and>
    ReadPkgHead p = Some (p\<lparr>m_receive_buffer := b, m_bHaveHead := content b \<noteq> []\<rparr>, content b \<noteq> [])"
proof -
  let ?c = "content (m_receive_buffer p)"
  from sbuf.resync [OF r, of cHeadFlag] obtain i where find: "find_char (m_receive_buffer p) cHeadFlag = Some i"
    and i: "if i = -1 then cHeadFlag \<notin> set ?c else 0 \<le> i \<and> cHeadFlag \<in> set ?c \<and>
       ?c \<noteq> [] \<and> ?c ! nat i = cHeadFlag \<and>
       (\<exists>b'. truncate_buf (m_receive_buffer p) i = Some b' \<and> small_buf b' \<and>
          content b' = dropWhile (\<lambda>x. x \<noteq> cHeadFlag) ?c) \<and>
       (i = 0 \<longrightarrow> dropWhile (\<lambda>x. x \<noteq> cHeadFlag) ?c = ?c)"
    by blast
  then have "i = -1 \<or> 0 \<le> i" by (cases "i = -1") simp_all
  then consider "i = -1" | "i = 0" | "0 < i" by linarith
  then show ?thesis
  proof cases
    case 1
    then have "dropWhile (\<lambda>x. x \<noteq> 0x7D) ?c = []" using i by (auto simp: cHeadFlag_def)
    then show ?thesis
      using 1 find sbuf.clear_cont [OF r]
      by (intro exI [of _ "empty_buf (m_receive_buffer p)"])
        (simp add: ReadPkgHead_def SetHaveHead_def del: dropWhile_eq_Nil_conv)
  next
    case 2
    then have "dropWhile (\<lambda>x. x \<noteq> 0x7D) ?c = ?c" "?c \<noteq> []" using i by (auto simp: cHeadFlag_def)
    then show ?thesis
      using 2 find r by (intro exI [of _ "m_receive_buffer p"])
        (simp add: ReadPkgHead_def SetHaveHead_def)
  next
    case 3
    with i obtain b' where b': "truncate_buf (m_receive_buffer p) i = Some b'" "small_buf b'"
      "content b' = dropWhile (\<lambda>x. x \<noteq> cHeadFlag) ?c" and h: "cHeadFlag \<in> set ?c"
      by (auto split: if_splits)
    have ne: "content b' \<noteq> []" using h b'(3) by auto
    have "ReadPkgHead p = Some (p\<lparr>m_receive_buffer := b', m_bHaveHead := True\<rparr>, True)"
      using 3 find b'(1) by (simp add: ReadPkgHead_def SetHaveHead_def)
    then show ?thesis
      using ne b' by (intro exI [of _ b']) (simp add: cHeadFlag_def)
  qed
qed

lemma handle_flags [simp]:
  "m_PrintPkgDataFunc (handle le f p) = m_PrintPkgDataFunc p"
  "m_DistributePkgDataFunc (handle le f p) = m_DistributePkgDataFunc p"
  "m_strServerFlag (handle le f p) = m_strServerFlag p"
  "m_strCliFlag (handle le f p) = m_strCliFlag p"
  by (simp_all add: handle_def accept_def)

definition net_ok :: "net_pkg \<Rightarrow> bool" where
  "net_ok p \<longleftrightarrow> small_buf (m_receive_buffer p) \<and> small_buf (m_pkg_buffer p)"

text \<open>One turn, seen through \<^const>\<open>scan\<close>: the object after looking for the head.\<close>

lemma ReadWholePkg_head:
  assumes "net_ok p"
  shows "\<exists>q. net_ok q \<and> content (m_receive_buffer q) =
        (if m_bHaveHead p then content (m_receive_buffer p)
         else dropWhile (\<lambda>x. x \<noteq> 0x7D) (content (m_receive_buffer p))) \<and>
      q = p\<lparr>m_receive_buffer := m_receive_buffer q, m_bHaveHead := m_bHaveHead q\<rparr> \<and>
      (m_bHaveHead q \<longleftrightarrow> m_bHaveHead p \<or> content (m_receive_buffer q) \<noteq> []) \<and>
      ReadWholePkg_step le p = (if m_bHaveHead q then read_frame le q else Some (q, False))"
proof (cases "m_bHaveHead p")
  case True
  then show ?thesis
    using assms by (intro exI [of _ p]) (simp add: ReadWholePkg_step_def GetHaveHead_def)
next
  case False
  obtain b where b: "small_buf b"
    "content b = dropWhile (\<lambda>x. x \<noteq> 0x7D) (content (m_receive_buffer p))"
    "ReadPkgHead p = Some (p\<lparr>m_receive_buffer := b, m_bHaveHead := content b \<noteq> []\<rparr>, content b \<noteq> [])"
    using ReadPkgHead_spec [of p] assms by (auto simp: net_ok_def)
  show ?thesis
    using False b assms
    by (intro exI [of _ "p\<lparr>m_receive_buffer := b, m_bHaveHead := content b \<noteq> []\<rparr>"])
      (simp add: ReadWholePkg_step_def GetHaveHead_def net_ok_def del: dropWhile_eq_Nil_conv)
qed

lemma ReadWholePkg_scan:
  assumes "net_ok p" "length (content (m_receive_buffer p)) \<le> 3072000"
    and "scan (m_bHaveHead p) (content (m_receive_buffer p)) = (fs, h, r)"
  shows "\<exists>b k. ReadWholePkg le p =
      Some ((fold (handle le) fs p)\<lparr>m_receive_buffer := b, m_pkg_buffer := k, m_bHaveHead := h\<rparr>) \<and>
    small_buf b \<and> small_buf k \<and> content b = r"
  using assms
proof (induction "length (content (m_receive_buffer p))" arbitrary: p fs h r rule: less_induct)
  case less
  let ?c = "content (m_receive_buffer p)"
  obtain q where q: "net_ok q" "content (m_receive_buffer q) =
        (if m_bHaveHead p then ?c else dropWhile (\<lambda>x. x \<noteq> 0x7D) ?c)"
      "q = p\<lparr>m_receive_buffer := m_receive_buffer q, m_bHaveHead := m_bHaveHead q\<rparr>"
      "m_bHaveHead q \<longleftrightarrow> m_bHaveHead p \<or> content (m_receive_buffer q) \<noteq> []"
      "ReadWholePkg_step le p = (if m_bHaveHead q then read_frame le q else Some (q, False))"
    using ReadWholePkg_head [OF less.prems(1)] by blast
  let ?d = "content (m_receive_buffer q)"
  have dl: "length ?d \<le> length ?c" using q(2) by (simp add: length_dropWhile_le)
  have qb: "small_buf (m_receive_buffer q)" "small_buf (m_pkg_buffer q)"
    using q(1) by (simp_all add: net_ok_def)
  show ?case
  proof (cases "m_bHaveHead q")
    case False
    then have nh: "\<not> m_bHaveHead p" and nil: "?d = []" using q(4) by blast+
    then have "scan (m_bHaveHead p) ?c = ([], False, [])"
      using q(2) scan_no_head [of ?c] by (simp del: dropWhile_eq_Nil_conv)
    then have s: "fs = []" "h = False" "r = []" using less.prems(3) by simp_all
    have "ReadWholePkg le p = Some q" using q(5) False by (simp add: ReadWholePkg.simps)
    moreover have "q = p\<lparr>m_receive_buffer := m_receive_buffer q, m_pkg_buffer := m_pkg_buffer q,
        m_bHaveHead := False\<rparr>"
      by (subst q(3)) (subst q(3), simp add: False)
    ultimately show ?thesis
      using nil s qb by (intro exI [of _ "m_receive_buffer q"] exI [of _ "m_pkg_buffer q"]) simp
  next
    case True
    have sc: "scan (m_bHaveHead p) ?c = scan True ?d"
      using q(2,4) True scan_head [of ?c] by (auto split: if_splits)
    show ?thesis
    proof (cases "first_index ((=) 0x0B) ?d")
      case None
      then have s: "fs = []" "h = True" "r = ?d" using less.prems(3) sc scan_no_tail by simp_all
      have "ReadWholePkg le p = Some q"
        using q(5) True read_frame_wait [OF qb(1) None] by (simp add: ReadWholePkg.simps)
      moreover have "q = p\<lparr>m_receive_buffer := m_receive_buffer q, m_pkg_buffer := m_pkg_buffer q,
          m_bHaveHead := True\<rparr>"
        by (subst q(3)) (subst q(3), simp add: True)
      ultimately show ?thesis
        using s qb by (intro exI [of _ "m_receive_buffer q"] exI [of _ "m_pkg_buffer q"]) simp
    next
      case (Some j)
      let ?f = "take (Suc j) ?d"
      have lim: "length ?d \<le> 3072000" using dl less.prems(2) by simp
      obtain b k where st: "read_frame le q = Some ((handle le ?f q)
            \<lparr>m_receive_buffer := b, m_pkg_buffer := k, m_bHaveHead := False\<rparr>, True)"
          "small_buf b" "small_buf k" "content b = drop (Suc j) ?d"
        using read_frame_handle [OF qb lim Some] by blast
      let ?n = "(handle le ?f q)\<lparr>m_receive_buffer := b, m_pkg_buffer := k, m_bHaveHead := False\<rparr>"
      obtain gs h1 r1 where rec: "scan False (drop (Suc j) ?d) = (gs, h1, r1)" by (metis prod_cases3)
      have s: "fs = ?f # gs" "h = h1" "r = r1" using less.prems(3) sc scan_tail [OF Some] rec by simp_all
      have jl: "j < length ?d" using first_index_Some [OF Some] by simp
      have "\<exists>b k. ReadWholePkg le ?n = Some ((fold (handle le) gs ?n)\<lparr>m_receive_buffer := b,
          m_pkg_buffer := k, m_bHaveHead := h1\<rparr>) \<and> small_buf b \<and> small_buf k \<and> content b = r1"
        using less.hyps [of ?n gs h1 r1] st rec jl dl lim by (simp add: net_ok_def)
      moreover have "handle le ?f q = (handle le ?f p)
          \<lparr>m_receive_buffer := m_receive_buffer q, m_bHaveHead := m_bHaveHead q\<rparr>"
        by (subst (2) q(3)) simp
      moreover have "ReadWholePkg le p = ReadWholePkg le ?n"
        using q(5) True st(1) by (simp add: ReadWholePkg.simps [of le p])
      ultimately show ?thesis using s by simp
    qed
  qed
qed

section \<open>Receiving\<close>

lemma scan_settled: "scan h c = (fs, h', r) \<Longrightarrow> scan h' r = ([], h', r)"
  using scan_append [of h c fs h' r "[]"] by (cases "scan h' r") simp

definition settled :: "net_pkg \<Rightarrow> bool" where
  "settled p \<longleftrightarrow> net_ok p \<and>
     scan (m_bHaveHead p) (content (m_receive_buffer p)) =
       ([], m_bHaveHead p, content (m_receive_buffer p))"

lemma new_settled: "settled (NetTcpDataPkg server cli f g)"
  by (simp add: settled_def net_ok_def NetTcpDataPkg_def)

lemma UnDataPkg_scan:
  assumes p: "net_ok p" and n: "chunk \<noteq> []"
    and len: "length (content (m_receive_buffer p)) + length chunk \<le> 3072000"
    and sc: "scan (m_bHaveHead p) (content (m_receive_buffer p) @ chunk) = (fs, h, r)"
  shows "\<exists>b k. UnDataPkg le p chunk (word_of_int (int (length chunk))) = Some ((fold (handle le) fs p)
      \<lparr>m_receive_buffer := b, m_pkg_buffer := k, m_bHaveHead := h\<rparr>, True) \<and>
    small_buf b \<and> small_buf k \<and> content b = r"
proof -
  let ?n = "int (length chunk)" and ?rb = "m_receive_buffer p"
  have rb: "small_buf ?rb" "small_buf (m_pkg_buffer p)" using p by (simp_all add: net_ok_def)
  have un: "uint (word_of_int ?n :: u32) = ?n" using len by (intro uint_u32) auto
  have sn: "sint (word_of_int ?n :: u32) = ?n" using len by (intro sint_u32) auto
  have "(word_of_int ?n :: u32) \<noteq> 0" using un n by (metis length_0_conv of_nat_eq_0_iff unsigned_0)
  moreover have "\<not> (word_of_int nMaxPkgLen :: u32) < word_of_int ?n"
    unfolding word_less_def un using len by (simp add: pkg_consts)
  moreover have "\<not> buf_length ?rb > nMaxRecCache"
    using buf_length_content [OF small_bufD(1) [OF rb(1)]] len by (simp add: pkg_consts)
  moreover obtain b where b: "append_bytes ?rb chunk ?n = Some b" "small_buf b"
      "content b = content ?rb @ chunk"
    using sbuf.app_cont [OF rb(1), of chunk] len by auto
  ultimately have eq: "UnDataPkg le p chunk (word_of_int ?n) = do {
      let p = p\<lparr>m_receive_buffer := b\<rparr>;
      p \<leftarrow> (if \<not> GetHaveHead p then do {
              (p, ok) \<leftarrow> ReadPkgHead p;
              if ok then ReadWholePkg le p else Some p
            } else ReadWholePkg le p);
      Some (p, True) }"
    unfolding UnDataPkg_def sn by simp
  let ?p = "p\<lparr>m_receive_buffer := b\<rparr>"
  have pk: "net_ok ?p" using rb b by (simp add: net_ok_def)
  have lim: "length (content (m_receive_buffer ?p)) \<le> 3072000" using b(3) len by simp
  show ?thesis
  proof (cases "m_bHaveHead p")
    case True
    obtain b' k' where "ReadWholePkg le ?p = Some ((fold (handle le) fs ?p)
        \<lparr>m_receive_buffer := b', m_pkg_buffer := k', m_bHaveHead := h\<rparr>)"
      "small_buf b'" "small_buf k'" "content b' = r"
      using ReadWholePkg_scan [OF pk lim, of fs h r le] sc b(3) by auto
    then show ?thesis
      using eq True by (intro exI [of _ b'] exI [of _ k']) (simp add: GetHaveHead_def)
  next
    case False
    obtain b1 where b1: "small_buf b1" "content b1 = dropWhile (\<lambda>x. x \<noteq> 0x7D) (content b)"
      "ReadPkgHead ?p = Some (?p\<lparr>m_receive_buffer := b1, m_bHaveHead := content b1 \<noteq> []\<rparr>, content b1 \<noteq> [])"
      using ReadPkgHead_spec [of ?p] b(2) by auto
    show ?thesis
    proof (cases "content b1 = []")
      case True
      then have "fs = []" "h = False" "r = []"
        using sc False b1(2) b(3) scan_no_head [of "content b"] by (simp_all del: dropWhile_eq_Nil_conv)
      then show ?thesis
        using eq b1(1,3) True False rb
        by - (rule exI [of _ b1], rule exI [of _ "m_pkg_buffer p"], simp add: GetHaveHead_def Let_def)
    next
      case ne: False
      let ?q = "?p\<lparr>m_receive_buffer := b1, m_bHaveHead := True\<rparr>"
      have s: "scan (m_bHaveHead ?q) (content (m_receive_buffer ?q)) = (fs, h, r)"
        using scan_head [of "content b"] sc b(3) b1(2) ne False by simp
      have q: "net_ok ?q" using b1(1) rb by (simp add: net_ok_def)
      have "length (content (m_receive_buffer ?q)) \<le> 3072000"
        using lim b1(2) length_dropWhile_le [of "\<lambda>x. x \<noteq> 0x7D" "content b"] by simp
      from ReadWholePkg_scan [OF q this s] obtain b' k' where "ReadWholePkg le ?q =
          Some ((fold (handle le) fs ?q)\<lparr>m_receive_buffer := b', m_pkg_buffer := k', m_bHaveHead := h\<rparr>)"
        "small_buf b'" "small_buf k'" "content b' = r"
        by blast
      then show ?thesis
        using eq b1(3) False ne by (intro exI [of _ b'] exI [of _ k']) (simp add: GetHaveHead_def)
    qed
  qed
qed

text \<open>The whole stream, chunk by chunk, as the socket delivers it.\<close>

fun feed :: "bool \<Rightarrow> net_pkg \<Rightarrow> byte list list \<Rightarrow> net_pkg option" where
  "feed le p [] = Some p"
| "feed le p (c # cs) = do {
     (p, _) \<leftarrow> UnDataPkg le p c (word_of_int (int (length c)));
     feed le p cs
   }"

lemma feed_scan:
  assumes "settled p" "[] \<notin> set cs"
    and "length (content (m_receive_buffer p)) + length (concat cs) \<le> 3072000"
    and "scan (m_bHaveHead p) (content (m_receive_buffer p) @ concat cs) = (fs, h, r)"
  shows "\<exists>b k. feed le p cs = Some ((fold (handle le) fs p)
      \<lparr>m_receive_buffer := b, m_pkg_buffer := k, m_bHaveHead := h\<rparr>) \<and>
    small_buf b \<and> small_buf k \<and> content b = r"
  using assms
proof (induction cs arbitrary: p fs h r)
  case Nil
  then show ?case
    by (intro exI [of _ "m_receive_buffer p"] exI [of _ "m_pkg_buffer p"])
      (simp add: settled_def net_ok_def)
next
  case (Cons c cs)
  let ?c = "content (m_receive_buffer p)"
  obtain gs h1 r1 where s1: "scan (m_bHaveHead p) (?c @ c) = (gs, h1, r1)" by (metis prod_cases3)
  obtain fs' where s2: "scan h1 (r1 @ concat cs) = (fs', h, r)" and fs: "fs = gs @ fs'"
    using scan_append [OF s1, of "concat cs"] Cons.prems(4) by (auto split: prod.splits)
  have nok: "net_ok p" using Cons.prems(1) by (simp add: settled_def)
  have cne: "c \<noteq> []" using Cons.prems(2) by auto
  have clen: "length ?c + length c \<le> 3072000" using Cons.prems(3) by simp
  obtain b k where u: "UnDataPkg le p c (word_of_int (int (length c))) = Some ((fold (handle le) gs p)
        \<lparr>m_receive_buffer := b, m_pkg_buffer := k, m_bHaveHead := h1\<rparr>, True)"
      "small_buf b" "small_buf k" "content b = r1"
    using UnDataPkg_scan [OF nok cne clen s1] by blast
  let ?q = "(fold (handle le) gs p)\<lparr>m_receive_buffer := b, m_pkg_buffer := k, m_bHaveHead := h1\<rparr>"
  have "settled ?q" using u scan_settled [OF s1] by (simp add: settled_def net_ok_def)
  moreover have "length r1 \<le> length (?c @ c)" by (rule scan_rest_length [OF s1])
  ultimately have "\<exists>b k. feed le ?q cs = Some ((fold (handle le) fs' ?q)
      \<lparr>m_receive_buffer := b, m_pkg_buffer := k, m_bHaveHead := h\<rparr>) \<and>
    small_buf b \<and> small_buf k \<and> content b = r"
    using Cons.prems(2,3) s2 u by (intro Cons.IH) auto
  then show ?case using u(1) by (simp add: fs)
qed

text \<open>What a client can see of the object.\<close>

definition observe :: "net_pkg \<Rightarrow> call list \<times> bool \<times> byte list \<times> u16 \<times> byte" where
  "observe p = (calls p, m_bHaveHead p, content (m_receive_buffer p), m_seqno p, m_u8Version p)"

text \<open>
  Reassembly does not depend on how TCP cuts the stream: two non-empty-chunk divisions of
  the same bytes (within the 3,072,000-byte cache) make the same callbacks in the same order
  and leave the same pending bytes, head flag, sequence number and version, and no array is
  overrun on the way.
\<close>

theorem chunking_irrelevant:
  assumes "settled p" and "concat cs = concat ds" and "[] \<notin> set cs" and "[] \<notin> set ds"
    and "length (content (m_receive_buffer p)) + length (concat cs) \<le> 3072000"
  shows "\<exists>q. feed le p cs = Some q \<and> map_option observe (feed le p ds) = Some (observe q)"
proof -
  obtain fs h r where s: "scan (m_bHaveHead p) (content (m_receive_buffer p) @ concat cs) = (fs, h, r)"
    by (metis prod_cases3)
  obtain b k where c: "feed le p cs = Some ((fold (handle le) fs p)
      \<lparr>m_receive_buffer := b, m_pkg_buffer := k, m_bHaveHead := h\<rparr>)" "content b = r"
    using feed_scan [OF assms(1,3,5) s] by blast
  obtain b' k' where d: "feed le p ds = Some ((fold (handle le) fs p)
      \<lparr>m_receive_buffer := b', m_pkg_buffer := k', m_bHaveHead := h\<rparr>)" "content b' = r"
    using feed_scan [OF assms(1,4)] assms(2,5) s by metis
  show ?thesis using c d by (simp add: observe_def)
qed

theorem chunking_irrelevant_witness:
  "\<exists>q. feed True (NetTcpDataPkg ''s'' ''c'' True True) [[0x7D, 0], [0x0B, 1]] = Some q \<and>
     map_option observe (feed True (NetTcpDataPkg ''s'' ''c'' True True) [[0x7D], [0, 0x0B, 1]]) = Some (observe q)"
  using chunking_irrelevant [OF new_settled, where cs = "[[0x7D, 0], [0x0B, 1]]" and ds = "[[0x7D], [0, 0x0B, 1]]"]
  by (simp add: NetTcpDataPkg_def)

section \<open>Sending\<close>

text \<open>The text of a packet, and its frame on the wire.\<close>

definition msg_head :: "int \<Rightarrow> net_pkg \<Rightarrow> u16 \<Rightarrow> byte list" where
  "msg_head ty p command =
     [m_u8Version p] @ (if ty = MSG_RSP then be16 (m_seqno p) else [0, 0]) @ [ucast command] @
     (if ty = MSG_RSP then [1, 1] else [0, 0])"

definition message :: "int \<Rightarrow> net_pkg \<Rightarrow> u16 \<Rightarrow> byte list \<Rightarrow> byte list" where
  "message ty p command body =
     (let t = msg_head ty p command @ body in t @ be16 (foldl crc_step 0 t))"

definition wire_length :: "byte list \<Rightarrow> u32" where
  "wire_length pl = word_of_int (6 + int (length (esc pl)))"

definition wire :: "byte list \<Rightarrow> byte list" where
  "wire pl = 0x7D # be32 (wire_length pl) @ esc pl @ [0x0B]"

lemma msg_head_length [simp]: "length (msg_head ty p command) = 6"
  by (simp add: msg_head_def)

lemma message_length [simp]: "length (message ty p command body) = 8 + length body"
  by (simp add: message_def Let_def)

lemma wire_length_int [simp]: "length (wire pl) = 6 + length (esc pl)"
  by (simp add: wire_def)

lemma swap16_zero: "host16 le 0 = [0, 0]"
  by (simp add: host16_def le16_def)

lemma head_bytes_flag: "head_bytes le h = flag h # drop 1 (head_bytes le h)"
  by (simp add: head_bytes_def)

lemma PkgProtocolData_frame:
  assumes ty: "ty = MSG_REQ \<or> ty = MSG_RSP" and n: "length body \<le> 1048576"
    and os: "14 + int (length body) \<le> uint outsize"
    and ol: "6 + length (esc (message ty p command body)) \<le> length out"
  shows "PkgProtocolData le p ty command (Some body) (word_of_int (int (length body))) out outlen outsize =
    Some (wire (message ty p command body) @ drop (length (wire (message ty p command body))) out,
          wire_length (message ty p command body), True)"
proof -
  let ?n = "int (length body)" and ?pl = "message ty p command body"
  let ?e = "esc ?pl"
  have un: "uint (word_of_int ?n :: u32) = ?n" using n by (intro uint_u32) auto
  have sn: "sint (word_of_int ?n :: u32) = ?n" using n by (intro sint_u32) auto
  define hd where "hd = \<lparr>flag = cHeadFlag, pkg_length = 0, version = m_u8Version p,
    seqno = (if ty = MSG_RSP then htons le (m_seqno p) else 0), cmd = ucast command,
    pkg_type = (if ty = MSG_RSP then 1 else 0), result = (if ty = MSG_RSP then 1 else 0)\<rparr>"
  let ?h0 = "\<lparr>flag = cHeadFlag, pkg_length = 0, version = m_u8Version p, seqno = 0,
                 cmd = ucast command, pkg_type = 0, result = 0\<rparr>"
  have h: "(if ty = MSG_REQ then Some (MakeSendPkgHead ?h0)
             else if ty = MSG_RSP then MakeResponePkgHead le p ?h0 else Some ?h0) = Some hd"
    using ty by (auto simp: hd_def MakeSendPkgHead_def MakeResponePkgHead_def SwapWord_htons MSG_REQ_def
        MSG_RSP_def)
  let ?hb = "msg_head ty p command"
  let ?c = "foldl crc_step 0 (?hb @ body)"
  have pl: "?pl = ?hb @ body @ be16 ?c" by (simp add: message_def Let_def)
  have hb: "head_bytes le hd = (cHeadFlag # host32 le 0) @ ?hb"
    by (simp add: head_bytes_def hd_def msg_head_def swap16_zero)
  have al: "AllocateMem ?n = Some (replicate (15 + length body) 0, 14 + ?n)"
    using n by (simp add: AllocateMem_def pkg_consts i32_Some new_array_def nat_add_distrib)
  have sz: "\<not> (word_of_int (14 + ?n) :: u32) > outsize"
    using os n uint_u32 [of "14 + ?n"] by (simp add: word_less_def)
  let ?m1 = "head_bytes le hd @ replicate (4 + length body) 0"
  let ?m2 = "head_bytes le hd @ body @ replicate 4 0"
  let ?m3 = "head_bytes le hd @ body @ be16 ?c @ [cTailFlag] @ [0]"
  have hl: "length (head_bytes le hd) = 11" by (simp add: head_bytes_def)
  have k: "nat s32HeardOffSet = 5" "s32HeardOffSet = 5" "nPkgHeadLen = 11" "nHeadFlagLen = 1"
    "nTailFlagLen = 1" "nPkgTailLen = 3" by (simp_all add: pkg_consts)
  have d5: "drop 5 (head_bytes le hd) = ?hb" by (simp add: hb)
  have w1: "wr (replicate (15 + length body) 0) 0 (head_bytes le hd) = Some ?m1"
    by (simp add: wr_def hl)
  have w2: "wr ?m1 nPkgHeadLen body = Some ?m2"
    by (simp add: wr_def hl k)
  have "drop 5 ?m2 = ?hb @ body @ replicate 4 0" using d5 by (simp add: hl)
  then have c: "CalcCRC1021 (drop (nat s32HeardOffSet) ?m2) (14 + ?n - s32HeardOffSet - nPkgTailLen) = Some ?c"
    using CalcCRC1021_at [of "6 + ?n" "?hb @ body @ replicate 4 0"]
    by (simp add: k nat_add_distrib)
  have w3: "wr ?m2 (nPkgHeadLen + ?n) (tail_bytes le \<lparr>crc = htons le ?c, tail_flag = cTailFlag\<rparr>) = Some ?m3"
    by (simp add: wr_def hl k tail_bytes_def nat_add_distrib)
  let ?o1 = "out[0 := cHeadFlag]"
  have p1: "put out 0 (flag hd) = Some ?o1" using ol by (cases out) (simp_all add: put_def hd_def)
  let ?r = "drop (5 + length ?e) out"
  have "drop 5 ?m3 = ?pl @ [cTailFlag, 0]" using d5 by (simp add: hl pl)
  then have cv: "ConvtCode (Some (drop (nat s32HeardOffSet) ?m3)) (14 + ?n - s32HeardOffSet - nTailFlagLen)
      (Some (drop (nat s32HeardOffSet) ?o1)) = Some (Some (?e @ ?r), int (length ?e))"
    using ConvtCode_esc [of "length ?pl" "?pl @ [cTailFlag, 0]" "drop 5 out"] ol
    by (simp add: k add.commute del: esc_append)
  let ?o2 = "take (nat s32HeardOffSet) ?o1 @ ?e @ ?r"
  obtain a b c d e f out' where out: "out = a # b # c # d # e # f # out'" using ol
  proof -
    have "Suc (Suc (Suc (Suc (Suc (Suc 0))))) \<le> length out" using ol by linarith
    then show ?thesis using that by (auto simp: Suc_le_length_iff)
  qed
  have w4: "wr ?o2 nHeadFlagLen (be32 (wire_length ?pl)) = Some (cHeadFlag # be32 (wire_length ?pl) @ ?e @ ?r)"
    by (simp add: wr_def k out be32_def le32_def del: esc_append)
  have "?r \<noteq> []" using ol by simp
  then obtain x r where r: "?r = x # r" by (cases ?r) auto
  have "r = drop (6 + length ?e) out" using arg_cong [OF r, of "drop 1"] by simp
  then have p2: "put (cHeadFlag # be32 (wire_length ?pl) @ ?e @ ?r) (s32HeardOffSet + int (length ?e)) cTailFlag =
      Some (wire ?pl @ drop (length (wire ?pl)) out)"
    unfolding r by (simp add: put_def k wire_def list_update_append pkg_consts nat_add_distrib del: esc_append)
  have wl: "(word_of_int (s32HeardOffSet + int (length ?e) + nTailFlagLen) :: u32) = wire_length ?pl"
    by (simp add: wire_length_def pkg_consts)
  show ?thesis
    unfolding PkgProtocolData_def sn un al Let_def bind.bind_lunit prod.case h option.case
    using sz by (simp only: if_False rd_whole w1 w2 c w3 p1 cv w4 p2 wl host32_htonl h option.case prod.case bind.bind_lunit
        pkg_tail.select_convs)
qed


subsection \<open>What the receiver makes of a sent packet\<close>

lemma take_two_be16: "take 2 (be16 w @ xs) = be16 w" by (simp add: be16_def le16_def)

lemma message_ok: "text_ok (message ty p command body)"
proof -
  let ?t = "msg_head ty p command @ body"
  have "length (message ty p command body) - 2 = length ?t" by simp
  then have "take (length (message ty p command body) - 2) (message ty p command body) = ?t"
    "drop (length (message ty p command body) - 2) (message ty p command body) = be16 (foldl crc_step 0 ?t)"
    by (simp_all only:) (simp_all add: message_def Let_def)
  then show ?thesis by (simp add: text_ok_def be16_def)
qed

lemma text_body_message: "text_body (message ty p command body) = body"
  by (simp add: text_body_def message_def Let_def)

lemma frame_text_wire: "frame_text (wire pl) = pl"
proof -
  have "drop 5 (wire pl) = esc pl @ [0x0B]" by (simp add: wire_def be32_def le32_def)
  then show ?thesis by (simp add: frame_text_def)
qed

lemma scan_wire:
  assumes "0x0B \<notin> set (be32 (wire_length pl))"
  shows "scan False (wire pl @ rest) = (let (fs, h, r) = scan False rest in (wire pl # fs, h, r))"
proof -
  let ?a = "0x7D # be32 (wire_length pl) @ esc pl"
  have w: "wire pl @ rest = ?a @ 0x0B # rest" by (simp add: wire_def)
  have "\<forall>x \<in> set ?a. \<not> 0x0B = x" using assms esc_clean [of "0x0B" pl] by auto
  then have i: "first_index ((=) 0x0B) (wire pl @ rest) = Some (length ?a)"
    unfolding w by (subst first_index_append_None) auto
  have "dropWhile (\<lambda>x. x \<noteq> 0x7D) (wire pl @ rest) = wire pl @ rest" by (simp add: wire_def)
  then have "scan False (wire pl @ rest) = scan True (wire pl @ rest)"
    using scan_head [of "wire pl @ rest"] by (simp add: wire_def)
  also have "\<dots> = (let (fs, h, r) = scan False (drop (Suc (length ?a)) (wire pl @ rest)) in
      (take (Suc (length ?a)) (wire pl @ rest) # fs, h, r))"
    by (rule scan_tail [OF i])
  also have "drop (Suc (length ?a)) (wire pl @ rest) = rest" by (simp add: wire_def be32_def le32_def)
  also have "take (Suc (length ?a)) (wire pl @ rest) = wire pl" by (simp add: wire_def be32_def le32_def)
  finally show ?thesis .
qed

lemma scan_wires:
  assumes "\<forall>pl \<in> set pls. 0x0B \<notin> set (be32 (wire_length pl))"
  shows "scan False (concat (map wire pls)) = (map wire pls, False, [])"
  using assms by (induction pls) (simp_all add: scan_wire)

definition delivered :: "int \<Rightarrow> net_pkg \<Rightarrow> u16 \<Rightarrow> byte list \<Rightarrow> net_pkg \<Rightarrow> bool \<Rightarrow> call list" where
  "delivered ty s command body p le =
     (if m_PrintPkgDataFunc p then [Print (ucast command) (packet_bytes le (message ty s command body))] else []) @
     (if m_DistributePkgDataFunc p
      then [Distribute (ucast command) (if ty = MSG_RSP then 1 else 0) body (m_strServerFlag p) (m_strCliFlag p)]
      else [])"

lemma message_fields:
  "message ty s command body ! 0 = m_u8Version s" "message ty s command body ! 3 = ucast command"
  "message ty s command body ! 5 = (if ty = MSG_RSP then 1 else 0)"
  "take 2 (drop 1 (message ty s command body)) = (if ty = MSG_RSP then be16 (m_seqno s) else [0, 0])"
  by (simp_all add: message_def msg_head_def be16_def le16_def Let_def)

lemma handle_wire:
  assumes "m_u8Version s \<le> 4"
  shows "\<exists>n v q. handle le (wire (message ty s command body)) p =
    p\<lparr>m_nOriginalDataLen := n, m_u8Version := m_u8Version s, m_seqno := q,
      calls := calls p @ delivered ty s command body p le\<rparr>"
proof -
  let ?pl = "message ty s command body"
  have "14 \<le> length (wire ?pl)" using length_esc(1) [of ?pl] by simp
  then have h: "handle le (wire ?pl) p = accept le ?pl (p\<lparr>m_nOriginalDataLen := int (length (wire ?pl))\<rparr>)"
    by (simp add: handle_def frame_text_wire message_ok del: wire_length_int)
  show ?thesis
    unfolding h using assms
    by (simp add: accept_def message_fields text_body_message delivered_def del: One_nat_def) blast
qed

lemma fold_handle_wires:
  assumes "m_u8Version s \<le> 4"
  shows "calls (fold (handle le) (map (\<lambda>(c, b). wire (message ty s c b)) msgs) p) =
    calls p @ concat (map (\<lambda>(c, b). delivered ty s c b p le) msgs)"
proof (induction msgs arbitrary: p)
  case (Cons m msgs)
  obtain c b where m: "m = (c, b)" by force
  obtain n v q where "handle le (wire (message ty s c b)) p = p\<lparr>m_nOriginalDataLen := n,
      m_u8Version := m_u8Version s, m_seqno := q, calls := calls p @ delivered ty s c b p le\<rparr>"
    using handle_wire [OF assms] by metis
  then show ?case by (simp add: m Cons.IH delivered_def)
qed simp

section \<open>Properties of the protocol\<close>

text \<open>The frames \<open>PkgProtocolData\<close> writes into a zeroed array of \<open>cap\<close> bytes, one after another.\<close>

fun send_all :: "bool \<Rightarrow> net_pkg \<Rightarrow> int \<Rightarrow> nat \<Rightarrow> (u16 \<times> byte list) list \<Rightarrow> byte list option" where
  "send_all le s ty cap [] = Some []"
| "send_all le s ty cap ((c, b) # msgs) = do {
     (out, n, ok) \<leftarrow> PkgProtocolData le s ty c (Some b) (word_of_int (int (length b)))
        (replicate cap 0) 0 (word_of_int (int cap));
     frame \<leftarrow> rd out 0 (uint n);
     rest \<leftarrow> send_all le s ty cap msgs;
     if ok then Some (frame @ rest) else None
   }"

lemma send_all_wires:
  assumes "ty = MSG_REQ \<or> ty = MSG_RSP" "cap < 2147483648"
    and "\<forall>(c, b) \<in> set msgs. length b \<le> 1048576 \<and> 22 + 2 * length b \<le> cap"
  shows "send_all le s ty cap msgs = Some (concat (map (\<lambda>(c, b). wire (message ty s c b)) msgs))"
  using assms(3)
proof (induction msgs)
  case (Cons m msgs)
  obtain c b where m: "m = (c, b)" by force
  let ?w = "wire (message ty s c b)"
  have b: "length b \<le> 1048576" "22 + 2 * length b \<le> cap" using Cons.prems m by auto
  have cap: "uint (word_of_int (int cap) :: u32) = int cap" using assms(2) by (intro uint_u32) auto
  have el: "length (esc (message ty s c b)) \<le> 16 + 2 * length b"
    using length_esc(2) [of "message ty s c b"] by simp
  have "PkgProtocolData le s ty c (Some b) (word_of_int (int (length b)))
        (replicate cap 0) 0 (word_of_int (int cap)) =
      Some (?w @ drop (length ?w) (replicate cap 0), wire_length (message ty s c b), True)"
    by (rule PkgProtocolData_frame) (use assms(1) b el cap in auto)
  moreover have "uint (wire_length (message ty s c b)) = int (length ?w)"
    using el b unfolding wire_length_def wire_length_int
    by (subst uint_u32) auto
  ultimately show ?case using Cons m by (simp add: rd_def)
qed simp

lemma feed_wires:
  assumes "settled p" and "\<not> m_bHaveHead p" and "content (m_receive_buffer p) = []" and "m_u8Version s \<le> 4"
    and "\<forall>(c, b) \<in> set msgs. 0x0B \<notin> set (be32 (wire_length (message ty s c b)))"
    and "concat cs = concat (map (\<lambda>(c, b). wire (message ty s c b)) msgs)" and "[] \<notin> set cs"
    and "length (concat cs) \<le> 3072000"
  shows "\<exists>q. feed le' p cs = Some q \<and> content (m_receive_buffer q) = [] \<and> \<not> m_bHaveHead q \<and>
    calls q = calls p @ concat (map (\<lambda>(c, b). delivered ty s c b p le') msgs)"
proof -
  let ?ws = "map (\<lambda>(c, b). wire (message ty s c b)) msgs"
  have "scan False (concat (map wire (map (\<lambda>(c, b). message ty s c b) msgs))) =
      (map wire (map (\<lambda>(c, b). message ty s c b) msgs), False, [])"
    using assms(5) by (intro scan_wires) auto
  then have "scan (m_bHaveHead p) (content (m_receive_buffer p) @ concat cs) = (?ws, False, [])"
    using assms(2,3,6) by (simp add: comp_def case_prod_unfold)
  from feed_scan [OF assms(1,7) _ this, of le'] obtain b k where
    "feed le' p cs = Some ((fold (handle le') ?ws p)
      \<lparr>m_receive_buffer := b, m_pkg_buffer := k, m_bHaveHead := False\<rparr>)" "content b = []"
    using assms(3,8) by auto
  then show ?thesis using fold_handle_wires [OF assms(4), of le' ty msgs p] by simp
qed

text \<open>
  C1. End-to-end: requests (or responses) framed by \<open>PkgProtocolData\<close> on one host and received
  by \<open>UnDataPkg\<close> on a host of any byte order, cut into arbitrary non-empty chunks, reach the
  server callback exactly once each, in order, with the command, result and body that were
  sent, provided the sender's version is at most 4, no length word contains the byte 0x0B and the
  stream fits the receive cache. Nothing is left in the receiver's buffer.
\<close>

theorem tcp_roundtrip:
  assumes "settled p" and "\<not> m_bHaveHead p" and "content (m_receive_buffer p) = []"
    and "ty = MSG_REQ \<or> ty = MSG_RSP" and "m_u8Version s \<le> 4" and "cap < 2147483648"
    and "\<forall>(c, b) \<in> set msgs. length b \<le> 1048576 \<and> 22 + 2 * length b \<le> cap \<and>
           0x0B \<notin> set (be32 (wire_length (message ty s c b)))"
    and "send_all le s ty cap msgs = Some stream" and "concat cs = stream" and "[] \<notin> set cs"
    and "length stream \<le> 3072000"
  shows "\<exists>q. feed le' p cs = Some q \<and> content (m_receive_buffer q) = [] \<and> \<not> m_bHaveHead q \<and>
    calls q = calls p @ concat (map (\<lambda>(c, b). delivered ty s c b p le') msgs)"
proof -
  have "\<forall>(c, b) \<in> set msgs. length b \<le> 1048576 \<and> 22 + 2 * length b \<le> cap" using assms(7) by blast
  from send_all_wires [OF assms(4,6) this, of le s]
  have st: "stream = concat (map (\<lambda>(c, b). wire (message ty s c b)) msgs)" using assms(8) by simp
  show ?thesis
    by (rule feed_wires [OF assms(1-3,5)]) (use assms(7,9-11) st in auto)
qed

text \<open>
  A flaw of the framing: the length word is sent unstuffed, so a packet whose length
  contains the tail byte 0x0B (for example any packet of 267 = 0x010B bytes on the wire) is cut
  there, thrown away and never delivered, although every byte arrived.
\<close>

theorem length_byte_lost:
  assumes "settled p" and "\<not> m_bHaveHead p" and "content (m_receive_buffer p) = []"
    and "ty = MSG_REQ \<or> ty = MSG_RSP" and "cap < 2147483648"
    and "length b \<le> 1048576 \<and> 22 + 2 * length b \<le> cap"
    and "0x0B \<in> set (be32 (wire_length (message ty s c b)))"
    and "0x7D \<notin> set (be32 (wire_length (message ty s c b)))"
    and "send_all le s ty cap [(c, b)] = Some stream" and "concat cs = stream" and "[] \<notin> set cs"
  shows "\<exists>q. feed le' p cs = Some q \<and> calls q = calls p \<and> content (m_receive_buffer q) = [] \<and>
    \<not> m_bHaveHead q"
proof -
  let ?pl = "message ty s c b"
  let ?l = "be32 (wire_length ?pl)"
  have st: "concat cs = wire ?pl"
    using send_all_wires [OF assms(4,5), of "[(c, b)]" le s] assms(6,9,10) by simp
  have len: "length (wire ?pl) \<le> 3072000" using length_esc(2) [of ?pl] assms(6) by simp
  obtain a z where l: "?l = a @ 0x0B # z" "0x0B \<notin> set a" using split_list_first [OF assms(7)] by blast
  have al: "length a < 4" using arg_cong [OF l(1), of length] by simp
  have w: "wire ?pl = (0x7D # a) @ 0x0B # z @ esc ?pl @ [0x0B]" by (simp add: wire_def l(1))
  have i: "first_index ((=) 0x0B) (wire ?pl) = Some (Suc (length a))"
    unfolding w using l(2) by (subst first_index_append_None) auto
  have "0x7D \<notin> set (z @ esc ?pl @ [0x0B])" using assms(8) l(1) esc_clean [of "0x7D" ?pl] by auto
  then have nil: "dropWhile (\<lambda>x. x \<noteq> 0x7D) (z @ esc ?pl @ [0x0B]) = []" by (auto simp: dropWhile_eq_Nil_conv)
  have "scan False (wire ?pl) = scan True (wire ?pl)"
    using scan_head [of "wire ?pl"] by (simp add: wire_def)
  also have "\<dots> = ([(0x7D # a) @ [0x0B]], False, [])"
    using scan_tail [OF i] scan_no_head [OF nil] unfolding w by simp
  finally have "scan (m_bHaveHead p) (content (m_receive_buffer p) @ concat cs) = ([(0x7D # a) @ [0x0B]], False, [])"
    using assms(2,3) st by simp
  from feed_scan [OF assms(1,11) _ this, of le'] obtain b k where
    "feed le' p cs = Some ((fold (handle le') [(0x7D # a) @ [0x0B]] p)
      \<lparr>m_receive_buffer := b, m_pkg_buffer := k, m_bHaveHead := False\<rparr>)" "content b = []"
    using assms(3) st len by auto
  then show ?thesis using al by (simp add: handle_def)
qed

subsection \<open>Witnesses\<close>

lemma new_pkg [simp]:
  "content (m_receive_buffer (NetTcpDataPkg a b f g)) = []" "\<not> m_bHaveHead (NetTcpDataPkg a b f g)"
  "calls (NetTcpDataPkg a b f g) = []" "m_u8Version (NetTcpDataPkg a b f g) = 4"
  "m_PrintPkgDataFunc (NetTcpDataPkg a b f g) = g" "m_DistributePkgDataFunc (NetTcpDataPkg a b f g) = f"
  "m_strServerFlag (NetTcpDataPkg a b f g) = a" "m_strCliFlag (NetTcpDataPkg a b f g) = b"
  by (simp_all add: NetTcpDataPkg_def)

text \<open>The length word of a short message is below 256, whatever its checksum.\<close>

lemma esc_message_length:
  "length (esc (message ty s c b)) \<le> 8 + length b + length (filter special (msg_head ty s c @ b)) + 2"
  "8 + length b \<le> length (esc (message ty s c b))"
proof -
  have "length (filter special (be16 w)) \<le> 2" for w
    using length_filter_le [of special "be16 w"] by simp
  then show "length (esc (message ty s c b)) \<le> 8 + length b + length (filter special (msg_head ty s c @ b)) + 2"
    by (simp add: length_esc_exact message_def Let_def)
  show "8 + length b \<le> length (esc (message ty s c b))"
    using length_esc(1) [of "message ty s c b"] by simp
qed

theorem tcp_roundtrip_witness:
  "\<exists>stream q. send_all True (NetTcpDataPkg ''a'' ''b'' True False) 1 100 [(5, [1, 2])] = Some stream \<and>
     feed False (NetTcpDataPkg ''s'' ''c'' True False) [stream] = Some q \<and>
     calls q = [Distribute 5 0 [1, 2] ''s'' ''c'']"
proof -
  let ?s = "NetTcpDataPkg ''a'' ''b'' True False" and ?m = "message 1 (NetTcpDataPkg ''a'' ''b'' True False) 5 [1, 2]"
  have st: "send_all True ?s 1 100 [(5, [1, 2])] = Some (wire ?m)"
    using send_all_wires [of 1 100 "[(5, [1, 2])]" True ?s] by (simp add: MSG_REQ_def)
  have l: "length (esc ?m) \<in> {10, 11, 12}"
    using esc_message_length [where ty = 1 and s = ?s and c = 5 and b = "[1, 2]"] by (auto simp: msg_head_def MSG_RSP_def special_def)
  then have "0x0B \<notin> set (be32 (wire_length ?m))"
    by (auto simp: wire_length_def be32_def le32_def)
  then show ?thesis
    using tcp_roundtrip [OF new_settled [of "''s''" "''c''" True False], where s = ?s and ty = 1 and cap = 100
        and msgs = "[(5, [1, 2])]" and le = True and stream = "wire ?m" and cs = "[wire ?m]" and le' = False]
      st l by (auto simp: MSG_REQ_def MSG_RSP_def delivered_def wire_def)
qed

theorem length_byte_lost_witness:
  "\<exists>stream q. send_all True (NetTcpDataPkg ''a'' ''b'' True False) 1 6000 [(5, replicate 2900 1)] = Some stream \<and>
     feed False (NetTcpDataPkg ''s'' ''c'' True False) [stream] = Some q \<and> calls q = []"
proof -
  let ?s = "NetTcpDataPkg ''a'' ''b'' True False" and ?b = "replicate 2900 (1 :: byte)"
  let ?m = "message 1 ?s 5 ?b"
  have st: "send_all True ?s 1 6000 [(5, ?b)] = Some (wire ?m)"
    using send_all_wires [of 1 6000 "[(5, ?b)]" True ?s] by (simp add: MSG_REQ_def)
  have "length (esc ?m) \<in> {2908, 2909, 2910}"
    using esc_message_length [where ty = 1 and s = ?s and c = 5 and b = ?b] by (auto simp: msg_head_def MSG_RSP_def special_def)
  then have "0x0B \<in> set (be32 (wire_length ?m))" "0x7D \<notin> set (be32 (wire_length ?m))"
    by (auto simp: wire_length_def be32_def le32_def)
  then show ?thesis
    using length_byte_lost [OF new_settled [of "''s''" "''c''" True False], where s = ?s and ty = 1 and cap = 6000
        and c = 5 and b = ?b and le = True and stream = "wire ?m" and cs = "[wire ?m]" and le' = False]
      st by (auto simp: MSG_REQ_def wire_def)
qed

end
