(* ===== verification/TcpService.thy ===== *)
theory TcpService
  imports TcpStream AppData
begin

text \<open>
  The TCP service: the server's connections (transfer/tcp/server/TcpServerObj.cpp, codec.h), the
  service module in front of them (TcpServiceModule.cpp), and the transfer manager that keeps a
  packet object per connection and puts the requests on the message bus
  (main/TransferMng/TcpTransferMng.cpp). The muduo library is outside: a connection is a number,
  0 the null pointer, and what is handed to the library is an output. \<^term>\<open>None\<close> is
  undefined behaviour in the packet object.
\<close>

section \<open>Connections of a server\<close>

type_synonym conn_map = "string \<Rightarrow> nat option"

datatype net_out = NetSend nat "byte list" | NetForceClose nat

text \<open>Looking up with \<open>operator[]\<close> stores a null pointer for an unknown peer.\<close>

definition GetTcpConnectPtr :: "string \<Rightarrow> conn_map \<Rightarrow> nat \<times> conn_map" where
  "GetTcpConnectPtr strConnKey m = (case m strConnKey of
     None \<Rightarrow> (0, m(strConnKey \<mapsto> 0)) | Some conn \<Rightarrow> (conn, m))"

definition AddOrDelTcpConnectPtr :: "nat \<Rightarrow> string \<Rightarrow> bool \<Rightarrow> conn_map \<Rightarrow> conn_map" where
  "AddOrDelTcpConnectPtr conn strConnKey bStatus m =
     (if bStatus then m(strConnKey \<mapsto> conn) else m(strConnKey := None))"

definition sendData :: "string \<Rightarrow> byte list \<Rightarrow> conn_map \<Rightarrow> net_out list \<times> conn_map" where
  "sendData strConnKey data m = (let (conn, m') = GetTcpConnectPtr strConnKey m in
     (if conn \<noteq> 0 then [NetSend conn data] else [], m'))"

definition closeConnect :: "string \<Rightarrow> conn_map \<Rightarrow> net_out list \<times> conn_map" where
  "closeConnect strConnKey m = (let (conn, m') = GetTcpConnectPtr strConnKey m in
     (if conn \<noteq> 0 then [NetForceClose conn] else [], m'))"

text \<open>\<open>LengthHeaderCodec::onMessage\<close>: the chunks handed on for the readable bytes.\<close>

function codec_onMessage :: "byte list \<Rightarrow> byte list list" where
  "codec_onMessage buf =
     (if length buf > 0 then (let len = length buf in take len buf # codec_onMessage (drop len buf)) else [])"
  by auto
termination by (relation "measure length") auto

section \<open>The service module\<close>

record tcp_service =
  sv_callback :: bool
  m_mapTcpServer :: "int \<Rightarrow> conn_map option"

definition SetCallbackObj :: "tcp_service \<Rightarrow> tcp_service" where
  "SetCallbackObj s = (if \<not> sv_callback s then s\<lparr>sv_callback := True\<rparr> else s)"

definition StartTCPServer :: "(16 word \<times> int) list \<Rightarrow> tcp_service \<Rightarrow> tcp_service" where
  "StartTCPServer vecServerCfg s =
     foldl (\<lambda>s (u16Port, s32Num). s\<lparr>m_mapTcpServer := (m_mapTcpServer s)(uint u16Port \<mapsto> (\<lambda>_. None))\<rparr>) s vecServerCfg"

definition SendData :: "string \<Rightarrow> byte list \<Rightarrow> int \<Rightarrow> tcp_service \<Rightarrow> bool \<times> net_out list \<times> tcp_service" where
  "SendData strConnKey strData s32TcpServerPort s =
     (if strData = [] then (False, [], s)
      else case m_mapTcpServer s s32TcpServerPort of
        None \<Rightarrow> (True, [], s)
      | Some m \<Rightarrow> (let (outs, m') = sendData strConnKey strData m in
          (True, outs, s\<lparr>m_mapTcpServer := (m_mapTcpServer s)(s32TcpServerPort \<mapsto> m')\<rparr>)))"

definition CloseConnect :: "string \<Rightarrow> int \<Rightarrow> tcp_service \<Rightarrow> net_out list \<times> tcp_service" where
  "CloseConnect strConnKey s32TcpServerPort s = (case m_mapTcpServer s s32TcpServerPort of
     None \<Rightarrow> ([], s)
   | Some m \<Rightarrow> (let (outs, m') = closeConnect strConnKey m in
       (outs, s\<lparr>m_mapTcpServer := (m_mapTcpServer s)(s32TcpServerPort \<mapsto> m')\<rparr>)))"

section \<open>The transfer manager\<close>

type_synonym sess_map = "string \<Rightarrow> net_pkg option"

text \<open>The port of a local address: what follows the first colon, or all of it.\<close>

definition local_port :: "string \<Rightarrow> string" where
  "local_port strLocalConnKey = (case first_index ((=) CHR '':'') strLocalConnKey of
     None \<Rightarrow> strLocalConnKey | Some i \<Rightarrow> drop (Suc i) strLocalConnKey)"

definition OnTcpConnect :: "string \<Rightarrow> string \<Rightarrow> bool \<Rightarrow> sess_map \<Rightarrow> sess_map" where
  "OnTcpConnect strPeerConnKey strLocalConnKey bStatus m = (let
     strTcpServerPort = local_port strLocalConnKey;
     strKey = strTcpServerPort @ strPeerConnKey in
     case m strKey of
       None \<Rightarrow> m(strKey \<mapsto> NetTcpDataPkg strTcpServerPort strPeerConnKey True False)
     | Some _ \<Rightarrow> if \<not> bStatus then m(strKey := None) else m)"

text \<open>The callbacks made while the bytes are taken apart, and the new sessions.\<close>

definition OnTcpMessage :: "bool \<Rightarrow> string \<Rightarrow> string \<Rightarrow> byte list \<Rightarrow> sess_map \<Rightarrow> (call list \<times> sess_map) option" where
  "OnTcpMessage le strPeerConnKey strLocalConnKey pData m = (let
     strKey = local_port strLocalConnKey @ strPeerConnKey in
     case m strKey of
       None \<Rightarrow> Some ([], m)
     | Some p \<Rightarrow> do {
         (p', _) \<leftarrow> UnDataPkg le p pData (word_of_int (int (length pData)));
         Some (drop (length (calls p)) (calls p'), m(strKey \<mapsto> p'))})"

text \<open>What a callback puts on the message bus: topic, port, peer, command and body.\<close>

definition DistributProtocolData :: "call \<Rightarrow> (string \<times> string \<times> string \<times> byte \<times> byte list) list" where
  "DistributProtocolData c = (case c of
     Print _ _ \<Rightarrow> []
   | Distribute u32Cmd nResult pBodyData strTcpServerPort strPeerConnKey \<Rightarrow>
       [(TcpSrvRecMsgTopic strTcpServerPort, strTcpServerPort, strPeerConnKey, u32Cmd, pBodyData)])"

definition TransferSendTcpData :: "bool \<Rightarrow> int \<Rightarrow> string \<Rightarrow> int \<Rightarrow> byte list \<Rightarrow> int \<Rightarrow> sess_map \<Rightarrow> tcp_service \<Rightarrow>
    (bool \<times> net_out list \<times> tcp_service) option" where
  "TransferSendTcpData le s32TcpServerPort strConnKey s32Cmd strData s32SendType m s = (let
     strKey = to_string s32TcpServerPort @ strConnKey in
     case m strKey of
       None \<Rightarrow> Some (False, [], s)
     | Some p \<Rightarrow> do {
         (pkgdata, nOutLen, _) \<leftarrow> PkgProtocolData le p s32SendType (word_of_int s32Cmd) (Some strData)
            (word_of_int (int (length strData))) (replicate (nat nMaxPkgLen) 0) 0 (word_of_int nMaxPkgLen);
         frame \<leftarrow> rd pkgdata 0 (uint nOutLen);
         Some (SendData strConnKey frame s32TcpServerPort s)})"

text \<open>One configured server: its port and threads, and the topics it is subscribed to.\<close>

definition TcpServerAttach :: "json \<Rightarrow> ((16 word \<times> int) list \<times> string list) option" where
  "TcpServerAttach elm = do {
     strType \<leftarrow> jtext ''type'' elm;
     if strType \<noteq> ''tcpsrv'' then Some ([], [])
     else do {
       strPort \<leftarrow> jtext ''port'' elm;
       strThreads \<leftarrow> jtext ''threads'' (jget ''params'' elm);
       port \<leftarrow> atoi strPort;
       threads \<leftarrow> atoi strThreads;
       Some ([(word_of_int port, threads)], [TcpSrvCloseConnTopic strPort, TcpSrvSendMsgTopic strPort])}}"

fun attach_servers :: "json list \<Rightarrow> ((16 word \<times> int) list \<times> string list) option" where
  "attach_servers [] = Some ([], [])"
| "attach_servers (elm # elms) = do {
     (cfg, topics) \<leftarrow> TcpServerAttach elm;
     (cfgs, topicss) \<leftarrow> attach_servers elms;
     Some (cfg @ cfgs, topics @ topicss)}"

text \<open>\<open>cfg\<close>: the configured servers of the running configuration.\<close>

definition StartTcpSvr :: "json list \<Rightarrow> tcp_service \<Rightarrow> (bool \<times> string list \<times> tcp_service) option" where
  "StartTcpSvr cfg s = (let s1 = SetCallbackObj s in
     if cfg = [] then Some (False, [], s1)
     else do {
       (vecServerCfg, topics) \<leftarrow> attach_servers cfg;
       Some (True, topics, StartTCPServer vecServerCfg s1)})"

section \<open>The server's callbacks\<close>

record gateway =
  gw_service :: tcp_service
  gw_sessions :: sess_map

text \<open>The server \<open>s32Port\<close> learns of a connection that came or went, and tells the manager.\<close>

definition onConnection :: "int \<Rightarrow> nat \<Rightarrow> string \<Rightarrow> string \<Rightarrow> bool \<Rightarrow> gateway \<Rightarrow> gateway" where
  "onConnection s32Port conn strPeerConnKey strLocalConnKey bRet g = (let s = gw_service g in
     g\<lparr>gw_service := (case m_mapTcpServer s s32Port of
         None \<Rightarrow> s
       | Some m \<Rightarrow> s\<lparr>m_mapTcpServer := (m_mapTcpServer s)(s32Port \<mapsto> AddOrDelTcpConnectPtr conn strPeerConnKey bRet m)\<rparr>),
       gw_sessions := (if sv_callback s then OnTcpConnect strPeerConnKey strLocalConnKey bRet (gw_sessions g)
         else gw_sessions g)\<rparr>)"

fun deliver_chunks :: "bool \<Rightarrow> string \<Rightarrow> string \<Rightarrow> byte list list \<Rightarrow> sess_map \<Rightarrow> (call list \<times> sess_map) option" where
  "deliver_chunks le strPeerConnKey strLocalConnKey [] m = Some ([], m)"
| "deliver_chunks le strPeerConnKey strLocalConnKey (c # cs) m = do {
     (outs, m1) \<leftarrow> OnTcpMessage le strPeerConnKey strLocalConnKey c m;
     (outs', m2) \<leftarrow> deliver_chunks le strPeerConnKey strLocalConnKey cs m1;
     Some (outs @ outs', m2)}"

definition onStringMessage :: "bool \<Rightarrow> string \<Rightarrow> string \<Rightarrow> byte list \<Rightarrow> gateway \<Rightarrow> (call list \<times> gateway) option" where
  "onStringMessage le strPeerConnKey strLocalConnKey buf g =
     (if sv_callback (gw_service g) then do {
        (outs, m) \<leftarrow> deliver_chunks le strPeerConnKey strLocalConnKey (codec_onMessage buf) (gw_sessions g);
        Some (outs, g\<lparr>gw_sessions := m\<rparr>)}
      else Some ([], g))"

section \<open>Runs\<close>

datatype net_event = Connection int nat string string bool | Received string string "byte list"

fun event_key :: "net_event \<Rightarrow> string" where
  "event_key (Connection port conn peer loc st) = local_port loc @ peer"
| "event_key (Received peer loc data) = local_port loc @ peer"

definition gw_step :: "bool \<Rightarrow> net_event \<Rightarrow> gateway \<Rightarrow> (call list \<times> gateway) option" where
  "gw_step le e g = (case e of
     Connection port conn peer loc st \<Rightarrow> Some ([], onConnection port conn peer loc st g)
   | Received peer loc data \<Rightarrow> onStringMessage le peer loc data g)"

text \<open>The callbacks of a run, each with the key of its connection.\<close>

fun gw_run :: "bool \<Rightarrow> net_event list \<Rightarrow> gateway \<Rightarrow> ((string \<times> call) list \<times> gateway) option" where
  "gw_run le [] g = Some ([], g)"
| "gw_run le (e # es) g = do {
     (outs, g1) \<leftarrow> gw_step le e g;
     (outs', g2) \<leftarrow> gw_run le es g1;
     Some (map (\<lambda>c. (event_key e, c)) outs @ outs', g2)}"

section \<open>Sessions are independent\<close>

lemma codec_whole: "codec_onMessage buf = (if buf = [] then [] else [buf])"
  by (subst codec_onMessage.simps) (auto simp: codec_onMessage.simps [of "[]"])

declare codec_onMessage.simps [simp del]

lemma deliver_whole:
  "deliver_chunks le peer loc (codec_onMessage buf) m = (if buf = [] then Some ([], m) else OnTcpMessage le peer loc buf m)"
  by (auto simp: codec_whole split: bind_splits)

lemma step_other:
  assumes "gw_step le e g = Some (outs, g')" "event_key e \<noteq> k"
  shows "gw_sessions g' k = gw_sessions g k"
  using assms
  by (cases e) (auto simp: gw_step_def onConnection_def OnTcpConnect_def onStringMessage_def deliver_whole
      OnTcpMessage_def Let_def split: option.splits bind_splits if_splits)

lemma step_callback: "gw_step le e g = Some (outs, g') \<Longrightarrow> sv_callback (gw_service g') = sv_callback (gw_service g)"
  by (cases e) (auto simp: gw_step_def onConnection_def onStringMessage_def Let_def split: option.splits bind_splits if_splits)

text \<open>What a step does to its own session depends on that session only.\<close>

lemma step_local:
  assumes "gw_step le e g = Some (outs, g1)" "gw_sessions h (event_key e) = gw_sessions g (event_key e)"
    and "sv_callback (gw_service h) = sv_callback (gw_service g)"
  shows "\<exists>h1. gw_step le e h = Some (outs, h1) \<and> gw_sessions h1 (event_key e) = gw_sessions g1 (event_key e)"
  using assms
  by (cases e) (auto simp: gw_step_def onConnection_def OnTcpConnect_def onStringMessage_def deliver_whole
      OnTcpMessage_def Let_def split: option.splits bind_splits if_splits)

lemma run_projection:
  assumes "gw_run le es g = Some (outs, g')" "gw_sessions h k = gw_sessions g k"
    and "sv_callback (gw_service h) = sv_callback (gw_service g)"
  shows "\<exists>h'. gw_run le (filter (\<lambda>e. event_key e = k) es) h = Some (filter (\<lambda>p. fst p = k) outs, h') \<and>
    gw_sessions h' k = gw_sessions g' k"
  using assms
proof (induction es arbitrary: g h outs)
  case (Cons e es)
  obtain o1 g1 o2 where q: "gw_step le e g = Some (o1, g1)" "gw_run le es g1 = Some (o2, g')"
      "outs = map (\<lambda>c. (event_key e, c)) o1 @ o2"
    using Cons.prems(1) by (auto split: bind_splits)
  have cb: "sv_callback (gw_service g1) = sv_callback (gw_service g)" by (rule step_callback [OF q(1)])
  show ?case
  proof (cases "event_key e = k")
    case True
    then obtain h1 where h1: "gw_step le e h = Some (o1, h1)" "gw_sessions h1 k = gw_sessions g1 k"
      using step_local [OF q(1)] Cons.prems(2,3) by blast
    have "sv_callback (gw_service h1) = sv_callback (gw_service g1)"
      using step_callback [OF h1(1)] cb Cons.prems(3) by simp
    then show ?thesis using Cons.IH [OF q(2) h1(2)] h1(1) q(3) True by (auto simp: filter_map o_def)
  next
    case False
    then have "gw_sessions h k = gw_sessions g1 k" using step_other [OF q(1)] Cons.prems(2) by simp
    then show ?thesis using Cons.IH [OF q(2)] cb Cons.prems(3) q(3) False by (auto simp: filter_map o_def)
  qed
qed simp

section \<open>Runs do not get stuck\<close>

text \<open>The bytes an event list delivers under a key.\<close>

fun received :: "string \<Rightarrow> net_event list \<Rightarrow> nat" where
  "received k [] = 0"
| "received k (Connection port conn peer loc st # es) = received k es"
| "received k (Received peer loc data # es) =
     (if local_port loc @ peer = k then length data else 0) + received k es"

text \<open>Every session is settled, and what is pending and to come fits the receive cache.\<close>

definition sessions_ok :: "net_event list \<Rightarrow> sess_map \<Rightarrow> bool" where
  "sessions_ok es m \<longleftrightarrow> (\<forall>k. received k es \<le> 3072000 \<and>
     (\<forall>p. m k = Some p \<longrightarrow> settled p \<and> length (content (m_receive_buffer p)) + received k es \<le> 3072000))"

lemma handle_calls: "\<exists>xs. calls (handle le f p) = calls p @ xs"
  by (auto simp: handle_def accept_def Let_def)

lemma fold_handle_calls: "\<exists>xs. calls (fold (handle le) fs p) = calls p @ xs"
proof (induction fs arbitrary: p)
  case (Cons f fs)
  obtain xs where "calls (handle le f p) = calls p @ xs" using handle_calls by blast
  moreover obtain ys where "calls (fold (handle le) fs (handle le f p)) = calls (handle le f p) @ ys"
    using Cons.IH by blast
  ultimately show ?case by simp
qed simp

text \<open>One delivery: the session stays settled, keeps at most the bytes it had and was given, and only adds callbacks.\<close>

lemma UnDataPkg_settled:
  assumes "settled p" "data \<noteq> []" "length (content (m_receive_buffer p)) + length data \<le> 3072000"
  shows "\<exists>q xs. UnDataPkg le p data (word_of_int (int (length data))) = Some (q, True) \<and> settled q \<and>
    length (content (m_receive_buffer q)) \<le> length (content (m_receive_buffer p)) + length data \<and> calls q = calls p @ xs"
proof -
  obtain fs h r where sc: "scan (m_bHaveHead p) (content (m_receive_buffer p) @ data) = (fs, h, r)" by (metis prod_cases3)
  have "net_ok p" using assms(1) by (simp add: settled_def)
  from UnDataPkg_scan [OF this assms(2,3) sc, of le] obtain b k where u:
    "UnDataPkg le p data (word_of_int (int (length data))) = Some ((fold (handle le) fs p)
      \<lparr>m_receive_buffer := b, m_pkg_buffer := k, m_bHaveHead := h\<rparr>, True)" "small_buf b" "small_buf k" "content b = r"
    by blast
  let ?q = "(fold (handle le) fs p)\<lparr>m_receive_buffer := b, m_pkg_buffer := k, m_bHaveHead := h\<rparr>"
  have "settled ?q" using u scan_settled [OF sc] by (simp add: settled_def net_ok_def)
  moreover obtain xs where "calls ?q = calls p @ xs" using fold_handle_calls [of le fs p] by auto
  moreover have "length (content (m_receive_buffer ?q)) \<le> length (content (m_receive_buffer p)) + length data"
    using scan_rest_length [OF sc] u(4) by simp
  ultimately show ?thesis using u(1) by blast
qed

lemma received_Cons: "received k es \<le> received k (e # es)"
  by (cases e) auto

lemma sessions_ok_rest:
  assumes "sessions_ok (e # es) m"
  shows "sessions_ok es m"
  unfolding sessions_ok_def
proof (intro allI conjI impI)
  fix k
  have "received k (e # es) \<le> 3072000" using assms by (simp add: sessions_ok_def)
  then show "received k es \<le> 3072000" using received_Cons [of k es e] by linarith
  fix p assume "m k = Some p"
  then have "settled p" "length (content (m_receive_buffer p)) + received k (e # es) \<le> 3072000"
    using assms by (simp_all add: sessions_ok_def)
  then show "settled p" "length (content (m_receive_buffer p)) + received k es \<le> 3072000"
    using received_Cons [of k es e] by linarith+
qed

lemma sessions_ok_upd:
  assumes "sessions_ok es m" "settled p" "length (content (m_receive_buffer p)) + received k es \<le> 3072000"
  shows "sessions_ok es (m(k \<mapsto> p))"
  using assms by (simp add: sessions_ok_def)

lemma sessions_ok_del: "sessions_ok es m \<Longrightarrow> sessions_ok es (m(k := None))"
  by (simp add: sessions_ok_def)

lemma sessions_ok_connect: "sessions_ok es m \<Longrightarrow> sessions_ok es (OnTcpConnect peer loc st m)"
proof -
  assume m: "sessions_ok es m"
  have "sessions_ok es (m(k \<mapsto> NetTcpDataPkg a b True False))" for k a b
    by (rule sessions_ok_upd [OF m new_settled]) (use m in \<open>simp add: NetTcpDataPkg_def sessions_ok_def\<close>)
  then show ?thesis using m sessions_ok_del by (simp add: OnTcpConnect_def Let_def split: option.split)
qed

lemma step_total:
  assumes "sessions_ok (e # es) (gw_sessions g)"
  shows "\<exists>outs g'. gw_step le e g = Some (outs, g') \<and> sessions_ok es (gw_sessions g')"
proof (cases e)
  case (Connection port conn peer loc st)
  then show ?thesis
    using sessions_ok_rest [OF assms] sessions_ok_connect by (simp add: gw_step_def onConnection_def Let_def)
next
  case (Received peer loc data)
  let ?k = "local_port loc @ peer"
  have rest: "sessions_ok es (gw_sessions g)" by (rule sessions_ok_rest [OF assms])
  show ?thesis
  proof (cases "data = [] \<or> \<not> sv_callback (gw_service g) \<or> gw_sessions g ?k = None")
    case True
    then show ?thesis using rest Received
      by (auto simp: gw_step_def onStringMessage_def deliver_whole OnTcpMessage_def Let_def)
  next
    case False
    then obtain p where p: "gw_sessions g ?k = Some p" by auto
    have "settled p \<and> length (content (m_receive_buffer p)) + received ?k (e # es) \<le> 3072000"
      using assms p unfolding sessions_ok_def by blast
    then have sp: "settled p" and len: "length (content (m_receive_buffer p)) + (length data + received ?k es) \<le> 3072000"
      using Received by simp_all
    have "length (content (m_receive_buffer p)) + length data \<le> 3072000" using len by simp
    then obtain q xs where q: "UnDataPkg le p data (word_of_int (int (length data))) = Some (q, True)" "settled q"
        "length (content (m_receive_buffer q)) \<le> length (content (m_receive_buffer p)) + length data"
      using UnDataPkg_settled [OF sp, of data le] False by blast
    have "length (content (m_receive_buffer q)) + received ?k es \<le> 3072000" using q(3) len by simp
    then have "sessions_ok es ((gw_sessions g)(?k \<mapsto> q))" by (rule sessions_ok_upd [OF rest q(2)])
    then show ?thesis using False Received p q(1)
      by (simp add: gw_step_def onStringMessage_def deliver_whole OnTcpMessage_def Let_def)
  qed
qed

lemma run_total: "sessions_ok es (gw_sessions g) \<Longrightarrow> \<exists>outs g'. gw_run le es g = Some (outs, g')"
proof (induction es arbitrary: g)
  case (Cons e es)
  obtain outs g1 where s: "gw_step le e g = Some (outs, g1)" "sessions_ok es (gw_sessions g1)"
    using step_total [OF Cons.prems] by blast
  then show ?case using Cons.IH by fastforce
qed simp

text \<open>A session fed chunk by chunk makes the callbacks of the packet object.\<close>

lemma run_feed:
  assumes "gw_sessions g (local_port loc @ peer) = Some p" "sv_callback (gw_service g)" "settled p" "[] \<notin> set cs"
    and "length (content (m_receive_buffer p)) + length (concat cs) \<le> 3072000" "feed le p cs = Some q"
  shows "\<exists>g' xs. gw_run le (map (Received peer loc) cs) g = Some (map (Pair (local_port loc @ peer)) xs, g') \<and>
    calls q = calls p @ xs"
  using assms
proof (induction cs arbitrary: p g)
  case (Cons c cs)
  let ?k = "local_port loc @ peer"
  have c: "c \<noteq> []" "length (content (m_receive_buffer p)) + length c \<le> 3072000" using Cons.prems(4,5) by auto
  obtain p1 xs where p1: "UnDataPkg le p c (word_of_int (int (length c))) = Some (p1, True)" "settled p1"
      "length (content (m_receive_buffer p1)) \<le> length (content (m_receive_buffer p)) + length c" "calls p1 = calls p @ xs"
    using UnDataPkg_settled [OF Cons.prems(3) c] by blast
  let ?g = "g\<lparr>gw_sessions := (gw_sessions g)(?k \<mapsto> p1)\<rparr>"
  have step: "gw_step le (Received peer loc c) g = Some (xs, ?g)"
    using Cons.prems(1,2) c(1) p1(1,4)
    by (simp add: gw_step_def onStringMessage_def deliver_whole OnTcpMessage_def Let_def)
  have "\<exists>g' ys. gw_run le (map (Received peer loc) cs) ?g = Some (map (Pair ?k) ys, g') \<and> calls q = calls p1 @ ys"
    using Cons.prems(2,4,5,6) p1 by (intro Cons.IH) auto
  then show ?case using step p1(4) by fastforce
qed simp

text \<open>
  C2. Requests of one client reach the message bus whatever the other clients do: in any run of the
  gateway in which a client connects and then sends framed requests, cut into arbitrary non-empty
  chunks and interleaved with the connections and bytes of any other clients, the run gets through
  and the client's callbacks publish exactly its requests, in order, under the topic of the
  port it connected to (sender's version at most 4, no length word with the byte 0x0B, at most
  3,072,000 bytes per connection).
\<close>

theorem interleaved_requests_published:
  assumes "sv_callback (gw_service g)" and "gw_sessions g = (\<lambda>_. None)" and "\<forall>k. received k es \<le> 3072000"
    and "filter (\<lambda>e. event_key e = local_port loc @ peer) es = Connection port conn peer loc True # map (Received peer loc) cs"
    and "m_u8Version s \<le> 4" and "\<forall>(c, b) \<in> set msgs. 0x0B \<notin> set (be32 (wire_length (message ty s c b)))"
    and "concat cs = concat (map (\<lambda>(c, b). wire (message ty s c b)) msgs)" and "[] \<notin> set cs"
    and "length (concat cs) \<le> 3072000"
  shows "\<exists>outs g'. gw_run le es g = Some (outs, g') \<and>
    concat (map (\<lambda>x. DistributProtocolData (snd x)) (filter (\<lambda>x. fst x = local_port loc @ peer) outs)) =
      map (\<lambda>(c, b). (TcpSrvRecMsgTopic (local_port loc), local_port loc, peer, ucast c, b)) msgs"
proof -
  let ?k = "local_port loc @ peer"
  let ?p = "NetTcpDataPkg (local_port loc) peer True False"
  let ?g = "onConnection port conn peer loc True g"
  have "sessions_ok es (gw_sessions g)" using assms(2,3) by (simp add: sessions_ok_def)
  then obtain outs g' where run: "gw_run le es g = Some (outs, g')" using run_total by blast
  obtain h where h: "gw_run le (Connection port conn peer loc True # map (Received peer loc) cs) g =
      Some (filter (\<lambda>x. fst x = ?k) outs, h)"
    using run_projection [OF run refl refl, of ?k] assms(4) by auto
  have new: "settled ?p" "\<not> m_bHaveHead ?p" "content (m_receive_buffer ?p) = []" "calls ?p = []"
    using new_settled by (simp_all add: NetTcpDataPkg_def)
  obtain q where q: "feed le ?p cs = Some q" "calls q = concat (map (\<lambda>(c, b). delivered ty s c b ?p le) msgs)"
    using feed_wires [OF new(1-3) assms(5-9), of le] new(4) by auto
  have sess: "gw_sessions ?g ?k = Some ?p" "sv_callback (gw_service ?g)"
    using assms(1,2) by (simp_all add: onConnection_def OnTcpConnect_def Let_def split: option.split)
  have fits: "length (content (m_receive_buffer ?p)) + length (concat cs) \<le> 3072000" using new(3) assms(9) by simp
  obtain g2 xs where "gw_run le (map (Received peer loc) cs) ?g = Some (map (Pair ?k) xs, g2)" "calls q = calls ?p @ xs"
    using run_feed [OF sess new(1) assms(8) fits q(1)] by blast
  then have "filter (\<lambda>x. fst x = ?k) outs = map (Pair ?k) (calls q)"
    using h new(4) by (simp add: gw_step_def)
  moreover have "concat (map DistributProtocolData (concat (map (\<lambda>(c, b). delivered ty s c b ?p le) msgs))) =
      map (\<lambda>(c, b). (TcpSrvRecMsgTopic (local_port loc), local_port loc, peer, ucast c, b)) msgs"
    by (induction msgs) (auto simp: delivered_def NetTcpDataPkg_def DistributProtocolData_def)
  ultimately show ?thesis using run q(2) by (intro exI [of _ outs] exI [of _ g'] conjI) (simp_all add: o_def)
qed

text \<open>
  C15. A client's callbacks and session depend on its own events only: in every run the callbacks made
  under a connection key and the session left there are those of the run with the other keys'
  events left out.
\<close>

theorem sessions_isolated:
  assumes "gw_run le es g = Some (outs, g')"
  shows "\<exists>h'. gw_run le (filter (\<lambda>e. event_key e = k) es) g = Some (filter (\<lambda>p. fst p = k) outs, h') \<and>
    gw_sessions h' k = gw_sessions g' k"
  by (rule run_projection [OF assms refl refl])

text \<open>
  C16. A reply reaches the peer it is for: with a session under the port and peer, and the peer's connection
  at the server of that port, sending returns true and hands exactly the framed reply to that
  connection, and no server's connections change.
\<close>

theorem reply_reaches_peer:
  assumes "m (to_string port @ peer) = Some p" and "m_mapTcpServer s port = Some conns" and "conns peer = Some conn"
    and "conn \<noteq> 0" and "ty = MSG_REQ \<or> ty = MSG_RSP" and "length body \<le> 1048576"
  shows "\<exists>s'. TransferSendTcpData le port peer command body ty m s =
      Some (True, [NetSend conn (wire (message ty p (word_of_int command) body))], s') \<and>
    m_mapTcpServer s' = m_mapTcpServer s"
proof -
  let ?pl = "message ty p (word_of_int command) body"
  have cap: "nMaxPkgLen = 3072000" by (simp add: nMaxPkgLen_def)
  have "length (esc ?pl) \<le> 16 + 2 * length body" using length_esc(2) [of ?pl] by simp
  then have len: "6 + length (esc ?pl) \<le> 3072000" using assms(6) by simp
  have sz: "uint (word_of_int 3072000 :: u32) = 3072000" by (simp add: uint_u32)
  have "PkgProtocolData le p ty (word_of_int command) (Some body) (word_of_int (int (length body)))
      (replicate (nat nMaxPkgLen) 0) 0 (word_of_int nMaxPkgLen) =
    Some (wire ?pl @ drop (length (wire ?pl)) (replicate (nat nMaxPkgLen) 0), wire_length ?pl, True)"
    by (rule PkgProtocolData_frame [OF assms(5,6)]) (use len sz assms(6) cap in auto)
  moreover have "uint (wire_length ?pl) = int (length (wire ?pl))"
    unfolding wire_length_def wire_length_int by (subst uint_u32) (use len in auto)
  moreover have "wire ?pl \<noteq> []" by (simp add: wire_def)
  moreover have "(m_mapTcpServer s)(port \<mapsto> conns) = m_mapTcpServer s" using assms(2) by (simp add: fun_upd_idem)
  ultimately show ?thesis
    using assms(1-4)
    by (simp add: TransferSendTcpData_def SendData_def sendData_def GetTcpConnectPtr_def rd_def Let_def)
qed

section \<open>Concrete runs\<close>

definition demo_gateway :: gateway where
  "demo_gateway = \<lparr>gw_service = \<lparr>sv_callback = True, m_mapTcpServer = [80 \<mapsto> [''1.1.1.1:5'' \<mapsto> 7]]\<rparr>, gw_sessions = (\<lambda>_. None)\<rparr>"

definition demo_sender :: net_pkg where
  "demo_sender = NetTcpDataPkg ''a'' ''b'' True False"

definition demo_events :: "net_event list" where
  "demo_events = [Connection 80 7 ''1.1.1.1:5'' ''9.9.9.9:80'' True, Connection 80 8 ''2.2.2.2:6'' ''9.9.9.9:80'' True,
     Received ''2.2.2.2:6'' ''9.9.9.9:80'' [0x7D, 1], Received ''1.1.1.1:5'' ''9.9.9.9:80'' (wire (message 1 demo_sender 5 [1, 2])),
     Connection 80 8 ''2.2.2.2:6'' ''9.9.9.9:80'' False]"

lemma demo_wire: "length (esc (message 1 demo_sender 5 [1, 2])) \<in> {10, 11, 12}"
  using esc_message_length [where ty = 1 and s = demo_sender and c = 5 and b = "[1, 2]"]
  by (auto simp: msg_head_def MSG_RSP_def special_def demo_sender_def)

lemma demo_port: "local_port ''9.9.9.9:80'' = ''80''"
  by (simp add: local_port_def)

theorem interleaved_requests_published_witness:
  "\<exists>outs g'. gw_run True demo_events demo_gateway = Some (outs, g') \<and>
     concat (map (\<lambda>x. DistributProtocolData (snd x)) (filter (\<lambda>x. fst x = ''801.1.1.1:5'') outs)) =
       [(''80tcpcli_revmsg'', ''80'', ''1.1.1.1:5'', 5, [1, 2])]"
proof -
  let ?m = "message 1 demo_sender 5 [1, 2]"
  have rec: "\<forall>k. received k demo_events \<le> 3072000"
    using demo_wire by (auto simp: demo_events_def demo_port)
  have fil: "filter (\<lambda>e. event_key e = local_port ''9.9.9.9:80'' @ ''1.1.1.1:5'') demo_events =
      Connection 80 7 ''1.1.1.1:5'' ''9.9.9.9:80'' True # map (Received ''1.1.1.1:5'' ''9.9.9.9:80'') [wire ?m]"
    by (simp add: demo_events_def demo_port)
  have be: "\<forall>(c, b) \<in> set [(5, [1, 2])]. 0x0B \<notin> set (be32 (wire_length (message 1 demo_sender c b)))"
    using demo_wire by (auto simp: wire_length_def be32_def le32_def)
  show ?thesis
    using interleaved_requests_published [where le = True, OF _ _ rec fil _ be] demo_wire
    by (auto simp: demo_gateway_def demo_port demo_sender_def NetTcpDataPkg_def TcpSrvRecMsgTopic_def wire_def)
qed

theorem sessions_isolated_witness:
  "\<exists>outs g' h'. gw_run True demo_events demo_gateway = Some (outs, g') \<and>
     gw_run True (filter (\<lambda>e. event_key e = ''802.2.2.2:6'') demo_events) demo_gateway =
       Some (filter (\<lambda>p. fst p = ''802.2.2.2:6'') outs, h') \<and> gw_sessions h' ''802.2.2.2:6'' = gw_sessions g' ''802.2.2.2:6''"
proof -
  have "sessions_ok demo_events (gw_sessions demo_gateway)"
    using demo_wire by (auto simp: sessions_ok_def demo_events_def demo_port demo_gateway_def)
  then obtain outs g' where run: "gw_run True demo_events demo_gateway = Some (outs, g')" using run_total by blast
  then show ?thesis using sessions_isolated [OF run, of "''802.2.2.2:6''"] by blast
qed

theorem reply_reaches_peer_witness:
  "\<exists>s'. TransferSendTcpData True 80 ''1.1.1.1:5'' 0x41 [1, 2] 1 [''801.1.1.1:5'' \<mapsto> demo_sender] (gw_service demo_gateway) =
     Some (True, [NetSend 7 (wire (message 1 demo_sender 0x41 [1, 2]))], s')"
proof -
  have "to_string 80 = ''80''" by code_simp
  then show ?thesis
    using reply_reaches_peer [of "[''801.1.1.1:5'' \<mapsto> demo_sender]" 80 "''1.1.1.1:5''" demo_sender "gw_service demo_gateway"
        "[''1.1.1.1:5'' \<mapsto> 7]" 7 1 "[1, 2]" True "0x41"]
    by (auto simp: demo_gateway_def MSG_REQ_def)
qed

end
