(* ===== verification/SouthTransfer.thy ===== *)
theory SouthTransfer
  imports VideoMng CfgTables TcpService
begin

text \<open>
  The transfer managers that start the southern side (main/TransferMng/TransferMng.cpp and
  VsTransferMng.cpp): the cameras of the configuration are handed to the video service, and a
  thread per camera takes its pictures and publishes them. The HTTP client is an argument, as is a
  freshly made camera description, whose numbers the code does not initialise.
  \<^term>\<open>None\<close> is an exception that is not caught, or undefined behaviour.
\<close>

section \<open>State\<close>

definition RtspStreamTopic :: "string \<Rightarrow> string \<Rightarrow> string" where
  "RtspStreamTopic strIp strCode = strIp @ strCode @ ''GetRtspStream''"

text \<open>The threads: for every camera code the address its thread was started with.\<close>

datatype callback = VsTransferMng

record CVsTransferMng =
  m_mapPullStream :: "string \<Rightarrow> string option"
  vt_module :: "callback module_state"

section \<open>The cameras of the configuration\<close>

definition GetHttpData :: "(string \<Rightarrow> string \<Rightarrow> int \<Rightarrow> string \<Rightarrow> string) \<Rightarrow> string \<Rightarrow> string \<Rightarrow> string \<Rightarrow> string" where
  "GetHttpData HttpGet strAuth strHost strPag = HttpGet strAuth strHost 80 strPag"

definition camera_of :: "(string \<Rightarrow> string \<Rightarrow> int \<Rightarrow> string \<Rightarrow> string) \<Rightarrow> TCameraBaseInfo \<Rightarrow> json \<Rightarrow> TCameraBaseInfo option" where
  "camera_of HttpGet fresh elm = do {
     ip \<leftarrow> jtext ''ip'' elm;
     port \<leftarrow> jtext ''port'' elm;
     n \<leftarrow> atoi port;
     user \<leftarrow> jtext ''username'' (jget ''params'' elm);
     pwd \<leftarrow> jtext ''pwd'' (jget ''params'' elm);
     code \<leftarrow> jtext ''code'' (jget ''params'' elm);
     Some (fresh\<lparr>m_cb := Some (GetHttpData HttpGet), strIP := ip, s32Port := n, strUserName := user,
       strPassword := pwd, strCameraCode := code\<rparr>)}"

fun camera_infos :: "(string \<Rightarrow> string \<Rightarrow> int \<Rightarrow> string \<Rightarrow> string) \<Rightarrow> TCameraBaseInfo \<Rightarrow> json list \<Rightarrow>
    TCameraBaseInfo smap \<Rightarrow> TCameraBaseInfo smap option" where
  "camera_infos HttpGet fresh [] mapCameraInfo = Some mapCameraInfo"
| "camera_infos HttpGet fresh (elm # elms) mapCameraInfo = do {
     strEnable \<leftarrow> jtext ''enable'' elm;
     if strEnable = ''0'' then camera_infos HttpGet fresh elms mapCameraInfo
     else do {
       cam \<leftarrow> camera_of HttpGet fresh elm;
       camera_infos HttpGet fresh elms (smap_insert (strCameraCode cam) cam mapCameraInfo)}}"

fun pull_threads :: "json list \<Rightarrow> (string \<Rightarrow> string option) \<Rightarrow> (string \<Rightarrow> string option) option" where
  "pull_threads [] t = Some t"
| "pull_threads (elm # elms) t = do {
     strIp \<leftarrow> jtext ''ip'' elm;
     strCamCode \<leftarrow> jtext ''code'' (jget ''params'' elm);
     if strCamCode = [] \<or> strIp = [] then pull_threads elms t
     else if t strCamCode \<noteq> None then pull_threads elms t
     else pull_threads elms (t(strCamCode \<mapsto> strIp))}"

definition StartCameras :: "(string \<Rightarrow> string \<Rightarrow> int \<Rightarrow> string \<Rightarrow> string) \<Rightarrow> TCameraBaseInfo \<Rightarrow> onvif \<Rightarrow> int \<Rightarrow> cfg_map \<Rightarrow>
    CVsTransferMng \<Rightarrow> CVsTransferMng option" where
  "StartCameras HttpGet fresh onv now m s = (let
     vecSouthRtspTransCfg = GetSysCfg ''TransferSouthVideortspcli'' m in
     if vecSouthRtspTransCfg = [] then Some s
     else do {
       mapCameraInfo \<leftarrow> camera_infos HttpGet fresh vecSouthRtspTransCfg [];
       if mapCameraInfo = [] then Some s
       else let (bRet, m1) = InitModule (Some VsTransferMng) (vt_module s) in
         if \<not> bRet then Some (s\<lparr>vt_module := m1\<rparr>)
         else do {
           (bRet, m2) \<leftarrow> StartModule onv now mapCameraInfo m1;
           if \<not> bRet then Some (s\<lparr>vt_module := m2\<rparr>)
           else do {
             threads \<leftarrow> pull_threads vecSouthRtspTransCfg (m_mapPullStream s);
             Some (s\<lparr>vt_module := m2, m_mapPullStream := threads\<rparr>)}}})"

text \<open>One round of a camera's thread: the topic, address, code and picture it publishes.\<close>

definition PullVideLoop :: "string \<Rightarrow> string \<Rightarrow> video \<Rightarrow> (string \<times> string \<times> string \<times> Mat) list \<times> video" where
  "PullVideLoop strIp strCamCode v = (let
     (cvMat, v') = ModuleGetCmmImage strCamCode \<lparr>strShotTime = [], srcMat = no_mat\<rparr> v in
     (if 0 \<ge> mat_cols (srcMat cvMat) \<or> 0 \<ge> mat_rows (srcMat cvMat) then []
      else [(RtspStreamTopic strIp strCamCode, strIp, strCamCode, srcMat cvMat)], v'))"

definition TransUpdate :: "(string \<Rightarrow> string \<Rightarrow> int \<Rightarrow> string \<Rightarrow> string) \<Rightarrow> TCameraBaseInfo \<Rightarrow> onvif \<Rightarrow> int \<Rightarrow> cfg_map \<Rightarrow>
    CVsTransferMng \<Rightarrow> CVsTransferMng option" where
  "TransUpdate = StartCameras"

text \<open>The start of the southern side: the cameras, then the TCP servers.\<close>

definition StartSouthTrans :: "(string \<Rightarrow> string \<Rightarrow> int \<Rightarrow> string \<Rightarrow> string) \<Rightarrow> TCameraBaseInfo \<Rightarrow> onvif \<Rightarrow> int \<Rightarrow> cfg_map \<Rightarrow>
    CVsTransferMng \<times> tcp_service \<Rightarrow> (bool \<times> string list \<times> CVsTransferMng \<times> tcp_service) option" where
  "StartSouthTrans HttpGet fresh onv now m = (\<lambda>(s, t). do {
     s' \<leftarrow> StartCameras HttpGet fresh onv now m s;
     (ok, topics, t') \<leftarrow> StartTcpSvr (GetSysCfg ''TransferSouthTcpSvrtcpsrv'' m) t;
     Some (ok, topics, s', t')})"

section \<open>Starting one camera\<close>

text \<open>The camera description a pull-stream object works on, apart from the update flag.\<close>

definition pulls :: "TCameraBaseInfo \<Rightarrow> CPullStream \<Rightarrow> bool" where
  "pulls cam p \<longleftrightarrow> m_bRuning p \<and>
     (m_CamBaseInfo (m_RtspClientMngPtr p))\<lparr>bUpdate := bUpdate cam\<rparr> = cam"

lemma StartPull_step:
  assumes ok: "video_ok {} v" and st: "StartPullStreamObj onv now ((k, cam) # cams) v = Some v'"
  shows "\<exists>v1 p. video_ok {} v1 \<and> StartPullStreamObj onv now cams v1 = Some v' \<and> pulls cam p \<and>
    m_mapPSObjs v1 = (m_mapPSObjs v)(strCameraCode cam \<mapsto> p)"
proof -
  let ?c = "strCameraCode cam"
  obtain added v0 where a: "AddPullStreamObj now cam v = (added, v0)" by fastforce
  have ok0: "video_ok (if added then {?c} else {}) v0" using AddPullStreamObj_ok [OF ok, of now cam] a by simp
  show ?thesis
  proof (cases "QueueIsExist ?c (vm_queues v)")
    case True
    then obtain p where p: "m_mapPSObjs v ?c = Some p" using video_okD(2) [OF ok, of ?c] by (auto simp: QueueIsExist_def)
    have v0: "\<not> added" "v0 = PSMngUpdate cam v" using a True by (auto simp: AddPullStreamObj_def)
    have "m_mapPSObjs v0 = (m_mapPSObjs v)(?c \<mapsto> UpdateCameraBaseInfo cam p)" using v0(2) p by (simp add: PSMngUpdate_def)
    moreover have "pulls cam (UpdateCameraBaseInfo cam p)"
      using video_okD(4) [OF ok p] by (simp add: pulls_def UpdateCameraBaseInfo_def)
    ultimately show ?thesis using ok0 st a v0(1) by (auto simp del: fun_upd_apply)
  next
    case False
    then have none: "m_mapPSObjs v ?c = None" using video_okD(2) [OF ok, of ?c] by (auto simp: QueueIsExist_def)
    have v0: "added" "v0 = PSMngAdd now cam (add_queue ?c v)" using a False by (auto simp: AddPullStreamObj_def)
    obtain v1 where v1: "PSMngStart onv ?c v0 = Some v1" "StartPullStreamObj onv now cams v1 = Some v'"
      using st a v0(1) by (auto split: bind_splits)
    let ?p = "new_CPullStream now cam (vm_queues (add_queue ?c v))"
    have m0: "m_mapPSObjs v0 = (m_mapPSObjs v)(?c \<mapsto> ?p)" using v0(2) none by (simp add: PSMngAdd_def add_queue_def)
    then obtain c' where c': "OpenCamera onv (m_RtspClientMngPtr ?p) = Some c'"
        "v1 = v0\<lparr>m_mapPSObjs := (m_mapPSObjs v0)(?c \<mapsto> ?p\<lparr>m_RtspClientMngPtr := c', m_bRuning := True\<rparr>)\<rparr>"
      using v1(1) by (auto simp: PSMngStart_def StartStream_def new_CPullStream_def split: bind_splits)
    have "m_CamBaseInfo c' = cam"
      using OpenCamera_flags [OF c'(1)] by (simp add: new_CPullStream_def new_CRtspCliMng_def Let_def)
    then have "pulls cam (?p\<lparr>m_RtspClientMngPtr := c', m_bRuning := True\<rparr>)" by (simp add: pulls_def)
    moreover have "video_ok {} v1" using PSMngStart_ok [OF ok0 _ v1(1)] v0(1) by simp
    moreover have "m_mapPSObjs v1 = (m_mapPSObjs v)(?c \<mapsto> ?p\<lparr>m_RtspClientMngPtr := c', m_bRuning := True\<rparr>)"
      using c'(2) m0 by simp
    ultimately show ?thesis using v1(2) by blast
  qed
qed

text \<open>Starting a map of cameras, each under its code.\<close>

definition under_code :: "TCameraBaseInfo smap \<Rightarrow> bool" where
  "under_code cams \<longleftrightarrow> smap_ok cams \<and> (\<forall>(k, cam) \<in> set cams. strCameraCode cam = k)"

lemma StartPull_all:
  assumes "video_ok {} v" "StartPullStreamObj onv now cams v = Some v'" "under_code cams"
  shows "video_ok {} v' \<and> (\<forall>c. map_of cams c = None \<longrightarrow> m_mapPSObjs v' c = m_mapPSObjs v c) \<and>
    (\<forall>c cam. map_of cams c = Some cam \<longrightarrow> (\<exists>p. m_mapPSObjs v' c = Some p \<and> pulls cam p))"
  using assms
proof (induction cams arbitrary: v)
  case (Cons e cams)
  obtain k cam where e: "e = (k, cam)" by fastforce
  have uc: "under_code cams" "strCameraCode cam = k" "k \<notin> fst ` set cams"
    using Cons.prems(3) by (auto simp: under_code_def smap_ok_def e)
  obtain v1 p where v1: "video_ok {} v1" "StartPullStreamObj onv now cams v1 = Some v'" "pulls cam p"
      "m_mapPSObjs v1 = (m_mapPSObjs v)(k \<mapsto> p)"
    using StartPull_step [OF Cons.prems(1) Cons.prems(2) [unfolded e]] uc(2) by blast
  have "map_of cams k = None" using uc(3) by (simp add: map_of_eq_None_iff)
  then have "m_mapPSObjs v' k = Some p" using Cons.IH [OF v1(1,2) uc(1)] v1(4) by simp
  then show ?case using Cons.IH [OF v1(1,2) uc(1)] v1(3,4) by (auto simp: e)
qed simp

section \<open>The cameras that are started\<close>

text \<open>The first enabled entry with a code counts.\<close>

definition entry_code :: "json \<Rightarrow> string option" where
  "entry_code elm = jtext ''code'' (jget ''params'' elm)"

definition enabled_with :: "string \<Rightarrow> json \<Rightarrow> bool" where
  "enabled_with c elm \<longleftrightarrow> jtext ''enable'' elm \<noteq> Some ''0'' \<and> entry_code elm = Some c"

lemma under_code_insert: "under_code m \<Longrightarrow> under_code (smap_insert (strCameraCode cam) cam m)"
proof -
  have "set (smap_insert k v m) \<subseteq> insert (k, v) (set m)" for k and v :: TCameraBaseInfo and m
    by (induction k v m rule: smap_insert.induct) auto
  then show "under_code m \<Longrightarrow> under_code (smap_insert (strCameraCode cam) cam m)"
    using smap_insert_ok unfolding under_code_def by fastforce
qed

lemma camera_infos_map:
  assumes "camera_infos HttpGet fresh es m = Some m'" "under_code m"
  shows "under_code m' \<and> (\<forall>c. map_of m' c = (case map_of m c of Some cam \<Rightarrow> Some cam
    | None \<Rightarrow> (case List.find (enabled_with c) es of None \<Rightarrow> None | Some e \<Rightarrow> camera_of HttpGet fresh e)))"
  using assms
proof (induction es arbitrary: m)
  case (Cons e es)
  obtain en where en: "jtext ''enable'' e = Some en" using Cons.prems(1) by (auto split: bind_splits)
  show ?case
  proof (cases "en = ''0''")
    case True
    then have "\<not> enabled_with c e" for c using en by (simp add: enabled_with_def)
    then have f: "List.find (enabled_with c) (e # es) = List.find (enabled_with c) es" for c by simp
    have "camera_infos HttpGet fresh es m = Some m'" using Cons.prems(1) en True by simp
    from Cons.IH [OF this Cons.prems(2)] show ?thesis unfolding f .
  next
    case False
    then obtain cam where cam: "camera_of HttpGet fresh e = Some cam"
        "camera_infos HttpGet fresh es (smap_insert (strCameraCode cam) cam m) = Some m'"
      using Cons.prems(1) en by (auto split: bind_splits)
    let ?m = "smap_insert (strCameraCode cam) cam m"
    have "entry_code e = Some (strCameraCode cam)" using cam(1) by (auto simp: camera_of_def entry_code_def split: bind_splits)
    then have ew: "enabled_with c e \<longleftrightarrow> c = strCameraCode cam" for c using en False by (auto simp: enabled_with_def)
    have m: "map_of ?m c = (if map_of m c = None \<and> c = strCameraCode cam then Some cam else map_of m c)" for c
    proof (cases "map_of m (strCameraCode cam)")
      case None
      then show ?thesis by (simp add: map_of_smap_insert)
    next
      case (Some x)
      have "smap_ok m" using Cons.prems(2) by (simp add: under_code_def)
      from smap_insert_same [OF this Some, of cam] show ?thesis using Some by auto
    qed
    show ?thesis using Cons.IH [OF cam(2) under_code_insert [OF Cons.prems(2)]] cam(1) ew
      by (auto simp: m split: option.splits)
  qed
qed (simp split: option.split)

lemma StartCameras_video:
  assumes "StartCameras HttpGet fresh onv now m s = Some s'" "video_ok {} (ms_video (vt_module s))"
  shows "video_ok {} (ms_video (vt_module s'))"
    "List.find (enabled_with c) (GetSysCfg ''TransferSouthVideortspcli'' m) = None \<Longrightarrow>
      m_mapPSObjs (ms_video (vt_module s')) c = m_mapPSObjs (ms_video (vt_module s)) c"
    "List.find (enabled_with c) (GetSysCfg ''TransferSouthVideortspcli'' m) = Some e \<Longrightarrow>
      \<exists>cam p. camera_of HttpGet fresh e = Some cam \<and> m_mapPSObjs (ms_video (vt_module s')) c = Some p \<and> pulls cam p"
    "m_mapPullStream s c = Some ip \<Longrightarrow> m_mapPullStream s' c = Some ip"
proof -
  let ?es = "GetSysCfg ''TransferSouthVideortspcli'' m"
  have keep: "pull_threads es t = Some t' \<Longrightarrow> t c = Some ip \<Longrightarrow> t' c = Some ip" for es t t'
  proof (induction es arbitrary: t)
    case (Cons e es)
    obtain i k where "jtext ''ip'' e = Some i" "jtext ''code'' (jget ''params'' e) = Some k"
      using Cons.prems(1) by (auto split: bind_splits)
    then show ?case using Cons by (cases "k = c") (auto split: if_splits)
  qed simp
  have empty: "under_code []" by (simp add: under_code_def smap_ok_def)
  have "video_ok {} (ms_video (vt_module s')) \<and>
    (List.find (enabled_with c) ?es = None \<longrightarrow>
      m_mapPSObjs (ms_video (vt_module s')) c = m_mapPSObjs (ms_video (vt_module s)) c) \<and>
    (\<forall>e. List.find (enabled_with c) ?es = Some e \<longrightarrow> (\<exists>cam p. camera_of HttpGet fresh e = Some cam \<and>
      m_mapPSObjs (ms_video (vt_module s')) c = Some p \<and> pulls cam p)) \<and>
    (m_mapPullStream s c = Some ip \<longrightarrow> m_mapPullStream s' c = Some ip)"
  proof (cases "?es = []")
    case True
    then show ?thesis using assms by (simp add: StartCameras_def)
  next
    case False
    then obtain cams where cams: "camera_infos HttpGet fresh ?es [] = Some cams"
      using assms(1) by (auto simp: StartCameras_def Let_def split: bind_splits)
    note cm = camera_infos_map [OF cams empty, THEN conjunct2, rule_format]
    have uc: "under_code cams" using camera_infos_map [OF cams empty] by blast
    have some: "\<exists>cam. camera_of HttpGet fresh e = Some cam" if "List.find (enabled_with c) ?es = Some e" for e
    proof -
      have "e \<in> set ?es" "enabled_with c e" using that by (auto simp: find_Some_iff)
      moreover have "camera_infos HttpGet fresh es m = Some m' \<Longrightarrow> e \<in> set es \<Longrightarrow> enabled_with c e \<Longrightarrow>
          \<exists>cam. camera_of HttpGet fresh e = Some cam" for es m m'
        by (induction es arbitrary: m) (auto simp: enabled_with_def split: bind_splits if_splits)
      ultimately show ?thesis using cams by blast
    qed
    show ?thesis
    proof (cases "cams = []")
      case True
      then have "s' = s" using assms(1) False cams by (simp add: StartCameras_def)
      moreover have "List.find (enabled_with c) ?es = None" using cm [of c] some True by (fastforce split: option.splits)
      ultimately show ?thesis using assms(2) by simp
    next
      case ne: False
      obtain v' t' where v': "StartPullStreamObj onv now cams (ms_video (vt_module s)) = Some v'"
          "ms_video (vt_module s') = v'" "pull_threads ?es (m_mapPullStream s) = Some t'" "m_mapPullStream s' = t'"
        using assms(1) False cams ne
        by (auto simp: StartCameras_def InitModule_def StartModule_def VideoStart_def split: bind_splits if_splits)
      note all = StartPull_all [OF assms(2) v'(1) uc]
      show ?thesis using all cm [of c] some keep [OF v'(3)] by (auto simp: v'(2,4) split: option.splits)
    qed
  qed
  then show "video_ok {} (ms_video (vt_module s'))"
    "List.find (enabled_with c) ?es = None \<Longrightarrow>
      m_mapPSObjs (ms_video (vt_module s')) c = m_mapPSObjs (ms_video (vt_module s)) c"
    "List.find (enabled_with c) ?es = Some e \<Longrightarrow>
      \<exists>cam p. camera_of HttpGet fresh e = Some cam \<and> m_mapPSObjs (ms_video (vt_module s')) c = Some p \<and> pulls cam p"
    "m_mapPullStream s c = Some ip \<Longrightarrow> m_mapPullStream s' c = Some ip"
    by simp_all
qed

text \<open>
  C27. The cameras follow the configuration: starting or updating the cameras in a state whose streams and
  queues agree keeps that agreement, every camera with an enabled entry has a running stream
  with the data of the first such entry, and a camera without one keeps its stream as it is; so
  a camera that was deleted or disabled goes on.
\<close>

theorem cameras_follow_config:
  assumes "TransUpdate HttpGet fresh onv now m s = Some s'" and "video_ok {} (ms_video (vt_module s))"
  shows "video_ok {} (ms_video (vt_module s')) \<and>
    (case List.find (enabled_with c) (GetSysCfg ''TransferSouthVideortspcli'' m) of
       None \<Rightarrow> m_mapPSObjs (ms_video (vt_module s')) c = m_mapPSObjs (ms_video (vt_module s)) c
     | Some e \<Rightarrow> \<exists>cam p. camera_of HttpGet fresh e = Some cam \<and>
         m_mapPSObjs (ms_video (vt_module s')) c = Some p \<and> pulls cam p)"
  using StartCameras_video [OF assms(1) [unfolded TransUpdate_def] assms(2)] by (simp split: option.split)

lemma PullVideLoop_topic: "x \<in> set (fst (PullVideLoop ip c v)) \<Longrightarrow> fst x = RtspStreamTopic ip c"
  by (auto simp: PullVideLoop_def Let_def case_prod_beta split: if_splits)

text \<open>
  A camera whose address changed is no longer heard: after the update its stream is taken from the new
  address, but its thread goes on publishing every picture under the topic of the old
  address, which differs from the topic that consumers of the new configuration subscribe to.
\<close>

theorem address_change_starves:
  assumes "TransUpdate HttpGet fresh onv now m s = Some s'" and "video_ok {} (ms_video (vt_module s))"
    and "m_mapPullStream s c = Some old" and "jtext ''ip'' e = Some new" and "new \<noteq> old"
    and "List.find (enabled_with c) (GetSysCfg ''TransferSouthVideortspcli'' m) = Some e"
  shows "\<exists>p. m_mapPSObjs (ms_video (vt_module s')) c = Some p \<and> strIP (m_CamBaseInfo (m_RtspClientMngPtr p)) = new \<and>
    m_mapPullStream s' c = Some old \<and>
    (\<forall>v. RtspStreamTopic new c \<notin> fst ` set (fst (PullVideLoop old c v)))"
proof -
  note u = StartCameras_video [OF assms(1) [unfolded TransUpdate_def] assms(2)]
  obtain cam p where p: "camera_of HttpGet fresh e = Some cam" "m_mapPSObjs (ms_video (vt_module s')) c = Some p" "pulls cam p"
    using u(3) [OF assms(6)] by blast
  have "strIP cam = new" using p(1) assms(4) by (auto simp: camera_of_def split: bind_splits)
  moreover have "strIP (m_CamBaseInfo (m_RtspClientMngPtr p)) = strIP cam"
    using p(3) unfolding pulls_def by (metis TCameraBaseInfo.select_convs(17) TCameraBaseInfo.surjective TCameraBaseInfo.update_convs(1))
  moreover have "RtspStreamTopic new c \<noteq> RtspStreamTopic old c" using assms(5) by (simp add: RtspStreamTopic_def)
  ultimately show ?thesis using p(2) u(4) [OF assms(3)] PullVideLoop_topic by (metis (no_types, lifting) imageE)
qed

section \<open>A concrete configuration\<close>

definition demo_entry :: json where
  "demo_entry = JObj [(''enable'', JStr ''1''), (''ip'', JStr ''10.0.0.2''), (''port'', JStr ''80''), (''params'', JObj [
     (''username'', JStr ''u''), (''pwd'', JStr ''p''), (''code'', JStr ''A'')])]"

definition demo_cameras :: cfg_map where
  "demo_cameras = [''TransferSouthVideortspcli'' \<mapsto> [demo_entry]]"

definition demo_mng :: CVsTransferMng where
  "demo_mng = \<lparr>m_mapPullStream = [''A'' \<mapsto> ''10.0.0.1''], vt_module = \<lparr>m_pBDRCallBack = None, ms_video = no_video\<rparr>\<rparr>"

lemma demo_trans_update: "\<exists>s'. TransUpdate (\<lambda>_ _ _ _. []) empty_camera demo_onvif 0 demo_cameras demo_mng = Some s'"
proof -
  have "atoi ''80'' = Some 80" by code_simp
  then have "camera_infos (\<lambda>_ _ _ _. []) empty_camera [demo_entry] [] = Some [(''A'', empty_camera\<lparr>m_cb := Some (GetHttpData (\<lambda>_ _ _ _. [])),
      strIP := ''10.0.0.2'', s32Port := 80, strUserName := ''u'', strPassword := ''p'', strCameraCode := ''A''\<rparr>)]"
    by (simp add: demo_entry_def camera_of_def jtext_def empty_camera_def)
  moreover obtain t where "pull_threads [demo_entry] [''A'' \<mapsto> ''10.0.0.1''] = Some t"
    by (simp add: demo_entry_def jtext_def)
  ultimately show ?thesis
    by (simp add: TransUpdate_def StartCameras_def demo_cameras_def GetSysCfg_def demo_mng_def InitModule_def StartModule_def
        VideoStart_def AddPullStreamObj_def QueueIsExist_def no_video_def no_queues_def add_queue_def
        PSMngAdd_def PSMngStart_def StartStream_def new_CPullStream_def client_eval
        del: camera_infos.simps pull_threads.simps)
qed

lemma demo_find: "List.find (enabled_with ''A'') (GetSysCfg ''TransferSouthVideortspcli'' demo_cameras) = Some demo_entry"
  by (simp add: demo_cameras_def GetSysCfg_def demo_entry_def enabled_with_def entry_code_def jtext_def)

lemma demo_mng_ok: "video_ok {} (ms_video (vt_module demo_mng))"
  by (simp add: demo_mng_def no_video_ok)

theorem cameras_follow_config_witness:
  "\<exists>s' cam p. TransUpdate (\<lambda>_ _ _ _. []) empty_camera demo_onvif 0 demo_cameras demo_mng = Some s' \<and>
     m_mapPSObjs (ms_video (vt_module s')) ''A'' = Some p \<and> pulls cam p \<and> m_mapPSObjs (ms_video (vt_module s')) ''B'' = None"
proof -
  obtain s' where u: "TransUpdate (\<lambda>_ _ _ _. []) empty_camera demo_onvif 0 demo_cameras demo_mng = Some s'" using demo_trans_update by blast
  have "List.find (enabled_with ''B'') (GetSysCfg ''TransferSouthVideortspcli'' demo_cameras) = None"
    by (simp add: demo_cameras_def GetSysCfg_def demo_entry_def enabled_with_def entry_code_def jtext_def)
  then have "m_mapPSObjs (ms_video (vt_module s')) ''B'' = None"
    using cameras_follow_config [OF u demo_mng_ok, of "''B''"] by (simp add: demo_mng_def no_video_def)
  then show ?thesis using cameras_follow_config [OF u demo_mng_ok, of "''A''"] u by (auto simp: demo_find)
qed

theorem address_change_starves_witness:
  "\<exists>s' p. TransUpdate (\<lambda>_ _ _ _. []) empty_camera demo_onvif 0 demo_cameras demo_mng = Some s' \<and>
     m_mapPSObjs (ms_video (vt_module s')) ''A'' = Some p \<and> strIP (m_CamBaseInfo (m_RtspClientMngPtr p)) = ''10.0.0.2'' \<and>
     m_mapPullStream s' ''A'' = Some ''10.0.0.1''"
proof -
  obtain s' where u: "TransUpdate (\<lambda>_ _ _ _. []) empty_camera demo_onvif 0 demo_cameras demo_mng = Some s'" using demo_trans_update by blast
  have "m_mapPullStream demo_mng ''A'' = Some ''10.0.0.1''" "jtext ''ip'' demo_entry = Some ''10.0.0.2''"
    by (simp_all add: demo_mng_def demo_entry_def jtext_def)
  from address_change_starves [OF u demo_mng_ok this _ demo_find] show ?thesis using u by auto
qed

end
