(* ===== verification/CommSafeFace.thy ===== *)
theory CommSafeFace
  imports CommSafeDetect
begin

text \<open>
  The face task of the safety application (app/CommSafe/CommSafeFace.cpp): faces are registered
  with their features, the recognition results become rows of the alarm table, and clients read
  both. Extracting a feature from a picture, reading the numbers of a feature's text and encoding
  the picture of an alarm are arguments.
\<close>

section \<open>State\<close>

definition s32FaceQueueSize :: int where "s32FaceQueueSize = 5"

record CCommSafeFace =
  fc_jTaskCfg :: json
  fc_jAlgCfg :: json
  fc_mapDataSrc :: "string \<Rightarrow> json option"
  fc_has_bus :: bool

definition new_CCommSafeFace :: CCommSafeFace where
  "new_CCommSafeFace = \<lparr>fc_jTaskCfg = JNull, fc_jAlgCfg = JNull, fc_mapDataSrc = (\<lambda>_. None),
     fc_has_bus = False\<rparr>"

text \<open>A row of the register and a row of the alarm table, without their keys.\<close>

record reg_row =
  rr_card :: string
  rr_name :: string
  rr_feature :: string
  rr_img :: string
  rr_white :: string

record face_row =
  fa_task_flag :: string
  fa_alg_idx :: string
  fa_alert_type :: string
  fa_alert_date :: string
  fa_data_src :: string
  fa_face_id :: string
  fa_face_img :: string

definition reg_doc :: "int \<times> reg_row \<Rightarrow> (string \<times> db_cell) list" where
  "reg_doc = (\<lambda>(i, r). [(''id'', CInt i), (''ID_card'', CText (rr_card r)),
     (''ID_name'', CText (rr_name r)), (''ID_feature'', CText (rr_feature r)),
     (''ID_img'', CText (rr_img r)), (''white_name'', CText (rr_white r))])"

section \<open>Reading the features\<close>

text \<open>\<open>std::getline\<close> with a delimiter, until the stream is empty.\<close>

function getlines :: "char \<Rightarrow> string \<Rightarrow> string list" where
  "getlines d [] = []"
| "getlines d (c # cs) = takeWhile (\<lambda>x. x \<noteq> d) (c # cs) #
     getlines d (tl (dropWhile (\<lambda>x. x \<noteq> d) (c # cs)))"
  by pat_completeness auto
termination
proof (relation "measure (\<lambda>(d, s). length s)", goal_cases)
  case (2 d c cs)
  have "length (dropWhile (\<lambda>x. x \<noteq> d) (c # cs)) \<le> length (c # cs)" by (rule length_dropWhile_le)
  then show ?case by (simp del: dropWhile.simps)
qed simp

text \<open>The members of one row: the face's number and the numbers of its features.\<close>

fun feature_members :: "(string \<Rightarrow> 'f list) \<Rightarrow> (string \<times> db_cell) list \<Rightarrow> int \<times> 'f list \<Rightarrow> (int \<times> 'f list) option" where
  "feature_members parse [] acc = Some acc"
| "feature_members parse ((strKey, t) # ms) (s32FaceId, vec) =
     (if strKey = ''id'' then (case t of
          CInt i \<Rightarrow> if - (2 ^ 31) \<le> i \<and> i < 2 ^ 31 then feature_members parse ms (i, vec) else None
        | CText _ \<Rightarrow> None)
      else if strKey = ''ID_feature'' then (case t of
          CText s \<Rightarrow> feature_members parse ms
            (s32FaceId, vec @ concat (map parse (getlines CHR '':'' (c_str s))))
        | CInt _ \<Rightarrow> None)
      else feature_members parse ms (s32FaceId, vec))"

fun ReadFaceFeatureLst :: "(string \<Rightarrow> 'f list) \<Rightarrow> (string \<times> db_cell) list list \<Rightarrow>
    (int \<Rightarrow> 'f list option) \<Rightarrow> (int \<Rightarrow> 'f list option) option" where
  "ReadFaceFeatureLst parse [] mapFaceFeature = Some mapFaceFeature"
| "ReadFaceFeatureLst parse (row # doc) mapFaceFeature = do {
     (s32FaceId, vec) \<leftarrow> feature_members parse row (0, []);
     ReadFaceFeatureLst parse doc (if mapFaceFeature s32FaceId = None
       then mapFaceFeature(s32FaceId \<mapsto> vec) else mapFaceFeature)}"

section \<open>Configuration\<close>

definition FaceInit :: "(string \<Rightarrow> 'f list) \<Rightarrow> json \<Rightarrow> json \<Rightarrow> json list \<Rightarrow> reg_row table \<Rightarrow> CCommSafeFace \<Rightarrow>
    (bus_call list \<times> (int \<Rightarrow> 'f list option) \<times> CCommSafeFace) option" where
  "FaceInit parse jTaskCfg jAlgCfg vecDataSrc regs c = do {
     attach \<leftarrow> (if fc_has_bus c then Some []
       else do {
         t \<leftarrow> jtext ''type'' jTaskCfg;
         i \<leftarrow> jtext ''idx'' jTaskCfg;
         Some [BusAttach (AlgResultTopic t i)]});
     m \<leftarrow> insert_sources vecDataSrc (\<lambda>_. None);
     feats \<leftarrow> ReadFaceFeatureLst parse (map reg_doc (tb_rows regs)) (\<lambda>_. None);
     at \<leftarrow> jtext ''type'' jAlgCfg;
     ai \<leftarrow> jtext ''idx'' jAlgCfg;
     Some (attach @ [BusRequest (AlgCreateTopic at ai)], feats,
       \<lparr>fc_jTaskCfg = jTaskCfg, fc_jAlgCfg = jAlgCfg, fc_mapDataSrc = m, fc_has_bus = True\<rparr>)}"

section \<open>Results of the algorithm\<close>

definition FaceProResultMsg :: "string \<Rightarrow> string \<Rightarrow> string \<Rightarrow> int \<Rightarrow> CCommSafeFace \<Rightarrow>
    face_row table \<Rightarrow> face_row table option" where
  "FaceProResultMsg img now strIp faceid c t =
     (case fc_mapDataSrc c strIp of
        None \<Rightarrow> Some t
      | Some src \<Rightarrow>
          if \<not> fc_has_bus c then Some t
          else do {
            tt \<leftarrow> jtext ''type'' (fc_jTaskCfg c);
            ti \<leftarrow> jtext ''idx'' (fc_jTaskCfg c);
            st \<leftarrow> jtext ''type'' src;
            si \<leftarrow> jtext ''idx'' src;
            sd \<leftarrow> jtext ''desc'' src;
            Some (sql_insert \<lparr>fa_task_flag = c_str (tt @ ti), fa_alg_idx = c_str ''2'',
              fa_alert_type = c_str (to_string 1), fa_alert_date = c_str now,
              fa_data_src = c_str (st @ si @ '':'' @ sd), fa_face_id = c_str (to_string faceid),
              fa_face_img = c_str img\<rparr> (sql_trim s32FaceQueueSize t))})"

section \<open>Registration\<close>

text \<open>The two streams: the first feature of every picture that has one, and the picture's text.\<close>

fun register_loop :: "(string \<Rightarrow> string list) \<Rightarrow> string list \<Rightarrow> string \<times> string \<Rightarrow> string \<times> string" where
  "register_loop extract [] acc = acc"
| "register_loop extract (img # imgs) (streamFeature, streamFaceImg) =
     (if img = [] then register_loop extract imgs (streamFeature, streamFaceImg)
      else (case extract img of
          [] \<Rightarrow> register_loop extract imgs (streamFeature, streamFaceImg)
        | f # _ \<Rightarrow> register_loop extract imgs (streamFeature @ f @ '':'', streamFaceImg @ img @ '':'')))"

text \<open>The answer, the register, and the features sent to the algorithm, if they are.\<close>

definition FaceRegiste :: "(string \<Rightarrow> string list) \<Rightarrow> (string \<Rightarrow> 'f list) \<Rightarrow> string \<Rightarrow> string \<Rightarrow> string \<Rightarrow>
    string list \<Rightarrow> CCommSafeFace \<Rightarrow> reg_row table \<Rightarrow>
    (bool \<times> reg_row table \<times> (int \<Rightarrow> 'f list option) option) option" where
  "FaceRegiste extract parse strIDCard strIDName strWhiteName imgs c regs =
     (if imgs = [] \<or> \<not> fc_has_bus c then Some (False, regs, None)
      else (case register_loop extract imgs ([], []) of (feature, img) \<Rightarrow>
        if length feature = 0 then Some (False, regs, None)
        else (let regs' = sql_insert \<lparr>rr_card = c_str strIDCard, rr_name = c_str strIDName,
                  rr_feature = c_str feature, rr_img = c_str img, rr_white = c_str strWhiteName\<rparr> regs in do {
          feats \<leftarrow> ReadFaceFeatureLst parse (map reg_doc (tb_rows regs')) (\<lambda>_. None);
          at \<leftarrow> jtext ''type'' (fc_jAlgCfg c);
          ai \<leftarrow> jtext ''idx'' (fc_jAlgCfg c);
          Some (True, regs', Some feats)})))"

text \<open>The list of the registered faces: the first picture of each, and no features.\<close>

fun register_info_members :: "(string \<times> db_cell) list \<Rightarrow> json \<Rightarrow> json option" where
  "register_info_members [] jSubNode = Some jSubNode"
| "register_info_members ((strKey, t) # ms) jSubNode =
     (if strKey = [] then Some jSubNode
      else if strKey = ''id'' then (case t of
          CInt i \<Rightarrow> jset ''idx'' (JStr (to_string i)) jSubNode \<bind> register_info_members ms
        | CText _ \<Rightarrow> None)
      else (case t of
          CInt _ \<Rightarrow> None
        | CText strValue \<Rightarrow>
            if strKey = ''ID_img'' then (case getlines CHR '':'' strValue of
                [] \<Rightarrow> register_info_members ms jSubNode
              | strItem # _ \<Rightarrow> do {
                  j1 \<leftarrow> jset ''data'' (JStr strItem) JNull;
                  j2 \<leftarrow> jset ''idx'' (JStr ''0'') j1;
                  j3 \<leftarrow> jpush_at ''ID_img'' j2 jSubNode;
                  register_info_members ms j3})
            else if strKey = ''ID_feature''
            then jset strKey (JStr []) jSubNode \<bind> register_info_members ms
            else jset strKey (JStr strValue) jSubNode \<bind> register_info_members ms))"

fun register_info_rows :: "(string \<times> db_cell) list list \<Rightarrow> json \<Rightarrow> json option" where
  "register_info_rows [] jRspData = Some jRspData"
| "register_info_rows (row # rows) jRspData = do {
     j \<leftarrow> register_info_members row JNull;
     j' \<leftarrow> jpush j jRspData;
     register_info_rows rows j'}"

definition FaceRegisteInfo :: "reg_row table \<Rightarrow> json \<Rightarrow> json option" where
  "FaceRegisteInfo regs jRspData = register_info_rows (map reg_doc (tb_rows regs)) jRspData"

section \<open>Reports\<close>

definition FaceReportInfo :: "face_row table \<Rightarrow> json \<Rightarrow> json option" where
  "FaceReportInfo t jRspData = report_info (map fst (tb_rows t)) jRspData"

text \<open>
  The inner join with the register: the face's number is text in the alarm table and a number in
  the register, which the database compares as numbers; the text was made by \<open>to_string\<close>.
\<close>

definition join_doc :: "int \<times> face_row \<Rightarrow> reg_row \<Rightarrow> (string \<times> db_cell) list" where
  "join_doc = (\<lambda>(i, a) b. [(''id'', CInt i), (''task_flag'', CText (fa_task_flag a)),
     (''alg_idx'', CText (fa_alg_idx a)), (''alert_type'', CText (fa_alert_type a)),
     (''alert_date'', CText (fa_alert_date a)), (''data_src'', CText (fa_data_src a)),
     (''idx'', CText (fa_face_id a)), (''ID_img'', CText (fa_face_img a)),
     (''ID_card'', CText (rr_card b)), (''ID_name'', CText (rr_name b)),
     (''white_name'', CText (rr_white b))])"

definition find_face :: "string \<Rightarrow> (int \<times> reg_row) list \<Rightarrow> reg_row option" where
  "find_face face_id regs = map_option snd (find (\<lambda>(i, _). to_string i = face_id) regs)"

definition face_docs :: "reg_row table \<Rightarrow> face_row table \<Rightarrow> (int \<times> (string \<times> db_cell) list) list" where
  "face_docs regs t = List.map_filter (\<lambda>(i, a). map_option (\<lambda>b. (i, join_doc (i, a) b))
     (find_face (fa_face_id a) (tb_rows regs))) (tb_rows t)"

fun face_record_members :: "(string \<times> db_cell) list \<Rightarrow> json \<times> json \<Rightarrow> (json \<times> json) option" where
  "face_record_members [] acc = Some acc"
| "face_record_members ((strKey, t) # ms) (jRecord, jFaceInfo) =
     (if strKey = [] then Some (jRecord, jFaceInfo)
      else if strKey = ''id'' then (case t of
          CInt i \<Rightarrow> do {
            j \<leftarrow> jset ''idx'' (JStr (to_string i)) jRecord;
            face_record_members ms (j, jFaceInfo)}
        | CText _ \<Rightarrow> None)
      else (case t of
          CInt _ \<Rightarrow> None
        | CText strValue \<Rightarrow>
            if strKey \<in> {''task_flag'', ''alg_idx'', ''alert_type'', ''alert_date''} then do {
              j \<leftarrow> jset strKey (JStr strValue) jRecord;
              face_record_members ms (j, jFaceInfo)}
            else if strKey = ''data_src'' then do {
              j \<leftarrow> data_src_json strValue jRecord;
              face_record_members ms (j, jFaceInfo)}
            else do {
              j \<leftarrow> jset strKey (JStr strValue) jFaceInfo;
              face_record_members ms (jRecord, j)}))"

definition face_record :: "(string \<times> db_cell) list \<Rightarrow> json \<Rightarrow> json option" where
  "face_record row j = do {
     (jRecord, jFaceInfo) \<leftarrow> face_record_members row (j, JNull);
     jset ''face_info'' jFaceInfo jRecord}"

definition FaceReportResult :: "int \<Rightarrow> int \<Rightarrow> reg_row table \<times> face_row table \<Rightarrow> json list option" where
  "FaceReportResult s32StartIdx s32BatchSize = (\<lambda>(regs, t). do {
     rows \<leftarrow> batch_rows s32BatchSize (map snd (filter (\<lambda>(i, _). s32StartIdx \<le> i) (face_docs regs t)));
     records face_record rows})"

section \<open>The register as the algorithm sees it\<close>

definition features_of :: "(string \<Rightarrow> 'f list) \<Rightarrow> reg_row \<Rightarrow> 'f list" where
  "features_of parse r = concat (map parse (getlines CHR '':'' (c_str (rr_feature r))))"

lemma feature_members_reg:
  "feature_members parse (reg_doc (i, r)) (0, []) =
    (if - (2 ^ 31) \<le> i \<and> i < 2 ^ 31 then Some (i, features_of parse r) else None)"
  by (simp add: reg_doc_def features_of_def)

lemma ReadFaceFeatureLst_map:
  "ReadFaceFeatureLst parse (map reg_doc rs) m = Some m' \<Longrightarrow>
   m' k = (case m k of Some v \<Rightarrow> Some v | None \<Rightarrow> map_option (features_of parse) (map_of rs k))"
proof (induction rs arbitrary: m)
  case (Cons x rs)
  obtain i r where x: "x = (i, r)" by fastforce
  show ?case
    using Cons.prems Cons.IH [of "if m i = None then m(i \<mapsto> features_of parse r) else m"]
    by (auto simp: x feature_members_reg split: if_splits option.splits)
qed (simp split: option.split)

lemma getlines_step:
  "s \<noteq> [] \<Longrightarrow> getlines d s =
     takeWhile (\<lambda>x. x \<noteq> d) s # getlines d (tl (dropWhile (\<lambda>x. x \<noteq> d) s))"
  by (cases s) (simp, simp only: getlines.simps)

lemma getlines_terminated:
  "\<forall>f \<in> set fs. d \<notin> set f \<Longrightarrow> getlines d (concat (map (\<lambda>f. f @ [d]) fs)) = fs"
proof (induction fs)
  case (Cons f fs)
  let ?r = "concat (map (\<lambda>f. f @ [d]) fs)"
  have d: "takeWhile (\<lambda>x. x \<noteq> d) (f @ d # ?r) = f" "dropWhile (\<lambda>x. x \<noteq> d) (f @ d # ?r) = d # ?r"
    using Cons.prems by (auto simp: takeWhile_append dropWhile_append)
  have "getlines d (f @ d # ?r) = f # getlines d ?r"
    using getlines_step [of "f @ d # ?r" d] by (simp add: d del: takeWhile.simps dropWhile.simps)
  then show ?case using Cons by simp
qed simp

definition first_features :: "(string \<Rightarrow> string list) \<Rightarrow> string list \<Rightarrow> string list" where
  "first_features extract imgs = map (hd \<circ> extract) (filter (\<lambda>i. i \<noteq> [] \<and> extract i \<noteq> []) imgs)"

lemma register_loop_features:
  "fst (register_loop extract imgs (s, t)) =
     s @ concat (map (\<lambda>f. f @ '':'') (first_features extract imgs))"
proof (induction imgs arbitrary: s t)
  case (Cons img imgs)
  then show ?case
    by (cases "extract img") (auto simp: first_features_def)
qed (simp add: first_features_def)

text \<open>
  A registration reaches the algorithm: when it succeeds, the features sent to the algorithm
  are those of the whole register, and under the new face's number they are the numbers of the first
  feature of every picture that yielded one, in the order of the pictures (features are texts
  without the separator).
\<close>

theorem face_registered:
  assumes "FaceRegiste extract parse idc name white imgs c regs = Some (True, regs', Some feats)"
    and "table_ok regs"
    and "\<forall>f \<in> set (first_features extract imgs). \<forall>x \<in> set f. x \<noteq> CHR '':'' \<and> byte_of x \<noteq> 0"
  shows "feats k = map_option (features_of parse) (map_of (tb_rows regs') k) \<and>
    feats (tb_seq regs + 1) = Some (concat (map parse (first_features extract imgs)))"
proof -
  let ?f = "concat (map (\<lambda>f. f @ '':'') (first_features extract imgs))"
  obtain img where reg: "register_loop extract imgs ([], []) = (?f, img)"
    using register_loop_features [of "extract" imgs "[]" "[]"] by (metis append_Nil prod.collapse)
  let ?r = "\<lparr>rr_card = c_str idc, rr_name = c_str name, rr_feature = c_str ?f, rr_img = c_str img,
    rr_white = c_str white\<rparr>"
  have regs': "regs' = sql_insert ?r regs"
    and feats: "ReadFaceFeatureLst parse (map reg_doc (tb_rows regs')) (\<lambda>_. None) = Some feats"
    using assms(1) reg by (auto simp: FaceRegiste_def Let_def split: if_splits bind_splits)
  have k: "feats k = map_option (features_of parse) (map_of (tb_rows regs') k)" for k
    using ReadFaceFeatureLst_map [OF feats, of k] by simp
  have "map_of (tb_rows regs) (tb_seq regs + 1) = None"
    using assms(2) by (fastforce simp: table_ok_def map_of_eq_None_iff)
  then have new: "map_of (tb_rows regs') (tb_seq regs + 1) = Some ?r"
    by (simp add: regs' sql_insert_def map_add_def)
  have nonul: "\<forall>x \<in> set ?f. byte_of x \<noteq> 0"
    using assms(3) by (auto simp: byte_of_def)
  have "getlines CHR '':'' ?f = first_features extract imgs"
    using assms(3) by (intro getlines_terminated) auto
  then have "features_of parse ?r = concat (map parse (first_features extract imgs))"
    using nonul by (simp add: features_of_def)
  then show ?thesis
    using k new by simp
qed

section \<open>Alarms in batches\<close>

lemma set_map_filter: "y \<in> set (List.map_filter f xs) \<longleftrightarrow> (\<exists>x \<in> set xs. f x = Some y)"
  by (induction xs) (auto simp: List.map_filter_simps split: option.splits)

lemma length_map_filter: "length (List.map_filter f xs) = length (filter (\<lambda>x. f x \<noteq> None) xs)"
  by (induction xs) (auto simp: List.map_filter_simps split: option.splits)

lemma map_filter_sorted:
  fixes rs :: "(int \<times> 'r) list"
  assumes "sorted_wrt (<) (map fst rs)" "\<And>x y. f x = Some y \<Longrightarrow> fst y = fst x"
  shows "sorted_wrt (<) (map fst (List.map_filter f rs))"
  using assms(1)
proof (induction rs)
  case (Cons x xs)
  have "fst x < fst y" if y: "y \<in> set (List.map_filter f xs)" for y
  proof -
    obtain z where "z \<in> set xs" "f z = Some y" using y unfolding set_map_filter by blast
    then show ?thesis using Cons.prems assms(2) by auto
  qed
  then show ?case
    using Cons assms(2) [of x] by (auto simp: List.map_filter_simps split: option.split)
qed (simp add: List.map_filter_simps)

lemma face_record_key:
  "face_record (join_doc (i, a) b) JNull = Some j \<Longrightarrow> jtext ''idx'' j = Some (to_string i)"
  by (auto simp: face_record_def join_doc_def data_src_json_def jtext_def
      split: list.splits bind_splits)

interpretation face_reports: report_source
  "\<lambda>(regs, t). face_docs regs t" face_record FaceReportResult "\<lambda>(regs, t). table_ok t"
proof
  fix s :: "reg_row table \<times> face_row table" and k n i row j
  obtain regs t where s: "s = (regs, t)" by fastforce
  show "sorted_wrt (<) (map fst (case s of (regs, t) \<Rightarrow> face_docs regs t))"
    if "case s of (regs, t) \<Rightarrow> table_ok t"
    using that unfolding s face_docs_def
    by (auto simp: table_ok_def intro!: map_filter_sorted)
  show "FaceReportResult k n s = (case batch_rows n (map snd (filter (\<lambda>(i, _). k \<le> i)
      (case s of (regs, t) \<Rightarrow> face_docs regs t))) of None \<Rightarrow> None
      | Some rows \<Rightarrow> records face_record rows)"
    by (simp add: FaceReportResult_def s split: option.split)
  show "jtext ''idx'' j = Some (to_string i)"
    if "(i, row) \<in> set (case s of (regs, t) \<Rightarrow> face_docs regs t)" "face_record row JNull = Some j"
    using that face_record_key
    by (auto simp: s face_docs_def set_map_filter)
qed

definition registered :: "reg_row table \<Rightarrow> int \<times> face_row \<Rightarrow> bool" where
  "registered regs x \<longleftrightarrow> find_face (fa_face_id (snd x)) (tb_rows regs) \<noteq> None"

lemma face_docs_length: "length (face_docs regs t) = length (filter (registered regs) (tb_rows t))"
  unfolding face_docs_def length_map_filter registered_def by (simp add: case_prod_beta)

text \<open>
  The two face reports disagree about alarms of faces that are no longer (or never were) in the
  register: the information request counts all rows of the alarm table, but a batch holds only
  those whose face is registered, so a client that pages until it has the announced number of
  records never gets there.
\<close>

theorem face_info_counts_unregistered:
  assumes "FaceReportInfo t JNull = Some j"
    and "FaceReportResult k n (regs, t) = Some page"
  shows "jtext ''total_size'' j = Some (to_string (int (length (tb_rows t)))) \<and>
    length page + length (filter (\<lambda>x. \<not> registered regs x) (tb_rows t)) \<le> length (tb_rows t)"
proof -
  have "jtext ''total_size'' j = Some (to_string (int (length (tb_rows t))))"
    using assms(1) by (auto simp: FaceReportInfo_def report_info_def Let_def jtext_def)
  moreover have "length page \<le> length (face_docs regs t)"
  proof -
    let ?R = "map snd (filter (\<lambda>(i, _). k \<le> i) (face_docs regs t))"
    have "length page \<le> length ?R"
      using assms(2) by (auto simp: FaceReportResult_def batch_rows_def Let_def
          split: bind_splits if_splits dest!: records_length)
    also have "\<dots> \<le> length (face_docs regs t)" unfolding length_map by (rule length_filter_le)
    finally show ?thesis .
  qed
  ultimately show ?thesis
    using sum_length_filter_compl [of "registered regs" "tb_rows t"] by (simp add: face_docs_length)
qed

text \<open>Paging works for the face alarms as for the detection alarms.\<close>

lemma face_paging:
  assumes "table_ok t" "0 < n" "int (length (face_docs regs t)) \<le> N"
    and "FaceReportResult k N (regs, t) = Some al"
    and "FaceReportResult k n (regs, t) = Some page" "int (length page) = n"
    and "jtext ''idx'' (last page) = Some (to_string l)"
  shows "\<exists>rest. FaceReportResult (l + 1) N (regs, t) = Some rest \<and> al = page @ rest"
  using face_reports.next_page [of "(regs, t)" n N k al page l] assms by simp

definition demo_face :: CCommSafeFace where
  "demo_face = \<lparr>fc_jTaskCfg = JObj [(''type'', JStr ''face''), (''idx'', JStr ''1'')],
     fc_jAlgCfg = JObj [(''type'', JStr ''face''), (''idx'', JStr ''1'')],
     fc_mapDataSrc = (\<lambda>_. None), fc_has_bus = True\<rparr>"

theorem face_registered_witness:
  "\<exists>regs' feats. FaceRegiste (\<lambda>p. [p @ ''1'', p @ ''2'']) (\<lambda>s. [s]) ''7'' ''Li'' ''yes'' [''a'', [], ''b'']
     demo_face empty_table = Some (True, regs', Some feats) \<and> feats 1 = Some [''a1'', ''b1'']"
proof -
  let ?ex = "\<lambda>p. [p @ ''1'', p @ ''2'']" and ?imgs = "[''a'', [], ''b'']"
  have "\<exists>regs' feats. FaceRegiste ?ex (\<lambda>s. [s]) ''7'' ''Li'' ''yes'' ?imgs demo_face empty_table =
      Some (True, regs', Some feats)"
    by (simp add: FaceRegiste_def demo_face_def Let_def empty_table_def sql_insert_def
        feature_members_reg jtext_def)
  then obtain regs' feats where r: "FaceRegiste ?ex (\<lambda>s. [s]) ''7'' ''Li'' ''yes'' ?imgs demo_face
      empty_table = Some (True, regs', Some feats)" by blast
  have "first_features ?ex ?imgs = [''a1'', ''b1'']" by (simp add: first_features_def)
  then have "feats 1 = Some [''a1'', ''b1'']"
    using conjunct2 [OF face_registered [OF r empty_table_ok]]
    by (simp add: byte_of_def empty_table_def)
  then show ?thesis using r by blast
qed

theorem face_info_counts_unregistered_witness:
  "\<exists>j. FaceReportInfo \<lparr>tb_rows = [(1, \<lparr>fa_task_flag = [], fa_alg_idx = [], fa_alert_type = [],
       fa_alert_date = [], fa_data_src = [], fa_face_id = ''9'', fa_face_img = []\<rparr>)], tb_seq = 1\<rparr> JNull =
       Some j \<and> jtext ''total_size'' j = Some (to_string 1) \<and>
     FaceReportResult 0 10 (empty_table, \<lparr>tb_rows = [(1, \<lparr>fa_task_flag = [], fa_alg_idx = [],
       fa_alert_type = [], fa_alert_date = [], fa_data_src = [], fa_face_id = ''9'', fa_face_img = []\<rparr>)],
       tb_seq = 1\<rparr>) = Some []"
proof -
  let ?t = "\<lparr>tb_rows = [(1, \<lparr>fa_task_flag = [], fa_alg_idx = [], fa_alert_type = [],
       fa_alert_date = [], fa_data_src = [], fa_face_id = ''9'', fa_face_img = []\<rparr>)], tb_seq = 1\<rparr>"
  obtain j where j: "FaceReportInfo ?t JNull = Some j"
    by (simp add: FaceReportInfo_def report_info_def Let_def)
  have page: "FaceReportResult 0 10 (empty_table, ?t) = Some []"
    by (simp add: FaceReportResult_def face_docs_def find_face_def empty_table_def
        List.map_filter_simps batch_rows_def)
  show ?thesis
    using face_info_counts_unregistered [OF j page] j page by simp
qed

end
