(* ===== verification/CommSafeMng.thy ===== *)
theory CommSafeMng
  imports CommSafeFace
begin

text \<open>
  The manager of the safety application (app/CommSafe/CommSafeMng.cpp): it creates the detection and
  face tasks of a configuration and answers the requests that arrive over TCP. Parsing a
  request's JSON is an argument, as are the feature operations of the face task; the reply is the
  JSON value before it is printed.
\<close>

section \<open>State\<close>

record CCommSafeMng =
  cs_has_bus :: bool
  m_mapDetectShrPtr :: "CCommSafeDetect smap"
  m_mapFaceShrPtr :: "CCommSafeFace smap"

text \<open>The three tables of the database the application works on.\<close>

record safe_db =
  db_detect :: "detect_row table"
  db_regs :: "reg_row table"
  db_faces :: "face_row table"

section \<open>Creating the tasks\<close>

definition AlgInit :: "'a \<Rightarrow> ('a \<Rightarrow> ('b \<times> 'a) option) \<Rightarrow> string \<Rightarrow> 'a smap \<Rightarrow> ('b \<times> 'a smap) option" where
  "AlgInit new init strKey m = (let m1 = (if map_of m strKey = None then smap_insert strKey new m else m) in do {
     a \<leftarrow> map_of m1 strKey;
     (out, a') \<leftarrow> init a;
     Some (out, smap_set strKey a' m1)})"

datatype alg_kind = DetectKind | ActionKind | FaceKind

definition alg_kind_of :: "string \<Rightarrow> alg_kind" where
  "alg_kind_of strAlgIdx = (if strAlgIdx = ''detect1'' then DetectKind
     else if strAlgIdx = ''action1'' then ActionKind else FaceKind)"

text \<open>One task of the list: what is called on the bus, and the manager.\<close>

definition init_task :: "(string \<Rightarrow> 'f list) \<Rightarrow> reg_row table \<Rightarrow> json \<times> json \<times> json list \<Rightarrow>
    CCommSafeMng \<Rightarrow> (bus_call list \<times> CCommSafeMng) option" where
  "init_task parse regs = (\<lambda>(taskCfg, algCfg, vecDataSrc) s. do {
     at \<leftarrow> jtext ''type'' algCfg;
     ai \<leftarrow> jtext ''idx'' algCfg;
     tt \<leftarrow> jtext ''type'' taskCfg;
     ti \<leftarrow> jtext ''idx'' taskCfg;
     (case alg_kind_of (at @ ai) of
        DetectKind \<Rightarrow> do {
          (calls, m) \<leftarrow> AlgInit new_CCommSafeDetect (DetectInit taskCfg algCfg vecDataSrc)
            (tt @ ti) (m_mapDetectShrPtr s);
          Some (calls, s\<lparr>m_mapDetectShrPtr := m\<rparr>)}
      | ActionKind \<Rightarrow> Some ([], s)
      | FaceKind \<Rightarrow> do {
          (calls, m) \<leftarrow> AlgInit new_CCommSafeFace
            (\<lambda>c. map_option (\<lambda>(calls, _, c'). (calls, c'))
               (FaceInit parse taskCfg algCfg vecDataSrc regs c))
            (tt @ ti) (m_mapFaceShrPtr s);
          Some (calls, s\<lparr>m_mapFaceShrPtr := m\<rparr>)})})"

fun init_tasks :: "(string \<Rightarrow> 'f list) \<Rightarrow> reg_row table \<Rightarrow> (json \<times> json \<times> json list) list \<Rightarrow>
    CCommSafeMng \<Rightarrow> (bus_call list \<times> CCommSafeMng) option" where
  "init_tasks parse regs [] s = Some ([], s)"
| "init_tasks parse regs (val # lstTaskCfg) s = do {
     (calls, s1) \<leftarrow> init_task parse regs val s;
     (calls', s2) \<leftarrow> init_tasks parse regs lstTaskCfg s1;
     Some (calls @ calls', s2)}"

definition InitParams :: "(string \<Rightarrow> 'f list) \<Rightarrow> reg_row table \<Rightarrow> json \<Rightarrow> (json \<times> json \<times> json list) list \<Rightarrow>
    CCommSafeMng \<Rightarrow> (bool \<times> bus_call list \<times> CCommSafeMng) option" where
  "InitParams parse regs southCfg lstTaskCfg s = do {
     attach \<leftarrow> (if cs_has_bus s then Some []
       else map_option (\<lambda>p. [BusAttach (TcpSrvRecMsgTopic p)]) (jtext ''port'' southCfg));
     (calls, s') \<leftarrow> init_tasks parse regs lstTaskCfg (s\<lparr>cs_has_bus := True\<rparr>);
     Some (True, attach @ calls, s')}"

section \<open>Reports\<close>

text \<open>
  The generic functions: the first task of the map answers; \<open>info\<close> and \<open>result\<close> are its
  \<open>ReportInfo\<close> and \<open>ReportResult\<close>.
\<close>

definition MngReportInfo :: "'a smap \<Rightarrow> (json \<Rightarrow> json option) \<Rightarrow> json \<Rightarrow> json option" where
  "MngReportInfo mapShrPtr info jRspData = (if mapShrPtr = [] then do {
       j1 \<leftarrow> jset ''start_idx'' (JStr (to_string 0)) jRspData;
       j2 \<leftarrow> jset ''end_idx'' (JStr (to_string (-1))) j1;
       jset ''total_size'' (JStr (to_string 0)) j2}
     else info jRspData)"

fun push_records :: "json list \<Rightarrow> json \<Rightarrow> json option" where
  "push_records [] jRspData = Some jRspData"
| "push_records (r # rs) jRspData = jpush_at ''record'' r jRspData \<bind> push_records rs"

definition MngReportBatch :: "(string \<Rightarrow> json option) \<Rightarrow> 'a smap \<Rightarrow> (int \<Rightarrow> int \<Rightarrow> json list option) \<Rightarrow>
    string \<Rightarrow> json \<Rightarrow> json option" where
  "MngReportBatch parse_json mapShrPtr result strReq jRspData =
     (if mapShrPtr = [] then Some jRspData
      else do {
        jReqData \<leftarrow> parse_json strReq;
        s \<leftarrow> jtext ''start_idx'' jReqData;
        s32ReqStartIdx \<leftarrow> atoi s;
        b \<leftarrow> jtext ''batch_size'' jReqData;
        s32ReqBatchSize \<leftarrow> atoi b;
        vecResult \<leftarrow> result s32ReqStartIdx s32ReqBatchSize;
        if vecResult = [] then Some jRspData
        else do {
          i0 \<leftarrow> jtext ''idx'' (hd vecResult);
          i1 \<leftarrow> jtext ''idx'' (last vecResult);
          j1 \<leftarrow> jset ''start_idx'' (JStr i0) jRspData;
          j2 \<leftarrow> jset ''end_idx'' (JStr i1) j1;
          j3 \<leftarrow> jset ''batch_size'' (JStr (to_string (int (length vecResult)))) j2;
          push_records vecResult j3}})"

section \<open>Registration\<close>

fun image_texts :: "json list \<Rightarrow> string list option" where
  "image_texts [] = Some []"
| "image_texts (v # vs) = do {
     s \<leftarrow> jtext ''data'' v;
     ss \<leftarrow> image_texts vs;
     Some (s # ss)}"

text \<open>\<open>bCfgTool\<close> is a parameter of the handler.\<close>

definition MngFaceRegiste :: "(string \<Rightarrow> json option) \<Rightarrow> (string \<Rightarrow> string list) \<Rightarrow> (string \<Rightarrow> 'f list) \<Rightarrow>
    CCommSafeFace smap \<Rightarrow> string \<Rightarrow> bool \<Rightarrow> json \<Rightarrow> reg_row table \<Rightarrow> (json \<times> reg_row table) option" where
  "MngFaceRegiste parse_json extr parse mapFace strReq bCfgTool jRspData regs =
     (case mapFace of
        [] \<Rightarrow> map_option (\<lambda>j. (j, regs)) (jset ''result'' (JStr ''fail'') jRspData)
      | (k, c) # _ \<Rightarrow> do {
          jReqData \<leftarrow> parse_json strReq;
          idc \<leftarrow> jtext ''ID_card'' jReqData;
          idn \<leftarrow> jtext ''ID_name'' jReqData;
          white \<leftarrow> jtext ''white_name'' jReqData;
          imgs \<leftarrow> image_texts (jvalues (jget ''ID_img'' jReqData));
          (ok, regs', _) \<leftarrow> FaceRegiste extr parse idc idn white imgs c regs;
          j \<leftarrow> jset ''result'' (JStr (if ok then ''ok'' else ''fail'')) jRspData;
          Some (j, regs')})"

definition MngFaceRegisteInfo :: "CCommSafeFace smap \<Rightarrow> reg_row table \<Rightarrow> json \<Rightarrow> json option" where
  "MngFaceRegisteInfo mapFace regs jRspData =
     (if mapFace = [] then Some jRspData else FaceRegisteInfo regs jRspData)"

section \<open>The handler of the requests\<close>

text \<open>
  \<open>pData\<close> is a pointer; the result is the reply, if one is sent, and the database.
\<close>

definition RecTcpProtocolMsg :: "(string \<Rightarrow> json option) \<Rightarrow> (string \<Rightarrow> string list) \<Rightarrow> (string \<Rightarrow> 'f list) \<Rightarrow>
    int \<Rightarrow> string option \<Rightarrow> CCommSafeMng \<Rightarrow> safe_db \<Rightarrow> (json option \<times> safe_db) option" where
  "RecTcpProtocolMsg parse_json extr parse u32Cmd pData s db = (case pData of
     None \<Rightarrow> Some (None, db)
   | Some strReqJson \<Rightarrow> do {
       answer \<leftarrow>
         (if u32Cmd = 0x41 then map_option (\<lambda>j. Some (j, db))
            (MngReportInfo (m_mapDetectShrPtr s) (DetectReportInfo (db_detect db)) JNull)
          else if u32Cmd = 0x42 then map_option (\<lambda>j. Some (j, db))
            (MngReportBatch parse_json (m_mapDetectShrPtr s)
               (\<lambda>k n. DetectReportResult k n (db_detect db)) strReqJson JNull)
          else if u32Cmd = 0x71 then map_option (\<lambda>(j, regs). Some (j, db\<lparr>db_regs := regs\<rparr>))
            (MngFaceRegiste parse_json extr parse (m_mapFaceShrPtr s) strReqJson False JNull (db_regs db))
          else if u32Cmd = 0x72 then map_option (\<lambda>(j, regs). Some (j, db\<lparr>db_regs := regs\<rparr>))
            (MngFaceRegiste parse_json extr parse (m_mapFaceShrPtr s) strReqJson True JNull (db_regs db))
          else if u32Cmd = 0x73 then map_option (\<lambda>j. Some (j, db))
            (MngFaceRegisteInfo (m_mapFaceShrPtr s) (db_regs db) JNull)
          else if u32Cmd = 0x74 then map_option (\<lambda>j. Some (j, db))
            (MngReportInfo (m_mapFaceShrPtr s) (FaceReportInfo (db_faces db)) JNull)
          else if u32Cmd = 0x75 then map_option (\<lambda>j. Some (j, db))
            (MngReportBatch parse_json (m_mapFaceShrPtr s)
               (\<lambda>k n. FaceReportResult k n (db_regs db, db_faces db)) strReqJson JNull)
          else Some None);
       (case answer of
          None \<Rightarrow> Some (None, db)
        | Some (j, db') \<Rightarrow> Some (if cs_has_bus s then Some j else None, db'))})"

section \<open>Replies\<close>

lemma push_records_eq:
  assumes "map_of m ''record'' = None" "rs \<noteq> []"
  shows "push_records rs (JObj m) = Some (JObj (AList.update ''record'' (JArr rs) m))"
proof -
  have more: "push_records qs (JObj (AList.update ''record'' (JArr ps) m)) =
      Some (JObj (AList.update ''record'' (JArr (ps @ qs)) m))" for ps qs
  proof (induction qs arbitrary: ps)
    case (Cons q qs)
    have "jpush_at ''record'' q (JObj (AList.update ''record'' (JArr ps) m)) =
        Some (JObj (AList.update ''record'' (JArr (ps @ [q])) m))"
      by (simp add: jpush_at_def jpush_def update_conv')
    then show ?case using Cons.IH [of "ps @ [q]"] by simp
  qed simp
  obtain r rs' where rs: "rs = r # rs'" using assms(2) by (cases rs) auto
  have "jpush_at ''record'' r (JObj m) = Some (JObj (AList.update ''record'' (JArr [r]) m))"
    using assms(1) by (simp add: jpush_at_def jpush_def)
  then show ?thesis using more [of rs' "[r]"] by (simp add: rs)
qed

lemma MngReportBatch_reply:
  assumes "m \<noteq> []" "parse_json req = Some (JObj [(''start_idx'', JStr (to_string k)),
      (''batch_size'', JStr (to_string n))])"
    and "- (2 ^ 31) \<le> k" "k < 2 ^ 31" "- (2 ^ 31) \<le> n" "n < 2 ^ 31"
    and "result k n = Some page" "page \<noteq> []"
    and "jtext ''idx'' (hd page) = Some i0" "jtext ''idx'' (last page) = Some i1"
  shows "MngReportBatch parse_json m result req JNull = Some (JObj [(''start_idx'', JStr i0),
    (''end_idx'', JStr i1), (''batch_size'', JStr (to_string (int (length page)))),
    (''record'', JArr page)])"
  using assms by (simp add: MngReportBatch_def jtext_def [of "''start_idx''"]
      jtext_def [of "''batch_size''"] atoi_to_string push_records_eq)

text \<open>
  C31. What a client gets for a batch request: when the application runs a detection task and the
  request asks for \<open>n\<close> alarms from key \<open>k\<close> on, the reply holds exactly the records of the
  batch, their number, and the keys of the first and the last of them, and nothing else; the
  database stays as it is.
\<close>

theorem batch_request_reply:
  assumes "m_mapDetectShrPtr s \<noteq> []" and "cs_has_bus s" and "table_ok (db_detect db)"
    and "parse_json req = Some (JObj [(''start_idx'', JStr (to_string k)),
      (''batch_size'', JStr (to_string n))])"
    and "- (2 ^ 31) \<le> k" "k < 2 ^ 31" "- (2 ^ 31) \<le> n" "n < 2 ^ 31"
    and "DetectReportResult k n (db_detect db) = Some page" and "page \<noteq> []"
  shows "\<exists>i0 i1. RecTcpProtocolMsg parse_json extr parse 0x42 (Some req) s db =
      Some (Some (JObj [(''start_idx'', JStr (to_string i0)), (''end_idx'', JStr (to_string i1)),
        (''batch_size'', JStr (to_string (int (length page)))), (''record'', JArr page)]), db) \<and>
    jtext ''idx'' (hd page) = Some (to_string i0) \<and> jtext ''idx'' (last page) = Some (to_string i1) \<and>
    k \<le> i0 \<and> i0 \<le> i1 \<and> int (length page) \<le> n"
proof -
  let ?R = "filter (\<lambda>(i, _). k \<le> i) (tb_rows (db_detect db))"
  obtain m where m: "records detect_record (take m (map detect_doc ?R)) = Some page"
    using assms(9) batch_rows_take
    by (fastforce simp: DetectReportResult_def sql_from_def split: bind_splits)
  have len: "length page = min m (length ?R)" using records_length [OF m] by simp
  moreover have "0 < length page" using assms(10) by simp
  ultimately have pos: "0 < m" "0 < length ?R" by linarith+
  let ?l = "length page - 1"
  have nth: "detect_record (detect_doc (?R ! i)) JNull = Some (page ! i)" if "i < length page" for i
    using records_nth [OF m, of i] that len by simp
  have key: "jtext ''idx'' (page ! i) = Some (to_string (fst (?R ! i)))" if "i < length page" for i
    using detect_record_key [of "fst (?R ! i)" "snd (?R ! i)"] nth [OF that] by simp
  have hd: "jtext ''idx'' (hd page) = Some (to_string (fst (?R ! 0)))"
    using key [of 0] assms(10) by (simp add: hd_conv_nth)
  have last: "jtext ''idx'' (last page) = Some (to_string (fst (?R ! ?l)))"
    using key [of ?l] assms(10) by (simp add: last_conv_nth)
  have "?R ! 0 \<in> set ?R" using pos by (intro nth_mem) simp
  then have k: "k \<le> fst (?R ! 0)" by auto
  have "sorted_wrt (<) (map fst ?R)"
    using assms(3) by (simp add: table_ok_def sorted_wrt_map sorted_wrt_filter)
  then have "fst (?R ! 0) \<le> fst (?R ! ?l)"
    using len pos(2) by (intro sorted_keys_nth) (assumption, simp, linarith)
  moreover have "int (length page) \<le> n"
    using detect_reports.batch_length [OF assms(9)] .
  moreover have "MngReportBatch parse_json (m_mapDetectShrPtr s)
      (\<lambda>k n. DetectReportResult k n (db_detect db)) req JNull = Some (JObj [(''start_idx'',
        JStr (to_string (fst (?R ! 0)))), (''end_idx'', JStr (to_string (fst (?R ! ?l)))),
        (''batch_size'', JStr (to_string (int (length page)))), (''record'', JArr page)])"
    by (rule MngReportBatch_reply [where k = k and n = n]) (use assms hd last in simp_all)
  ultimately show ?thesis
    using hd last k assms(2)
    by (intro exI [of _ "fst (?R ! 0)"] exI [of _ "fst (?R ! ?l)"]) (simp add: RecTcpProtocolMsg_def)
qed

text \<open>
  The requests do what their numbers say and nothing else: a number that is not one of the
  seven gets no answer and has no effect, only the two registrations can change the database
  (and only the register), and the two registrations are one and the same request, whichever
  end they come from.
\<close>

theorem requests_separated:
  "(u32Cmd \<notin> {0x41, 0x42, 0x71, 0x72, 0x73, 0x74, 0x75} \<longrightarrow>
      RecTcpProtocolMsg pj extr parse u32Cmd pData s db = Some (None, db)) \<and>
   (RecTcpProtocolMsg pj extr parse u32Cmd pData s db = Some (r, db') \<longrightarrow>
      db_detect db' = db_detect db \<and> db_faces db' = db_faces db \<and>
      (u32Cmd \<notin> {0x71, 0x72} \<longrightarrow> db' = db)) \<and>
   RecTcpProtocolMsg pj extr parse 0x71 pData s db = RecTcpProtocolMsg pj extr parse 0x72 pData s db"
proof (intro conjI)
  show "u32Cmd \<notin> {0x41, 0x42, 0x71, 0x72, 0x73, 0x74, 0x75} \<longrightarrow>
      RecTcpProtocolMsg pj extr parse u32Cmd pData s db = Some (None, db)"
    by (simp add: RecTcpProtocolMsg_def split: option.split)
  show "RecTcpProtocolMsg pj extr parse 0x71 pData s db =
      RecTcpProtocolMsg pj extr parse 0x72 pData s db"
    by (simp add: RecTcpProtocolMsg_def MngFaceRegiste_def split: option.split)
  show "RecTcpProtocolMsg pj extr parse u32Cmd pData s db = Some (r, db') \<longrightarrow>
      db_detect db' = db_detect db \<and> db_faces db' = db_faces db \<and>
      (u32Cmd \<notin> {0x71, 0x72} \<longrightarrow> db' = db)"
  proof (cases pData)
    case (Some req)
    consider "u32Cmd \<in> {0x71, 0x72}" | "u32Cmd \<in> {0x41, 0x42, 0x73, 0x74, 0x75}"
      | "u32Cmd \<notin> {0x41, 0x42, 0x71, 0x72, 0x73, 0x74, 0x75}" by blast
    then show ?thesis
    proof cases
      case 1
      then show ?thesis
        by (elim insertE emptyE)
          (auto simp: RecTcpProtocolMsg_def Some case_prod_beta split: bind_splits option.splits)
    next
      case 2
      then show ?thesis
        by (elim insertE emptyE)
          (auto simp: RecTcpProtocolMsg_def Some split: bind_splits option.splits)
    qed (simp add: RecTcpProtocolMsg_def Some)
  qed (simp add: RecTcpProtocolMsg_def)
qed

theorem requests_separated_witness:
  "RecTcpProtocolMsg (\<lambda>_. None) (\<lambda>_. []) (\<lambda>_. [] :: nat list) 0x43 (Some ''{}'')
     \<lparr>cs_has_bus = True, m_mapDetectShrPtr = [], m_mapFaceShrPtr = []\<rparr>
     \<lparr>db_detect = empty_table, db_regs = empty_table, db_faces = empty_table\<rparr> =
   Some (None, \<lparr>db_detect = empty_table, db_regs = empty_table, db_faces = empty_table\<rparr>)"
  by (rule conjunct1 [OF requests_separated, THEN mp]) simp

theorem batch_request_reply_witness:
  "\<exists>i0 i1 page. RecTcpProtocolMsg
      (\<lambda>_. Some (JObj [(''start_idx'', JStr (to_string 0)), (''batch_size'', JStr (to_string 1))]))
      (\<lambda>_. []) (\<lambda>_. [] :: nat list) 0x42 (Some ''request'')
      \<lparr>cs_has_bus = True, m_mapDetectShrPtr = [(''detect1'', demo_task)], m_mapFaceShrPtr = []\<rparr>
      \<lparr>db_detect = demo_table, db_regs = empty_table, db_faces = empty_table\<rparr> =
     Some (Some (JObj [(''start_idx'', JStr (to_string i0)), (''end_idx'', JStr (to_string i1)),
       (''batch_size'', JStr (to_string (int (length page)))), (''record'', JArr page)]),
       \<lparr>db_detect = demo_table, db_regs = empty_table, db_faces = empty_table\<rparr>) \<and> length page = 1"
proof -
  let ?s = "\<lparr>cs_has_bus = True, m_mapDetectShrPtr = [(''detect1'', demo_task)], m_mapFaceShrPtr = []\<rparr>"
  let ?db = "\<lparr>db_detect = demo_table, db_regs = empty_table, db_faces = empty_table\<rparr>"
  let ?pj = "\<lambda>_ :: string. Some (JObj [(''start_idx'', JStr (to_string 0)), (''batch_size'', JStr (to_string 1))])"
  obtain j where j: "detect_record (detect_doc (hd (tb_rows demo_table))) JNull = Some j"
    using detect_record_total by (metis surj_pair)
  then have page: "DetectReportResult 0 1 demo_table = Some [j]"
    by (simp add: DetectReportResult_def batch_rows_def sql_from_def demo_table_def)
  have ok: "table_ok demo_table" by (simp add: table_ok_def demo_table_def)
  have "\<exists>i0 i1. RecTcpProtocolMsg ?pj (\<lambda>_. []) (\<lambda>_. [] :: nat list) 0x42 (Some ''request'') ?s ?db =
      Some (Some (JObj [(''start_idx'', JStr (to_string i0)), (''end_idx'', JStr (to_string i1)),
        (''batch_size'', JStr (to_string (int (length [j])))), (''record'', JArr [j])]), ?db) \<and>
    jtext ''idx'' (hd [j]) = Some (to_string i0) \<and> jtext ''idx'' (last [j]) = Some (to_string i1) \<and>
    0 \<le> i0 \<and> i0 \<le> i1 \<and> int (length [j]) \<le> 1"
    by (rule batch_request_reply [of ?s ?db ?pj "''request''" 0 1 "[j]" "\<lambda>_. []" "\<lambda>_. [] :: nat list"])
      (simp_all add: ok page)
  then obtain i0 i1 where "RecTcpProtocolMsg ?pj (\<lambda>_. []) (\<lambda>_. [] :: nat list) 0x42 (Some ''request'') ?s ?db =
      Some (Some (JObj [(''start_idx'', JStr (to_string i0)), (''end_idx'', JStr (to_string i1)),
        (''batch_size'', JStr (to_string (int (length [j])))), (''record'', JArr [j])]), ?db)"
    by blast
  then show ?thesis by (intro exI [of _ i0] exI [of _ i1] exI [of _ "[j]"]) simp
qed

section \<open>The maps of tasks\<close>

lemma AlgInit_ok: "AlgInit new init k m = Some (out, m') \<Longrightarrow> smap_ok m \<Longrightarrow> smap_ok m'"
  using smap_insert_ok
  by (fastforce simp: AlgInit_def Let_def smap_ok_def smap_set_keys split: bind_splits if_splits)

lemma init_task_ok:
  assumes st: "init_task parse regs v s = Some (calls, s')"
    and ok: "smap_ok (m_mapDetectShrPtr s)" "smap_ok (m_mapFaceShrPtr s)"
  shows "smap_ok (m_mapDetectShrPtr s') \<and> smap_ok (m_mapFaceShrPtr s')"
proof -
  obtain taskCfg algCfg srcs where v: "v = (taskCfg, algCfg, srcs)" by (metis prod_cases3)
  obtain at ai tt ti where t: "jtext ''type'' algCfg = Some at" "jtext ''idx'' algCfg = Some ai"
    "jtext ''type'' taskCfg = Some tt" "jtext ''idx'' taskCfg = Some ti"
    using st by (auto simp: init_task_def v split: bind_splits)
  show ?thesis
  proof (cases "alg_kind_of (at @ ai)")
    case DetectKind
    then obtain m where "AlgInit new_CCommSafeDetect (DetectInit taskCfg algCfg srcs) (tt @ ti)
        (m_mapDetectShrPtr s) = Some (calls, m)" "s' = s\<lparr>m_mapDetectShrPtr := m\<rparr>"
      using st t by (auto simp: init_task_def v split: bind_splits)
    then show ?thesis using ok AlgInit_ok by fastforce
  next
    case ActionKind
    then show ?thesis using st t ok by (simp add: init_task_def v)
  next
    case FaceKind
    then obtain init m where "AlgInit new_CCommSafeFace init (tt @ ti) (m_mapFaceShrPtr s) =
        Some (calls, m)" "s' = s\<lparr>m_mapFaceShrPtr := m\<rparr>"
      using st t by (auto simp: init_task_def v split: bind_splits)
    then show ?thesis using ok AlgInit_ok by fastforce
  qed
qed

lemma init_tasks_ok:
  "init_tasks parse regs vs s = Some (calls, s') \<Longrightarrow>
   smap_ok (m_mapDetectShrPtr s) \<Longrightarrow> smap_ok (m_mapFaceShrPtr s) \<Longrightarrow>
   smap_ok (m_mapDetectShrPtr s') \<and> smap_ok (m_mapFaceShrPtr s')"
proof (induction vs arbitrary: s calls)
  case (Cons v vs)
  then show ?case
    using init_task_ok [of parse regs v s] by (fastforce split: bind_splits)
qed simp



end
