(* ===== verification/DetectAlg.thy ===== *)
theory DetectAlg
  imports DetectDecode SouthTransfer CommSafeMng "HOL-Library.Multiset"
begin

text \<open>
  The detection algorithm and its manager (alg/VisionAlgModule/detection/DetectAlg.cpp, DetectAlgMng.cpp,
  rknn/rknn.h): the objects made for the data sources of a task, the models they load, the pictures they
  subscribe to and the results they report. The network runtime, the resize and the floating-point
  operations are arguments. \<^term>\<open>None\<close> is an exception that nobody catches, or undefined behaviour.
\<close>

section \<open>The algorithm object\<close>

text \<open>The report topics, the topic of every address it reads from, and the contexts of its models.\<close>

record 'c CDetectAlg =
  m_mapResultReportTopic :: "int smap"
  m_mapDataSrcTopic :: "string smap"
  m_mapAlgModel :: "'c smap"

definition new_CDetectAlg :: "'c CDetectAlg" where
  "new_CDetectAlg = \<lparr>m_mapResultReportTopic = [], m_mapDataSrcTopic = [], m_mapAlgModel = []\<rparr>"

text \<open>The runtime: whether a model file can be read, and the initialisation of a context from it.\<close>

record 'c rknn =
  rk_readable :: "string \<Rightarrow> bool"
  rk_init :: "string \<Rightarrow> 'c \<Rightarrow> int \<times> 'c"
  rk_junk :: 'c

definition model_load :: "'c rknn \<Rightarrow> string \<Rightarrow> 'c \<Rightarrow> bool \<times> 'c" where
  "model_load rk strPath rkContext = (if \<not> rk_readable rk strPath then (False, rkContext)
     else (let (ret, ctx) = rk_init rk strPath rkContext in (0 \<le> ret, ctx)))"

definition SetReportTopic :: "string \<Rightarrow> 'c CDetectAlg \<Rightarrow> 'c CDetectAlg" where
  "SetReportTopic strTopicKey a =
     (if map_of (m_mapResultReportTopic a) strTopicKey = None
      then a\<lparr>m_mapResultReportTopic := smap_insert strTopicKey 0 (m_mapResultReportTopic a)\<rparr> else a)"

text \<open>A new context is not initialised before the model is loaded into it.\<close>

definition DetectAlgInit :: "'c rknn \<Rightarrow> json \<Rightarrow> 'c CDetectAlg \<Rightarrow> (bool \<times> 'c CDetectAlg) option" where
  "DetectAlgInit rk algCfg a = do {
     t \<leftarrow> jtext ''type'' algCfg;
     i \<leftarrow> jtext ''idx'' algCfg;
     let strAlgMapKey = t @ i;
     if map_of (m_mapAlgModel a) strAlgMapKey \<noteq> None then Some (True, a)
     else do {
       n \<leftarrow> jtext ''name'' (jget ''model'' algCfg);
       let (ok, ctx) = model_load rk (''./model/'' @ n) (rk_junk rk);
       Some (ok, a\<lparr>m_mapAlgModel := smap_insert strAlgMapKey ctx (m_mapAlgModel a)\<rparr>)}}"

text \<open>The topics the object attaches itself to.\<close>

definition DetectDataSrcInit :: "json \<Rightarrow> 'c CDetectAlg \<Rightarrow> (string list \<times> 'c CDetectAlg) option" where
  "DetectDataSrcInit DataSrcCfg a = do {
     strIp \<leftarrow> jtext ''ip'' DataSrcCfg;
     code \<leftarrow> jtext ''code'' (jget ''params'' DataSrcCfg);
     let strTopic = RtspStreamTopic strIp code;
     Some (if map_of (m_mapDataSrcTopic a) strIp = None
       then ([strTopic], a\<lparr>m_mapDataSrcTopic := smap_insert strIp strTopic (m_mapDataSrcTopic a)\<rparr>)
       else ([], a))}"

definition DetectObjInit :: "'c rknn \<Rightarrow> json \<Rightarrow> json \<Rightarrow> json \<Rightarrow> 'c CDetectAlg \<Rightarrow> (bool \<times> string list \<times> 'c CDetectAlg) option" where
  "DetectObjInit rk taskCfg algCfg DataSrcCfg a = do {
     t \<leftarrow> jtext ''type'' taskCfg;
     i \<leftarrow> jtext ''idx'' taskCfg;
     (ok, a1) \<leftarrow> DetectAlgInit rk algCfg (SetReportTopic (AlgResultTopic t i) a);
     if \<not> ok then Some (False, [], a1)
     else do {
       (ts, a2) \<leftarrow> DetectDataSrcInit DataSrcCfg a1;
       Some (True, ts, a2)}}"

section \<open>The manager\<close>

definition source_key :: "json \<Rightarrow> string option" where
  "source_key DataSrc = do {
     t \<leftarrow> jtext ''type'' DataSrc;
     i \<leftarrow> jtext ''idx'' DataSrc;
     Some (t @ i)}"

text \<open>The attachments made: topics with the key of the object attached; the results of the objects are not used.\<close>

fun CreateAlgObj :: "'c rknn \<Rightarrow> json \<Rightarrow> json \<Rightarrow> json list \<Rightarrow> 'c CDetectAlg smap \<Rightarrow>
    ((string \<times> string) list \<times> 'c CDetectAlg smap) option" where
  "CreateAlgObj rk jTaskCfg jAlgCfg [] m = Some ([], m)"
| "CreateAlgObj rk jTaskCfg jAlgCfg (DataSrc # jLstDataSrc) m = do {
     strKey \<leftarrow> source_key DataSrc;
     let m1 = (if map_of m strKey = None then smap_insert strKey new_CDetectAlg m else m);
     a \<leftarrow> map_of m1 strKey;
     (ok, ts, a1) \<leftarrow> DetectObjInit rk jTaskCfg jAlgCfg DataSrc a;
     (att, m2) \<leftarrow> CreateAlgObj rk jTaskCfg jAlgCfg jLstDataSrc (smap_set strKey a1 m1);
     Some (map (\<lambda>t. (t, strKey)) ts @ att, m2)}"

text \<open>The manager subscribes to the creation of objects for its algorithm.\<close>

definition DetectMngInitParams :: "bool \<Rightarrow> json \<Rightarrow> (bool \<times> string list) option" where
  "DetectMngInitParams has_bus algCfg = (if \<not> has_bus then Some (False, [])
     else do {
       t \<leftarrow> jtext ''type'' algCfg;
       i \<leftarrow> jtext ''idx'' algCfg;
       Some (True, [AlgCreateTopic t i])})"

section \<open>A picture\<close>

record ('f, 'd, 'c, 'p) detect_env =
  de_ops :: "('f, 'd) nms_ops"
  de_resize :: "'p list \<Rightarrow> int \<Rightarrow> 'p list"
  de_swap :: "'p \<Rightarrow> 'p"
  de_black :: 'p
  de_run :: "'c \<Rightarrow> 'p list \<Rightarrow> 'f list list option"
  de_box :: "'f box"

definition s32ConstClasses :: nat where "s32ConstClasses = 26"
definition s32ConstNetWidth :: int where "s32ConstNetWidth = 640"
definition s32ConstNetHeight :: int where "s32ConstNetHeight = 640"

definition fConstThresh :: "('f, 'd) nms_ops \<Rightarrow> 'f" where
  "fConstThresh F = fl_of_dbl F (dbl_lit F (2 / 5))"

text \<open>A detection before the network's output is written to it; its box is not initialised.\<close>

definition new_detection :: "('f, 'd, 'c, 'p) detect_env \<Rightarrow> 'f detection" where
  "new_detection E = \<lparr>sort_class = 0, prob = replicate s32ConstClasses (fl_zero (de_ops E)), bbox = de_box E\<rparr>"

fun origin_loop :: "('f, 'd) nms_ops \<Rightarrow> int \<times> int \<Rightarrow> int \<Rightarrow> int \<Rightarrow> nat \<Rightarrow> 'f detection list \<Rightarrow> 'f detection list option" where
  "origin_loop F pt srcCols k 0 dets = Some dets"
| "origin_loop F pt srcCols k (Suc n) dets = do {
     d \<leftarrow> get dets k;
     dets1 \<leftarrow> put dets k (d\<lparr>bbox := GetOriginRect F (bbox d) pt s32ConstNetWidth srcCols\<rparr>);
     origin_loop F pt srcCols (k + 1) n dets1}"

type_synonym 'f result = "'f detection list \<times> int"
type_synonym 'f report = "string \<times> string \<times> 'f result"

text \<open>One model on one picture or slice: the result, if there is one, goes to every report topic.\<close>

definition proc_model :: "('f, 'd, 'c, 'p) detect_env \<Rightarrow> int \<Rightarrow> (int \<times> int) option \<Rightarrow> 'p list \<Rightarrow> 'c \<Rightarrow> 'f result list option" where
  "proc_model E srcCols pt inp ctx = (case de_run E ctx inp of
     None \<Rightarrow> Some []
   | Some outputs \<Rightarrow> do {
       let F = de_ops E;
       (dets, nboxes_left) \<leftarrow> outputs_transform F outputs s32ConstNetWidth s32ConstNetHeight s32ConstClasses
         (fConstThresh F) (fConstThresh F) (fConstThresh F) (replicate (nat nboxes_total) (new_detection E));
       if 0 < nboxes_left then do {
         dets1 \<leftarrow> (case pt of None \<Rightarrow> Some dets | Some p \<Rightarrow> origin_loop F p srcCols 0 (nat nboxes_left) dets);
         Some [(dets1, nboxes_left)]}
       else Some []})"

definition reports :: "string \<Rightarrow> int smap \<Rightarrow> 'f result list \<Rightarrow> 'f report list" where
  "reports strIp topics rs = concat (map (\<lambda>r. map (\<lambda>(t, _). (t, strIp, r)) topics) rs)"

fun model_loop :: "('f, 'd, 'c, 'p) detect_env \<Rightarrow> string \<Rightarrow> int smap \<Rightarrow> int \<Rightarrow> (int \<times> int) option \<Rightarrow> 'p list \<Rightarrow> 'c smap \<Rightarrow> 'f report list option" where
  "model_loop E strIp topics srcCols pt inp [] = Some []"
| "model_loop E strIp topics srcCols pt inp (valModel # ms) = do {
     rs \<leftarrow> proc_model E srcCols pt inp (snd valModel);
     rest \<leftarrow> model_loop E strIp topics srcCols pt inp ms;
     Some (reports strIp topics rs @ rest)}"

fun input_loop :: "('f, 'd, 'c, 'p) detect_env \<Rightarrow> string \<Rightarrow> 'c CDetectAlg \<Rightarrow> int \<Rightarrow> ((int \<times> int) option \<times> 'p list) list \<Rightarrow> 'f report list option" where
  "input_loop E strIp a srcCols [] = Some []"
| "input_loop E strIp a srcCols (dst # dstImgs) = do {
     rs \<leftarrow> model_loop E strIp (m_mapResultReportTopic a) srcCols (fst dst) (snd dst) (m_mapAlgModel a);
     rest \<leftarrow> input_loop E strIp a srcCols dstImgs;
     Some (rs @ rest)}"

definition ProcMat :: "('f, 'd, 'c, 'p) detect_env \<Rightarrow> string \<Rightarrow> nat \<Rightarrow> nat \<Rightarrow> 'p list \<Rightarrow> 'c CDetectAlg \<Rightarrow> 'f report list option" where
  "ProcMat E strIp cols rows src a = do {
     (resizeImg, squareImg, transPts) \<leftarrow> ImgToSlices (de_resize E) (de_black E) cols rows src s32ConstNetWidth;
     inps \<leftarrow> slice_inputs (de_swap E) cols (nat s32ConstNetWidth) transPts squareImg;
     input_loop E strIp a (int cols) ((None, map (de_swap E) resizeImg) # zip (map Some transPts) inps)}"


section \<open>Objects\<close>

definition obj_ok :: "'c CDetectAlg \<Rightarrow> bool" where
  "obj_ok a \<longleftrightarrow> smap_ok (m_mapResultReportTopic a) \<and> smap_ok (m_mapDataSrcTopic a)"

lemma mset_smap_insert: "map_of m k = None \<Longrightarrow> mset (smap_insert k v m) = add_mset (k, v) (mset m)"
  by (induction k v m rule: smap_insert.induct) (auto split: if_splits)

lemma DetectAlgInit_effect:
  assumes "DetectAlgInit rk algCfg a = Some (ok, a1)"
  shows "m_mapResultReportTopic a1 = m_mapResultReportTopic a" "m_mapDataSrcTopic a1 = m_mapDataSrcTopic a"
  using assms by (auto simp: DetectAlgInit_def Let_def split: bind_splits if_splits prod.splits)

text \<open>Configuring an object adds the task's report topic, and attaches it to at most one new topic.\<close>

lemma DetectObjInit_effect:
  assumes "DetectObjInit rk jTaskCfg jAlgCfg src a = Some (ok, ts, a1)" "obj_ok a"
  shows "obj_ok a1" "mset (map snd (m_mapDataSrcTopic a1)) = mset (map snd (m_mapDataSrcTopic a)) + mset ts"
    "fst ` set (m_mapResultReportTopic a) \<subseteq> fst ` set (m_mapResultReportTopic a1)"
proof -
  obtain t i a2 where h: "jtext ''type'' jTaskCfg = Some t" "jtext ''idx'' jTaskCfg = Some i"
    "DetectAlgInit rk jAlgCfg (SetReportTopic (AlgResultTopic t i) a) = Some (ok, a2)"
    and r: "if ok then DetectDataSrcInit src a2 = Some (ts, a1) else ts = [] \<and> a1 = a2"
    using assms(1) by (auto simp: DetectObjInit_def split: bind_splits if_splits)
  have a2: "m_mapResultReportTopic a2 = m_mapResultReportTopic (SetReportTopic (AlgResultTopic t i) a)"
    "m_mapDataSrcTopic a2 = m_mapDataSrcTopic a"
    using DetectAlgInit_effect [OF h(3)] by (simp_all add: SetReportTopic_def)
  have t2: "smap_ok (m_mapResultReportTopic a2)" "fst ` set (m_mapResultReportTopic a) \<subseteq> fst ` set (m_mapResultReportTopic a2)"
    unfolding a2 using assms(2) by (auto simp: SetReportTopic_def obj_ok_def smap_insert_ok smap_insert_keys)
  have "m_mapResultReportTopic a1 = m_mapResultReportTopic a2 \<and> smap_ok (m_mapDataSrcTopic a1) \<and>
      mset (map snd (m_mapDataSrcTopic a1)) = mset (map snd (m_mapDataSrcTopic a)) + mset ts"
    using r assms(2) a2(2)
    by (auto simp: DetectDataSrcInit_def Let_def obj_ok_def mset_smap_insert smap_insert_ok split: bind_splits if_splits)
  then show "obj_ok a1" "mset (map snd (m_mapDataSrcTopic a1)) = mset (map snd (m_mapDataSrcTopic a)) + mset ts"
    "fst ` set (m_mapResultReportTopic a) \<subseteq> fst ` set (m_mapResultReportTopic a1)"
    using t2 by (auto simp: obj_ok_def)
qed

lemma DetectObjInit_topic:
  assumes "DetectObjInit rk jTaskCfg jAlgCfg src a = Some (ok, ts, a1)" "jtext ''type'' jTaskCfg = Some t" "jtext ''idx'' jTaskCfg = Some i"
  shows "AlgResultTopic t i \<in> fst ` set (m_mapResultReportTopic a1)"
proof -
  obtain a2 where h: "DetectAlgInit rk jAlgCfg (SetReportTopic (AlgResultTopic t i) a) = Some (ok, a2)"
    and r: "if ok then DetectDataSrcInit src a2 = Some (ts, a1) else ts = [] \<and> a1 = a2"
    using assms by (auto simp: DetectObjInit_def split: bind_splits if_splits)
  have "m_mapResultReportTopic a1 = m_mapResultReportTopic a2"
    using r by (auto simp: DetectDataSrcInit_def Let_def split: bind_splits if_splits)
  moreover have "AlgResultTopic t i \<in> fst ` set (m_mapResultReportTopic (SetReportTopic (AlgResultTopic t i) a))"
    by (auto simp: SetReportTopic_def smap_insert_keys map_of_eq_None_iff)
  ultimately show ?thesis using DetectAlgInit_effect(1) [OF h] by simp
qed

text \<open>Whether the object has the model of the algorithm afterwards, or believes so.\<close>

definition model_there :: "'c rknn \<Rightarrow> string \<Rightarrow> string \<Rightarrow> 'c CDetectAlg \<Rightarrow> bool" where
  "model_there rk strAlgMapKey strName a \<longleftrightarrow>
     map_of (m_mapAlgModel a) strAlgMapKey \<noteq> None \<or> fst (model_load rk (''./model/'' @ strName) (rk_junk rk))"

lemma DetectObjInit_attaches:
  assumes "DetectObjInit rk jTaskCfg jAlgCfg src a = Some (ok, ts, a1)"
    and "jtext ''type'' jAlgCfg = Some alt" "jtext ''idx'' jAlgCfg = Some ali" "jtext ''name'' (jget ''model'' jAlgCfg) = Some name"
    and "jtext ''ip'' src = Some ip" "jtext ''code'' (jget ''params'' src) = Some code"
  shows "ts = (if model_there rk (alt @ ali) name a \<and> map_of (m_mapDataSrcTopic a) ip = None then [RtspStreamTopic ip code] else [])"
proof -
  obtain t i a2 where h: "DetectAlgInit rk jAlgCfg (SetReportTopic (AlgResultTopic t i) a) = Some (ok, a2)"
    and r: "if ok then DetectDataSrcInit src a2 = Some (ts, a1) else ts = [] \<and> a1 = a2"
    using assms(1) by (auto simp: DetectObjInit_def split: bind_splits if_splits)
  have "ok \<longleftrightarrow> model_there rk (alt @ ali) name a"
    using h assms(2-4) by (auto simp: DetectAlgInit_def model_there_def SetReportTopic_def Let_def split: if_splits prod.splits)
  moreover have "m_mapDataSrcTopic a2 = m_mapDataSrcTopic a" using DetectAlgInit_effect(2) [OF h] by (simp add: SetReportTopic_def)
  ultimately show ?thesis using r assms(5,6) by (auto simp: DetectDataSrcInit_def Let_def split: if_splits)
qed

section \<open>The manager's attachments\<close>

text \<open>Every object is attached once for every address it reads from.\<close>

definition attached_once :: "(string \<times> string) list \<Rightarrow> 'c CDetectAlg smap \<Rightarrow> bool" where
  "attached_once att m \<longleftrightarrow> smap_ok m \<and> (\<forall>key a. map_of m key = Some a \<longrightarrow> obj_ok a) \<and>
     (\<forall>key. mset (map fst (filter (\<lambda>c. snd c = key) att)) =
       (case map_of m key of None \<Rightarrow> {#} | Some a \<Rightarrow> mset (map snd (m_mapDataSrcTopic a))))"

lemma attached_once_nil: "attached_once [] []"
  by (simp add: attached_once_def smap_ok_def)

lemma new_obj_ok: "obj_ok new_CDetectAlg"
  by (simp add: obj_ok_def new_CDetectAlg_def smap_ok_def)

lemma smap_set_ok: "smap_ok m \<Longrightarrow> smap_ok (smap_set k v m)"
  by (simp add: smap_ok_def smap_set_keys)

lemma attached_once_step:
  assumes "attached_once att m" "m1 = (if map_of m key = None then smap_insert key new_CDetectAlg m else m)"
    and "map_of m1 key = Some a" "DetectObjInit rk t alg src a = Some (ok, ts, a1)"
  shows "attached_once (att @ map (\<lambda>t. (t, key)) ts) (smap_set key a1 m1)"
proof -
  have m: "smap_ok m" "\<And>k a. map_of m k = Some a \<Longrightarrow> obj_ok a"
    "\<And>k. mset (map fst (filter (\<lambda>c. snd c = k) att)) = (case map_of m k of None \<Rightarrow> {#} | Some a \<Rightarrow> mset (map snd (m_mapDataSrcTopic a)))"
    using assms(1) by (auto simp: attached_once_def)
  have m1: "smap_ok m1" using m(1) assms(2) by (simp add: smap_insert_ok)
  have mo: "map_of m1 = (if map_of m key = None then (map_of m)(key \<mapsto> new_CDetectAlg) else map_of m)"
    unfolding assms(2) by (simp add: map_of_smap_insert)
  have a: "obj_ok a" "mset (map fst (filter (\<lambda>c. snd c = key) att)) = mset (map snd (m_mapDataSrcTopic a))"
    using assms(3) m(2) [of key] m(3) [of key] new_obj_ok unfolding mo
    by (auto simp: new_CDetectAlg_def split: if_splits)
  note eff = DetectObjInit_effect [OF assms(4) a(1)]
  have s: "map_of (smap_set key a1 m1) = (map_of m1)(key \<mapsto> a1)" by (rule map_of_smap_set [OF assms(3)])
  have f: "mset (map fst (filter (\<lambda>c. snd c = k) (map (\<lambda>t. (t, key)) ts))) = (if k = key then mset ts else {#})" for k
    by (auto simp: filter_map comp_def)
  have mk: "map_of m1 k = map_of m k" if "k \<noteq> key" for k using that unfolding mo by simp
  have "obj_ok b" if "map_of (smap_set key a1 m1) k = Some b" for k b
    using that eff(1) m(2) mk unfolding s by (cases "k = key") auto
  moreover have "mset (map fst (filter (\<lambda>c. snd c = k) (att @ map (\<lambda>t. (t, key)) ts))) =
      (case map_of (smap_set key a1 m1) k of None \<Rightarrow> {#} | Some a \<Rightarrow> mset (map snd (m_mapDataSrcTopic a)))" for k
    using f [of k] a(2) eff(2) m(3) [of k] mk [of k] unfolding s by (cases "k = key") simp_all
  ultimately show ?thesis unfolding attached_once_def using smap_set_ok [OF m1] by blast
qed

lemma CreateAlgObj_ConsE:
  assumes "CreateAlgObj rk t alg (src # srcs) m = Some (att, m1)"
  obtains key m0 a ok ts a1 att1 where "source_key src = Some key"
    "m0 = (if map_of m key = None then smap_insert key new_CDetectAlg m else m)" "map_of m0 key = Some a"
    "DetectObjInit rk t alg src a = Some (ok, ts, a1)" "CreateAlgObj rk t alg srcs (smap_set key a1 m0) = Some (att1, m1)"
    "att = map (\<lambda>t. (t, key)) ts @ att1"
  using assms by (auto simp: Let_def split: bind_splits prod.splits)

lemma CreateAlgObj_attached:
  "attached_once att m \<Longrightarrow> CreateAlgObj rk t alg srcs m = Some (att1, m1) \<Longrightarrow> attached_once (att @ att1) m1"
proof (induction srcs arbitrary: att m att1)
  case (Cons src srcs)
  from Cons.prems(2) obtain key m0 a ok ts a1 c where h: "source_key src = Some key"
    "m0 = (if map_of m key = None then smap_insert key new_CDetectAlg m else m)" "map_of m0 key = Some a"
    "DetectObjInit rk t alg src a = Some (ok, ts, a1)" "CreateAlgObj rk t alg srcs (smap_set key a1 m0) = Some (c, m1)"
    "att1 = map (\<lambda>t. (t, key)) ts @ c" by (rule CreateAlgObj_ConsE)
  show ?case using Cons.IH [OF attached_once_step [OF Cons.prems(1) h(2-4)] h(5)] h(6) by simp
qed simp

text \<open>Sources with other keys change nothing for an object.\<close>

lemma CreateAlgObj_other:
  assumes "CreateAlgObj rk t alg srcs m = Some (att, m1)" "\<forall>s \<in> set srcs. source_key s \<noteq> Some key"
  shows "map_of m1 key = map_of m key" "filter (\<lambda>c. snd c = key) att = []"
  using assms
proof (atomize (full), induction srcs arbitrary: m att)
  case (Cons src srcs)
  from Cons.prems(1) obtain k m0 a ok ts a1 c where h: "source_key src = Some k"
    "m0 = (if map_of m k = None then smap_insert k new_CDetectAlg m else m)" "map_of m0 k = Some a"
    "DetectObjInit rk t alg src a = Some (ok, ts, a1)" "CreateAlgObj rk t alg srcs (smap_set k a1 m0) = Some (c, m1)"
    "att = map (\<lambda>t. (t, k)) ts @ c" by (rule CreateAlgObj_ConsE)
  have k: "k \<noteq> key" using Cons.prems(2) h(1) by auto
  then have "map_of (smap_set k a1 m0) key = map_of m0 key" using map_of_smap_set [OF h(3)] by simp
  also have "map_of m0 key = map_of m key" unfolding h(2) using k by (simp add: map_of_smap_insert)
  finally have "map_of (smap_set k a1 m0) key = map_of m key" .
  then show ?case using Cons.IH [OF h(5)] Cons.prems(2) h(6) k by (simp add: filter_map comp_def)
qed simp

lemma CreateAlgObj_append:
  assumes "CreateAlgObj rk t alg (srcs @ srcs1) m = Some (att, m1)"
  obtains att0 att1 m0 where "CreateAlgObj rk t alg srcs m = Some (att0, m0)" "CreateAlgObj rk t alg srcs1 m0 = Some (att1, m1)" "att = att0 @ att1"
  using assms
proof (induction srcs arbitrary: m att thesis)
  case (Cons src srcs)
  from Cons.prems(2) [unfolded append_Cons] obtain key m0 a ok ts a1 c where h: "source_key src = Some key"
    "m0 = (if map_of m key = None then smap_insert key new_CDetectAlg m else m)" "map_of m0 key = Some a"
    "DetectObjInit rk t alg src a = Some (ok, ts, a1)" "CreateAlgObj rk t alg (srcs @ srcs1) (smap_set key a1 m0) = Some (c, m1)"
    "att = map (\<lambda>t. (t, key)) ts @ c" by (rule CreateAlgObj_ConsE)
  obtain c0 c1 m2 where "CreateAlgObj rk t alg srcs (smap_set key a1 m0) = Some (c0, m2)" "CreateAlgObj rk t alg srcs1 m2 = Some (c1, m1)" "c = c0 @ c1"
    using Cons.IH [OF _ h(5)] by blast
  then show ?case using h by (intro Cons.prems(1) [of "map (\<lambda>t. (t, key)) ts @ c0" m2 c1]) (simp_all add: Let_def)
qed simp

text \<open>A source alone with its key: the object's reports and attachments.\<close>

lemma CreateAlgObj_source:
  assumes "CreateAlgObj rk jTaskCfg jAlgCfg (pre @ src # post) m = Some (att, m1)"
    and "jtext ''type'' jTaskCfg = Some t" "jtext ''idx'' jTaskCfg = Some i"
    and "jtext ''type'' jAlgCfg = Some alt" "jtext ''idx'' jAlgCfg = Some ali" "jtext ''name'' (jget ''model'' jAlgCfg) = Some name"
    and "source_key src = Some key" "\<forall>s \<in> set pre \<union> set post. source_key s \<noteq> Some key"
    and "jtext ''ip'' src = Some ip" "jtext ''code'' (jget ''params'' src) = Some code"
    and "a0 = (case map_of m key of None \<Rightarrow> new_CDetectAlg | Some a \<Rightarrow> a)"
  shows "(\<exists>a. map_of m1 key = Some a \<and> AlgResultTopic t i \<in> fst ` set (m_mapResultReportTopic a)) \<and>
    filter (\<lambda>c. snd c = key) att =
      (if model_there rk (alt @ ali) name a0 \<and> map_of (m_mapDataSrcTopic a0) ip = None then [(RtspStreamTopic ip code, key)] else [])"
proof -
  obtain c0 c1 m2 where s: "CreateAlgObj rk jTaskCfg jAlgCfg pre m = Some (c0, m2)" "CreateAlgObj rk jTaskCfg jAlgCfg (src # post) m2 = Some (c1, m1)"
    "att = c0 @ c1" using assms(1) by (rule CreateAlgObj_append)
  from s(2) obtain k m3 a ok ts a1 c where h: "source_key src = Some k"
    "m3 = (if map_of m2 k = None then smap_insert k new_CDetectAlg m2 else m2)" "map_of m3 k = Some a"
    "DetectObjInit rk jTaskCfg jAlgCfg src a = Some (ok, ts, a1)" "CreateAlgObj rk jTaskCfg jAlgCfg post (smap_set k a1 m3) = Some (c, m1)"
    "c1 = map (\<lambda>t. (t, k)) ts @ c" by (rule CreateAlgObj_ConsE)
  have k: "k = key" using h(1) assms(7) by simp
  have o: "map_of m2 key = map_of m key" "filter (\<lambda>c. snd c = key) c0 = []"
    "map_of m1 key = map_of (smap_set key a1 m3) key" "filter (\<lambda>c. snd c = key) c = []"
    using CreateAlgObj_other [OF s(1)] CreateAlgObj_other [OF h(5)] assms(8) unfolding k by auto
  have a: "a = a0" using h(2,3) unfolding k o(1) assms(11) by (auto simp: map_of_smap_insert o(1) split: if_splits option.splits)
  have "map_of m1 key = Some a1" unfolding o(3) using map_of_smap_set [OF h(3)] k by simp
  moreover have "AlgResultTopic t i \<in> fst ` set (m_mapResultReportTopic a1)" by (rule DetectObjInit_topic [OF h(4) assms(2,3)])
  moreover have "filter (\<lambda>c. snd c = key) att = map (\<lambda>t. (t, key)) ts"
    unfolding s(3) h(6) k using o(2,4) by (simp add: filter_map comp_def)
  ultimately show ?thesis using DetectObjInit_attaches [OF h(4) assms(4-6,9,10)] unfolding a by simp
qed

fun create_all :: "'c rknn \<Rightarrow> (json \<times> json \<times> json list) list \<Rightarrow> 'c CDetectAlg smap \<Rightarrow> ((string \<times> string) list \<times> 'c CDetectAlg smap) option" where
  "create_all rk [] m = Some ([], m)"
| "create_all rk ((t, alg, srcs) # reqs) m = do {
     (att, m1) \<leftarrow> CreateAlgObj rk t alg srcs m;
     (att1, m2) \<leftarrow> create_all rk reqs m1;
     Some (att @ att1, m2)}"

lemma create_all_attached:
  "attached_once att m \<Longrightarrow> create_all rk reqs m = Some (att1, m1) \<Longrightarrow> attached_once (att @ att1) m1"
proof (induction rk reqs m arbitrary: att att1 rule: create_all.induct)
  case (2 rk t alg srcs reqs m)
  obtain c m2 c1 where h: "CreateAlgObj rk t alg srcs m = Some (c, m2)" "create_all rk reqs m2 = Some (c1, m1)" "att1 = c @ c1"
    using 2(3) by (auto split: bind_splits)
  show ?case using "2.IH" [OF h(1) refl CreateAlgObj_attached [OF 2(2) h(1)] h(2)] h(3) by simp
qed simp

text \<open>The topic of a source, and objects whose topics all come from sources of theirs.\<close>

definition source_topic :: "json \<Rightarrow> string option" where
  "source_topic src = do {
     ip \<leftarrow> jtext ''ip'' src;
     code \<leftarrow> jtext ''code'' (jget ''params'' src);
     Some (RtspStreamTopic ip code)}"

definition topics_from :: "json set \<Rightarrow> 'c CDetectAlg smap \<Rightarrow> bool" where
  "topics_from S m \<longleftrightarrow> (\<forall>key a ip tp. map_of m key = Some a \<and> (ip, tp) \<in> set (m_mapDataSrcTopic a) \<longrightarrow>
     (\<exists>src \<in> S. source_key src = Some key \<and> jtext ''ip'' src = Some ip \<and> source_topic src = Some tp))"

lemma DetectObjInit_topics:
  assumes "DetectObjInit rk t alg src a = Some (ok, ts, a1)" "(ip, tp) \<in> set (m_mapDataSrcTopic a1)"
  shows "(ip, tp) \<in> set (m_mapDataSrcTopic a) \<or> jtext ''ip'' src = Some ip \<and> source_topic src = Some tp"
proof -
  obtain b a2 where h: "DetectAlgInit rk alg b = Some (ok, a2)" "m_mapDataSrcTopic b = m_mapDataSrcTopic a"
    and r: "if ok then DetectDataSrcInit src a2 = Some (ts, a1) else ts = [] \<and> a1 = a2"
    using assms(1) by (auto simp: DetectObjInit_def SetReportTopic_def split: bind_splits if_splits)
  have ins: "set (smap_insert k v m) = insert (k, v) (set m)" if "map_of m k = None" for k v and m :: "string smap"
    using mset_smap_insert [OF that, of v] by (metis set_mset_add_mset_insert set_mset_mset)
  have "m_mapDataSrcTopic a2 = m_mapDataSrcTopic a" using DetectAlgInit_effect(2) [OF h(1)] h(2) by simp
  then show ?thesis using r assms(2) by (auto simp: DetectDataSrcInit_def source_topic_def Let_def ins split: bind_splits if_splits)
qed

lemma CreateAlgObj_topics:
  "topics_from S m \<Longrightarrow> CreateAlgObj rk t alg srcs m = Some (att, m1) \<Longrightarrow> topics_from (S \<union> set srcs) m1"
proof (induction srcs arbitrary: S m att)
  case (Cons src srcs)
  from Cons.prems(2) obtain k m0 a ok ts a1 c where h: "source_key src = Some k"
    "m0 = (if map_of m k = None then smap_insert k new_CDetectAlg m else m)" "map_of m0 k = Some a"
    "DetectObjInit rk t alg src a = Some (ok, ts, a1)" "CreateAlgObj rk t alg srcs (smap_set k a1 m0) = Some (c, m1)"
    "att = map (\<lambda>t. (t, k)) ts @ c" by (rule CreateAlgObj_ConsE)
  have m0: "map_of m0 = (if map_of m k = None then (map_of m)(k \<mapsto> new_CDetectAlg) else map_of m)"
    unfolding h(2) by (simp add: map_of_smap_insert)
  have "topics_from (S \<union> {src}) (smap_set k a1 m0)"
    unfolding topics_from_def
  proof (intro allI impI, elim conjE)
    fix key b ip tp
    assume b: "map_of (smap_set k a1 m0) key = Some b" "(ip, tp) \<in> set (m_mapDataSrcTopic b)"
    have old: "\<exists>s \<in> S. source_key s = Some key \<and> jtext ''ip'' s = Some ip \<and> source_topic s = Some tp"
      if "map_of m0 key = Some e" "(ip, tp) \<in> set (m_mapDataSrcTopic e)" for e
    proof -
      have "map_of m key = Some e" using that unfolding m0 by (auto simp: new_CDetectAlg_def split: if_splits)
      then show ?thesis using Cons.prems(1) that(2) unfolding topics_from_def by blast
    qed
    show "\<exists>s \<in> S \<union> {src}. source_key s = Some key \<and> jtext ''ip'' s = Some ip \<and> source_topic s = Some tp"
    proof (cases "key = k")
      case True
      then have "b = a1" using b(1) map_of_smap_set [OF h(3), of a1] by simp
      then show ?thesis using DetectObjInit_topics [OF h(4)] b(2) old [of a] h(1,3) True by blast
    next
      case False
      then have "map_of m0 key = Some b" using b(1) map_of_smap_set [OF h(3), of a1] by simp
      from old [OF this b(2)] show ?thesis by blast
    qed
  qed
  from Cons.IH [OF this h(5)] show ?case by simp
qed simp

lemma create_all_topics:
  "topics_from S m \<Longrightarrow> create_all rk reqs m = Some (att, m1) \<Longrightarrow> topics_from (S \<union> (\<Union>(t, alg, srcs) \<in> set reqs. set srcs)) m1"
proof (induction rk reqs m arbitrary: S att rule: create_all.induct)
  case (2 rk t alg srcs reqs m)
  obtain c m2 c1 where h: "CreateAlgObj rk t alg srcs m = Some (c, m2)" "create_all rk reqs m2 = Some (c1, m1)"
    using 2(3) by (auto split: bind_splits)
  show ?case using "2.IH" [OF h(1) refl CreateAlgObj_topics [OF 2(2) h(1)] h(2)] by (simp add: Un_assoc)
qed simp

lemma distinct_by_key: "(\<And>key. distinct (map fst (filter (\<lambda>c. snd c = key) att))) \<Longrightarrow> distinct att"
proof (induction att)
  case (Cons c att)
  have "distinct (map fst (filter (\<lambda>c. snd c = key) att))" for key using Cons.prems [of key] by (auto split: if_splits)
  moreover have "c \<notin> set att"
    using Cons.prems [of "snd c"] by (auto simp: image_iff)
  ultimately show ?case using Cons.IH by simp
qed simp

section \<open>Reports\<close>

text \<open>What the runtime returns: nothing, or the outputs of the three grids.\<close>

definition outputs_ok :: "'f list list \<Rightarrow> bool" where
  "outputs_ok outs \<longleftrightarrow> map (\<lambda>p. int (length p)) (tl outs) = map (\<lambda>n. n * (5 + int s32ConstClasses)) [nboxes_0, nboxes_1, nboxes_2] \<and> outs \<noteq> []"

definition env_ok :: "('f, 'd, 'c, 'p) detect_env \<Rightarrow> bool" where
  "env_ok E \<longleftrightarrow> zero_law (de_ops E) \<and> (\<forall>x. fl_less (de_ops E) (fConstThresh (de_ops E)) x \<longrightarrow> fl_less (de_ops E) (fl_zero (de_ops E)) x) \<and>
     (\<forall>ctx inp outs. de_run E ctx inp = Some outs \<longrightarrow> outputs_ok outs)"

text \<open>The boxes a model finds in its input, and their places in the picture.\<close>

definition model_boxes :: "('f, 'd, 'c, 'p) detect_env \<Rightarrow> 'c \<Rightarrow> 'p list \<Rightarrow> 'f detection list" where
  "model_boxes E ctx inp = (let F = de_ops E; t = fConstThresh F in case de_run E ctx inp of None \<Rightarrow> []
     | Some outs \<Rightarrow> network_boxes F s32ConstNetWidth s32ConstNetHeight s32ConstClasses t t t (outs ! 1) (outs ! 2) (outs ! 3))"

definition placed :: "('f, 'd) nms_ops \<Rightarrow> int \<Rightarrow> (int \<times> int) option \<Rightarrow> 'f detection \<Rightarrow> 'f detection" where
  "placed F srcCols pt d = (case pt of None \<Rightarrow> d | Some p \<Rightarrow> d\<lparr>bbox := GetOriginRect F (bbox d) p s32ConstNetWidth srcCols\<rparr>)"

text \<open>A report as the receiver reads it: topic, address and as many detections as the number says.\<close>

definition seen :: "'f report \<Rightarrow> string \<times> string \<times> 'f detection list" where
  "seen r = (case r of (t, ip, dets, n) \<Rightarrow> (t, ip, take (nat n) dets))"

definition result_ok :: "'f result \<Rightarrow> bool" where
  "result_ok r \<longleftrightarrow> 0 < snd r \<and> snd r \<le> nboxes_total \<and> int (length (fst r)) = nboxes_total"

definition expected :: "('f, 'd, 'c, 'p) detect_env \<Rightarrow> string \<Rightarrow> int smap \<Rightarrow> int \<Rightarrow> (int \<times> int) option \<Rightarrow> 'p list \<Rightarrow> 'c \<Rightarrow>
    (string \<times> string \<times> 'f detection list) list" where
  "expected E strIp topics srcCols pt inp ctx = (if model_boxes E ctx inp = [] then []
     else map (\<lambda>t. (fst t, strIp, map (placed (de_ops E) srcCols pt) (model_boxes E ctx inp))) topics)"

lemma origin_loop_spec:
  "k + n \<le> length dets \<Longrightarrow> origin_loop F pt cols (int k) n dets =
   Some (take k dets @ map (placed F cols (Some pt)) (take n (drop k dets)) @ drop (k + n) dets)"
proof (induction n arbitrary: k dets)
  case (Suc n)
  let ?d = "placed F cols (Some pt) (dets ! k)"
  have k: "k < length dets" using Suc.prems by simp
  have s: "int k + 1 = int (Suc k)" by simp
  have "origin_loop F pt cols (int k) (Suc n) dets = origin_loop F pt cols (int (Suc k)) n (dets[k := ?d])"
    unfolding origin_loop.simps s using k by (simp add: get_nat put_nat placed_def)
  also have "\<dots> = Some (take (Suc k) (dets[k := ?d]) @ map (placed F cols (Some pt)) (take n (drop (Suc k) (dets[k := ?d]))) @ drop (Suc k + n) (dets[k := ?d]))"
    using Suc.prems by (intro Suc.IH) simp
  finally have "origin_loop F pt cols (int k) (Suc n) dets =
      Some (take k dets @ ?d # map (placed F cols (Some pt)) (take n (drop (Suc k) dets)) @ drop (Suc k + n) dets)"
    using k by (simp add: take_Suc_conv_app_nth)
  moreover have "take (Suc n) (drop k dets) = dets ! k # take n (drop (Suc k) dets)" using k by (simp add: Cons_nth_drop_Suc [symmetric])
  ultimately show ?case by (simp del: origin_loop.simps)
qed simp

lemma nboxes_nat: "nat nboxes_total = 25200"
  by (simp add: nboxes_values)

lemma outputs_okE:
  assumes "outputs_ok outs"
  obtains o0 o1 o2 o3 where "outs = [o0, o1, o2, o3]" "int (length o1) = nboxes_0 * (5 + int s32ConstClasses)"
    "int (length o2) = nboxes_1 * (5 + int s32ConstClasses)" "int (length o3) = nboxes_2 * (5 + int s32ConstClasses)"
proof -
  have ok: "map (\<lambda>p. int (length p)) (tl outs) = map (\<lambda>n. n * (5 + int s32ConstClasses)) [nboxes_0, nboxes_1, nboxes_2]" "outs \<noteq> []"
    using assms unfolding outputs_ok_def by blast+
  have "length (tl outs) = 3" using arg_cong [OF ok(1), of length] by simp
  then have "length outs = 4" using ok(2) by (cases outs) simp_all
  then obtain o0 o1 o2 o3 where outs: "outs = [o0, o1, o2, o3]" by (auto simp: length_Suc_conv numeral_eq_Suc)
  then show thesis using that ok(1) by simp
qed

text \<open>One model on one input: a result exactly if it finds boxes, and then these.\<close>

lemma proc_model_spec:
  assumes "env_ok E" "bs = model_boxes E ctx inp"
  shows "\<exists>dets. proc_model E srcCols pt inp ctx = Some (if bs = [] then [] else [(dets, int (length bs))]) \<and>
    length dets = 25200 \<and> length bs \<le> 25200 \<and> take (length bs) dets = map (placed (de_ops E) srcCols pt) bs"
proof (cases "de_run E ctx inp")
  case (Some outs)
  let ?F = "de_ops E" and ?t = "fConstThresh (de_ops E)"
  have "outputs_ok outs" using assms(1) Some by (simp add: env_ok_def)
  then obtain o0 o1 o2 o3 where o: "outs = [o0, o1, o2, o3]" "int (length o1) = nboxes_0 * (5 + int s32ConstClasses)"
    "int (length o2) = nboxes_1 * (5 + int s32ConstClasses)" "int (length o3) = nboxes_2 * (5 + int s32ConstClasses)" by (rule outputs_okE)
  have F: "zero_law ?F" "\<forall>x. fl_less ?F ?t x \<longrightarrow> fl_less ?F (fl_zero ?F) x" using assms(1) by (simp_all add: env_ok_def)
  have c: "1 \<le> s32ConstClasses" "prob (new_detection E) = replicate s32ConstClasses (fl_zero ?F)"
    by (simp_all add: s32ConstClasses_def new_detection_def)
  have bs: "bs = network_boxes ?F s32ConstNetWidth s32ConstNetHeight s32ConstClasses ?t ?t ?t o1 o2 o3"
    using assms(2) Some o(1) by (simp add: model_boxes_def Let_def)
  obtain dets1 where d: "outputs_transform ?F outs s32ConstNetWidth s32ConstNetHeight s32ConstClasses ?t ?t ?t
      (replicate (nat nboxes_total) (new_detection E)) = Some (dets1, int (length bs))"
    "length dets1 = nat nboxes_total" "length bs \<le> nat nboxes_total" "take (length bs) dets1 = bs"
    using outputs_transform_exact [OF F c(1) c(2) o(2-4) bs, of o0] unfolding o(1) by blast
  obtain dets2 where d2: "(case pt of None \<Rightarrow> Some dets1 | Some p \<Rightarrow> origin_loop ?F p srcCols 0 (length bs) dets1) = Some dets2"
    "length dets2 = length dets1" "take (length bs) dets2 = map (placed ?F srcCols pt) bs"
  proof (cases pt)
    case None
    then have "placed ?F srcCols pt = id" by (auto simp: placed_def)
    then show thesis using that [of dets1] d(4) None by simp
  next
    case (Some p)
    from origin_loop_spec [of 0 "length bs" dets1 ?F p srcCols] d(2,3) that show thesis unfolding Some by (simp add: d(4))
  qed
  have "proc_model E srcCols pt inp ctx = Some (if bs = [] then [] else [(dets2, int (length bs))])"
    using Some d(1) d2(1) unfolding proc_model_def Let_def by (cases pt) simp_all
  then show ?thesis using d d2 unfolding nboxes_nat by auto
next
  case None
  then have "proc_model E srcCols pt inp ctx = Some []" "bs = []" using assms(2) by (simp_all add: proc_model_def model_boxes_def)
  then show ?thesis by (intro exI [of _ "replicate 25200 undefined"]) simp
qed

definition report_ok :: "'f report \<Rightarrow> bool" where
  "report_ok r \<longleftrightarrow> result_ok (snd (snd r))"

lemma reports_of_model:
  assumes "env_ok E"
  shows "\<exists>rs. proc_model E srcCols pt inp ctx = Some rs \<and> map seen (reports strIp topics rs) = expected E strIp topics srcCols pt inp ctx \<and>
    (\<forall>r \<in> set (reports strIp topics rs). report_ok r)"
proof -
  obtain dets where d: "proc_model E srcCols pt inp ctx = Some (if model_boxes E ctx inp = [] then [] else [(dets, int (length (model_boxes E ctx inp)))])"
    "length dets = 25200" "length (model_boxes E ctx inp) \<le> 25200"
    "take (length (model_boxes E ctx inp)) dets = map (placed (de_ops E) srcCols pt) (model_boxes E ctx inp)"
    using proc_model_spec [OF assms refl] by blast
  then show ?thesis
    by (auto simp: reports_def expected_def seen_def report_ok_def result_ok_def nboxes_values split: prod.splits)
qed

lemma model_loop_spec:
  assumes "env_ok E"
  shows "\<exists>rs. model_loop E strIp topics srcCols pt inp ms = Some rs \<and>
    map seen rs = concat (map (\<lambda>m. expected E strIp topics srcCols pt inp (snd m)) ms) \<and> (\<forall>r \<in> set rs. report_ok r)"
proof (induction ms)
  case (Cons m ms)
  then obtain rs where r: "model_loop E strIp topics srcCols pt inp ms = Some rs"
    "map seen rs = concat (map (\<lambda>m. expected E strIp topics srcCols pt inp (snd m)) ms)" "\<forall>r \<in> set rs. report_ok r" by blast
  obtain rs0 where r0: "proc_model E srcCols pt inp (snd m) = Some rs0"
    "map seen (reports strIp topics rs0) = expected E strIp topics srcCols pt inp (snd m)" "\<forall>r \<in> set (reports strIp topics rs0). report_ok r"
    using reports_of_model [OF assms] by blast
  show ?case using r r0 by (intro exI [of _ "reports strIp topics rs0 @ rs"]) auto
qed simp

lemma input_loop_spec:
  assumes "env_ok E"
  shows "\<exists>rs. input_loop E strIp a srcCols ds = Some rs \<and>
    map seen rs = concat (map (\<lambda>d. concat (map (\<lambda>m. expected E strIp (m_mapResultReportTopic a) srcCols (fst d) (snd d) (snd m)) (m_mapAlgModel a))) ds) \<and>
    (\<forall>r \<in> set rs. report_ok r)"
proof (induction ds)
  case (Cons d ds)
  then obtain rs where r: "input_loop E strIp a srcCols ds = Some rs"
    "map seen rs = concat (map (\<lambda>d. concat (map (\<lambda>m. expected E strIp (m_mapResultReportTopic a) srcCols (fst d) (snd d) (snd m)) (m_mapAlgModel a))) ds)"
    "\<forall>r \<in> set rs. report_ok r" by blast
  obtain rs0 where r0: "model_loop E strIp (m_mapResultReportTopic a) srcCols (fst d) (snd d) (m_mapAlgModel a) = Some rs0"
    "map seen rs0 = concat (map (\<lambda>m. expected E strIp (m_mapResultReportTopic a) srcCols (fst d) (snd d) (snd m)) (m_mapAlgModel a))"
    "\<forall>r \<in> set rs0. report_ok r" using model_loop_spec [OF assms] by blast
  show ?case using r r0 by (intro exI [of _ "rs0 @ rs"]) auto
qed simp

text \<open>Widths the slicing copes with, and whose square of \<open>3 * cols * cols\<close> bytes an \<open>int\<close> can address.\<close>

definition width_ok :: "int \<Rightarrow> bool" where
  "width_ok cols \<longleftrightarrow> 640 \<le> cols \<and> cols < 1280 \<or> (\<exists>n. 2 \<le> n \<and> n \<le> 41 \<and> cols = n * 640)"

lemma slice_points_ok:
  assumes "width_ok cols"
  shows "\<exists>pts. slice_points cols s32ConstNetWidth = Some pts \<and> (\<forall>(x, y) \<in> set pts. roi_ok cols s32ConstNetWidth x y)"
proof (cases "640 \<le> cols \<and> cols < 1280")
  case True
  let ?q = "rat_of_int cols / 640"
  have q: "1 \<le> ?q" "?q \<le> 1279 / 640" using True by simp_all
  have "fl32 ?q - ?q \<le> ?q / 2 ^ 24" by (rule abs_le_D1 [OF fl32_error [OF q(1)]])
  then have "fl32 ?q \<le> ?q + ?q / 2 ^ 24" by linarith
  also have "\<dots> < 2" using q(2) by simp
  finally have "fl32 ?q < 2" .
  then show ?thesis by (simp add: slice_points_def s32ConstNetWidth_def)
next
  case False
  then obtain n where n: "2 \<le> n" "n \<le> 41" "cols = n * 640" using assms by (auto simp: width_ok_def)
  have "n * (n + 4) \<le> 41 * (41 + 4)" using n by (intro mult_mono) simp_all
  then have "n * (n + 4) * 640 < 2 ^ 24" by simp
  note pw = positions_of_whole(2) [OF n(1) _ _ this]
  have "\<forall>p \<in> set (positions_of cols 640). 0 \<le> p \<and> p + 640 \<le> cols" using pw n by simp
  then show ?thesis unfolding s32ConstNetWidth_def slice_points_positions Let_def by (auto simp: roi_ok_def)
qed

section \<open>What the algorithm does\<close>

text \<open>C6. A picture of the right width is always processed to the end: no access leaves an array and no
  exception is thrown, whatever the networks return. What is reported is exactly this, in this order: for
  the reduced picture and then every slice, for every model of the object, the boxes the model finds in
  what it is given (the list specification of the decoding and the suppression), moved from the slice to their place
  in the picture, to every report topic of the object under the camera's address; and nothing for a model that fails
  or finds none. Each result has between one and 25200 boxes.\<close>

theorem detect_reports:
  assumes "env_ok E" "width_ok (int cols)" "length src = rows * cols" "sq = square_img (de_black E) cols rows src"
  shows "\<exists>pts inps rs. slice_points (int cols) s32ConstNetWidth = Some pts \<and>
    slice_inputs (de_swap E) cols 640 pts sq = Some inps \<and> length inps = length pts \<and>
    ProcMat E strIp cols rows src a = Some rs \<and> (\<forall>r \<in> set rs. report_ok r) \<and>
    map seen rs = concat (map (\<lambda>(pt, inp). concat (map (\<lambda>(_, ctx). expected E strIp (m_mapResultReportTopic a) (int cols) pt inp ctx) (m_mapAlgModel a)))
      ((None, map (de_swap E) (de_resize E sq s32ConstNetWidth)) # zip (map Some pts) inps))"
proof -
  obtain pts where p: "slice_points (int cols) s32ConstNetWidth = Some pts" "\<forall>(x, y) \<in> set pts. roi_ok (int cols) s32ConstNetWidth x y"
    using slice_points_ok [OF assms(2)] by blast
  have "\<forall>p \<in> set pts. slice_start cols p + 640 * 640 \<le> length sq"
    unfolding assms(4) length_square [OF assms(3)] using p(2) slice_start_fits [of cols 640] by (fastforce simp: s32ConstNetWidth_def)
  then obtain inps where i: "slice_inputs (de_swap E) cols 640 pts sq = Some inps" "length inps = length pts" using slice_inputs_spec by blast
  let ?ds = "(None, map (de_swap E) (de_resize E sq s32ConstNetWidth)) # zip (map Some pts) inps"
  have e: "ProcMat E strIp cols rows src a = input_loop E strIp a (int cols) ?ds"
    using p(1) i(1) unfolding assms(4) by (simp add: ProcMat_def ImgToSlices_def s32ConstNetWidth_def Let_def del: input_loop.simps)
  obtain rs where "ProcMat E strIp cols rows src a = Some rs" "\<forall>r \<in> set rs. report_ok r"
    "map seen rs = concat (map (\<lambda>d. concat (map (\<lambda>m. expected E strIp (m_mapResultReportTopic a) (int cols) (fst d) (snd d) (snd m)) (m_mapAlgModel a))) ?ds)"
    unfolding e using input_loop_spec [OF assms(1)] by blast
  with p(1) i show ?thesis unfolding case_prod_beta by (intro exI conjI)
qed

definition example_env :: "(rat, rat, nat, nat) detect_env" where
  "example_env = \<lparr>de_ops = net_ops, de_resize = (\<lambda>sq w. replicate 409600 0), de_swap = id, de_black = 0,
     de_run = (\<lambda>ctx inp. if ctx = 5 then Some [[], replicate 595200 (- 1), replicate 148800 (- 1), example_out] else None),
     de_box = \<lparr>box_x = 0, box_y = 0, box_w = 0, box_h = 0\<rparr>\<rparr>"

definition example_obj :: "nat CDetectAlg" where
  "example_obj = \<lparr>m_mapResultReportTopic = [(''safe1AlgResultReport'', 0), (''safe2AlgResultReport'', 0)], m_mapDataSrcTopic = [],
     m_mapAlgModel = [(''detect1'', 5), (''detect2'', 6)]\<rparr>"

lemma example_thresh: "fConstThresh net_ops = 2 / 5"
  by (simp add: fConstThresh_def net_ops_def rat_ops_def)

lemma example_env_ok: "env_ok example_env"
proof -
  have "outputs_ok [[], replicate 595200 (- 1 :: rat), replicate 148800 (- 1), example_out]"
    by (simp add: outputs_ok_def nboxes_values s32ConstClasses_def example_out_def)
  then show ?thesis using net_ops_laws by (simp add: env_ok_def example_env_def example_thresh)
qed

lemma example_boxes: "model_boxes example_env 5 inp = [example_box]" "model_boxes example_env 6 inp = []" "de_ops example_env = net_ops"
  using example_network by (simp_all add: model_boxes_def example_env_def example_thresh s32ConstNetWidth_def s32ConstNetHeight_def s32ConstClasses_def Let_def)

lemma positions_1280: "positions_of 1280 640 = [0, 320, 640]"
proof -
  have k: "fl32 (of_int 1280 / of_int 640) = 2" "fl32 (2 + 1) = 3" "step 1280 640 = 320" by code_simp+
  have f: "\<lfloor>fl32 (of_int 0 + 320)\<rfloor> = 320" "\<lfloor>fl32 (of_int 320 + 320)\<rfloor> = 640" "\<lfloor>fl32 (of_int 640 + 320)\<rfloor> = 960"
    using fl32_int [of 320] fl32_int [of 640] fl32_int [of 960] by simp_all
  show ?thesis
    unfolding positions_of_def k Let_def by (simp add: positions_step [OF _ f(1)] positions_step [OF _ f(2)]
      positions_step [OF _ f(3)] positions.simps [of _ _ 960])
qed

lemma map_zip_first: "length xs = length ys \<Longrightarrow> map (\<lambda>(x, y). g x) (zip xs ys) = map g xs"
  by (induction xs ys rule: list_induct2) simp_all

theorem detect_reports_witness:
  "\<exists>rs. ProcMat example_env ''10.0.0.1'' 1280 720 (replicate (720 * 1280) 0) example_obj = Some rs \<and>
    map seen rs = concat (map (\<lambda>pt. [(''safe1AlgResultReport'', ''10.0.0.1'', [placed net_ops 1280 pt example_box]),
      (''safe2AlgResultReport'', ''10.0.0.1'', [placed net_ops 1280 pt example_box])])
      [None, Some (0, 0), Some (0, 320), Some (0, 640), Some (320, 0), Some (320, 320), Some (320, 640), Some (640, 0), Some (640, 320), Some (640, 640)])"
proof -
  have w: "width_ok (int 1280)" unfolding width_ok_def by (intro disjI2 exI [of _ 2]) simp
  have pts: "slice_points (int 1280) s32ConstNetWidth =
      Some [(0, 0), (0, 320), (0, 640), (320, 0), (320, 320), (320, 640), (640, 0), (640, 320), (640, 640)]" (is "_ = Some ?pts")
    by (simp add: slice_points_positions positions_1280 s32ConstNetWidth_def roi_ok_def)
  let ?f = "\<lambda>pt inp. concat (map (\<lambda>(_, ctx). expected example_env ''10.0.0.1'' (m_mapResultReportTopic example_obj) (int 1280) pt inp ctx) (m_mapAlgModel example_obj))"
  let ?g = "\<lambda>pt. [(''safe1AlgResultReport'', ''10.0.0.1'', [placed net_ops 1280 pt example_box]), (''safe2AlgResultReport'', ''10.0.0.1'', [placed net_ops 1280 pt example_box])]"
  have f: "?f pt inp = ?g pt" for pt inp
    by (simp add: example_obj_def expected_def example_boxes)
  obtain inps rs where r: "length inps = length ?pts"
    "ProcMat example_env ''10.0.0.1'' 1280 720 (replicate (720 * 1280) 0) example_obj = Some rs"
    "map seen rs = concat (map (\<lambda>(pt, inp). ?f pt inp) ((None, map (de_swap example_env) (de_resize example_env
       (square_img (de_black example_env) 1280 720 (replicate (720 * 1280) 0)) s32ConstNetWidth)) # zip (map Some ?pts) inps))"
    using detect_reports [OF example_env_ok w length_replicate refl, where strIp = "''10.0.0.1''" and a = example_obj] unfolding pts option.inject by blast
  have "map (\<lambda>(pt, inp). ?f pt inp) (zip (map Some ?pts) inps) = map ?g (map Some ?pts)"
    unfolding f by (rule map_zip_first) (simp add: r(1))
  then show ?thesis using r(2,3) unfolding f by simp
qed

text \<open>C32. Whatever is configured, in whatever order, the attachments of an object are the topics it
  remembers, one for every address it reads from. Where no two addresses of an object have the same
  topic - address and code are concatenated, so this is not a matter of course - no attachment is made
  twice, and no picture is processed twice by an object.\<close>

theorem detect_attached_once:
  assumes "create_all rk reqs [] = Some (att, m)" "S = (\<Union>(t, alg, srcs) \<in> set reqs. set srcs)"
    and "\<forall>s \<in> S. \<forall>s1 \<in> S. source_key s = source_key s1 \<and> source_topic s = source_topic s1 \<and> source_topic s \<noteq> None \<longrightarrow>
      jtext ''ip'' s = jtext ''ip'' s1"
  shows "distinct att \<and> (\<forall>tp key. (tp, key) \<in> set att \<longleftrightarrow> (\<exists>a. map_of m key = Some a \<and> tp \<in> snd ` set (m_mapDataSrcTopic a))) \<and>
    (\<forall>key a. map_of m key = Some a \<longrightarrow> distinct (map fst (m_mapDataSrcTopic a)))"
proof -
  have at: "attached_once att m" using create_all_attached [OF attached_once_nil assms(1)] by simp
  then have ob: "obj_ok a" if "map_of m key = Some a" for key a using that by (simp add: attached_once_def)
  have eq: "mset (map fst (filter (\<lambda>c. snd c = key) att)) =
      (case map_of m key of None \<Rightarrow> {#} | Some a \<Rightarrow> mset (map snd (m_mapDataSrcTopic a)))" for key
    using at by (simp add: attached_once_def)
  have keys: "distinct (map fst (m_mapDataSrcTopic a))" if "map_of m key = Some a" for key a
    using ob [OF that] by (auto simp: obj_ok_def smap_ok_def strict_sorted_iff)
  have tf: "topics_from S m" using create_all_topics [of "{}" "[]" rk reqs att m] assms(1,2) by (simp add: topics_from_def)
  have vals: "distinct (map snd (m_mapDataSrcTopic a))" if a: "map_of m key = Some a" for key a
  proof -
    have "ip = ip1" if two: "(ip, tp) \<in> set (m_mapDataSrcTopic a)" "(ip1, tp) \<in> set (m_mapDataSrcTopic a)" for ip ip1 tp
    proof -
      obtain s s1 where "s \<in> S" "source_key s = Some key" "jtext ''ip'' s = Some ip" "source_topic s = Some tp"
        "s1 \<in> S" "source_key s1 = Some key" "jtext ''ip'' s1 = Some ip1" "source_topic s1 = Some tp"
        using tf a two unfolding topics_from_def by meson
      then show ?thesis using assms(3) by (metis option.distinct(1) option.inject)
    qed
    then have "inj_on snd (set (m_mapDataSrcTopic a))" by (intro inj_onI) (metis prod.collapse)
    moreover have "distinct (m_mapDataSrcTopic a)" using keys [OF a] by (simp add: distinct_map)
    ultimately show ?thesis by (simp add: distinct_map)
  qed
  have "distinct (map fst (filter (\<lambda>c. snd c = key) att))" for key
  proof (cases "map_of m key")
    case None
    then have "map fst (filter (\<lambda>c. snd c = key) att) = []" using eq [of key] by (simp only: option.case mset_zero_iff)
    then show ?thesis by simp
  next
    case (Some a)
    then have "mset (map fst (filter (\<lambda>c. snd c = key) att)) = mset (map snd (m_mapDataSrcTopic a))" using eq [of key] by simp
    then show ?thesis using vals [OF Some] mset_eq_imp_distinct_iff by blast
  qed
  then have "distinct att" by (rule distinct_by_key)
  moreover have "(tp, key) \<in> set att \<longleftrightarrow> (\<exists>a. map_of m key = Some a \<and> tp \<in> snd ` set (m_mapDataSrcTopic a))" for tp key
  proof -
    have "(tp, key) \<in> set att \<longleftrightarrow> tp \<in> set_mset (mset (map fst (filter (\<lambda>c. snd c = key) att)))" by force
    then show ?thesis unfolding eq [of key] by (simp split: option.splits)
  qed
  ultimately show ?thesis using keys by blast
qed

definition example_rknn :: "nat rknn" where
  "example_rknn = \<lparr>rk_readable = (\<lambda>f. True), rk_init = (\<lambda>f c. (0, c)), rk_junk = 7\<rparr>"

definition detect_task :: json where
  "detect_task = JObj [(''type'', JStr ''safe''), (''idx'', JStr ''1''), (''task_lst'', JStr ''0'')]"

definition detect_alg :: json where
  "detect_alg = JObj [(''type'', JStr ''detect''), (''idx'', JStr ''1''), (''model'', JObj [(''name'', JStr ''m'')])]"

definition detect_source :: json where
  "detect_source = JObj [(''type'', JStr ''cam''), (''idx'', JStr ''1''), (''ip'', JStr ''10.0.0.1''), (''params'', JObj [(''code'', JStr ''7'')])]"

definition other_source :: json where
  "other_source = JObj [(''type'', JStr ''cam''), (''idx'', JStr ''1''), (''ip'', JStr ''10.0.0.11''), (''params'', JObj [(''code'', JStr ''8'')])]"

theorem detect_attached_once_witness:
  "\<exists>m. create_all example_rknn [(detect_task, detect_alg, [detect_source, other_source]), (detect_task, detect_alg, [detect_source])] [] =
     Some ([(''10.0.0.17GetRtspStream'', ''cam1''), (''10.0.0.118GetRtspStream'', ''cam1'')], m) \<and>
   distinct [(''10.0.0.17GetRtspStream'', ''cam1''), (''10.0.0.118GetRtspStream'', ''cam1'')] \<and>
   (\<exists>a. map_of m ''cam1'' = Some a \<and> ''10.0.0.118GetRtspStream'' \<in> snd ` set (m_mapDataSrcTopic a))"
proof -
  let ?reqs = "[(detect_task, detect_alg, [detect_source, other_source]), (detect_task, detect_alg, [detect_source])]"
  have "map_option fst (create_all example_rknn ?reqs []) = Some [(''10.0.0.17GetRtspStream'', ''cam1''), (''10.0.0.118GetRtspStream'', ''cam1'')]"
    by code_simp
  then obtain m where m: "create_all example_rknn ?reqs [] = Some ([(''10.0.0.17GetRtspStream'', ''cam1''), (''10.0.0.118GetRtspStream'', ''cam1'')], m)" by auto
  have t: "source_topic detect_source = Some ''10.0.0.17GetRtspStream''" "source_topic other_source = Some ''10.0.0.118GetRtspStream''" by code_simp+
  have S: "(\<Union>(t, alg, srcs) \<in> set ?reqs. set srcs) = {detect_source, other_source}" by auto
  have "\<forall>s \<in> {detect_source, other_source}. \<forall>s1 \<in> {detect_source, other_source}.
      source_key s = source_key s1 \<and> source_topic s = source_topic s1 \<and> source_topic s \<noteq> None \<longrightarrow> jtext ''ip'' s = jtext ''ip'' s1"
    using t by simp
  from detect_attached_once [OF m refl, unfolded S, OF this] show ?thesis using m by auto
qed

text \<open>Two addresses and codes that concatenate to the same topic: the object is attached to it twice.\<close>

lemma topic_collision:
  "map_option fst (create_all example_rknn [(detect_task, detect_alg, [
     JObj [(''type'', JStr ''cam''), (''idx'', JStr ''1''), (''ip'', JStr ''10.0.0.1''), (''params'', JObj [(''code'', JStr ''17'')])],
     JObj [(''type'', JStr ''cam''), (''idx'', JStr ''1''), (''ip'', JStr ''10.0.0.11''), (''params'', JObj [(''code'', JStr ''7'')])]])] []) =
   Some [(''10.0.0.117GetRtspStream'', ''cam1''), (''10.0.0.117GetRtspStream'', ''cam1'')]"
  by code_simp

definition far_source :: json where
  "far_source = JObj [(''type'', JStr ''cam''), (''idx'', JStr ''2''), (''ip'', JStr ''10.0.0.2''), (''params'', JObj [(''code'', JStr ''9'')])]"

text \<open>C5. From the camera to the task: the request a detection task makes on its initialisation reaches the
  manager of its algorithm, and the task listens to its result topic. For every data source of the request
  whose key (type and number) no other source of the request has, whatever the manager held before, there
  is then an object under the key that reports to this topic, and what the request attaches it to is exactly this: the
  topic under which the video service publishes the camera's pictures, if the model is there - loaded now, or
  recorded from an earlier request - and the object did not already read from the address; otherwise
  nothing. So when the model cannot be loaded, a new object gets no pictures.\<close>

theorem pictures_reach_task:
  assumes "DetectInit jTaskCfg jAlgCfg (pre @ src # post) d = Some (tcalls, d1)" "\<not> dt_has_bus d"
    and "jtext ''type'' jTaskCfg = Some t" "jtext ''idx'' jTaskCfg = Some i"
    and "DetectMngInitParams True mngCfg = Some (ok, subs)" "jtext ''type'' mngCfg = jtext ''type'' jAlgCfg" "jtext ''idx'' mngCfg = jtext ''idx'' jAlgCfg"
    and "CreateAlgObj rk jTaskCfg jAlgCfg (pre @ src # post) m = Some (att, m1)"
    and "jtext ''type'' jAlgCfg = Some alt" "jtext ''idx'' jAlgCfg = Some ali" "jtext ''name'' (jget ''model'' jAlgCfg) = Some name"
    and "source_key src = Some key" "\<forall>s \<in> set pre \<union> set post. source_key s \<noteq> Some key"
    and "jtext ''ip'' src = Some ip" "jtext ''code'' (jget ''params'' src) = Some code"
    and "a0 = (case map_of m key of None \<Rightarrow> new_CDetectAlg | Some a \<Rightarrow> a)"
  shows "(\<exists>p \<in> set subs. BusRequest p \<in> set tcalls) \<and> BusAttach (AlgResultTopic t i) \<in> set tcalls \<and>
    (\<exists>a. map_of m1 key = Some a \<and> AlgResultTopic t i \<in> fst ` set (m_mapResultReportTopic a)) \<and>
    filter (\<lambda>c. snd c = key) att =
      (if model_there rk (alt @ ali) name a0 \<and> map_of (m_mapDataSrcTopic a0) ip = None then [(RtspStreamTopic ip code, key)] else [])"
proof -
  have "subs = [AlgCreateTopic alt ali]" using assms(5-7,9,10) by (auto simp: DetectMngInitParams_def)
  moreover have "BusRequest (AlgCreateTopic alt ali) \<in> set tcalls" "BusAttach (AlgResultTopic t i) \<in> set tcalls"
    using assms(1-4,9,10) by (auto simp: DetectInit_def split: bind_splits)
  ultimately show ?thesis using CreateAlgObj_source [OF assms(8,3,4,9-16)] by simp
qed

theorem pictures_reach_task_witness:
  "\<exists>tcalls d1 att m a. DetectInit detect_task detect_alg [detect_source, far_source] new_CCommSafeDetect = Some (tcalls, d1) \<and>
     CreateAlgObj example_rknn detect_task detect_alg [detect_source, far_source] [(''cam2'', example_obj)] = Some (att, m) \<and>
     BusRequest ''detect1AlgObjCreate'' \<in> set tcalls \<and> BusAttach ''safe1AlgResultReport'' \<in> set tcalls \<and>
     map_of m ''cam1'' = Some a \<and> ''safe1AlgResultReport'' \<in> fst ` set (m_mapResultReportTopic a) \<and>
     filter (\<lambda>c. snd c = ''cam1'') att = [(''10.0.0.17GetRtspStream'', ''cam1'')]"
proof -
  have "map_option fst (DetectInit detect_task detect_alg [detect_source, far_source] new_CCommSafeDetect) =
      Some [BusAttach ''safe1AlgResultReport'', BusRequest ''detect1AlgObjCreate'']" by code_simp
  then obtain d1 where d: "DetectInit detect_task detect_alg ([] @ detect_source # [far_source]) new_CCommSafeDetect =
      Some ([BusAttach ''safe1AlgResultReport'', BusRequest ''detect1AlgObjCreate''], d1)" by auto
  have "CreateAlgObj example_rknn detect_task detect_alg [detect_source, far_source] [(''cam2'', example_obj)] \<noteq> None" by code_simp
  then obtain att m where m: "CreateAlgObj example_rknn detect_task detect_alg ([] @ detect_source # [far_source]) [(''cam2'', example_obj)] = Some (att, m)" by auto
  have p: "DetectMngInitParams True detect_alg = Some (True, [''detect1AlgObjCreate''])" by code_simp
  have j: "jtext ''type'' detect_task = Some ''safe''" "jtext ''idx'' detect_task = Some ''1''"
    "jtext ''type'' detect_alg = Some ''detect''" "jtext ''idx'' detect_alg = Some ''1''" "jtext ''name'' (jget ''model'' detect_alg) = Some ''m''"
    "source_key detect_source = Some ''cam1''" "source_key far_source = Some ''cam2''"
    "jtext ''ip'' detect_source = Some ''10.0.0.1''" "jtext ''code'' (jget ''params'' detect_source) = Some ''7''" by code_simp+
  have l: "model_there example_rknn (''detect'' @ ''1'') ''m'' new_CDetectAlg" "map_of (m_mapDataSrcTopic new_CDetectAlg) ''10.0.0.1'' = None"
    by (simp_all add: model_there_def model_load_def example_rknn_def new_CDetectAlg_def)
  have b: "\<not> dt_has_bus new_CCommSafeDetect" by (simp add: new_CCommSafeDetect_def)
  have t: "AlgResultTopic ''safe'' ''1'' = ''safe1AlgResultReport''" "RtspStreamTopic ''10.0.0.1'' ''7'' = ''10.0.0.17GetRtspStream''" by code_simp+
  have o: "\<forall>s \<in> set [] \<union> set [far_source]. source_key s \<noteq> Some ''cam1''" using j(7) by simp
  have a: "new_CDetectAlg = (case map_of [(''cam2'', example_obj)] ''cam1'' of None \<Rightarrow> new_CDetectAlg | Some a \<Rightarrow> a)" by simp
  from pictures_reach_task [OF d b j(1,2) p refl refl m j(3-6) o j(8,9) a] show ?thesis using d m l unfolding t by auto
qed

text \<open>A model that could not be loaded counts as loaded from then on: the next configuration with the same
  algorithm succeeds, with the context of the failed load.\<close>

theorem failed_load_remembered:
  assumes "DetectAlgInit rk algCfg a = Some (False, a1)"
  shows "DetectAlgInit rk algCfg a1 = Some (True, a1) \<and>
    (\<exists>key f. map_of (m_mapAlgModel a) key = None \<and> map_of (m_mapAlgModel a1) key = Some (snd (model_load rk f (rk_junk rk))) \<and>
      \<not> fst (model_load rk f (rk_junk rk)))"
proof -
  obtain t i n ctx where h: "jtext ''type'' algCfg = Some t" "jtext ''idx'' algCfg = Some i" "map_of (m_mapAlgModel a) (t @ i) = None"
    "model_load rk (''./model/'' @ n) (rk_junk rk) = (False, ctx)" "a1 = a\<lparr>m_mapAlgModel := smap_insert (t @ i) ctx (m_mapAlgModel a)\<rparr>"
    using assms(1) by (auto simp: DetectAlgInit_def Let_def split: bind_splits if_splits prod.splits)
  have "map_of (m_mapAlgModel a1) (t @ i) = Some ctx" unfolding h(5) by (simp add: map_of_smap_insert [OF h(3)])
  moreover have "DetectAlgInit rk algCfg a1 = Some (True, a1)" using h(1,2) calculation by (simp add: DetectAlgInit_def)
  ultimately show ?thesis using h(3,4) by (metis fst_conv snd_conv)
qed


theorem failed_load_remembered_witness:
  "DetectAlgInit (example_rknn\<lparr>rk_readable := (\<lambda>f. False)\<rparr>) detect_alg (new_CDetectAlg\<lparr>m_mapAlgModel := [(''detect1'', 7)]\<rparr>) =
   Some (True, new_CDetectAlg\<lparr>m_mapAlgModel := [(''detect1'', 7)]\<rparr>)"
proof -
  have "DetectAlgInit (example_rknn\<lparr>rk_readable := (\<lambda>f. False)\<rparr>) detect_alg new_CDetectAlg =
      Some (False, new_CDetectAlg\<lparr>m_mapAlgModel := [(''detect1'', 7)]\<rparr>)" by code_simp
  from failed_load_remembered [OF this] show ?thesis by simp
qed

end
