(* ===== verification/FaceDetect.thy ===== *)
theory FaceDetect
  imports DetectAlg
begin

text \<open>
  The face detection's evaluation of the network (alg/VisionAlgModule/face/FaceDetection.cpp): the prior
  boxes of three feature maps, the boxes decoded from them, the greedy selection by score and overlap, and
  the faces reported. Floating-point operations are an argument. \<^term>\<open>None\<close> is an access outside an array,
  or through a null pointer.
\<close>

section \<open>Prior boxes\<close>

record ('f, 'd) face_ops = "('f, 'd) nms_ops" +
  fl_le :: "'f \<Rightarrow> 'f \<Rightarrow> bool"
  fl_trunc :: "'f \<Rightarrow> int"
  dbl_exp :: "'d \<Rightarrow> 'd"

text \<open>
  The sizes of the feature maps are computed in single precision, on small integers and with strides that
  are powers of two, where it is exact; the conversion to \<open>int\<close> cuts off the fraction.
\<close>

definition to_int :: "rat \<Rightarrow> int" where
  "to_int r = (if 0 \<le> r then \<lfloor>r\<rfloor> else - \<lfloor>- r\<rfloor>)"

definition cov_size :: "int \<Rightarrow> int \<Rightarrow> int \<Rightarrow> int \<Rightarrow> int" where
  "cov_size inp kernel_s stride_s padding_s = to_int ((of_int (inp - kernel_s) + 2 * of_int padding_s) / of_int stride_s + 1)"

definition pol_size :: "int \<Rightarrow> int \<Rightarrow> int \<Rightarrow> int \<Rightarrow> int" where
  "pol_size inp kernel_s stride_s padding_s =
     to_int (of_int \<lceil>(of_int (inp - kernel_s) + 2 * of_int padding_s) / of_int stride_s :: rat\<rceil> + 1)"

definition GetFeatureMapSize2Cov :: "int \<Rightarrow> int \<Rightarrow> int \<Rightarrow> int \<Rightarrow> int \<Rightarrow> int \<times> int" where
  "GetFeatureMapSize2Cov input_w input_h k s p = (cov_size input_w k s p, cov_size input_h k s p)"

definition GetFeatureMapSize2Pol :: "int \<Rightarrow> int \<Rightarrow> int \<Rightarrow> int \<Rightarrow> int \<Rightarrow> int \<times> int" where
  "GetFeatureMapSize2Pol input_w input_h k s p = (pol_size input_w k s p, pol_size input_h k s p)"

fun p_bboxs_dim :: "int \<Rightarrow> int \<Rightarrow> int list \<Rightarrow> int" where
  "p_bboxs_dim fw fh [] = 0"
| "p_bboxs_dim fw fh (s # min_sizes) = (if s = 32 then fh * fw * 4 * 4 * 4
     else if s = 64 then fh * fw * 2 * 2 * 4 else fh * fw * 1 * 4) + p_bboxs_dim fw fh min_sizes"

text \<open>A prior of the two small sizes: as the code has it, the second corner is computed like the first.\<close>

definition small_prior :: "('f, 'd) face_ops \<Rightarrow> int \<Rightarrow> int \<Rightarrow> 'f \<Rightarrow> 'f \<Rightarrow> 'f \<Rightarrow> int \<Rightarrow> int \<Rightarrow> 'f list" where
  "small_prior F image_w image_h c_x c_y bw dj di = (let
     x = fl_div F (fl_sub F (fl_add F c_x (fl_of_int F dj)) (fl_half F (fl_sub F bw (fl_of_int F 1)))) (fl_of_int F image_w);
     y = fl_div F (fl_sub F (fl_add F c_y (fl_of_int F di)) (fl_half F (fl_sub F bw (fl_of_int F 1)))) (fl_of_int F image_h)
     in [x, y, x, y])"

definition large_prior :: "('f, 'd) face_ops \<Rightarrow> int \<Rightarrow> int \<Rightarrow> 'f \<Rightarrow> 'f \<Rightarrow> 'f \<Rightarrow> 'f list" where
  "large_prior F image_w image_h c_x c_y bw =
     [fl_div F (fl_sub F c_x (fl_half F bw)) (fl_of_int F image_w), fl_div F (fl_sub F c_y (fl_half F bw)) (fl_of_int F image_h),
      fl_div F (fl_add F c_x (fl_half F bw)) (fl_of_int F image_w), fl_div F (fl_add F c_y (fl_half F bw)) (fl_of_int F image_h)]"

definition size_priors :: "('f, 'd) face_ops \<Rightarrow> int \<Rightarrow> int \<Rightarrow> 'f \<Rightarrow> 'f \<Rightarrow> int \<Rightarrow> 'f list" where
  "size_priors F image_w image_h c_x c_y s = (let bw = fl_of_int F s in
     if s = 32 then concat (map (\<lambda>i. concat (map (\<lambda>j. small_prior F image_w image_h c_x c_y bw (j * 8) (i * 8)) [-2, -1, 0, 1])) [-2, -1, 0, 1])
     else if s = 64 then concat (map (\<lambda>i. concat (map (\<lambda>j. small_prior F image_w image_h c_x c_y bw (j * 16) (i * 16)) [-1, 0])) [-1, 0])
     else large_prior F image_w image_h c_x c_y bw)"

definition center :: "('f, 'd) face_ops \<Rightarrow> int \<Rightarrow> int \<Rightarrow> 'f" where
  "center F k stp = fl_mul F (fl_add F (fl_of_int F k) (fl_of_dbl F (dbl_lit F (1 / 2)))) (fl_of_int F stp)"

definition map_priors :: "('f, 'd) face_ops \<Rightarrow> int \<Rightarrow> int \<Rightarrow> int \<Rightarrow> int \<Rightarrow> int list \<Rightarrow> int \<Rightarrow> 'f list" where
  "map_priors F image_w image_h feamap_w feamap_h min_sizes stp =
     concat (map (\<lambda>h. concat (map (\<lambda>w. concat (map (size_priors F image_w image_h (center F w stp) (center F h stp)) min_sizes))
       [0..feamap_w - 1])) [0..feamap_h - 1])"

text \<open>The values are written one after the other to an array of the computed size.\<close>

definition GenPriorbox :: "('f, 'd) face_ops \<Rightarrow> int \<Rightarrow> int \<Rightarrow> int \<times> int \<Rightarrow> int list \<Rightarrow> int \<Rightarrow> ('f list \<times> int) option" where
  "GenPriorbox F image_w image_h feamap min_sizes stp = (case feamap of (fw, fh) \<Rightarrow>
     let vals = map_priors F image_w image_h fw fh min_sizes stp; dim = p_bboxs_dim fw fh min_sizes in
     if 0 \<le> dim \<and> int (length vals) \<le> dim
     then Some (vals @ replicate (nat dim - length vals) (fl_zero F), dim) else None)"

definition pyramids :: "int \<Rightarrow> int \<Rightarrow> (int \<times> int) list" where
  "pyramids image_w image_h = (let
     (w, h) = GetFeatureMapSize2Cov image_w image_h 7 4 3;
     (w, h) = GetFeatureMapSize2Pol w h 3 2 0;
     (w, h) = GetFeatureMapSize2Cov w h 5 2 2;
     (w1, h1) = GetFeatureMapSize2Pol w h 3 2 0;
     (w2, h2) = GetFeatureMapSize2Cov w1 h1 3 2 1;
     (w3, h3) = GetFeatureMapSize2Cov w2 h2 3 2 1
     in [(w1, h1), (w2, h2), (w3, h3)])"

text \<open>The inner \<^term>\<open>None\<close> is the null pointer left when the sizes do not match.\<close>

definition GenAllPriorboxs :: "('f, 'd) face_ops \<Rightarrow> int \<Rightarrow> int \<Rightarrow> int \<Rightarrow> 'f list option option" where
  "GenAllPriorboxs F image_w image_h mbox_num = (case pyramids image_w image_h of
     [m1, m2, m3] \<Rightarrow> do {
       (p1, l1) \<leftarrow> GenPriorbox F image_w image_h m1 [32, 64, 128] 32;
       (p2, l2) \<leftarrow> GenPriorbox F image_w image_h m2 [256] 64;
       (p3, l3) \<leftarrow> GenPriorbox F image_w image_h m3 [512] 128;
       Some (if l1 + l2 + l3 \<noteq> mbox_num * 4 then None else Some (p1 @ p2 @ p3))}
   | _ \<Rightarrow> None)"

section \<open>Decoding\<close>

type_synonym 'f corners = "'f \<times> 'f \<times> 'f \<times> 'f"

definition corners_at :: "'f list \<Rightarrow> int \<Rightarrow> 'f corners option" where
  "corners_at bs idx = do {
     a \<leftarrow> get bs (idx * 4);
     b \<leftarrow> get bs (idx * 4 + 1);
     c \<leftarrow> get bs (idx * 4 + 2);
     d \<leftarrow> get bs (idx * 4 + 3);
     Some (a, b, c, d)}"

definition decode_center :: "('f, 'd) face_ops \<Rightarrow> 'f \<Rightarrow> 'f \<Rightarrow> 'f \<Rightarrow> 'f" where
  "decode_center F t p_w p_c = fl_of_dbl F (dbl_add F (dbl_mul F (dbl_mul F (dbl_lit F (1 / 10)) (dbl F t)) (dbl F p_w)) (dbl F p_c))"

definition decode_size :: "('f, 'd) face_ops \<Rightarrow> 'f \<Rightarrow> 'f \<Rightarrow> 'f" where
  "decode_size F t p_w = fl_of_dbl F (dbl_mul F (dbl_exp F (dbl_mul F (dbl_lit F (1 / 5)) (dbl F t))) (dbl F p_w))"

definition decode_box :: "('f, 'd) face_ops \<Rightarrow> 'f corners \<Rightarrow> 'f corners \<Rightarrow> 'f corners" where
  "decode_box F t p = (case (t, p) of ((t0, t1, t2, t3), (p0, p1, p2, p3)) \<Rightarrow> let
     p_w = fl_sub F p2 p0; p_h = fl_sub F p3 p1;
     p_cx = fl_half F (fl_add F p2 p0); p_cy = fl_half F (fl_add F p3 p1);
     cx = decode_center F t0 p_w p_cx; cy = decode_center F t1 p_h p_cy;
     w = decode_size F t2 p_w; h = decode_size F t3 p_h;
     b0 = fl_sub F cx (fl_half F w); b1 = fl_sub F cy (fl_half F h);
     b2 = fl_add F cx (fl_half F w); b3 = fl_add F cy (fl_half F h)
     in (if fl_less F b0 (fl_zero F) then fl_zero F else b0, if fl_less F b1 (fl_zero F) then fl_zero F else b1,
         if fl_less F (fl_of_int F 1) b2 then fl_of_int F 1 else b2, if fl_less F (fl_of_int F 1) b3 then fl_of_int F 1 else b3))"

fun decode_loop :: "('f, 'd) face_ops \<Rightarrow> 'f list \<Rightarrow> 'f list option \<Rightarrow> int \<Rightarrow> nat \<Rightarrow> 'f list option" where
  "decode_loop F ts ps i 0 = Some []"
| "decode_loop F ts ps i (Suc n) = do {
     p_bboxes \<leftarrow> ps;
     t \<leftarrow> corners_at ts i;
     p \<leftarrow> corners_at p_bboxes i;
     rest \<leftarrow> decode_loop F ts ps (i + 1) n;
     (case decode_box F t p of (b0, b1, b2, b3) \<Rightarrow> Some (b0 # b1 # b2 # b3 # rest))}"

section \<open>Selection\<close>

text \<open>The library's stable sort, by descending score.\<close>

fun sort_in :: "('f, 'd) face_ops \<Rightarrow> int \<times> 'f \<Rightarrow> (int \<times> 'f) list \<Rightarrow> (int \<times> 'f) list" where
  "sort_in F x [] = [x]"
| "sort_in F x (y # ys) = (if fl_less F (snd y) (snd x) then x # y # ys else y # sort_in F x ys)"

definition stable_sort :: "('f, 'd) face_ops \<Rightarrow> (int \<times> 'f) list \<Rightarrow> (int \<times> 'f) list" where
  "stable_sort F xs = foldl (\<lambda>ys x. sort_in F x ys) [] xs"

text \<open>The vector always gets \<open>top_k\<close> entries; those beyond the scores above the threshold are zero.\<close>

definition GetMaxScoreIndex :: "('f, 'd) face_ops \<Rightarrow> 'f list \<Rightarrow> 'f \<Rightarrow> nat \<Rightarrow> (int \<times> 'f) list" where
  "GetMaxScoreIndex F scores thresh top_k = (let
     tmp = stable_sort F (filter (\<lambda>e. fl_less F thresh (snd e)) (zip [0..int (length scores) - 1] scores));
     top_num = (if length tmp < top_k then length tmp else top_k)
     in take top_num tmp @ replicate (top_k - top_num) (0, fl_zero F))"

definition IntersectBBox :: "('f, 'd) face_ops \<Rightarrow> 'f corners \<Rightarrow> 'f corners \<Rightarrow> 'f corners" where
  "IntersectBBox F b0 b1 = (case (b0, b1) of ((x0, y0, u0, v0), (x1, y1, u1, v1)) \<Rightarrow>
     if fl_less F u0 x1 \<or> fl_less F u1 x0 \<or> fl_less F v1 y0 \<or> fl_less F v0 y1
     then (fl_zero F, fl_zero F, fl_zero F, fl_zero F)
     else (if fl_less F x0 x1 then x1 else x0, if fl_less F y0 y1 then y1 else y0,
           if fl_less F u1 u0 then u1 else u0, if fl_less F v1 v0 then v1 else v0))"

definition BBoxSize :: "('f, 'd) face_ops \<Rightarrow> 'f corners \<Rightarrow> 'f" where
  "BBoxSize F b = (case b of (x, y, u, v) \<Rightarrow>
     if fl_less F u x \<or> fl_less F v y then fl_zero F else fl_mul F (fl_sub F u x) (fl_sub F v y))"

definition JaccardOverlap :: "('f, 'd) face_ops \<Rightarrow> 'f corners \<Rightarrow> 'f corners \<Rightarrow> 'f" where
  "JaccardOverlap F b0 b1 = (case IntersectBBox F b0 b1 of (x, y, u, v) \<Rightarrow> let
     w = fl_sub F u x; h = fl_sub F v y in
     if fl_less F (fl_zero F) h \<and> fl_less F (fl_zero F) w
     then (let inter_size = fl_mul F w h in
       fl_div F inter_size (fl_sub F (fl_add F (BBoxSize F b0) (BBoxSize F b1)) inter_size))
     else fl_zero F)"

text \<open>Whether a box overlaps none of the kept ones too much.\<close>

fun keep_box :: "('f, 'd) face_ops \<Rightarrow> 'f list \<Rightarrow> 'f \<Rightarrow> int \<Rightarrow> int list \<Rightarrow> bool option" where
  "keep_box F bs nms_thresh idx [] = Some True"
| "keep_box F bs nms_thresh idx (kept_idx # indices) = do {
     b0 \<leftarrow> corners_at bs idx;
     b1 \<leftarrow> corners_at bs kept_idx;
     if fl_le F (JaccardOverlap F b0 b1) nms_thresh then keep_box F bs nms_thresh idx indices else Some False}"

fun nms_loop :: "('f, 'd) face_ops \<Rightarrow> 'f list \<Rightarrow> 'f \<Rightarrow> (int \<times> 'f) list \<Rightarrow> int list \<Rightarrow> int list option" where
  "nms_loop F bs nms_thresh [] indices = Some indices"
| "nms_loop F bs nms_thresh (e # idx_scores) indices = do {
     keep \<leftarrow> keep_box F bs nms_thresh (fst e) indices;
     nms_loop F bs nms_thresh idx_scores (if keep then indices @ [fst e] else indices)}"

definition ApplyNMSFast :: "('f, 'd) face_ops \<Rightarrow> 'f list \<Rightarrow> 'f list \<Rightarrow> 'f \<Rightarrow> 'f \<Rightarrow> nat \<Rightarrow> int list option" where
  "ApplyNMSFast F bs confs conf_thresh nms_thresh top_k = nms_loop F bs nms_thresh (GetMaxScoreIndex F confs conf_thresh top_k) []"


section \<open>The output of the network\<close>

fun class1_confs :: "'f list \<Rightarrow> int \<Rightarrow> nat \<Rightarrow> 'f list option" where
  "class1_confs conf_data i 0 = Some []"
| "class1_confs conf_data i (Suc n) = do {
     x \<leftarrow> get conf_data (i * 2 + 1);
     xs \<leftarrow> class1_confs conf_data (i + 1) n;
     Some (x # xs)}"

fun scores_of :: "'f list \<Rightarrow> int list \<Rightarrow> (int \<times> 'f) list option" where
  "scores_of confs [] = Some []"
| "scores_of confs (i # indices) = do {
     x \<leftarrow> get confs i;
     xs \<leftarrow> scores_of confs indices;
     Some ((i, x) # xs)}"

text \<open>The seven numbers of a result: two constants, the score and the corners in pixels.\<close>

type_synonym 'f face_result = "'f \<times> 'f corners"

fun result_loop :: "('f, 'd) face_ops \<Rightarrow> int \<Rightarrow> int \<Rightarrow> 'f list \<Rightarrow> 'f \<Rightarrow> (int \<times> 'f) list \<Rightarrow> 'f face_result list option" where
  "result_loop F image_w image_h bs face_thresh [] = Some []"
| "result_loop F image_w image_h bs face_thresh ((idx, sc) # idx_scores) =
     (if fl_less F sc face_thresh then result_loop F image_w image_h bs face_thresh idx_scores
      else do {
        (b0, b1, b2, b3) \<leftarrow> corners_at bs idx;
        rest \<leftarrow> result_loop F image_w image_h bs face_thresh idx_scores;
        let W = fl_of_int F image_w;
        let H = fl_of_int F image_h;
        Some ((sc, (fl_mul F b0 W, fl_mul F b1 H, fl_mul F b2 W, fl_mul F b3 H)) # rest)})"

definition top_k :: nat where "top_k = 100"

definition conf_thresh :: "('f, 'd) face_ops \<Rightarrow> 'f" where
  "conf_thresh F = fl_of_dbl F (dbl_lit F (1 / 100))"

definition nms_thresh :: "('f, 'd) face_ops \<Rightarrow> 'f" where
  "nms_thresh F = fl_of_dbl F (dbl_lit F (15 / 100))"

definition DetectOutput :: "('f, 'd) face_ops \<Rightarrow> nat \<Rightarrow> int \<Rightarrow> int \<Rightarrow> 'f list \<Rightarrow> 'f list \<Rightarrow> 'f \<Rightarrow> 'f face_result list option" where
  "DetectOutput F mbox_num image_w image_h loc_data conf_data face_thresh = do {
     confs \<leftarrow> class1_confs conf_data 0 mbox_num;
     p_bboxes \<leftarrow> GenAllPriorboxs F image_w image_h (int mbox_num);
     bs \<leftarrow> decode_loop F loc_data p_bboxes 0 mbox_num;
     indices \<leftarrow> ApplyNMSFast F bs confs (conf_thresh F) (nms_thresh F) top_k;
     if indices = [] then Some []
     else do {
       idx_scores \<leftarrow> scores_of confs indices;
       let sorted_scores = stable_sort F idx_scores;
       let det_num = (if top_k < length indices then top_k else length indices);
       result_loop F image_w image_h bs face_thresh (take det_num sorted_scores)}}"

record 'f FaceRectInfo =
  fr_x :: int
  fr_y :: int
  fr_width :: int
  fr_height :: int
  fr_score :: 'f

definition scale_face :: "('f, 'd) face_ops \<Rightarrow> int \<times> int \<Rightarrow> int \<times> int \<Rightarrow> 'f FaceRectInfo \<Rightarrow> 'f FaceRectInfo" where
  "scale_face F src re r = (let
     sx = fl_div F (fl_of_int F (fst src)) (fl_of_int F (fst re));
     sy = fl_div F (fl_of_int F (snd src)) (fl_of_int F (snd re));
     scl = (\<lambda>s v. fl_trunc F (fl_mul F (fl_of_int F v) s))
     in r\<lparr>fr_x := scl sx (fr_x r), fr_y := scl sy (fr_y r), fr_width := scl sx (fr_width r), fr_height := scl sy (fr_height r)\<rparr>)"

text \<open>A face of width or height zero is dropped; sizes of zero ask for no scaling.\<close>

fun trans_loop :: "('f, 'd) face_ops \<Rightarrow> int \<times> int \<Rightarrow> int \<times> int \<Rightarrow> 'f face_result list \<Rightarrow> 'f FaceRectInfo list" where
  "trans_loop F src re [] = []"
| "trans_loop F src re ((sc, (x, y, u, v)) # faceinfos) = (let
     r = \<lparr>fr_x = fl_trunc F x, fr_y = fl_trunc F y, fr_width = fl_trunc F (fl_sub F u x), fr_height = fl_trunc F (fl_sub F v y), fr_score = sc\<rparr> in
     if fr_width r = 0 \<or> fr_height r = 0 then trans_loop F src re faceinfos
     else (if 0 < snd re \<and> 0 < fst re then scale_face F src re r else r) # trans_loop F src re faceinfos)"

definition OutputTrans :: "('f, 'd) face_ops \<Rightarrow> 'f list \<Rightarrow> 'f list \<Rightarrow> int \<times> int \<Rightarrow> int \<times> int \<Rightarrow> int \<times> int \<Rightarrow> 'f \<Rightarrow> 'f FaceRectInfo list option" where
  "OutputTrans F loc_data conf_data src mid re thresh =
     map_option (trans_loop F src re) (DetectOutput F (length conf_data div 2) (fst mid) (snd mid) loc_data conf_data thresh)"

text \<open>One run: nothing when the network fails, the threshold is a constant of the object.\<close>

definition FaceDetectRun :: "('f, 'd) face_ops \<Rightarrow> ('p list \<Rightarrow> ('f list \<times> 'f list) option) \<Rightarrow> int \<times> int \<Rightarrow> 'p list \<Rightarrow> int \<times> int \<Rightarrow> int \<times> int \<Rightarrow>
    'f FaceRectInfo list option" where
  "FaceDetectRun F run src midImg mid re = (case run midImg of
     None \<Rightarrow> Some []
   | Some (loc_data, conf_data) \<Rightarrow> OutputTrans F loc_data conf_data src mid re (fl_of_dbl F (dbl_lit F (9 / 10))))"

section \<open>The arrays of priors\<close>

lemma length_concat_map: "(\<And>x. x \<in> set xs \<Longrightarrow> length (f x) = n) \<Longrightarrow> length (concat (map f xs)) = length xs * n"
  by (induction xs) auto

lemma length_size_priors: "int (length (size_priors F iw ih cx cy s)) = p_bboxs_dim 1 1 [s]"
  by (simp add: size_priors_def small_prior_def large_prior_def Let_def)

lemma p_bboxs_dim_mult: "p_bboxs_dim fw fh ss = fh * fw * p_bboxs_dim 1 1 ss"
  by (induction ss) (simp_all add: distrib_left)

lemma p_bboxs_dim_Cons: "p_bboxs_dim fw fh (s # ss) = p_bboxs_dim fw fh [s] + p_bboxs_dim fw fh ss"
  by simp

lemma p_bboxs_dim_nonneg: "0 \<le> p_bboxs_dim 1 1 ss"
  by (induction ss) simp_all

lemma length_sizes: "int (length (concat (map (size_priors F iw ih cx cy) ss))) = p_bboxs_dim 1 1 ss"
proof (induction ss)
  case (Cons s ss)
  then show ?case unfolding p_bboxs_dim_Cons [of 1 1 s ss] using length_size_priors [of F iw ih cx cy s] by simp
qed simp

lemma length_map_priors:
  assumes "0 \<le> fw" "0 \<le> fh"
  shows "int (length (map_priors F iw ih fw fh ss stp)) = p_bboxs_dim fw fh ss"
proof -
  have c: "length (concat (map (size_priors F iw ih cx cy) ss)) = nat (p_bboxs_dim 1 1 ss)" for cx cy
    using length_sizes [of F iw ih cx cy ss] by simp
  have "length (map_priors F iw ih fw fh ss stp) = nat fh * (nat fw * nat (p_bboxs_dim 1 1 ss))"
    unfolding map_priors_def by (simp add: length_concat_map c)
  then have "int (length (map_priors F iw ih fw fh ss stp)) = fh * (fw * p_bboxs_dim 1 1 ss)"
    using assms p_bboxs_dim_nonneg [of ss] by simp
  then show ?thesis unfolding p_bboxs_dim_mult [of fw fh ss] by simp
qed

lemma GenPriorbox_fits:
  assumes "0 \<le> fw" "0 \<le> fh"
  shows "GenPriorbox F iw ih (fw, fh) ss stp = Some (map_priors F iw ih fw fh ss stp, p_bboxs_dim fw fh ss)"
proof -
  have "0 \<le> p_bboxs_dim fw fh ss" unfolding p_bboxs_dim_mult [of fw fh ss] using assms p_bboxs_dim_nonneg by simp
  then show ?thesis using length_map_priors [OF assms, of F iw ih ss stp] by (simp add: GenPriorbox_def Let_def)
qed

text \<open>For the network's pictures of 800 by 464 pixels.\<close>

lemma map_sizes:
  "cov_size 800 7 4 3 = 200" "cov_size 464 7 4 3 = 116" "pol_size 200 3 2 0 = 100" "pol_size 116 3 2 0 = 58"
  "cov_size 100 5 2 2 = 50" "cov_size 58 5 2 2 = 29" "pol_size 50 3 2 0 = 25" "pol_size 29 3 2 0 = 14"
  "cov_size 25 3 2 1 = 13" "cov_size 14 3 2 1 = 7" "cov_size 13 3 2 1 = 7" "cov_size 7 3 2 1 = 4"
  by (simp_all add: cov_size_def pol_size_def to_int_def floor_eq_iff ceiling_eq_iff)

lemma pyramids_net: "pyramids 800 464 = [(25, 14), (13, 7), (7, 4)]"
  by (simp add: pyramids_def GetFeatureMapSize2Cov_def GetFeatureMapSize2Pol_def map_sizes)

definition net_priors :: "('f, 'd) face_ops \<Rightarrow> 'f list" where
  "net_priors F = map_priors F 800 464 25 14 [32, 64, 128] 32 @ map_priors F 800 464 13 7 [256] 64 @ map_priors F 800 464 7 4 [512] 128"

lemma length_net_priors: "length (net_priors F) = 4 * 7469"
proof -
  have "int (length (net_priors F)) = 4 * 7469" unfolding net_priors_def by (simp add: length_map_priors)
  then show ?thesis by linarith
qed

lemma GenAllPriorboxs_net:
  "GenAllPriorboxs F 800 464 mbox_num = Some (if mbox_num = 7469 then Some (net_priors F) else None)"
  by (simp add: GenAllPriorboxs_def pyramids_net GenPriorbox_fits net_priors_def)

lemma corners_at_some: "0 \<le> i \<Longrightarrow> i * 4 + 3 < int (length bs) \<Longrightarrow> \<exists>b. corners_at bs i = Some b"
  by (simp add: corners_at_def get_def)

lemma decode_loop_some:
  assumes "0 \<le> i" "(i + int n) * 4 \<le> int (length ts)" "(i + int n) * 4 \<le> int (length ps)"
  shows "\<exists>bs. decode_loop F ts (Some ps) i n = Some bs \<and> length bs = 4 * n"
  using assms
proof (induction n arbitrary: i)
  case (Suc n)
  obtain t where t: "corners_at ts i = Some t" using corners_at_some [of i ts] Suc.prems by auto
  obtain q where q: "corners_at ps i = Some q" using corners_at_some [of i ps] Suc.prems by auto
  obtain bs where bs: "decode_loop F ts (Some ps) (i + 1) n = Some bs" "length bs = 4 * n"
    using Suc.IH [of "i + 1"] Suc.prems by (auto simp: add.assoc)
  obtain b0 b1 b2 b3 where "decode_box F t q = (b0, b1, b2, b3)" by (cases "decode_box F t q")
  then show ?case using t q bs by simp
qed simp

lemma decode_loop_null: "decode_loop F ts None i (Suc n) = None"
  by simp

section \<open>The order of the scores\<close>

lemma sort_in_mset: "mset (sort_in F x xs) = add_mset x (mset xs)"
  by (induction F x xs rule: sort_in.induct) simp_all

lemma foldl_sort_mset: "mset (foldl (\<lambda>ys x. sort_in F x ys) acc xs) = mset acc + mset xs"
  by (induction xs arbitrary: acc) (simp_all add: sort_in_mset)

lemma stable_sort_mset: "mset (stable_sort F xs) = mset xs"
  unfolding stable_sort_def using foldl_sort_mset [of F "[]"] by simp

lemma stable_sort_set: "set (stable_sort F xs) = set xs"
  using stable_sort_mset by (metis set_mset_mset)

lemma stable_sort_length: "length (stable_sort F xs) = length xs"
  using stable_sort_mset by (metis size_mset)

text \<open>Among the scores above a threshold, which are numbers, the comparison is assumed to be a total preorder.\<close>

definition order_law :: "('f, 'd) face_ops \<Rightarrow> 'f \<Rightarrow> bool" where
  "order_law F t \<longleftrightarrow> (\<forall>x y z. fl_less F t x \<longrightarrow> fl_less F t y \<longrightarrow> fl_less F t z \<longrightarrow>
     (fl_less F x y \<longrightarrow> \<not> fl_less F y x) \<and> (\<not> fl_less F x y \<longrightarrow> \<not> fl_less F y z \<longrightarrow> \<not> fl_less F x z))"

definition desc :: "('f, 'd) face_ops \<Rightarrow> (int \<times> 'f) list \<Rightarrow> bool" where
  "desc F xs \<longleftrightarrow> sorted_wrt (\<lambda>a b. \<not> fl_less F (snd a) (snd b)) xs"

lemma sort_in_set: "set (sort_in F x ys) = insert x (set ys)"
  using sort_in_mset [of F x ys] by (metis set_mset_add_mset_insert set_mset_mset)

lemma sort_in_desc:
  "order_law F t \<Longrightarrow> \<forall>y \<in> set (x # xs). fl_less F t (snd y) \<Longrightarrow> desc F xs \<Longrightarrow> desc F (sort_in F x xs)"
proof (induction F x xs rule: sort_in.induct)
  case (2 F x y ys)
  have law: "fl_less F (snd y) (snd x) \<Longrightarrow> \<not> fl_less F (snd x) (snd y)"
    "\<And>z. z \<in> set ys \<Longrightarrow> \<not> fl_less F (snd x) (snd y) \<Longrightarrow> \<not> fl_less F (snd y) (snd z) \<Longrightarrow> \<not> fl_less F (snd x) (snd z)"
    using 2(2,3) unfolding order_law_def by (metis list.set_intros(1,2))+
  show ?case
  proof (cases "fl_less F (snd y) (snd x)")
    case True
    then show ?thesis using law 2(4) by (auto simp: desc_def)
  next
    case False
    then have "desc F (sort_in F x ys)" using 2 by (simp add: desc_def)
    then show ?thesis using False 2(4) by (simp add: desc_def sort_in_set)
  qed
qed (simp add: desc_def)

lemma foldl_sort_desc:
  "order_law F t \<Longrightarrow> \<forall>y \<in> set (acc @ xs). fl_less F t (snd y) \<Longrightarrow> desc F acc \<Longrightarrow> desc F (foldl (\<lambda>ys x. sort_in F x ys) acc xs)"
proof (induction xs arbitrary: acc)
  case (Cons x xs)
  then have "desc F (sort_in F x acc)" by (intro sort_in_desc [OF Cons.prems(1)]) simp_all
  with Cons show ?case by (simp add: sort_in_set)
qed simp

lemma stable_sort_desc: "order_law F t \<Longrightarrow> \<forall>y \<in> set xs. fl_less F t (snd y) \<Longrightarrow> desc F (stable_sort F xs)"
  unfolding stable_sort_def by (rule foldl_sort_desc) (simp_all add: desc_def)


section \<open>The greedy selection\<close>

definition box_at :: "'f list \<Rightarrow> int \<Rightarrow> bool" where
  "box_at bs i \<longleftrightarrow> 0 \<le> i \<and> i * 4 + 3 < int (length bs)"

definition apart :: "('f, 'd) face_ops \<Rightarrow> 'f list \<Rightarrow> 'f \<Rightarrow> int \<Rightarrow> int \<Rightarrow> bool" where
  "apart F bs t i k \<longleftrightarrow> fl_le F (JaccardOverlap F (the (corners_at bs i)) (the (corners_at bs k))) t"

lemma box_at_corners: "box_at bs i \<Longrightarrow> corners_at bs i = Some (the (corners_at bs i))"
  using corners_at_some [of i bs] by (auto simp: box_at_def)

lemma keep_box_some:
  "box_at bs i \<Longrightarrow> \<forall>k \<in> set ks. box_at bs k \<Longrightarrow> keep_box F bs t i ks = Some (\<forall>k \<in> set ks. apart F bs t i k)"
proof (induction ks)
  case (Cons k ks)
  obtain b0 b1 where "corners_at bs i = Some b0" "corners_at bs k = Some b1"
    using box_at_corners [OF Cons.prems(1)] box_at_corners [of bs k] Cons.prems(2) by auto
  then have "keep_box F bs t i (k # ks) = (if apart F bs t i k then keep_box F bs t i ks else Some False)"
    by (simp add: apart_def)
  then show ?case using Cons by simp
qed simp

lemma nms_loop_append:
  "nms_loop F bs t (es @ es') ks = do {ks1 \<leftarrow> nms_loop F bs t es ks; nms_loop F bs t es' ks1}"
proof (induction es arbitrary: ks)
  case (Cons e es)
  then show ?case by (cases "keep_box F bs t (fst e) ks") simp_all
qed simp

text \<open>The boxes kept are apart; a box that is not kept is too close to a kept one, which comes before it.\<close>

lemma nms_loop_spec:
  assumes "\<forall>e \<in> set es. box_at bs (fst e)" "\<forall>k \<in> set ks. box_at bs k" "sorted_wrt (\<lambda>k i. apart F bs t i k) ks" "sorted_wrt P es"
  shows "\<exists>new. nms_loop F bs t es ks = Some (ks @ new) \<and> length new \<le> length es \<and> set new \<subseteq> fst ` set es \<and>
    sorted_wrt (\<lambda>k i. apart F bs t i k) (ks @ new) \<and>
    (\<forall>e \<in> set es. fst e \<in> set new \<or> (\<exists>k \<in> set ks. \<not> apart F bs t (fst e) k) \<or>
      (\<exists>e' \<in> set es. fst e' \<in> set new \<and> \<not> apart F bs t (fst e) (fst e') \<and> P e' e))"
  using assms
proof (induction es arbitrary: ks)
  case (Cons e es)
  have k: "keep_box F bs t (fst e) ks = Some (\<forall>k \<in> set ks. apart F bs t (fst e) k)"
    using Cons.prems(1,2) by (intro keep_box_some) simp_all
  show ?case
  proof (cases "\<forall>k \<in> set ks. apart F bs t (fst e) k")
    case True
    then have "sorted_wrt (\<lambda>k i. apart F bs t i k) (ks @ [fst e])" using Cons.prems(3) by (simp add: sorted_wrt_append)
    moreover have "\<forall>k \<in> set (ks @ [fst e]). box_at bs k" using Cons.prems(1,2) by auto
    ultimately obtain new where n: "nms_loop F bs t es (ks @ [fst e]) = Some ((ks @ [fst e]) @ new)" "length new \<le> length es" "set new \<subseteq> fst ` set es"
      "sorted_wrt (\<lambda>k i. apart F bs t i k) ((ks @ [fst e]) @ new)"
      "\<forall>e1 \<in> set es. fst e1 \<in> set new \<or> (\<exists>k \<in> set (ks @ [fst e]). \<not> apart F bs t (fst e1) k) \<or>
        (\<exists>e' \<in> set es. fst e' \<in> set new \<and> \<not> apart F bs t (fst e1) (fst e') \<and> P e' e1)"
      using Cons.IH [of "ks @ [fst e]"] Cons.prems(1,4) by auto
    have "fst e1 \<in> set (fst e # new) \<or> (\<exists>k \<in> set ks. \<not> apart F bs t (fst e1) k) \<or>
        (\<exists>e' \<in> set (e # es). fst e' \<in> set (fst e # new) \<and> \<not> apart F bs t (fst e1) (fst e') \<and> P e' e1)" if "e1 \<in> set (e # es)" for e1
    proof (cases "e1 = e")
      case False
      then have e1: "e1 \<in> set es" "P e e1" using that Cons.prems(4) by simp_all
      then show ?thesis using n(5) by auto
    qed simp
    moreover have "nms_loop F bs t (e # es) ks = Some (ks @ fst e # new)" using k True n(1) by simp
    ultimately show ?thesis using n(2-4) by (intro exI [of _ "fst e # new"]) auto
  next
    case False
    obtain new where n: "nms_loop F bs t es ks = Some (ks @ new)" "length new \<le> length es" "set new \<subseteq> fst ` set es"
      "sorted_wrt (\<lambda>k i. apart F bs t i k) (ks @ new)"
      "\<forall>e1 \<in> set es. fst e1 \<in> set new \<or> (\<exists>k \<in> set ks. \<not> apart F bs t (fst e1) k) \<or>
        (\<exists>e' \<in> set es. fst e' \<in> set new \<and> \<not> apart F bs t (fst e1) (fst e') \<and> P e' e1)"
      using Cons.IH [of ks] Cons.prems by auto
    moreover have "nms_loop F bs t (e # es) ks = Some (ks @ new)" using k False n(1) by simp
    ultimately show ?thesis using False by (intro exI [of _ new]) auto
  qed
qed simp

text \<open>The candidates: the boxes whose score passes the threshold, the best \<open>k\<close> of them.\<close>

definition face_candidates :: "('f, 'd) face_ops \<Rightarrow> 'f list \<Rightarrow> 'f \<Rightarrow> nat \<Rightarrow> (int \<times> 'f) list" where
  "face_candidates F confs t k = take k (stable_sort F (filter (\<lambda>e. fl_less F t (snd e)) (zip [0..int (length confs) - 1] confs)))"

lemma GetMaxScoreIndex_candidates:
  "GetMaxScoreIndex F confs t k = face_candidates F confs t k @ replicate (k - length (face_candidates F confs t k)) (0, fl_zero F)"
  by (auto simp: GetMaxScoreIndex_def face_candidates_def Let_def min_def)

lemma face_candidates_index:
  assumes "e \<in> set (face_candidates F confs t k)"
  shows "0 \<le> fst e \<and> fst e < int (length confs) \<and> snd e = confs ! nat (fst e) \<and> fl_less F t (snd e)"
proof -
  have "e \<in> set (zip [0..int (length confs) - 1] confs)" "fl_less F t (snd e)"
    using assms by (auto simp: face_candidates_def stable_sort_set dest!: in_set_takeD)
  then show ?thesis by (auto simp: in_set_zip) (metis nat_int)
qed

lemma face_candidates_desc:
  assumes "order_law F t"
  shows "desc F (face_candidates F confs t k)"
proof -
  have "desc F (stable_sort F (filter (\<lambda>e. fl_less F t (snd e)) (zip [0..int (length confs) - 1] confs)))"
    using assms by (intro stable_sort_desc) auto
  then show ?thesis unfolding face_candidates_def desc_def by (rule sorted_wrt_take)
qed

lemma sorted_wrt_true: "sorted_wrt (\<lambda>a b. True) xs"
  by (induction xs) simp_all

lemma nms_loop_start:
  assumes "\<forall>e \<in> set es. box_at bs (fst e)" "sorted_wrt P es"
  shows "\<exists>new. nms_loop F bs t es [] = Some new \<and> length new \<le> length es \<and> set new \<subseteq> fst ` set es \<and>
    sorted_wrt (\<lambda>k i. apart F bs t i k) new \<and>
    (\<forall>e \<in> set es. fst e \<in> set new \<or> (\<exists>e' \<in> set es. fst e' \<in> set new \<and> \<not> apart F bs t (fst e) (fst e') \<and> P e' e))"
  using nms_loop_spec [OF assms(1) _ _ assms(2), of "[]" F t] by (simp only: list.set ball_simps bex_simps append_Nil sorted_wrt.simps simp_thms)

lemma ApplyNMSFast_spec:
  assumes "order_law F ct" "length bs = 4 * length confs" "confs \<noteq> []"
  shows "\<exists>inds. ApplyNMSFast F bs confs ct nt k = Some inds \<and> length inds \<le> k \<and> set inds \<subseteq> {0..<int (length confs)} \<and>
    sorted_wrt (\<lambda>i j. apart F bs nt j i) inds \<and>
    (\<forall>e \<in> set (face_candidates F confs ct k). fst e \<in> set inds \<or>
      (\<exists>e' \<in> set (face_candidates F confs ct k). fst e' \<in> set inds \<and> \<not> apart F bs nt (fst e) (fst e') \<and> \<not> fl_less F (snd e') (snd e)))"
proof -
  let ?c = "face_candidates F confs ct k"
  let ?pad = "replicate (k - length ?c) (0 :: int, fl_zero F)"
  have cl: "length ?c \<le> k" by (simp add: face_candidates_def)
  have at: "box_at bs i" if "0 \<le> i" "i < int (length confs)" for i using that assms(2) by (simp add: box_at_def)
  have c: "\<forall>e \<in> set ?c. box_at bs (fst e)" using face_candidates_index [of _ F confs ct k] by (auto intro!: at)
  have pad: "\<forall>e \<in> set ?pad. box_at bs (fst e)" using at [of 0] assms(3) by simp
  obtain n1 where n1: "nms_loop F bs nt ?c [] = Some n1" "length n1 \<le> length ?c" "set n1 \<subseteq> fst ` set ?c"
    "sorted_wrt (\<lambda>k i. apart F bs nt i k) n1"
    "\<forall>e \<in> set ?c. fst e \<in> set n1 \<or> (\<exists>e' \<in> set ?c. fst e' \<in> set n1 \<and> \<not> apart F bs nt (fst e) (fst e') \<and> \<not> fl_less F (snd e') (snd e))"
    using nms_loop_start [OF c face_candidates_desc [OF assms(1), unfolded desc_def], of F nt] by blast
  have b1: "\<forall>i \<in> set n1. box_at bs i" using n1(3) c by auto
  obtain n2 where n2: "nms_loop F bs nt ?pad n1 = Some (n1 @ n2)" "length n2 \<le> length ?pad" "set n2 \<subseteq> fst ` set ?pad"
    "sorted_wrt (\<lambda>k i. apart F bs nt i k) (n1 @ n2)"
    using nms_loop_spec [OF pad b1 n1(4) sorted_wrt_true] by blast
  have "ApplyNMSFast F bs confs ct nt k = Some (n1 @ n2)"
    unfolding ApplyNMSFast_def GetMaxScoreIndex_candidates nms_loop_append using n1(1) n2(1) by simp
  moreover have "set (n1 @ n2) \<subseteq> {0..<int (length confs)}"
  proof
    fix i assume "i \<in> set (n1 @ n2)"
    then consider e where "e \<in> set ?c" "i = fst e" | "i = 0" using n1(3) n2(3) by auto
    then show "i \<in> {0..<int (length confs)}"
    proof cases
      case 1
      then show ?thesis using face_candidates_index [OF 1(1)] by simp
    qed (use assms(3) in simp)
  qed
  moreover have "length (n1 @ n2) \<le> k" using n1(2) n2(2) cl by simp
  moreover have "\<forall>e \<in> set ?c. fst e \<in> set (n1 @ n2) \<or>
      (\<exists>e' \<in> set ?c. fst e' \<in> set (n1 @ n2) \<and> \<not> apart F bs nt (fst e) (fst e') \<and> \<not> fl_less F (snd e') (snd e))"
    using n1(5) unfolding set_append by blast
  ultimately show ?thesis using n2(4) by blast
qed


section \<open>Results\<close>

lemma class1_confs_some:
  "0 \<le> i \<Longrightarrow> (i + int n) * 2 \<le> int (length conf) \<Longrightarrow>
   class1_confs conf i n = Some (map (\<lambda>k. conf ! nat ((i + int k) * 2 + 1)) [0..<n])"
proof (induction n arbitrary: i)
  case (Suc n)
  have "class1_confs conf (i + 1) n = Some (map (\<lambda>k. conf ! nat ((i + 1 + int k) * 2 + 1)) [0..<n])"
    using Suc.prems by (intro Suc.IH) simp_all
  moreover have "map (\<lambda>k. conf ! nat ((i + int k) * 2 + 1)) [0..<Suc n] =
      conf ! nat (i * 2 + 1) # map (\<lambda>k. conf ! nat ((i + 1 + int k) * 2 + 1)) [0..<n]"
    by (simp add: upt_conv_Cons map_Suc_upt [symmetric] add.assoc del: upt_Suc)
  ultimately show ?case using Suc.prems by (simp add: get_def del: upt_Suc)
qed simp

lemma scores_of_some: "set inds \<subseteq> {0..<int (length confs)} \<Longrightarrow> scores_of confs inds = Some (map (\<lambda>i. (i, confs ! nat i)) inds)"
  by (induction inds) (auto simp: get_def)

definition pixels :: "('f, 'd) face_ops \<Rightarrow> int \<Rightarrow> int \<Rightarrow> 'f corners \<Rightarrow> 'f corners" where
  "pixels F W H b = (case b of (b0, b1, b2, b3) \<Rightarrow>
     (fl_mul F b0 (fl_of_int F W), fl_mul F b1 (fl_of_int F H), fl_mul F b2 (fl_of_int F W), fl_mul F b3 (fl_of_int F H)))"

lemma result_loop_some:
  assumes "\<forall>e \<in> set es. box_at bs (fst e)"
  shows "result_loop F W H bs t es = Some (map (\<lambda>e. (snd e, pixels F W H (the (corners_at bs (fst e)))))
    (filter (\<lambda>e. \<not> fl_less F (snd e) t) es))"
  using assms
proof (induction es)
  case (Cons e es)
  obtain b0 b1 b2 b3 where "corners_at bs (fst e) = Some (b0, b1, b2, b3)"
    using box_at_corners [of bs "fst e"] Cons.prems by (cases "the (corners_at bs (fst e))") auto
  then show ?case using Cons by (cases e) (simp add: pixels_def Let_def)
qed simp

definition result_from :: "('f, 'd) face_ops \<Rightarrow> 'f list \<Rightarrow> 'f list \<Rightarrow> 'f \<Rightarrow> 'f face_result \<Rightarrow> bool" where
  "result_from F conf bs t r \<longleftrightarrow> \<not> fl_less F (fst r) t \<and>
     (\<exists>i < 7469. fst r = conf ! (2 * i + 1) \<and> snd r = pixels F 800 464 (the (corners_at bs (int i))))"

lemma DetectOutput_some:
  assumes "order_law F (conf_thresh F)" "2 * 7469 \<le> length conf" "4 * 7469 \<le> length loc"
  shows "\<exists>bs outs. decode_loop F loc (Some (net_priors F)) 0 7469 = Some bs \<and> length bs = 4 * 7469 \<and>
    DetectOutput F 7469 800 464 loc conf t = Some outs \<and> length outs \<le> top_k \<and> (\<forall>r \<in> set outs. result_from F conf bs t r)"
proof -
  define M :: nat where "M = 7469"
  define confs where "confs = map (\<lambda>k. conf ! nat ((0 + int k) * 2 + 1)) [0..<M]"
  have c: "class1_confs conf 0 M = Some confs" unfolding confs_def by (rule class1_confs_some) (use assms(2) in \<open>simp_all add: M_def\<close>)
  have lc: "length confs = M" by (simp add: confs_def)
  have "\<exists>bs. decode_loop F loc (Some (net_priors F)) 0 M = Some bs \<and> length bs = 4 * M"
    using assms(3) length_net_priors [of F] by (intro decode_loop_some) (simp_all add: M_def)
  then obtain bs where b: "decode_loop F loc (Some (net_priors F)) 0 M = Some bs" "length bs = 4 * M" by blast
  have p: "GenAllPriorboxs F 800 464 (int M) = Some (Some (net_priors F))" by (simp add: GenAllPriorboxs_net M_def)
  have "confs \<noteq> []" using lc by (auto simp: M_def)
  then obtain inds where i: "ApplyNMSFast F bs confs (conf_thresh F) (nms_thresh F) top_k = Some inds" "length inds \<le> top_k" "set inds \<subseteq> {0..<int M}"
    using ApplyNMSFast_spec [OF assms(1), of bs confs "nms_thresh F" top_k] b(2) unfolding lc by blast
  define es where "es = map (\<lambda>i. (i, confs ! nat i)) inds"
  have s: "scores_of confs inds = Some es" unfolding es_def by (rule scores_of_some) (use i(3) lc in simp)
  have es: "\<forall>e \<in> set (stable_sort F es). 0 \<le> fst e \<and> fst e < int M \<and> snd e = confs ! nat (fst e)"
    unfolding stable_sort_set es_def using i(3) by auto
  let ?outs = "map (\<lambda>e. (snd e, pixels F 800 464 (the (corners_at bs (fst e))))) (filter (\<lambda>e. \<not> fl_less F (snd e) t) (stable_sort F es))"
  have "\<forall>e \<in> set (stable_sort F es). box_at bs (fst e)" using es b(2) by (fastforce simp: box_at_def)
  then have r: "result_loop F 800 464 bs t (stable_sort F es) = Some ?outs" by (rule result_loop_some)
  have le: "length inds = length (stable_sort F es)" by (simp add: stable_sort_length es_def)
  have d: "DetectOutput F M 800 464 loc conf t = Some ?outs"
  proof (cases "inds = []")
    case True
    then show ?thesis using c p b(1) i(1) by (simp add: DetectOutput_def es_def stable_sort_def)
  next
    case False
    have "take (if top_k < length inds then top_k else length inds) (stable_sort F es) = stable_sort F es"
      using i(2) le by simp
    then show ?thesis using False c p b(1) i(1) s r by (simp add: DetectOutput_def Let_def)
  qed
  have "length ?outs \<le> length (stable_sort F es)" unfolding length_map by (rule length_filter_le)
  then have "length ?outs \<le> top_k" using i(2) le by linarith
  moreover have "result_from F conf bs t r" if r: "r \<in> set ?outs" for r
  proof -
    obtain e where e: "e \<in> set (stable_sort F es)" "\<not> fl_less F (snd e) t" "r = (snd e, pixels F 800 464 (the (corners_at bs (fst e))))"
      using r by auto
    have f: "0 \<le> fst e" "fst e < int M" "snd e = confs ! nat (fst e)" using es e(1) by blast+
    then have n: "nat (fst e) < M" "int (nat (fst e)) = fst e" by linarith+
    have "confs ! nat (fst e) = conf ! (2 * nat (fst e) + 1)" using n(1) f(1) by (simp add: confs_def nat_add_distrib nat_mult_distrib mult.commute)
    then show ?thesis using e(2,3) f(3) n by (auto simp: result_from_def M_def intro!: exI [of _ "nat (fst e)"])
  qed
  ultimately show ?thesis using b d unfolding M_def by blast
qed

section \<open>The small priors\<close>

text \<open>Of the 21 priors of a cell of the first map, the first 20 are small; their two corners are the same.\<close>

definition flat :: "'f list \<Rightarrow> bool" where
  "flat xs \<longleftrightarrow> (\<forall>i. i * 4 + 3 < length xs \<and> i mod 21 \<noteq> 20 \<longrightarrow> xs ! (i * 4 + 2) = xs ! (i * 4) \<and> xs ! (i * 4 + 3) = xs ! (i * 4 + 1))"

lemma flat_append:
  assumes "flat xs" "flat ys" "length xs = 84 * m"
  shows "flat (xs @ ys)"
  unfolding flat_def
proof (intro allI impI)
  fix i assume i: "i * 4 + 3 < length (xs @ ys) \<and> i mod 21 \<noteq> 20"
  show "(xs @ ys) ! (i * 4 + 2) = (xs @ ys) ! (i * 4) \<and> (xs @ ys) ! (i * 4 + 3) = (xs @ ys) ! (i * 4 + 1)"
  proof (cases "i < 21 * m")
    case True
    then have "i * 4 + 3 < length xs" using assms(3) by simp
    then show ?thesis using assms(1) i by (simp add: flat_def nth_append)
  next
    case False
    define j where "j = i - 21 * m"
    have j: "i = j + 21 * m" using False by (simp add: j_def)
    have "j mod 21 \<noteq> 20" "j * 4 + 3 < length ys" using i assms(3) unfolding j by simp_all
    then show ?thesis using assms(2,3) unfolding j flat_def by (simp add: nth_append algebra_simps)
  qed
qed

lemma flat_concat: "\<forall>x \<in> set xs. flat (f x) \<and> length (f x) = 84 * m \<Longrightarrow> flat (concat (map f xs)) \<and> length (concat (map f xs)) = 84 * (m * length xs)"
proof (induction xs)
  case (Cons x xs)
  then have "flat (f x @ concat (map f xs))" by (intro flat_append [of _ _ m]) simp_all
  then show ?case using Cons by (simp add: algebra_simps)
qed (simp add: flat_def)

lemma less_20_cases: "(i :: nat) < 21 \<Longrightarrow> i \<noteq> 20 \<Longrightarrow> i \<in> {0, 1, 2, 3, 4, 5, 6, 7, 8, 9, 10, 11, 12, 13, 14, 15, 16, 17, 18, 19}"
  by (simp, presburger)

lemma flat_cell: "flat (concat (map (size_priors F iw ih cx cy) [32, 64, 128])) \<and> length (concat (map (size_priors F iw ih cx cy) [32, 64, 128])) = 84"
proof -
  let ?c = "concat (map (size_priors F iw ih cx cy) [32, 64, 128])"
  have l: "length ?c = 84" by (simp add: size_priors_def small_prior_def large_prior_def Let_def)
  have "?c ! (i * 4 + 2) = ?c ! (i * 4) \<and> ?c ! (i * 4 + 3) = ?c ! (i * 4 + 1)" if "i < 21" "i \<noteq> 20" for i
    using less_20_cases [OF that] by (elim insertE emptyE) (simp_all add: size_priors_def small_prior_def large_prior_def Let_def)
  then show ?thesis using l by (auto simp: flat_def)
qed

lemma flat_map: "flat (map_priors F iw ih fw fh [32, 64, 128] stp)"
proof -
  have row: "flat (concat (map (\<lambda>w. concat (map (size_priors F iw ih (center F w stp) (center F h stp)) [32, 64, 128])) ws)) \<and>
      length (concat (map (\<lambda>w. concat (map (size_priors F iw ih (center F w stp) (center F h stp)) [32, 64, 128])) ws)) = 84 * (1 * length ws)" for h ws
    by (rule flat_concat, rule ballI, unfold mult_1_right, rule flat_cell)
  show ?thesis unfolding map_priors_def using row by (intro flat_concat [THEN conjunct1]) blast
qed


text \<open>Arithmetic without rounding, with any function for the exponential.\<close>

definition exact_ops :: "(rat \<Rightarrow> rat) \<Rightarrow> (rat, rat) face_ops" where
  "exact_ops ex = \<lparr>fl_add = (+), fl_sub = (-), fl_half = (\<lambda>x. x / 2), fl_less = (<), fl_nonpos = (\<lambda>x. x \<le> 0),
     fl_mul = (*), fl_div = (/), fl_zero = 0, fl_eq = (=), fl_of_int = of_int, fl_neg = uminus, fl_exp = ex, dbl = id,
     fl_of_dbl = id, dbl_lit = id, dbl_add = (+), dbl_sub = (-), dbl_mul = (*), dbl_div = (/), dbl_pow = (\<lambda>x n. x ^ nat n),
     fl_le = (\<le>), fl_trunc = to_int, dbl_exp = ex\<rparr>"

lemma exact_order: "order_law (exact_ops ex) t"
  by (auto simp: order_law_def exact_ops_def)

lemma decode_flat:
  assumes "decode_box (exact_ops ex) t (p0, p1, p0, p1) = (x, y, u, v)"
  shows "u \<le> x \<and> v \<le> y"
  using assms by (cases t) (auto simp: decode_box_def decode_center_def decode_size_def exact_ops_def Let_def split: if_splits)

lemma decode_loop_nth:
  "decode_loop F ts (Some ps) i n = Some bs \<Longrightarrow> k < n \<Longrightarrow>
   \<exists>t p. corners_at ts (i + int k) = Some t \<and> corners_at ps (i + int k) = Some p \<and> corners_at bs (int k) = Some (decode_box F t p)"
proof (induction n arbitrary: i bs k)
  case (Suc n)
  obtain t p rest where h: "corners_at ts i = Some t" "corners_at ps i = Some p" "decode_loop F ts (Some ps) (i + 1) n = Some rest"
    "(case decode_box F t p of (b0, b1, b2, b3) \<Rightarrow> b0 # b1 # b2 # b3 # rest) = bs"
    using Suc.prems(1) by (auto split: bind_splits prod.splits)
  obtain b0 b1 b2 b3 where d: "decode_box F t p = (b0, b1, b2, b3)" by (cases "decode_box F t p")
  show ?case
  proof (cases k)
    case 0
    then show ?thesis using h d by (auto simp: corners_at_def get_def)
  next
    case (Suc m)
    obtain t1 p1 where m: "corners_at ts (i + 1 + int m) = Some t1" "corners_at ps (i + 1 + int m) = Some p1"
      "corners_at rest (int m) = Some (decode_box F t1 p1)"
      using Suc.IH [OF h(3), of m] Suc.prems(2) Suc by blast
    have "corners_at bs (int k) = corners_at rest (int m)"
      using h(4) d Suc by (auto simp: corners_at_def get_def nat_add_distrib nat_mult_distrib add.commute)
    then show ?thesis using m Suc by (auto simp: add.assoc)
  qed
qed simp

lemma small_prior_at:
  assumes "i < 7350" "i mod 21 \<noteq> 20"
  shows "\<exists>a b. corners_at (net_priors F) (int i) = Some (a, b, a, b)"
proof -
  let ?m = "map_priors F 800 464 25 14 [32, 64, 128] 32"
  have "int (length ?m) = 29400" by (simp add: length_map_priors)
  then have l: "i * 4 + 3 < length ?m" using assms(1) by linarith
  then have f: "?m ! (i * 4 + 2) = ?m ! (i * 4)" "?m ! (i * 4 + 3) = ?m ! (i * 4 + 1)"
    using flat_map [of F 800 464 25 14 32] assms(2) by (simp_all add: flat_def)
  have n: "net_priors F ! k = ?m ! k" if "k < length ?m" for k using that by (simp add: net_priors_def nth_append)
  have g: "get (net_priors F) (int i * 4 + int k) = Some (?m ! (i * 4 + k))" if "k < 4" for k
  proof -
    have "i * 4 + k < length ?m" using l that by simp
    moreover have "length ?m \<le> length (net_priors F)" by (simp add: net_priors_def)
    moreover have e: "int i * 4 + int k = int (i * 4 + k)" by simp
    ultimately show ?thesis using n unfolding e by (subst get_nat) simp_all
  qed
  show ?thesis using g [of 0] g [of 1] g [of 2] g [of 3] f by (simp add: corners_at_def)
qed


text \<open>C8. Evaluating the network's output never leaves an array: with outputs for the 7469 priors of its picture there
  are at most 100 results, each with a score that passes the threshold, with the score and the decoded corners
  of one of the priors, in pixels. With any other number of outputs the priors are a null pointer that is followed.\<close>

theorem face_output:
  assumes "order_law F (conf_thresh F)" "2 * 7469 \<le> length conf" "4 * 7469 \<le> length loc"
  shows "(\<exists>bs outs. decode_loop F loc (Some (net_priors F)) 0 7469 = Some bs \<and> length bs = 4 * 7469 \<and>
      DetectOutput F 7469 800 464 loc conf t = Some outs \<and> length outs \<le> top_k \<and> (\<forall>r \<in> set outs. result_from F conf bs t r)) \<and>
    (\<forall>m. m \<noteq> 7469 \<and> 0 < m \<longrightarrow> DetectOutput F m 800 464 loc conf t = None)"
proof (intro conjI allI impI)
  show "\<exists>bs outs. decode_loop F loc (Some (net_priors F)) 0 7469 = Some bs \<and> length bs = 4 * 7469 \<and>
      DetectOutput F 7469 800 464 loc conf t = Some outs \<and> length outs \<le> top_k \<and> (\<forall>r \<in> set outs. result_from F conf bs t r)"
    by (rule DetectOutput_some [OF assms])
  show "DetectOutput F m 800 464 loc conf t = None" if m: "m \<noteq> 7469 \<and> 0 < m" for m
  proof -
    obtain n where "m = Suc n" using m by (cases m) simp_all
    moreover have "GenAllPriorboxs F 800 464 (int m) = Some None" using m by (simp add: GenAllPriorboxs_net)
    ultimately show ?thesis by (cases "class1_confs conf 0 m") (simp_all add: DetectOutput_def)
  qed
qed

theorem face_output_witness:
  "\<exists>outs. DetectOutput (exact_ops id) 7469 800 464 (replicate 29876 0) (replicate 14938 0) (9 / 10) = Some outs \<and> length outs \<le> top_k"
  using face_output [where F = "exact_ops id" and conf = "replicate 14938 0" and loc = "replicate 29876 0" and t = "9 / 10", OF exact_order] by auto

text \<open>C9. The selection is greedy by score: the boxes kept are pairwise apart, they are among the network's boxes,
  and each of the best candidates is kept or too close to a kept candidate whose score is not lower.\<close>

theorem face_selection:
  assumes "order_law F ct" "length bs = 4 * length confs" "confs \<noteq> []"
  shows "\<exists>inds. ApplyNMSFast F bs confs ct nt k = Some inds \<and> length inds \<le> k \<and> set inds \<subseteq> {0..<int (length confs)} \<and>
    sorted_wrt (\<lambda>i j. apart F bs nt j i) inds \<and>
    (\<forall>e \<in> set (face_candidates F confs ct k). fst e \<in> set inds \<or>
      (\<exists>e' \<in> set (face_candidates F confs ct k). fst e' \<in> set inds \<and> \<not> apart F bs nt (fst e) (fst e') \<and> \<not> fl_less F (snd e') (snd e)))"
  using assms by (rule ApplyNMSFast_spec)

theorem face_selection_witness:
  "\<exists>inds. ApplyNMSFast (exact_ops id) [0, 0, 1, 1, 0, 0, 1, 1 / 2] [9 / 10, 8 / 10] (1 / 100) (15 / 100) 2 = Some inds \<and> set inds \<subseteq> {0..<2}"
  using face_selection [where F = "exact_ops id" and bs = "[0, 0, 1, 1, 0, 0, 1, 1 / 2]" and confs = "[9 / 10, 8 / 10]" and ct = "1 / 100" and nt = "15 / 100" and k = 2,
    OF exact_order] by auto

text \<open>C37. Faces of the two small sizes are never found: the priors of 32 and 64 pixels have no extent, so that - even
  computed without rounding - the box decoded from one has no positive width or height; it is dropped or reported
  with a width or height that is not positive.\<close>

theorem small_faces_lost:
  assumes "decode_loop (exact_ops ex) loc (Some (net_priors (exact_ops ex))) 0 7469 = Some bs" "i < 7350" "i mod 21 \<noteq> 20"
  shows "\<exists>b0 b1 b2 b3. corners_at bs (int i) = Some (b0, b1, b2, b3) \<and> b2 \<le> b0 \<and> b3 \<le> b1 \<and>
    (\<forall>r \<in> set (trans_loop (exact_ops ex) src (0, 0) [(sc, pixels (exact_ops ex) 800 464 (b0, b1, b2, b3))]). fr_width r < 0 \<and> fr_height r < 0)"
proof -
  have "i < 7469" using assms(2) by simp
  from decode_loop_nth [OF assms(1) this] obtain t p where d: "corners_at (net_priors (exact_ops ex)) (int i) = Some p"
    "corners_at bs (int i) = Some (decode_box (exact_ops ex) t p)" by auto
  obtain a b where p: "p = (a, b, a, b)" using small_prior_at [OF assms(2,3), of "exact_ops ex"] d(1) by auto
  obtain b0 b1 b2 b3 where b: "decode_box (exact_ops ex) t p = (b0, b1, b2, b3)" by (cases "decode_box (exact_ops ex) t p")
  have le: "b2 \<le> b0" "b3 \<le> b1" using decode_flat [OF b [unfolded p]] by blast+
  then have "b2 * 800 - b0 * 800 \<le> 0" "b3 * 464 - b1 * 464 \<le> 0" by simp_all
  then have "to_int (b2 * 800 - b0 * 800) \<le> 0" "to_int (b3 * 464 - b1 * 464) \<le> 0" by (simp_all add: to_int_def)
  then have "\<forall>r \<in> set (trans_loop (exact_ops ex) src (0, 0) [(sc, pixels (exact_ops ex) 800 464 (b0, b1, b2, b3))]). fr_width r < 0 \<and> fr_height r < 0"
    by (auto simp: pixels_def exact_ops_def Let_def)
  then show ?thesis using d(2) b le by auto
qed

theorem small_faces_lost_witness:
  "\<exists>bs b0 b1 b2 b3. decode_loop (exact_ops id) (replicate 29876 0) (Some (net_priors (exact_ops id))) 0 7469 = Some bs \<and>
     corners_at bs 0 = Some (b0, b1, b2, b3) \<and> b2 \<le> b0 \<and> b3 \<le> b1"
proof -
  have "\<exists>bs. decode_loop (exact_ops id) (replicate 29876 0) (Some (net_priors (exact_ops id))) 0 7469 = Some bs \<and> length bs = 4 * 7469"
    using length_net_priors [of "exact_ops id"] by (intro decode_loop_some) simp_all
  then obtain bs where "decode_loop (exact_ops id) (replicate 29876 0) (Some (net_priors (exact_ops id))) 0 7469 = Some bs" by blast
  moreover from small_faces_lost [OF this, of 0 "(0, 0)" 0] obtain b0 b1 b2 b3 where
    "corners_at bs 0 = Some (b0, b1, b2, b3)" "b2 \<le> b0" "b3 \<le> b1" by auto
  ultimately show ?thesis by blast
qed

end
