(* ===== verification/FaceAlg.thy ===== *)
theory FaceAlg
  imports FaceDetect
begin

text \<open>
  The face algorithm and its manager (alg/VisionAlgModule/face/FaceAlg.cpp, FaceAlgMng.cpp, and the
  comparison of features in FaceIdentification.cpp): from a picture to the features of its faces, and
  from the features to the persons reported. The networks, the picture operations of the library, its sort
  (not the comparison it is given) and floating-point operations are arguments. \<^term>\<open>None\<close> is an exception that nobody catches, or
  undefined behaviour.
\<close>

section \<open>State\<close>

text \<open>The report topics, the registered features by person, and the dimension of a feature once initialised.\<close>

record 'f CFaceAlg =
  fa_mapResultReportTopic :: "int smap"
  fa_mapFaceFeature :: "(int \<times> 'f list) list"
  fa_bAlgInit :: bool
  fa_s32FeatureDim :: nat

definition new_CFaceAlg :: "'f CFaceAlg" where
  "new_CFaceAlg = \<lparr>fa_mapResultReportTopic = [], fa_mapFaceFeature = [], fa_bAlgInit = False, fa_s32FeatureDim = 0\<rparr>"

text \<open>
  What the library and the networks do: resizing with a border, the regions of the faces, the landmarks and
  the features (\<^term>\<open>None\<close> where the network fails), the sort, and the text of a number.
\<close>

record ('f, 'd, 'p, 'l) face_env =
  fe_ops :: "('f, 'd) face_ops"
  fe_fit :: "'p \<Rightarrow> int \<Rightarrow> int \<Rightarrow> 'p"
  fe_detect :: "'p list \<Rightarrow> ('f list \<times> 'f list) option"
  fe_crop :: "'p \<Rightarrow> int \<times> int \<times> int \<times> int \<Rightarrow> 'p"
  fe_align :: "'p \<Rightarrow> 'l option"
  fe_extract :: "'p \<Rightarrow> 'l option \<Rightarrow> 'f list option"
  fe_dim :: nat
  fe_sort :: "((int \<times> 'f) \<Rightarrow> (int \<times> 'f) \<Rightarrow> bool) \<Rightarrow> (int \<times> 'f) list \<Rightarrow> (int \<times> 'f) list"
  fe_show :: "'f \<Rightarrow> string"

text \<open>The comparison the scores are sorted with: person and score, greater scores first.\<close>

definition TFaceIdentify :: "('f, 'd) face_ops \<Rightarrow> int \<times> 'f \<Rightarrow> int \<times> 'f \<Rightarrow> bool" where
  "TFaceIdentify F obj1 obj2 \<longleftrightarrow> fl_less F (snd obj2) (snd obj1)"

definition net_width :: int where "net_width = 800"
definition net_height :: int where "net_height = 464"

definition fFaceThershold :: "('f, 'd) face_ops \<Rightarrow> 'f" where
  "fFaceThershold F = fl_of_dbl F (dbl_lit F (77 / 100))"

section \<open>Configuration\<close>

definition FaceSetReportTopic :: "string \<Rightarrow> 'f CFaceAlg \<Rightarrow> 'f CFaceAlg" where
  "FaceSetReportTopic strTopicKey a =
     (if map_of (fa_mapResultReportTopic a) strTopicKey = None
      then a\<lparr>fa_mapResultReportTopic := smap_insert strTopicKey 0 (fa_mapResultReportTopic a)\<rparr> else a)"

definition SetFaceFeature :: "(int \<times> 'f list) list \<Rightarrow> 'f CFaceAlg \<Rightarrow> 'f CFaceAlg" where
  "SetFaceFeature mapFaceFeature a = a\<lparr>fa_mapFaceFeature := mapFaceFeature\<rparr>"

text \<open>The topics the object attaches itself to; the map of known topics is never filled.\<close>

fun FaceDataSrcInit :: "json list \<Rightarrow> string list option" where
  "FaceDataSrcInit [] = Some []"
| "FaceDataSrcInit (DataSrcCfg # lstDataSrcCfg) = do {
     strIp \<leftarrow> jtext ''ip'' DataSrcCfg;
     code \<leftarrow> jtext ''code'' (jget ''params'' DataSrcCfg);
     rest \<leftarrow> FaceDataSrcInit lstDataSrcCfg;
     Some (RtspStreamTopic strIp code # rest)}"

definition FaceObjInit :: "nat \<Rightarrow> json \<Rightarrow> json list \<Rightarrow> (int \<times> 'f list) list \<Rightarrow> 'f CFaceAlg \<Rightarrow> (string list \<times> 'f CFaceAlg) option" where
  "FaceObjInit nDim taskCfg lstDataSrcCfg mapFaceFeature a = do {
     t \<leftarrow> jtext ''type'' taskCfg;
     i \<leftarrow> jtext ''idx'' taskCfg;
     let a1 = FaceSetReportTopic (AlgResultTopic t i) a;
     let a2 = (if fa_bAlgInit a1 then a1 else a1\<lparr>fa_s32FeatureDim := nDim, fa_bAlgInit := True\<rparr>);
     att \<leftarrow> FaceDataSrcInit lstDataSrcCfg;
     Some (att, SetFaceFeature mapFaceFeature a2)}"

section \<open>The features of a picture\<close>

text \<open>The size a picture is reduced to; other sizes than the network's are resized and get a border.\<close>

definition preproc_size :: "int \<Rightarrow> int \<Rightarrow> bool \<times> int \<times> int" where
  "preproc_size cols rows = (if net_width \<noteq> cols \<or> net_height \<noteq> rows then
     (let h = net_width * rows div cols in
      if net_height < h then (True, net_height * cols div rows, net_height) else (True, net_width, h))
   else (False, net_width, net_height))"

definition PreprocMat :: "('f, 'd, 'p, 'l) face_env \<Rightarrow> int \<Rightarrow> int \<Rightarrow> 'p \<Rightarrow> (bool \<times> int \<times> int \<times> 'p) option" where
  "PreprocMat E cols rows img = (if cols \<le> 0 \<or> rows \<le> 0 then None
     else case preproc_size cols rows of (bResize, w, h) \<Rightarrow>
       if \<not> bResize then Some (False, w, h, img)
       else if w \<le> 0 \<or> h \<le> 0 then None else Some (True, w, h, fe_fit E img w h))"

definition ResizeRect :: "('f, 'd) face_ops \<Rightarrow> 'f \<Rightarrow> 'f FaceRectInfo \<Rightarrow> 'f FaceRectInfo" where
  "ResizeRect F scale r = (let scl = (\<lambda>v. fl_trunc F (fl_mul F (fl_of_int F v) scale)) in
     r\<lparr>fr_x := scl (fr_x r), fr_y := scl (fr_y r), fr_width := scl (fr_width r), fr_height := scl (fr_height r)\<rparr>)"

text \<open>The regions of the faces in the reduced picture; a region outside it throws.\<close>

definition face_region :: "'f FaceRectInfo \<Rightarrow> bool" where
  "face_region r \<longleftrightarrow> 0 \<le> fr_x r \<and> 0 < fr_width r \<and> fr_x r + fr_width r \<le> net_width \<and>
     0 \<le> fr_y r \<and> 0 < fr_height r \<and> fr_y r + fr_height r \<le> net_height"

fun crop_loop :: "('f, 'd, 'p, 'l) face_env \<Rightarrow> 'p \<Rightarrow> 'f FaceRectInfo list \<Rightarrow> 'p list option" where
  "crop_loop E dstImg [] = Some []"
| "crop_loop E dstImg (r # rs) = (if \<not> face_region r then None
     else do {
       rest \<leftarrow> crop_loop E dstImg rs;
       Some (fe_crop E dstImg (fr_x r, fr_y r, fr_width r, fr_height r) # rest)})"

text \<open>One variable receives the landmarks of all faces: where the network fails it keeps those of the face before.\<close>

fun align_loop :: "('f, 'd, 'p, 'l) face_env \<Rightarrow> 'p list \<Rightarrow> 'l option \<Rightarrow> 'l option list" where
  "align_loop E [] landmark = []"
| "align_loop E (roi # rois) landmark = (let l = (case fe_align E roi of Some l \<Rightarrow> Some l | None \<Rightarrow> landmark) in
     l # align_loop E rois l)"

text \<open>One buffer receives the features of all faces; the last number is not copied.\<close>

fun extract_loop :: "('f, 'd, 'p, 'l) face_env \<Rightarrow> nat \<Rightarrow> ('p \<times> 'l option) list \<Rightarrow> 'f list \<Rightarrow> 'f list list" where
  "extract_loop E nDim [] face_feature = []"
| "extract_loop E nDim ((roi, landmark) # rest) face_feature = (let
     f = (case fe_extract E roi landmark of Some v \<Rightarrow> v | None \<Rightarrow> face_feature) in
     take (nDim - 1) f # extract_loop E nDim rest f)"

definition FaceFeatureExt :: "('f, 'd, 'p, 'l) face_env \<Rightarrow> 'f CFaceAlg \<Rightarrow> int \<Rightarrow> int \<Rightarrow> 'p \<Rightarrow> ('f list list \<times> 'f FaceRectInfo list) option" where
  "FaceFeatureExt E a cols rows img = do {
     (bRet, w, h, dstImg) \<leftarrow> PreprocMat E cols rows img;
     let F = fe_ops E;
     let scale = fl_div F (fl_of_int F rows) (fl_of_int F net_height);
     vecFaceRect \<leftarrow> FaceDetectRun F (fe_detect E) (cols, rows) [dstImg] (net_width, net_height) (if bRet then (0, 0) else (w, h));
     if vecFaceRect = [] then Some ([], [])
     else do {
       vecRoiMat \<leftarrow> crop_loop E dstImg vecFaceRect;
       let vecLandmark = align_loop E vecRoiMat None;
       Some (extract_loop E (fa_s32FeatureDim a) (zip vecRoiMat vecLandmark) (replicate (fa_s32FeatureDim a) (fl_zero F)),
         map (ResizeRect F scale) vecFaceRect)}}"

text \<open>The features as texts.\<close>

definition feature_text :: "('f \<Rightarrow> string) \<Rightarrow> 'f list \<Rightarrow> string" where
  "feature_text shw vecVal = concat (map (\<lambda>v. shw v @ '' '') vecVal)"

definition FaceFeatureText :: "('f, 'd, 'p, 'l) face_env \<Rightarrow> 'f CFaceAlg \<Rightarrow> int \<Rightarrow> int \<Rightarrow> 'p \<Rightarrow> string list option" where
  "FaceFeatureText E a cols rows img = map_option (\<lambda>(fs, rs). map (feature_text (fe_show E)) fs) (FaceFeatureExt E a cols rows img)"

section \<open>Recognition\<close>

text \<open>The similarity of two features is a sum in double precision.\<close>

fun verify_loop :: "('f, 'd) face_ops \<Rightarrow> 'f list \<Rightarrow> 'f list \<Rightarrow> int \<Rightarrow> nat \<Rightarrow> 'd \<Rightarrow> 'd option" where
  "verify_loop F f1 f2 i 0 simi = Some simi"
| "verify_loop F f1 f2 i (Suc n) simi = do {
     x \<leftarrow> get f1 i;
     y \<leftarrow> get f2 i;
     verify_loop F f1 f2 (i + 1) n (dbl_add F simi (dbl F (fl_mul F x y)))}"

definition FaceVerify :: "('f, 'd) face_ops \<Rightarrow> nat \<Rightarrow> 'f list \<Rightarrow> 'f list \<Rightarrow> 'f option" where
  "FaceVerify F nDim f1 f2 = do {
     simi \<leftarrow> verify_loop F f1 f2 0 nDim (dbl_lit F 0);
     Some (fl_of_dbl F (dbl_div F (dbl_add F simi (dbl_lit F 1)) (dbl_lit F 2)))}"

text \<open>Copying a vector to the front of a buffer.\<close>

definition copy_to :: "'f list \<Rightarrow> 'f list \<Rightarrow> 'f list option" where
  "copy_to buf v = (if length v \<le> length buf then Some (v @ drop (length v) buf) else None)"

text \<open>The registered persons whose score reaches the threshold; the buffer keeps what the last one left.\<close>

fun score_loop :: "('f, 'd) face_ops \<Rightarrow> nat \<Rightarrow> 'f list \<Rightarrow> (int \<times> 'f list) list \<Rightarrow> 'f list \<Rightarrow> (int \<times> 'f) list \<Rightarrow>
    ((int \<times> 'f) list \<times> 'f list) option" where
  "score_loop F nDim srcFeature [] dstFeature vecScore = Some (vecScore, dstFeature)"
| "score_loop F nDim srcFeature ((k, feat) # features) dstFeature vecScore = do {
     dst \<leftarrow> copy_to dstFeature feat;
     fScore \<leftarrow> FaceVerify F nDim srcFeature dst;
     score_loop F nDim srcFeature features dst (if fl_le F (fFaceThershold F) fScore then vecScore @ [(k, fScore)] else vecScore)}"

type_synonym 'f face_report = "string \<times> string \<times> 'f FaceRectInfo \<times> int \<times> 'f"

fun face_loop :: "('f, 'd, 'p, 'l) face_env \<Rightarrow> string \<Rightarrow> 'f CFaceAlg \<Rightarrow> ('f list \<times> 'f FaceRectInfo) list \<Rightarrow> 'f list \<Rightarrow> 'f list \<Rightarrow>
    'f face_report list option" where
  "face_loop E strIp a [] srcFeature dstFeature = Some []"
| "face_loop E strIp a ((vec, r) # faces) srcFeature dstFeature = do {
     src \<leftarrow> copy_to srcFeature vec;
     (vecScore, dst) \<leftarrow> score_loop (fe_ops E) (fe_dim E) src (fa_mapFaceFeature a) dstFeature [];
     rest \<leftarrow> face_loop E strIp a faces src dst;
     if vecScore = [] then Some rest
     else (let best = hd (fe_sort E (TFaceIdentify (fe_ops E)) vecScore) in
       Some (map (\<lambda>(t, _). (t, strIp, r, fst best, snd best)) (fa_mapResultReportTopic a) @ rest))}"

definition ProcVideoStream :: "('f, 'd, 'p, 'l) face_env \<Rightarrow> string \<Rightarrow> int \<Rightarrow> int \<Rightarrow> 'p \<Rightarrow> 'f CFaceAlg \<Rightarrow> 'f face_report list option" where
  "ProcVideoStream E strIp cols rows img a = do {
     (vecFloatFeature, vecFaceRect) \<leftarrow> FaceFeatureExt E a cols rows img;
     let buf = replicate (fa_s32FeatureDim a) (fl_zero (fe_ops E));
     face_loop E strIp a (zip vecFloatFeature vecFaceRect) buf buf}"

section \<open>The manager\<close>

definition FaceMngInitParams :: "bool \<Rightarrow> json \<Rightarrow> (bool \<times> string list) option" where
  "FaceMngInitParams has_bus algCfg = (if \<not> has_bus then Some (False, [])
     else do {
       t \<leftarrow> jtext ''type'' algCfg;
       i \<leftarrow> jtext ''idx'' algCfg;
       Some (True, [AlgCreateTopic t i, FaceFeatureExtTopic t i, FaceFeatureUpdateTopic t i])})"

text \<open>One object serves all tasks; it is created with the first.\<close>

definition FaceCreateAlgObj :: "nat \<Rightarrow> json \<Rightarrow> json list \<Rightarrow> (int \<times> 'f list) list \<Rightarrow> 'f CFaceAlg option \<Rightarrow> (string list \<times> 'f CFaceAlg option) option" where
  "FaceCreateAlgObj nDim jTaskCfg jLstDataSrc mapFaceFeature m = (let a = (case m of None \<Rightarrow> new_CFaceAlg | Some a \<Rightarrow> a) in do {
     (att, a1) \<leftarrow> FaceObjInit nDim jTaskCfg jLstDataSrc mapFaceFeature a;
     Some (att, Some a1)})"

definition MngFaceFeatureExt :: "('f, 'd, 'p, 'l) face_env \<Rightarrow> 'f CFaceAlg option \<Rightarrow> int \<Rightarrow> int \<Rightarrow> 'p \<Rightarrow> string list option" where
  "MngFaceFeatureExt E m cols rows img = (case m of None \<Rightarrow> Some [] | Some a \<Rightarrow> FaceFeatureText E a cols rows img)"

definition MngFaceFeatureUpdate :: "(int \<times> 'f list) list \<Rightarrow> 'f CFaceAlg option \<Rightarrow> 'f CFaceAlg option" where
  "MngFaceFeatureUpdate mapFaceFeature m = map_option (SetFaceFeature mapFaceFeature) m"


section \<open>The size of the reduced picture\<close>

lemma div_le_bound: "(0 :: int) < b \<Longrightarrow> a \<le> c * b \<Longrightarrow> a div b \<le> c"
  by (metis div_le_mono nonzero_mult_div_cancel_right less_irrefl zdiv_mono1 mult.commute)

lemma div_less_mult: "(0 :: int) < b \<Longrightarrow> a < c * b \<Longrightarrow> a div b < c"
  by (metis mult.commute pos_mod_sign less_add_same_cancel1 linorder_not_less minus_mod_eq_mult_div mult_less_cancel_left_pos order_le_less_trans diff_le_eq le_add_same_cancel1)

text \<open>The reduced picture fits the network's input, so the border added has no negative width.\<close>

lemma preproc_fits:
  assumes "PreprocMat E cols rows img = Some (b, w, h, dst)"
  shows "0 < w \<and> w \<le> net_width \<and> 0 < h \<and> h \<le> net_height"
proof -
  have pos: "0 < cols" "0 < rows" using assms by (auto simp: PreprocMat_def split: if_splits)
  have tall: "net_height * cols div rows \<le> net_width" if "net_height < net_width * rows div cols"
  proof (rule div_le_bound [OF pos(2)])
    have "net_height * cols \<le> net_width * rows div cols * cols" using that pos(1) by (intro mult_right_mono) simp_all
    also have "\<dots> \<le> net_width * rows" using pos(1) by (metis minus_mod_eq_div_mult add_le_same_cancel1 diff_le_eq le_add_same_cancel1 pos_mod_sign)
    finally show "net_height * cols \<le> net_width * rows" .
  qed
  show ?thesis using assms tall
    by (auto simp: PreprocMat_def preproc_size_def Let_def net_width_def net_height_def split: if_splits)
qed

lemma preproc_size_height:
  assumes "0 < cols" "0 < rows" "preproc_size cols rows = (b, w, h)"
  shows "h = min net_height (net_width * rows div cols)"
  using assms by (auto simp: preproc_size_def Let_def net_width_def net_height_def split: if_splits)

section \<open>Features\<close>

text \<open>The network's features have the dimension it tells.\<close>

definition extract_law :: "('f, 'd, 'p, 'l) face_env \<Rightarrow> bool" where
  "extract_law E \<longleftrightarrow> (\<forall>roi l v. fe_extract E roi l = Some v \<longrightarrow> length v = fe_dim E)"

lemma extract_loop_length: "length (extract_loop E n rois f) = length rois"
  by (induction E n rois f rule: extract_loop.induct) (simp_all add: Let_def)

lemma extract_loop_features:
  "extract_law E \<Longrightarrow> length f = fe_dim E \<Longrightarrow> v \<in> set (extract_loop E (fe_dim E) rois f) \<Longrightarrow> length v = fe_dim E - 1"
proof (induction rois arbitrary: f)
  case (Cons x rois)
  obtain roi l where x: "x = (roi, l)" by (cases x)
  let ?f = "case fe_extract E roi l of Some v \<Rightarrow> v | None \<Rightarrow> f"
  have l: "length ?f = fe_dim E" using Cons.prems(1,2) by (auto simp: extract_law_def split: option.splits)
  show ?case using Cons.IH [OF Cons.prems(1) l] Cons.prems(3) l x by (auto simp: Let_def)
qed simp

lemma crop_loop_length: "crop_loop E img rs = Some rois \<Longrightarrow> length rois = length rs"
  by (induction rs arbitrary: rois) (auto split: if_splits bind_splits)

lemma align_loop_length: "length (align_loop E rois l) = length rois"
  by (induction rois arbitrary: l) (simp_all add: Let_def)

lemma FaceFeatureExt_features:
  assumes "FaceFeatureExt E a cols rows img = Some (fs, rs)" "extract_law E" "fa_s32FeatureDim a = fe_dim E"
  shows "length fs = length rs \<and> (\<forall>v \<in> set fs. length v = fe_dim E - 1)"
proof -
  obtain b w h dst fr where h: "PreprocMat E cols rows img = Some (b, w, h, dst)"
    "FaceDetectRun (fe_ops E) (fe_detect E) (cols, rows) [dst] (net_width, net_height) (if b then (0, 0) else (w, h)) = Some fr"
    using assms(1) by (auto simp: FaceFeatureExt_def Let_def split: bind_splits prod.splits)
  show ?thesis
  proof (cases "fr = []")
    case True
    then show ?thesis using assms(1) h by (simp add: FaceFeatureExt_def)
  next
    case False
    then obtain rois where r: "crop_loop E dst fr = Some rois"
      using assms(1) h by (auto simp: FaceFeatureExt_def Let_def split: bind_splits)
    have "fs = extract_loop E (fe_dim E) (zip rois (align_loop E rois None)) (replicate (fe_dim E) (fl_zero (fe_ops E)))"
      "length rs = length fr" using assms(1,3) h r False by (auto simp: FaceFeatureExt_def Let_def)
    then have "\<forall>v \<in> set fs. length v = fe_dim E - 1" "length fs = length rs"
      using extract_loop_features [OF assms(2) length_replicate] crop_loop_length [OF r]
      by (blast, simp add: extract_loop_length align_loop_length)
    then show ?thesis by blast
  qed
qed

text \<open>Where the network has no feature for a face, the one of the face before is taken.\<close>

lemma extract_loop_stale:
  "i < length rois \<Longrightarrow> fe_extract E (fst (rois ! i)) (snd (rois ! i)) = None \<Longrightarrow>
   extract_loop E n rois f ! i = (if i = 0 then take (n - 1) f else extract_loop E n rois f ! (i - 1))"
proof (induction rois arbitrary: f i)
  case (Cons x rois)
  obtain roi l where x: "x = (roi, l)" by (cases x)
  show ?case
  proof (cases i)
    case 0
    then show ?thesis using Cons.prems x by (simp add: Let_def)
  next
    case (Suc k)
    let ?f = "case fe_extract E roi l of Some v \<Rightarrow> v | None \<Rightarrow> f"
    have "extract_loop E n rois ?f ! k = (if k = 0 then take (n - 1) ?f else extract_loop E n rois ?f ! (k - 1))"
      by (rule Cons.IH) (use Cons.prems Suc in simp_all)
    then show ?thesis using Suc x by (cases k) (simp_all add: Let_def)
  qed
qed simp

section \<open>The similarity of features\<close>

definition dot :: "('f, 'd) face_ops \<Rightarrow> 'd \<Rightarrow> 'f list \<Rightarrow> 'f list \<Rightarrow> 'd" where
  "dot F s u v = foldl (\<lambda>s (x, y). dbl_add F s (dbl F (fl_mul F x y))) s (zip u v)"

text \<open>What is compared: the registered and the found feature, with a zero for the number that is lost.\<close>

definition similarity :: "('f, 'd) face_ops \<Rightarrow> 'f list \<Rightarrow> 'f list \<Rightarrow> 'f" where
  "similarity F u v = fl_of_dbl F (dbl_div F (dbl_add F (dot F (dbl_lit F 0) (u @ [fl_zero F]) (v @ [fl_zero F])) (dbl_lit F 1)) (dbl_lit F 2))"

lemma verify_loop_dot:
  "i + n = length u \<Longrightarrow> length u = length v \<Longrightarrow> verify_loop F u v (int i) n s = Some (dot F s (drop i u) (drop i v))"
proof (induction n arbitrary: i s)
  case (Suc n)
  have d: "drop i u = u ! i # drop (Suc i) u" "drop i v = v ! i # drop (Suc i) v"
    using Suc.prems by (simp_all add: Cons_nth_drop_Suc)
  have "get u (int i) = Some (u ! i)" "get v (int i) = Some (v ! i)" using Suc.prems by (simp_all add: get_def)
  moreover have "verify_loop F u v (int (Suc i)) n s' = Some (dot F s' (drop (Suc i) u) (drop (Suc i) v))" for s'
    by (rule Suc.IH) (use Suc.prems in simp_all)
  ultimately show ?case by (simp add: dot_def d add.commute)
qed (simp add: dot_def)

lemma FaceVerify_similarity:
  "length u = d \<Longrightarrow> length v = d \<Longrightarrow> FaceVerify F (Suc d) (u @ [fl_zero F]) (v @ [fl_zero F]) = Some (similarity F u v)"
  using verify_loop_dot [of 0 "Suc d" "u @ [fl_zero F]" "v @ [fl_zero F]" F "dbl_lit F 0"]
  by (simp add: FaceVerify_def similarity_def)

text \<open>The two buffers end in the zero they were created with.\<close>

definition ends_zero :: "('f, 'd) face_ops \<Rightarrow> nat \<Rightarrow> 'f list \<Rightarrow> bool" where
  "ends_zero F d buf \<longleftrightarrow> (\<exists>v. length v = d \<and> buf = v @ [fl_zero F])"

lemma copy_to_ends:
  "length v = d \<Longrightarrow> ends_zero F d buf \<Longrightarrow> copy_to buf v = Some (v @ [fl_zero F])"
  by (auto simp: ends_zero_def copy_to_def)

lemma ends_zeroI: "length v = d \<Longrightarrow> ends_zero F d (v @ [fl_zero F])"
  by (auto simp: ends_zero_def)

definition matches :: "('f, 'd) face_ops \<Rightarrow> (int \<times> 'f list) list \<Rightarrow> 'f list \<Rightarrow> (int \<times> 'f) list" where
  "matches F db u = filter (\<lambda>(k, s). fl_le F (fFaceThershold F) s) (map (\<lambda>(k, v). (k, similarity F u v)) db)"

lemma score_loop_matches:
  "\<forall>(k, v) \<in> set db. length v = d \<Longrightarrow> length u = d \<Longrightarrow> ends_zero F d buf \<Longrightarrow>
   \<exists>buf'. score_loop F (Suc d) (u @ [fl_zero F]) db buf vs = Some (vs @ matches F db u, buf') \<and> ends_zero F d buf'"
proof (induction db arbitrary: buf vs)
  case (Cons x db)
  obtain k v where x: "x = (k, v)" by (cases x)
  have v: "length v = d" using Cons.prems(1) x by simp
  have ih: "\<exists>buf'. score_loop F (Suc d) (u @ [fl_zero F]) db (v @ [fl_zero F]) ws = Some (ws @ matches F db u, buf') \<and> ends_zero F d buf'" for ws
    by (rule Cons.IH) (use Cons.prems ends_zeroI [OF v] in auto)
  show ?case
    using ih [of "if fl_le F (fFaceThershold F) (similarity F u v) then vs @ [(k, similarity F u v)] else vs"]
    by (auto simp: x copy_to_ends [OF v Cons.prems(3)] FaceVerify_similarity [OF Cons.prems(2) v] matches_def)
qed (simp add: matches_def)

section \<open>Reports\<close>

text \<open>A comparison that is a strict weak order on some elements, and what \<open>std::sort\<close> does with it: it
  permutes the elements so that none is less than an earlier one.\<close>

definition weak_order :: "('a \<Rightarrow> 'a \<Rightarrow> bool) \<Rightarrow> 'a set \<Rightarrow> bool" where
  "weak_order cmp A \<longleftrightarrow> (\<forall>x \<in> A. \<forall>y \<in> A. cmp x y \<longrightarrow> \<not> cmp y x) \<and>
     (\<forall>x \<in> A. \<forall>y \<in> A. \<forall>z \<in> A. \<not> cmp x y \<and> \<not> cmp y z \<longrightarrow> \<not> cmp x z)"

lemma weak_orderD:
  assumes "weak_order cmp A" "x \<in> A" "y \<in> A"
  shows "cmp x y \<Longrightarrow> \<not> cmp y x" "z \<in> A \<Longrightarrow> \<not> cmp x y \<Longrightarrow> \<not> cmp y z \<Longrightarrow> \<not> cmp x z"
  using assms unfolding weak_order_def by blast+

lemma weak_order_subset: "weak_order cmp A \<Longrightarrow> B \<subseteq> A \<Longrightarrow> weak_order cmp B"
  unfolding weak_order_def by blast

definition sort_law :: "('f, 'd, 'p, 'l) face_env \<Rightarrow> bool" where
  "sort_law E \<longleftrightarrow> (\<forall>cmp xs. weak_order cmp (set xs) \<longrightarrow> mset (fe_sort E cmp xs) = mset xs \<and> sorted_wrt (\<lambda>a b. \<not> cmp b a) (fe_sort E cmp xs))"

text \<open>The scores that reach the threshold are numbers, and ordered.\<close>

definition score_order :: "('f, 'd) face_ops \<Rightarrow> bool" where
  "score_order F \<longleftrightarrow> weak_order (fl_less F) {s. fl_le F (fFaceThershold F) s}"

lemma weak_order_TFaceIdentify:
  assumes "score_order F" "\<forall>e \<in> set xs. fl_le F (fFaceThershold F) (snd e)"
  shows "weak_order (TFaceIdentify F) (set xs)"
  using assms unfolding weak_order_def score_order_def TFaceIdentify_def by simp blast

definition face_reports :: "('f, 'd, 'p, 'l) face_env \<Rightarrow> string \<Rightarrow> 'f CFaceAlg \<Rightarrow> 'f list \<times> 'f FaceRectInfo \<Rightarrow> 'f face_report list" where
  "face_reports E strIp a = (\<lambda>(u, r). if matches (fe_ops E) (fa_mapFaceFeature a) u = [] then []
     else let best = hd (fe_sort E (TFaceIdentify (fe_ops E)) (matches (fe_ops E) (fa_mapFaceFeature a) u)) in
       map (\<lambda>(t, _). (t, strIp, r, fst best, snd best)) (fa_mapResultReportTopic a))"

lemma face_loop_reports:
  assumes "fe_dim E = Suc d" "\<forall>(k, v) \<in> set (fa_mapFaceFeature a). length v = d"
  shows "\<forall>(u, r) \<in> set faces. length u = d \<Longrightarrow> ends_zero (fe_ops E) d src \<Longrightarrow> ends_zero (fe_ops E) d dst \<Longrightarrow>
    face_loop E strIp a faces src dst = Some (concat (map (face_reports E strIp a) faces))"
proof (induction faces arbitrary: src dst)
  case (Cons x faces)
  obtain u r where x: "x = (u, r)" by (cases x)
  have u: "length u = d" using Cons.prems(1) x by simp
  obtain buf' where s: "score_loop (fe_ops E) (Suc d) (u @ [fl_zero (fe_ops E)]) (fa_mapFaceFeature a) dst [] =
      Some (matches (fe_ops E) (fa_mapFaceFeature a) u, buf')" "ends_zero (fe_ops E) d buf'"
    using score_loop_matches [OF assms(2) u Cons.prems(3), of "[]"] by auto
  have "face_loop E strIp a faces (u @ [fl_zero (fe_ops E)]) buf' = Some (concat (map (face_reports E strIp a) faces))"
    by (rule Cons.IH) (use Cons.prems ends_zeroI [OF u] s(2) in auto)
  then show ?case by (simp add: x copy_to_ends [OF u Cons.prems(2)] assms(1) s(1) face_reports_def Let_def)
qed simp

lemma best_match:
  assumes "sort_law E" "score_order (fe_ops E)" "matches (fe_ops E) db u \<noteq> []"
  defines "best \<equiv> hd (fe_sort E (TFaceIdentify (fe_ops E)) (matches (fe_ops E) db u))"
  shows "\<exists>v. (fst best, v) \<in> set db \<and> snd best = similarity (fe_ops E) u v \<and> fl_le (fe_ops E) (fFaceThershold (fe_ops E)) (snd best) \<and>
    (\<forall>(k, w) \<in> set db. fl_le (fe_ops E) (fFaceThershold (fe_ops E)) (similarity (fe_ops E) u w) \<longrightarrow>
      \<not> fl_less (fe_ops E) (snd best) (similarity (fe_ops E) u w))"
proof -
  let ?F = "fe_ops E" and ?m = "matches (fe_ops E) db u"
  let ?s = "fe_sort E (TFaceIdentify ?F) ?m"
  have th: "\<forall>e \<in> set ?m. fl_le ?F (fFaceThershold ?F) (snd e)" by (auto simp: matches_def)
  have "weak_order (TFaceIdentify ?F) (set ?m)" by (rule weak_order_TFaceIdentify [OF assms(2) th])
  then have s: "set ?s = set ?m" "sorted_wrt (\<lambda>a b. \<not> fl_less ?F (snd a) (snd b)) ?s"
    using assms(1) mset_eq_setD [of ?s ?m] unfolding sort_law_def TFaceIdentify_def by blast+
  then obtain rest where r: "?s = best # rest" using assms(3) by (cases ?s) (auto simp: best_def)
  then have b: "best \<in> set ?m" using s(1) by auto
  have "\<not> fl_less ?F (snd best) (snd best)" using assms(2) th b unfolding score_order_def weak_order_def by blast
  then have "\<not> fl_less ?F (snd best) (snd e)" if "e \<in> set ?m" for e
    using that s r by (metis set_ConsD sorted_wrt.simps(2))
  with b show ?thesis by (fastforce simp: matches_def)
qed


definition face_topics :: "'f CFaceAlg \<Rightarrow> string set" where
  "face_topics a = fst ` set (fa_mapResultReportTopic a)"

text \<open>A report is right when the person is registered, resembles the face enough, and nobody else resembles it more.\<close>

definition best_for :: "('f, 'd) face_ops \<Rightarrow> (int \<times> 'f list) list \<Rightarrow> 'f list \<Rightarrow> int \<Rightarrow> 'f \<Rightarrow> bool" where
  "best_for F db u k s \<longleftrightarrow> fl_le F (fFaceThershold F) s \<and> (\<exists>v. (k, v) \<in> set db \<and> s = similarity F u v) \<and>
     (\<forall>(k', w) \<in> set db. fl_le F (fFaceThershold F) (similarity F u w) \<longrightarrow> \<not> fl_less F s (similarity F u w))"

definition recognisable :: "('f, 'd) face_ops \<Rightarrow> (int \<times> 'f list) list \<Rightarrow> 'f list \<Rightarrow> bool" where
  "recognisable F db u \<longleftrightarrow> (\<exists>(k, v) \<in> set db. fl_le F (fFaceThershold F) (similarity F u v))"

lemma matches_recognisable: "matches F db u \<noteq> [] \<longleftrightarrow> recognisable F db u"
  by (fastforce simp: matches_def filter_empty_conv recognisable_def)

lemma best_match_for:
  "sort_law E \<Longrightarrow> score_order (fe_ops E) \<Longrightarrow> recognisable (fe_ops E) db u \<Longrightarrow> hd (fe_sort E (TFaceIdentify (fe_ops E)) (matches (fe_ops E) db u)) = (k, s) \<Longrightarrow> best_for (fe_ops E) db u k s"
  using best_match [of E db u] by (auto simp: matches_recognisable best_for_def)

lemma split_paired_Ball_set: "(\<forall>x \<in> A. P x) \<longleftrightarrow> (\<forall>a b. (a, b) \<in> A \<longrightarrow> P (a, b))"
  by auto

lemma reports_sound:
  assumes "sort_law E" "score_order (fe_ops E)" "(t, ip, r, k, s) \<in> set (concat (map (face_reports E strIp a) faces))"
  shows "t \<in> face_topics a \<and> ip = strIp \<and> (\<exists>u. (u, r) \<in> set faces \<and> best_for (fe_ops E) (fa_mapFaceFeature a) u k s)"
proof -
  obtain u where u: "(u, r) \<in> set faces" "t \<in> face_topics a" "ip = strIp" "matches (fe_ops E) (fa_mapFaceFeature a) u \<noteq> []"
    "hd (fe_sort E (TFaceIdentify (fe_ops E)) (matches (fe_ops E) (fa_mapFaceFeature a) u)) = (k, s)"
    using assms(3) by (force simp: face_reports_def face_topics_def Let_def split: if_splits)
  then show ?thesis using best_match_for [OF assms(1,2), of "fa_mapFaceFeature a" u k s] unfolding matches_recognisable by blast
qed

lemma reports_complete:
  assumes "(u, r) \<in> set faces" "recognisable (fe_ops E) (fa_mapFaceFeature a) u" "t \<in> face_topics a"
  shows "\<exists>k s. (t, strIp, r, k, s) \<in> set (concat (map (face_reports E strIp a) faces))"
proof -
  obtain k s where b: "hd (fe_sort E (TFaceIdentify (fe_ops E)) (matches (fe_ops E) (fa_mapFaceFeature a) u)) = (k, s)" by (meson surj_pair)
  have "(t, strIp, r, k, s) \<in> set (face_reports E strIp a (u, r))"
    using assms(2,3) b unfolding matches_recognisable [symmetric] by (force simp: face_reports_def face_topics_def Let_def)
  then show ?thesis using assms(1) by auto
qed

lemma buffer_ends_zero: "ends_zero F d (replicate (Suc d) (fl_zero F))"
  by (auto simp: ends_zero_def replicate_append_same intro!: exI [of _ "replicate d (fl_zero F)"])

lemma face_loop_best:
  assumes "fe_dim E = Suc d" "\<forall>(k, v) \<in> set (fa_mapFaceFeature a). length v = d" "\<forall>(u, r) \<in> set faces. length u = d" "sort_law E"
    and "score_order (fe_ops E)" "buf = replicate (Suc d) (fl_zero (fe_ops E))"
  shows "\<exists>reports. face_loop E strIp a faces buf buf = Some reports \<and>
    (\<forall>(t, ip, r, k, s) \<in> set reports. t \<in> face_topics a \<and> ip = strIp \<and> (\<exists>u. (u, r) \<in> set faces \<and> best_for (fe_ops E) (fa_mapFaceFeature a) u k s)) \<and>
    (\<forall>(u, r) \<in> set faces. recognisable (fe_ops E) (fa_mapFaceFeature a) u \<longrightarrow> (\<forall>t \<in> face_topics a. \<exists>k s. (t, strIp, r, k, s) \<in> set reports))"
proof -
  have "face_loop E strIp a faces buf buf = Some (concat (map (face_reports E strIp a) faces))"
    unfolding assms(6) by (rule face_loop_reports [OF assms(1-3) buffer_ends_zero buffer_ends_zero])
  moreover have "\<forall>x \<in> set (concat (map (face_reports E strIp a) faces)). case x of (t, ip, r, k, s) \<Rightarrow>
      t \<in> face_topics a \<and> ip = strIp \<and> (\<exists>u. (u, r) \<in> set faces \<and> best_for (fe_ops E) (fa_mapFaceFeature a) u k s)"
    using reports_sound [OF assms(4,5)] by (simp only: split_paired_Ball_set split_conv) blast
  moreover have "\<forall>x \<in> set faces. case x of (u, r) \<Rightarrow> recognisable (fe_ops E) (fa_mapFaceFeature a) u \<longrightarrow>
      (\<forall>t \<in> face_topics a. \<exists>k s. (t, strIp, r, k, s) \<in> set (concat (map (face_reports E strIp a) faces)))"
    using reports_complete by (simp only: split_paired_Ball_set split_conv) blast
  ultimately show ?thesis by blast
qed

text \<open>The faces of a picture are such faces.\<close>

lemma stream_faces:
  assumes "FaceFeatureExt E a cols rows img = Some (fs, rs)" "extract_law E" "fa_s32FeatureDim a = fe_dim E" "fe_dim E = Suc d"
  shows "ProcVideoStream E strIp cols rows img a =
      face_loop E strIp a (zip fs rs) (replicate (Suc d) (fl_zero (fe_ops E))) (replicate (Suc d) (fl_zero (fe_ops E)))"
    "\<forall>(u, r) \<in> set (zip fs rs). length u = d" "set rs = snd ` set (zip fs rs)"
proof -
  have l: "length fs = length rs" "\<forall>v \<in> set fs. length v = d" using FaceFeatureExt_features [OF assms(1-3)] assms(4) by auto
  show "ProcVideoStream E strIp cols rows img a =
      face_loop E strIp a (zip fs rs) (replicate (Suc d) (fl_zero (fe_ops E))) (replicate (Suc d) (fl_zero (fe_ops E)))"
    using assms(1,3,4) by (simp add: ProcVideoStream_def Let_def)
  show "\<forall>(u, r) \<in> set (zip fs rs). length u = d" using l(2) by (auto dest: set_zip_leftD)
  show "set rs = snd ` set (zip fs rs)" using l(1) by (metis list.set_map map_snd_zip)
qed

lemma stream_best:
  assumes "FaceFeatureExt E a cols rows img = Some (fs, rs)" "extract_law E" "sort_law E" "score_order (fe_ops E)" "fa_s32FeatureDim a = fe_dim E" "fe_dim E = Suc d"
    "\<forall>(k, v) \<in> set (fa_mapFaceFeature a). length v = d"
  shows "\<exists>reports. ProcVideoStream E strIp cols rows img a = Some reports \<and>
    (\<forall>(t, ip, r, k, s) \<in> set reports. t \<in> face_topics a \<and> ip = strIp \<and> r \<in> set rs \<and>
      (\<exists>u \<in> set fs. best_for (fe_ops E) (fa_mapFaceFeature a) u k s))"
proof -
  obtain reports where "ProcVideoStream E strIp cols rows img a = Some reports"
    "\<forall>(t, ip, r, k, s) \<in> set reports. t \<in> face_topics a \<and> ip = strIp \<and> (\<exists>u. (u, r) \<in> set (zip fs rs) \<and> best_for (fe_ops E) (fa_mapFaceFeature a) u k s)"
    using face_loop_best [OF assms(6,7) stream_faces(2) [OF assms(1,2,5,6)] assms(3,4) refl, of strIp]
    unfolding stream_faces(1) [OF assms(1,2,5,6)] by blast
  then show ?thesis by (fastforce dest: set_zip_leftD set_zip_rightD)
qed


section \<open>Configurations in sequence\<close>

fun face_create_all :: "nat \<Rightarrow> (json \<times> json list \<times> (int \<times> 'f list) list) list \<Rightarrow> 'f CFaceAlg option \<Rightarrow>
    (string list \<times> 'f CFaceAlg option) option" where
  "face_create_all nDim [] m = Some ([], m)"
| "face_create_all nDim ((cfg, srcs, db) # reqs) m = do {
     (att, m1) \<leftarrow> FaceCreateAlgObj nDim cfg srcs db m;
     (rest, m2) \<leftarrow> face_create_all nDim reqs m1;
     Some (att @ rest, m2)}"

lemma FaceSetReportTopic_topics: "face_topics (FaceSetReportTopic t a) = insert t (face_topics a)"
proof (cases "map_of (fa_mapResultReportTopic a) t")
  case None
  then show ?thesis by (simp add: FaceSetReportTopic_def face_topics_def smap_insert_keys)
next
  case (Some v)
  then have "t \<in> face_topics a" unfolding face_topics_def by (metis map_of_eq_None_iff option.distinct(1))
  then show ?thesis using Some by (auto simp: FaceSetReportTopic_def)
qed

lemma FaceSetReportTopic_fields [simp]:
  "fa_mapFaceFeature (FaceSetReportTopic t a) = fa_mapFaceFeature a" "fa_bAlgInit (FaceSetReportTopic t a) = fa_bAlgInit a"
  "fa_s32FeatureDim (FaceSetReportTopic t a) = fa_s32FeatureDim a"
  by (simp_all add: FaceSetReportTopic_def)

definition face_obj :: "'f CFaceAlg option \<Rightarrow> 'f CFaceAlg" where
  "face_obj m = (case m of None \<Rightarrow> new_CFaceAlg | Some a \<Rightarrow> a)"

lemma FaceCreateAlgObj_effect:
  assumes "FaceCreateAlgObj nDim cfg srcs db m = Some (att, m')"
  shows "\<exists>t i. jtext ''type'' cfg = Some t \<and> jtext ''idx'' cfg = Some i \<and> FaceDataSrcInit srcs = Some att \<and>
    (\<exists>a'. m' = Some a' \<and> face_topics a' = insert (AlgResultTopic t i) (face_topics (face_obj m)) \<and>
      fa_mapFaceFeature a' = db \<and> fa_bAlgInit a' \<and>
      (m = None \<or> fa_bAlgInit (face_obj m) \<and> fa_s32FeatureDim (face_obj m) = nDim \<longrightarrow> fa_s32FeatureDim a' = nDim))"
  using assms FaceSetReportTopic_topics [of _ "face_obj m"]
  by (auto simp: FaceCreateAlgObj_def FaceObjInit_def SetFaceFeature_def Let_def face_obj_def face_topics_def new_CFaceAlg_def
      split: bind_splits option.splits if_splits)

lemma face_create_all_replicate:
  "FaceDataSrcInit srcs = Some att1 \<Longrightarrow> face_create_all nDim (replicate n (cfg, srcs, db)) m = Some (att, m') \<Longrightarrow>
   att = concat (replicate n att1)"
proof (induction n arbitrary: m att)
  case (Suc n)
  obtain a1 m1 rest m2 where h: "FaceCreateAlgObj nDim cfg srcs db m = Some (a1, m1)"
    "face_create_all nDim (replicate n (cfg, srcs, db)) m1 = Some (rest, m2)" "att = a1 @ rest" "m' = m2"
    using Suc.prems(2) by (auto split: bind_splits prod.splits)
  have "a1 = att1" using FaceCreateAlgObj_effect [OF h(1)] Suc.prems(1) by auto
  then show ?case using Suc.IH [OF Suc.prems(1), of m1 rest] h by simp
qed simp

lemma face_create_all_topics:
  "face_create_all nDim reqs m = Some (att, m') \<Longrightarrow>
   face_topics (face_obj m) \<subseteq> face_topics (face_obj m') \<and>
   (\<forall>(cfg, srcs, db) \<in> set reqs. \<exists>t i att1. jtext ''type'' cfg = Some t \<and> jtext ''idx'' cfg = Some i \<and>
     AlgResultTopic t i \<in> face_topics (face_obj m') \<and> FaceDataSrcInit srcs = Some att1 \<and> set att1 \<subseteq> set att)"
proof (induction reqs arbitrary: m att)
  case (Cons x reqs)
  obtain cfg srcs db where x: "x = (cfg, srcs, db)" by (cases x)
  obtain a1 m1 rest m2 where h: "FaceCreateAlgObj nDim cfg srcs db m = Some (a1, m1)"
    "face_create_all nDim reqs m1 = Some (rest, m2)" "att = a1 @ rest" "m' = m2"
    using Cons.prems by (auto simp: x split: bind_splits prod.splits)
  obtain t i a' where e: "jtext ''type'' cfg = Some t" "jtext ''idx'' cfg = Some i" "FaceDataSrcInit srcs = Some a1"
    "m1 = Some a'" "face_topics a' = insert (AlgResultTopic t i) (face_topics (face_obj m))"
    using FaceCreateAlgObj_effect [OF h(1)] by blast
  have ih: "face_topics a' \<subseteq> face_topics (face_obj m')" "\<forall>(cfg, srcs, db) \<in> set reqs. \<exists>t i att1. jtext ''type'' cfg = Some t \<and> jtext ''idx'' cfg = Some i \<and>
     AlgResultTopic t i \<in> face_topics (face_obj m') \<and> FaceDataSrcInit srcs = Some att1 \<and> set att1 \<subseteq> set rest"
    using Cons.IH [OF h(2)[folded h(4)]] e(4) by (auto simp: face_obj_def)
  show ?case
  proof (intro conjI ballI)
    show "face_topics (face_obj m) \<subseteq> face_topics (face_obj m')" using ih(1) e(5) by auto
    fix y assume "y \<in> set (x # reqs)"
    then consider "y = x" | "y \<in> set reqs" by auto
    then show "case y of (cfg, srcs, db) \<Rightarrow> \<exists>t i att1. jtext ''type'' cfg = Some t \<and> jtext ''idx'' cfg = Some i \<and>
      AlgResultTopic t i \<in> face_topics (face_obj m') \<and> FaceDataSrcInit srcs = Some att1 \<and> set att1 \<subseteq> set att"
    proof cases
      case 1
      then show ?thesis using e ih(1) h(3) by (auto simp: x)
    next
      case 2
      then show ?thesis using ih(2) h(3) by fastforce
    qed
  qed
qed simp

section \<open>The scale of the boxes\<close>

text \<open>Single precision: every result is rounded to the nearest, ties to even, on both sides of zero.\<close>

definition single :: "rat \<Rightarrow> rat" where
  "single q = (if q < 0 then - fl32 (- q) else fl32 q)"

definition single_ops :: "(rat \<Rightarrow> rat) \<Rightarrow> (rat, rat) face_ops" where
  "single_ops ex = (exact_ops ex)\<lparr>fl_add := (\<lambda>x y. single (x + y)), fl_sub := (\<lambda>x y. single (x - y)), fl_half := (\<lambda>x. single (x / 2)),
     fl_mul := (\<lambda>x y. single (x * y)), fl_div := (\<lambda>x y. single (x / y)), fl_of_int := (\<lambda>n. single (of_int n)), fl_of_dbl := single\<rparr>"

lemma fl_unit_le_small:
  assumes "0 < q" "q < 1"
  shows "2 ^ 23 * pow2 (fl_unit q) \<le> q"
proof -
  define c where "c = \<lceil>1 / q\<rceil>"
  define m where "m = nat (c - 1)"
  define l where "l = floorlog 2 m"
  have one: "1 < 1 / q" using assms by simp
  then have "1 < c" unfolding c_def by linarith
  then have m: "int m = c - 1" "0 < m" by (simp_all add: m_def)
  have l: "m < 2 ^ l" using floorlog_bounds [of m 2] m(2) by (simp add: l_def)
  have "1 / q \<le> of_int c" unfolding c_def by (rule le_of_int_ceiling)
  also have "\<dots> = of_nat (m + 1)" using m(1) by (metis add.commute diff_add_cancel of_int_of_nat_eq of_nat_1 of_nat_add)
  also have "\<dots> \<le> of_nat (2 ^ l)" using l by (simp only: of_nat_le_iff)
  finally have "1 / q \<le> 2 ^ l" by simp
  then have q: "1 / 2 ^ l \<le> q" using assms(1) by (simp add: field_simps)
  have u: "fl_unit q = - int (l + 23)" using assms by (simp add: fl_unit_def l_def m_def c_def)
  have "pow2 (fl_unit q) = 1 / 2 ^ (l + 23)" unfolding u pow2_def by (simp del: of_nat_add power_add)
  then have "2 ^ 23 * pow2 (fl_unit q) = 1 / 2 ^ l" by (simp add: power_add)
  then show ?thesis using q by simp
qed

lemma single_error:
  assumes "0 \<le> q"
  shows "\<bar>single q - q\<bar> \<le> q / 2 ^ 24" "0 \<le> single q"
proof -
  have e: "\<bar>single q - q\<bar> \<le> q / 2 ^ 24"
  proof (cases "q = 0 \<or> 1 \<le> q")
    case True
    then show ?thesis using fl32_error [of q] assms by (auto simp: single_def fl32_def)
  next
    case False
    then have q: "0 < q" "q < 1" using assms by simp_all
    let ?u = "pow2 (fl_unit q)"
    have u: "0 < ?u" by (rule pow2_pos)
    have "\<bar>of_int (round_even (q / ?u)) - q / ?u\<bar> * ?u \<le> 1 / 2 * ?u" by (rule mult_right_mono [OF round_even_error]) (use u in simp)
    also have "\<bar>of_int (round_even (q / ?u)) - q / ?u\<bar> * ?u = \<bar>(of_int (round_even (q / ?u)) - q / ?u) * ?u\<bar>"
      using u by (simp add: abs_mult)
    also have "(of_int (round_even (q / ?u)) - q / ?u) * ?u = single q - q" using u q by (simp add: single_def fl32_def left_diff_distrib)
    finally show ?thesis using fl_unit_le_small [OF q] by simp
  qed
  then show "\<bar>single q - q\<bar> \<le> q / 2 ^ 24" .
  have "q / 2 ^ 24 \<le> q" using assms by simp
  with e show "0 \<le> single q" by (simp only: abs_le_iff) linarith
qed

lemma single_int: "0 \<le> n \<Longrightarrow> n < 2 ^ 24 \<Longrightarrow> single (of_int n) = of_int n"
  using fl32_int [of n] by (cases "n = 0") (simp_all add: single_def fl32_def)

text \<open>A height of the reduced picture, scaled back: at most one line short of the product without rounding.\<close>

lemma ResizeRect_single:
  assumes "0 \<le> h" "h \<le> net_height" "0 \<le> rows" "rows \<le> 16384" "fr_height r = h"
    and "h1 = fr_height (ResizeRect (single_ops ex) (fl_div (single_ops ex) (fl_of_int (single_ops ex) rows) (fl_of_int (single_ops ex) net_height)) r)"
  shows "h * rows div net_height - 1 \<le> h1 \<and> h1 \<le> h * rows div net_height"
proof -
  define q where "q = rat_of_int rows / 464"
  define a where "a = single q"
  define p where "p = single (of_int h * a)"
  have i: "single (of_int h) = of_int h" "single (of_int rows) = of_int rows" "single 464 = 464"
    using single_int [of h] single_int [of rows] single_int [of 464] assms by (simp_all add: net_height_def)
  have h1: "h1 = to_int p"
    using assms(5,6) i by (simp add: ResizeRect_def single_ops_def exact_ops_def net_height_def Let_def p_def a_def q_def)
  have q: "0 \<le> q" "q \<le> 16384 / 464" using assms(3,4) by (simp_all add: q_def)
  have a: "\<bar>a - q\<bar> \<le> q / 2 ^ 24" "0 \<le> a" using single_error [OF q(1)] by (simp_all add: a_def)
  have ha: "0 \<le> of_int h * a" using assms(1) a(2) by simp
  have p: "\<bar>p - of_int h * a\<bar> \<le> of_int h * a / 2 ^ 24" "0 \<le> p" using single_error [OF ha] by (simp_all add: p_def)
  define e where "e = of_int h * q"
  have hb: "0 \<le> rat_of_int h" "rat_of_int h \<le> 464" using assms(1,2) by (simp_all add: net_height_def)
  have "e \<le> 464 * (16384 / 464)" unfolding e_def using q hb by (intro mult_mono) simp_all
  then have e: "0 \<le> e" "e \<le> 16384" using hb(1) q(1) by (simp_all add: e_def)
  have "\<bar>of_int h * (a - q)\<bar> \<le> of_int h * (q / 2 ^ 24)" using mult_left_mono [OF a(1) hb(1)] hb(1) by (simp add: abs_mult)
  then have "\<bar>of_int h * a - e\<bar> \<le> e / 2 ^ 24" by (simp add: e_def algebra_simps)
  then have "of_int h * a \<le> e + e / 2 ^ 24" "e - e / 2 ^ 24 \<le> of_int h * a" by (simp_all only: abs_le_iff) linarith+
  moreover have two: "(2 :: rat) ^ 24 = 16777216" by simp
  ultimately have b: "p < e + 1 / 464" "e - 1 / 464 < p" using p(1) e unfolding abs_le_iff two by linarith+
  have f: "e = of_int (h * rows) / of_int 464" by (simp add: e_def q_def)
  define k where "k = h * rows div 464"
  have "464 * k \<le> h * rows" "h * rows \<le> 464 * k + 463"
    using pos_mod_bound [of 464 "h * rows"] pos_mod_sign [of 464 "h * rows"] div_mult_mod_eq [of "h * rows" 464] unfolding k_def by linarith+
  then have "rat_of_int (464 * k) \<le> of_int (h * rows)" "rat_of_int (h * rows) \<le> of_int (464 * k + 463)" by (simp_all only: of_int_le_iff)
  then have "of_int k \<le> e" "e \<le> of_int k + 463 / 464" unfolding f by (simp_all add: field_simps)
  with b have "of_int (k - 1) \<le> p" "p < of_int (k + 1)" by simp_all
  then have "k - 1 \<le> \<lfloor>p\<rfloor>" "\<lfloor>p\<rfloor> \<le> k" by linarith+
  then show ?thesis using h1 p(2) by (simp add: to_int_def k_def net_height_def)
qed

lemma wide_reduced: "0 < cols \<Longrightarrow> 0 < rows \<Longrightarrow> (net_width * rows div cols < net_height) \<longleftrightarrow> net_width * rows < net_height * cols" for cols :: int
proof -
  assume c: "0 < cols"
  have "net_width * rows div cols < net_height \<longleftrightarrow> \<not> net_height * cols \<le> net_width * rows"
  proof
    assume *: "net_width * rows div cols < net_height"
    show "\<not> net_height * cols \<le> net_width * rows"
    proof
      assume "net_height * cols \<le> net_width * rows"
      then have "net_height * cols div cols \<le> net_width * rows div cols" using c by (intro zdiv_mono1)
      with * c show False by simp
    qed
  next
    assume "\<not> net_height * cols \<le> net_width * rows"
    then show "net_width * rows div cols < net_height" using c div_less_mult [of cols "net_width * rows" net_height] by simp
  qed
  then show ?thesis by (simp only: not_le)
qed

section \<open>Results\<close>

text \<open>C10. A recognised face is reported with the registered person it resembles most: if the features have
  one dimension and the scores that reach the threshold are ordered, every face of a picture is processed, each report goes to a topic of a task and names a
  registered person whose similarity to the face reaches the threshold and is not exceeded by another
  person's, and every face that resembles some person enough is reported to every task. The sort is the
  library's, with the comparison of the code.\<close>

theorem face_best_match:
  assumes "fe_dim E = Suc d" "\<forall>(k, v) \<in> set (fa_mapFaceFeature a). length v = d" "\<forall>(u, r) \<in> set faces. length u = d" "sort_law E"
    and "score_order (fe_ops E)" "buf = replicate (Suc d) (fl_zero (fe_ops E))"
  shows "\<exists>reports. face_loop E strIp a faces buf buf = Some reports \<and>
    (\<forall>(t, ip, r, k, s) \<in> set reports. t \<in> face_topics a \<and> ip = strIp \<and> (\<exists>u. (u, r) \<in> set faces \<and> best_for (fe_ops E) (fa_mapFaceFeature a) u k s)) \<and>
    (\<forall>(u, r) \<in> set faces. recognisable (fe_ops E) (fa_mapFaceFeature a) u \<longrightarrow> (\<forall>t \<in> face_topics a. \<exists>k s. (t, strIp, r, k, s) \<in> set reports))"
  using assms by (rule face_loop_best)

text \<open>A sort that obeys the law.\<close>

fun insert_by :: "('a \<Rightarrow> 'a \<Rightarrow> bool) \<Rightarrow> 'a \<Rightarrow> 'a list \<Rightarrow> 'a list" where
  "insert_by cmp x [] = [x]"
| "insert_by cmp x (y # ys) = (if cmp x y then x # y # ys else y # insert_by cmp x ys)"

definition sort_by :: "('a \<Rightarrow> 'a \<Rightarrow> bool) \<Rightarrow> 'a list \<Rightarrow> 'a list" where
  "sort_by cmp xs = foldr (insert_by cmp) xs []"

lemma insert_by_mset [simp]: "mset (insert_by cmp x ys) = add_mset x (mset ys)"
  by (induction cmp x ys rule: insert_by.induct) auto

lemma insert_by_set [simp]: "set (insert_by cmp x ys) = insert x (set ys)"
  using insert_by_mset by (metis set_mset_add_mset_insert set_mset_mset)

lemma insert_by_sorted:
  "weak_order cmp (insert x (set ys)) \<Longrightarrow> sorted_wrt (\<lambda>a b. \<not> cmp b a) ys \<Longrightarrow> sorted_wrt (\<lambda>a b. \<not> cmp b a) (insert_by cmp x ys)"
proof (induction cmp x ys rule: insert_by.induct)
  case (2 cmp x y ys)
  have y: "x \<in> insert x (set (y # ys))" "y \<in> insert x (set (y # ys))" by simp_all
  have s: "sorted_wrt (\<lambda>a b. \<not> cmp b a) ys" "\<And>z. z \<in> set ys \<Longrightarrow> \<not> cmp z y" using 2(3) by simp_all
  show ?case
  proof (cases "cmp x y")
    case True
    then have n: "\<not> cmp y x" by (rule weak_orderD(1) [OF 2(2) y])
    moreover have "\<not> cmp z x" if "z \<in> set ys" for z
      by (rule weak_orderD(2) [OF 2(2) _ y(2) y(1) s(2) [OF that] n]) (use that in simp)
    ultimately show ?thesis using True s by simp
  next
    case False
    have "weak_order cmp (insert x (set ys))" by (rule weak_order_subset [OF 2(2)]) auto
    from 2(1) [OF False this s(1)] show ?thesis using False s(2) by simp
  qed
qed simp

lemma sort_by_sorted: "weak_order cmp (set xs) \<Longrightarrow> mset (sort_by cmp xs) = mset xs \<and> sorted_wrt (\<lambda>a b. \<not> cmp b a) (sort_by cmp xs)"
proof (induction xs)
  case (Cons x xs)
  have eq: "sort_by cmp (x # xs) = insert_by cmp x (sort_by cmp xs)" by (simp add: sort_by_def)
  have "weak_order cmp (set xs)" by (rule weak_order_subset [OF Cons.prems]) auto
  note ih = Cons.IH [OF this]
  from mset_eq_setD [OF conjunct1 [OF ih]] have "insert x (set (sort_by cmp xs)) = set (x # xs)" by simp
  with Cons.prems have "weak_order cmp (insert x (set (sort_by cmp xs)))" by (simp only:)
  from insert_by_sorted [OF this conjunct2 [OF ih]] show ?case unfolding eq insert_by_mset conjunct1 [OF ih] by simp
qed (simp add: sort_by_def)

definition face_example_env :: "(rat, rat, nat, nat) face_env" where
  "face_example_env = \<lparr>fe_ops = exact_ops id, fe_fit = (\<lambda>p w h. p), fe_detect = (\<lambda>ps. None), fe_crop = (\<lambda>p r. p), fe_align = (\<lambda>p. Some p),
     fe_extract = (\<lambda>p l. Some [1, 0, 0]), fe_dim = 3, fe_sort = sort_by, fe_show = (\<lambda>v. ''1'')\<rparr>"

definition face_example :: "rat CFaceAlg" where
  "face_example = \<lparr>fa_mapResultReportTopic = [(''safe1'', 0), (''safe2'', 0)], fa_mapFaceFeature = [(7, [9 / 10, 0]), (8, [0, 1]), (9, [1, 0])],
     fa_bAlgInit = True, fa_s32FeatureDim = 3\<rparr>"

definition face_example_rect :: "int \<Rightarrow> rat FaceRectInfo" where
  "face_example_rect k = \<lparr>fr_x = k, fr_y = 0, fr_width = 10, fr_height = 10, fr_score = 1\<rparr>"

lemma face_example_sort: "sort_law face_example_env" "score_order (fe_ops face_example_env)"
proof -
  have e: "fe_sort face_example_env = sort_by" by (simp add: face_example_env_def)
  show "sort_law face_example_env" unfolding sort_law_def e using sort_by_sorted by blast
  have "weak_order (<) A" for A :: "rat set" unfolding weak_order_def by auto
  then show "score_order (fe_ops face_example_env)" by (simp add: score_order_def face_example_env_def exact_ops_def)
qed

theorem face_best_match_witness:
  "\<exists>reports. face_loop face_example_env ''10.0.0.1'' face_example [([1, 0], face_example_rect 1), ([- 1, 0], face_example_rect 2)] [0, 0, 0] [0, 0, 0] = Some reports \<and>
     (''safe2'', ''10.0.0.1'', face_example_rect 1, 9, 1) \<in> set reports"
proof -
  have d: "fe_dim face_example_env = Suc 2" "\<forall>(k, v) \<in> set (fa_mapFaceFeature face_example). length v = 2"
    "[0, 0, 0] = replicate (Suc 2) (fl_zero (fe_ops face_example_env))"
    by (simp_all add: face_example_env_def face_example_def exact_ops_def numeral_2_eq_2)
  let ?faces = "[([1, 0], face_example_rect 1), ([- 1, 0], face_example_rect 2)]"
  have f: "\<forall>(u, r) \<in> set ?faces. length u = 2" by simp
  have r: "recognisable (fe_ops face_example_env) (fa_mapFaceFeature face_example) [1, 0]" by code_simp
  have t: "''safe2'' \<in> face_topics face_example" by (simp add: face_topics_def face_example_def)
  have b: "u = [1, 0] \<and> k = 9 \<and> s = 1"
    if "(u, face_example_rect 1) \<in> set ?faces" "best_for (fe_ops face_example_env) (fa_mapFaceFeature face_example) u k s" for u k s
  proof -
    have "u = [1, 0]" using that(1) by (auto simp: face_example_rect_def)
    moreover have "similarity (fe_ops face_example_env) [1, 0] [9 / 10, 0] = 19 / 20" "similarity (fe_ops face_example_env) [1, 0] [0, 1] = 1 / 2"
      "similarity (fe_ops face_example_env) [1, 0] [1, 0] = 1" "fFaceThershold (fe_ops face_example_env) = 77 / 100"
      "fl_le (fe_ops face_example_env) = (\<le>)" "fl_less (fe_ops face_example_env) = (<)"
      by (simp_all add: similarity_def dot_def face_example_env_def exact_ops_def fFaceThershold_def)
    ultimately show ?thesis using that(2) by (auto simp: best_for_def face_example_def)
  qed
  obtain reports where p: "face_loop face_example_env ''10.0.0.1'' face_example ?faces [0, 0, 0] [0, 0, 0] = Some reports"
    "\<forall>(t, ip, r, k, s) \<in> set reports. t \<in> face_topics face_example \<and> ip = ''10.0.0.1'' \<and>
      (\<exists>u. (u, r) \<in> set ?faces \<and> best_for (fe_ops face_example_env) (fa_mapFaceFeature face_example) u k s)"
    "\<forall>(u, r) \<in> set ?faces. recognisable (fe_ops face_example_env) (fa_mapFaceFeature face_example) u \<longrightarrow>
      (\<forall>t \<in> face_topics face_example. \<exists>k s. (t, ''10.0.0.1'', r, k, s) \<in> set reports)"
    using face_best_match [OF d(1,2) f face_example_sort d(3), of "''10.0.0.1''"] by (elim exE conjE) (rule that)
  have "([1, 0], face_example_rect 1) \<in> set ?faces" by simp
  from bspec [OF p(3) this] obtain k s where ks: "(''safe2'', ''10.0.0.1'', face_example_rect 1, k, s) \<in> set reports"
    unfolding split_conv using r t by blast
  from bspec [OF p(2) ks] obtain u where "(u, face_example_rect 1) \<in> set ?faces" "best_for (fe_ops face_example_env) (fa_mapFaceFeature face_example) u k s"
    unfolding split_conv by blast
  from b [OF this] show ?thesis using p(1) ks by blast
qed

text \<open>The face object reports to every task configured and is attached to every source configured, but it never
  remembers a source: configured n times for the same sources, it is attached to each n times, and every
  picture of the camera is processed, and its faces are reported, n times.\<close>

theorem face_attached_again:
  assumes "face_create_all nDim reqs m = Some (att, m')" "(cfg, srcs, db) \<in> set reqs"
  shows "(\<exists>t i att1. jtext ''type'' cfg = Some t \<and> jtext ''idx'' cfg = Some i \<and> AlgResultTopic t i \<in> face_topics (face_obj m') \<and>
      FaceDataSrcInit srcs = Some att1 \<and> set att1 \<subseteq> set att) \<and>
    (\<forall>n. reqs = replicate n (cfg, srcs, db) \<longrightarrow> (\<exists>att1. FaceDataSrcInit srcs = Some att1 \<and>
      (\<forall>t. count (mset att) t = n * count (mset att1) t)))"
proof -
  obtain t i att1 where h: "jtext ''type'' cfg = Some t" "jtext ''idx'' cfg = Some i" "AlgResultTopic t i \<in> face_topics (face_obj m')"
      "FaceDataSrcInit srcs = Some att1" "set att1 \<subseteq> set att"
    using face_create_all_topics [OF assms(1)] assms(2) by fastforce
  have "count (mset (concat (replicate n att1))) t = n * count (mset att1) t" for n t
    by (induction n) simp_all
  then show ?thesis using h face_create_all_replicate [OF h(4)] assms(1) by blast
qed

theorem face_attached_again_witness:
  "map_option (\<lambda>(att, m). count (mset att) ''10.0.0.17GetRtspStream'')
     (face_create_all 3 (replicate 2 (detect_task, [detect_source], [(1, [1 :: nat])])) None) = Some 2"
proof -
  let ?r = "(detect_task, [detect_source], [(1, [1 :: nat])])"
  have "map_option fst (face_create_all 3 (replicate 2 ?r) None) = Some [''10.0.0.17GetRtspStream'', ''10.0.0.17GetRtspStream'']" by code_simp
  then obtain m where m: "face_create_all 3 (replicate 2 ?r) None = Some ([''10.0.0.17GetRtspStream'', ''10.0.0.17GetRtspStream''], m)" by auto
  have "FaceDataSrcInit [detect_source] = Some [''10.0.0.17GetRtspStream'']" by code_simp
  then have "count (mset [''10.0.0.17GetRtspStream'', ''10.0.0.17GetRtspStream'']) ''10.0.0.17GetRtspStream'' =
      2 * count (mset [''10.0.0.17GetRtspStream'']) ''10.0.0.17GetRtspStream''"
    using face_attached_again [OF m, of detect_task "[detect_source]" "[(1, [1])]"] by (auto simp: numeral_2_eq_2)
  then show ?thesis using m by simp
qed



text \<open>The picture of 640 x 480 points: 464 lines, scaled back, are 479.\<close>

lemma face_box_480:
  "fr_height (ResizeRect (single_ops id) (fl_div (single_ops id) (fl_of_int (single_ops id) 480) (fl_of_int (single_ops id) net_height))
     (face_example_rect 0 \<lparr>fr_height := 464\<rparr>)) = 479"
  by code_simp

end
