(* ===== verification/RwLock.thy ===== *)
theory RwLock
  imports Prelude
begin

text \<open>
  The readers-writers lock of the camera and picture tables (cmmobj/mutex/RWLock.hpp), used by any number of
  threads. A critical section under the internal mutex is one step: from taking the mutex to giving it back,
  by returning or by waiting on a condition. A thread that waits can be woken by a notification or for no reason.
\<close>

section \<open>State\<close>

text \<open>Where a thread is: outside, waiting on a condition, woken from it, or holding the lock.\<close>

datatype rw_pc = Idle | WaitR | WakeR | Reading | WaitW | WakeW | Writing

record WfirstRWLock =
  read_cnt :: "64 word"
  write_cnt :: "64 word"
  inwriteflag :: bool
  rw_pcs :: "rw_pc list"

definition new_WfirstRWLock :: "nat \<Rightarrow> WfirstRWLock" where
  "new_WfirstRWLock n = \<lparr>read_cnt = 0, write_cnt = 0, inwriteflag = False, rw_pcs = replicate n Idle\<rparr>"

definition set_pc :: "nat \<Rightarrow> rw_pc \<Rightarrow> WfirstRWLock \<Rightarrow> WfirstRWLock" where
  "set_pc i p l = l\<lparr>rw_pcs := (rw_pcs l)[i := p]\<rparr>"

section \<open>Operations\<close>

text \<open>Testing the condition and entering or waiting: also what a woken thread does.\<close>

definition wait_read :: "nat \<Rightarrow> WfirstRWLock \<Rightarrow> WfirstRWLock" where
  "wait_read i l = (if write_cnt l = 0 then set_pc i Reading (l\<lparr>read_cnt := read_cnt l + 1\<rparr>) else set_pc i WaitR l)"

definition lock_read :: "nat \<Rightarrow> WfirstRWLock \<Rightarrow> WfirstRWLock" where
  "lock_read i l = wait_read i l"

definition wait_write :: "nat \<Rightarrow> WfirstRWLock \<Rightarrow> WfirstRWLock" where
  "wait_write i l = (if read_cnt l = 0 \<and> \<not> inwriteflag l then set_pc i Writing (l\<lparr>inwriteflag := True\<rparr>) else set_pc i WaitW l)"

definition lock_write :: "nat \<Rightarrow> WfirstRWLock \<Rightarrow> WfirstRWLock" where
  "lock_write i l = wait_write i (l\<lparr>write_cnt := write_cnt l + 1\<rparr>)"

text \<open>The thread a notification wakes is chosen by the library, if any waits.\<close>

definition notify_one_w :: "nat option \<Rightarrow> WfirstRWLock \<Rightarrow> WfirstRWLock" where
  "notify_one_w j l = (case j of None \<Rightarrow> l | Some k \<Rightarrow> set_pc k WakeW l)"

definition notify_all_r :: "WfirstRWLock \<Rightarrow> WfirstRWLock" where
  "notify_all_r l = l\<lparr>rw_pcs := map (\<lambda>p. if p = WaitR then WakeR else p) (rw_pcs l)\<rparr>"

definition release_read :: "nat \<Rightarrow> nat option \<Rightarrow> WfirstRWLock \<Rightarrow> WfirstRWLock" where
  "release_read i j l = (let l1 = l\<lparr>read_cnt := read_cnt l - 1\<rparr> in
     set_pc i Idle (if read_cnt l1 = 0 \<and> 0 < write_cnt l1 then notify_one_w j l1 else l1))"

definition release_write :: "nat \<Rightarrow> nat option \<Rightarrow> WfirstRWLock \<Rightarrow> WfirstRWLock" where
  "release_write i j l = (let l1 = l\<lparr>write_cnt := write_cnt l - 1\<rparr>;
     l2 = (if write_cnt l1 = 0 then notify_all_r l1 else notify_one_w j l1) in
     set_pc i Idle (l2\<lparr>inwriteflag := False\<rparr>))"

definition pc_at :: "WfirstRWLock \<Rightarrow> nat \<Rightarrow> rw_pc \<Rightarrow> bool" where
  "pc_at l i p \<longleftrightarrow> i < length (rw_pcs l) \<and> rw_pcs l ! i = p"

definition chosen :: "WfirstRWLock \<Rightarrow> nat option \<Rightarrow> bool" where
  "chosen l j \<longleftrightarrow> (case j of None \<Rightarrow> WaitW \<notin> set (rw_pcs l) | Some k \<Rightarrow> pc_at l k WaitW)"

text \<open>What the threads that hold the lock or were woken do.\<close>

inductive rw_serve :: "WfirstRWLock \<Rightarrow> WfirstRWLock \<Rightarrow> bool" where
  woken_reader: "pc_at l i WakeR \<Longrightarrow> rw_serve l (wait_read i l)"
| woken_writer: "pc_at l i WakeW \<Longrightarrow> rw_serve l (wait_write i l)"
| reader_leaves: "pc_at l i Reading \<Longrightarrow> chosen l j \<Longrightarrow> rw_serve l (release_read i j l)"
| writer_leaves: "pc_at l i Writing \<Longrightarrow> chosen l j \<Longrightarrow> rw_serve l (release_write i j l)"

text \<open>Also, threads ask for the lock, and waiting threads wake up for no reason.\<close>

inductive rw_step :: "WfirstRWLock \<Rightarrow> WfirstRWLock \<Rightarrow> bool" where
  serve: "rw_serve l l' \<Longrightarrow> rw_step l l'"
| reader_asks: "pc_at l i Idle \<Longrightarrow> rw_step l (lock_read i l)"
| writer_asks: "pc_at l i Idle \<Longrightarrow> rw_step l (lock_write i l)"
| spurious_r: "pc_at l i WaitR \<Longrightarrow> rw_step l (set_pc i WakeR l)"
| spurious_w: "pc_at l i WaitW \<Longrightarrow> rw_step l (set_pc i WakeW l)"

inductive_cases rw_serveE: "rw_serve l l'"
inductive_cases rw_stepE: "rw_step l l'"

section \<open>Counting threads\<close>

definition num :: "WfirstRWLock \<Rightarrow> rw_pc \<Rightarrow> nat" where
  "num l p = count_list (rw_pcs l) p"

lemma count_list_update:
  "i < length xs \<Longrightarrow> count_list (xs[i := x]) y + of_bool (xs ! i = y) = count_list xs y + of_bool (x = y)"
proof (induction xs arbitrary: i)
  case (Cons a xs)
  then show ?case by (cases i) auto
qed simp

lemma num_pos: "pc_at l i p \<Longrightarrow> 0 < num l p"
  by (auto simp: pc_at_def num_def count_list_0_iff intro: gr0I)

lemma num_pos_iff: "0 < num l p \<longleftrightarrow> (\<exists>i. pc_at l i p)"
  by (auto simp: pc_at_def num_def in_set_conv_nth count_list_0_iff neq0_conv [symmetric] simp del: neq0_conv)

lemma num_set_pc: "pc_at l i p \<Longrightarrow> num (set_pc i q l) r + of_bool (p = r) = num l r + of_bool (q = r)"
  using count_list_update [of i "rw_pcs l" q r] by (auto simp: pc_at_def num_def set_pc_def)

lemma num_fields [simp]:
  "num (l\<lparr>read_cnt := a\<rparr>) p = num l p" "num (l\<lparr>write_cnt := a\<rparr>) p = num l p" "num (l\<lparr>inwriteflag := b\<rparr>) p = num l p"
  by (simp_all add: num_def)

lemma pc_at_fields [simp]:
  "pc_at (l\<lparr>read_cnt := a\<rparr>) i p = pc_at l i p" "pc_at (l\<lparr>write_cnt := a\<rparr>) i p = pc_at l i p"
  "pc_at (l\<lparr>inwriteflag := b\<rparr>) i p = pc_at l i p"
  by (simp_all add: pc_at_def)

lemma set_pc_fields [simp]:
  "read_cnt (set_pc i p l) = read_cnt l" "write_cnt (set_pc i p l) = write_cnt l" "inwriteflag (set_pc i p l) = inwriteflag l"
  "length (rw_pcs (set_pc i p l)) = length (rw_pcs l)"
  by (simp_all add: set_pc_def)

lemma notify_all_r_fields [simp]:
  "read_cnt (notify_all_r l) = read_cnt l" "write_cnt (notify_all_r l) = write_cnt l" "inwriteflag (notify_all_r l) = inwriteflag l"
  "length (rw_pcs (notify_all_r l)) = length (rw_pcs l)"
  by (simp_all add: notify_all_r_def)

lemma count_list_notify:
  "count_list (map (\<lambda>p. if p = WaitR then WakeR else p) ps) p =
     (if p = WaitR then 0 else if p = WakeR then count_list ps WaitR + count_list ps WakeR else count_list ps p)"
  by (induction ps) auto

lemma num_notify_all_r: "num (notify_all_r l) p = (if p = WaitR then 0 else if p = WakeR then num l WaitR + num l WakeR else num l p)"
  unfolding num_def notify_all_r_def by (simp add: count_list_notify)

lemma pc_at_notify_all_r: "p \<noteq> WaitR \<Longrightarrow> p \<noteq> WakeR \<Longrightarrow> pc_at (notify_all_r l) i p \<longleftrightarrow> pc_at l i p"
  by (auto simp: pc_at_def notify_all_r_def)

lemma pc_at_set_other: "pc_at l i p \<Longrightarrow> pc_at l k q \<Longrightarrow> p \<noteq> q \<Longrightarrow> pc_at (set_pc k r l) i p"
  by (auto simp: pc_at_def set_pc_def nth_list_update)

lemma chosen_None: "chosen l None \<Longrightarrow> num l WaitW = 0"
  by (auto simp: chosen_def num_def count_list_0_iff)

section \<open>The invariant\<close>

text \<open>
  The counters count the threads; a writer inside excludes everyone else; when nobody holds the lock and
  nobody was woken for it, no writer waits; and no reader waits while there is no writer.
\<close>

definition rw_inv :: "nat \<Rightarrow> WfirstRWLock \<Rightarrow> bool" where
  "rw_inv n l \<longleftrightarrow> length (rw_pcs l) = n \<and> read_cnt l = of_nat (num l Reading) \<and>
     write_cnt l = of_nat (num l WaitW + num l WakeW + num l Writing) \<and>
     num l Writing = of_bool (inwriteflag l) \<and> (inwriteflag l \<longrightarrow> num l Reading = 0) \<and>
     (num l Reading = 0 \<and> \<not> inwriteflag l \<and> 0 < num l WaitW \<longrightarrow> 0 < num l WakeW) \<and>
     (num l WaitW + num l WakeW + num l Writing = 0 \<longrightarrow> num l WaitR = 0)"

lemma num_sum_le: "num l WaitW + num l WakeW + num l Writing + num l Reading \<le> length (rw_pcs l)"
proof -
  have "count_list ps WaitW + count_list ps WakeW + count_list ps Writing + count_list ps Reading \<le> length ps" for ps
    by (induction ps) auto
  then show ?thesis by (simp add: num_def)
qed

lemma word_of_nat_zero: "c < 2 ^ 64 \<Longrightarrow> (of_nat c = (0 :: 64 word)) \<longleftrightarrow> c = 0"
  by (auto simp: word_of_nat_eq_0_iff dest: dvd_imp_le)

lemma rw_inv_tests:
  assumes "rw_inv n l" "n < 2 ^ 64"
  shows "read_cnt l = 0 \<longleftrightarrow> num l Reading = 0" "write_cnt l = 0 \<longleftrightarrow> num l WaitW + num l WakeW + num l Writing = 0"
  using assms num_sum_le [of l] word_of_nat_zero [of "num l Reading"]
    word_of_nat_zero [of "num l WaitW + num l WakeW + num l Writing"] by (simp_all add: rw_inv_def)

lemma rw_inv_new: "rw_inv n (new_WfirstRWLock n)"
proof -
  have "num (new_WfirstRWLock n) p = (if p = Idle then n else 0)" for p
    unfolding num_def new_WfirstRWLock_def by (induction n) auto
  then show ?thesis by (simp add: rw_inv_def new_WfirstRWLock_def)
qed


lemma set_pc_out:
  "set_pc i p (l\<lparr>read_cnt := a\<rparr>) = (set_pc i p l)\<lparr>read_cnt := a\<rparr>" "set_pc i p (l\<lparr>write_cnt := a\<rparr>) = (set_pc i p l)\<lparr>write_cnt := a\<rparr>"
  "set_pc i p (l\<lparr>inwriteflag := b\<rparr>) = (set_pc i p l)\<lparr>inwriteflag := b\<rparr>"
  by (simp_all add: set_pc_def)

lemma num_moves:
  assumes "pc_at l i p" "p \<noteq> q"
  shows "num (set_pc i q l) r = (if r = q then Suc (num l q) else if r = p then num l p - 1 else num l r)"
  using num_set_pc [OF assms(1), of q r] assms(2) num_pos [OF assms(1)] by (auto split: if_splits)

lemma rw_inv_wait_read:
  assumes "rw_inv n l" "n < 2 ^ 64" "pc_at l i p" "p = Idle \<or> p = WakeR"
  shows "rw_inv n (wait_read i l)"
proof -
  have ne: "p \<noteq> WaitW" "p \<noteq> WakeW" "p \<noteq> Writing" "p \<noteq> WaitR" "p \<noteq> Reading" using assms(4) by auto
  note m = num_moves [OF assms(3) ne(5)] num_moves [OF assms(3) ne(4)]
  show ?thesis
  proof (cases "write_cnt l = 0")
    case True
    then have z: "num l WaitW = 0" "num l WakeW = 0" "num l Writing = 0" "num l WaitR = 0" "\<not> inwriteflag l"
      using rw_inv_tests(2) [OF assms(1,2)] assms(1) by (auto simp: rw_inv_def)
    then show ?thesis using assms(1) True ne by (simp add: rw_inv_def wait_read_def set_pc_out m add.commute)
  next
    case False
    then have "num l WaitW + num l WakeW + num l Writing \<noteq> 0" using rw_inv_tests(2) [OF assms(1,2)] by simp
    then show ?thesis using assms(1) False ne by (simp add: rw_inv_def wait_read_def set_pc_out m)
  qed
qed

lemma rw_inv_wait_write:
  assumes "n < 2 ^ 64" "pc_at l i p" "p = Idle \<or> p = WakeW" "length (rw_pcs l) = n" "read_cnt l = of_nat (num l Reading)"
    and "write_cnt l = of_nat (num l WaitW + num l WakeW + num l Writing + of_bool (p = Idle))"
    and "num l Writing = of_bool (inwriteflag l)" "inwriteflag l \<longrightarrow> num l Reading = 0"
  shows "rw_inv n (wait_write i l)"
proof -
  have ne: "p \<noteq> WaitW" "p \<noteq> Writing" "p \<noteq> WaitR" "p \<noteq> Reading" using assms(3) by auto
  note m = num_moves [OF assms(2) ne(1)] num_moves [OF assms(2) ne(2)]
  have r: "read_cnt l = 0 \<longleftrightarrow> num l Reading = 0"
    using assms(1,4,5) num_sum_le [of l] word_of_nat_zero [of "num l Reading"] by simp
  have k: "p = WakeW \<Longrightarrow> 0 < num l WakeW" using num_pos [OF assms(2)] by simp
  show ?thesis
  proof (cases "read_cnt l = 0 \<and> \<not> inwriteflag l")
    case True
    then show ?thesis using assms(3-8) r ne k by (auto simp: rw_inv_def wait_write_def set_pc_out m)
  next
    case False
    then show ?thesis using assms(3-8) r ne k by (auto simp: rw_inv_def wait_write_def set_pc_out m)
  qed
qed

lemma notify_one_num:
  assumes "chosen l j"
  shows "(num l WaitW = 0 \<and> notify_one_w j l = l) \<or>
    (\<exists>k. j = Some k \<and> pc_at l k WaitW \<and> notify_one_w j l = set_pc k WakeW l)"
  using assms chosen_None [of l] by (cases j) (auto simp: chosen_def notify_one_w_def)

lemma rw_inv_release_read:
  assumes "rw_inv n l" "n < 2 ^ 64" "pc_at l i Reading" "chosen l j"
  shows "rw_inv n (release_read i j l)"
proof -
  have R: "0 < num l Reading" by (rule num_pos [OF assms(3)])
  have w: "\<not> inwriteflag l" "num l Writing = 0" using assms(1) R by (auto simp: rw_inv_def)
  have rc: "read_cnt l - 1 = of_nat (num l Reading - 1)" using assms(1) R by (simp add: rw_inv_def of_nat_diff)
  have rz: "read_cnt l - 1 = 0 \<longleftrightarrow> num l Reading = 1"
    unfolding rc using word_of_nat_zero [of "num l Reading - 1"] num_sum_le [of l] assms(1,2) R by (auto simp: rw_inv_def)
  note m = num_moves [OF assms(3), of Idle]
  consider (notify) "read_cnt l - 1 = 0" "write_cnt l \<noteq> 0" | (quiet) "read_cnt l - 1 \<noteq> 0 \<or> write_cnt l = 0" by blast
  then show ?thesis
  proof cases
    case notify
    from notify_one_num [OF assms(4)] show ?thesis
    proof (elim disjE exE conjE)
      assume q: "num l WaitW = 0" "notify_one_w j l = l"
      then have "notify_one_w j (l\<lparr>read_cnt := read_cnt l - 1\<rparr>) = l\<lparr>read_cnt := read_cnt l - 1\<rparr>"
        using assms(4) by (cases j) (auto simp: notify_one_w_def chosen_def dest: num_pos)
      then have "release_read i j l = (set_pc i Idle l)\<lparr>read_cnt := read_cnt l - 1\<rparr>"
        using notify by (simp add: release_read_def Let_def set_pc_out word_gt_0)
      then show ?thesis using assms(1) q(1) w R rc by (simp add: rw_inv_def m)
    next
      fix k assume k: "j = Some k" "pc_at l k WaitW"
      have i: "pc_at (set_pc k WakeW l) i Reading" using pc_at_set_other [OF assms(3) k(2)] by simp
      have "release_read i j l = (set_pc i Idle (set_pc k WakeW l))\<lparr>read_cnt := read_cnt l - 1\<rparr>"
        using notify k(1) by (simp add: release_read_def Let_def set_pc_out word_gt_0 notify_one_w_def)
      then show ?thesis using assms(1) w R rc num_pos [OF k(2)]
        by (simp add: rw_inv_def num_moves [OF i, of Idle] num_moves [OF k(2), of WakeW])
    qed
  next
    case quiet
    then have "release_read i j l = (set_pc i Idle l)\<lparr>read_cnt := read_cnt l - 1\<rparr>"
      by (auto simp: release_read_def Let_def set_pc_out word_gt_0)
    then show ?thesis using assms(1) w R rc quiet rw_inv_tests [OF assms(1,2)] unfolding rz
      by (auto simp: rw_inv_def m)
  qed
qed

lemma rw_inv_release_write:
  assumes "rw_inv n l" "n < 2 ^ 64" "pc_at l i Writing" "chosen l j"
  shows "rw_inv n (release_write i j l)"
proof -
  have w: "inwriteflag l" "num l Writing = 1" "num l Reading = 0" using assms(1) num_pos [OF assms(3)] by (auto simp: rw_inv_def)
  have wc: "write_cnt l - 1 = of_nat (num l WaitW + num l WakeW)" using assms(1) w(2) by (simp add: rw_inv_def)
  have wz: "write_cnt l - 1 = 0 \<longleftrightarrow> num l WaitW + num l WakeW = 0"
    unfolding wc using word_of_nat_zero [of "num l WaitW + num l WakeW"] num_sum_le [of l] assms(1,2) by (auto simp: rw_inv_def)
  note m = num_moves [OF assms(3), of Idle]
  show ?thesis
  proof (cases "write_cnt l - 1 = 0")
    case True
    have i: "pc_at (notify_all_r l) i Writing" using assms(3) by (simp add: pc_at_notify_all_r)
    have "release_write i j l = (set_pc i Idle (notify_all_r l))\<lparr>write_cnt := write_cnt l - 1, inwriteflag := False\<rparr>"
      using True by (simp add: release_write_def Let_def set_pc_def notify_all_r_def)
    then show ?thesis using assms(1) True w wz
      by (simp add: rw_inv_def num_moves [OF i, of Idle] num_notify_all_r)
  next
    case False
    from notify_one_num [OF assms(4)] show ?thesis
    proof (elim disjE exE conjE)
      assume q: "num l WaitW = 0" "notify_one_w j l = l"
      then have "release_write i j l = (set_pc i Idle l)\<lparr>write_cnt := write_cnt l - 1, inwriteflag := False\<rparr>"
        using assms(4) False by (cases j) (auto simp: release_write_def set_pc_out Let_def notify_one_w_def chosen_def dest: num_pos)
      then show ?thesis using assms(1) q(1) w False wz wc by (simp add: rw_inv_def m)
    next
      fix k assume k: "j = Some k" "pc_at l k WaitW"
      have i: "pc_at (set_pc k WakeW l) i Writing" using pc_at_set_other [OF assms(3) k(2)] by simp
      have "release_write i j l = (set_pc i Idle (set_pc k WakeW l))\<lparr>write_cnt := write_cnt l - 1, inwriteflag := False\<rparr>"
        using False k(1) by (simp add: release_write_def Let_def set_pc_out notify_one_w_def)
      then show ?thesis using assms(1) w wc num_pos [OF k(2)]
        by (simp add: rw_inv_def num_moves [OF i, of Idle] num_moves [OF k(2), of WakeW] add.commute)
    qed
  qed
qed

lemma rw_inv_serve: "rw_serve l l' \<Longrightarrow> rw_inv n l \<Longrightarrow> n < 2 ^ 64 \<Longrightarrow> rw_inv n l'"
proof (induction rule: rw_serve.induct)
  case (woken_writer l i)
  show ?case by (rule rw_inv_wait_write [of n l i WakeW]) (use woken_writer in \<open>auto simp: rw_inv_def\<close>)
qed (blast intro: rw_inv_wait_read rw_inv_release_read rw_inv_release_write)+

lemma rw_inv_spurious_r: "rw_inv n l \<Longrightarrow> pc_at l i WaitR \<Longrightarrow> rw_inv n (set_pc i WakeR l)"
  using num_pos [of l i WaitR] by (auto simp: rw_inv_def num_moves [of l i WaitR WakeR])

lemma rw_inv_spurious_w: "rw_inv n l \<Longrightarrow> pc_at l i WaitW \<Longrightarrow> rw_inv n (set_pc i WakeW l)"
  using num_pos [of l i WaitW] by (simp add: rw_inv_def num_moves [of l i WaitW WakeW] add.commute)

lemma rw_inv_step:
  assumes "rw_step l l'" "rw_inv n l" "n < 2 ^ 64"
  shows "rw_inv n l'"
  using assms
proof (induction rule: rw_step.induct)
  case (serve l l')
  then show ?case by (blast intro: rw_inv_serve)
next
  case (reader_asks l i)
  then show ?case unfolding lock_read_def by (blast intro: rw_inv_wait_read)
next
  case (writer_asks l i)
  show ?case unfolding lock_write_def
    by (rule rw_inv_wait_write [of n _ i Idle]) (use writer_asks in \<open>auto simp: rw_inv_def add.commute\<close>)
next
  case (spurious_r l i)
  then show ?case by (blast intro: rw_inv_spurious_r)
next
  case (spurious_w l i)
  then show ?case by (blast intro: rw_inv_spurious_w)
qed

interpretation rw_system: step_system "\<lambda>l. l = new_WfirstRWLock n" rw_step "\<lambda>l. n < 2 ^ 64 \<longrightarrow> rw_inv n l" for n
  by unfold_locales (use rw_inv_new rw_inv_step in blast)+


definition rw_reachable :: "nat \<Rightarrow> WfirstRWLock \<Rightarrow> bool" where
  "rw_reachable n l \<longleftrightarrow> rw_step\<^sup>*\<^sup>* (new_WfirstRWLock n) l"

lemma reachable_inv: "rw_reachable n l \<Longrightarrow> n < 2 ^ 64 \<Longrightarrow> rw_inv n l"
  unfolding rw_reachable_def using rw_system.invar_reached by blast

lemma two_threads:
  assumes "pc_at l i p" "pc_at l j p" "i \<noteq> j"
  shows "2 \<le> num l p"
proof -
  define q where "q = (if p = Idle then WaitR else Idle)"
  have ne: "p \<noteq> q" by (simp add: q_def)
  have "pc_at (set_pc i q l) j p" using assms by (simp add: pc_at_def set_pc_def)
  then show ?thesis using num_moves [OF assms(1) ne, of p] num_pos [of "set_pc i q l" j p] ne by simp
qed

section \<open>Progress\<close>

text \<open>What is left to do: every thread has to leave, and those that do not hold the lock have to get it first.\<close>

fun weight :: "rw_pc \<Rightarrow> nat" where
  "weight Idle = 0"
| "weight Reading = 1"
| "weight Writing = 1"
| "weight p = 2"

definition busy :: "WfirstRWLock \<Rightarrow> nat" where
  "busy l = sum_list (map weight (rw_pcs l))"

lemma busy_fields [simp]:
  "busy (l\<lparr>read_cnt := a\<rparr>) = busy l" "busy (l\<lparr>write_cnt := a\<rparr>) = busy l" "busy (l\<lparr>inwriteflag := b\<rparr>) = busy l"
  by (simp_all add: busy_def)

lemma sum_list_update_nat: "i < length xs \<Longrightarrow> sum_list (xs[i := x]) + xs ! i = sum_list xs + (x :: nat)"
  by (induction xs arbitrary: i) (auto split: nat.split)

lemma busy_set_pc: "pc_at l i p \<Longrightarrow> busy (set_pc i q l) + weight p = busy l + weight q"
  using sum_list_update_nat [of i "map weight (rw_pcs l)" "weight q"] by (auto simp: busy_def pc_at_def set_pc_def map_update)

lemma busy_notify_all [simp]: "busy (notify_all_r l) = busy l"
proof -
  have "sum_list (map weight (map (\<lambda>p. if p = WaitR then WakeR else p) ps)) = sum_list (map weight ps)" for ps
    by (induction ps) auto
  then show ?thesis by (simp add: busy_def notify_all_r_def)
qed

lemma notified:
  assumes "chosen l j" "pc_at l i p" "p \<noteq> WaitW"
  shows "busy (notify_one_w j l) = busy l \<and> pc_at (notify_one_w j l) i p"
proof (cases j)
  case (Some k)
  then have k: "pc_at l k WaitW" using assms(1) by (simp add: chosen_def)
  then show ?thesis using Some busy_set_pc [OF k, of WakeW] pc_at_set_other [OF assms(2) k assms(3)] by (simp add: notify_one_w_def)
qed (simp add: notify_one_w_def assms)

lemma chosen_fields [simp]: "chosen (l\<lparr>read_cnt := a\<rparr>) j = chosen l j" "chosen (l\<lparr>write_cnt := a\<rparr>) j = chosen l j"
  by (simp_all add: chosen_def split: option.split)

lemma someone_chosen: "\<exists>j. chosen l j"
proof (cases "WaitW \<in> set (rw_pcs l)")
  case True
  then obtain k where "pc_at l k WaitW" by (auto simp: pc_at_def in_set_conv_nth)
  then show ?thesis by (intro exI [of _ "Some k"]) (simp add: chosen_def)
next
  case False
  then show ?thesis by (intro exI [of _ None]) (simp add: chosen_def)
qed

lemma busy_release_read:
  assumes "pc_at l i Reading" "chosen l j"
  shows "busy (release_read i j l) < busy l"
proof -
  define l1 where "l1 = l\<lparr>read_cnt := read_cnt l - 1\<rparr>"
  have l1: "pc_at l1 i Reading" "busy l1 = busy l" "chosen l1 j" using assms by (simp_all add: l1_def)
  have n: "busy (notify_one_w j l1) = busy l1" "pc_at (notify_one_w j l1) i Reading"
    using notified [OF l1(3,1)] by simp_all
  have "release_read i j l = set_pc i Idle (if read_cnt l1 = 0 \<and> 0 < write_cnt l1 then notify_one_w j l1 else l1)"
    by (simp only: release_read_def Let_def l1_def)
  then show ?thesis using busy_set_pc [OF n(2), of Idle] n(1) busy_set_pc [OF l1(1), of Idle] l1(2) by simp
qed

lemma busy_release_write:
  assumes "pc_at l i Writing" "chosen l j"
  shows "busy (release_write i j l) < busy l"
proof -
  define l1 where "l1 = l\<lparr>write_cnt := write_cnt l - 1\<rparr>"
  have l1: "pc_at l1 i Writing" "busy l1 = busy l" "chosen l1 j" using assms by (simp_all add: l1_def)
  have n: "busy (notify_one_w j l1) = busy l1" "pc_at (notify_one_w j l1) i Writing"
    using notified [OF l1(3,1)] by simp_all
  have a: "pc_at (notify_all_r l1) i Writing" using l1(1) by (simp add: pc_at_notify_all_r)
  have "release_write i j l = set_pc i Idle ((if write_cnt l1 = 0 then notify_all_r l1 else notify_one_w j l1)\<lparr>inwriteflag := False\<rparr>)"
    by (simp only: release_write_def Let_def l1_def)
  then show ?thesis using busy_set_pc [OF n(2), of Idle] n(1) busy_set_pc [OF a, of Idle] l1(2)
    by (simp add: set_pc_out)
qed

lemma serve_progress:
  assumes "rw_inv n l" "n < 2 ^ 64" "0 < busy l"
  shows "\<exists>l'. rw_serve l l' \<and> busy l' < busy l"
proof -
  obtain j where j: "chosen l j" using someone_chosen by blast
  consider (r) i where "pc_at l i Reading" | (w) i where "pc_at l i Writing" | (kw) i where "num l Reading = 0" "num l Writing = 0" "pc_at l i WakeW"
    | (kr) "num l Reading = 0" "num l Writing = 0" "num l WakeW = 0"
    using num_pos_iff [of l] by blast
  then show ?thesis
  proof cases
    case (r i)
    then show ?thesis using reader_leaves [OF r j] busy_release_read [OF r j] by blast
  next
    case (w i)
    then show ?thesis using writer_leaves [OF w j] busy_release_write [OF w j] by blast
  next
    case (kw i)
    then have "read_cnt l = 0 \<and> \<not> inwriteflag l" using rw_inv_tests [OF assms(1,2)] assms(1) by (auto simp: rw_inv_def)
    then have "busy (wait_write i l) < busy l" using busy_set_pc [OF kw(3), of Writing] by (simp add: wait_write_def set_pc_out)
    then show ?thesis using woken_writer [OF kw(3)] by blast
  next
    case kr
    then have z: "num l WaitW = 0" "num l WaitR = 0" "write_cnt l = 0"
      using assms(1) rw_inv_tests [OF assms(1,2)] by (auto simp: rw_inv_def)
    have "\<exists>i. pc_at l i WakeR"
    proof (rule ccontr)
      assume "\<not> (\<exists>i. pc_at l i WakeR)"
      then have "num l WakeR = 0" using num_pos_iff [of l WakeR] by auto
      then have "\<forall>p \<in> set (rw_pcs l). p = Idle" using z kr by (auto simp: num_def count_list_0_iff) (metis rw_pc.exhaust)
      then have "busy l = 0" by (auto simp: busy_def)
      then show False using assms(3) by simp
    qed
    then obtain i where i: "pc_at l i WakeR" by blast
    then have "busy (wait_read i l) < busy l" using busy_set_pc [OF i, of Reading] z(3) by (simp add: wait_read_def set_pc_out)
    then show ?thesis using woken_reader [OF i] by blast
  qed
qed

lemma serve_drains:
  "rw_inv n l \<Longrightarrow> n < 2 ^ 64 \<Longrightarrow> \<exists>l'. rw_serve\<^sup>*\<^sup>* l l' \<and> busy l' = 0"
proof (induction "busy l" arbitrary: l rule: less_induct)
  case less
  show ?case
  proof (cases "busy l = 0")
    case False
    then obtain l1 where l1: "rw_serve l l1" "busy l1 < busy l" using serve_progress [OF less.prems] by blast
    then obtain l' where "rw_serve\<^sup>*\<^sup>* l1 l'" "busy l' = 0" using less.hyps rw_inv_serve [OF l1(1)] less.prems by blast
    then show ?thesis using l1(1) by (blast intro: converse_rtranclp_into_rtranclp)
  qed blast
qed

lemma busy_zero: "busy l = 0 \<longleftrightarrow> (\<forall>i < length (rw_pcs l). rw_pcs l ! i = Idle)"
proof -
  have "weight p = 0 \<longleftrightarrow> p = Idle" for p by (cases p) auto
  then show ?thesis by (auto simp: busy_def all_set_conv_all_nth)
qed

section \<open>Results\<close>

text \<open>C21. The readers-writers lock excludes: however many threads ask for it, are woken by notifications or for no
  reason, and leave, in any order, a thread that holds it to write holds it alone.\<close>

theorem rw_exclusion:
  assumes "rw_reachable n l" "n < 2 ^ 64" "pc_at l i Writing" "pc_at l j Reading \<or> pc_at l j Writing"
  shows "i = j"
proof (rule ccontr)
  assume ne: "i \<noteq> j"
  have inv: "rw_inv n l" by (rule reachable_inv [OF assms(1,2)])
  then have w: "num l Writing = 1" "num l Reading = 0" using num_pos [OF assms(3)] by (auto simp: rw_inv_def)
  show False using assms(4) num_pos [of l j Reading] two_threads [OF assms(3) _ ne] w by auto
qed

definition rw_example :: WfirstRWLock where
  "rw_example = lock_read 1 (lock_write 0 (new_WfirstRWLock 2))"

lemma rw_example_reachable: "rw_reachable 2 rw_example"
proof -
  have "pc_at (new_WfirstRWLock 2) 0 Idle" "pc_at (lock_write 0 (new_WfirstRWLock 2)) 1 Idle" by code_simp+
  then show ?thesis unfolding rw_reachable_def rw_example_def
    by (blast intro: rtranclp.rtrancl_into_rtrancl reader_asks writer_asks rtranclp.rtrancl_refl)
qed

theorem rw_exclusion_witness: "pc_at rw_example 0 Writing \<and> \<not> pc_at rw_example 1 Writing \<and> \<not> pc_at rw_example 1 Reading"
proof -
  have "pc_at rw_example 0 Writing" by code_simp
  then show ?thesis using rw_exclusion [OF rw_example_reachable, of 0 1] by auto
qed

text \<open>C22. No notification is lost: whatever has happened, if the threads that hold the lock leave it and the woken ones
  run, with no new request, every waiting thread gets the lock and leaves; in particular nobody waits for
  a lock that is free and for which nobody was woken.\<close>

theorem rw_everyone_served:
  assumes "rw_reachable n l" "n < 2 ^ 64"
  shows "(\<exists>l'. rw_serve\<^sup>*\<^sup>* l l' \<and> (\<forall>i < length (rw_pcs l'). rw_pcs l' ! i = Idle)) \<and>
    ((\<exists>i. pc_at l i WaitR \<or> pc_at l i WaitW) \<longrightarrow> (\<exists>i. pc_at l i Reading \<or> pc_at l i Writing \<or> pc_at l i WakeR \<or> pc_at l i WakeW))"
proof -
  have inv: "rw_inv n l" by (rule reachable_inv [OF assms])
  obtain l' where l': "rw_serve\<^sup>*\<^sup>* l l'" "busy l' = 0" using serve_drains [OF inv assms(2)] by blast
  have "\<exists>i. pc_at l i Reading \<or> pc_at l i Writing \<or> pc_at l i WakeR \<or> pc_at l i WakeW" if w: "pc_at l i WaitR \<or> pc_at l i WaitW" for i
  proof -
    have "0 < busy l" using w busy_set_pc [of l i WaitR Idle] busy_set_pc [of l i WaitW Idle] by auto
    then obtain l1 where "rw_serve l l1" using serve_progress [OF inv assms(2)] by blast
    then show ?thesis by (auto elim!: rw_serveE)
  qed
  then show ?thesis using l' busy_zero by blast
qed

theorem rw_everyone_served_witness:
  "\<exists>l'. rw_serve\<^sup>*\<^sup>* rw_example l' \<and> (\<forall>i < length (rw_pcs l'). rw_pcs l' ! i = Idle)"
  using rw_everyone_served [OF rw_example_reachable] by simp

text \<open>Writers go first: while a writer waits or writes, no reader enters.\<close>

theorem rw_writers_first:
  assumes "rw_reachable n l" "n < 2 ^ 64" "pc_at l w WaitW \<or> pc_at l w WakeW \<or> pc_at l w Writing" "rw_step l l'" "pc_at l' i Reading"
  shows "pc_at l i Reading"
proof -
  have inv: "rw_inv n l" by (rule reachable_inv [OF assms(1,2)])
  have wc: "write_cnt l \<noteq> 0" using rw_inv_tests(2) [OF inv assms(2)] assms(3) by (auto dest: num_pos)
  have upd: "pc_at (set_pc k q m) i Reading \<Longrightarrow> q \<noteq> Reading \<Longrightarrow> pc_at m i Reading" for k q m
    by (cases "k < length (rw_pcs m)") (auto simp: pc_at_def set_pc_def nth_list_update split: if_splits)
  have one: "pc_at (notify_one_w j m) i Reading \<Longrightarrow> pc_at m i Reading" for j m
    by (auto simp: notify_one_w_def dest: upd split: option.splits)
  have r: "pc_at (wait_read k l) i Reading \<Longrightarrow> pc_at l i Reading" for k using wc by (auto simp: wait_read_def dest: upd)
  have w: "pc_at (wait_write k m) i Reading \<Longrightarrow> pc_at m i Reading" for k m by (auto simp: wait_write_def set_pc_out dest: upd split: if_splits)
  have rr: "pc_at (release_read k j l) i Reading \<Longrightarrow> pc_at l i Reading" for k j
    by (auto simp: release_read_def Let_def dest!: upd one split: if_splits)
  have rw: "pc_at (release_write k j l) i Reading \<Longrightarrow> pc_at l i Reading" for k j
    by (auto simp: release_write_def Let_def set_pc_out pc_at_notify_all_r dest!: upd one split: if_splits)
  show ?thesis using assms(4,5)
    by (elim rw_stepE rw_serveE) (auto simp: lock_read_def lock_write_def dest: r w rr rw upd)
qed

theorem rw_writers_first_witness: "\<not> pc_at (wait_read 1 (set_pc 1 WakeR rw_example)) 1 Reading"
proof -
  have s: "pc_at rw_example 1 WaitR" "pc_at rw_example 0 Writing" "\<not> pc_at rw_example 1 Reading" by code_simp+
  have r: "rw_reachable 2 (set_pc 1 WakeR rw_example)"
    using rw_example_reachable spurious_r [OF s(1)] unfolding rw_reachable_def by (rule rtranclp.rtrancl_into_rtrancl)
  have w: "pc_at (set_pc 1 WakeR rw_example) 0 Writing" "pc_at (set_pc 1 WakeR rw_example) 1 WakeR" "\<not> pc_at (set_pc 1 WakeR rw_example) 1 Reading" by code_simp+
  show ?thesis using rw_writers_first [OF r, of 0 "wait_read 1 (set_pc 1 WakeR rw_example)" 1] w serve [OF woken_reader [OF w(2)]] by auto
qed

end
