(* ===== verification/PeriodicThread.thy ===== *)
theory PeriodicThread
  imports Prelude
begin

text \<open>
  The periodic thread that runs the loops of the program (cmmobj/thread/Thread.h, Thread.cpp): a thread
  that calls a function once a cycle, and the destructor that stops it, as steps of two processes that
  share a mutex and a condition. Time is a number of nanoseconds that grows by itself.
\<close>

section \<open>Deadlines\<close>

record timespec =
  tv_sec :: int
  tv_nsec :: int

text \<open>The product of milliseconds is computed in \<open>int\<close>.\<close>

definition GetTv :: "int \<Rightarrow> int \<Rightarrow> int \<Rightarrow> timespec option" where
  "GetTv now s32Sec s32mSec = do {
     us \<leftarrow> i32 (s32mSec * 1000);
     ns \<leftarrow> i32 (us * 1000);
     Some \<lparr>tv_sec = now div 1000000000 + s32Sec, tv_nsec = now mod 1000000000 + ns\<rparr>}"

text \<open>Waiting refuses a deadline whose nanoseconds are not below a second.\<close>

definition tv_valid :: "timespec \<Rightarrow> bool" where
  "tv_valid tv \<longleftrightarrow> 0 \<le> tv_nsec tv \<and> tv_nsec tv < 1000000000"

definition tv_time :: "timespec \<Rightarrow> int" where
  "tv_time tv = tv_sec tv * 1000000000 + tv_nsec tv"

section \<open>State\<close>

text \<open>
  Where the thread is: at the top of its loop, about to lock, waiting, back from waiting and about to get
  the mutex again (with the result zero or not), in the callback, about to unlock, or gone. And the destructor.
\<close>

datatype thread_pc = TTop | TLock timespec | TWait timespec | TBack bool | TCall | TUnlock | TExit
datatype unit_pc = DNone | DLock | DSignal | DUnlock | DJoin | DDone
datatype actor = ThreadA | UnitA

record CThread =
  s32SecCycle :: int
  s32mSecCycle :: int
  t_pc :: thread_pc
  d_pc :: unit_pc
  i_mutex :: "actor option"
  clock :: int
  cb_runs :: nat

definition new_CThread :: "int \<Rightarrow> int \<Rightarrow> int \<Rightarrow> CThread" where
  "new_CThread sec ms now = \<lparr>s32SecCycle = sec, s32mSecCycle = ms, t_pc = TTop, d_pc = DNone, i_mutex = None, clock = now, cb_runs = 0\<rparr>"

section \<open>Steps\<close>

text \<open>What the signal does: a waiting thread is to return with zero.\<close>

definition cond_signal :: "thread_pc \<Rightarrow> thread_pc" where
  "cond_signal p = (case p of TWait tv \<Rightarrow> TBack True | _ \<Rightarrow> p)"

inductive thread_step :: "CThread \<Rightarrow> CThread \<Rightarrow> bool" where
  t_time: "t_pc s = TTop \<Longrightarrow> GetTv (clock s) (s32SecCycle s) (s32mSecCycle s) = Some tv \<Longrightarrow> thread_step s (s\<lparr>t_pc := TLock tv\<rparr>)"
| t_wait: "t_pc s = TLock tv \<Longrightarrow> i_mutex s = None \<Longrightarrow> tv_valid tv \<Longrightarrow> thread_step s (s\<lparr>t_pc := TWait tv\<rparr>)"
| t_inval: "t_pc s = TLock tv \<Longrightarrow> i_mutex s = None \<Longrightarrow> \<not> tv_valid tv \<Longrightarrow> thread_step s (s\<lparr>t_pc := TCall, i_mutex := Some ThreadA\<rparr>)"
| t_timeout: "t_pc s = TWait tv \<Longrightarrow> tv_time tv \<le> clock s \<Longrightarrow> thread_step s (s\<lparr>t_pc := TBack False\<rparr>)"
| t_again: "t_pc s = TBack False \<Longrightarrow> i_mutex s = None \<Longrightarrow> thread_step s (s\<lparr>t_pc := TCall, i_mutex := Some ThreadA\<rparr>)"
| t_break: "t_pc s = TBack True \<Longrightarrow> i_mutex s = None \<Longrightarrow> thread_step s (s\<lparr>t_pc := TExit, i_mutex := Some ThreadA\<rparr>)"
| t_call: "t_pc s = TCall \<Longrightarrow> thread_step s (s\<lparr>t_pc := TUnlock, cb_runs := cb_runs s + 1\<rparr>)"
| t_unlock: "t_pc s = TUnlock \<Longrightarrow> thread_step s (s\<lparr>t_pc := TTop, i_mutex := None\<rparr>)"

inductive unit_step :: "CThread \<Rightarrow> CThread \<Rightarrow> bool" where
  d_begin: "d_pc s = DNone \<Longrightarrow> unit_step s (s\<lparr>d_pc := DLock\<rparr>)"
| d_lock: "d_pc s = DLock \<Longrightarrow> i_mutex s = None \<Longrightarrow> unit_step s (s\<lparr>d_pc := DSignal, i_mutex := Some UnitA\<rparr>)"
| d_signal: "d_pc s = DSignal \<Longrightarrow> unit_step s (s\<lparr>d_pc := DUnlock, t_pc := cond_signal (t_pc s)\<rparr>)"
| d_unlock: "d_pc s = DUnlock \<Longrightarrow> unit_step s (s\<lparr>d_pc := DJoin, i_mutex := None\<rparr>)"
| d_join: "d_pc s = DJoin \<Longrightarrow> t_pc s = TExit \<Longrightarrow> unit_step s (s\<lparr>d_pc := DDone\<rparr>)"

inductive cthread_step :: "CThread \<Rightarrow> CThread \<Rightarrow> bool" where
  by_thread: "thread_step s s' \<Longrightarrow> cthread_step s s'"
| by_unit: "unit_step s s' \<Longrightarrow> cthread_step s s'"
| by_time: "0 \<le> n \<Longrightarrow> cthread_step s (s\<lparr>clock := clock s + n\<rparr>)"

text \<open>A wait may also end for no reason, with the result zero.\<close>

inductive cthread_any :: "CThread \<Rightarrow> CThread \<Rightarrow> bool" where
  regular: "cthread_step s s' \<Longrightarrow> cthread_any s s'"
| t_spurious: "t_pc s = TWait tv \<Longrightarrow> cthread_any s (s\<lparr>t_pc := TBack True\<rparr>)"

inductive_cases thread_stepE: "thread_step s s'"
inductive_cases unit_stepE: "unit_step s s'"
inductive_cases cthread_stepE: "cthread_step s s'"
inductive_cases cthread_anyE: "cthread_any s s'"

section \<open>The mutex\<close>

text \<open>Each process holds the mutex exactly at the places where its code does; a thread that is gone still holds it.\<close>

definition mutex_inv :: "CThread \<Rightarrow> bool" where
  "mutex_inv s \<longleftrightarrow> (i_mutex s = Some ThreadA \<longleftrightarrow> t_pc s \<in> {TCall, TUnlock, TExit}) \<and> (i_mutex s = Some UnitA \<longleftrightarrow> d_pc s \<in> {DSignal, DUnlock}) \<and>
     (d_pc s = DDone \<longrightarrow> t_pc s = TExit)"

lemma mutex_inv_new: "mutex_inv (new_CThread sec ms now)"
  by (simp add: mutex_inv_def new_CThread_def)

lemma mutex_inv_any: "cthread_any s s' \<Longrightarrow> mutex_inv s \<Longrightarrow> mutex_inv s'"
  by (elim cthread_anyE cthread_stepE thread_stepE unit_stepE)
    (auto simp: mutex_inv_def cond_signal_def split: thread_pc.splits)

definition ct_reachable :: "CThread \<Rightarrow> bool" where
  "ct_reachable s \<longleftrightarrow> (\<exists>sec ms now. cthread_any\<^sup>*\<^sup>* (new_CThread sec ms now) s)"

interpretation ct_system: step_system "\<lambda>s. \<exists>sec ms now. s = new_CThread sec ms now" cthread_any mutex_inv
  by unfold_locales (use mutex_inv_new mutex_inv_any in blast)+

lemma reachable_mutex_inv: "ct_reachable s \<Longrightarrow> mutex_inv s"
  unfolding ct_reachable_def using ct_system.invar_reached by blast

section \<open>A thread that is gone\<close>

definition gone :: "nat \<Rightarrow> CThread \<Rightarrow> bool" where
  "gone n s \<longleftrightarrow> t_pc s = TExit \<and> i_mutex s = Some ThreadA \<and> cb_runs s = n"

lemma gone_any: "cthread_any s s' \<Longrightarrow> mutex_inv s \<Longrightarrow> gone n s \<Longrightarrow> gone n s'"
  by (elim cthread_anyE cthread_stepE thread_stepE unit_stepE) (auto simp: gone_def mutex_inv_def cond_signal_def)

interpretation gone_system: step_system "\<lambda>s. gone n s \<and> mutex_inv s" cthread_any "\<lambda>s. gone n s \<and> mutex_inv s" for n
  by unfold_locales (use gone_any mutex_inv_any in blast)+

lemma gone_run: "cthread_any\<^sup>*\<^sup>* s s' \<Longrightarrow> mutex_inv s \<Longrightarrow> gone n s \<Longrightarrow> gone n s' \<and> mutex_inv s'"
  using gone_system.invar_moves by blast

lemma gone_before_lock:
  "cthread_any\<^sup>*\<^sup>* s s' \<Longrightarrow> mutex_inv s \<Longrightarrow> gone n s \<Longrightarrow> d_pc s \<in> {DNone, DLock} \<Longrightarrow> d_pc s' \<in> {DNone, DLock}"
proof (induction rule: rtranclp_induct)
  case (step s1 s2)
  then have "gone n s1" "d_pc s1 \<in> {DNone, DLock}" using gone_run by blast+
  with step(2) show ?case
    by (elim cthread_anyE cthread_stepE thread_stepE unit_stepE) (auto simp: gone_def)
qed

section \<open>A signal that is missed\<close>

text \<open>The signal has been given and the thread is not to leave: it never does, unless a wait ends for no reason.\<close>

definition missed :: "CThread \<Rightarrow> bool" where
  "missed s \<longleftrightarrow> d_pc s \<in> {DUnlock, DJoin} \<and> t_pc s \<notin> {TBack True, TExit}"

lemma missed_step: "cthread_step s s' \<Longrightarrow> missed s \<Longrightarrow> missed s'"
  by (elim cthread_stepE thread_stepE unit_stepE) (auto simp: missed_def)

interpretation missed_system: step_system missed cthread_step missed
  by unfold_locales (use missed_step in blast)+

lemma heard_stops:
  assumes "d_pc s = DUnlock" "t_pc s = TBack True"
  shows "\<exists>s'. cthread_step\<^sup>*\<^sup>* s s' \<and> d_pc s' = DDone \<and> cb_runs s' = cb_runs s"
proof -
  let ?s1 = "s\<lparr>d_pc := DJoin, i_mutex := None\<rparr>"
  let ?s2 = "?s1\<lparr>t_pc := TExit, i_mutex := Some ThreadA\<rparr>"
  let ?s3 = "?s2\<lparr>d_pc := DDone\<rparr>"
  have 1: "cthread_step s ?s1" using d_unlock [OF assms(1)] by (rule by_unit)
  have 2: "cthread_step ?s1 ?s2" using assms by (intro by_thread t_break) simp_all
  have 3: "cthread_step ?s2 ?s3" by (intro by_unit d_join) simp_all
  have 4: "cthread_step\<^sup>*\<^sup>* ?s1 ?s2" by (rule r_into_rtranclp, rule 2)
  have 5: "cthread_step\<^sup>*\<^sup>* s ?s2" by (rule converse_rtranclp_into_rtranclp, rule 1, rule 4)
  have "cthread_step\<^sup>*\<^sup>* s ?s3" by (rule rtranclp.rtrancl_into_rtrancl, rule 5, rule 3)
  then show ?thesis by (intro exI [of _ ?s3]) simp
qed

section \<open>A run\<close>

lemma reach_thread: "ct_reachable s \<Longrightarrow> thread_step s s' \<Longrightarrow> ct_reachable s'"
  unfolding ct_reachable_def by (blast intro: rtranclp.rtrancl_into_rtrancl regular by_thread)

lemma reach_unit: "ct_reachable s \<Longrightarrow> unit_step s s' \<Longrightarrow> ct_reachable s'"
  unfolding ct_reachable_def by (blast intro: rtranclp.rtrancl_into_rtrancl regular by_unit)

lemma reach_new: "ct_reachable (new_CThread sec ms now)"
  unfolding ct_reachable_def by blast

lemma reach_steps: "cthread_step\<^sup>*\<^sup>* s s' \<Longrightarrow> ct_reachable s \<Longrightarrow> ct_reachable s'"
proof (induction rule: rtranclp_induct)
  case (step y z)
  then show ?case unfolding ct_reachable_def by (blast intro: rtranclp.rtrancl_into_rtrancl regular)
qed

definition demo_tv :: timespec where
  "demo_tv = \<lparr>tv_sec = 0, tv_nsec = 5000000\<rparr>"

definition demo_thread :: "thread_pc \<Rightarrow> unit_pc \<Rightarrow> actor option \<Rightarrow> CThread" where
  "demo_thread t d m = (new_CThread 0 5 0)\<lparr>t_pc := t, d_pc := d, i_mutex := m\<rparr>"

lemma demo_locking: "ct_reachable (demo_thread (TLock demo_tv) DNone None)"
proof -
  have "GetTv 0 0 5 = Some demo_tv" by (simp add: GetTv_def i32_def demo_tv_def)
  then have "thread_step (new_CThread 0 5 0) ((new_CThread 0 5 0)\<lparr>t_pc := TLock demo_tv\<rparr>)"
    by (intro t_time) (simp_all add: new_CThread_def)
  from reach_thread [OF reach_new this] show ?thesis by (simp add: demo_thread_def new_CThread_def)
qed

lemma demo_waiting: "ct_reachable (demo_thread (TWait demo_tv) DNone None)"
proof -
  have "thread_step (demo_thread (TLock demo_tv) DNone None) ((demo_thread (TLock demo_tv) DNone None)\<lparr>t_pc := TWait demo_tv\<rparr>)"
    by (intro t_wait) (simp_all add: demo_thread_def new_CThread_def tv_valid_def demo_tv_def)
  from reach_thread [OF demo_locking this] show ?thesis by (simp add: demo_thread_def new_CThread_def)
qed

lemma demo_signal:
  assumes "ct_reachable (demo_thread t DNone None)"
  shows "ct_reachable (demo_thread t DSignal (Some UnitA))"
proof -
  let ?s0 = "demo_thread t DNone None"
  have "unit_step ?s0 (?s0\<lparr>d_pc := DLock\<rparr>)" by (intro d_begin) (simp add: demo_thread_def)
  from reach_unit [OF assms this] have r: "ct_reachable (demo_thread t DLock None)" by (simp add: demo_thread_def new_CThread_def)
  let ?s1 = "demo_thread t DLock None"
  have "unit_step ?s1 (?s1\<lparr>d_pc := DSignal, i_mutex := Some UnitA\<rparr>)" by (intro d_lock) (simp_all add: demo_thread_def)
  from reach_unit [OF r this] show ?thesis by (simp add: demo_thread_def new_CThread_def)
qed

lemma demo_given:
  "unit_step (demo_thread t DSignal m) ((demo_thread t DSignal m)\<lparr>d_pc := DUnlock, t_pc := cond_signal t\<rparr>)"
  using d_signal [of "demo_thread t DSignal m"] by (simp add: demo_thread_def)

section \<open>Results\<close>



text \<open>C23. Stopping depends on luck: at the signal, a thread that waits ends, and the destructor can return; a thread that is anywhere
  else - at the top of its loop, about to lock, or back from a wait that timed out - never hears of it, and
  the destructor never returns, unless later a wait ends for no reason.\<close>

theorem cthread_stop:
  assumes "ct_reachable s" "d_pc s = DSignal" "unit_step s s'"
  shows "(if (\<exists>tv. t_pc s = TWait tv) \<or> t_pc s = TBack True
     then \<exists>s''. cthread_step\<^sup>*\<^sup>* s' s'' \<and> d_pc s'' = DDone \<and> cb_runs s'' = cb_runs s
     else \<forall>s''. cthread_step\<^sup>*\<^sup>* s' s'' \<longrightarrow> t_pc s'' \<noteq> TExit \<and> d_pc s'' \<noteq> DDone)"
proof -
  have s': "s' = s\<lparr>d_pc := DUnlock, t_pc := cond_signal (t_pc s)\<rparr>" using assms(2,3) by (auto elim: unit_stepE)
  have inv: "mutex_inv s" by (rule reachable_mutex_inv [OF assms(1)])
  show ?thesis
  proof (cases "(\<exists>tv. t_pc s = TWait tv) \<or> t_pc s = TBack True")
    case True
    then have "t_pc s' = TBack True" "d_pc s' = DUnlock" "cb_runs s' = cb_runs s" by (auto simp: s' cond_signal_def)
    then show ?thesis using heard_stops [of s'] True by simp
  next
    case False
    have "t_pc s \<noteq> TExit" using inv assms(2) by (auto simp: mutex_inv_def)
    then have "missed s'" using False by (auto simp: s' missed_def cond_signal_def split: thread_pc.splits)
    then have "t_pc s'' \<noteq> TExit \<and> d_pc s'' \<noteq> DDone" if "cthread_step\<^sup>*\<^sup>* s' s''" for s''
      using missed_system.invar_moves [OF that] by (auto simp: missed_def)
    then show ?thesis using False by simp
  qed
qed

theorem cthread_stop_witness:
  "(\<exists>s''. cthread_step\<^sup>*\<^sup>* ((demo_thread (TWait demo_tv) DSignal (Some UnitA))\<lparr>d_pc := DUnlock, t_pc := cond_signal (TWait demo_tv)\<rparr>) s'' \<and> d_pc s'' = DDone) \<and>
   \<not> (\<exists>s''. cthread_step\<^sup>*\<^sup>* ((demo_thread (TLock demo_tv) DSignal (Some UnitA))\<lparr>d_pc := DUnlock, t_pc := cond_signal (TLock demo_tv)\<rparr>) s'' \<and> d_pc s'' = DDone)"
proof -
  have pc: "d_pc (demo_thread t DSignal m) = DSignal" "t_pc (demo_thread t DSignal m) = t" for t m by (simp_all add: demo_thread_def)
  show ?thesis
    using cthread_stop [OF demo_signal [OF demo_waiting] pc(1) demo_given] cthread_stop [OF demo_signal [OF demo_locking] pc(1) demo_given]
    unfolding pc by auto
qed

text \<open>A wait that ends for no reason ends the thread: it takes the mutex with it, the callback never runs again, and
  the destructor, if it had not locked before, waits for the mutex for ever.\<close>

theorem cthread_spurious_end:
  assumes "ct_reachable s" "t_pc s = TWait tv" "d_pc s \<in> {DNone, DLock}"
  shows "\<exists>s1. cthread_any\<^sup>*\<^sup>* s s1 \<and> t_pc s1 = TExit \<and>
    (\<forall>s2. cthread_any\<^sup>*\<^sup>* s1 s2 \<longrightarrow> d_pc s2 \<in> {DNone, DLock} \<and> cb_runs s2 = cb_runs s)"
proof -
  let ?s0 = "s\<lparr>t_pc := TBack True\<rparr>"
  let ?s1 = "?s0\<lparr>t_pc := TExit, i_mutex := Some ThreadA\<rparr>"
  have free: "i_mutex s = None"
    using reachable_mutex_inv [OF assms(1)] assms(2,3) by (cases "i_mutex s"; cases "the (i_mutex s)") (auto simp: mutex_inv_def)
  have "cthread_any s ?s0" by (rule t_spurious [OF assms(2)])
  moreover have "cthread_any ?s0 ?s1" using t_break [of ?s0] free by (intro regular by_thread) simp
  ultimately have r: "cthread_any\<^sup>*\<^sup>* s ?s1" by (auto intro: converse_rtranclp_into_rtranclp)
  have inv: "mutex_inv ?s1" by (rule ct_system.invar_moves [OF r reachable_mutex_inv [OF assms(1)]])
  have g: "gone (cb_runs s) ?s1" by (simp add: gone_def)
  have "d_pc s2 \<in> {DNone, DLock} \<and> cb_runs s2 = cb_runs s" if "cthread_any\<^sup>*\<^sup>* ?s1 s2" for s2
    using gone_run [OF that inv g] gone_before_lock [OF that inv g] assms(3) by (simp add: gone_def)
  then show ?thesis using r by (intro exI [of _ ?s1]) simp
qed

theorem cthread_spurious_end_witness:
  "\<exists>s1. cthread_any\<^sup>*\<^sup>* (demo_thread (TWait demo_tv) DNone None) s1 \<and> t_pc s1 = TExit \<and> \<not> (\<exists>s2. cthread_any\<^sup>*\<^sup>* s1 s2 \<and> d_pc s2 = DDone)"
proof -
  have "t_pc (demo_thread (TWait demo_tv) DNone None) = TWait demo_tv" "d_pc (demo_thread (TWait demo_tv) DNone None) \<in> {DNone, DLock}"
    by (simp_all add: demo_thread_def)
  from cthread_spurious_end [OF demo_waiting this] show ?thesis by fastforce
qed

text \<open>C25. The cycle is kept only in part of each second: if the milliseconds do not reach past the end of the
  current second, the deadline is the time of the cycle and the callback is not called before it; otherwise, and always from
  1000 milliseconds on, the deadline is refused and the callback is called at once, without waiting. From 2148 milliseconds on
  the computation overflows.\<close>

theorem cthread_cycle:
  assumes "0 \<le> ms" "t_pc s = TTop" "s32SecCycle s = sec" "s32mSecCycle s = ms"
  shows "(thread_step s s1 \<longrightarrow> ms < 2148 \<and> (\<exists>tv. t_pc s1 = TLock tv \<and>
      (tv_valid tv \<longleftrightarrow> clock s mod 1000000000 + ms * 1000000 < 1000000000) \<and> tv_time tv = clock s + sec * 1000000000 + ms * 1000000 \<and>
      (\<forall>s2 s3. t_pc s2 = TLock tv \<and> thread_step s2 s3 \<longrightarrow> t_pc s3 = (if tv_valid tv then TWait tv else TCall)) \<and>
      (\<forall>s2 s3. t_pc s2 = TWait tv \<and> cthread_step s2 s3 \<and> t_pc s3 = TBack False \<longrightarrow> clock s + sec * 1000000000 + ms * 1000000 \<le> clock s2)))"
proof
  assume "thread_step s s1"
  then obtain tv where tv: "GetTv (clock s) sec ms = Some tv" "t_pc s1 = TLock tv" using assms(2-4) by (auto elim: thread_stepE)
  have m: "ms * 1000 * 1000 < 2147483648" and t: "tv = \<lparr>tv_sec = clock s div 1000000000 + sec, tv_nsec = clock s mod 1000000000 + ms * 1000 * 1000\<rparr>"
    using tv(1) by (auto simp: GetTv_def dest!: i32_SomeD split: bind_splits)
  have v: "tv_valid tv \<longleftrightarrow> clock s mod 1000000000 + ms * 1000000 < 1000000000" using assms(1) by (simp add: t tv_valid_def mult.commute)
  have e: "tv_time tv = clock s + sec * 1000000000 + ms * 1000000" by (simp add: t tv_time_def distrib_right)
  have "t_pc s3 = (if tv_valid tv then TWait tv else TCall)" if "t_pc s2 = TLock tv \<and> thread_step s2 s3" for s2 s3
    using that by (auto elim: thread_stepE)
  moreover have "clock s + sec * 1000000000 + ms * 1000000 \<le> clock s2" if "t_pc s2 = TWait tv \<and> cthread_step s2 s3 \<and> t_pc s3 = TBack False" for s2 s3
    using that e [symmetric] by (auto elim!: cthread_stepE thread_stepE unit_stepE simp: cond_signal_def)
  ultimately show "ms < 2148 \<and> (\<exists>tv. t_pc s1 = TLock tv \<and>
      (tv_valid tv \<longleftrightarrow> clock s mod 1000000000 + ms * 1000000 < 1000000000) \<and> tv_time tv = clock s + sec * 1000000000 + ms * 1000000 \<and>
      (\<forall>s2 s3. t_pc s2 = TLock tv \<and> thread_step s2 s3 \<longrightarrow> t_pc s3 = (if tv_valid tv then TWait tv else TCall)) \<and>
      (\<forall>s2 s3. t_pc s2 = TWait tv \<and> cthread_step s2 s3 \<and> t_pc s3 = TBack False \<longrightarrow> clock s + sec * 1000000000 + ms * 1000000 \<le> clock s2))"
    using m tv(2) v e by (intro conjI exI [of _ tv]) auto
qed

theorem cthread_cycle_witness:
  "\<exists>tv. GetTv 700000000 0 500 = Some tv \<and> \<not> tv_valid tv \<and>
     \<not> (\<exists>s2 s3. t_pc s2 = TLock tv \<and> thread_step s2 s3 \<and> t_pc s3 \<noteq> TCall)"
proof -
  let ?s = "new_CThread 0 500 700000000"
  obtain tv where tv: "GetTv 700000000 0 500 = Some tv" by (simp add: GetTv_def i32_def)
  have s: "t_pc ?s = TTop" "s32SecCycle ?s = 0" "s32mSecCycle ?s = 500" "clock ?s = 700000000" by (simp_all add: new_CThread_def)
  have "thread_step ?s (?s\<lparr>t_pc := TLock tv\<rparr>)" using tv s by (intro t_time) simp_all
  with cthread_cycle [OF _ s(1-3), of "?s\<lparr>t_pc := TLock tv\<rparr>"] tv show ?thesis unfolding s(4) by auto
qed

end
