(* ===== verification/LetterTrie.thy ===== *)
theory LetterTrie
  imports Prelude "HOL-Library.Multiset"
begin

text \<open>
  The letter tree (template/datastruct/Trie.h): words with the number of times they were inserted. A node
  has a count, the number of its children and an array of children of the size of the alphabet; a
  pointer to a child is an option. \<^term>\<open>None\<close> is undefined behaviour: a letter that has no index, an access outside
  the array, or a count that leaves \<open>int\<close>.
\<close>

section \<open>State\<close>

datatype trie_node = Trie_node (freq: int) (node: int) (child: "trie_node option list")

definition new_trie_node :: "nat \<Rightarrow> trie_node" where
  "new_trie_node Size = Trie_node 0 0 (replicate Size None)"

definition IndexClass :: "char \<Rightarrow> nat option" where
  "IndexClass key = (let k = of_char key in
     if of_char CHR ''a'' \<le> k \<and> k \<le> of_char CHR ''z'' then Some (k - of_char CHR ''a'')
     else if of_char CHR ''A'' \<le> k \<and> k \<le> of_char CHR ''Z'' then Some (k - of_char CHR ''A'') else None)"

section \<open>Operations\<close>

definition child_at :: "('k \<Rightarrow> nat option) \<Rightarrow> 'k \<Rightarrow> trie_node option list \<Rightarrow> (nat \<times> trie_node option) option" where
  "child_at index k cs = do {
     i \<leftarrow> index k;
     c \<leftarrow> get cs (int i);
     Some (i, c)}"

fun trie_insert :: "nat \<Rightarrow> ('k \<Rightarrow> nat option) \<Rightarrow> 'k list \<Rightarrow> trie_node \<Rightarrow> trie_node option" where
  "trie_insert Size index [] (Trie_node f n cs) = do {
     f1 \<leftarrow> i32 (f + 1);
     Some (Trie_node f1 n cs)}"
| "trie_insert Size index (k # ks) (Trie_node f n cs) = do {
     (i, c) \<leftarrow> child_at index k cs;
     (case c of
       None \<Rightarrow> do {
         n1 \<leftarrow> i32 (n + 1);
         t \<leftarrow> trie_insert Size index ks (new_trie_node Size);
         Some (Trie_node f n1 (cs[i := Some t]))}
     | Some c \<Rightarrow> do {
         t \<leftarrow> trie_insert Size index ks c;
         Some (Trie_node f n (cs[i := Some t]))})}"

fun getfreq :: "('k \<Rightarrow> nat option) \<Rightarrow> 'k list \<Rightarrow> trie_node \<Rightarrow> int option" where
  "getfreq index [] (Trie_node f n cs) = Some f"
| "getfreq index (k # ks) (Trie_node f n cs) = do {
     (i, c) \<leftarrow> child_at index k cs;
     (case c of None \<Rightarrow> Some 0 | Some c \<Rightarrow> getfreq index ks c)}"

definition trie_find :: "('k \<Rightarrow> nat option) \<Rightarrow> 'k list \<Rightarrow> trie_node \<Rightarrow> bool option" where
  "trie_find index str t = map_option (\<lambda>f. 0 < f) (getfreq index str t)"

text \<open>Whether the word was there, whether the node is to be deleted, and the node left.\<close>

fun erase_node :: "('k \<Rightarrow> nat option) \<Rightarrow> 'k list \<Rightarrow> trie_node \<Rightarrow> (bool \<times> bool \<times> trie_node) option" where
  "erase_node index [] (Trie_node f n cs) = (let f1 = (if f \<noteq> 0 then f - 1 else f) in
     Some (0 < f, f1 = 0 \<and> n = 0, Trie_node f1 n cs))"
| "erase_node index (k # ks) (Trie_node f n cs) = do {
     (i, c) \<leftarrow> child_at index k cs;
     (case c of
       None \<Rightarrow> Some (False, False, Trie_node f n cs)
     | Some c \<Rightarrow> do {
         (result, del, t) \<leftarrow> erase_node index ks c;
         Some (if del then (result, n - 1 = 0 \<and> f = 0, Trie_node f (n - 1) (cs[i := None]))
           else (result, False, Trie_node f n (cs[i := Some t])))})}"

definition trie_erase :: "('k \<Rightarrow> nat option) \<Rightarrow> 'k list \<Rightarrow> trie_node \<Rightarrow> (bool \<times> trie_node) option" where
  "trie_erase index w t = map_option (\<lambda>(result, del, t'). (result, t')) (erase_node index w t)"

text \<open>The children are removed from the first on until the number of children is used up.\<close>

fun clear_children :: "int \<Rightarrow> trie_node option list \<Rightarrow> int \<times> trie_node option list" where
  "clear_children n [] = (n, [])"
| "clear_children n (None # cs) = (let (m, cs') = clear_children n cs in (m, None # cs'))"
| "clear_children n (Some c # cs) = (if n - 1 = 0 then (0, None # cs) else (let (m, cs') = clear_children (n - 1) cs in (m, None # cs')))"

fun clear_node :: "trie_node \<Rightarrow> trie_node" where
  "clear_node (Trie_node f n cs) = (let (m, cs') = clear_children n cs in Trie_node f m cs')"

definition trie_clear :: "trie_node \<Rightarrow> trie_node" where
  "trie_clear root = (case clear_node root of Trie_node f n cs \<Rightarrow> Trie_node f n (replicate (length cs) None))"

fun sizeAll :: "trie_node \<Rightarrow> int option" and sizeAll_loop :: "trie_node option list \<Rightarrow> int \<Rightarrow> int option" where
  "sizeAll (Trie_node f n cs) = sizeAll_loop cs f"
| "sizeAll_loop [] sz = Some sz"
| "sizeAll_loop (None # cs) sz = sizeAll_loop cs sz"
| "sizeAll_loop (Some c # cs) sz = do {
     s \<leftarrow> sizeAll c;
     sz1 \<leftarrow> i32 (sz + s);
     sizeAll_loop cs sz1}"

fun sizeNoneRedundant :: "trie_node \<Rightarrow> int option" and none_loop :: "trie_node option list \<Rightarrow> int \<Rightarrow> int option" where
  "sizeNoneRedundant (Trie_node f n cs) = none_loop cs (if 0 < f then 1 else 0)"
| "none_loop [] sz = Some sz"
| "none_loop (None # cs) sz = none_loop cs sz"
| "none_loop (Some c # cs) sz = do {
     s \<leftarrow> sizeNoneRedundant c;
     sz1 \<leftarrow> i32 (sz + s);
     none_loop cs sz1}"

text \<open>The functions without arguments call these and have no return statement: undefined behaviour.\<close>

definition sizeAll_root :: "trie_node \<Rightarrow> int option" where
  "sizeAll_root root = do {_ \<leftarrow> sizeAll root; None}"

definition sizeNoneRedundant_root :: "trie_node \<Rightarrow> int option" where
  "sizeNoneRedundant_root root = do {_ \<leftarrow> sizeNoneRedundant root; None}"

fun maxPrefix_len :: "trie_node \<Rightarrow> int" and max_len_loop :: "trie_node option list \<Rightarrow> int \<Rightarrow> int" where
  "maxPrefix_len (Trie_node f n cs) = (let l = max_len_loop cs 0 in
     if 0 < l \<or> 1 < n \<or> 0 < f \<and> 0 < n then l + 1 else l)"
| "max_len_loop [] l = l"
| "max_len_loop (None # cs) l = max_len_loop cs l"
| "max_len_loop (Some c # cs) l = (let tmp = maxPrefix_len c in max_len_loop cs (if l < tmp then tmp else l))"

definition maxPrefix_length :: "trie_node \<Rightarrow> int" where
  "maxPrefix_length root = maxPrefix_len root - 1"

text \<open>The prefix is gathered from its end; one string receives the prefixes of all children.\<close>

fun maxPrefix_node :: "trie_node \<Rightarrow> string \<Rightarrow> string" and
    max_loop :: "trie_node option list \<Rightarrow> nat \<Rightarrow> string \<Rightarrow> nat \<Rightarrow> string \<Rightarrow> nat \<Rightarrow> nat \<times> string \<times> nat" where
  "maxPrefix_node (Trie_node f n cs) prefix = (case max_loop cs 0 [] 0 prefix 0 of (l, prefix1, k) \<Rightarrow>
     if 0 < l \<or> 1 < n \<or> 0 < f \<and> 0 < n then prefix1 @ [char_of (k + of_char CHR ''a'')] else prefix1)"
| "max_loop [] i word l prefix k = (l, prefix, k)"
| "max_loop (None # cs) i word l prefix k = max_loop cs (Suc i) word l prefix k"
| "max_loop (Some c # cs) i word l prefix k = (let word1 = maxPrefix_node c word in
     if l < length word1 then max_loop cs (Suc i) prefix (length word1) word1 i
     else max_loop cs (Suc i) word1 l prefix k)"

text \<open>Reversing and cutting off the root's letter; an empty string has no position to cut at, which throws.\<close>

definition maxPrefix :: "trie_node \<Rightarrow> string option" where
  "maxPrefix root = (let word = maxPrefix_node root [] in if word = [] then None else Some (butlast (rev word)))"

text \<open>
  The words are reported from a buffer of 100 characters, up to the first zero; a letter written at an index
  past the buffer is outside it.
\<close>

fun traverse_node :: "trie_node \<Rightarrow> char list \<Rightarrow> int \<Rightarrow> ((string \<times> int) list \<times> char list) option" and
    traverse_loop :: "trie_node option list \<Rightarrow> nat \<Rightarrow> char list \<Rightarrow> int \<Rightarrow> ((string \<times> int) list \<times> char list) option" where
  "traverse_node (Trie_node f n cs) word index = do {
     (rest, word1) \<leftarrow> traverse_loop cs 0 word index;
     Some ((if f \<noteq> 0 then [(takeWhile (\<lambda>c. c \<noteq> CHR 0x00) word, f)] else []) @ rest, word1)}"
| "traverse_loop [] i word index = Some ([], word)"
| "traverse_loop (None # cs) i word index = traverse_loop cs (Suc i) word index"
| "traverse_loop (Some c # cs) i word index = do {
     word1 \<leftarrow> put word index (char_of (i + of_char CHR ''a''));
     (a, word2) \<leftarrow> traverse_node c word1 (index + 1);
     word3 \<leftarrow> put word2 (index + 1) (CHR 0x00);
     (b, word4) \<leftarrow> traverse_loop cs (Suc i) word3 index;
     Some (a @ b, word4)}"

definition traverse :: "trie_node \<Rightarrow> (string \<times> int) list option" where
  "traverse root = map_option fst (traverse_node root (replicate 100 (CHR 0x00)) 0)"


section \<open>The words of a tree\<close>

text \<open>
  A word is the list of the indices of its letters. A tree is proper when its counts are not negative, each
  node tells the number of its children, and no child is a dead end.
\<close>

fun occ :: "trie_node \<Rightarrow> nat list \<Rightarrow> int" where
  "occ (Trie_node f n cs) [] = f"
| "occ (Trie_node f n cs) (i # ks) = (if i < length cs then (case cs ! i of None \<Rightarrow> 0 | Some c \<Rightarrow> occ c ks) else 0)"

fun total_freq :: "trie_node \<Rightarrow> int" where
  "total_freq (Trie_node f n cs) = f + sum_list (map (\<lambda>c. case c of None \<Rightarrow> 0 | Some c \<Rightarrow> total_freq c) cs)"

definition children :: "trie_node option list \<Rightarrow> int" where
  "children cs = sum_list (map (\<lambda>c. if c = None then 0 else 1) cs)"

definition live :: "trie_node \<Rightarrow> bool" where
  "live t \<longleftrightarrow> freq t \<noteq> 0 \<or> node t \<noteq> 0"

fun trie_ok :: "nat \<Rightarrow> trie_node \<Rightarrow> bool" where
  "trie_ok S (Trie_node f n cs) \<longleftrightarrow> 0 \<le> f \<and> length cs = S \<and> n = children cs \<and>
     (\<forall>c \<in> set cs. case c of None \<Rightarrow> True | Some c \<Rightarrow> trie_ok S c \<and> live c)"

definition letters_ok :: "nat \<Rightarrow> ('k \<Rightarrow> nat option) \<Rightarrow> 'k list \<Rightarrow> bool" where
  "letters_ok S index w \<longleftrightarrow> (\<forall>k \<in> set w. \<exists>i < S. index k = Some i)"

definition idx :: "('k \<Rightarrow> nat option) \<Rightarrow> 'k list \<Rightarrow> nat list" where
  "idx index w = map (\<lambda>k. the (index k)) w"

lemma idx_simps [simp]: "idx index [] = []" "idx index (k # w) = the (index k) # idx index w"
  by (simp_all add: idx_def)

lemma letters_ok_Cons: "letters_ok S index (k # w) \<longleftrightarrow> (\<exists>i < S. index k = Some i) \<and> letters_ok S index w"
  by (simp add: letters_ok_def)

lemma child_at_Some: "index k = Some i \<Longrightarrow> i < length cs \<Longrightarrow> child_at index k cs = Some (i, cs ! i)"
  by (simp add: child_at_def mem_simps)

lemma trie_ok_child: "trie_ok S (Trie_node f n cs) \<Longrightarrow> i < S \<Longrightarrow> cs ! i = Some c \<Longrightarrow> trie_ok S c \<and> live c"
proof -
  assume a: "trie_ok S (Trie_node f n cs)" "i < S" "cs ! i = Some c"
  then have "Some c \<in> set cs" using nth_mem [of i cs] by simp
  then show ?thesis using a(1) by fastforce
qed

lemma sum_list_update_int: "i < length xs \<Longrightarrow> sum_list (map f (xs[i := x])) = sum_list (map f xs) - f (xs ! i) + (f x :: int)"
proof (induction xs arbitrary: i)
  case (Cons a xs)
  then show ?case by (cases i) auto
qed simp

lemma children_update: "i < length cs \<Longrightarrow> children (cs[i := x]) = children cs - (if cs ! i = None then 0 else 1) + (if x = None then 0 else 1)"
  by (simp add: children_def sum_list_update_int)

lemma children_bounds: "0 \<le> children cs" "children cs \<le> int (length cs)"
  by (induction cs) (auto simp: children_def)

lemma children_free: "i < length cs \<Longrightarrow> cs ! i = None \<Longrightarrow> children cs < int (length cs)"
  using children_update [of i cs "Some x"] children_bounds(2) [of "cs[i := Some x]"] by (simp split: if_splits)

lemma trie_ok_update:
  assumes "trie_ok S (Trie_node f n cs)" "i < S" "x = None \<or> (\<exists>c. x = Some c \<and> trie_ok S c \<and> live c)"
  shows "trie_ok S (Trie_node f (n - (if cs ! i = None then 0 else 1) + (if x = None then 0 else 1)) (cs[i := x]))"
proof -
  have "\<forall>c \<in> set (cs[i := x]). case c of None \<Rightarrow> True | Some c \<Rightarrow> trie_ok S c \<and> live c"
    using assms set_update_subset_insert [of cs i x] by fastforce
  then show ?thesis using assms children_update [of i cs x] by simp
qed

lemma new_ok: "trie_ok S (new_trie_node S)" "occ (new_trie_node S) v = 0" "total_freq (new_trie_node S) = 0"
proof -
  have c: "children (replicate S None) = 0" by (induction S) (auto simp: children_def)
  have t: "sum_list (map (\<lambda>c. case c of None \<Rightarrow> 0 | Some c \<Rightarrow> total_freq c) (replicate S None)) = 0" by (induction S) auto
  show "trie_ok S (new_trie_node S)" by (auto simp: new_trie_node_def c)
  show "occ (new_trie_node S) v = 0" by (cases v) (auto simp: new_trie_node_def)
  show "total_freq (new_trie_node S) = 0" using t by (simp add: new_trie_node_def)
qed

lemma occ_nonneg: "trie_ok S t \<Longrightarrow> 0 \<le> occ t v"
proof (induction t v rule: occ.induct)
  case (2 f n cs i ks)
  then show ?case using trie_ok_child [OF 2(2), of i] by (auto split: option.split)
qed simp

lemma getfreq_occ: "trie_ok S t \<Longrightarrow> letters_ok S index w \<Longrightarrow> getfreq index w t = Some (occ t (idx index w))"
proof (induction w arbitrary: t)
  case (Cons k w)
  obtain f n cs where t: "t = Trie_node f n cs" by (cases t)
  obtain i where i: "i < S" "index k = Some i" using Cons.prems(2) by (auto simp: letters_ok_Cons)
  have l: "length cs = S" using Cons.prems(1) t by simp
  show ?case
  proof (cases "cs ! i")
    case None
    then show ?thesis using i l by (simp add: t child_at_Some)
  next
    case (Some c)
    then show ?thesis using i l trie_ok_child [OF Cons.prems(1)[unfolded t] i(1) Some] Cons.IH [of c] Cons.prems(2)
      by (simp add: t child_at_Some letters_ok_Cons)
  qed
next
  case Nil
  then show ?case by (cases t) simp
qed

lemma insert_spec:
  assumes "S < 2 ^ 31"
  shows "trie_ok S t \<Longrightarrow> letters_ok S index w \<Longrightarrow> occ t (idx index w) < 2147483647 \<Longrightarrow>
    \<exists>t'. trie_insert S index w t = Some t' \<and> trie_ok S t' \<and> live t' \<and>
      (\<forall>v. occ t' v = occ t v + (if v = idx index w then 1 else 0)) \<and> total_freq t' = total_freq t + 1"
proof (induction w arbitrary: t)
  case Nil
  obtain f n cs where t: "t = Trie_node f n cs" by (cases t)
  have f: "0 \<le> f" "f < 2147483647" using Nil t by auto
  have "occ (Trie_node (f + 1) n cs) v = occ t v + (if v = [] then 1 else 0)" for v by (cases v) (auto simp: t)
  then show ?case using f Nil(1) by (auto simp: t i32_Some live_def)
next
  case (Cons k w)
  obtain f n cs where t: "t = Trie_node f n cs" by (cases t)
  obtain i where i: "i < S" "index k = Some i" using Cons.prems(2) by (auto simp: letters_ok_Cons)
  have w: "letters_ok S index w" using Cons.prems(2) by (simp add: letters_ok_Cons)
  have l: "length cs = S" and n: "n = children cs" using Cons.prems(1) t by simp_all
  define c0 where "c0 = (case cs ! i of None \<Rightarrow> new_trie_node S | Some c \<Rightarrow> c)"
  have c0: "trie_ok S c0" "occ c0 (idx index w) < 2147483647"
    using new_ok [of S] trie_ok_child [OF Cons.prems(1)[unfolded t] i(1)] Cons.prems(3) i l
    by (auto simp: c0_def t split: option.splits)
  from Cons.IH [OF c0(1) w c0(2)] obtain t1 where t1: "trie_insert S index w c0 = Some t1" "trie_ok S t1" "live t1"
    "\<forall>v. occ t1 v = occ c0 v + (if v = idx index w then 1 else 0)" "total_freq t1 = total_freq c0 + 1" by blast
  define n1 where "n1 = n - (if cs ! i = None then 0 else 1) + 1"
  have "n1 = (if cs ! i = None then n + 1 else n)" by (simp add: n1_def)
  moreover have "i32 (n + 1) = Some (n + 1)" if "cs ! i = None"
    using children_free [OF _ that] children_bounds(1) [of cs] i(1) l n assms by (intro i32_Some) auto
  ultimately have r: "trie_insert S index (k # w) t = Some (Trie_node f n1 (cs[i := Some t1]))"
    using t1(1) i l by (auto simp: t child_at_Some c0_def split: option.split)
  have ok: "trie_ok S (Trie_node f n1 (cs[i := Some t1]))"
    using trie_ok_update [OF Cons.prems(1)[unfolded t] i(1), of "Some t1"] t1(2,3) by (simp add: n1_def)
  have lv: "live (Trie_node f n1 (cs[i := Some t1]))"
    using children_bounds(1) [of cs] children_update [of i cs "None"] children_bounds(1) [of "cs[i := None]"] i(1) l n
    by (auto simp: live_def n1_def split: if_splits)
  have o0: "occ c0 v = (case cs ! i of None \<Rightarrow> 0 | Some c \<Rightarrow> occ c v)" for v using new_ok(2) by (simp add: c0_def split: option.split)
  have o: "occ (Trie_node f n1 (cs[i := Some t1])) v = occ t v + (if v = idx index (k # w) then 1 else 0)" for v
    using i l t1(4) o0 by (cases v) (auto simp: t nth_list_update)
  have "(case cs ! i of None \<Rightarrow> 0 | Some c \<Rightarrow> total_freq c) = total_freq c0" using new_ok(3) by (simp add: c0_def split: option.split)
  then have "total_freq (Trie_node f n1 (cs[i := Some t1])) = total_freq t + 1"
    using t1(5) i l by (simp add: t sum_list_update_int)
  then show ?case using r ok lv o by blast
qed


section \<open>Erasing\<close>

lemma children_zero: "children cs = 0 \<longleftrightarrow> (\<forall>c \<in> set cs. c = None)"
proof (induction cs)
  case (Cons c cs)
  then show ?case using children_bounds(1) [of cs] by (auto simp: children_def)
qed (simp add: children_def)

lemma dead_empty:
  assumes "trie_ok S t" "\<not> live t"
  shows "occ t v = 0" "total_freq t = 0"
proof -
  obtain f n cs where t: "t = Trie_node f n cs" by (cases t)
  have z: "f = 0" "children cs = 0" "\<forall>c \<in> set cs. c = None" using assms children_zero [of cs] by (auto simp: t live_def)
  have "cs ! a = None" if "a < length cs" for a using z(3) nth_mem [OF that] by blast
  then show "occ t v = 0" using z(1) by (cases v) (simp_all add: t)
  have "sum_list (map (\<lambda>c. case c of None \<Rightarrow> 0 | Some c \<Rightarrow> total_freq c) cs) = 0" using z(3) by (induction cs) auto
  then show "total_freq t = 0" using z(1) by (simp add: t)
qed

lemma erase_spec:
  "trie_ok S t \<Longrightarrow> letters_ok S index w \<Longrightarrow>
   \<exists>d t'. erase_node index w t = Some (0 < occ t (idx index w), d, t') \<and> trie_ok S t' \<and> (d \<longrightarrow> \<not> live t') \<and> (\<not> d \<longrightarrow> live t' \<or> t' = t) \<and>
     (\<forall>v. occ t' v = occ t v - (if v = idx index w \<and> 0 < occ t (idx index w) then 1 else 0)) \<and>
     total_freq t' = total_freq t - (if 0 < occ t (idx index w) then 1 else 0)"
proof (induction w arbitrary: t)
  case Nil
  obtain f n cs where t: "t = Trie_node f n cs" by (cases t)
  have f: "0 \<le> f" using Nil t by simp
  define f1 where "f1 = (if f \<noteq> 0 then f - 1 else f)"
  have "occ (Trie_node f1 n cs) v = occ t v - (if v = [] \<and> 0 < f then 1 else 0)" for v using f by (cases v) (auto simp: t f1_def)
  then show ?case using f Nil(1) by (auto simp: t Let_def live_def f1_def)
next
  case (Cons k w)
  obtain f n cs where t: "t = Trie_node f n cs" by (cases t)
  obtain i where i: "i < S" "index k = Some i" using Cons.prems(2) by (auto simp: letters_ok_Cons)
  have w: "letters_ok S index w" using Cons.prems(2) by (simp add: letters_ok_Cons)
  have l: "length cs = S" and n: "n = children cs" using Cons.prems(1) t by simp_all
  show ?case
  proof (cases "cs ! i")
    case None
    then show ?thesis using i l Cons.prems(1) by (auto simp: t child_at_Some)
  next
    case (Some c)
    have c: "trie_ok S c" "live c" using trie_ok_child [OF Cons.prems(1)[unfolded t] i(1) Some] by simp_all
    from Cons.IH [OF c(1) w] obtain d t1 where t1: "erase_node index w c = Some (0 < occ c (idx index w), d, t1)" "trie_ok S t1"
      "d \<longrightarrow> \<not> live t1" "\<not> d \<longrightarrow> live t1 \<or> t1 = c"
      "\<forall>v. occ t1 v = occ c v - (if v = idx index w \<and> 0 < occ c (idx index w) then 1 else 0)"
      "total_freq t1 = total_freq c - (if 0 < occ c (idx index w) then 1 else 0)" by blast
    have oc: "occ t (idx index (k # w)) = occ c (idx index w)" using i l Some by (simp add: t)
    show ?thesis
    proof (cases d)
      case True
      have e: "occ t1 v = 0" "total_freq t1 = 0" for v using dead_empty [OF t1(2)] t1(3) True by simp_all
      have r: "erase_node index (k # w) t = Some (0 < occ c (idx index w), n - 1 = 0 \<and> f = 0, Trie_node f (n - 1) (cs[i := None]))"
        using i l Some t1(1) True by (simp add: t child_at_Some)
      have ok: "trie_ok S (Trie_node f (n - 1) (cs[i := None]))" using trie_ok_update [OF Cons.prems(1)[unfolded t] i(1), of None] Some by simp
      have o: "occ (Trie_node f (n - 1) (cs[i := None])) v = occ t v - (if v = idx index (k # w) \<and> 0 < occ c (idx index w) then 1 else 0)" for v
      proof (cases v)
        case (Cons j u)
        have "occ c u = (if u = idx index w \<and> 0 < occ c (idx index w) then 1 else 0)" using t1(5) e(1) [of u] by auto
        then show ?thesis using i l Some Cons by (auto simp: t nth_list_update)
      qed (simp add: t)
      have "total_freq (Trie_node f (n - 1) (cs[i := None])) = total_freq t - (if 0 < occ c (idx index w) then 1 else 0)"
        using t1(6) e(2) i l Some by (simp add: t sum_list_update_int)
      then show ?thesis unfolding oc using r ok o by (auto simp: live_def)
    next
      case False
      have lv: "live t1" using t1(4) False c(2) by blast
      have r: "erase_node index (k # w) t = Some (0 < occ c (idx index w), False, Trie_node f n (cs[i := Some t1]))"
        using i l Some t1(1) False by (simp add: t child_at_Some)
      have ok: "trie_ok S (Trie_node f n (cs[i := Some t1]))" using trie_ok_update [OF Cons.prems(1)[unfolded t] i(1), of "Some t1"] Some lv t1(2) by simp
      have "n \<noteq> 0" using n children_zero [of cs] Some i l nth_mem [of i cs] by fastforce
      then have lv': "live (Trie_node f n (cs[i := Some t1]))" by (simp add: live_def)
      have o: "occ (Trie_node f n (cs[i := Some t1])) v = occ t v - (if v = idx index (k # w) \<and> 0 < occ c (idx index w) then 1 else 0)" for v
        using i l Some t1(5) by (cases v) (auto simp: t nth_list_update)
      have "total_freq (Trie_node f n (cs[i := Some t1])) = total_freq t - (if 0 < occ c (idx index w) then 1 else 0)"
        using t1(6) i l Some by (simp add: t sum_list_update_int)
      then show ?thesis unfolding oc using r ok lv' o by blast
    qed
  qed
qed

lemma erase_insert:
  "trie_ok S t \<Longrightarrow> letters_ok S index w \<Longrightarrow> trie_insert S index w t = Some t' \<Longrightarrow> erase_node index w t' = Some (True, \<not> live t, t)"
proof (induction w arbitrary: t t')
  case Nil
  obtain f n cs where t: "t = Trie_node f n cs" by (cases t)
  have "0 \<le> f" "i32 (f + 1) \<noteq> None" using Nil t by (auto split: bind_splits)
  then show ?case using Nil(3) i32_SomeD [of "f + 1"] by (auto simp: t live_def Let_def split: bind_splits)
next
  case (Cons k w)
  obtain f n cs where t: "t = Trie_node f n cs" by (cases t)
  obtain i where i: "i < S" "index k = Some i" using Cons.prems(2) by (auto simp: letters_ok_Cons)
  have w: "letters_ok S index w" using Cons.prems(2) by (simp add: letters_ok_Cons)
  have l: "length cs = S" and n: "n = children cs" using Cons.prems(1) t by simp_all
  show ?case
  proof (cases "cs ! i")
    case None
    obtain n1 t1 where h: "i32 (n + 1) = Some n1" "trie_insert S index w (new_trie_node S) = Some t1" "t' = Trie_node f n1 (cs[i := Some t1])"
      using Cons.prems(3) None i l by (auto simp: t child_at_Some split: bind_splits)
    have n1: "n1 = n + 1" using i32_SomeD [OF h(1)] by simp
    have dead: "\<not> live (new_trie_node S)" by (simp add: live_def new_trie_node_def)
    have "cs[i := None] = cs" using None by (metis list_update_id)
    then show ?thesis using Cons.IH [OF new_ok(1) w h(2)] dead h(3) n1 i l by (auto simp: t child_at_Some live_def)
  next
    case (Some c)
    then obtain t1 where h: "trie_insert S index w c = Some t1" "t' = Trie_node f n (cs[i := Some t1])"
      using Cons.prems(3) i l by (auto simp: t child_at_Some split: bind_splits)
    have c: "trie_ok S c" "live c" using trie_ok_child [OF Cons.prems(1)[unfolded t] i(1) Some] by simp_all
    have "n \<noteq> 0" using n children_zero [of cs] Some i l nth_mem [of i cs] by fastforce
    moreover have "cs[i := Some c] = cs" using Some by (metis list_update_id)
    ultimately show ?thesis using Cons.IH [OF c(1) w h(1)] c(2) h(2) i l by (simp add: t child_at_Some live_def)
  qed
qed

section \<open>Sizes and clearing\<close>

lemma total_nonneg: "trie_ok S t \<Longrightarrow> 0 \<le> total_freq t"
proof (induction t rule: total_freq.induct)
  case (1 f n cs)
  have "0 \<le> sum_list (map (\<lambda>c. case c of None \<Rightarrow> 0 | Some c \<Rightarrow> total_freq c) cs)"
  proof (rule sum_list_nonneg)
    fix x assume "x \<in> set (map (\<lambda>c. case c of None \<Rightarrow> 0 | Some c \<Rightarrow> total_freq c) cs)"
    then obtain c where c: "c \<in> set cs" "x = (case c of None \<Rightarrow> 0 | Some c \<Rightarrow> total_freq c)" by auto
    show "0 \<le> x"
    proof (cases c)
      case (Some d)
      then have "trie_ok S d" using 1(2) c(1) by fastforce
      then show ?thesis using 1(1) [OF c(1) Some] c(2) Some by simp
    qed (simp add: c(2))
  qed
  then show ?case using 1(2) by simp
qed

lemma sizeAll_total:
  "trie_ok S t \<Longrightarrow> total_freq t < 2147483648 \<Longrightarrow> sizeAll t = Some (total_freq t)"
  "\<forall>c \<in> set cs. (case c of None \<Rightarrow> True | Some c \<Rightarrow> trie_ok S c) \<Longrightarrow> 0 \<le> acc \<Longrightarrow>
   acc + sum_list (map (\<lambda>c. case c of None \<Rightarrow> 0 | Some c \<Rightarrow> total_freq c) cs) < 2147483648 \<Longrightarrow>
   sizeAll_loop cs acc = Some (acc + sum_list (map (\<lambda>c. case c of None \<Rightarrow> 0 | Some c \<Rightarrow> total_freq c) cs))"
proof (induction t and cs acc rule: sizeAll_sizeAll_loop.induct)
  case (1 f n cs)
  then show ?case by (auto split: option.splits)
next
  case (4 c cs sz)
  let ?sum = "sum_list (map (\<lambda>c. case c of None \<Rightarrow> 0 | Some c \<Rightarrow> total_freq c) cs)"
  have ok: "trie_ok S c" "\<forall>c \<in> set cs. (case c of None \<Rightarrow> True | Some c \<Rightarrow> trie_ok S c)" using 4(3) by auto
  have s: "0 \<le> ?sum"
  proof (rule sum_list_nonneg)
    fix x assume "x \<in> set (map (\<lambda>c. case c of None \<Rightarrow> 0 | Some c \<Rightarrow> total_freq c) cs)"
    then show "0 \<le> x" using ok(2) total_nonneg by (fastforce split: option.splits)
  qed
  have c: "0 \<le> total_freq c" by (rule total_nonneg [OF ok(1)])
  have a: "sizeAll c = Some (total_freq c)" using 4(1) [OF ok(1)] 4(4,5) s by simp
  have b: "i32 (sz + total_freq c) = Some (sz + total_freq c)" using 4(4,5) s c by (intro i32_Some) simp_all
  have "sizeAll_loop cs (sz + total_freq c) = Some (sz + total_freq c + ?sum)"
    by (rule 4(2) [OF a b ok(2)]) (use 4(4,5) c in \<open>simp_all add: add.assoc\<close>)
  then show ?case using a b by (simp add: add.assoc)
qed simp_all

lemma clear_children_all: "n = children cs \<Longrightarrow> clear_children n cs = (0, replicate (length cs) None)"
proof (induction n cs rule: clear_children.induct)
  case (3 n c cs)
  then show ?case using children_zero [of cs]
    by (auto simp: children_def Let_def replicate_length_same)
qed (auto simp: children_def)


lemma trie_clear_all: "trie_ok S t \<Longrightarrow> trie_clear t = Trie_node (freq t) 0 (replicate S None)"
  by (cases t) (simp add: trie_clear_def clear_children_all)

lemma clear_spec:
  assumes "trie_ok S t"
  shows "trie_ok S (trie_clear t)" "occ (trie_clear t) v = (if v = [] then occ t [] else 0)" "total_freq (trie_clear t) = occ t []"
proof -
  obtain f n cs where t: "t = Trie_node f n cs" by (cases t)
  have e: "trie_clear t = Trie_node f 0 (replicate S None)" using trie_clear_all [OF assms] by (simp add: t)
  have "children (replicate S None) = 0" "sum_list (map (\<lambda>c. case c of None \<Rightarrow> 0 | Some c \<Rightarrow> total_freq c) (replicate S None)) = 0"
    by (induction S) (auto simp: children_def)
  then show "trie_ok S (trie_clear t)" "total_freq (trie_clear t) = occ t []" using assms e by (auto simp: t)
  show "occ (trie_clear t) v = (if v = [] then occ t [] else 0)" using e by (cases v) (auto simp: t)
qed

section \<open>Runs\<close>

text \<open>Sequences of operations, with what they return, on the tree and on a multiset of words.\<close>

datatype 'k trie_op = Ins "'k list" | Era "'k list" | Frq "'k list" | Fnd "'k list"

fun trie_do :: "nat \<Rightarrow> ('k \<Rightarrow> nat option) \<Rightarrow> 'k trie_op \<Rightarrow> trie_node \<Rightarrow> (int list \<times> trie_node) option" where
  "trie_do S index (Ins w) t = map_option (Pair []) (trie_insert S index w t)"
| "trie_do S index (Era w) t = map_option (\<lambda>(r, t'). ([of_bool r], t')) (trie_erase index w t)"
| "trie_do S index (Frq w) t = map_option (\<lambda>f. ([f], t)) (getfreq index w t)"
| "trie_do S index (Fnd w) t = map_option (\<lambda>r. ([of_bool r], t)) (trie_find index w t)"

fun bag_do :: "('k \<Rightarrow> nat option) \<Rightarrow> 'k trie_op \<Rightarrow> nat list multiset \<Rightarrow> int list \<times> nat list multiset" where
  "bag_do index (Ins w) M = ([], add_mset (idx index w) M)"
| "bag_do index (Era w) M = ([of_bool (idx index w \<in># M)], M - {#idx index w#})"
| "bag_do index (Frq w) M = ([int (count M (idx index w))], M)"
| "bag_do index (Fnd w) M = ([of_bool (idx index w \<in># M)], M)"

fun trie_run :: "nat \<Rightarrow> ('k \<Rightarrow> nat option) \<Rightarrow> 'k trie_op list \<Rightarrow> trie_node \<Rightarrow> (int list list \<times> trie_node) option" where
  "trie_run S index [] t = Some ([], t)"
| "trie_run S index (oper # ops) t = do {
     (r, t1) \<leftarrow> trie_do S index oper t;
     (rs, t2) \<leftarrow> trie_run S index ops t1;
     Some (r # rs, t2)}"

fun bag_run :: "('k \<Rightarrow> nat option) \<Rightarrow> 'k trie_op list \<Rightarrow> nat list multiset \<Rightarrow> int list list \<times> nat list multiset" where
  "bag_run index [] M = ([], M)"
| "bag_run index (oper # ops) M = (let (r, M1) = bag_do index oper M; (rs, M2) = bag_run index ops M1 in (r # rs, M2))"

fun op_letters :: "nat \<Rightarrow> ('k \<Rightarrow> nat option) \<Rightarrow> 'k trie_op \<Rightarrow> bool" where
  "op_letters S index (Ins w) = letters_ok S index w"
| "op_letters S index (Era w) = letters_ok S index w"
| "op_letters S index (Frq w) = letters_ok S index w"
| "op_letters S index (Fnd w) = letters_ok S index w"

definition trie_bag :: "nat \<Rightarrow> trie_node \<Rightarrow> nat list multiset \<Rightarrow> bool" where
  "trie_bag S t M \<longleftrightarrow> trie_ok S t \<and> (\<forall>v. occ t v = int (count M v)) \<and> total_freq t = int (size M)"

lemma trie_do_bag:
  assumes "trie_bag S t M" "op_letters S index oper" "size M < 2147483647" "S < 2 ^ 31"
  shows "\<exists>t'. trie_do S index oper t = Some (fst (bag_do index oper M), t') \<and> trie_bag S t' (snd (bag_do index oper M)) \<and>
    size (snd (bag_do index oper M)) \<le> Suc (size M)"
proof -
  have ok: "trie_ok S t" and oc: "\<And>v. occ t v = int (count M v)" and tf: "total_freq t = int (size M)"
    using assms(1) by (auto simp: trie_bag_def)
  show ?thesis
  proof (cases oper)
    case (Ins w)
    have "occ t (idx index w) < 2147483647" using oc count_le_size [of M "idx index w"] assms(3) by simp
    moreover have "letters_ok S index w" using assms(2) Ins by simp
    ultimately obtain t' where t': "trie_insert S index w t = Some t'" "trie_ok S t'"
      "\<forall>v. occ t' v = occ t v + (if v = idx index w then 1 else 0)" "total_freq t' = total_freq t + 1"
      using insert_spec [OF assms(4) ok] by blast
    then have "trie_bag S t' (add_mset (idx index w) M)" using oc tf by (simp add: trie_bag_def)
    then show ?thesis using t'(1) Ins by simp
  next
    case (Era w)
    obtain d t' where t': "erase_node index w t = Some (0 < occ t (idx index w), d, t')" "trie_ok S t'"
      "\<forall>v. occ t' v = occ t v - (if v = idx index w \<and> 0 < occ t (idx index w) then 1 else 0)"
      "total_freq t' = total_freq t - (if 0 < occ t (idx index w) then 1 else 0)"
      using erase_spec [OF ok, of index w] assms(2) Era by auto
    have "trie_bag S t' (M - {#idx index w#})"
    proof (cases "idx index w \<in># M")
      case True
      then obtain M1 where M: "M = add_mset (idx index w) M1" by (meson multi_member_split)
      then have "0 < occ t (idx index w)" using oc by simp
      then show ?thesis using t'(2-4) oc tf by (auto simp: trie_bag_def M)
    next
      case False
      then have "occ t (idx index w) = 0" "M - {#idx index w#} = M" using oc by (simp_all add: not_in_iff diff_single_trivial)
      then show ?thesis using t'(2-4) oc tf by (simp add: trie_bag_def)
    qed
    moreover have "size (M - {#idx index w#}) \<le> Suc (size M)" by (metis diff_subset_eq_self le_SucI size_mset_mono)
    moreover have "0 < occ t (idx index w) \<longleftrightarrow> idx index w \<in># M" using oc by simp
    ultimately show ?thesis using t'(1) Era by (simp add: trie_erase_def)
  next
    case (Frq w)
    then show ?thesis using getfreq_occ [OF ok] assms(1,2) oc by simp
  next
    case (Fnd w)
    then have "letters_ok S index w" using assms(2) by simp
    from getfreq_occ [OF ok this] have "trie_find index w t = Some (idx index w \<in># M)"
      using oc by (simp add: trie_find_def)
    then show ?thesis using assms(1) Fnd by simp
  qed
qed

text \<open>The sizes of a node, and what clearing leaves: the children go, the count of the root stays, and with it the empty word.\<close>

lemma sizeAll_bag: "trie_bag S t M \<Longrightarrow> size M < 2147483648 \<Longrightarrow> sizeAll t = Some (int (size M))"
  using sizeAll_total(1) [of S t] by (simp add: trie_bag_def)

lemma clear_bag: "trie_bag S t M \<Longrightarrow> trie_bag S (trie_clear t) (replicate_mset (count M []) [])"
  using clear_spec [of S t] by (auto simp: trie_bag_def count_replicate_mset)

lemma trie_run_bag:
  "trie_bag S t M \<Longrightarrow> \<forall>oper \<in> set ops. op_letters S index oper \<Longrightarrow> size M + length ops < 2147483648 \<Longrightarrow> S < 2 ^ 31 \<Longrightarrow>
   \<exists>t'. trie_run S index ops t = Some (fst (bag_run index ops M), t') \<and> trie_bag S t' (snd (bag_run index ops M))"
proof (induction ops arbitrary: t M)
  case (Cons oper ops)
  obtain r M1 where b: "bag_do index oper M = (r, M1)" by (cases "bag_do index oper M")
  obtain rs M2 where b2: "bag_run index ops M1 = (rs, M2)" by (cases "bag_run index ops M1")
  obtain t1 where t1: "trie_do S index oper t = Some (r, t1)" "trie_bag S t1 M1" "size M1 \<le> Suc (size M)"
    using trie_do_bag [OF Cons.prems(1), of index oper] Cons.prems(2-4) b by auto
  obtain t2 where "trie_run S index ops t1 = Some (rs, t2)" "trie_bag S t2 M2"
    using Cons.IH [OF t1(2)] Cons.prems(2-4) t1(3) b2 by auto
  then show ?case using t1(1) b b2 by simp
qed simp

lemma new_bag: "trie_bag S (new_trie_node S) {#}"
  by (simp add: trie_bag_def new_ok)

definition trie_of_words :: "string list \<Rightarrow> trie_node option" where
  "trie_of_words ws = map_option snd (trie_run 26 IndexClass (map Ins ws) (new_trie_node 26))"

section \<open>Listing the words\<close>

fun words :: "trie_node \<Rightarrow> (nat list \<times> int) list" and words_loop :: "trie_node option list \<Rightarrow> nat \<Rightarrow> (nat list \<times> int) list" where
  "words (Trie_node f n cs) = (if f \<noteq> 0 then [([], f)] else []) @ words_loop cs 0"
| "words_loop [] i = []"
| "words_loop (None # cs) i = words_loop cs (Suc i)"
| "words_loop (Some c # cs) i = map (\<lambda>(v, f). (i # v, f)) (words c) @ words_loop cs (Suc i)"

fun short :: "nat \<Rightarrow> trie_node \<Rightarrow> bool" where
  "short d (Trie_node f n cs) \<longleftrightarrow> (\<forall>c \<in> set cs. case c of None \<Rightarrow> True | Some c \<Rightarrow> 0 < d \<and> short (d - 1) c)"

definition letter :: "nat \<Rightarrow> char" where
  "letter i = char_of (i + 97)"

lemma letter_nonzero: "i < 26 \<Longrightarrow> letter i \<noteq> CHR 0x00"
proof
  assume i: "i < 26" and z: "letter i = CHR 0x00"
  have "(of_char (letter i) :: nat) = i + 97" using i by (simp add: letter_def)
  then show False unfolding z by simp
qed

definition zeros :: "nat \<Rightarrow> char list" where
  "zeros n = replicate n (CHR 0x00)"

lemma put_letter: "length pre < 100 \<Longrightarrow> put (pre @ c # zeros (99 - length pre)) (int (length pre)) x = Some (pre @ x # zeros (99 - length pre))"
  by (simp add: put_def zeros_def)

lemma put_second:
  assumes "length pre < 99"
  shows "put ((pre @ [x]) @ c # zeros (98 - length pre)) (int (length pre) + 1) (CHR 0x00) = Some (pre @ x # zeros (99 - length pre))"
proof -
  have "nat (int (length pre) + 1) = Suc (length pre)" by simp
  moreover have "zeros (99 - length pre) = CHR 0x00 # zeros (98 - length pre)"
    using assms by (simp add: zeros_def Suc_diff_Suc [symmetric] flip: replicate_Suc)
  ultimately show ?thesis using assms by (simp add: put_def list_update_append zeros_def)
qed

lemma takeWhile_word: "CHR 0x00 \<notin> set pre \<Longrightarrow> takeWhile (\<lambda>c. c \<noteq> CHR 0x00) (pre @ zeros n) = pre"
  by (induction pre) (auto simp: zeros_def takeWhile_replicate)

lemma traverse_words:
  "trie_ok 26 t \<Longrightarrow> short d t \<Longrightarrow> length pre + d < 100 \<Longrightarrow> CHR 0x00 \<notin> set pre \<Longrightarrow>
   \<exists>c. traverse_node t (pre @ zeros (100 - length pre)) (int (length pre)) =
     Some (map (\<lambda>(v, f). (pre @ map letter v, f)) (words t), pre @ c # zeros (99 - length pre))"
  "\<forall>c \<in> set cs. (case c of None \<Rightarrow> True | Some c \<Rightarrow> trie_ok 26 c \<and> 0 < d \<and> short (d - 1) c) \<Longrightarrow> i + length cs \<le> 26 \<Longrightarrow>
   length pre + d < 100 \<Longrightarrow> CHR 0x00 \<notin> set pre \<Longrightarrow>
   \<exists>c'. traverse_loop cs i (pre @ c # zeros (99 - length pre)) (int (length pre)) =
     Some (map (\<lambda>(v, f). (pre @ map letter v, f)) (words_loop cs i), pre @ c' # zeros (99 - length pre))"
proof (induction t and cs i arbitrary: d pre and d pre c rule: words_words_loop.induct)
  case (1 f n cs)
  have z: "zeros (100 - length pre) = CHR 0x00 # zeros (99 - length pre)"
    using 1(4) by (simp add: zeros_def Suc_diff_Suc [symmetric] flip: replicate_Suc)
  have "\<forall>c \<in> set cs. (case c of None \<Rightarrow> True | Some c \<Rightarrow> trie_ok 26 c \<and> 0 < d \<and> short (d - 1) c)"
    using 1(2,3) by (fastforce split: option.splits)
  from 1(1) [OF this _ 1(4,5), of "CHR 0x00"] obtain c' where
    "traverse_loop cs 0 (pre @ zeros (100 - length pre)) (int (length pre)) =
      Some (map (\<lambda>(v, f). (pre @ map letter v, f)) (words_loop cs 0), pre @ c' # zeros (99 - length pre))"
    using 1(2) by (auto simp: z)
  then show ?case using takeWhile_word [OF 1(5)] by auto
next
  case (3 cs i)
  then show ?case by simp
next
  case (4 x cs i)
  have x: "trie_ok 26 x" "0 < d" "short (d - 1) x" using 4(3) by auto
  have rest: "\<forall>c \<in> set cs. (case c of None \<Rightarrow> True | Some c \<Rightarrow> trie_ok 26 c \<and> 0 < d \<and> short (d - 1) c)" using 4(3) by simp
  have l: "length pre < 99" "letter i \<noteq> CHR 0x00" using 4(4,5) x(2) letter_nonzero [of i] by auto
  have e: "pre @ letter i # zeros (99 - length pre) = (pre @ [letter i]) @ zeros (100 - length (pre @ [letter i]))" by simp
  obtain c1 where "traverse_node x ((pre @ [letter i]) @ zeros (100 - length (pre @ [letter i]))) (int (length (pre @ [letter i]))) =
      Some (map (\<lambda>(v, f). ((pre @ [letter i]) @ map letter v, f)) (words x), (pre @ [letter i]) @ c1 # zeros (99 - length (pre @ [letter i])))"
    using 4(1) [OF x(1,3), of "pre @ [letter i]"] 4(5,6) x(2) l(2) by auto
  then have c1: "traverse_node x (pre @ letter i # zeros (99 - length pre)) (int (length pre) + 1) =
      Some (map (\<lambda>(v, f). (pre @ letter i # map letter v, f)) (words x), (pre @ [letter i]) @ c1 # zeros (98 - length pre))"
    unfolding e [symmetric] by (simp add: add.commute)
  obtain c2 where c2: "traverse_loop cs (Suc i) (pre @ letter i # zeros (99 - length pre)) (int (length pre)) =
      Some (map (\<lambda>(v, f). (pre @ map letter v, f)) (words_loop cs (Suc i)), pre @ c2 # zeros (99 - length pre))"
    using 4(2) [OF rest _ 4(5,6)] 4(4) by auto
  have p: "put (pre @ c # zeros (99 - length pre)) (int (length pre)) (char_of (i + 97)) = Some (pre @ letter i # zeros (99 - length pre))"
    using put_letter [of pre c "letter i"] l(1) by (simp add: letter_def)
  have "map (\<lambda>(v, f). (pre @ map letter v, f)) (map (\<lambda>(v, f). (i # v, f)) (words x)) = map (\<lambda>(v, f). (pre @ letter i # map letter v, f)) (words x)" by auto
  then show ?case using p c1 c2 put_second [OF l(1), of "letter i" c1] by auto
qed auto

lemma ex_shift:
  "(\<exists>j u c. v = (i + j) # u \<and> j < length (x # cs) \<and> (x # cs) ! j = Some c \<and> P c u) \<longleftrightarrow>
   (\<exists>u c. v = i # u \<and> x = Some c \<and> P c u) \<or> (\<exists>j u c. v = (Suc i + j) # u \<and> j < length cs \<and> cs ! j = Some c \<and> P c u)"
  (is "?L \<longleftrightarrow> ?A \<or> ?B")
proof
  assume ?L
  then obtain j u c where h: "v = (i + j) # u" "j < length (x # cs)" "(x # cs) ! j = Some c" "P c u" by blast
  then show "?A \<or> ?B" by (cases j) auto
next
  assume "?A \<or> ?B"
  then show ?L
  proof
    assume ?A
    then obtain u c where "v = i # u" "x = Some c" "P c u" by blast
    then show ?L by (intro exI [of _ 0] exI [of _ u] exI [of _ c]) simp
  next
    assume ?B
    then obtain j u c where "v = (Suc i + j) # u" "j < length cs" "cs ! j = Some c" "P c u" by blast
    then show ?L by (intro exI [of _ "Suc j"] exI [of _ u] exI [of _ c]) simp
  qed
qed

lemma words_occ:
  "((v, g) \<in> set (words t)) \<longleftrightarrow> occ t v = g \<and> g \<noteq> 0"
  "((v, g) \<in> set (words_loop cs i)) \<longleftrightarrow>
     (\<exists>j u c. v = (i + j) # u \<and> j < length cs \<and> cs ! j = Some c \<and> occ c u = g \<and> g \<noteq> 0)"
proof (induction t and cs i arbitrary: v and v rule: words_words_loop.induct)
  case (1 f n cs)
  show ?case using 1 by (cases v) (auto split: option.split)
next
  case (3 cs i)
  show ?case unfolding ex_shift words_loop.simps 3 by simp
next
  case (4 x cs i)
  have "(v, g) \<in> set (map (\<lambda>(v, f). (i # v, f)) (words x)) \<longleftrightarrow> (\<exists>u. v = i # u \<and> (u, g) \<in> set (words x))" by auto
  then show ?case unfolding ex_shift words_loop.simps set_append Un_iff 4 by simp
qed simp

lemma words_distinct: "distinct (map fst (words t))" "distinct (map fst (words_loop cs i))"
proof (induction t and cs i rule: words_words_loop.induct)
  case (1 f n cs)
  have "[] \<notin> fst ` set (words_loop cs 0)" using words_occ(2) [of _ _ cs 0] by force
  then show ?case using 1 by auto
next
  case (4 x cs i)
  have e: "map fst (map (\<lambda>(v, f). (i # v, f)) (words x)) = map ((#) i) (map fst (words x))" by auto
  have "distinct (map fst (map (\<lambda>(v, f). (i # v, f)) (words x)))"
    unfolding e distinct_map [of "(#) i"] using 4(1) by simp
  moreover have "set (map fst (map (\<lambda>(v, f). (i # v, f)) (words x))) \<inter> set (map fst (words_loop cs (Suc i))) = {}"
    unfolding e using words_occ(2) [of _ _ cs "Suc i"] by force
  ultimately show ?case using 4(2) by (simp only: words_loop.simps map_append distinct_append)
qed simp_all

lemma live_word: "trie_ok S t \<Longrightarrow> live t \<Longrightarrow> \<exists>v. occ t v \<noteq> 0"
proof (induction t rule: total_freq.induct)
  case (1 f n cs)
  show ?case
  proof (cases "f = 0")
    case True
    then have "children cs \<noteq> 0" using 1(2,3) by (simp add: live_def)
    then obtain c where c: "Some c \<in> set cs" using children_zero [of cs] by auto
    then obtain i where i: "i < length cs" "cs ! i = Some c" by (metis in_set_conv_nth)
    have "trie_ok S c \<and> live c" using 1(2) c by fastforce
    then obtain v where "occ c v \<noteq> 0" using 1(1) [OF c refl] by blast
    then show ?thesis using i by (intro exI [of _ "i # v"]) simp
  next
    case False
    then show ?thesis by (intro exI [of _ "[]"]) simp
  qed
qed

lemma words_short: "trie_ok S t \<Longrightarrow> \<forall>v. occ t v \<noteq> 0 \<longrightarrow> length v \<le> d \<Longrightarrow> short d t"
proof (induction t arbitrary: d rule: total_freq.induct)
  case (1 f n cs)
  have "0 < d \<and> short (d - 1) c" if c: "Some c \<in> set cs" for c
  proof -
    obtain i where i: "i < length cs" "cs ! i = Some c" using c by (metis in_set_conv_nth)
    have ok: "trie_ok S c" "live c" using 1(2) c by fastforce+
    have l: "length v < d" if "occ c v \<noteq> 0" for v
      using 1(3) [rule_format, of "i # v"] i that by simp
    obtain v where "occ c v \<noteq> 0" using live_word [OF ok] by blast
    then have "0 < d" using l by fastforce
    moreover have "\<forall>v. occ c v \<noteq> 0 \<longrightarrow> length v \<le> d - 1" using l by fastforce
    ultimately show ?thesis using 1(1) [OF c refl ok(1)] by blast
  qed
  then show ?case by (auto split: option.split)
qed

lemma none_words:
  "trie_ok S t \<Longrightarrow> length (words t) < 2147483648 \<Longrightarrow> sizeNoneRedundant t = Some (int (length (words t)))"
  "\<forall>c \<in> set cs. (case c of None \<Rightarrow> True | Some c \<Rightarrow> trie_ok S c) \<Longrightarrow> acc + length (words_loop cs i) < 2147483648 \<Longrightarrow>
   none_loop cs (int acc) = Some (int (acc + length (words_loop cs i)))"
proof (induction t and cs i arbitrary: and acc rule: words_words_loop.induct)
  case (1 f n cs)
  then show ?case using 1(1) [of 0] 1(1) [of 1] by (auto split: option.splits)
next
  case (4 c cs i)
  have ok: "trie_ok S c" "\<forall>c \<in> set cs. (case c of None \<Rightarrow> True | Some c \<Rightarrow> trie_ok S c)" using 4(3) by auto
  have a: "sizeNoneRedundant c = Some (int (length (words c)))" using 4(1) [OF ok(1)] 4(4) by simp
  have b: "i32 (int acc + int (length (words c))) = Some (int (acc + length (words c)))" using 4(4) by (simp add: i32_Some)
  have "none_loop cs (int (acc + length (words c))) = Some (int (acc + length (words c) + length (words_loop cs (Suc i))))"
    by (rule 4(2) [OF ok(2)]) (use 4(4) in simp)
  then show ?case using a b by (simp add: add.assoc)
qed simp_all

section \<open>Results\<close>



text \<open>Deleting undoes inserting: the tree is left exactly as it was, with no node more.\<close>

theorem trie_erase_insert:
  assumes "trie_bag S t M" "letters_ok S index w" "trie_insert S index w t = Some t'"
  shows "trie_erase index w t' = Some (True, t)"
  using erase_insert [of S t index w t'] assms by (simp add: trie_bag_def trie_erase_def)

theorem trie_erase_insert_witness:
  "map_option (trie_erase IndexClass ''tea'') (trie_insert 26 IndexClass ''tea'' (new_trie_node 26)) = Some (Some (True, new_trie_node 26))"
proof -
  have l: "letters_ok 26 IndexClass ''tea''" by (simp add: letters_ok_def IndexClass_def Let_def)
  obtain t' where t': "trie_insert 26 IndexClass ''tea'' (new_trie_node 26) = Some t'"
    using insert_spec [OF _ new_ok(1) l] new_ok(2) by fastforce
  with trie_erase_insert [OF new_bag l t'] show ?thesis by simp
qed

text \<open>The longest common prefix of several words goes wrong: the string that receives the prefixes of the children
  is not emptied between them, so that the answer need not be a prefix of any word, nor as long as the length
  the other function gives; with fewer than two words the first throws and the second gives minus one.\<close>

theorem trie_prefix_wrong:
  "\<exists>t. trie_of_words [''abx'', ''aby'', ''cdx'', ''cdy'', ''ef'', ''eg''] = Some t \<and> maxPrefix t = Some ''ead'' \<and>
     maxPrefix_length t = 2 \<and> map_option maxPrefix (trie_of_words [''abx'']) = Some None \<and> map_option maxPrefix_length (trie_of_words [''abx'']) = Some (- 1)"
proof -
  have "map_option (\<lambda>t. (maxPrefix t, maxPrefix_length t)) (trie_of_words [''abx'', ''aby'', ''cdx'', ''cdy'', ''ef'', ''eg'']) = Some (Some ''ead'', 2)"
    by code_simp
  moreover have "map_option maxPrefix (trie_of_words [''abx'']) = Some None" by code_simp
  moreover have "map_option maxPrefix_length (trie_of_words [''abx'']) = Some (- 1)" by code_simp
  ultimately show ?thesis by auto
qed

text \<open>C18. Walking the tree reports each of its words once, with the number of times it is in the multiset, if no
  word is longer than the buffer of 100 characters allows; and the number of different words is counted right.\<close>

theorem trie_lists_words:
  assumes "trie_bag 26 t M" "\<forall>v \<in># M. length v < 100" "card (set_mset M) < 2 ^ 31"
  shows "\<exists>ws. traverse t = Some (map (\<lambda>(v, f). (map letter v, f)) ws) \<and> distinct (map fst ws) \<and>
    set ws = {(v, int (count M v)) | v. v \<in># M} \<and> sizeNoneRedundant t = Some (int (card (set_mset M)))"
proof -
  have ok: "trie_ok 26 t" and oc: "\<forall>v. occ t v = int (count M v)" using assms(1) by (simp_all add: trie_bag_def)
  have "\<forall>v. occ t v \<noteq> 0 \<longrightarrow> length v \<le> 99" using assms(2) oc by fastforce
  then have sh: "short 99 t" by (rule words_short [OF ok])
  obtain c where c: "traverse_node t (zeros 100) 0 = Some (map (\<lambda>(v, f). (map letter v, f)) (words t), c # zeros 99)"
    using traverse_words(1) [OF ok sh, of "[]"] by auto
  then have "traverse t = Some (map (\<lambda>(v, f). (map letter v, f)) (words t))" by (simp add: traverse_def zeros_def)
  moreover have st: "set (words t) = {(v, int (count M v)) | v. v \<in># M}" using words_occ(1) [of _ _ t] oc by fastforce
  moreover have "sizeNoneRedundant t = Some (int (card (set_mset M)))"
  proof -
    have "set (map fst (words t)) = set_mset M" unfolding set_map st by (auto simp: image_iff)
    then have "length (words t) = card (set_mset M)" using distinct_card [OF words_distinct(1) [of t]] by simp
    then show ?thesis using none_words(1) [OF ok] assms(3) by simp
  qed
  ultimately show ?thesis using words_distinct(1) [of t] by (intro exI [of _ "words t"]) simp
qed

theorem trie_lists_words_witness:
  "\<exists>t ws. trie_insert 26 IndexClass ''Tea'' (new_trie_node 26) = Some t \<and> traverse t = Some (map (\<lambda>(v, f). (map letter v, f)) ws) \<and>
     set ws = {([19, 4, 0], 1)}"
proof -
  have l: "op_letters 26 IndexClass (Ins ''Tea'')" by (simp add: letters_ok_def IndexClass_def Let_def)
  obtain t where t: "trie_insert 26 IndexClass ''Tea'' (new_trie_node 26) = Some t" "trie_bag 26 t {#idx IndexClass ''Tea''#}"
    using trie_do_bag [OF new_bag l] by auto
  moreover have e: "idx IndexClass ''Tea'' = [19, 4, 0]" by (simp add: IndexClass_def Let_def)
  moreover obtain ws where "traverse t = Some (map (\<lambda>(v, f). (map letter v, f)) ws)"
    "set ws = {(v, int (count {#[19, 4, 0]#} v)) | v. v \<in># {#[19, 4, 0 :: nat]#}}"
    using trie_lists_words [OF t(2) [unfolded e]] by auto
  ultimately show ?thesis by auto
qed

end
