(* ===== verification/RtspSession.thy ===== *)
theory RtspSession
  imports Prelude "HOL-Library.Word"
begin

text \<open>
  An RTSP session (transfer/rtsp/net/RtspCli.cpp): the handlers the live555 library calls while a session
  is described, set up, played and shut down. The library is outside: a media session is the list
  of its subsessions, each with whether it can be initiated and whether it has an RTCP instance; the
  commands sent are recorded. A sink is an address. \<^term>\<open>None\<close> is the use of a null pointer or of
  a client that was closed.
\<close>

section \<open>Data\<close>

record subsession =
  ms_initiates :: bool
  ms_rtcp :: bool
  ms_sink :: "nat option"
  ms_bye :: bool
  ms_misc :: bool

datatype rtsp_cmd = SendDescribe | SendSetup nat | SendPlay bool | SendTeardown

text \<open>
  The client with its stream state. \<open>rc_abs\<close>: the session is indexed by absolute times.
  \<open>rc_sinks\<close> are the sinks that exist, \<open>rc_next\<close> the next address.
\<close>

record rtsp_client =
  rc_open :: bool
  rc_session :: "subsession list option"
  rc_abs :: bool
  rc_iter :: nat
  rc_subsession :: "nat option"
  rc_next :: nat
  rc_sinks :: "nat set"
  rc_sent :: "rtsp_cmd list"

text \<open>What \<open>MediaSession::createNew\<close> makes of a description, if anything.\<close>

type_synonym media = "bool \<times> (bool \<times> bool) list"

definition new_subsession :: "bool \<times> bool \<Rightarrow> subsession" where
  "new_subsession = (\<lambda>(ok, rtcp). \<lparr>ms_initiates = ok, ms_rtcp = rtcp, ms_sink = None, ms_bye = False, ms_misc = False\<rparr>)"

definition send :: "rtsp_cmd \<Rightarrow> rtsp_client \<Rightarrow> rtsp_client" where
  "send cmd c = c\<lparr>rc_sent := rc_sent c @ [cmd]\<rparr>"

section \<open>Handlers\<close>

definition rtsp_Open :: rtsp_client where
  "rtsp_Open = send SendDescribe \<lparr>rc_open = True, rc_session = None, rc_abs = False, rc_iter = 0,
     rc_subsession = None, rc_next = 0, rc_sinks = {}, rc_sent = []\<rparr>"

text \<open>Closing every sink, and whether there was one.\<close>

fun shutdown_loop :: "subsession list \<Rightarrow> nat set \<Rightarrow> bool \<Rightarrow> subsession list \<times> nat set \<times> bool" where
  "shutdown_loop [] sinks someSubsessionsWereActive = ([], sinks, someSubsessionsWereActive)"
| "shutdown_loop (m # ms) sinks someSubsessionsWereActive = (case ms_sink m of
     None \<Rightarrow> (let (ms', s, b) = shutdown_loop ms sinks someSubsessionsWereActive in (m # ms', s, b))
   | Some a \<Rightarrow> (let (ms', s, b) = shutdown_loop ms (sinks - {a}) True in
       (m\<lparr>ms_sink := None, ms_bye := (if ms_rtcp m then False else ms_bye m)\<rparr> # ms', s, b)))"

definition shutdownStream :: "rtsp_client \<Rightarrow> rtsp_client option" where
  "shutdownStream c = (if \<not> rc_open c then None
     else let c1 = (case rc_session c of
         None \<Rightarrow> c
       | Some ms \<Rightarrow> (let (ms', s, b) = shutdown_loop ms (rc_sinks c) False;
             c2 = c\<lparr>rc_session := Some ms', rc_sinks := s\<rparr> in if b then send SendTeardown c2 else c2))
       in Some (c1\<lparr>rc_open := False, rc_session := None\<rparr>))"

function setupNextSubsession :: "rtsp_client \<Rightarrow> rtsp_client option" where
  "setupNextSubsession c = (case rc_session c of
     None \<Rightarrow> None
   | Some ms \<Rightarrow>
       if rc_iter c < length ms then
         (let c1 = c\<lparr>rc_iter := Suc (rc_iter c), rc_subsession := Some (rc_iter c)\<rparr> in
          if \<not> ms_initiates (ms ! rc_iter c) then setupNextSubsession c1
          else Some (send (SendSetup (rc_iter c)) c1))
       else Some (send (SendPlay (rc_abs c)) (c\<lparr>rc_subsession := None\<rparr>)))"
  by auto
termination
  by (relation "measure (\<lambda>c. case rc_session c of None \<Rightarrow> 0 | Some ms \<Rightarrow> length ms - rc_iter c)") auto

declare setupNextSubsession.simps [simp del]

definition continueAfterDESCRIBE :: "int \<Rightarrow> media option \<Rightarrow> rtsp_client \<Rightarrow> rtsp_client option" where
  "continueAfterDESCRIBE resultCode sdp c =
     (if \<not> rc_open c then None
      else if resultCode \<noteq> 0 then shutdownStream c
      else case sdp of
        None \<Rightarrow> shutdownStream c
      | Some (bAbs, subs) \<Rightarrow>
          (let c1 = c\<lparr>rc_session := Some (map new_subsession subs), rc_abs := bAbs\<rparr> in
           if subs = [] then shutdownStream c1 else setupNextSubsession (c1\<lparr>rc_iter := 0\<rparr>)))"

text \<open>Two sinks are made, and the second replaces the first.\<close>

definition createSink :: "nat \<Rightarrow> rtsp_client \<Rightarrow> rtsp_client option" where
  "createSink i c = (case rc_session c of
     None \<Rightarrow> None
   | Some ms \<Rightarrow> if i < length ms then
       Some (c\<lparr>rc_session := Some (ms[i := (ms ! i)\<lparr>ms_sink := Some (rc_next c)\<rparr>]),
         rc_next := Suc (rc_next c), rc_sinks := insert (rc_next c) (rc_sinks c)\<rparr>)
     else None)"

definition startSubsession :: "nat \<Rightarrow> rtsp_client \<Rightarrow> rtsp_client option" where
  "startSubsession i c = (case rc_session c of
     None \<Rightarrow> None
   | Some ms \<Rightarrow> if i < length ms then
       Some (c\<lparr>rc_session := Some (ms[i := (ms ! i)\<lparr>ms_misc := True,
         ms_bye := (if ms_rtcp (ms ! i) then True else ms_bye (ms ! i))\<rparr>])\<rparr>)
     else None)"

definition continueAfterSETUP :: "int \<Rightarrow> rtsp_client \<Rightarrow> rtsp_client option" where
  "continueAfterSETUP resultCode c = (if \<not> rc_open c then None else do {
     c1 \<leftarrow> (if resultCode \<noteq> 0 then Some c
       else do {
         i \<leftarrow> rc_subsession c;
         ca \<leftarrow> createSink i c;
         cb \<leftarrow> createSink i ca;
         startSubsession i cb});
     setupNextSubsession c1})"

definition continueAfterPLAY :: "int \<Rightarrow> rtsp_client \<Rightarrow> rtsp_client option" where
  "continueAfterPLAY resultCode c = (if \<not> rc_open c then None else Some c)"

text \<open>\<open>i\<close>: the subsession the handler is called for.\<close>

definition subsessionAfterPlaying :: "nat \<Rightarrow> rtsp_client \<Rightarrow> rtsp_client option" where
  "subsessionAfterPlaying i c = (if \<not> rc_open c then None else case rc_session c of
     None \<Rightarrow> None
   | Some ms \<Rightarrow> if length ms \<le> i then None
     else let s = (case ms_sink (ms ! i) of None \<Rightarrow> rc_sinks c | Some a \<Rightarrow> rc_sinks c - {a});
         ms' = ms[i := (ms ! i)\<lparr>ms_sink := None\<rparr>];
         c1 = c\<lparr>rc_session := Some ms', rc_sinks := s\<rparr> in
       if list_ex (\<lambda>m. ms_sink m \<noteq> None) ms' then Some c1
       else if \<not> ms_misc (ms ! i) then None
       else shutdownStream c1)"

definition subsessionByeHandler :: "nat \<Rightarrow> rtsp_client \<Rightarrow> rtsp_client option" where
  "subsessionByeHandler i c = (if \<not> rc_open c then None else case rc_session c of
     None \<Rightarrow> None
   | Some ms \<Rightarrow> if length ms \<le> i \<or> \<not> ms_misc (ms ! i) then None else subsessionAfterPlaying i c)"

text \<open>Nothing ever starts the timer.\<close>

definition streamTimerHandler :: "rtsp_client \<Rightarrow> rtsp_client option" where
  "streamTimerHandler c = shutdownStream c"

definition rtsp_Close :: "rtsp_client \<Rightarrow> rtsp_client option" where
  "rtsp_Close c = shutdownStream c"

section \<open>The session as the library drives it\<close>

text \<open>
  Every command but the teardown gets one answer, unless the client was closed before. The source of a
  sink may end, and a BYE may arrive, at any time; the library forgets a BYE handler before it
  calls it.
\<close>

type_synonym session = "rtsp_client \<times> rtsp_cmd option"

definition awaited :: "rtsp_client \<Rightarrow> rtsp_client \<Rightarrow> rtsp_cmd option" where
  "awaited c c' = (if rc_open c' \<and> length (rc_sent c) < length (rc_sent c') then Some (last (rc_sent c')) else None)"

definition forget_bye :: "nat \<Rightarrow> rtsp_client \<Rightarrow> rtsp_client" where
  "forget_bye i c = c\<lparr>rc_session := map_option (\<lambda>ms. ms[i := (ms ! i)\<lparr>ms_bye := False\<rparr>]) (rc_session c)\<rparr>"

datatype rtsp_event = Described int "media option" | SetUp int | Played int | SourceEnd nat | Bye nat

text \<open>When the library may call, and what the handler does.\<close>

fun enabled :: "rtsp_event \<Rightarrow> session \<Rightarrow> bool" where
  "enabled (Described code sdp) (c, p) = (case p of Some SendDescribe \<Rightarrow> True | _ \<Rightarrow> False)"
| "enabled (SetUp code) (c, p) = (case p of Some (SendSetup _) \<Rightarrow> True | _ \<Rightarrow> False)"
| "enabled (Played code) (c, p) = (case p of Some (SendPlay _) \<Rightarrow> True | _ \<Rightarrow> False)"
| "enabled (SourceEnd i) (c, p) = (rc_open c \<and> (case rc_session c of None \<Rightarrow> False | Some ms \<Rightarrow> i < length ms \<and> ms_sink (ms ! i) \<noteq> None))"
| "enabled (Bye i) (c, p) = (rc_open c \<and> (case rc_session c of None \<Rightarrow> False | Some ms \<Rightarrow> i < length ms \<and> ms_bye (ms ! i)))"

lemma enabled_iff [simp]:
  "enabled (Described code sdp) (c, p) \<longleftrightarrow> p = Some SendDescribe"
  "enabled (SetUp code) (c, p) \<longleftrightarrow> (\<exists>i. p = Some (SendSetup i))"
  "enabled (Played code) (c, p) \<longleftrightarrow> (\<exists>b. p = Some (SendPlay b))"
  "enabled (SourceEnd i) (c, p) \<longleftrightarrow> rc_open c \<and> (\<exists>ms. rc_session c = Some ms \<and> i < length ms \<and> ms_sink (ms ! i) \<noteq> None)"
  "enabled (Bye i) (c, p) \<longleftrightarrow> rc_open c \<and> (\<exists>ms. rc_session c = Some ms \<and> i < length ms \<and> ms_bye (ms ! i))"
  by (auto split: option.splits rtsp_cmd.splits)

declare enabled.simps [simp del]

fun handle_event :: "rtsp_event \<Rightarrow> session \<Rightarrow> session option" where
  "handle_event (Described code sdp) (c, p) = map_option (\<lambda>c'. (c', awaited c c')) (continueAfterDESCRIBE code sdp c)"
| "handle_event (SetUp code) (c, p) = map_option (\<lambda>c'. (c', awaited c c')) (continueAfterSETUP code c)"
| "handle_event (Played code) (c, p) = map_option (\<lambda>c'. (c', awaited c c')) (continueAfterPLAY code c)"
| "handle_event (SourceEnd i) (c, p) = map_option (\<lambda>c'. (c', if rc_open c' then p else None)) (subsessionAfterPlaying i c)"
| "handle_event (Bye i) (c, p) = map_option (\<lambda>c'. (c', if rc_open c' then p else None)) (subsessionByeHandler i (forget_bye i c))"

inductive rtsp_step :: "session \<Rightarrow> session \<Rightarrow> bool" where
  "enabled e s \<Longrightarrow> handle_event e s = Some s' \<Longrightarrow> rtsp_step s s'"

definition rtsp_start :: session where
  "rtsp_start = (rtsp_Open, Some SendDescribe)"

section \<open>The invariant\<close>

definition setups :: "subsession list \<Rightarrow> nat \<Rightarrow> nat list" where
  "setups ms n = filter (\<lambda>i. ms_initiates (ms ! i)) [0..<n]"

text \<open>The sinks in use have odd addresses, no two subsessions share one, and every even one below the next exists.\<close>

definition in_use :: "subsession list \<Rightarrow> nat set" where
  "in_use ms = {a. \<exists>m \<in> set ms. ms_sink m = Some a}"

definition sinks_ok :: "subsession list \<Rightarrow> rtsp_client \<Rightarrow> bool" where
  "sinks_ok ms c \<longleftrightarrow> even (rc_next c) \<and> rc_sinks c = {a. even a \<and> a < rc_next c} \<union> in_use ms \<and>
     (\<forall>a \<in> in_use ms. odd a \<and> a < rc_next c) \<and>
     (\<forall>i j a. i < length ms \<longrightarrow> j < length ms \<longrightarrow> ms_sink (ms ! i) = Some a \<longrightarrow> ms_sink (ms ! j) = Some a \<longrightarrow> i = j)"

definition sent_ok :: "rtsp_client \<Rightarrow> rtsp_cmd option \<Rightarrow> subsession list \<Rightarrow> bool" where
  "sent_ok c p ms \<longleftrightarrow> (case p of
     Some (SendSetup i) \<Rightarrow> rc_subsession c = Some i \<and> Suc i = rc_iter c \<and> \<not> ms_misc (ms ! i) \<and> ms_initiates (ms ! i) \<and>
       rc_sent c = SendDescribe # map SendSetup (setups ms (rc_iter c))
   | _ \<Rightarrow> rc_iter c = length ms \<and> (p = None \<or> p = Some (SendPlay (rc_abs c))) \<and>
       rc_sent c = SendDescribe # map SendSetup (setups ms (length ms)) @ [SendPlay (rc_abs c)])"

definition open_ok :: "rtsp_client \<Rightarrow> rtsp_cmd option \<Rightarrow> bool" where
  "open_ok c p \<longleftrightarrow> (case rc_session c of
     None \<Rightarrow> p = Some SendDescribe \<and> rc_sent c = [SendDescribe] \<and> rc_next c = 0 \<and> rc_sinks c = {}
   | Some ms \<Rightarrow> sinks_ok ms c \<and> rc_iter c \<le> length ms \<and> sent_ok c p ms \<and>
       (\<forall>m \<in> set ms. ms_sink m \<noteq> None \<or> ms_bye m \<longrightarrow> ms_misc m) \<and>
       (\<forall>i < length ms. ms_misc (ms ! i) \<longrightarrow> i < rc_iter c))"

text \<open>Describe, then set-ups in order, then at most one play and one teardown.\<close>

definition sent_form :: "rtsp_cmd list \<Rightarrow> bool" where
  "sent_form cmds \<longleftrightarrow> (\<exists>is ps ts. cmds = SendDescribe # map SendSetup is @ ps @ ts \<and> sorted_wrt (<) is \<and>
     (ps = [] \<or> (\<exists>b. ps = [SendPlay b])) \<and> (ts = [] \<or> ts = [SendTeardown]))"

definition closed_ok :: "rtsp_client \<Rightarrow> bool" where
  "closed_ok c \<longleftrightarrow> rc_sinks c = {a. even a \<and> a < rc_next c} \<and> even (rc_next c) \<and>
     sent_form (rc_sent c)"

definition rtsp_ok :: "session \<Rightarrow> bool" where
  "rtsp_ok s \<longleftrightarrow> (if rc_open (fst s) then open_ok (fst s) (snd s) else snd s = None \<and> closed_ok (fst s))"

lemma send_simps [simp]:
  "rc_open (send cmd c) = rc_open c" "rc_session (send cmd c) = rc_session c" "rc_abs (send cmd c) = rc_abs c"
  "rc_iter (send cmd c) = rc_iter c" "rc_subsession (send cmd c) = rc_subsession c" "rc_next (send cmd c) = rc_next c"
  "rc_sinks (send cmd c) = rc_sinks c" "rc_sent (send cmd c) = rc_sent c @ [cmd]"
  by (simp_all add: send_def)

lemma setups_sorted: "sorted_wrt (<) (setups ms n)"
  by (simp add: setups_def sorted_wrt_filter)

lemma shutdown_loop_spec:
  "shutdown_loop ms s b = (ms', s', b') \<Longrightarrow> s' = s - in_use ms \<and> (b' \<longleftrightarrow> b \<or> in_use ms \<noteq> {})"
proof (induction ms arbitrary: s b ms' s' b')
  case (Cons m ms)
  show ?case
  proof (cases "ms_sink m")
    case None
    then obtain ms2 where "shutdown_loop ms s b = (ms2, s', b')" using Cons.prems by (auto split: prod.splits)
    from Cons.IH [OF this] show ?thesis using None by (simp add: in_use_def)
  next
    case (Some a)
    then obtain ms2 where "shutdown_loop ms (s - {a}) True = (ms2, s', b')" using Cons.prems by (auto split: prod.splits)
    from Cons.IH [OF this] show ?thesis using Some by (auto simp: in_use_def)
  qed
qed (simp add: in_use_def)

lemma sent_formI:
  assumes "sorted_wrt (<) is" "ps = [] \<or> (\<exists>b. ps = [SendPlay b])"
  shows "sent_form (SendDescribe # map SendSetup is @ ps)" "sent_form (SendDescribe # map SendSetup is @ ps @ [SendTeardown])"
proof -
  show "sent_form (SendDescribe # map SendSetup is @ ps)"
    unfolding sent_form_def using assms by (intro exI [of _ "is"] exI [of _ ps] exI [of _ "[]"]) simp
  show "sent_form (SendDescribe # map SendSetup is @ ps @ [SendTeardown])"
    unfolding sent_form_def using assms by (intro exI [of _ "is"] exI [of _ ps] exI [of _ "[SendTeardown]"]) simp
qed

text \<open>Shutting down in any state whose sinks are in order.\<close>

lemma shutdown_ok:
  assumes "rc_open c" and "case rc_session c of None \<Rightarrow> rc_next c = 0 \<and> rc_sinks c = {} | Some ms \<Rightarrow> sinks_ok ms c"
    and "rc_sent c = SendDescribe # map SendSetup is @ ps" and "sorted_wrt (<) is" and "ps = [] \<or> (\<exists>b. ps = [SendPlay b])"
  shows "\<exists>c'. shutdownStream c = Some c' \<and> \<not> rc_open c' \<and> closed_ok c'"
proof (cases "rc_session c")
  case None
  then show ?thesis using assms(1-3) sent_formI [OF assms(4,5)] by (simp add: shutdownStream_def closed_ok_def)
next
  case (Some ms)
  obtain ms' s b where l: "shutdown_loop ms (rc_sinks c) False = (ms', s, b)" by (metis prod_cases3)
  have ok: "sinks_ok ms c" using assms(2) Some by simp
  have "s = {a. even a \<and> a < rc_next c}"
    using shutdown_loop_spec [OF l] ok unfolding sinks_ok_def by blast
  moreover have "even (rc_next c)" using ok by (simp add: sinks_ok_def)
  ultimately show ?thesis
    using assms(1,3) sent_formI [OF assms(4,5)] Some l
    by (simp add: shutdownStream_def closed_ok_def Let_def)
qed

text \<open>Going on to the next subsession, or to the end of the set-up.\<close>

lemma setups_Suc: "setups ms (Suc n) = setups ms n @ (if ms_initiates (ms ! n) then [n] else [])"
  by (simp add: setups_def)

lemma setupNext_spec:
  assumes "rc_session c = Some ms" "rc_iter c \<le> length ms"
  shows "(\<exists>i. rc_iter c \<le> i \<and> i < length ms \<and> ms_initiates (ms ! i) \<and> setups ms (Suc i) = setups ms (rc_iter c) @ [i] \<and>
      setupNextSubsession c = Some (send (SendSetup i) (c\<lparr>rc_iter := Suc i, rc_subsession := Some i\<rparr>))) \<or>
    (setups ms (length ms) = setups ms (rc_iter c) \<and>
      setupNextSubsession c = Some (send (SendPlay (rc_abs c)) (c\<lparr>rc_iter := length ms, rc_subsession := None\<rparr>)))"
  using assms
proof (induction c rule: setupNextSubsession.induct)
  case (1 c)
  note unf = setupNextSubsession.simps [of c]
  show ?case
  proof (cases "rc_iter c < length ms")
    case False
    then have "rc_iter c = length ms" using "1.prems" by simp
    then show ?thesis using "1.prems"(1) unf by simp
  next
    case less: True
    let ?c = "c\<lparr>rc_iter := Suc (rc_iter c), rc_subsession := Some (rc_iter c)\<rparr>"
    show ?thesis
    proof (cases "ms_initiates (ms ! rc_iter c)")
      case True
      then show ?thesis
        using less "1.prems"(1) unf setups_Suc [of ms "rc_iter c"] by (intro disjI1 exI [of _ "rc_iter c"]) simp
    next
      case False
      then have eq: "setupNextSubsession c = setupNextSubsession ?c" "setups ms (Suc (rc_iter c)) = setups ms (rc_iter c)"
        using less "1.prems"(1) unf setups_Suc [of ms "rc_iter c"] by simp_all
      have IH: "(\<exists>i. rc_iter ?c \<le> i \<and> i < length ms \<and> ms_initiates (ms ! i) \<and> setups ms (Suc i) = setups ms (rc_iter ?c) @ [i] \<and>
          setupNextSubsession ?c = Some (send (SendSetup i) (?c\<lparr>rc_iter := Suc i, rc_subsession := Some i\<rparr>))) \<or>
        (setups ms (length ms) = setups ms (rc_iter ?c) \<and>
          setupNextSubsession ?c = Some (send (SendPlay (rc_abs ?c)) (?c\<lparr>rc_iter := length ms, rc_subsession := None\<rparr>)))"
        using less False "1.prems" by (intro "1.IH") simp_all
      show ?thesis
      proof (rule disjE [OF IH])
        assume "\<exists>i. rc_iter ?c \<le> i \<and> i < length ms \<and> ms_initiates (ms ! i) \<and> setups ms (Suc i) = setups ms (rc_iter ?c) @ [i] \<and>
          setupNextSubsession ?c = Some (send (SendSetup i) (?c\<lparr>rc_iter := Suc i, rc_subsession := Some i\<rparr>))"
        then show ?thesis unfolding eq(1) using eq(2) by fastforce
      next
        assume "setups ms (length ms) = setups ms (rc_iter ?c) \<and>
          setupNextSubsession ?c = Some (send (SendPlay (rc_abs ?c)) (?c\<lparr>rc_iter := length ms, rc_subsession := None\<rparr>))"
        then show ?thesis unfolding eq(1) using eq(2) by simp
      qed
    qed
  qed
qed

lemma sinks_ok_cong: "rc_next c' = rc_next c \<Longrightarrow> rc_sinks c' = rc_sinks c \<Longrightarrow> sinks_ok ms c' = sinks_ok ms c"
  by (simp add: sinks_ok_def)

lemma setupNext_ok:
  assumes "rc_open c" "rc_session c = Some ms" "sinks_ok ms c" "rc_iter c \<le> length ms"
    and "rc_sent c = SendDescribe # map SendSetup (setups ms (rc_iter c))"
    and "\<forall>m \<in> set ms. ms_sink m \<noteq> None \<or> ms_bye m \<longrightarrow> ms_misc m" "\<forall>i < length ms. ms_misc (ms ! i) \<longrightarrow> i < rc_iter c"
  shows "\<exists>c'. setupNextSubsession c = Some c' \<and> rc_open c' \<and> open_ok c' (Some (last (rc_sent c'))) \<and>
    length (rc_sent c) < length (rc_sent c')"
  using setupNext_spec [OF assms(2,4)]
proof (elim disjE exE conjE)
  fix i assume i: "rc_iter c \<le> i" "i < length ms" "ms_initiates (ms ! i)" "setups ms (Suc i) = setups ms (rc_iter c) @ [i]"
    "setupNextSubsession c = Some (send (SendSetup i) (c\<lparr>rc_iter := Suc i, rc_subsession := Some i\<rparr>))"
  have "\<not> ms_misc (ms ! i)" "\<forall>j < length ms. ms_misc (ms ! j) \<longrightarrow> j < Suc i" using assms(7) i(1,2) by fastforce+
  then show ?thesis
    using i assms(1-3,5,6) by (simp add: open_ok_def sent_ok_def sinks_ok_def)
next
  assume p: "setups ms (length ms) = setups ms (rc_iter c)"
    "setupNextSubsession c = Some (send (SendPlay (rc_abs c)) (c\<lparr>rc_iter := length ms, rc_subsession := None\<rparr>))"
  then show ?thesis
    using assms(1-3,5,6) by (simp add: open_ok_def sent_ok_def sinks_ok_def)
qed

lemma setups_update:
  assumes "ms_initiates m = ms_initiates (ms ! i)"
  shows "setups (ms[i := m]) n = setups ms n"
proof -
  have "ms_initiates (ms[i := m] ! x) = ms_initiates (ms ! x)" for x
    using assms by (cases "i < length ms") (auto simp: nth_list_update list_update_beyond)
  then show ?thesis by (simp add: setups_def)
qed

lemma in_use_nth: "in_use ms = {a. \<exists>i < length ms. ms_sink (ms ! i) = Some a}"
  by (fastforce simp: in_use_def in_set_conv_nth)

lemma in_use_upd:
  "i < length ms \<Longrightarrow> in_use (ms[i := m]) =
     {a. ms_sink m = Some a} \<union> {a. \<exists>j < length ms. j \<noteq> i \<and> ms_sink (ms ! j) = Some a}"
proof (rule set_eqI)
  fix a assume i: "i < length ms"
  have "(\<exists>k < length ms. ms_sink (ms[i := m] ! k) = Some a) \<longleftrightarrow>
      ms_sink m = Some a \<or> (\<exists>j < length ms. j \<noteq> i \<and> ms_sink (ms ! j) = Some a)"
  proof
    assume "\<exists>k < length ms. ms_sink (ms[i := m] ! k) = Some a"
    then obtain k where "k < length ms" "ms_sink (ms[i := m] ! k) = Some a" by blast
    then show "ms_sink m = Some a \<or> (\<exists>j < length ms. j \<noteq> i \<and> ms_sink (ms ! j) = Some a)"
      using i by (cases "k = i") auto
  next
    assume "ms_sink m = Some a \<or> (\<exists>j < length ms. j \<noteq> i \<and> ms_sink (ms ! j) = Some a)"
    then show "\<exists>k < length ms. ms_sink (ms[i := m] ! k) = Some a"
    proof (elim disjE exE conjE)
      assume "ms_sink m = Some a"
      then show ?thesis using i by (intro exI [of _ i]) simp
    next
      fix j assume "j < length ms" "j \<noteq> i" "ms_sink (ms ! j) = Some a"
      then show ?thesis by (intro exI [of _ j]) simp
    qed
  qed
  then show "a \<in> in_use (ms[i := m]) \<longleftrightarrow>
      a \<in> {a. ms_sink m = Some a} \<union> {a. \<exists>j < length ms. j \<noteq> i \<and> ms_sink (ms ! j) = Some a}"
    by (simp add: in_use_nth)
qed

text \<open>A new pair of sinks, the second one for subsession \<open>i\<close>.\<close>

lemma sinks_ok_new:
  assumes "sinks_ok ms c" "i < length ms" "ms_sink (ms ! i) = None" "ms_sink m = Some (Suc (rc_next c))"
    and "rc_next c' = Suc (Suc (rc_next c))" "rc_sinks c' = insert (Suc (rc_next c)) (insert (rc_next c) (rc_sinks c))"
  shows "sinks_ok (ms[i := m]) c'"
proof -
  have use: "in_use (ms[i := m]) = insert (Suc (rc_next c)) (in_use ms)"
    unfolding in_use_upd [OF assms(2)] using assms(3,4) by (fastforce simp: in_use_nth)
  have ev: "even (rc_next c)" and fresh: "\<forall>a \<in> in_use ms. odd a \<and> a < rc_next c"
    using assms(1) by (simp_all add: sinks_ok_def)
  have "{a. even a \<and> a < Suc (Suc (rc_next c))} = insert (rc_next c) {a. even a \<and> a < rc_next c}"
    using ev by (auto simp: less_Suc_eq)
  moreover have "a \<noteq> Suc (rc_next c)" if "j < length ms" "ms_sink (ms ! j) = Some a" for j a
    using fresh that by (fastforce simp: in_use_nth)
  ultimately show ?thesis
    using assms ev fresh unfolding sinks_ok_def use
    by (auto simp: nth_list_update split: if_splits)
qed

lemma sinks_ok_drop:
  assumes "sinks_ok ms c" "i < length ms" "ms_sink m = None" "rc_next c' = rc_next c"
    and "rc_sinks c' = (case ms_sink (ms ! i) of None \<Rightarrow> rc_sinks c | Some a \<Rightarrow> rc_sinks c - {a})"
  shows "sinks_ok (ms[i := m]) c'"
proof -
  have inj: "\<forall>i j a. i < length ms \<longrightarrow> j < length ms \<longrightarrow> ms_sink (ms ! i) = Some a \<longrightarrow> ms_sink (ms ! j) = Some a \<longrightarrow> i = j"
    using assms(1) by (simp add: sinks_ok_def)
  have use: "in_use (ms[i := m]) = (case ms_sink (ms ! i) of None \<Rightarrow> in_use ms | Some a \<Rightarrow> in_use ms - {a})"
  proof (cases "ms_sink (ms ! i)")
    case None
    then show ?thesis unfolding in_use_upd [OF assms(2)] using assms(3) by (fastforce simp: in_use_nth)
  next
    case (Some a)
    have "j \<noteq> i \<longleftrightarrow> b \<noteq> a" if "j < length ms" "ms_sink (ms ! j) = Some b" for j b
      using that Some inj assms(2) by auto
    then show ?thesis unfolding in_use_upd [OF assms(2)] using assms(3) Some by (fastforce simp: in_use_nth)
  qed
  have fresh: "\<forall>a \<in> in_use ms. odd a \<and> a < rc_next c" "even (rc_next c)"
    "rc_sinks c = {a. even a \<and> a < rc_next c} \<union> in_use ms"
    using assms(1) by (simp_all add: sinks_ok_def)
  have "rc_sinks c' = {a. even a \<and> a < rc_next c} \<union> in_use (ms[i := m])"
  proof (cases "ms_sink (ms ! i)")
    case (Some a)
    then have "a \<in> in_use ms" using assms(2) by (auto simp: in_use_nth)
    then show ?thesis using Some fresh assms(5) use by auto
  qed (use fresh assms(5) use in auto)
  moreover have "in_use (ms[i := m]) \<subseteq> in_use ms" using use by (auto split: option.splits)
  moreover have "x = y" if "x < length ms" "y < length ms" "ms_sink (ms[i := m] ! x) = Some a" "ms_sink (ms[i := m] ! y) = Some a" for x y a
    using that inj assms(2,3) by (auto simp: nth_list_update split: if_splits)
  ultimately show ?thesis using fresh assms(4) by (auto simp: sinks_ok_def)
qed

lemma open_sent:
  assumes "open_ok c p"
  shows "\<exists>is ps. rc_sent c = SendDescribe # map SendSetup is @ ps \<and> sorted_wrt (<) is \<and> (ps = [] \<or> (\<exists>b. ps = [SendPlay b]))"
proof (cases "rc_session c")
  case None
  then show ?thesis using assms by (intro exI [of _ "[]"]) (simp add: open_ok_def)
next
  case (Some ms)
  then have s: "sent_ok c p ms" using assms by (simp add: open_ok_def)
  show ?thesis
  proof (cases "\<exists>i. p = Some (SendSetup i)")
    case True
    then show ?thesis using s setups_sorted
      by (intro exI [of _ "setups ms (rc_iter c)"] exI [of _ "[]"]) (auto simp: sent_ok_def)
  next
    case False
    then show ?thesis using s setups_sorted
      by (intro exI [of _ "setups ms (length ms)"] exI [of _ "[SendPlay (rc_abs c)]"])
        (auto simp: sent_ok_def split: option.splits rtsp_cmd.splits)
  qed
qed

lemma open_sinks:
  "open_ok c p \<Longrightarrow> case rc_session c of None \<Rightarrow> rc_next c = 0 \<and> rc_sinks c = {} | Some ms \<Rightarrow> sinks_ok ms c"
  by (auto simp: open_ok_def split: option.splits)

text \<open>Ending a source in an open session.\<close>

lemma after_playing_ok:
  assumes "rc_open c" "open_ok c p" "rc_session c = Some ms" "i < length ms" "ms_misc (ms ! i)"
  shows "\<exists>c'. subsessionAfterPlaying i c = Some c' \<and> rtsp_ok (c', if rc_open c' then p else None)"
proof -
  let ?m = "(ms ! i)\<lparr>ms_sink := None\<rparr>"
  let ?c = "c\<lparr>rc_session := Some (ms[i := ?m]), rc_sinks := (case ms_sink (ms ! i) of None \<Rightarrow> rc_sinks c | Some a \<Rightarrow> rc_sinks c - {a})\<rparr>"
  have ok: "sinks_ok ms c" "rc_iter c \<le> length ms" "sent_ok c p ms"
      "\<forall>m \<in> set ms. ms_sink m \<noteq> None \<or> ms_bye m \<longrightarrow> ms_misc m" "\<forall>i < length ms. ms_misc (ms ! i) \<longrightarrow> i < rc_iter c"
    using assms(2,3) by (simp_all add: open_ok_def)
  have sinks: "sinks_ok (ms[i := ?m]) ?c" by (rule sinks_ok_drop [OF ok(1) assms(4)]) simp_all
  have misc: "ms_misc (ms[i := ?m] ! j) = ms_misc (ms ! j)" "ms_initiates (ms[i := ?m] ! j) = ms_initiates (ms ! j)" for j
    using assms(4) by (simp_all add: nth_list_update)
  show ?thesis
  proof (cases "list_ex (\<lambda>m. ms_sink m \<noteq> None) (ms[i := ?m])")
    case True
    have "sent_ok ?c p (ms[i := ?m])"
      using ok(3) setups_update [of ?m ms i] misc unfolding sent_ok_def by (simp split: option.splits rtsp_cmd.splits)
    moreover have "\<forall>m \<in> set (ms[i := ?m]). ms_sink m \<noteq> None \<or> ms_bye m \<longrightarrow> ms_misc m"
      using ok(4) assms(4,5) by (auto dest!: set_update_subset_insert [THEN subsetD])
    ultimately have "open_ok ?c p" using sinks ok(2,5) misc by (simp add: open_ok_def)
    then show ?thesis using True assms(1,3,4) by (simp add: subsessionAfterPlaying_def rtsp_ok_def Let_def)
  next
    case False
    obtain "is" ps where sent: "rc_sent c = SendDescribe # map SendSetup is @ ps" "sorted_wrt (<) is" "ps = [] \<or> (\<exists>b. ps = [SendPlay b])"
      using open_sent [OF assms(2)] by blast
    have "\<exists>c'. shutdownStream ?c = Some c' \<and> \<not> rc_open c' \<and> closed_ok c'"
      using sinks assms(1) sent(1) by (intro shutdown_ok [OF _ _ _ sent(2,3)]) simp_all
    then show ?thesis using False assms(1,3-5) by (auto simp: subsessionAfterPlaying_def rtsp_ok_def Let_def)
  qed
qed

text \<open>Every call the library may make is defined and keeps the invariant.\<close>

lemma described_ok:
  assumes "rtsp_ok (c, p)" "p = Some SendDescribe"
  shows "\<exists>c'. continueAfterDESCRIBE code sdp c = Some c' \<and> rtsp_ok (c', awaited c c')"
proof -
  have op: "rc_open c" "open_ok c p" using assms by (auto simp: rtsp_ok_def split: if_splits)
  have "rc_session c = None" using op(2) assms(2) by (auto simp: open_ok_def sent_ok_def split: option.splits)
  then have c: "rc_sent c = [SendDescribe]" "rc_next c = 0" "rc_sinks c = {}" "rc_session c = None"
    using op(2) by (simp_all add: open_ok_def)
  have shut: "\<exists>c'. shutdownStream c1 = Some c' \<and> rtsp_ok (c', awaited c c')"
    if "rc_open c1" "rc_sent c1 = [SendDescribe]" "rc_session c1 = None \<or> rc_session c1 = Some []" "rc_next c1 = 0" "rc_sinks c1 = {}" for c1
  proof -
    have "\<exists>c'. shutdownStream c1 = Some c' \<and> \<not> rc_open c' \<and> closed_ok c'"
      by (rule shutdown_ok [of c1 "[]" "[]"]) (use that in \<open>auto simp: sinks_ok_def in_use_def\<close>)
    then show ?thesis by (auto simp: rtsp_ok_def awaited_def)
  qed
  show ?thesis
  proof (cases "code \<noteq> 0 \<or> sdp = None \<or> (\<exists>b. sdp = Some (b, []))")
    case True
    then show ?thesis
    proof (elim disjE exE)
      fix b assume "sdp = Some (b, [])"
      then show ?thesis
        using shut [of "c\<lparr>rc_session := Some [], rc_abs := b\<rparr>"] shut [of c] op(1) c by (auto simp: continueAfterDESCRIBE_def)
    qed (use shut [of c] op(1) c in \<open>auto simp: continueAfterDESCRIBE_def split: option.splits\<close>)
  next
    case False
    then obtain b subs where sdp: "code = 0" "sdp = Some (b, subs)" "subs \<noteq> []" by (cases sdp) auto
    let ?ms = "map new_subsession subs"
    let ?c = "c\<lparr>rc_session := Some ?ms, rc_abs := b, rc_iter := 0\<rparr>"
    have ns: "ms_sink (new_subsession x) = None" "\<not> ms_bye (new_subsession x)" "\<not> ms_misc (new_subsession x)" for x
      by (cases x; simp add: new_subsession_def)+
    have "\<exists>c'. setupNextSubsession ?c = Some c' \<and> rc_open c' \<and> open_ok c' (Some (last (rc_sent c'))) \<and>
        length (rc_sent ?c) < length (rc_sent c')"
      by (rule setupNext_ok [where ms = ?ms])
        (use op(1) c ns in \<open>auto simp: sinks_ok_def in_use_def setups_def\<close>)
    then show ?thesis using sdp op(1) by (auto simp: continueAfterDESCRIBE_def rtsp_ok_def awaited_def)
  qed
qed

lemma set_up_ok:
  assumes "rtsp_ok (c, p)" "p = Some (SendSetup i)"
  shows "\<exists>c'. continueAfterSETUP code c = Some c' \<and> rtsp_ok (c', awaited c c')"
proof -
  have op: "rc_open c" "open_ok c p" using assms by (auto simp: rtsp_ok_def split: if_splits)
  obtain ms where ms: "rc_session c = Some ms" using op(2) assms(2) by (auto simp: open_ok_def split: option.splits)
  have ok: "sinks_ok ms c" "rc_iter c \<le> length ms" "sent_ok c p ms"
      "\<forall>m \<in> set ms. ms_sink m \<noteq> None \<or> ms_bye m \<longrightarrow> ms_misc m" "\<forall>i < length ms. ms_misc (ms ! i) \<longrightarrow> i < rc_iter c"
    using op(2) ms by (simp_all add: open_ok_def)
  have i: "rc_subsession c = Some i" "i < length ms" "Suc i = rc_iter c" "\<not> ms_misc (ms ! i)"
      "rc_sent c = SendDescribe # map SendSetup (setups ms (rc_iter c))"
    using ok(2,3) assms(2) by (simp_all add: sent_ok_def)
  have goal: "\<exists>c'. continueAfterSETUP code c = Some c' \<and> rtsp_ok (c', awaited c c')"
    if start: "\<And>c'. setupNextSubsession c1 = Some c' \<Longrightarrow> continueAfterSETUP code c = Some c'" and "rc_sent c1 = rc_sent c"
      and "\<exists>c'. setupNextSubsession c1 = Some c' \<and> rc_open c' \<and> open_ok c' (Some (last (rc_sent c'))) \<and>
        length (rc_sent c1) < length (rc_sent c')" for c1
    using that by (auto simp: rtsp_ok_def awaited_def)
  show ?thesis
  proof (cases "code = 0")
    case False
    show ?thesis
      by (rule goal [of c]) (use setupNext_ok [OF op(1) ms ok(1,2) i(5) ok(4,5)] False op(1) in \<open>simp_all add: continueAfterSETUP_def\<close>)
  next
    case True
    let ?m = "(ms ! i)\<lparr>ms_sink := Some (Suc (rc_next c)), ms_misc := True, ms_bye := (if ms_rtcp (ms ! i) then True else ms_bye (ms ! i))\<rparr>"
    let ?c = "c\<lparr>rc_next := Suc (Suc (rc_next c)),
      rc_sinks := insert (Suc (rc_next c)) (insert (rc_next c) (rc_sinks c)), rc_session := Some (ms[i := ?m])\<rparr>"
    have "ms_sink (ms ! i) = None" using ok(4) i(2,4) by (metis nth_mem)
    then have sinks: "sinks_ok (ms[i := ?m]) ?c" by (intro sinks_ok_new [OF ok(1) i(2)]) simp_all
    have all: "\<forall>m \<in> set (ms[i := ?m]). ms_sink m \<noteq> None \<or> ms_bye m \<longrightarrow> ms_misc m"
      using ok(4) by (auto dest!: set_update_subset_insert [THEN subsetD])
    have lt: "\<forall>j < length (ms[i := ?m]). ms_misc (ms[i := ?m] ! j) \<longrightarrow> j < rc_iter ?c"
      using ok(5) i(2,3) by (auto simp: nth_list_update split: if_splits)
    have "setups (ms[i := ?m]) n = setups ms n" for n by (rule setups_update) simp
    then have sent: "rc_sent ?c = SendDescribe # map SendSetup (setups (ms[i := ?m]) (rc_iter ?c))" using i(5) by simp
    have start: "continueAfterSETUP code c = setupNextSubsession ?c"
      using True op(1) i(1,2) ms by (simp add: continueAfterSETUP_def createSink_def startSubsession_def)
    have "rc_open ?c" "rc_session ?c = Some (ms[i := ?m])" "rc_iter ?c \<le> length (ms[i := ?m])" using op(1) ok(2) by simp_all
    from setupNext_ok [OF this(1,2) sinks this(3) sent all lt] show ?thesis
      by (intro goal [of ?c]) (simp_all add: start)
  qed
qed

lemma played_ok:
  assumes "rtsp_ok (c, p)" "p = Some (SendPlay b)"
  shows "continueAfterPLAY code c = Some c \<and> rtsp_ok (c, awaited c c)"
proof -
  have op: "rc_open c" "open_ok c p" using assms by (auto simp: rtsp_ok_def split: if_splits)
  then have "open_ok c None" using assms(2) by (auto simp: open_ok_def sent_ok_def split: option.splits)
  then show ?thesis using op(1) by (simp add: continueAfterPLAY_def rtsp_ok_def awaited_def)
qed

lemma source_end_ok:
  assumes "rtsp_ok (c, p)" "enabled (SourceEnd i) (c, p)"
  shows "\<exists>c'. subsessionAfterPlaying i c = Some c' \<and> rtsp_ok (c', if rc_open c' then p else None)"
proof -
  obtain ms where ms: "rc_open c" "rc_session c = Some ms" "i < length ms" "ms_sink (ms ! i) \<noteq> None"
    using assms(2) by auto
  then have op: "open_ok c p" using assms(1) by (simp add: rtsp_ok_def)
  then have "ms_misc (ms ! i)" using ms by (auto simp: open_ok_def)
  from after_playing_ok [OF ms(1) op ms(2,3) this] show ?thesis .
qed

lemma bye_ok:
  assumes "rtsp_ok (c, p)" "enabled (Bye i) (c, p)"
  shows "\<exists>c'. subsessionByeHandler i (forget_bye i c) = Some c' \<and> rtsp_ok (c', if rc_open c' then p else None)"
proof -
  obtain ms where ms: "rc_open c" "rc_session c = Some ms" "i < length ms" "ms_bye (ms ! i)"
    using assms(2) by auto
  then have op: "open_ok c p" using assms(1) by (simp add: rtsp_ok_def)
  let ?m = "(ms ! i)\<lparr>ms_bye := False\<rparr>"
  let ?ms = "ms[i := ?m]"
  have ok: "sinks_ok ms c" "rc_iter c \<le> length ms" "sent_ok c p ms"
      "\<forall>m \<in> set ms. ms_sink m \<noteq> None \<or> ms_bye m \<longrightarrow> ms_misc m" "\<forall>i < length ms. ms_misc (ms ! i) \<longrightarrow> i < rc_iter c"
    using op ms by (simp_all add: open_ok_def)
  have eq: "ms_sink (?ms ! j) = ms_sink (ms ! j)" "ms_misc (?ms ! j) = ms_misc (ms ! j)" "ms_initiates (?ms ! j) = ms_initiates (ms ! j)" for j
    using ms(3) by (simp_all add: nth_list_update)
  have fb: "forget_bye i c = c\<lparr>rc_session := Some ?ms\<rparr>" using ms(2) by (simp add: forget_bye_def)
  have misc: "ms_misc (ms ! i)" using ok(4) ms(3,4) by auto
  have "setups ?ms n = setups ms n" for n by (rule setups_update) simp
  then have "sent_ok (forget_bye i c) p ?ms" using ok(3) eq unfolding sent_ok_def fb by (simp split: option.splits rtsp_cmd.splits)
  moreover have "sinks_ok ?ms (forget_bye i c)" using ok(1) eq unfolding sinks_ok_def fb in_use_nth by simp
  moreover have "\<forall>m \<in> set ?ms. ms_sink m \<noteq> None \<or> ms_bye m \<longrightarrow> ms_misc m"
    using ok(4) misc by (auto dest!: set_update_subset_insert [THEN subsetD])
  ultimately have op': "open_ok (forget_bye i c) p" using ok(2,5) eq by (simp add: open_ok_def fb)
  have "subsessionByeHandler i (forget_bye i c) = subsessionAfterPlaying i (forget_bye i c)"
    using ms(1,3) misc by (simp add: subsessionByeHandler_def fb)
  moreover have "\<exists>c'. subsessionAfterPlaying i (forget_bye i c) = Some c' \<and> rtsp_ok (c', if rc_open c' then p else None)"
    by (rule after_playing_ok [OF _ op', where ms = ?ms]) (use ms(1,3) misc in \<open>simp_all add: fb\<close>)
  ultimately show ?thesis by simp
qed

lemma handle_event_ok:
  assumes "rtsp_ok s" "enabled e s"
  shows "\<exists>s'. handle_event e s = Some s' \<and> rtsp_ok s'"
proof -
  obtain c p where s: "s = (c, p)" by fastforce
  note ok = assms(1) [unfolded s]
  show ?thesis
  proof (cases e)
    case (Described code sdp)
    then show ?thesis using described_ok [OF ok, of code sdp] assms(2) s by auto
  next
    case (SetUp code)
    then show ?thesis using set_up_ok [OF ok, of _ code] assms(2) s by auto
  next
    case (Played code)
    then show ?thesis using played_ok [OF ok, of _ code] assms(2) s by auto
  next
    case (SourceEnd i)
    then show ?thesis using source_end_ok [OF ok, of i] assms(2) s by (auto simp del: enabled_iff)
  next
    case (Bye i)
    then show ?thesis using bye_ok [OF ok, of i] assms(2) s by (auto simp del: enabled_iff)
  qed
qed

inductive_cases rtsp_stepE: "rtsp_step s s'"

interpretation rtsp_system: step_system "\<lambda>s. s = rtsp_start" rtsp_step rtsp_ok
proof
  show "rtsp_ok s" if "s = rtsp_start" for s
    using that by (simp add: rtsp_start_def rtsp_ok_def open_ok_def rtsp_Open_def)
  show "rtsp_ok s'" if "rtsp_ok s" "rtsp_step s s'" for s s'
    using that handle_event_ok by (metis option.inject rtsp_stepE)
qed

text \<open>
  The handlers are safe: in every state an RTSP session can get into, each call the library may make
  (an answer, the end of a source, a BYE) finds an open client and a subsession that is there, so
  no handler follows a null pointer or uses a closed client.
\<close>

theorem rtsp_handlers_safe:
  assumes "rtsp_step\<^sup>*\<^sup>* rtsp_start s" and "enabled e s"
  shows "handle_event e s \<noteq> None"
  using handle_event_ok [OF rtsp_system.invar_reached [OF refl assms(1)] assms(2)] by auto

text \<open>
  C28. The commands of a session: whatever happens, the client asks for the description, then sets up
  different subsessions in the order of the session, then plays at most once, and sends a
  teardown at most once, after which it is closed; and when it has played while open, it has set up
  exactly the subsessions that could be initiated.
\<close>

theorem rtsp_commands_ordered:
  assumes "rtsp_step\<^sup>*\<^sup>* rtsp_start (c, p)"
  shows "\<exists>is ps ts. rc_sent c = SendDescribe # map SendSetup is @ ps @ ts \<and> sorted_wrt (<) is \<and>
    (ps = [] \<or> (\<exists>b. ps = [SendPlay b])) \<and> (ts = [] \<or> ts = [SendTeardown] \<and> \<not> rc_open c) \<and>
    (rc_open c \<and> ps \<noteq> [] \<longrightarrow> (\<exists>ms. rc_session c = Some ms \<and> is = filter (\<lambda>i. ms_initiates (ms ! i)) [0..<length ms]))"
proof -
  have ok: "rtsp_ok (c, p)" by (rule rtsp_system.invar_reached [OF refl assms])
  show ?thesis
  proof (cases "rc_open c")
    case False
    then have "sent_form (rc_sent c)" using ok by (simp add: rtsp_ok_def closed_ok_def)
    then show ?thesis using False unfolding sent_form_def by blast
  next
    case True
    then have op: "open_ok c p" using ok by (simp add: rtsp_ok_def)
    show ?thesis
    proof (cases "(\<exists>i. p = Some (SendSetup i)) \<or> rc_session c = None")
      case yes: True
      then obtain "is" where "rc_sent c = SendDescribe # map SendSetup is" "sorted_wrt (<) is"
      proof (cases "rc_session c")
        case None
        then show ?thesis using that [of "[]"] op by (simp add: open_ok_def)
      next
        case (Some ms)
        then show ?thesis using that [of "setups ms (rc_iter c)"] op yes setups_sorted by (auto simp: open_ok_def sent_ok_def)
      qed
      then show ?thesis by (intro exI [of _ "is"] exI [of _ "[]"]) simp
    next
      case no: False
      then obtain ms where ms: "rc_session c = Some ms" by auto
      then have "rc_sent c = SendDescribe # map SendSetup (setups ms (length ms)) @ [SendPlay (rc_abs c)]"
        using op no by (auto simp: open_ok_def sent_ok_def split: option.splits rtsp_cmd.splits)
      then show ?thesis using ms setups_sorted
        by (intro exI [of _ "setups ms (length ms)"] exI [of _ "[SendPlay (rc_abs c)]"] exI [of _ "[]"]) (simp add: setups_def)
    qed
  qed
qed

text \<open>
  Every successful set-up leaks a sink with its receive buffer: of the sinks made for a subsession
  the first is never closed, not even when the session is shut down, and after the shutdown
  exactly those remain.
\<close>

theorem rtsp_sinks_leak:
  assumes "rtsp_step\<^sup>*\<^sup>* rtsp_start (c, p)"
  shows "{a. even a \<and> a < rc_next c} \<subseteq> rc_sinks c \<and> (\<not> rc_open c \<longrightarrow> rc_sinks c = {a. even a \<and> a < rc_next c})"
proof -
  have ok: "rtsp_ok (c, p)" by (rule rtsp_system.invar_reached [OF refl assms])
  show ?thesis
  proof (cases "rc_open c")
    case False
    then show ?thesis using ok by (simp add: rtsp_ok_def closed_ok_def)
  next
    case True
    then have "open_ok c p" using ok by (simp add: rtsp_ok_def)
    then show ?thesis using True by (auto simp: open_ok_def sinks_ok_def split: option.splits)
  qed
qed

text \<open>
  A session that plays nothing is never closed: when no subsession has a sink (every set-up was
  refused) and the answer to the play command has come, whatever it says, the client stays open
  and nothing can happen to it any more; a refused play is not noticed.
\<close>

theorem rtsp_silent_session_stuck:
  assumes "rtsp_step\<^sup>*\<^sup>* rtsp_start (c, Some (SendPlay b))" and "rc_session c = Some ms" and "in_use ms = {}"
    and "list_all (\<lambda>m. \<not> ms_bye m) ms"
  shows "rtsp_step (c, Some (SendPlay b)) (c, None) \<and> rc_open c \<and> (\<nexists>s'. rtsp_step (c, None) s')"
proof -
  have ok: "rtsp_ok (c, Some (SendPlay b))" by (rule rtsp_system.invar_reached [OF refl assms(1)])
  then have op: "rc_open c" by (auto simp: rtsp_ok_def split: if_splits)
  have "handle_event (Played 1) (c, Some (SendPlay b)) = Some (c, None)"
    using played_ok [OF ok refl, of 1] by (simp add: awaited_def)
  then have "rtsp_step (c, Some (SendPlay b)) (c, None)" by (intro rtsp_step.intros [of "Played 1"]) auto
  moreover have "\<forall>i < length ms. ms_sink (ms ! i) = None" using assms(3) by (auto simp: in_use_nth) (metis option.exhaust)
  then have "\<not> enabled e (c, None)" for e
    using assms(2,4) by (cases e) (auto simp: list_all_length)
  ultimately show ?thesis using op by (auto elim: rtsp_stepE)
qed

section \<open>Concrete sessions\<close>

text \<open>A run of given events.\<close>

fun rtsp_run :: "rtsp_event list \<Rightarrow> session \<Rightarrow> session option" where
  "rtsp_run [] s = Some s"
| "rtsp_run (e # es) s = (if enabled e s then handle_event e s \<bind> rtsp_run es else None)"

lemma rtsp_run_steps: "rtsp_run es s = Some s' \<Longrightarrow> rtsp_step\<^sup>*\<^sup>* s s'"
proof (induction es arbitrary: s)
  case (Cons e es)
  then obtain s1 where "enabled e s" "handle_event e s = Some s1" "rtsp_run es s1 = Some s'"
    by (auto split: if_splits bind_splits)
  then show ?case using Cons.IH by (meson converse_rtranclp_into_rtranclp rtsp_step.intros)
qed simp

lemma rtsp_run_append: "rtsp_run (es @ es') s = rtsp_run es s \<bind> rtsp_run es'"
proof (induction es arbitrary: s)
  case (Cons e es)
  then show ?case by (cases "handle_event e s") simp_all
qed simp

definition demo_media :: media where
  "demo_media = (False, [(True, True), (False, True), (True, True)])"

theorem rtsp_handlers_safe_witness:
  "\<exists>s. rtsp_run [Described 0 (Some demo_media), SetUp 0] rtsp_start = Some s \<and> handle_event (Bye 0) s \<noteq> None"
proof -
  have "map_option (enabled (Bye 0)) (rtsp_run [Described 0 (Some demo_media), SetUp 0] rtsp_start) = Some True" by code_simp
  then obtain s where s: "rtsp_run [Described 0 (Some demo_media), SetUp 0] rtsp_start = Some s" "enabled (Bye 0) s"
    by (auto simp del: enabled_iff)
  then show ?thesis using rtsp_handlers_safe [OF rtsp_run_steps [OF s(1)] s(2)] by blast
qed

theorem rtsp_commands_ordered_witness:
  "\<exists>c is. rtsp_run [Described 0 (Some demo_media), SetUp 0, SetUp 1, Played 0] rtsp_start = Some (c, None) \<and>
     rc_sent c = SendDescribe # map SendSetup is @ [SendPlay False] \<and> is = [0, 2]"
proof -
  have "map_option (\<lambda>(c, p). (rc_open c, p, rc_sent c, map_option (\<lambda>ms. filter (\<lambda>i. ms_initiates (ms ! i)) [0..<length ms]) (rc_session c)))
      (rtsp_run [Described 0 (Some demo_media), SetUp 0, SetUp 1, Played 0] rtsp_start) =
    Some (True, None, [SendDescribe, SendSetup 0, SendSetup 2, SendPlay False], Some [0, 2])" by code_simp
  then obtain c where c: "rtsp_run [Described 0 (Some demo_media), SetUp 0, SetUp 1, Played 0] rtsp_start = Some (c, None)"
      "rc_open c" "rc_sent c = [SendDescribe, SendSetup 0, SendSetup 2, SendPlay False]"
      "map_option (\<lambda>ms. filter (\<lambda>i. ms_initiates (ms ! i)) [0..<length ms]) (rc_session c) = Some [0, 2]"
    by auto
  obtain "is" ps ts where o: "rc_sent c = SendDescribe # map SendSetup is @ ps @ ts" "ps = [] \<or> (\<exists>b. ps = [SendPlay b])"
      "ts = [] \<or> ts = [SendTeardown] \<and> \<not> rc_open c"
      "rc_open c \<and> ps \<noteq> [] \<longrightarrow> (\<exists>ms. rc_session c = Some ms \<and> is = filter (\<lambda>i. ms_initiates (ms ! i)) [0..<length ms])"
    using rtsp_commands_ordered [OF rtsp_run_steps [OF c(1)]] by blast
  have ps: "ps = [SendPlay False]"
    using o(1-3) c(2,3) by (elim disjE exE) (auto simp: map_eq_Cons_conv append_eq_Cons_conv)
  then have "is = [0, 2]" using o(4) c(2,4) by auto
  then show ?thesis using c(1) o(1,3) c(2) ps by auto
qed

theorem rtsp_sinks_leak_witness:
  "\<exists>c. rtsp_run [Described 0 (Some demo_media), SetUp 0, SetUp 0, Bye 0, SourceEnd 2] rtsp_start = Some (c, None) \<and> rc_sinks c = {0, 2}"
proof -
  let ?es = "[Described 0 (Some demo_media), SetUp 0, SetUp 0, Bye 0, SourceEnd 2]"
  have "map_option (\<lambda>(c, p). (rc_open c, p, rc_next c)) (rtsp_run ?es rtsp_start) = Some (False, None, 4)" by code_simp
  then obtain c where c: "rtsp_run ?es rtsp_start = Some (c, None)" "\<not> rc_open c" "rc_next c = 4"
    by (auto simp del: rtsp_run.simps)
  have "rc_sinks c = {a. even a \<and> a < 4}" using rtsp_sinks_leak [OF rtsp_run_steps [OF c(1)]] c(2,3) by simp
  also have "\<dots> = {0, 2}"
  proof (rule set_eqI)
    show "a \<in> {a. even a \<and> a < 4} \<longleftrightarrow> a \<in> {0, 2}" for a :: nat
      unfolding mem_Collect_eq insert_iff empty_iff by presburger
  qed
  finally show ?thesis using c(1) by blast
qed

theorem rtsp_silent_session_stuck_witness:
  "\<exists>c. rtsp_run [Described 0 (Some demo_media), SetUp 7, SetUp 7, Played 9] rtsp_start = Some (c, None) \<and> rc_open c \<and>
     (\<nexists>s'. rtsp_step (c, None) s')"
proof -
  let ?es = "[Described 0 (Some demo_media), SetUp 7, SetUp 7]"
  have "map_option (\<lambda>(c, p). (rc_open c, p, map_option (\<lambda>ms. list_all (\<lambda>m. ms_sink m = None \<and> \<not> ms_bye m) ms) (rc_session c)))
      (rtsp_run ?es rtsp_start) = Some (True, Some (SendPlay False), Some True)" by code_simp
  then obtain c ms where c: "rtsp_run ?es rtsp_start = Some (c, Some (SendPlay False))" "rc_open c" "rc_session c = Some ms"
      "list_all (\<lambda>m. ms_sink m = None \<and> \<not> ms_bye m) ms" by auto
  have "rtsp_run (?es @ [Played 9]) rtsp_start = Some (c, None)"
    unfolding rtsp_run_append c(1) using c(2) by (simp add: continueAfterPLAY_def awaited_def enabled.simps del: enabled_iff)
  then have "rtsp_run [Described 0 (Some demo_media), SetUp 7, SetUp 7, Played 9] rtsp_start = Some (c, None)"
    by (simp only: append.simps)
  moreover have "in_use ms = {}" "list_all (\<lambda>m. \<not> ms_bye m) ms" using c(4) by (auto simp: in_use_def list_all_iff)
  then have "\<nexists>s'. rtsp_step (c, None) s'"
    using rtsp_silent_session_stuck [OF rtsp_run_steps [OF c(1)] c(3)] by blast
  ultimately show ?thesis using c(2) by blast
qed


section \<open>Receiving frames\<close>

text \<open>
  The sink of a subsession: whether it has a callback and a source, its receive buffer, and the number of
  parameter-set records that were parsed and never freed. The source writes a frame at
  the front of the buffer; \<open>fmtp\<close> is the number of parameter sets of the subsession.
\<close>

record DummySink =
  ds_callback :: bool
  fSource :: bool
  fReceiveBuffer :: "8 word list"
  ds_records :: nat

definition DUMMY_SINK_RECEIVE_BUFFER_SIZE :: nat where
  "DUMMY_SINK_RECEIVE_BUFFER_SIZE = 500000"

definition continuePlaying :: "DummySink \<Rightarrow> bool \<times> DummySink" where
  "continuePlaying s = (if \<not> fSource s then (False, s)
     else (True, s\<lparr>fReceiveBuffer := replicate DUMMY_SINK_RECEIVE_BUFFER_SIZE 0\<rparr>))"

text \<open>What the callback is given: the number of records, the buffer, the size of the frame.\<close>

type_synonym frame_call = "nat \<times> 8 word list \<times> nat"

definition afterGettingFrame :: "nat \<Rightarrow> nat \<Rightarrow> DummySink \<Rightarrow> (frame_call \<times> DummySink) option" where
  "afterGettingFrame fmtp frameSize s = (if \<not> ds_callback s then None
     else Some ((fmtp, fReceiveBuffer s, frameSize), snd (continuePlaying (s\<lparr>ds_records := Suc (ds_records s)\<rparr>))))"

definition source_writes :: "8 word list \<Rightarrow> DummySink \<Rightarrow> DummySink" where
  "source_writes d s = s\<lparr>fReceiveBuffer := d @ drop (length d) (fReceiveBuffer s)\<rparr>"

fun receive_frames :: "nat \<Rightarrow> 8 word list list \<Rightarrow> DummySink \<Rightarrow> (frame_call list \<times> DummySink) option" where
  "receive_frames fmtp [] s = Some ([], s)"
| "receive_frames fmtp (d # ds) s = do {
     (call, s1) \<leftarrow> afterGettingFrame fmtp (length d) (source_writes d s);
     (calls, s2) \<leftarrow> receive_frames fmtp ds s1;
     Some (call # calls, s2)}"

text \<open>
  Every frame reaches the callback clean: for frames that fit the receive buffer, the callback sees
  each frame followed by zeros, in order, never bytes of an earlier one; and one array
  of parameter sets is left behind per frame.
\<close>

theorem frames_clean:
  assumes "ds_callback s" and "fSource s" and "\<forall>d \<in> set ds. length d \<le> DUMMY_SINK_RECEIVE_BUFFER_SIZE"
  shows "\<exists>s'. receive_frames fmtp ds (snd (continuePlaying s)) =
      Some (map (\<lambda>d. (fmtp, d @ replicate (DUMMY_SINK_RECEIVE_BUFFER_SIZE - length d) 0, length d)) ds, s') \<and>
    ds_records s' = ds_records s + length ds"
  using assms
proof (induction ds arbitrary: s)
  case Nil
  then show ?case by (simp add: continuePlaying_def)
next
  case (Cons d ds)
  let ?s = "s\<lparr>ds_records := Suc (ds_records s)\<rparr>"
  have "afterGettingFrame fmtp (length d) (source_writes d (snd (continuePlaying s))) =
      Some ((fmtp, d @ replicate (DUMMY_SINK_RECEIVE_BUFFER_SIZE - length d) 0, length d), snd (continuePlaying ?s))"
    using Cons.prems by (simp add: afterGettingFrame_def source_writes_def continuePlaying_def)
  moreover obtain s' where "receive_frames fmtp ds (snd (continuePlaying ?s)) =
      Some (map (\<lambda>d. (fmtp, d @ replicate (DUMMY_SINK_RECEIVE_BUFFER_SIZE - length d) 0, length d)) ds, s')"
      "ds_records s' = ds_records ?s + length ds"
    using Cons.IH [of ?s] Cons.prems by auto
  ultimately show ?case by auto
qed

theorem frames_clean_witness:
  "\<exists>s'. receive_frames 2 [[0x65, 1, 2], [0x41]] (snd (continuePlaying \<lparr>ds_callback = True, fSource = True, fReceiveBuffer = [], ds_records = 0\<rparr>)) =
     Some ([(2, [0x65, 1, 2] @ replicate 499997 0, 3), (2, [0x41] @ replicate 499999 0, 1)], s') \<and> ds_records s' = 2"
  using frames_clean [of "\<lparr>ds_callback = True, fSource = True, fReceiveBuffer = [], ds_records = 0\<rparr>" "[[0x65, 1, 2], [0x41]]" 2]
  by (auto simp: DUMMY_SINK_RECEIVE_BUFFER_SIZE_def)

end
