(* ===== verification/CfgMng.thy ===== *)
theory CfgMng
  imports CfgTables
begin

text \<open>
  The configuration manager (main/CfgMng/CfgMng.cpp): two configurations, the factory one read
  from the file and the running one loaded from the database, each with the map of its elements;
  the update of a root node with the allocation of new indices; and the requests of the
  configuration tool. \<^term>\<open>None\<close> is an exception the code does not catch or undefined
  behaviour. The calls to the other managers are recorded as events.
\<close>

section \<open>State\<close>

record CCfgMng =
  m_jExFactorySysCfg :: json
  m_mapExFactory :: cfg_map
  m_jRuntimeSysCfg :: json
  m_mapRuntime :: cfg_map
  m_topics :: "string list"

definition new_CCfgMng :: CCfgMng where
  "new_CCfgMng = \<lparr>m_jExFactorySysCfg = JNull, m_mapExFactory = (\<lambda>_. None),
     m_jRuntimeSysCfg = JNull, m_mapRuntime = (\<lambda>_. None), m_topics = []\<rparr>"

section \<open>The map of the elements\<close>

text \<open>
  An element is stored under its node, under node and type, and under type and index. Reading a
  member of a value that is neither null nor an object throws.
\<close>

definition jmember :: "string \<Rightarrow> json \<Rightarrow> json option" where
  "jmember k j = (case j of JNull \<Rightarrow> Some JNull | JObj m \<Rightarrow> Some (jget k j) | _ \<Rightarrow> None)"

fun save_elms :: "string \<Rightarrow> string \<Rightarrow> json list \<Rightarrow> cfg_map \<Rightarrow> cfg_map option" where
  "save_elms strNode strSubNode [] m = Some m"
| "save_elms strNode strSubNode (elm # elms) m = do {
     ty \<leftarrow> jtext ''type'' elm;
     idx \<leftarrow> jtext ''idx'' elm;
     save_elms strNode strSubNode elms
       (CfgSave (ty @ idx) elm (CfgSave (strNode @ strSubNode @ ty) elm (CfgSave (strNode @ strSubNode) elm m)))}"

fun save_nodes :: "string \<Rightarrow> (string \<times> json) list \<Rightarrow> cfg_map \<Rightarrow> cfg_map option" where
  "save_nodes strNode [] m = Some m"
| "save_nodes strNode ((strSubNode, v) # nodes) m =
     save_elms strNode strSubNode (jvalues v) m \<bind> save_nodes strNode nodes"

definition ParseJsonNodeObj :: "json \<Rightarrow> string \<Rightarrow> cfg_map \<Rightarrow> cfg_map option" where
  "ParseJsonNodeObj jObj strNode m = do {
     jNode \<leftarrow> jmember strNode jObj;
     nodes \<leftarrow> keyed jNode;
     save_nodes strNode nodes (CfgSave strNode jNode m)}"

definition ParseJson :: "json \<Rightarrow> cfg_map \<Rightarrow> cfg_map option" where
  "ParseJson jObj m = do {
     m1 \<leftarrow> ParseJsonNodeObj jObj ''Transfer'' m;
     m2 \<leftarrow> ParseJsonNodeObj jObj ''Alg'' m1;
     m3 \<leftarrow> ParseJsonNodeObj jObj ''Db'' m2;
     m4 \<leftarrow> ParseJsonNodeObj jObj ''App'' m3;
     ParseJsonNodeObj jObj ''Task'' m4}"

section \<open>Loading\<close>

text \<open>The factory configuration: \<open>file\<close> is the parsed file, \<^term>\<open>None\<close> when it is empty.\<close>

text \<open>
  \<open>SqliteDbSvr::Init\<close>: the topics of every configured server, then the tables. A request is
  answered when its topic is among them.
\<close>

fun sqlite_topics :: "json list \<Rightarrow> string list option" where
  "sqlite_topics [] = Some []"
| "sqlite_topics (val # vals) = do {
     strDBType \<leftarrow> jtext ''type'' val;
     ts \<leftarrow> sqlite_topics vals;
     Some (SqliteSaveDBTopic strDBType # SqliteReadDBTopic strDBType # SqliteDelDBTopic strDBType # ts)}"

definition SqliteSvrInit :: "cfg_map \<Rightarrow> cfg_db \<Rightarrow> (string list \<times> cfg_db) option" where
  "SqliteSvrInit exFactory db = do {
     ts \<leftarrow> sqlite_topics (GetSysCfg ''DbSqliteSvr'' exFactory);
     db' \<leftarrow> DBTableOpt exFactory db;
     Some (ts, db')}"

definition LoadExFactorySysCfgInFile :: "json option \<Rightarrow> CCfgMng \<Rightarrow> cfg_db \<Rightarrow> (CCfgMng \<times> cfg_db) option" where
  "LoadExFactorySysCfgInFile file s db = (case file of
     None \<Rightarrow> Some (s, db)
   | Some j \<Rightarrow> do {
       m \<leftarrow> ParseJson j (m_mapExFactory s);
       (ts, db') \<leftarrow> SqliteSvrInit m db;
       Some (s\<lparr>m_jExFactorySysCfg := j, m_mapExFactory := m, m_topics := ts\<rparr>, db')})"

fun load_tables :: "cfg_map \<Rightarrow> cfg_db \<Rightarrow> string list \<Rightarrow> json \<Rightarrow> json option" where
  "load_tables exFactory db [] cfg = Some cfg"
| "load_tables exFactory db (t # ts) cfg =
     LoadRuntimeSysCfgTableInDb exFactory db t cfg \<bind> load_tables exFactory db ts"

definition LoadRuntimeSysCfgInDb :: "CCfgMng \<Rightarrow> cfg_db \<Rightarrow> CCfgMng option" where
  "LoadRuntimeSysCfgInDb s db = do {
     j \<leftarrow> load_tables (m_mapExFactory s) db [''Transfer'', ''Db'', ''Alg'', ''Task'', ''App''] (m_jRuntimeSysCfg s);
     m \<leftarrow> ParseJson j (m_mapRuntime s);
     Some (s\<lparr>m_jRuntimeSysCfg := j, m_mapRuntime := m\<rparr>)}"

text \<open>The topics \<open>LoadCfg\<close> subscribes the request handler to, one per configured server.\<close>

definition LoadCfg :: "json option \<Rightarrow> CCfgMng \<Rightarrow> cfg_db \<Rightarrow> (string list \<times> CCfgMng \<times> cfg_db) option" where
  "LoadCfg file s db = do {
     (s1, db1) \<leftarrow> LoadExFactorySysCfgInFile file s db;
     s2 \<leftarrow> LoadRuntimeSysCfgInDb s1 db1;
     ports \<leftarrow> those (map (jtext ''port'') (GetSysCfg ''TransferSouthTcpSvr'' (m_mapRuntime s2)));
     Some (map TcpSrvRecMsgTopic ports, s2, db1)}"

section \<open>Updating\<close>

text \<open>\<open>s32MaxIdx\<close>: the greatest index of a sub node, elements marked as new left out.\<close>

fun max_idx :: "json list \<Rightarrow> int \<Rightarrow> int option" where
  "max_idx [] s32MaxIdx = Some s32MaxIdx"
| "max_idx (obj # objs) s32MaxIdx = do {
     strIdx \<leftarrow> jtext ''idx'' obj;
     if strIdx \<noteq> ''-1'' then do {
       s32Idx \<leftarrow> atoi strIdx;
       max_idx objs (if s32Idx > s32MaxIdx then s32Idx else s32MaxIdx)}
     else max_idx objs s32MaxIdx}"

fun assign_idx :: "json list \<Rightarrow> int \<Rightarrow> json list option" where
  "assign_idx [] s32MaxIdx = Some []"
| "assign_idx (obj # objs) s32MaxIdx = do {
     strIdx \<leftarrow> jtext ''idx'' obj;
     if strIdx = ''-1'' then do {
       n \<leftarrow> i32 (s32MaxIdx + 1);
       obj' \<leftarrow> jset ''idx'' (JStr (to_string n)) obj;
       objs' \<leftarrow> assign_idx objs n;
       Some (obj' # objs')}
     else do {
       objs' \<leftarrow> assign_idx objs s32MaxIdx;
       Some (obj # objs')}}"

text \<open>The elements of a sub node are replaced in place.\<close>

definition with_values :: "json \<Rightarrow> json list \<Rightarrow> json" where
  "with_values j vs = (case j of
     JArr _ \<Rightarrow> JArr vs
   | JObj m \<Rightarrow> JObj (zip (map fst (jitems m)) vs)
   | _ \<Rightarrow> j)"

fun assign_nodes :: "json \<Rightarrow> (string \<times> json) list \<Rightarrow> (string \<times> json) list option" where
  "assign_nodes jRoot [] = Some []"
| "assign_nodes jRoot ((strSubNodeKey, v) # nodes) = do {
     old \<leftarrow> jmember strSubNodeKey jRoot;
     s32MaxIdx \<leftarrow> max_idx (jvalues old) 0;
     vs \<leftarrow> assign_idx (jvalues v) s32MaxIdx;
     nodes' \<leftarrow> assign_nodes jRoot nodes;
     Some ((strSubNodeKey, with_values v vs) # nodes')}"

text \<open>
  The new root node: erasing the old one requires it to be there, which the allocation has made
  sure of when there is a sub node.
\<close>

definition replace_root :: "string \<Rightarrow> json \<Rightarrow> bool \<Rightarrow> json \<Rightarrow> json option" where
  "replace_root strRootNode jSubNode touched cfg = (case cfg of
     JNull \<Rightarrow> if touched then Some (JObj [(strRootNode, jSubNode)]) else None
   | JObj m \<Rightarrow> if touched \<or> strRootNode \<in> fst ` set m
       then Some (JObj (AList.update strRootNode jSubNode m)) else None
   | _ \<Rightarrow> None)"

text \<open>The delete statement goes to the topic of the type \<open>sqlitesvr\<close>, whatever the configured type is.\<close>

definition delete_from :: "string \<Rightarrow> string list \<Rightarrow> cfg_db \<Rightarrow> cfg_db" where
  "delete_from strRootNode topics db =
     (if SqliteDelDBTopic ''sqlitesvr'' \<in> set topics then db(strRootNode := []) else db)"

definition RuntimeSysCfgUpdate :: "string \<Rightarrow> json \<Rightarrow> CCfgMng \<Rightarrow> cfg_db \<Rightarrow> (CCfgMng \<times> cfg_db) option" where
  "RuntimeSysCfgUpdate strRootNode jSubNode s db = do {
     nodes \<leftarrow> keyed jSubNode;
     jRoot \<leftarrow> (if nodes = [] then Some JNull else jmember strRootNode (m_jRuntimeSysCfg s));
     nodes' \<leftarrow> assign_nodes jRoot nodes;
     let jNew = (if nodes = [] then jSubNode else JObj nodes');
     j \<leftarrow> replace_root strRootNode jNew (nodes \<noteq> []) (m_jRuntimeSysCfg s);
     m \<leftarrow> ParseJson j (\<lambda>_. None);
     let s' = s\<lparr>m_jRuntimeSysCfg := j, m_mapRuntime := m\<rparr>;
     if GetSysCfgFirst ''DbSqliteSvr'' (m_mapExFactory s) = None then Some (s', db)
     else do {
       db' \<leftarrow> DBTableOpt m (delete_from strRootNode (m_topics s) db);
       Some (s', db')}}"

section \<open>The configuration tool\<close>

datatype cfg_event = AppUpdate | TransUpdate

text \<open>
  Reading through the non-constant \<open>operator[]\<close> makes the member that is not there; the value
  read and the changed container are returned. The first element of an array is made in the same way.
\<close>

definition jtouch :: "string \<Rightarrow> json \<Rightarrow> json option" where
  "jtouch k j = (case j of
     JNull \<Rightarrow> Some (JObj [(k, JNull)])
   | JObj m \<Rightarrow> Some (if k \<in> fst ` set m then j else JObj (m @ [(k, JNull)]))
   | _ \<Rightarrow> None)"

definition jin :: "string \<Rightarrow> (json \<Rightarrow> ('a \<times> json) option) \<Rightarrow> json \<Rightarrow> ('a \<times> json) option" where
  "jin k f j = do {
     j1 \<leftarrow> jtouch k j;
     (a, v) \<leftarrow> f (jget k j1);
     j2 \<leftarrow> jset k v j1;
     Some (a, j2)}"

definition jfirst :: "(json \<Rightarrow> ('a \<times> json) option) \<Rightarrow> json \<Rightarrow> ('a \<times> json) option" where
  "jfirst f j = (case j of
     JNull \<Rightarrow> do { (a, x) \<leftarrow> f JNull; Some (a, JArr [x])}
   | JArr [] \<Rightarrow> do { (a, x) \<leftarrow> f JNull; Some (a, JArr [x])}
   | JArr (y # ys) \<Rightarrow> do { (a, x) \<leftarrow> f y; Some (a, JArr (x # ys))}
   | _ \<Rightarrow> None)"

definition jread :: "json \<Rightarrow> (json \<times> json) option" where
  "jread j = Some (j, j)"

definition jstring :: "json \<Rightarrow> (string \<times> json) option" where
  "jstring j = (case j of JStr s \<Rightarrow> Some (s, j) | _ \<Rightarrow> None)"

definition cfg_reply :: "json \<Rightarrow> (json \<times> json) option" where
  "cfg_reply cfg = do {
     (trans, cfg1) \<leftarrow> jin ''Transfer'' jread cfg;
     (dbs, cfg2) \<leftarrow> jin ''Db'' jread cfg1;
     (jDetectAlgCfg, cfg3) \<leftarrow> jin ''Alg'' (jin ''Detect'' (jfirst jread)) cfg2;
     (jActionAlgCfg, cfg4) \<leftarrow> jin ''Alg'' (jin ''Action'' (jfirst jread)) cfg3;
     (l1, cfg5) \<leftarrow> jin ''Task'' (jin ''Detect'' (jfirst (jin ''lst'' jstring))) cfg4;
     det \<leftarrow> jset ''task_lst'' (JStr l1) jDetectAlgCfg;
     (l2, cfg6) \<leftarrow> jin ''Task'' (jin ''Action'' (jfirst (jin ''lst'' jstring))) cfg5;
     act \<leftarrow> jset ''task_lst'' (JStr l2) jActionAlgCfg;
     Some (JObj [(''Transfer'', trans), (''Db'', dbs), (''Alg'', JObj [(''Detect'', det), (''Action'', act)])], cfg6)}"

fun source_replies :: "cfg_map \<Rightarrow> json list \<Rightarrow> json \<Rightarrow> json option" where
  "source_replies m [] jTaskNode = Some jTaskNode"
| "source_replies m (subObj # subs) jTaskNode = do {
     strTransId \<leftarrow> jtext ''transfer_id'' subObj;
     jDataSrc \<leftarrow> (case GetSysCfgFirst strTransId m of
         None \<Rightarrow> Some JNull
       | Some jDesc \<Rightarrow> do {
           de \<leftarrow> jtext ''desc'' jDesc;
           Some (JObj [(''transfer_id'', JStr strTransId), (''desc'', JStr de)])});
     j \<leftarrow> jpush_at ''data_src'' jDataSrc jTaskNode;
     source_replies m subs j}"

definition app_reply_elm :: "cfg_map \<Rightarrow> json \<Rightarrow> json option" where
  "app_reply_elm m obj = do {
     ty \<leftarrow> jtext ''type'' obj;
     alg \<leftarrow> jtext ''alg_idx'' obj;
     j1 \<leftarrow> source_replies m (jvalues (jget ''data_src'' obj)) (JObj [(''task_flag'', JStr ty), (''alg_idx'', JStr alg)]);
     lst \<leftarrow> jtext ''task_lst'' obj;
     st \<leftarrow> jtext ''start_time'' obj;
     en \<leftarrow> jtext ''end_time'' obj;
     idx \<leftarrow> jtext ''idx'' obj;
     j2 \<leftarrow> jset ''task_lst'' (JStr lst) j1;
     j3 \<leftarrow> jset ''start_time'' (JStr st) j2;
     j4 \<leftarrow> jset ''end_time'' (JStr en) j3;
     jset ''idx'' (JStr idx) j4}"

fun app_reply :: "cfg_map \<Rightarrow> json list \<Rightarrow> json \<Rightarrow> json option" where
  "app_reply m [] jRspData = Some jRspData"
| "app_reply m (obj # objs) jRspData = do {
     jTaskNode \<leftarrow> app_reply_elm m obj;
     j \<leftarrow> jpush jTaskNode jRspData;
     app_reply m objs j}"

text \<open>An application element of a request: \<open>task_flag\<close> becomes \<open>type\<close>.\<close>

definition flag_to_type :: "json \<Rightarrow> json option" where
  "flag_to_type obj = do {
     f \<leftarrow> jtext ''task_flag'' obj;
     j \<leftarrow> jset ''type'' (JStr f) obj;
     Some (JObj (filter (\<lambda>p. fst p \<noteq> ''task_flag'') (members j)))}"

definition reply_ok :: json where
  "reply_ok = JObj [(''result'', JStr ''ok'')]"

text \<open>The reply, \<^term>\<open>None\<close> when there is none, the calls to other managers, and the new state.\<close>

definition CfgRecTcpProtocolMsg :: "(string \<Rightarrow> json option) \<Rightarrow> nat \<Rightarrow> string option \<Rightarrow> CCfgMng \<Rightarrow> cfg_db \<Rightarrow>
    (json option \<times> cfg_event list \<times> CCfgMng \<times> cfg_db) option" where
  "CfgRecTcpProtocolMsg parse_json u32Cmd pData s db = (case pData of
     None \<Rightarrow> Some (None, [], s, db)
   | Some req \<Rightarrow>
       if u32Cmd = 0x11 then do {
         (j, cfg) \<leftarrow> cfg_reply (m_jRuntimeSysCfg s);
         Some (Some j, [], s\<lparr>m_jRuntimeSysCfg := cfg\<rparr>, db)}
       else if u32Cmd = 0x12 then do {
         (apps, cfg) \<leftarrow> jin ''App'' jread (m_jRuntimeSysCfg s);
         j \<leftarrow> app_reply (m_mapRuntime s) (concat (map jvalues (jvalues apps))) JNull;
         Some (Some j, [], s\<lparr>m_jRuntimeSysCfg := cfg\<rparr>, db)}
       else if u32Cmd = 0x13 then do {
         v \<leftarrow> parse_json req;
         vs \<leftarrow> those (map flag_to_type (jvalues v));
         (s', db') \<leftarrow> RuntimeSysCfgUpdate ''App'' (JObj [(''CommSafe'', with_values v vs)]) s db;
         Some (Some reply_ok, [AppUpdate], s', db')}
       else if u32Cmd = 0x14 then do {
         v \<leftarrow> parse_json req;
         (s', db') \<leftarrow> RuntimeSysCfgUpdate ''Transfer'' v s db;
         Some (Some reply_ok, [TransUpdate, AppUpdate], s', db')}
       else if u32Cmd = 0x15 then do {
         v \<leftarrow> parse_json req;
         (s', db') \<leftarrow> RuntimeSysCfgUpdate ''Db'' v s db;
         Some (Some reply_ok, [], s', db')}
       else Some (None, [], s, db))"

end
