(* ===== verification/AppModule.thy ===== *)
theory AppModule
  imports CommSafeMng CfgMng "HOL-Library.Multiset"
begin

text \<open>
  The application manager (main/AppMng/AppModuleMng.cpp): it loads the library of every configured
  application, gathers the enabled tasks with their algorithm and their data sources, and calls the
  library's entry point, which for the safety application (app/CommSafe/ICommSafeExp.cpp) creates the
  tasks. Loading a library is an argument. \<^term>\<open>None\<close> is an exception that is not caught, or
  the call through a null pointer when a library is not there.
\<close>

section \<open>The manager\<close>

type_synonym task_cfg = "json \<times> json \<times> json list"

text \<open>The names of the loaded libraries, and the tasks gathered for each application.\<close>

record CAppModuleMng =
  am_mapDllShrPtr :: "string set"
  am_mapTaskCfg :: "string \<Rightarrow> task_cfg list"

definition new_CAppModuleMng :: CAppModuleMng where
  "new_CAppModuleMng = \<lparr>am_mapDllShrPtr = {}, am_mapTaskCfg = (\<lambda>_. [])\<rparr>"

definition LoadAppModuleDll :: "(string \<Rightarrow> bool) \<Rightarrow> string \<Rightarrow> CAppModuleMng \<Rightarrow> CAppModuleMng" where
  "LoadAppModuleDll load strModuleName s =
     (if strModuleName \<notin> am_mapDllShrPtr s \<and> load (''./lib/lib'' @ strModuleName @ ''.so'')
      then s\<lparr>am_mapDllShrPtr := insert strModuleName (am_mapDllShrPtr s)\<rparr> else s)"

definition AlgCfgMap :: "string \<Rightarrow> string" where
  "AlgCfgMap idx = (if idx = ''0'' then ''detect1'' else if idx = ''1'' then ''action1''
     else if idx = ''2'' then ''face1'' else '''')"

fun data_sources :: "cfg_map \<Rightarrow> json list \<Rightarrow> json list option" where
  "data_sources m [] = Some []"
| "data_sources m (elm # elms) = do {
     strTransId \<leftarrow> jtext ''transfer_id'' elm;
     vecDataSrcCfg \<leftarrow> data_sources m elms;
     Some (GetSysCfg strTransId m @ vecDataSrcCfg)}"

text \<open>A task with equal times is disabled; an unknown algorithm ends the gathering.\<close>

fun task_list :: "cfg_map \<Rightarrow> json list \<Rightarrow> task_cfg list option" where
  "task_list m [] = Some []"
| "task_list m (jTask # jTasks) = do {
     strStartTime \<leftarrow> jtext ''start_time'' jTask;
     strEndTime \<leftarrow> jtext ''end_time'' jTask;
     if strStartTime = strEndTime then task_list m jTasks
     else do {
       strAlg \<leftarrow> jtext ''alg_idx'' jTask;
       (case GetSysCfgFirst (AlgCfgMap strAlg) m of
          None \<Rightarrow> Some []
        | Some algCfg \<Rightarrow> do {
            jTask' \<leftarrow> jtouch ''data_src'' jTask;
            vecDataSrcCfg \<leftarrow> data_sources m (jvalues (jget ''data_src'' jTask'));
            rest \<leftarrow> task_list m jTasks;
            Some ((jTask', algCfg, vecDataSrcCfg) # rest)})}}"

definition GetAppModuleTaskLst :: "cfg_map \<Rightarrow> string \<Rightarrow> json \<Rightarrow> CAppModuleMng \<Rightarrow> CAppModuleMng option" where
  "GetAppModuleTaskLst m strAppDllName jTaskLst s = do {
     lst \<leftarrow> task_list m (jvalues jTaskLst);
     Some (s\<lparr>am_mapTaskCfg := (am_mapTaskCfg s)
       (strAppDllName := am_mapTaskCfg s strAppDllName @ lst)\<rparr>)}"

text \<open>The calls of \<open>InitModuleDll\<close>: the application, the configuration of its TCP server, its tasks.\<close>

type_synonym app_call = "string \<times> json \<times> task_cfg list"

fun start_apps :: "(string \<Rightarrow> bool) \<Rightarrow> cfg_map \<Rightarrow> json \<Rightarrow> (string \<times> json) list \<Rightarrow> CAppModuleMng \<Rightarrow>
    (app_call list \<times> CAppModuleMng) option" where
  "start_apps load m SouthTcpSvrCfg [] s = Some ([], s)"
| "start_apps load m SouthTcpSvrCfg ((strAppName, val) # apps) s = do {
     s1 \<leftarrow> GetAppModuleTaskLst m strAppName val (LoadAppModuleDll load strAppName s);
     if strAppName \<notin> am_mapDllShrPtr s1 then None
     else do {
       (inits, s2) \<leftarrow> start_apps load m SouthTcpSvrCfg apps s1;
       Some ((strAppName, SouthTcpSvrCfg, am_mapTaskCfg s1 strAppName) # inits, s2)}}"

definition StartAppModule :: "(string \<Rightarrow> bool) \<Rightarrow> cfg_map \<Rightarrow> CAppModuleMng \<Rightarrow>
    (bool \<times> app_call list \<times> CAppModuleMng) option" where
  "StartAppModule load m s = (case GetSysCfgFirst ''App'' m of
     None \<Rightarrow> Some (False, [], s)
   | Some AppCfg \<Rightarrow> (case GetSysCfgFirst ''TransferSouthTcpSvr'' m of
       None \<Rightarrow> Some (False, [], s)
     | Some SouthTcpSvrCfg \<Rightarrow> do {
         apps \<leftarrow> keyed AppCfg;
         (inits, s') \<leftarrow> start_apps load m SouthTcpSvrCfg apps (s\<lparr>am_mapTaskCfg := (\<lambda>_. [])\<rparr>);
         Some (True, inits, s')}))"

definition AppModuleUpdate :: "(string \<Rightarrow> bool) \<Rightarrow> cfg_map \<Rightarrow> CAppModuleMng \<Rightarrow>
    (app_call list \<times> CAppModuleMng) option" where
  "AppModuleUpdate load m s = map_option snd (StartAppModule load m s)"

text \<open>The entry point of the safety application.\<close>

definition InitModuleDll :: "(string \<Rightarrow> 'f list) \<Rightarrow> reg_row table \<Rightarrow> json \<times> task_cfg list \<Rightarrow>
    CCommSafeMng \<Rightarrow> (bool \<times> bus_call list \<times> CCommSafeMng) option" where
  "InitModuleDll parse regs = (\<lambda>(southCfg, lstTaskCfg). InitParams parse regs southCfg lstTaskCfg)"

section \<open>The tasks an application receives\<close>

text \<open>Declaratively: which tasks are enabled, and which have an algorithm in the configuration.\<close>

definition task_enabled :: "json \<Rightarrow> bool" where
  "task_enabled t \<longleftrightarrow> jtext ''start_time'' t \<noteq> jtext ''end_time'' t"

definition task_alg :: "cfg_map \<Rightarrow> json \<Rightarrow> json option" where
  "task_alg m t = jtext ''alg_idx'' t \<bind> (\<lambda>i. GetSysCfgFirst (AlgCfgMap i) m)"

definition task_sources :: "cfg_map \<Rightarrow> json \<Rightarrow> json list" where
  "task_sources m t = concat (map (\<lambda>e. case jtext ''transfer_id'' e of None \<Rightarrow> [] | Some i \<Rightarrow> GetSysCfg i m)
     (jvalues (jget ''data_src'' t)))"

definition with_sources :: "json \<Rightarrow> json" where
  "with_sources t = (case jtouch ''data_src'' t of None \<Rightarrow> t | Some t' \<Rightarrow> t')"

definition tasks_of :: "cfg_map \<Rightarrow> json \<Rightarrow> task_cfg list" where
  "tasks_of m v = map (\<lambda>t. (with_sources t, the (task_alg m t), task_sources m t))
     (takeWhile (\<lambda>t. task_alg m t \<noteq> None) (filter task_enabled (jvalues v)))"

lemma data_sources_eq:
  "data_sources m es = Some srcs \<Longrightarrow>
   srcs = concat (map (\<lambda>e. case jtext ''transfer_id'' e of None \<Rightarrow> [] | Some i \<Rightarrow> GetSysCfg i m) es)"
  by (induction es arbitrary: srcs) (auto split: bind_splits)

lemma jget_jtouch: "jtouch k t = Some t' \<Longrightarrow> jget k t' = jget k t"
proof (cases t)
  case (JObj m)
  assume "jtouch k t = Some t'"
  then have t': "t' = (if k \<in> fst ` set m then t else JObj (m @ [(k, JNull)]))" using JObj unfolding JObj jtouch_def json.case by (metis option.inject)
  have none: "map_of m k = None" if "k \<notin> fst ` set m" using that by (simp add: map_of_eq_None_iff)
  then have "map_of (m @ [(k, JNull)]) k = Some JNull" if "k \<notin> fst ` set m" using that by (simp add: map_add_def)
  with none show ?thesis using t' JObj by (simp add: jget_def)
qed (auto simp: jtouch_def jget_def)

lemma task_list_eq:
  "task_list m ts = Some lst \<Longrightarrow>
   lst = map (\<lambda>t. (with_sources t, the (task_alg m t), task_sources m t))
     (takeWhile (\<lambda>t. task_alg m t \<noteq> None) (filter task_enabled ts))"
proof (induction ts arbitrary: lst)
  case (Cons t ts)
  obtain a b where ab: "jtext ''start_time'' t = Some a" "jtext ''end_time'' t = Some b"
    using Cons.prems by (auto split: bind_splits)
  show ?case
  proof (cases "a = b")
    case True
    then show ?thesis using Cons ab by (simp add: task_enabled_def)
  next
    case False
    then obtain i where i: "jtext ''alg_idx'' t = Some i"
      using Cons.prems ab by (auto split: bind_splits)
    have en: "task_enabled t" using ab False by (simp add: task_enabled_def)
    show ?thesis
    proof (cases "GetSysCfgFirst (AlgCfgMap i) m")
      case None
      then show ?thesis using Cons.prems ab i False en by (simp add: task_alg_def)
    next
      case (Some alg)
      then obtain t' srcs rest where t: "jtouch ''data_src'' t = Some t'" "task_list m ts = Some rest"
          "data_sources m (jvalues (jget ''data_src'' t')) = Some srcs" "lst = (t', alg, srcs) # rest"
        using Cons.prems ab i False by (auto split: bind_splits)
      then show ?thesis
        using Cons.IH [OF t(2)] data_sources_eq [OF t(3)] jget_jtouch [OF t(1)] Some i en
        by (simp add: task_alg_def with_sources_def task_sources_def)
    qed
  qed
qed simp

lemma start_apps_eq:
  assumes "start_apps load m south apps s = Some (inits, s')" "distinct (map fst apps)"
    and "\<forall>n \<in> fst ` set apps. am_mapTaskCfg s n = []"
  shows "inits = map (\<lambda>(n, v). (n, south, tasks_of m v)) apps"
  using assms
proof (induction apps arbitrary: s inits)
  case (Cons a apps)
  obtain n v where a: "a = (n, v)" by fastforce
  let ?s = "LoadAppModuleDll load n s"
  obtain lst s1 inits' where q: "task_list m (jvalues v) = Some lst"
      "s1 = ?s\<lparr>am_mapTaskCfg := (am_mapTaskCfg ?s)(n := am_mapTaskCfg ?s n @ lst)\<rparr>"
      "start_apps load m south apps s1 = Some (inits', s')" "inits = (n, south, am_mapTaskCfg s1 n) # inits'"
    using Cons.prems(1) a by (auto simp: GetAppModuleTaskLst_def split: bind_splits if_splits)
  have same: "am_mapTaskCfg ?s = am_mapTaskCfg s" by (simp add: LoadAppModuleDll_def)
  have "inits' = map (\<lambda>(n, v). (n, south, tasks_of m v)) apps"
    using Cons.prems(2,3) a q(2) same by (intro Cons.IH [OF q(3)]) auto
  then show ?case using q(2,4) task_list_eq [OF q(1)] Cons.prems(3) a same by (simp add: tasks_of_def)
qed simp

text \<open>
  C13. Every application is called once, in the order of the names, with the configuration of the TCP
  server and with exactly its enabled tasks up to the first whose algorithm is not configured,
  each with the first configuration of its algorithm and with all data sources it names, whatever
  tasks were gathered before.
\<close>

theorem apps_get_their_tasks:
  assumes "StartAppModule load m s = Some (True, inits, s')"
    and "GetSysCfgFirst ''App'' m = Some (JObj apps)" and "distinct (map fst apps)"
  shows "\<exists>south. GetSysCfgFirst ''TransferSouthTcpSvr'' m = Some south \<and>
    inits = map (\<lambda>(n, v). (n, south, tasks_of m v)) (jitems apps)"
proof -
  obtain south where south: "GetSysCfgFirst ''TransferSouthTcpSvr'' m = Some south"
      "start_apps load m south (jitems apps) (s\<lparr>am_mapTaskCfg := (\<lambda>_. [])\<rparr>) = Some (inits, s')"
    using assms(1,2) by (auto simp: StartAppModule_def keyed_def split: bind_splits option.splits)
  have "distinct (map fst (jitems apps))"
  proof -
    have "mset (jitems apps) = mset apps" by (simp add: jitems_def)
    then show ?thesis using assms(3) by (metis mset_map mset_eq_imp_distinct_iff)
  qed
  then show ?thesis using start_apps_eq [OF south(2)] south(1) by simp
qed

section \<open>The tasks that run\<close>

definition task_key :: "task_cfg \<Rightarrow> string option" where
  "task_key v = do { tt \<leftarrow> jtext ''type'' (fst v); ti \<leftarrow> jtext ''idx'' (fst v); Some (tt @ ti)}"

definition is_detect_task :: "task_cfg \<Rightarrow> bool" where
  "is_detect_task v \<longleftrightarrow> do { at \<leftarrow> jtext ''type'' (fst (snd v)); ai \<leftarrow> jtext ''idx'' (fst (snd v));
     Some (alg_kind_of (at @ ai))} = Some DetectKind"

text \<open>A detection task runs with what was configured for it.\<close>

definition runs_task :: "task_cfg \<Rightarrow> CCommSafeDetect \<Rightarrow> bool" where
  "runs_task v d \<longleftrightarrow> dt_jTaskCfg d = fst v \<and>
     Some (dt_lstStrTask d) = map_option (\<lambda>l. strtok_text l ''|'') (jtext ''task_lst'' (fst v)) \<and>
     insert_sources (snd (snd v)) (\<lambda>_. None) = Some (dt_mapDataSrc d)"

lemma AlgInit_map:
  assumes "AlgInit new init k m = Some (out, m')"
  shows "\<exists>a b. init a = Some (out, b) \<and> map_of m' = (map_of m)(k \<mapsto> b)"
proof -
  let ?m = "if map_of m k = None then smap_insert k new m else m"
  obtain a b where ab: "map_of ?m k = Some a" "init a = Some (out, b)" "m' = smap_set k b ?m"
    using assms by (auto simp: AlgInit_def Let_def split: bind_splits)
  have "map_of m' = (map_of ?m)(k \<mapsto> b)" unfolding ab(3) by (rule map_of_smap_set [OF ab(1)])
  also have "\<dots> = (map_of m)(k \<mapsto> b)" by (simp add: map_of_smap_insert)
  finally show ?thesis using ab(2) by blast
qed

lemma DetectInit_runs: "DetectInit t alg srcs d = Some (out, d') \<Longrightarrow> runs_task (t, alg, srcs) d'"
  by (auto simp: DetectInit_def runs_task_def split: bind_splits if_splits)

lemma init_task_detect:
  assumes "init_task parse regs v s = Some (calls, s')"
  shows "if is_detect_task v
    then \<exists>k d. task_key v = Some k \<and> runs_task v d \<and>
      map_of (m_mapDetectShrPtr s') = (map_of (m_mapDetectShrPtr s))(k \<mapsto> d)
    else m_mapDetectShrPtr s' = m_mapDetectShrPtr s"
proof -
  obtain t alg srcs where v: "v = (t, alg, srcs)" by (metis prod_cases3)
  obtain at ai tt ti where j: "jtext ''type'' alg = Some at" "jtext ''idx'' alg = Some ai"
      "jtext ''type'' t = Some tt" "jtext ''idx'' t = Some ti"
    using assms by (auto simp: init_task_def v split: bind_splits)
  show ?thesis
  proof (cases "alg_kind_of (at @ ai) = DetectKind")
    case True
    then obtain m where m: "AlgInit new_CCommSafeDetect (DetectInit t alg srcs) (tt @ ti) (m_mapDetectShrPtr s) =
        Some (calls, m)" "s' = s\<lparr>m_mapDetectShrPtr := m\<rparr>"
      using assms j by (auto simp: init_task_def v split: bind_splits)
    have "is_detect_task v" "task_key v = Some (tt @ ti)" using True j by (simp_all add: is_detect_task_def task_key_def v)
    then show ?thesis using AlgInit_map [OF m(1)] DetectInit_runs m(2) unfolding v by fastforce
  next
    case False
    then show ?thesis
      using assms j by (cases "alg_kind_of (at @ ai)") (auto simp: init_task_def is_detect_task_def v split: bind_splits)
  qed
qed

lemma init_tasks_detect:
  assumes "init_tasks parse regs vs s = Some (calls, s')" "distinct (map task_key (filter is_detect_task vs))"
  shows "(\<forall>k. Some k \<notin> task_key ` set (filter is_detect_task vs) \<longrightarrow>
      map_of (m_mapDetectShrPtr s') k = map_of (m_mapDetectShrPtr s) k) \<and>
    (\<forall>v \<in> set (filter is_detect_task vs). \<exists>k d. task_key v = Some k \<and>
      map_of (m_mapDetectShrPtr s') k = Some d \<and> runs_task v d)"
  using assms
proof (induction vs arbitrary: s calls)
  case (Cons v vs)
  obtain c1 s1 c2 where q: "init_task parse regs v s = Some (c1, s1)" "init_tasks parse regs vs s1 = Some (c2, s')"
    using Cons.prems(1) by (auto split: bind_splits)
  note IH = Cons.IH [OF q(2)]
  show ?case
  proof (cases "is_detect_task v")
    case True
    then obtain k d where k: "task_key v = Some k" "runs_task v d"
        "map_of (m_mapDetectShrPtr s1) = (map_of (m_mapDetectShrPtr s))(k \<mapsto> d)"
      using init_task_detect [OF q(1)] by auto
    have "Some k \<notin> task_key ` set (filter is_detect_task vs)" using Cons.prems(2) True k(1) by force
    then have "map_of (m_mapDetectShrPtr s') k = Some d" using IH Cons.prems(2) True k(3) by auto
    then show ?thesis using IH Cons.prems(2) True k by auto
  next
    case False
    then show ?thesis using IH Cons.prems(2) init_task_detect [OF q(1)] by auto
  qed
qed simp

text \<open>
  A configuration reaches the tasks: after the safety application was called, every detection task of
  the list runs with its new configuration, its labels and its data sources; and every task that was
  running and is not in the list goes on unchanged, since nothing ever removes it.
\<close>

theorem config_reaches_tasks:
  assumes "InitModuleDll parse regs (south, lst) s = Some (ok, calls, s')"
    and "distinct (map task_key (filter is_detect_task lst))"
  shows "(\<forall>v \<in> set (filter is_detect_task lst). \<exists>k d. task_key v = Some k \<and>
      map_of (m_mapDetectShrPtr s') k = Some d \<and> runs_task v d) \<and>
    (\<forall>k. Some k \<notin> task_key ` set (filter is_detect_task lst) \<longrightarrow>
      map_of (m_mapDetectShrPtr s') k = map_of (m_mapDetectShrPtr s) k)"
proof -
  obtain calls' where "init_tasks parse regs lst (s\<lparr>cs_has_bus := True\<rparr>) = Some (calls', s')"
    using assms(1) by (auto simp: InitModuleDll_def InitParams_def split: bind_splits)
  from init_tasks_detect [OF this assms(2)] show ?thesis by simp
qed

section \<open>A concrete configuration\<close>

definition demo_task :: "string \<Rightarrow> string \<Rightarrow> string \<Rightarrow> json" where
  "demo_task i st en = JObj [(''type'', JStr ''CommSafe''), (''idx'', JStr i), (''start_time'', JStr st), (''end_time'', JStr en),
     (''alg_idx'', JStr ''0''), (''task_lst'', JStr ''0|23''), (''data_src'', JArr [JObj [(''transfer_id'', JStr ''cam1'')]])]"

definition demo_alg :: json where
  "demo_alg = JObj [(''type'', JStr ''detect''), (''idx'', JStr ''1'')]"

definition demo_apps :: "(string \<times> json) list" where
  "demo_apps = [(''CommSafe'', JArr [demo_task ''1'' ''8'' ''18'', demo_task ''2'' ''0'' ''0'', demo_task ''3'' ''8'' ''9''])]"

definition demo_cfg :: cfg_map where
  "demo_cfg = [''App'' \<mapsto> [JObj demo_apps], ''TransferSouthTcpSvr'' \<mapsto> [JObj [(''port'', JStr ''9000'')]],
     ''detect1'' \<mapsto> [demo_alg], ''cam1'' \<mapsto> [JObj [(''ip'', JStr ''10.0.0.1'')]]]"

theorem apps_get_their_tasks_witness:
  "\<exists>inits s'. StartAppModule (\<lambda>_. True) demo_cfg new_CAppModuleMng = Some (True, inits, s') \<and>
     map (\<lambda>(n, south, lst). (n, map fst lst)) inits = [(''CommSafe'', [demo_task ''1'' ''8'' ''18'', demo_task ''3'' ''8'' ''9''])]"
proof -
  have "map_option fst (StartAppModule (\<lambda>_. True) demo_cfg new_CAppModuleMng) = Some True" by code_simp
  then obtain inits s' where run: "StartAppModule (\<lambda>_. True) demo_cfg new_CAppModuleMng = Some (True, inits, s')" by auto
  have "GetSysCfgFirst ''App'' demo_cfg = Some (JObj demo_apps)" "distinct (map fst demo_apps)"
    by (simp_all add: GetSysCfgFirst_def demo_cfg_def demo_apps_def)
  then obtain south where "inits = map (\<lambda>(n, v). (n, south, tasks_of demo_cfg v)) (jitems demo_apps)"
    using apps_get_their_tasks [OF run] by blast
  moreover have "map (\<lambda>(n, v). (n, map fst (tasks_of demo_cfg v))) (jitems demo_apps) =
      [(''CommSafe'', [demo_task ''1'' ''8'' ''18'', demo_task ''3'' ''8'' ''9''])]" by code_simp
  ultimately show ?thesis using run by (auto simp: comp_def case_prod_beta)
qed

theorem config_reaches_tasks_witness:
  "\<exists>d. map_option (\<lambda>(ok, calls, s'). (map_of (m_mapDetectShrPtr s') ''CommSafe1'', map_of (m_mapDetectShrPtr s') ''CommSafe7''))
     (InitModuleDll (\<lambda>_. [] :: nat list) empty_table (JObj [(''port'', JStr ''9000'')], [(demo_task ''1'' ''8'' ''18'', demo_alg, [])])
       \<lparr>cs_has_bus = False, m_mapDetectShrPtr = [(''CommSafe7'', new_CCommSafeDetect)], m_mapFaceShrPtr = []\<rparr>) =
     Some (Some d, Some new_CCommSafeDetect) \<and> dt_lstStrTask d = [''0'', ''23'']"
proof -
  let ?v = "(demo_task ''1'' ''8'' ''18'', demo_alg, [])"
  let ?s = "\<lparr>cs_has_bus = False, m_mapDetectShrPtr = [(''CommSafe7'', new_CCommSafeDetect)], m_mapFaceShrPtr = []\<rparr>"
  let ?r = "InitModuleDll (\<lambda>_. [] :: nat list) empty_table (JObj [(''port'', JStr ''9000'')], [?v]) ?s"
  have "map_option fst ?r = Some True" by code_simp
  then obtain calls s' where run: "?r = Some (True, calls, s')" by auto
  have v: "is_detect_task ?v" "task_key ?v = Some ''CommSafe1''" by code_simp+
  then have "\<exists>d. map_of (m_mapDetectShrPtr s') ''CommSafe1'' = Some d \<and> runs_task ?v d"
    and "map_of (m_mapDetectShrPtr s') ''CommSafe7'' = map_of (m_mapDetectShrPtr ?s) ''CommSafe7''"
    using config_reaches_tasks [OF run] by auto
  moreover have "strtok_text ''0|23'' ''|'' = [''0'', ''23'']" by code_simp
  ultimately show ?thesis using run by (auto simp: runs_task_def demo_task_def jtext_def)
qed

end
