(* ===== verification/AlgModule.thy ===== *)
theory AlgModule
  imports CfgTables
begin

text \<open>
  The algorithm manager (main/AlgMng/AlgModuleMng.cpp): it loads the library of every enabled algorithm
  and calls its entry point. Loading is an argument; the entry point works on the state \<open>'w\<close> of
  the libraries and returns whether it succeeded. \<^term>\<open>None\<close> is an exception of the JSON library,
  which nobody catches.
\<close>

section \<open>The manager\<close>

text \<open>The names of the loaded libraries, and the calls of the entry points with their results.\<close>

record 'w alg_state =
  al_mapDllShrPtr :: "string set"
  al_world :: 'w
  al_calls :: "(string \<times> bool) list"

definition LoadAlgModule :: "(string \<Rightarrow> bool) \<Rightarrow> string \<Rightarrow> 'w alg_state \<Rightarrow> bool \<times> 'w alg_state" where
  "LoadAlgModule load strModuleDllName s =
     (if load (''./lib/lib'' @ strModuleDllName)
      then (True, s\<lparr>al_mapDllShrPtr := insert strModuleDllName (al_mapDllShrPtr s)\<rparr>) else (False, s))"

definition InitAlgModule :: "(string \<Rightarrow> json \<times> json \<times> json \<Rightarrow> 'w \<Rightarrow> bool \<times> 'w) \<Rightarrow> string \<Rightarrow> json \<Rightarrow> json \<Rightarrow> json \<Rightarrow>
    'w alg_state \<Rightarrow> 'w alg_state" where
  "InitAlgModule init strModuleName algCfg tranferCfg dbCfg s =
     (if strModuleName \<in> al_mapDllShrPtr s then
        (let (bRet, w) = init strModuleName (algCfg, tranferCfg, dbCfg) (al_world s);
             s1 = s\<lparr>al_world := w, al_calls := al_calls s @ [(strModuleName, bRet)]\<rparr> in
         if bRet then s1 else s1\<lparr>al_mapDllShrPtr := al_mapDllShrPtr s1 - {strModuleName}\<rparr>)
      else s)"

definition dll_name :: "json \<Rightarrow> string option" where
  "dll_name elm = do {
     n \<leftarrow> jtext ''name'' elm;
     v \<leftarrow> jtext ''version'' elm;
     Some (n @ ''.so'' @ v)}"

fun alg_elms :: "(string \<Rightarrow> bool) \<Rightarrow> (string \<Rightarrow> json \<times> json \<times> json \<Rightarrow> 'w \<Rightarrow> bool \<times> 'w) \<Rightarrow> json \<Rightarrow> json \<Rightarrow> json list \<Rightarrow>
    'w alg_state \<Rightarrow> 'w alg_state option" where
  "alg_elms load init tranferCfg dbCfg [] s = Some s"
| "alg_elms load init tranferCfg dbCfg (elm # elms) s = do {
     strEnable \<leftarrow> jtext ''enable'' elm;
     if strEnable = ''0'' then alg_elms load init tranferCfg dbCfg elms s
     else do {
       strDllName \<leftarrow> dll_name elm;
       let (ok, s1) = LoadAlgModule load strDllName s in
       if \<not> ok then alg_elms load init tranferCfg dbCfg elms s1
       else alg_elms load init tranferCfg dbCfg elms (InitAlgModule init strDllName elm tranferCfg dbCfg s1)}}"

fun alg_nodes :: "(string \<Rightarrow> bool) \<Rightarrow> (string \<Rightarrow> json \<times> json \<times> json \<Rightarrow> 'w \<Rightarrow> bool \<times> 'w) \<Rightarrow> json \<Rightarrow> json \<Rightarrow> (string \<times> json) list \<Rightarrow>
    'w alg_state \<Rightarrow> 'w alg_state option" where
  "alg_nodes load init tranferCfg dbCfg [] s = Some s"
| "alg_nodes load init tranferCfg dbCfg ((strSubNode, elms) # nodes) s = do {
     s1 \<leftarrow> alg_elms load init tranferCfg dbCfg (jvalues elms) s;
     alg_nodes load init tranferCfg dbCfg nodes s1}"

definition LoadAndInitAlgModule :: "(string \<Rightarrow> bool) \<Rightarrow> (string \<Rightarrow> json \<times> json \<times> json \<Rightarrow> 'w \<Rightarrow> bool \<times> 'w) \<Rightarrow>
    json \<times> json \<times> json \<Rightarrow> 'w alg_state \<Rightarrow> 'w alg_state option" where
  "LoadAndInitAlgModule load init = (\<lambda>(algCfg, tranferCfg, dbCfg) s. do {
     nodes \<leftarrow> keyed algCfg;
     alg_nodes load init tranferCfg dbCfg nodes s})"

definition StartAlgModule :: "(string \<Rightarrow> bool) \<Rightarrow> (string \<Rightarrow> json \<times> json \<times> json \<Rightarrow> 'w \<Rightarrow> bool \<times> 'w) \<Rightarrow> cfg_map \<Rightarrow>
    'w alg_state \<Rightarrow> (bool \<times> 'w alg_state) option" where
  "StartAlgModule load init m s = (case GetSysCfgFirst ''Alg'' m of
     None \<Rightarrow> Some (False, s)
   | Some algCfg \<Rightarrow> (case GetSysCfgFirst ''Transfer'' m of
       None \<Rightarrow> Some (False, s)
     | Some tranferCfg \<Rightarrow> (case GetSysCfgFirst ''Db'' m of
         None \<Rightarrow> Some (False, s)
       | Some dbCfg \<Rightarrow> map_option (Pair True) (LoadAndInitAlgModule load init (algCfg, tranferCfg, dbCfg) s))))"

section \<open>Which libraries stay loaded\<close>

text \<open>The libraries whose entry point is called: enabled and loadable, in the order of the configuration.\<close>

definition called_dlls :: "(string \<Rightarrow> bool) \<Rightarrow> json list \<Rightarrow> string list" where
  "called_dlls load es = filter (\<lambda>n. load (''./lib/lib'' @ n))
     (map (\<lambda>e. the (dll_name e)) (filter (\<lambda>e. jtext ''enable'' e \<noteq> Some ''0'') es))"

text \<open>A library is loaded when its last call succeeded, or, without a call, when it was loaded before.\<close>

definition loaded_after :: "(string \<times> bool) list \<Rightarrow> string set \<Rightarrow> string set" where
  "loaded_after log S = {n. case map_of (rev log) n of None \<Rightarrow> n \<in> S | Some r \<Rightarrow> r}"

lemma loaded_after_Nil [simp]: "loaded_after [] S = S"
  by (simp add: loaded_after_def)

lemma loaded_after_append: "loaded_after (l @ l') S = loaded_after l' (loaded_after l S)"
proof (rule set_eqI)
  fix n
  show "n \<in> loaded_after (l @ l') S \<longleftrightarrow> n \<in> loaded_after l' (loaded_after l S)"
    by (cases "map_of (rev l') n") (simp_all only: loaded_after_def mem_Collect_eq rev_append map_of_append map_add_def option.case)
qed

lemma loaded_after_one: "loaded_after [(n, r)] S = (if r then insert n S else S - {n})"
  by (auto simp: loaded_after_def split: if_splits)

text \<open>One enabled and loadable algorithm.\<close>

lemma init_one:
  assumes "LoadAlgModule load n s = (True, s1)"
  shows "\<exists>r. al_calls (InitAlgModule init n a t d s1) = al_calls s @ [(n, r)] \<and>
    al_mapDllShrPtr (InitAlgModule init n a t d s1) = loaded_after [(n, r)] (al_mapDllShrPtr s)"
proof -
  have s1: "s1 = s\<lparr>al_mapDllShrPtr := insert n (al_mapDllShrPtr s)\<rparr>"
    using assms unfolding LoadAlgModule_def by (metis prod.inject)
  obtain r w where "init n (a, t, d) (al_world s) = (r, w)" by fastforce
  then show ?thesis unfolding s1 by (intro exI [of _ r]) (simp add: InitAlgModule_def loaded_after_one)
qed

definition alg_effect :: "string list \<Rightarrow> 'w alg_state \<Rightarrow> 'w alg_state \<Rightarrow> bool" where
  "alg_effect ns s s' \<longleftrightarrow> (\<exists>log. al_calls s' = al_calls s @ log \<and> map fst log = ns \<and>
     al_mapDllShrPtr s' = loaded_after log (al_mapDllShrPtr s))"

lemma alg_effect_refl: "alg_effect [] s s"
  by (simp add: alg_effect_def)

lemma alg_effect_trans: "alg_effect ns s s1 \<Longrightarrow> alg_effect ns' s1 s2 \<Longrightarrow> alg_effect (ns @ ns') s s2"
  unfolding alg_effect_def by (metis append.assoc loaded_after_append map_append)

lemma alg_elms_effect: "alg_elms load init t d es s = Some s' \<Longrightarrow> alg_effect (called_dlls load es) s s'"
proof (induction es arbitrary: s)
  case (Cons e es)
  obtain en where en: "jtext ''enable'' e = Some en" using Cons.prems by (auto split: bind_splits)
  show ?case
  proof (cases "en = ''0''")
    case True
    then show ?thesis using Cons en by (simp add: called_dlls_def)
  next
    case False
    then obtain n where n: "dll_name e = Some n" using Cons.prems en by (auto split: bind_splits)
    obtain ok s1 where l: "LoadAlgModule load n s = (ok, s1)" by fastforce
    have ok: "ok = load (''./lib/lib'' @ n)" "\<not> ok \<Longrightarrow> s1 = s" using l by (auto simp: LoadAlgModule_def split: if_splits)
    show ?thesis
    proof (cases ok)
      case True
      then obtain r where "al_calls (InitAlgModule init n e t d s1) = al_calls s @ [(n, r)]"
          "al_mapDllShrPtr (InitAlgModule init n e t d s1) = loaded_after [(n, r)] (al_mapDllShrPtr s)"
        using init_one [of load n s s1 init e t d] l True by auto
      then have "alg_effect [n] s (InitAlgModule init n e t d s1)" by (auto simp: alg_effect_def)
      moreover have "alg_effect (called_dlls load es) (InitAlgModule init n e t d s1) s'"
        using Cons en \<open>en \<noteq> ''0''\<close> n l True by simp
      moreover have "called_dlls load (e # es) = [n] @ called_dlls load es"
        using True ok(1) n en \<open>en \<noteq> ''0''\<close> by (simp add: called_dlls_def)
      ultimately show ?thesis using alg_effect_trans by metis
    next
      case no: False
      then have "called_dlls load (e # es) = called_dlls load es"
        using ok(1) n en \<open>en \<noteq> ''0''\<close> by (simp add: called_dlls_def)
      then show ?thesis using Cons en \<open>en \<noteq> ''0''\<close> n l no ok(2) by simp
    qed
  qed
qed (simp add: called_dlls_def alg_effect_refl)

lemma called_dlls_append: "called_dlls load (es @ es') = called_dlls load es @ called_dlls load es'"
  by (simp add: called_dlls_def)

lemma alg_nodes_effect:
  "alg_nodes load init t d nodes s = Some s' \<Longrightarrow>
   alg_effect (called_dlls load (concat (map (\<lambda>p. jvalues (snd p)) nodes))) s s'"
proof (induction nodes arbitrary: s)
  case (Cons p nodes)
  obtain n v s1 where "p = (n, v)" "alg_elms load init t d (jvalues v) s = Some s1"
      "alg_nodes load init t d nodes s1 = Some s'"
    using Cons.prems by (cases p) (auto split: bind_splits)
  then show ?case using alg_elms_effect Cons.IH alg_effect_trans by (fastforce simp: called_dlls_append)
qed (simp add: called_dlls_def alg_effect_refl)

text \<open>
  The entry point of every enabled algorithm whose library loads is called once, in the order of the
  configuration, and afterwards a library is loaded exactly when its last call succeeded or,
  without a call, when it was loaded before; so one failing algorithm unloads the library of
  the others that share it.
\<close>

theorem alg_libraries:
  assumes "StartAlgModule load init m s = Some (True, s')" and "GetSysCfgFirst ''Alg'' m = Some (JObj nodes)"
  shows "\<exists>log. al_calls s' = al_calls s @ log \<and>
    map fst log = called_dlls load (concat (map (\<lambda>p. jvalues (snd p)) (jitems nodes))) \<and>
    al_mapDllShrPtr s' = {n. case map_of (rev log) n of None \<Rightarrow> n \<in> al_mapDllShrPtr s | Some r \<Rightarrow> r}"
proof -
  obtain t d where "alg_nodes load init t d (jitems nodes) s = Some s'"
    using assms by (auto simp: StartAlgModule_def LoadAndInitAlgModule_def keyed_def split: option.splits)
  from alg_nodes_effect [OF this] show ?thesis by (simp add: alg_effect_def loaded_after_def)
qed

text \<open>Two algorithms in one library: the second fails, and the library goes away.\<close>

definition demo_algs :: "(string \<times> json) list" where
  "demo_algs = [(''Detect'', JArr [JObj [(''enable'', JStr ''1''), (''name'', JStr ''Vision''), (''version'', JStr ''.1'')],
     JObj [(''enable'', JStr ''0'')], JObj [(''enable'', JStr ''1''), (''name'', JStr ''Vision''), (''version'', JStr ''.1'')]])]"

lemma demo_algs_start:
  "\<exists>s'. StartAlgModule (\<lambda>_. True) (\<lambda>n j w. (w, False))
     [''Alg'' \<mapsto> [JObj demo_algs], ''Transfer'' \<mapsto> [JNull], ''Db'' \<mapsto> [JNull]]
     \<lparr>al_mapDllShrPtr = {}, al_world = True, al_calls = []\<rparr> = Some (True, s')"
proof -
  have "jitems demo_algs = demo_algs" by code_simp
  then show ?thesis
    by (simp add: StartAlgModule_def GetSysCfgFirst_def LoadAndInitAlgModule_def keyed_def)
      (simp add: demo_algs_def jvalues_def jtext_def dll_name_def LoadAlgModule_def InitAlgModule_def)
qed

lemma demo_algs_found:
  "GetSysCfgFirst ''Alg'' [''Alg'' \<mapsto> [JObj demo_algs], ''Transfer'' \<mapsto> [JNull], ''Db'' \<mapsto> [JNull]] = Some (JObj demo_algs)"
  by (simp add: GetSysCfgFirst_def)

lemma demo_algs_called:
  "called_dlls (\<lambda>_. True) (concat (map (\<lambda>p. jvalues (snd p)) (jitems demo_algs))) = [''Vision.so.1'', ''Vision.so.1'']"
  by code_simp

theorem alg_libraries_witness:
  "\<exists>s'. StartAlgModule (\<lambda>_. True) (\<lambda>n j w. (w, False))
     [''Alg'' \<mapsto> [JObj demo_algs], ''Transfer'' \<mapsto> [JNull], ''Db'' \<mapsto> [JNull]]
     \<lparr>al_mapDllShrPtr = {}, al_world = True, al_calls = []\<rparr> = Some (True, s') \<and>
     map fst (al_calls s') = [''Vision.so.1'', ''Vision.so.1'']"
  using demo_algs_start
  apply (elim exE)
  apply (frule alg_libraries [OF _ demo_algs_found])
  apply (elim exE conjE)
  apply (rule exI, rule conjI, assumption)
  apply (simp only: alg_state.select_convs append_Nil demo_algs_called)
  done

end
