(* ===== verification/MsgBus.thy ===== *)
theory MsgBus
  imports Prelude "HOL-Library.List_Lexorder" "HOL-Library.Char_ord" "HOL-Library.Sublist"
begin

text \<open>
  The message bus (common/template/msgbus/MessageBus.h) over the any type (comm/Any.h). A handler
  is stored under the topic followed by the name of its function type; a request calls, in
  the order they were attached, the handlers stored under its own topic and type. The handlers are
  values of any type here, \<open>tn\<close> is the library's \<open>typeid(...).name()\<close>.
\<close>

section \<open>Any\<close>

text \<open>A value with its type; casting to another type throws.\<close>

record ('t, 'h) any =
  m_ptr :: 'h
  m_tpIndex :: 't

definition AnyCast :: "'t \<Rightarrow> ('t, 'h) any \<Rightarrow> 'h option" where
  "AnyCast U a = (if m_tpIndex a = U then Some (m_ptr a) else None)"

section \<open>The bus\<close>

text \<open>A multimap: sorted by key, equal keys in the order of insertion.\<close>

type_synonym ('t, 'h) bus = "(string \<times> ('t, 'h) any) list"

fun bus_emplace :: "string \<Rightarrow> ('t, 'h) any \<Rightarrow> ('t, 'h) bus \<Rightarrow> ('t, 'h) bus" where
  "bus_emplace k a [] = [(k, a)]"
| "bus_emplace k a ((k', a') # m) = (if k < k' then (k, a) # (k', a') # m else (k', a') # bus_emplace k a m)"

definition equal_range :: "string \<Rightarrow> ('t, 'h) bus \<Rightarrow> ('t, 'h) bus" where
  "equal_range k m = filter (\<lambda>e. fst e = k) m"

definition Attach :: "('t \<Rightarrow> string) \<Rightarrow> 't \<Rightarrow> string \<Rightarrow> 'h \<Rightarrow> ('t, 'h) bus \<Rightarrow> ('t, 'h) bus" where
  "Attach tn ty strTopic f m = bus_emplace (strTopic @ tn ty) \<lparr>m_ptr = f, m_tpIndex = ty\<rparr> m"

text \<open>The handlers called, and whether none of the casts threw.\<close>

fun call_range :: "'t \<Rightarrow> ('t, 'h) bus \<Rightarrow> 'h list \<times> bool" where
  "call_range ty [] = ([], True)"
| "call_range ty ((k, a) # m) = (case AnyCast ty a of
     None \<Rightarrow> ([], False)
   | Some f \<Rightarrow> (let (fs, ok) = call_range ty m in (f # fs, ok)))"

definition SendReq :: "('t \<Rightarrow> string) \<Rightarrow> 't \<Rightarrow> string \<Rightarrow> ('t, 'h) bus \<Rightarrow> 'h list \<times> bool" where
  "SendReq tn ty strTopic m = call_range ty (equal_range (strTopic @ tn ty) m)"

definition BusRemove :: "('t \<Rightarrow> string) \<Rightarrow> 't \<Rightarrow> string \<Rightarrow> ('t, 'h) bus \<Rightarrow> ('t, 'h) bus" where
  "BusRemove tn ty strTopic m = filter (\<lambda>e. fst e \<noteq> strTopic @ tn ty) m"

section \<open>What the bus promises\<close>

text \<open>The abstract bus: the handlers of every topic and type, in the order they were attached.\<close>

type_synonym ('t, 'h) subscriptions = "string \<times> 't \<Rightarrow> 'h list"

datatype ('t, 'h) bus_op = OpAttach string 't 'h | OpRemove string 't

fun bus_run :: "('t \<Rightarrow> string) \<Rightarrow> ('t, 'h) bus_op list \<Rightarrow> ('t, 'h) bus \<Rightarrow> ('t, 'h) bus" where
  "bus_run tn [] m = m"
| "bus_run tn (OpAttach p ty f # ops) m = bus_run tn ops (Attach tn ty p f m)"
| "bus_run tn (OpRemove p ty # ops) m = bus_run tn ops (BusRemove tn ty p m)"

fun subs_run :: "('t, 'h) bus_op list \<Rightarrow> ('t, 'h) subscriptions \<Rightarrow> ('t, 'h) subscriptions" where
  "subs_run [] s = s"
| "subs_run (OpAttach p ty f # ops) s = subs_run ops (s((p, ty) := s (p, ty) @ [f]))"
| "subs_run (OpRemove p ty # ops) s = subs_run ops (s((p, ty) := []))"

text \<open>
  No type name ends with another one: then a topic followed by a type name can be read in one way
  only.
\<close>

definition names_ok :: "('t \<Rightarrow> string) \<Rightarrow> bool" where
  "names_ok tn \<longleftrightarrow> (\<forall>t t'. suffix (tn t) (tn t') \<longrightarrow> t = t')"

lemma names_ok_key:
  assumes "names_ok tn" "p @ tn t = p' @ tn t'"
  shows "p = p' \<and> t = t'"
proof -
  have "suffix (tn t) (tn t') \<or> suffix (tn t') (tn t)"
    using assms(2) suffix_same_cases [of "tn t" "p @ tn t" "tn t'"] by (metis suffixI)
  then have "t = t'" using assms(1) unfolding names_ok_def by blast
  then show ?thesis using assms(2) by simp
qed

definition bus_sorted :: "('t, 'h) bus \<Rightarrow> bool" where
  "bus_sorted m \<longleftrightarrow> sorted (map fst m)"

lemma bus_emplace_set: "set (bus_emplace k a m) = insert (k, a) (set m)"
  by (induction k a m rule: bus_emplace.induct) auto

lemma bus_emplace_sorted: "bus_sorted m \<Longrightarrow> bus_sorted (bus_emplace k a m)"
proof (induction k a m rule: bus_emplace.induct)
  case (2 k a k' a' m)
  then show ?case by (fastforce simp: bus_sorted_def bus_emplace_set)
qed (simp add: bus_sorted_def)

lemma equal_range_emplace:
  assumes "bus_sorted m"
  shows "equal_range k' (bus_emplace k a m) = equal_range k' m @ (if k' = k then [(k, a)] else [])"
  using assms
proof (induction k a m rule: bus_emplace.induct)
  case (2 k a k2 a2 m)
  have "equal_range k m = []" if "k < k2"
    using "2.prems" that by (fastforce simp: equal_range_def bus_sorted_def filter_empty_conv)
  moreover have "bus_sorted m" using "2.prems" by (simp add: bus_sorted_def)
  ultimately show ?case using "2.IH" by (auto simp: equal_range_def)
qed (simp add: equal_range_def)

text \<open>A bus that represents given subscriptions.\<close>

definition bus_rep :: "('t \<Rightarrow> string) \<Rightarrow> ('t, 'h) bus \<Rightarrow> ('t, 'h) subscriptions \<Rightarrow> bool" where
  "bus_rep tn m s \<longleftrightarrow> bus_sorted m \<and>
     (\<forall>p ty. equal_range (p @ tn ty) m = map (\<lambda>f. (p @ tn ty, \<lparr>m_ptr = f, m_tpIndex = ty\<rparr>)) (s (p, ty)))"

lemma bus_rep_empty: "bus_rep tn [] (\<lambda>_. [])"
  by (simp add: bus_rep_def bus_sorted_def equal_range_def)

lemma bus_rep_Attach:
  assumes "names_ok tn" "bus_rep tn m s"
  shows "bus_rep tn (Attach tn ty p f m) (s((p, ty) := s (p, ty) @ [f]))"
  using assms names_ok_key [OF assms(1)] unfolding bus_rep_def Attach_def
  by (auto simp: bus_emplace_sorted equal_range_emplace)

lemma bus_rep_Remove:
  assumes "names_ok tn" "bus_rep tn m s"
  shows "bus_rep tn (BusRemove tn ty p m) (s((p, ty) := []))"
proof -
  have "bus_sorted (BusRemove tn ty p m)"
    using assms(2) unfolding bus_rep_def bus_sorted_def BusRemove_def by (simp add: sorted_filter)
  moreover have "equal_range (p' @ tn ty') (BusRemove tn ty p m) =
      (if p' = p \<and> ty' = ty then [] else equal_range (p' @ tn ty') m)" for p' ty'
    using names_ok_key [OF assms(1), of p' ty' p ty]
    by (auto simp: equal_range_def BusRemove_def filter_empty_conv intro!: filter_cong)
  ultimately show ?thesis using assms(2) by (auto simp: bus_rep_def)
qed

lemma bus_rep_run: "names_ok tn \<Longrightarrow> bus_rep tn m s \<Longrightarrow> bus_rep tn (bus_run tn ops m) (subs_run ops s)"
proof (induction ops arbitrary: m s)
  case (Cons oper ops)
  then show ?case by (cases oper) (simp_all add: bus_rep_Attach bus_rep_Remove)
qed simp

lemma call_range_map: "call_range ty (map (\<lambda>f. (k, \<lparr>m_ptr = f, m_tpIndex = ty\<rparr>)) fs) = (fs, True)"
  by (induction fs) (simp_all add: AnyCast_def)

lemma SendReq_rep: "bus_rep tn m s \<Longrightarrow> SendReq tn ty p m = (s (p, ty), True)"
  by (simp add: bus_rep_def SendReq_def call_range_map)

text \<open>
  C12. The bus delivers: whatever was attached and removed before, a request calls exactly the
  handlers of its topic and function type that are attached, in the order they were attached, and
  no cast throws, provided no type name ends with another one.
\<close>

theorem bus_delivers:
  assumes "names_ok tn"
  shows "SendReq tn ty p (bus_run tn ops []) = (subs_run ops (\<lambda>_. []) (p, ty), True)"
  by (rule SendReq_rep [OF bus_rep_run [OF assms bus_rep_empty]])

text \<open>Two types with names of one letter.\<close>

definition demo_names :: "bool \<Rightarrow> string" where
  "demo_names b = (if b then ''v'' else ''i'')"

theorem bus_delivers_witness:
  "SendReq demo_names True ''port'' (bus_run demo_names [OpAttach ''port'' True (1::nat), OpAttach ''port'' False 2,
     OpAttach ''port'' True 3, OpRemove ''x'' True] []) = ([1, 3], True)"
proof -
  have "names_ok demo_names" by (auto simp: names_ok_def demo_names_def suffix_def split: if_splits)
  then show ?thesis by (subst bus_delivers) simp_all
qed

end
