(* ===== verification/Base64.thy ===== *)
theory Base64
  imports ByteOrder
begin

text \<open>
  Base64, \<open>CBase64\<close> (src/common/cmmobj/endecode/Base64.cpp). \<open>Data\<close> is the caller's array with
  the pointer as an index; every access to it and to the two tables is checked.
\<close>

unbundle bit_operations_syntax

definition EncodeTable :: "byte list" where
  "EncodeTable = [
     65, 66, 67, 68, 69, 70, 71, 72, 73, 74, 75, 76, 77, 78, 79, 80,
     81, 82, 83, 84, 85, 86, 87, 88, 89, 90, 97, 98, 99, 100, 101, 102,
     103, 104, 105, 106, 107, 108, 109, 110, 111, 112, 113, 114, 115, 116, 117, 118,
     119, 120, 121, 122, 48, 49, 50, 51, 52, 53, 54, 55, 56, 57, 43, 47]"

definition enc_char :: "u32 \<Rightarrow> byte option" where
  "enc_char i = get EncodeTable (uint i)"

section \<open>Encode\<close>

definition byte_at :: "byte list \<Rightarrow> nat \<Rightarrow> u32 option" where
  "byte_at Data p = map_option ucast (get Data (int p))"

text \<open>The loop over whole triples: pointer, remaining turns, text so far.\<close>

fun Encode_loop :: "byte list \<Rightarrow> nat \<Rightarrow> nat \<Rightarrow> byte list \<Rightarrow> byte list option" where
  "Encode_loop Data p 0 s = Some s"
| "Encode_loop Data p (Suc k) s = do {
     t1 \<leftarrow> byte_at Data p;
     t2 \<leftarrow> byte_at Data (p + 1);
     t3 \<leftarrow> byte_at Data (p + 2);
     c1 \<leftarrow> enc_char (drop_bit 2 t1);
     c2 \<leftarrow> enc_char ((push_bit 4 t1 OR drop_bit 4 t2) AND 0x3F);
     c3 \<leftarrow> enc_char ((push_bit 2 t2 OR drop_bit 6 t3) AND 0x3F);
     c4 \<leftarrow> enc_char (t3 AND 0x3F);
     Encode_loop Data (p + 3) k (s @ [c1, c2, c3, c4])
   }"

text \<open>\<open>DataByte / 3\<close> and \<open>DataByte % 3\<close> truncate towards zero.\<close>

definition Encode :: "byte list \<Rightarrow> int \<Rightarrow> byte list option" where
  "Encode Data DataByte = do {
     let k = (if DataByte < 0 then 0 else nat (DataByte div 3));
     let md = (if DataByte < 0 then - (- DataByte mod 3) else DataByte mod 3);
     s \<leftarrow> Encode_loop Data 0 k [];
     if md = 1 then do {
       t1 \<leftarrow> byte_at Data (3 * k);
       c1 \<leftarrow> enc_char (drop_bit 2 (t1 AND 0xFC));
       c2 \<leftarrow> enc_char (push_bit 4 (t1 AND 0x03));
       Some (s @ [c1, c2, 61, 61])
     } else if md = 2 then do {
       t1 \<leftarrow> byte_at Data (3 * k);
       t2 \<leftarrow> byte_at Data (3 * k + 1);
       c1 \<leftarrow> enc_char (drop_bit 2 (t1 AND 0xFC));
       c2 \<leftarrow> enc_char (push_bit 4 (t1 AND 0x03) OR drop_bit 4 (t2 AND 0xF0));
       c3 \<leftarrow> enc_char (push_bit 2 (t2 AND 0x0F));
       Some (s @ [c1, c2, c3, 61])
     } else Some s
   }"

section \<open>Decode\<close>

definition DecodeTable :: "u32 list" where
  "DecodeTable = [
     0, 0, 0, 0, 0, 0, 0, 0, 0, 0, 0, 0, 0, 0, 0, 0, 0, 0, 0, 0, 0, 0, 0, 0, 0, 0, 0, 0, 0, 0,
     0, 0, 0, 0, 0, 0, 0, 0, 0, 0, 0, 0, 0, 62, 0, 0, 0, 63, 52, 53, 54, 55, 56, 57, 58, 59,
     60, 61, 0, 0, 0, 0, 0, 0, 0, 0, 1, 2, 3, 4, 5, 6, 7, 8, 9, 10, 11, 12, 13, 14, 15, 16, 17,
     18, 19, 20, 21, 22, 23, 24, 25, 0, 0, 0, 0, 0, 0, 26, 27, 28, 29, 30, 31, 32, 33, 34, 35,
     36, 37, 38, 39, 40, 41, 42, 43, 44, 45, 46, 47, 48, 49, 50, 51]"

text \<open>A character is not below zero here: a negative index is outside the table as well.\<close>

definition dec_char :: "byte \<Rightarrow> u32 option" where
  "dec_char c = get DecodeTable (uint c)"

text \<open>\<open>p\<close> is the pointer \<open>Data\<close>, \<open>i\<close> the count; after padding they differ.\<close>

function Decode_loop :: "byte list \<Rightarrow> int \<Rightarrow> nat \<Rightarrow> int \<Rightarrow> byte list \<Rightarrow> int \<Rightarrow> (byte list \<times> int) option" where
  "Decode_loop Data DataByte p i s OutByte =
     (if i < DataByte then do {
        c \<leftarrow> get Data (int p);
        if c \<noteq> 13 \<and> c \<noteq> 10 then do {
          v1 \<leftarrow> dec_char c;
          c2 \<leftarrow> get Data (int p + 1);
          v2 \<leftarrow> dec_char c2;
          let v = push_bit 18 v1 + push_bit 12 v2;
          let s = s @ [ucast (drop_bit 16 (v AND 0x00FF0000))];
          c3 \<leftarrow> get Data (int p + 2);
          if c3 \<noteq> 61 then do {
            v3 \<leftarrow> dec_char c3;
            let v = v + push_bit 6 v3;
            let s = s @ [ucast (drop_bit 8 (v AND 0x0000FF00))];
            c4 \<leftarrow> get Data (int p + 3);
            if c4 \<noteq> 61 then do {
              v4 \<leftarrow> dec_char c4;
              let v = v + v4;
              Decode_loop Data DataByte (p + 4) (i + 4) (s @ [ucast (v AND 0x000000FF)]) (OutByte + 3)
            } else Decode_loop Data DataByte (p + 3) (i + 4) s (OutByte + 2)
          } else Decode_loop Data DataByte (p + 2) (i + 4) s (OutByte + 1)
        } else Decode_loop Data DataByte (p + 1) (i + 1) s OutByte
      } else Some (s, OutByte))"
  by pat_completeness auto
termination
  by (relation "measure (\<lambda>(d, n, p, i, s, k). nat (n - i))") auto

declare Decode_loop.simps [simp del]

definition Decode :: "byte list \<Rightarrow> int \<Rightarrow> int \<Rightarrow> (byte list \<times> int) option" where
  "Decode Data DataByte OutByte = Decode_loop Data DataByte 0 0 [] OutByte"

section \<open>Specification\<close>

text \<open>Six bits of a text, and the groups of characters.\<close>

definition sextet :: "u32 \<Rightarrow> byte" where
  "sextet i = EncodeTable ! unat i"

definition sext1 :: "byte \<Rightarrow> u32" where "sext1 a = drop_bit 2 (ucast a)"
definition sext2 :: "byte \<Rightarrow> byte \<Rightarrow> u32" where
  "sext2 a b = (push_bit 4 (ucast a) OR drop_bit 4 (ucast b)) AND 0x3F"
definition sext3 :: "byte \<Rightarrow> byte \<Rightarrow> u32" where
  "sext3 b c = (push_bit 2 (ucast b) OR drop_bit 6 (ucast c)) AND 0x3F"
definition sext4 :: "byte \<Rightarrow> u32" where "sext4 c = ucast c AND 0x3F"

fun base64 :: "byte list \<Rightarrow> byte list" where
  "base64 (a # b # c # r) = sextet (sext1 a) # sextet (sext2 a b) # sextet (sext3 b c) # sextet (sext4 c) # base64 r"
| "base64 [a, b] = [sextet (sext1 a), sextet (sext2 a b), sextet (sext3 b 0), 61]"
| "base64 [a] = [sextet (sext1 a), sextet (sext2 a 0), 61, 61]"
| "base64 [] = []"

lemma mask6: "(0x3F :: u32) = mask 6" by (simp add: mask_eq_exp_minus_1)
lemma mask8: "(0xFF :: u32) = mask 8" "(0xFF00 :: u32) = push_bit 8 (mask 8)"
  "(0xFF0000 :: u32) = push_bit 16 (mask 8)"
  by (simp_all add: mask_eq_exp_minus_1)

lemma bit_sext:
  "bit (sext1 a) n \<longleftrightarrow> n < 6 \<and> bit a (n + 2)"
  "bit (sext2 a b) n \<longleftrightarrow> n < 6 \<and> (if n < 4 then bit b (n + 4) else bit a (n - 4))"
  "bit (sext3 b c) n \<longleftrightarrow> n < 6 \<and> (if n < 2 then bit c (n + 6) else bit b (n - 2))"
  "bit (sext4 c) n \<longleftrightarrow> n < 6 \<and> bit c n"
  by (auto simp: sext1_def sext2_def sext3_def sext4_def mask6 bit_simps byte_bit_ge not_less
      add.commute dest: bit_imp_le_length)

lemma lt64: "(\<And>n. bit (x :: u32) n \<Longrightarrow> n < 6) \<Longrightarrow> x < 64"
proof -
  assume b: "\<And>n. bit x n \<Longrightarrow> n < 6"
  have "take_bit 6 x = x" by (rule bit_word_eqI) (auto simp: bit_simps dest: b)
  then have "unat x = take_bit 6 (unat x)" by (metis unsigned_take_bit_eq)
  then have "unat x < 64" using take_bit_nat_less_exp [of 6 "unat x"] by simp
  then show "x < 64" by (simp add: word_less_nat_alt)
qed

lemma sext_lt: "sext1 a < 64" "sext2 a b < 64" "sext3 b c < 64" "sext4 c < 64"
  by (rule lt64, simp add: bit_sext)+

lemma enc_char_sextet: "i < 64 \<Longrightarrow> enc_char i = Some (sextet i)"
  by (simp add: enc_char_def sextet_def get_def EncodeTable_def word_less_def nat_uint_eq)

definition sextets :: "u32 list" where
  "sextets = [0, 1, 2, 3, 4, 5, 6, 7, 8, 9, 10, 11, 12, 13, 14, 15, 16, 17, 18, 19, 20, 21, 22, 23, 24, 25, 26, 27, 28, 29, 30, 31, 32, 33, 34, 35, 36, 37, 38, 39, 40, 41, 42, 43, 44, 45, 46, 47, 48, 49, 50, 51, 52, 53, 54, 55, 56, 57, 58, 59, 60, 61, 62, 63]"

lemma sextet_range: "i < 64 \<Longrightarrow> i \<in> set sextets"
proof -
  assume "i < 64"
  then have "unat i < 64" by (simp add: word_less_nat_alt)
  then have "i \<in> word_of_nat ` {..<64}" by (auto intro: image_eqI [of _ _ "unat i"])
  also have "\<dots> = set sextets" by (simp add: sextets_def lessThan_nat_numeral lessThan_Suc) blast
  finally show ?thesis .
qed

lemma dec_char_all: "list_all (\<lambda>i. dec_char (sextet i) = Some i \<and> sextet i \<noteq> 61 \<and> sextet i \<noteq> 13 \<and> sextet i \<noteq> 10) sextets"
  by (simp add: sextets_def dec_char_def sextet_def EncodeTable_def DecodeTable_def get_def)

lemma dec_char_sextet:
  assumes "i < 64"
  shows "dec_char (sextet i) = Some i" "sextet i \<noteq> 61" "sextet i \<noteq> 13" "sextet i \<noteq> 10"
  using dec_char_all sextet_range [OF assms] by (auto simp: list_all_iff)

text \<open>Putting the sextets together again.\<close>

lemma pack_or:
  "push_bit 18 (sext1 a) + push_bit 12 (sext2 a b) = push_bit 18 (sext1 a) OR push_bit 12 (sext2 a b)"
  "push_bit 18 (sext1 a) + push_bit 12 (sext2 a b) + push_bit 6 (sext3 b c) =
   push_bit 18 (sext1 a) OR push_bit 12 (sext2 a b) OR push_bit 6 (sext3 b c)"
  "push_bit 18 (sext1 a) + push_bit 12 (sext2 a b) + push_bit 6 (sext3 b c) + sext4 c =
   push_bit 18 (sext1 a) OR push_bit 12 (sext2 a b) OR push_bit 6 (sext3 b c) OR sext4 c"
proof -
  show 1: "push_bit 18 (sext1 a) + push_bit 12 (sext2 a b) = push_bit 18 (sext1 a) OR push_bit 12 (sext2 a b)"
    by (rule disjunctive_add) (auto simp: bit_simps bit_sext)
  show 2: "push_bit 18 (sext1 a) + push_bit 12 (sext2 a b) + push_bit 6 (sext3 b c) =
      push_bit 18 (sext1 a) OR push_bit 12 (sext2 a b) OR push_bit 6 (sext3 b c)"
    unfolding 1 or.assoc [symmetric] by (rule disjunctive_add) (auto simp: bit_simps bit_sext)
  show "push_bit 18 (sext1 a) + push_bit 12 (sext2 a b) + push_bit 6 (sext3 b c) + sext4 c =
      push_bit 18 (sext1 a) OR push_bit 12 (sext2 a b) OR push_bit 6 (sext3 b c) OR sext4 c"
    unfolding 2 or.assoc [symmetric] by (rule disjunctive_add) (auto simp: bit_simps bit_sext)
qed

lemma unpack:
  "ucast (drop_bit 16 ((push_bit 18 (sext1 a) + push_bit 12 (sext2 a b)) AND 0xFF0000)) = a"
  "ucast (drop_bit 8 ((push_bit 18 (sext1 a) + push_bit 12 (sext2 a b) + push_bit 6 (sext3 b c)) AND 0xFF00)) = b"
  "ucast ((push_bit 18 (sext1 a) + push_bit 12 (sext2 a b) + push_bit 6 (sext3 b c) + sext4 c) AND 0xFF) = c"
proof -
  have n2: "Suc (Suc (n - 2)) = n" if "2 \<le> n" for n using that by simp
  show "ucast (drop_bit 16 ((push_bit 18 (sext1 a) + push_bit 12 (sext2 a b)) AND 0xFF0000)) = a"
    unfolding pack_or(1) mask8
    by (rule bit_word_eqI) (auto simp: bit_simps bit_sext n2 not_less split: if_splits)
  show "ucast (drop_bit 8 ((push_bit 18 (sext1 a) + push_bit 12 (sext2 a b) + push_bit 6 (sext3 b c)) AND 0xFF00)) = b"
    unfolding pack_or(2) mask8
    by (rule bit_word_eqI) (auto simp: bit_simps bit_sext n2 not_less split: if_splits)
  show "ucast ((push_bit 18 (sext1 a) + push_bit 12 (sext2 a b) + push_bit 6 (sext3 b c) + sext4 c) AND 0xFF) = c"
    unfolding pack_or(3) mask8
    by (rule bit_word_eqI) (auto simp: bit_simps bit_sext n2 not_less split: if_splits)
qed


lemmas unpack_simps = unpack [simplified]

lemma get_drop: "drop p D = x # r \<Longrightarrow> get D (int p) = Some x"
proof -
  assume d: "drop p D = x # r"
  then have "p < length D" by (cases "p < length D") simp_all
  then show ?thesis using d hd_drop_conv_nth [of p D] by (simp add: get_nat)
qed

lemma drop_step: "drop p D = x # r \<Longrightarrow> drop (Suc p) D = r"
  using drop_Suc [of p D] by (metis drop_drop list.sel(3) drop_Suc drop0 plus_1_eq_Suc)

section \<open>Encode computes the specification\<close>

lemma tail_sextets:
  "drop_bit 2 (ucast a AND 0xFC) = sext1 a"
  "push_bit 4 (ucast a AND 0x03) = sext2 a 0"
  "push_bit 4 (ucast a AND 0x03) OR drop_bit 4 (ucast b AND 0xF0) = sext2 a b"
  "push_bit 2 (ucast b AND 0x0F) = sext3 b 0"
proof -
  have m: "(0xFC :: u32) = push_bit 2 (mask 6)" "(0x03 :: u32) = mask 2" "(0xF0 :: u32) = push_bit 4 (mask 4)"
    "(0x0F :: u32) = mask 4" by (simp_all add: mask_eq_exp_minus_1)
  have n2: "Suc (Suc (n - 2)) = n" if "2 \<le> n" for n using that by simp
  show "drop_bit 2 (ucast a AND 0xFC) = sext1 a"
    unfolding m by (rule bit_word_eqI) (auto simp: bit_simps bit_sext byte_bit_ge not_less)
  show "push_bit 4 (ucast a AND 0x03) = sext2 a 0"
    unfolding m by (rule bit_word_eqI) (auto simp: bit_simps bit_sext byte_bit_ge not_less)
  show "push_bit 4 (ucast a AND 0x03) OR drop_bit 4 (ucast b AND 0xF0) = sext2 a b"
    unfolding m by (rule bit_word_eqI) (auto simp: bit_simps bit_sext byte_bit_ge not_less add.commute)
  show "push_bit 2 (ucast b AND 0x0F) = sext3 b 0"
    unfolding m by (rule bit_word_eqI) (auto simp: bit_simps bit_sext byte_bit_ge not_less)
qed

lemmas tail_simps = tail_sextets [simplified]

lemma tail_second: "sext2 a 0 OR (drop_bit 4 (ucast b) AND 0x0F) = sext2 a b"
proof -
  have m: "(0x0F :: u32) = mask 4" by (simp add: mask_eq_exp_minus_1)
  show ?thesis
    unfolding m by (rule bit_word_eqI) (auto simp: bit_simps bit_sext byte_bit_ge not_less add.commute)
qed

lemma byte_at_nth: "p < length D \<Longrightarrow> byte_at D p = Some (ucast (D ! p))"
  by (simp add: byte_at_def get_nat)

lemma base64_append: "3 dvd length xs \<Longrightarrow> base64 (xs @ ys) = base64 xs @ base64 ys"
proof (induction xs rule: base64.induct)
  case (1 a b c r)
  from 1(2) have "3 dvd length r" by (simp, presburger)
  then show ?case using 1(1) by simp
next
  case (2 a b)
  then have False by (simp, presburger)
  then show ?case ..
next
  case (3 a)
  then have False by simp
  then show ?case ..
qed simp

lemma three_nth:
  "p + 3 \<le> length D \<Longrightarrow> drop p D = D ! p # D ! Suc p # D ! Suc (Suc p) # drop (p + 3) D"
  by (simp add: Cons_nth_drop_Suc numeral_3_eq_3)

lemma Encode_loop_spec:
  "p + 3 * k \<le> length D \<Longrightarrow> Encode_loop D p k s = Some (s @ base64 (take (3 * k) (drop p D)))"
proof (induction k arbitrary: p s)
  case (Suc k)
  let ?a = "D ! p" and ?b = "D ! Suc p" and ?c = "D ! Suc (Suc p)"
  have d: "take (3 * Suc k) (drop p D) = ?a # ?b # ?c # take (3 * k) (drop (p + 3) D)"
  proof -
    have "3 * Suc k = Suc (Suc (Suc (3 * k)))" by simp
    then show ?thesis using three_nth [of p D] Suc.prems by (simp only:) simp
  qed
  have e: "enc_char (drop_bit 2 (ucast ?a)) = Some (sextet (sext1 ?a))"
    "enc_char ((push_bit 4 (ucast ?a) OR drop_bit 4 (ucast ?b)) AND 0x3F) = Some (sextet (sext2 ?a ?b))"
    "enc_char ((push_bit 2 (ucast ?b) OR drop_bit 6 (ucast ?c)) AND 0x3F) = Some (sextet (sext3 ?b ?c))"
    "enc_char (ucast ?c AND 0x3F) = Some (sextet (sext4 ?c))"
    using sext_lt enc_char_sextet by (simp_all only: sext1_def [symmetric] sext2_def [symmetric]
        sext3_def [symmetric] sext4_def [symmetric])
  show ?case
    unfolding d using Suc by (simp only: Encode_loop.simps) (simp add: byte_at_nth e)
qed simp

lemma short_lists: "length xs = 1 \<Longrightarrow> \<exists>a. xs = [a]" "length xs = 2 \<Longrightarrow> \<exists>a b. xs = [a, b]"
  by (auto simp: length_Suc_conv numeral_2_eq_2)

lemma Encode_base64: "Encode D (int (length D)) = Some (base64 D)"
proof -
  obtain k m where l: "length D = 3 * k + m" and m3: "m < 3"
    by (metis mult_div_mod_eq mod_less_divisor zero_less_numeral)
  have lp: "Encode_loop D 0 k [] = Some (base64 (take (3 * k) D))"
    using Encode_loop_spec [of 0 k D "[]"] l by simp
  have b: "base64 D = base64 (take (3 * k) D) @ base64 (drop (3 * k) D)"
    using base64_append [of "take (3 * k) D" "drop (3 * k) D"] by (simp add: l)
  have km: "(3 * int k + int m) div 3 = int k" "(3 * int k + int m) mod 3 = int m" using m3 by simp_all
  note e = enc_char_sextet [OF sext_lt(1)] enc_char_sextet [OF sext_lt(2)] enc_char_sextet [OF sext_lt(3)]
  note En = Encode_def l of_nat_add of_nat_mult of_nat_numeral km Let_def nat_int lp
  consider "m = 0" | "m = 1" | "m = 2" using m3 by linarith
  then show ?thesis
  proof cases
    case 1
    then have t: "take (3 * k) D = D" using l by simp
    show ?thesis using 1 unfolding En by (simp add: lp t)
  next
    case 2
    then have "length (drop (3 * k) D) = 1" using l by simp
    then obtain a where a: "drop (3 * k) D = [a]" using short_lists(1) by blast
    then have "byte_at D (3 * k) = Some (ucast a)" using get_drop [OF a] by (simp add: byte_at_def)
    then show ?thesis using 2 b unfolding En by (simp add: lp tail_simps tail_second e a)
  next
    case 3
    then have "length (drop (3 * k) D) = 2" using l by simp
    then obtain a c where a: "drop (3 * k) D = [a, c]" using short_lists(2) by blast
    then have "byte_at D (3 * k) = Some (ucast a)" "byte_at D (3 * k + 1) = Some (ucast c)"
      using get_drop [OF a] get_drop [OF drop_step [OF a]] by (simp_all add: byte_at_def add.commute)
    then show ?thesis using 3 b unfolding En by (simp add: lp tail_simps tail_second e a)
  qed
qed

section \<open>Decode undoes it, also across line breaks\<close>

lemma Decode_group:
  assumes d: "drop p D = base64 [a, b, c] @ rest" and i: "i < n"
  shows "Decode_loop D n p i s k = Decode_loop D n (p + 4) (i + 4) (s @ [a, b, c]) (k + 3)"
proof -
  let ?x = "[sextet (sext1 a), sextet (sext2 a b), sextet (sext3 b c), sextet (sext4 c)]"
  have d0: "drop p D = ?x ! 0 # ?x ! 1 # ?x ! 2 # ?x ! 3 # rest" using d by simp
  note d1 = drop_step [OF d0] note d2 = drop_step [OF d1] note d3 = drop_step [OF d2]
  have g: "get D (int p) = Some (sextet (sext1 a))" "get D (int p + 1) = Some (sextet (sext2 a b))"
    "get D (int p + 2) = Some (sextet (sext3 b c))" "get D (int p + 3) = Some (sextet (sext4 c))"
    using get_drop [OF d0] get_drop [OF d1] get_drop [OF d2] get_drop [OF d3]
    by (simp_all add: add.commute)
  note t = dec_char_sextet [OF sext_lt(1)] dec_char_sextet [OF sext_lt(2)]
    dec_char_sextet [OF sext_lt(3)] dec_char_sextet [OF sext_lt(4)]
  show ?thesis
    using i by (subst Decode_loop.simps) (simp add: g t unpack_simps Let_def)
qed

lemma Decode_newline:
  assumes d: "drop p D = x # rest" and x: "x = 13 \<or> x = 10" and i: "i < n"
  shows "Decode_loop D n p i s k = Decode_loop D n (p + 1) (i + 1) s k"
  using i get_drop [OF d] x by (subst Decode_loop.simps) auto

lemma Decode_triples:
  "3 dvd length r \<Longrightarrow> drop p D = base64 r @ rest \<Longrightarrow> i + int (length (base64 r)) \<le> n \<Longrightarrow>
   Decode_loop D n p i s k =
     Decode_loop D n (p + length (base64 r)) (i + int (length (base64 r))) (s @ r) (k + int (length r))"
proof (induction r arbitrary: p i s k rule: base64.induct)
  case (1 a b c r)
  from "1.prems"(1) have dv: "3 dvd length r" by (simp, presburger)
  have d: "drop p D = base64 [a, b, c] @ base64 r @ rest" using "1.prems"(2) by simp
  have d': "drop (p + 4) D = base64 r @ rest"
    using arg_cong [OF d, of "drop 4"] by (simp add: add.commute)
  have i: "i < n" using "1.prems"(3) by simp
  show ?case
    using Decode_group [OF d i, of s k] "1.IH" [OF dv d', of "i + 4" "s @ [a, b, c]" "k + 3"] "1.prems"(3)
    by (simp add: add.assoc eval_nat_numeral)
next
  case (2 a b)
  then have False by (simp, presburger)
  then show ?case ..
qed auto

lemma Decode_newlines:
  "\<forall>x \<in> set nl. x = 13 \<or> x = 10 \<Longrightarrow> drop p D = nl @ rest \<Longrightarrow> i + int (length nl) \<le> n \<Longrightarrow>
   Decode_loop D n p i s k = Decode_loop D n (p + length nl) (i + int (length nl)) s k"
proof (induction nl arbitrary: p i)
  case (Cons x nl)
  then have d: "drop p D = x # nl @ rest" by simp
  have "Decode_loop D n p i s k = Decode_loop D n (p + 1) (i + 1) s k"
    by (rule Decode_newline [OF d]) (use Cons.prems in auto)
  also have "\<dots> = Decode_loop D n (p + 1 + length nl) (i + 1 + int (length nl)) s k"
    by (rule Cons.IH) (use Cons.prems drop_step [OF d] in auto)
  finally show ?case by (simp add: add.assoc)
qed simp

text \<open>The last group may be short.\<close>

lemma Decode_last:
  assumes d: "drop p D = base64 r" and r: "length r < 3" and n: "n = i + int (length (base64 r))"
  shows "Decode_loop D n p i s k = Some (s @ r, k + int (length r))"
proof -
  note t = dec_char_sextet [OF sext_lt(1)] dec_char_sextet [OF sext_lt(2)] dec_char_sextet [OF sext_lt(3)]
  consider "r = []" | a where "r = [a]" | a b where "r = [a, b]"
    using r by (cases r rule: base64.cases) auto
  then show ?thesis
  proof cases
    case 1
    then show ?thesis using n by (simp add: Decode_loop.simps)
  next
    case 2
    then have d0: "drop p D = sextet (sext1 a) # sextet (sext2 a 0) # 61 # [61]" using d by simp
    note d1 = drop_step [OF d0] note d2 = drop_step [OF d1]
    have g: "get D (int p) = Some (sextet (sext1 a))" "get D (int p + 1) = Some (sextet (sext2 a 0))"
      "get D (int p + 2) = Some 61"
      using get_drop [OF d0] get_drop [OF d1] get_drop [OF d2] by (simp_all add: add.commute)
    have "Decode_loop D n p i s k = Decode_loop D n (p + 2) (i + 4) (s @ [a]) (k + 1)"
      using n 2 by (subst Decode_loop.simps) (simp add: g t unpack_simps Let_def)
    then show ?thesis using n 2 by (simp add: Decode_loop.simps)
  next
    case 3
    then have d0: "drop p D = sextet (sext1 a) # sextet (sext2 a b) # sextet (sext3 b 0) # [61]" using d by simp
    note d1 = drop_step [OF d0] note d2 = drop_step [OF d1] note d3 = drop_step [OF d2]
    have g: "get D (int p) = Some (sextet (sext1 a))" "get D (int p + 1) = Some (sextet (sext2 a b))"
      "get D (int p + 2) = Some (sextet (sext3 b 0))" "get D (int p + 3) = Some 61"
      using get_drop [OF d0] get_drop [OF d1] get_drop [OF d2] get_drop [OF d3]
      by (simp_all add: add.commute)
    have "Decode_loop D n p i s k = Decode_loop D n (p + 3) (i + 4) (s @ [a, b]) (k + 2)"
      using n 3 by (subst Decode_loop.simps) (simp add: g t unpack_simps Let_def)
    then show ?thesis using n 3 by (simp add: Decode_loop.simps)
  qed
qed


section \<open>Properties\<close>

text \<open>A text in lines: every line but the last holds whole triples and ends in a line break.\<close>

fun folded :: "(byte list \<times> byte list) list \<Rightarrow> byte list \<Rightarrow> byte list" where
  "folded [] r = base64 r"
| "folded ((l, nl) # ls) r = base64 l @ nl @ folded ls r"

lemma base64_split: "\<exists>u v. r = u @ v \<and> 3 dvd length u \<and> length v < 3"
proof -
  let ?k = "3 * (length r div 3)"
  have "?k \<le> length r" "length r - ?k < 3" by (simp_all add: minus_mult_div_eq_mod)
  then show ?thesis by (intro exI [of _ "take ?k r"] exI [of _ "drop ?k r"]) simp
qed

lemma Decode_folded:
  "\<forall>(l, nl) \<in> set ls. 3 dvd length l \<and> (\<forall>x \<in> set nl. x = 13 \<or> x = 10) \<Longrightarrow> drop p D = folded ls r \<Longrightarrow>
   n = i + int (length (folded ls r)) \<Longrightarrow>
   Decode_loop D n p i s k =
     Some (s @ concat (map fst ls) @ r, k + int (length (concat (map fst ls) @ r)))"
proof (induction ls arbitrary: p i s k)
  case Nil
  obtain u v where r: "r = u @ v" "3 dvd length u" "length v < 3" using base64_split by blast
  have b: "base64 r = base64 u @ base64 v" using r base64_append by simp
  have "Decode_loop D n p i s k =
      Decode_loop D n (p + length (base64 u)) (i + int (length (base64 u))) (s @ u) (k + int (length u))"
    by (rule Decode_triples [OF r(2), of p D "base64 v"]) (use Nil b in auto)
  also have "\<dots> = Some ((s @ u) @ v, k + int (length u) + int (length v))"
  proof (rule Decode_last [OF _ r(3)])
    show "drop (p + length (base64 u)) D = base64 v"
      using Nil(2) b by (metis add.commute append_eq_conv_conj drop_drop folded.simps(1))
    show "n = i + int (length (base64 u)) + int (length (base64 v))" using Nil(3) b by simp
  qed
  finally show ?case using r(1) by simp
next
  case (Cons l ls)
  obtain a nl where l: "l = (a, nl)" by force
  have a: "3 dvd length a" "\<forall>x \<in> set nl. x = 13 \<or> x = 10" using Cons.prems(1) l by auto
  have d: "drop p D = base64 a @ nl @ folded ls r" using Cons.prems(2) l by simp
  have d1: "drop (p + length (base64 a)) D = nl @ folded ls r"
    using d by (metis add.commute append_eq_conv_conj drop_drop)
  have d2: "drop (p + length (base64 a) + length nl) D = folded ls r"
    using d1 by (metis add.commute append_eq_conv_conj drop_drop)
  have "Decode_loop D n p i s k =
      Decode_loop D n (p + length (base64 a)) (i + int (length (base64 a))) (s @ a) (k + int (length a))"
    by (rule Decode_triples [OF a(1) d]) (use Cons.prems(3) l in simp)
  also have "\<dots> = Decode_loop D n (p + length (base64 a) + length nl)
      (i + int (length (base64 a)) + int (length nl)) (s @ a) (k + int (length a))"
    by (rule Decode_newlines [OF a(2) d1]) (use Cons.prems(3) l in simp)
  also have "\<dots> = Some ((s @ a) @ concat (map fst ls) @ r,
      k + int (length a) + int (length (concat (map fst ls) @ r)))"
    by (rule Cons.IH [OF _ d2]) (use Cons.prems(1,3) l in auto)
  finally show ?case using l by simp
qed

text \<open>
  C14. \<open>Decode\<close> inverts \<open>Encode\<close>: a text encoded in one piece, or in lines that hold whole triples
  and are separated by any carriage returns and line feeds, decodes to the bytes, the
  counter \<open>OutByte\<close> grows by their number, and neither function leaves its arrays.
\<close>

theorem base64_roundtrip:
  assumes "\<forall>(l, nl) \<in> set ls. 3 dvd length l \<and> (\<forall>x \<in> set nl. x = 13 \<or> x = 10)"
  shows "\<exists>txts last. map (\<lambda>(l, nl). Encode l (int (length l))) ls = map Some txts \<and>
    Encode r (int (length r)) = Some last \<and>
    (let D = concat (map2 (\<lambda>t (l, nl). t @ nl) txts ls) @ last;
         out = concat (map fst ls) @ r
     in Decode D (int (length D)) k = Some (out, k + int (length out)))"
proof -
  have "concat (map2 (\<lambda>t (l, nl). t @ nl) (map (\<lambda>(l, nl). base64 l) ls) ls) @ base64 r = folded ls r"
    by (induction ls) auto
  moreover have "Decode (folded ls r) (int (length (folded ls r))) k =
      Some (concat (map fst ls) @ r, k + int (length (concat (map fst ls) @ r)))"
    using Decode_folded [OF assms, of 0 "folded ls r" r _ 0 "[]" k] by (simp add: Decode_def)
  ultimately show ?thesis
    by (intro exI [of _ "map (\<lambda>(l, nl). base64 l) ls"] exI [of _ "base64 r"])
      (auto simp: Encode_base64 Let_def)
qed

theorem base64_roundtrip_witness:
  "\<exists>txts last. map (\<lambda>(l, nl). Encode l (int (length l))) [([1, 2, 3], [13, 10 :: byte])] = map Some txts \<and>
    Encode [4, 5] (int (length [4, 5 :: byte])) = Some last \<and>
    (let D = concat (map2 (\<lambda>t (l, nl). t @ nl) txts [([1, 2, 3 :: byte], [13, 10])]) @ last;
         out = concat (map fst [([1, 2, 3], [13, 10 :: byte])]) @ [4, 5]
     in Decode D (int (length D)) 0 = Some (out, 0 + int (length out)))"
  by (rule base64_roundtrip) (simp add: numeral_3_eq_3)

text \<open>
  A flaw of \<open>Decode\<close>: it counts the padding but does not step over it, so a line break
  behind a padded text (as most encoders write) yields three extra zero bytes.
\<close>

theorem base64_padded_newline:
  "\<exists>txt. Encode [a] 1 = Some txt \<and> Decode (txt @ [13, 10]) 6 0 = Some ([a, 0, 0, 0], 4)"
proof -
  let ?D = "base64 [a] @ [13, 10]"
  note t = dec_char_sextet [OF sext_lt(1)] dec_char_sextet [OF sext_lt(2)]
  have g: "get ?D 0 = Some (sextet (sext1 a))" "get ?D 1 = Some (sextet (sext2 a 0))" "get ?D 2 = Some 61"
    "get ?D 3 = Some 61" "get ?D 4 = Some 13" "get ?D 5 = Some 10" "get ?D 6 = None"
    by (simp_all add: get_def)
  have z: "dec_char 61 = Some 0" "dec_char 13 = Some 0" "dec_char 10 = Some 0"
    by (simp_all add: dec_char_def DecodeTable_def get_def)
  have "Decode_loop ?D 6 0 0 [] 0 = Decode_loop ?D 6 (Suc (Suc 0)) 4 [a] 1"
    by (subst Decode_loop.simps) (simp add: g [simplified] t unpack_simps Let_def)
  also have "\<dots> = Decode_loop ?D 6 6 8 [a, 0, 0, 0] 4"
    by (subst Decode_loop.simps) (simp add: g [simplified] z Let_def)
  also have "\<dots> = Some ([a, 0, 0, 0], 4)" by (subst Decode_loop.simps) simp
  finally show ?thesis using Encode_base64 [of "[a]"] by (simp add: Decode_def)
qed

end
