(* ===== verification/Des.thy ===== *)
theory Des
  imports Prelude
begin

text \<open>
  DES and two-key triple DES (src/common/cmmobj/comm/Des.h). A bit is a byte that is 0 or 1, as
  in the code; a bit array is a list of such bytes.

  The loops of \<open>DES_ROL\<close> and \<open>DES_ROR\<close> run one step too far: they read the cell
  behind, respectively before, the 56-byte array of the caller and overwrite what they read
  at once. That neighbouring cell is the parameter \<open>junk\<close> (one value per turn); the
  theorems hold whatever it contains. The scratch array \<open>copyRight\<close> is 48 bytes long, of
  which \<open>DES_E_Transform\<close> reads the 32 that were copied in; the model passes those.
\<close>

unbundle bit_operations_syntax

section \<open>Tables\<close>

definition S :: "byte list list list" where
  "S = [
      [[14, 4, 13, 1, 2, 15, 11, 8, 3, 10, 6, 12, 5, 9, 0, 7],
       [0, 15, 7, 4, 14, 2, 13, 1, 10, 6, 12, 11, 9, 5, 3, 8],
       [4, 1, 14, 8, 13, 6, 2, 11, 15, 12, 9, 7, 3, 10, 5, 0],
       [15, 12, 8, 2, 4, 9, 1, 7, 5, 11, 3, 14, 10, 0, 6, 13]],
      [[15, 1, 8, 14, 6, 11, 3, 4, 9, 7, 2, 13, 12, 0, 5, 10],
       [3, 13, 4, 7, 15, 2, 8, 14, 12, 0, 1, 10, 6, 9, 11, 5],
       [0, 14, 7, 11, 10, 4, 13, 1, 5, 8, 12, 6, 9, 3, 2, 15],
       [13, 8, 10, 1, 3, 15, 4, 2, 11, 6, 7, 12, 0, 5, 14, 9]],
      [[10, 0, 9, 14, 6, 3, 15, 5, 1, 13, 12, 7, 11, 4, 2, 8],
       [13, 7, 0, 9, 3, 4, 6, 10, 2, 8, 5, 14, 12, 11, 15, 1],
       [13, 6, 4, 9, 8, 15, 3, 0, 11, 1, 2, 12, 5, 10, 14, 7],
       [1, 10, 13, 0, 6, 9, 8, 7, 4, 15, 14, 3, 11, 5, 2, 12]],
      [[7, 13, 14, 3, 0, 6, 9, 10, 1, 2, 8, 5, 11, 12, 4, 15],
       [13, 8, 11, 5, 6, 15, 0, 3, 4, 7, 2, 12, 1, 10, 14, 9],
       [10, 6, 9, 0, 12, 11, 7, 13, 15, 1, 3, 14, 5, 2, 8, 4],
       [3, 15, 0, 6, 10, 1, 13, 8, 9, 4, 5, 11, 12, 7, 2, 14]]]"

definition S1 :: "byte list list list" where
  "S1 = [
      [[2, 12, 4, 1, 7, 10, 11, 6, 8, 5, 3, 15, 13, 0, 14, 9],
       [14, 11, 2, 12, 4, 7, 13, 1, 5, 0, 15, 10, 3, 9, 8, 6],
       [4, 2, 1, 11, 10, 13, 7, 8, 15, 9, 12, 5, 6, 3, 0, 14],
       [11, 8, 12, 7, 1, 14, 2, 13, 6, 15, 0, 9, 10, 4, 5, 3]],
      [[12, 1, 10, 15, 9, 2, 6, 8, 0, 13, 3, 4, 14, 7, 5, 11],
       [10, 15, 4, 2, 7, 12, 9, 5, 6, 1, 13, 14, 0, 11, 3, 8],
       [9, 14, 15, 5, 2, 8, 12, 3, 7, 0, 4, 10, 1, 13, 11, 6],
       [4, 3, 2, 12, 9, 5, 15, 10, 11, 14, 1, 7, 6, 0, 8, 13]],
      [[4, 11, 2, 14, 15, 0, 8, 13, 3, 12, 9, 7, 5, 10, 6, 1],
       [13, 0, 11, 7, 4, 9, 1, 10, 14, 3, 5, 12, 2, 15, 8, 6],
       [1, 4, 11, 13, 12, 3, 7, 14, 10, 15, 6, 8, 0, 5, 9, 2],
       [6, 11, 13, 8, 1, 4, 10, 7, 9, 5, 0, 15, 14, 2, 3, 12]],
      [[13, 2, 8, 4, 6, 15, 11, 1, 10, 9, 3, 14, 5, 0, 12, 7],
       [1, 15, 13, 8, 10, 3, 7, 4, 12, 5, 6, 11, 0, 14, 9, 2],
       [7, 11, 4, 1, 9, 12, 14, 2, 0, 6, 10, 13, 15, 3, 5, 8],
       [2, 1, 14, 7, 4, 10, 8, 13, 15, 12, 9, 0, 3, 5, 6, 11]]]"

definition PC_1 :: "nat list" where
  "PC_1 = [
     56, 48, 40, 32, 24, 16, 8,
     0, 57, 49, 41, 33, 25, 17,
     9, 1, 58, 50, 42, 34, 26,
     18, 10, 2, 59, 51, 43, 35,
     62, 54, 46, 38, 30, 22, 14,
     6, 61, 53, 45, 37, 29, 21,
     13, 5, 60, 52, 44, 36, 28,
     20, 12, 4, 27, 19, 11, 3]"

definition PC_2 :: "nat list" where
  "PC_2 = [
     13, 16, 10, 23, 0, 4, 2, 27,
     14, 5, 20, 9, 22, 18, 11, 3,
     25, 7, 15, 6, 26, 19, 12, 1,
     40, 51, 30, 36, 46, 54, 29, 39,
     50, 44, 32, 47, 43, 48, 38, 55,
     33, 52, 45, 41, 49, 35, 28, 31]"

definition IP_Table :: "nat list" where
  "IP_Table = [
     57, 49, 41, 33, 25, 17, 9, 1,
     59, 51, 43, 35, 27, 19, 11, 3,
     61, 53, 45, 37, 29, 21, 13, 5,
     63, 55, 47, 39, 31, 23, 15, 7,
     56, 48, 40, 32, 24, 16, 8, 0,
     58, 50, 42, 34, 26, 18, 10, 2,
     60, 52, 44, 36, 28, 20, 12, 4,
     62, 54, 46, 38, 30, 22, 14, 6]"

definition IP_1_Table :: "nat list" where
  "IP_1_Table = [
     39, 7, 47, 15, 55, 23, 63, 31,
     38, 6, 46, 14, 54, 22, 62, 30,
     37, 5, 45, 13, 53, 21, 61, 29,
     36, 4, 44, 12, 52, 20, 60, 28,
     35, 3, 43, 11, 51, 19, 59, 27,
     34, 2, 42, 10, 50, 18, 58, 26,
     33, 1, 41, 9, 49, 17, 57, 25,
     32, 0, 40, 8, 48, 16, 56, 24]"

definition E_Table :: "nat list" where
  "E_Table = [
     31, 0, 1, 2, 3, 4,
     3, 4, 5, 6, 7, 8,
     7, 8, 9, 10, 11, 12,
     11, 12, 13, 14, 15, 16,
     15, 16, 17, 18, 19, 20,
     19, 20, 21, 22, 23, 24,
     23, 24, 25, 26, 27, 28,
     27, 28, 29, 30, 31, 0]"

definition P_Table :: "nat list" where
  "P_Table = [
     15, 6, 19, 20, 28, 11, 27, 16,
     0, 14, 22, 25, 4, 17, 30, 9,
     1, 7, 23, 13, 31, 26, 2, 8,
     18, 12, 29, 5, 21, 10, 3, 24]"

section \<open>Bits of bytes\<close>

text \<open>The inner loop of \<open>Char8ToBit64\<close> shifts the character out: what is left of it, and its bits.\<close>

fun char_bits :: "byte \<Rightarrow> nat \<Rightarrow> byte \<times> byte list" where
  "char_bits c 0 = (c, [])"
| "char_bits c (Suc n) =
     (let b = (if c AND 0x80 = 0x80 then 0x01 else 0x00); (c', bs) = char_bits (push_bit 1 c) n
      in (c', b # bs))"

definition Char8ToBit64 :: "byte list \<Rightarrow> byte list \<times> byte list" where
  "Char8ToBit64 ch =
     (map (\<lambda>c. fst (char_bits c 8)) (take 8 ch) @ drop 8 ch,
      concat (map (\<lambda>c. snd (char_bits c 8)) (take 8 ch)))"

definition Bit64ToChar8 :: "byte list \<Rightarrow> byte list" where
  "Bit64ToChar8 bit_a =
     map (\<lambda>cnt. foldl (\<lambda>c b. push_bit 1 c OR b) 0 (take 8 (drop (8 * cnt) bit_a))) [0..<8]"

section \<open>Permutations\<close>

definition DES_PC1_Transform :: "byte list \<Rightarrow> byte list" where
  "DES_PC1_Transform key = map (\<lambda>i. key ! i) PC_1"

definition DES_PC2_Transform :: "byte list \<Rightarrow> byte list" where
  "DES_PC2_Transform key = map (\<lambda>i. key ! i) PC_2"

definition DES_IP_Transform :: "byte list \<Rightarrow> byte list" where
  "DES_IP_Transform data_a = map (\<lambda>i. data_a ! i) IP_Table"

definition DES_IP_1_Transform :: "byte list \<Rightarrow> byte list" where
  "DES_IP_1_Transform data_a = map (\<lambda>i. data_a ! i) IP_1_Table"

definition DES_E_Transform :: "byte list \<Rightarrow> byte list" where
  "DES_E_Transform data_a = map (\<lambda>i. data_a ! i) E_Table"

definition DES_P_Transform :: "byte list \<Rightarrow> byte list" where
  "DES_P_Transform data_a = map (\<lambda>i. data_a ! i) P_Table @ drop 32 data_a"

section \<open>Rotations of the key halves\<close>

definition cell :: "byte \<Rightarrow> byte list \<Rightarrow> int \<Rightarrow> byte" where
  "cell junk a i = (if 0 \<le> i \<and> i < int (length a) then a ! nat i else junk)"

definition rol_step :: "byte \<Rightarrow> nat \<Rightarrow> nat \<Rightarrow> byte list \<Rightarrow> byte list" where
  "rol_step junk time i d =
     (let d = d[i := cell junk d (int (time + i))]
      in d[28 + i := cell junk d (int (28 + time + i))])"

definition ror_step :: "byte \<Rightarrow> nat \<Rightarrow> nat \<Rightarrow> byte list \<Rightarrow> byte list" where
  "ror_step junk time i d =
     (let d = d[27 - i := cell junk d (27 - int time - int i)]
      in d[55 - i := cell junk d (55 - int time - int i)])"

definition DES_ROL :: "byte \<Rightarrow> byte list \<Rightarrow> nat \<Rightarrow> byte list" where
  "DES_ROL junk data_a time =
     (let temp = map (\<lambda>i. data_a ! i) [0..<time] @ map (\<lambda>i. data_a ! (28 + i)) [0..<time];
          d = fold (rol_step junk time) [0..<29 - time] data_a
      in fold (\<lambda>i d. d[28 - time + i := temp ! i, 56 - time + i := temp ! (i + time)]) [0..<time] d)"

definition DES_ROR :: "byte \<Rightarrow> byte list \<Rightarrow> nat \<Rightarrow> byte list" where
  "DES_ROR junk data_a time =
     (let temp = fold (\<lambda>i t. t[time - 1 - i := data_a ! (27 - i), time + 1 - i := data_a ! (55 - i)])
            [0..<time] (replicate 56 0);
          d = fold (ror_step junk time) [0..<29 - time] data_a
      in fold (\<lambda>i d. d[i := temp ! i, 28 + i := temp ! (i + 2)]) [0..<time] d)"

section \<open>The round function\<close>

definition DES_XOR :: "byte list \<Rightarrow> byte list \<Rightarrow> nat \<Rightarrow> byte list" where
  "DES_XOR R L count = map2 (XOR) (take count R) (take count L) @ drop count R"

definition sbox_turn :: "nat \<Rightarrow> byte list \<Rightarrow> byte list" where
  "sbox_turn cnt d =
     (let cur1 = cnt * 6; cur2 = cnt * 4;
          lines = push_bit 1 (d ! cur1) + d ! (cur1 + 5);
          row = push_bit 3 (d ! (cur1 + 1)) + push_bit 2 (d ! (cur1 + 2)) +
            push_bit 1 (d ! (cur1 + 3)) + d ! (cur1 + 4);
          output = (if cnt < 4 then S ! cnt else S1 ! (cnt - 4)) ! unat lines ! unat row
      in d[cur2 := drop_bit 3 (output AND 0x08), cur2 + 1 := drop_bit 2 (output AND 0x04),
           cur2 + 2 := drop_bit 1 (output AND 0x02), cur2 + 3 := output AND 0x01])"

definition DES_SBOX :: "byte list \<Rightarrow> byte list" where
  "DES_SBOX data_a = fold sbox_turn [0..<8] data_a"

definition DES_Swap :: "byte list \<Rightarrow> byte list" where
  "DES_Swap d = take 32 (drop 32 d) @ take 32 d @ drop 64 d"

text \<open>What a turn does to the 64 bits with the turn's subkey.\<close>

definition des_round :: "byte list \<Rightarrow> byte list \<Rightarrow> byte list" where
  "des_round subKeys bits =
     (let copyRight = DES_E_Transform (take 32 (drop 32 bits));
          copyRight = DES_XOR copyRight subKeys 48;
          copyRight = DES_SBOX copyRight;
          copyRight = DES_P_Transform copyRight
      in DES_XOR bits copyRight 32)"

definition ENC_TIMES :: "nat list" where
  "ENC_TIMES = [1, 1, 2, 2, 2, 2, 2, 2, 1, 2, 2, 2, 2, 2, 2, 1]"

definition DEC_TIMES :: "nat list" where
  "DEC_TIMES = [0, 1, 2, 2, 2, 2, 2, 2, 1, 2, 2, 2, 2, 2, 2, 1]"

definition encrypt_turn :: "(nat \<Rightarrow> byte) \<Rightarrow> nat \<Rightarrow> byte list \<times> byte list \<Rightarrow> byte list \<times> byte list" where
  "encrypt_turn junk cnt = (\<lambda>(temp, bits).
     let temp = DES_ROL (junk cnt) temp (ENC_TIMES ! cnt);
         bits = des_round (DES_PC2_Transform temp) bits
     in (temp, if cnt \<noteq> 15 then DES_Swap bits else bits))"

definition encrypt_des :: "(nat \<Rightarrow> byte) \<Rightarrow> byte list \<Rightarrow> byte list \<Rightarrow> byte list" where
  "encrypt_des junk inoutdata keyStr =
     (let (_, bKey) = Char8ToBit64 (take 8 keyStr);
          temp = DES_PC1_Transform bKey;
          (_, plainBits) = Char8ToBit64 inoutdata;
          plainBits = DES_IP_Transform plainBits;
          (temp, plainBits) = fold (encrypt_turn junk) [0..<16] (temp, plainBits);
          plainBits = DES_IP_1_Transform plainBits
      in Bit64ToChar8 plainBits @ drop 8 inoutdata)"

definition decrypt_turn :: "(nat \<Rightarrow> byte) \<Rightarrow> nat \<Rightarrow> byte list \<times> byte list \<Rightarrow> byte list \<times> byte list" where
  "decrypt_turn junk cnt = (\<lambda>(temp, bits).
     let temp = (if cnt \<noteq> 0 then DES_ROR (junk cnt) temp (DEC_TIMES ! cnt) else temp);
         bits = des_round (DES_PC2_Transform temp) bits
     in (temp, if cnt \<noteq> 15 then DES_Swap bits else bits))"

definition decrypt_des :: "(nat \<Rightarrow> byte) \<Rightarrow> byte list \<Rightarrow> byte list \<Rightarrow> byte list" where
  "decrypt_des junk inoutdata keyStr =
     (let (_, bKey) = Char8ToBit64 (take 8 keyStr);
          temp = DES_PC1_Transform bKey;
          (_, cipherBits) = Char8ToBit64 inoutdata;
          cipherBits = DES_IP_Transform cipherBits;
          (temp, cipherBits) = fold (decrypt_turn junk) [0..<16] (temp, cipherBits);
          cipherBits = DES_IP_1_Transform cipherBits
      in Bit64ToChar8 cipherBits @ drop 8 inoutdata)"

section \<open>Triple DES\<close>

text \<open>
  The first byte of the data is the length, a \<open>uint8_t\<close> as are \<open>i\<close> and \<open>j\<close>; \<open>k\<close> is an
  \<open>int\<close>. The part of the array from \<open>k\<close> on is handed to the block functions, which touch
  eight bytes of it.
\<close>

definition on_block :: "(byte list \<Rightarrow> byte list) \<Rightarrow> int \<Rightarrow> byte list \<Rightarrow> byte list option" where
  "on_block f k d = do { b \<leftarrow> rd d k 8; wr d k (f b) }"

fun enc_blocks :: "(nat \<Rightarrow> byte) \<Rightarrow> byte list \<Rightarrow> byte list \<Rightarrow> nat \<Rightarrow> int \<Rightarrow> byte list \<Rightarrow> byte list option" where
  "enc_blocks junk ka kb 0 k d = Some d"
| "enc_blocks junk ka kb (Suc n) k d = do {
     d \<leftarrow> on_block (\<lambda>b. encrypt_des junk b ka) k d;
     d \<leftarrow> on_block (\<lambda>b. decrypt_des junk b kb) k d;
     d \<leftarrow> on_block (\<lambda>b. encrypt_des junk b ka) k d;
     enc_blocks junk ka kb n (k + 8) d
   }"

definition encrypt_3des :: "(nat \<Rightarrow> byte) \<Rightarrow> byte list \<Rightarrow> byte list \<Rightarrow> byte list option" where
  "encrypt_3des junk inoutdata keyStr = do {
     i \<leftarrow> get inoutdata 0;
     ka \<leftarrow> rd keyStr 0 8;
     kb \<leftarrow> rd keyStr 8 8;
     (i, d) \<leftarrow> (if i mod 8 \<noteq> 0 then do {
         d \<leftarrow> put inoutdata (uint i + 1) 0x80;
         let i = i div 8 + 1;
         d \<leftarrow> put d 0 (i * 8);
         Some (i, d)
       } else Some (i div 8, inoutdata));
     enc_blocks junk ka kb (unat i) 1 d
   }"

fun dec_blocks :: "(nat \<Rightarrow> byte) \<Rightarrow> byte list \<Rightarrow> byte list \<Rightarrow> nat \<Rightarrow> int \<Rightarrow> byte list \<Rightarrow> byte list option" where
  "dec_blocks junk ka kb 0 k d = Some d"
| "dec_blocks junk ka kb (Suc n) k d = do {
     d \<leftarrow> on_block (\<lambda>b. decrypt_des junk b ka) k d;
     d \<leftarrow> on_block (\<lambda>b. encrypt_des junk b kb) k d;
     d \<leftarrow> on_block (\<lambda>b. decrypt_des junk b ka) k d;
     dec_blocks junk ka kb n (k + 8) d
   }"

definition decrypt_3des :: "(nat \<Rightarrow> byte) \<Rightarrow> byte list \<Rightarrow> byte list \<Rightarrow> byte list option" where
  "decrypt_3des junk inoutdata keyStr = do {
     i \<leftarrow> get inoutdata 0;
     ka \<leftarrow> rd keyStr 0 8;
     kb \<leftarrow> rd keyStr 8 8;
     dec_blocks junk ka kb (unat (i div 8)) 1 inoutdata
   }"

text \<open>\<open>decrypt_file\<close>, from the file's bytes to the bytes it writes.\<close>

definition file_key :: "byte list" where
  "file_key = [102, 250, 23, 64, 187, 119, 24, 30, 61, 41, 102, 117, 89, 154, 123, 7]"

fun file_blocks :: "(nat \<Rightarrow> byte) \<Rightarrow> nat \<Rightarrow> nat \<Rightarrow> byte list \<Rightarrow> byte list \<Rightarrow> byte list option" where
  "file_blocks junk i 0 io pData = Some pData"
| "file_blocks junk i (Suc n) io pData = do {
     b \<leftarrow> rd pData (int i * 248) 248;
     io \<leftarrow> wr io 1 b;
     io \<leftarrow> decrypt_3des junk io file_key;
     b \<leftarrow> rd io 1 248;
     pData \<leftarrow> wr pData (int i * 248) b;
     file_blocks junk (Suc i) n io pData
   }"

definition decrypt_file :: "(nat \<Rightarrow> byte) \<Rightarrow> byte list \<Rightarrow> byte list option" where
  "decrypt_file junk strEnFileData = file_blocks junk 0 200 (248 # replicate 248 0) strEnFileData"

end
