(* ===== verification/DesInverse.thy ===== *)
theory DesInverse
  imports Des
begin

text \<open>
  Why decryption undoes encryption: the block network of \<^theory_text>\<open>Des\<close> is a Feistel network
  whose subkeys \<open>decrypt_des\<close> takes in the reverse order, and triple DES stacks it.
\<close>

unbundle bit_operations_syntax

section \<open>Bits\<close>

definition is_bits :: "byte list \<Rightarrow> bool" where
  "is_bits bs \<longleftrightarrow> (\<forall>b \<in> set bs. b = 0 \<or> b = 1)"

lemma is_bits_append [simp]: "is_bits (a @ b) \<longleftrightarrow> is_bits a \<and> is_bits b"
  by (auto simp: is_bits_def)

lemma is_bits_take_drop: "is_bits a \<Longrightarrow> is_bits (take n a)" "is_bits a \<Longrightarrow> is_bits (drop n a)"
  by (auto simp: is_bits_def dest: in_set_takeD in_set_dropD)

lemma and80: "(c AND 0x80 = 0x80) = bit (c :: byte) 7"
proof -
  have p: "(0x80 :: byte) = push_bit 7 1" by simp
  have b: "bit (0x80 :: byte) n \<longleftrightarrow> n = 7" for n
    unfolding p bit_push_bit_iff by (auto simp: bit_1_iff)
  show ?thesis
  proof
    assume "c AND 0x80 = 0x80"
    from arg_cong [OF this, of "\<lambda>w. bit w 7"] show "bit c 7" by (simp add: bit_and_iff b)
  next
    assume "bit c 7"
    then show "c AND 0x80 = 0x80"
      by (intro bit_word_eqI) (simp only: bit_and_iff b, blast)
  qed
qed

definition bit_cell :: "bool \<Rightarrow> byte" where
  "bit_cell b = (if b then 1 else 0)"

lemma char_bits_Suc:
  "snd (char_bits c (Suc n)) = bit_cell (bit c 7) # snd (char_bits (push_bit 1 c) n)"
  by (simp add: and80 bit_cell_def Let_def split: prod.splits)

lemma char_bits_from:
  "k + n \<le> 8 \<Longrightarrow> snd (char_bits (push_bit k c) n) = map (\<lambda>i. bit_cell (bit c (7 - i))) [k..<k + n]"
proof (induction n arbitrary: k)
  case (Suc n)
  have "bit (push_bit k c) 7 = bit c (7 - k)" using Suc.prems by (simp add: bit_simps)
  moreover have "push_bit 1 (push_bit k c) = push_bit (Suc k) c" by simp
  moreover have "[k..<k + Suc n] = k # [Suc k..<Suc k + n]" by (simp add: upt_conv_Cons)
  ultimately show ?case using Suc.IH [of "Suc k"] Suc.prems by (simp only: char_bits_Suc) simp
qed simp

lemma char_bits_eq: "snd (char_bits c 8) = map (\<lambda>i. bit_cell (bit c (7 - i))) [0..<8]"
  using char_bits_from [of 0 8 c] by simp

section \<open>Rotations\<close>

definition rot :: "nat \<Rightarrow> byte list \<Rightarrow> byte list" where
  "rot n d = rotate n (take 28 d) @ rotate n (drop 28 d)"

lemma rot_nth:
  assumes "length d = 56" "k < 56"
  shows "rot n d ! k = (if k < 28 then d ! ((k + n) mod 28) else d ! (28 + (k - 28 + n) mod 28))"
  using assms by (simp add: rot_def nth_append nth_rotate add.commute)

lemma rot_at:
  assumes "length d = 56" "k < 56" "n \<le> 28"
  shows "rot n d ! k = (if k + n < 28 \<or> 28 \<le> k \<and> k + n < 56 then d ! (k + n) else d ! (k + n - 28))"
proof (cases "k < 28")
  case True
  have "(k + n) mod 28 = (if k + n < 28 then k + n else k + n - 28)"
    using True assms(3) by (simp add: mod_if)
  then show ?thesis using True rot_nth [OF assms(1,2), of n] by simp
next
  case False
  have "(k - 28 + n) mod 28 = (if k + n < 56 then k + n - 28 else k + n - 56)"
    using False assms(2,3) by (simp add: mod_if)
  then show ?thesis using False assms(2) rot_nth [OF assms(1,2), of n] by simp
qed

lemma rot_length [simp]: "length d = 56 \<Longrightarrow> length (rot n d) = 56"
  by (simp add: rot_def)

lemma rot_rot: "length d = 56 \<Longrightarrow> rot m (rot n d) = rot (m + n) d"
  by (simp add: rot_def rotate_rotate)

lemma rot_28: "length d = 56 \<Longrightarrow> rot 28 d = d"
  using rotate_id [of 28 "take 28 d"] rotate_id [of 28 "drop 28 d"] by (simp add: rot_def)

lemma rol_loop:
  assumes "length d = 56" "n + t \<le> 28" "1 \<le> t"
  shows "length (fold (rol_step junk t) [0..<n] d) = 56 \<and>
    (\<forall>k < 56. fold (rol_step junk t) [0..<n] d ! k =
       (if k < n \<or> 28 \<le> k \<and> k < 28 + n then d ! (k + t) else d ! k))"
  using assms(2)
proof (induction n)
  case (Suc n)
  let ?e = "fold (rol_step junk t) [0..<n] d"
  have e: "length ?e = 56" "\<And>k. k < 56 \<Longrightarrow> ?e ! k = (if k < n \<or> 28 \<le> k \<and> k < 28 + n then d ! (k + t) else d ! k)"
    using Suc by auto
  have "cell junk ?e (int (t + n)) = ?e ! (n + t)"
    using e(1) Suc.prems by (simp add: cell_def add.commute nat_add_distrib)
  then have c1: "cell junk ?e (int (t + n)) = d ! (n + t)"
    using e(2) [of "n + t"] Suc.prems assms(3) by simp
  have "cell junk (?e[n := d ! (n + t)]) (int (28 + t + n)) = ?e ! (28 + n + t)"
    using e(1) Suc.prems by (simp add: cell_def nat_add_distrib add.commute add.left_commute)
  then have c2: "cell junk (?e[n := d ! (n + t)]) (int (28 + t + n)) = d ! (28 + n + t)"
    using e(2) [of "28 + n + t"] Suc.prems assms(3) by simp
  have "fold (rol_step junk t) [0..<Suc n] d = ?e[n := d ! (n + t), 28 + n := d ! (28 + n + t)]"
    using c1 c2 by (simp add: rol_step_def Let_def)
  then show ?case
    using e Suc.prems by (auto simp: nth_list_update)
qed (use assms in auto)

lemma ror_loop:
  assumes "length d = 56" "n + t \<le> 28" "1 \<le> t"
  shows "length (fold (ror_step junk t) [0..<n] d) = 56 \<and>
    (\<forall>k < 56. fold (ror_step junk t) [0..<n] d ! k =
       (if 28 - n \<le> k \<and> k < 28 \<or> 56 - n \<le> k then d ! (k - t) else d ! k))"
  using assms(2)
proof (induction n)
  case (Suc n)
  let ?e = "fold (ror_step junk t) [0..<n] d"
  have e: "length ?e = 56" "\<And>k. k < 56 \<Longrightarrow> ?e ! k = (if 28 - n \<le> k \<and> k < 28 \<or> 56 - n \<le> k then d ! (k - t) else d ! k)"
    using Suc by auto
  have i: "27 - int t - int n = int (27 - (n + t))" "55 - int t - int n = int (55 - (n + t))"
    using Suc.prems by simp_all
  have r: "27 - (n + t) < 56" "55 - (n + t) < 56" "\<not> 28 - n \<le> 27 - (n + t)" "\<not> 56 - n \<le> 27 - (n + t)"
    "\<not> 56 - n \<le> 55 - (n + t)" "\<not> 55 - (n + t) < 28" "55 - (n + t) \<noteq> 27 - n"
    using Suc.prems assms(3) by linarith+
  have v: "?e ! (27 - (n + t)) = d ! (27 - (n + t))" "?e ! (55 - (n + t)) = d ! (55 - (n + t))"
    using e(2) [OF r(1)] e(2) [OF r(2)] r by simp_all
  have c1: "cell junk ?e (27 - int t - int n) = d ! (27 - (n + t))"
    unfolding i cell_def e(1) using r v by simp
  have c2: "cell junk (?e[27 - n := d ! (27 - (n + t))]) (55 - int t - int n) = d ! (55 - (n + t))"
    unfolding i cell_def length_list_update e(1) using r v by (simp add: nth_list_update)
  have "fold (ror_step junk t) [0..<Suc n] d = ?e[27 - n := d ! (27 - (n + t)), 55 - n := d ! (55 - (n + t))]"
    using c1 c2 by (simp add: ror_step_def Let_def)
  moreover have "?e[27 - n := d ! (27 - (n + t)), 55 - n := d ! (55 - (n + t))] ! k =
      (if 28 - Suc n \<le> k \<and> k < 28 \<or> 56 - Suc n \<le> k then d ! (k - t) else d ! k)" if k: "k < 56" for k
  proof -
    have n: "n < 28" using Suc.prems assms(3) by simp
    consider "k = 27 - n" | "k = 55 - n" | "k \<noteq> 27 - n \<and> k \<noteq> 55 - n" by blast
    then show ?thesis
    proof cases
      case 1
      moreover have "27 - n - t = 27 - (n + t)" "27 - n \<noteq> 55 - n" "27 - n < 28" using n by simp_all
      ultimately show ?thesis using n e(1) by (simp add: nth_list_update)
    next
      case 2
      moreover have "55 - n - t = 55 - (n + t)" by simp
      ultimately show ?thesis using n e(1) by (simp add: nth_list_update)
    next
      case 3
      then have "(28 - n \<le> k \<and> k < 28 \<or> 56 - n \<le> k) = (28 - Suc n \<le> k \<and> k < 28 \<or> 56 - Suc n \<le> k)"
        using n by linarith
      then show ?thesis using 3 e(2) [OF k] by simp
    qed
  qed
  ultimately show ?case using e(1) by simp
qed (use assms in auto)

text \<open>The turn too many writes two cells that are overwritten afterwards.\<close>

lemma upt_snoc: "t \<le> 28 \<Longrightarrow> [0..<29 - t] = [0..<28 - t] @ [28 - t]"
proof -
  assume "t \<le> 28"
  then have "29 - t = Suc (28 - t)" by simp
  then show ?thesis by (simp only: upt_Suc) simp
qed

lemma DES_ROL_rot:
  assumes l: "length d = 56" and t: "t = 1 \<or> t = 2"
  shows "DES_ROL junk d t = rot t d"
proof -
  let ?e = "fold (rol_step junk t) [0..<28 - t] d"
  have g: "\<exists>x y. fold (rol_step junk t) [0..<29 - t] d = ?e[28 - t := x, 56 - t := y]"
  proof -
    have u: "[0..<29 - t] = [0..<28 - t] @ [28 - t]" "28 + (28 - t) = 56 - t" using upt_snoc [of t] t by auto
    show ?thesis unfolding u(1) by (simp only: fold_append fold_simps comp_apply rol_step_def Let_def u(2)) blast
  qed
  obtain e x y where e: "length e = 56"
    "\<And>k. k < 56 \<Longrightarrow> e ! k = (if k < 28 - t \<or> 28 \<le> k \<and> k < 56 - t then d ! (k + t) else d ! k)"
    and g: "fold (rol_step junk t) [0..<29 - t] d = e[28 - t := x, 56 - t := y]"
    using rol_loop [OF l, of "28 - t" t junk] t g by auto
  from t show ?thesis
  proof
    assume t: "t = 1"
    have D: "DES_ROL junk d 1 = e[27 := x, 55 := y, 27 := d ! 0, 55 := d ! 28]"
      using g t by (simp add: DES_ROL_def)
    show ?thesis
    proof (rule nth_equalityI)
      fix k assume "k < length (DES_ROL junk d t)"
      then have k: "k < 56" using D t e(1) by simp
      consider "k < 27" | "k = 27" | "27 < k \<and> k < 55" | "k = 55" using k by linarith
      then show "DES_ROL junk d t ! k = rot t d ! k"
        using k l e(1) e(2) [OF k] t D by cases (simp_all add: rot_at nth_list_update)
    qed (use D t e(1) l in simp)
  next
    assume t: "t = 2"
    have D: "DES_ROL junk d 2 = e[26 := x, 54 := y, 26 := d ! 0, 54 := d ! 28, 27 := d ! 1, 55 := d ! 29]"
      using g t by (simp add: DES_ROL_def numeral_2_eq_2)
    show ?thesis
    proof (rule nth_equalityI)
      fix k assume "k < length (DES_ROL junk d t)"
      then have k: "k < 56" using D t e(1) by simp
      consider "k < 26" | "k = 26" | "k = 27" | "27 < k \<and> k < 54" | "k = 54" | "k = 55" using k by linarith
      then show "DES_ROL junk d t ! k = rot t d ! k"
        using k l e(1) e(2) [OF k] t D by cases (simp_all add: rot_at nth_list_update)
    qed (use D t e(1) l in simp)
  qed
qed

lemma DES_ROR_rot:
  assumes l: "length d = 56" and t: "t = 1 \<or> t = 2"
  shows "DES_ROR junk d t = rot (28 - t) d"
proof -
  let ?e = "fold (ror_step junk t) [0..<28 - t] d"
  have g: "\<exists>x y. fold (ror_step junk t) [0..<29 - t] d = ?e[t - 1 := x, 27 + t := y]"
  proof -
    have u: "[0..<29 - t] = [0..<28 - t] @ [28 - t]" "27 - (28 - t) = t - 1" "55 - (28 - t) = 27 + t"
      using upt_snoc [of t] t by auto
    show ?thesis unfolding u(1) by (simp only: fold_append fold_simps comp_apply ror_step_def Let_def u(2,3)) blast
  qed
  obtain e x y where e: "length e = 56"
    "\<And>k. k < 56 \<Longrightarrow> e ! k = (if 28 - (28 - t) \<le> k \<and> k < 28 \<or> 56 - (28 - t) \<le> k then d ! (k - t) else d ! k)"
    and g: "fold (ror_step junk t) [0..<29 - t] d = e[t - 1 := x, 27 + t := y]"
    using ror_loop [OF l, of "28 - t" t junk] t g by auto
  from t show ?thesis
  proof
    assume t: "t = 1"
    have D: "DES_ROR junk d 1 = e[0 := x, 28 := y, 0 := d ! 27, 28 := d ! 55]"
      using g t by (simp add: DES_ROR_def eval_nat_numeral)
    show ?thesis
    proof (rule nth_equalityI)
      fix k assume "k < length (DES_ROR junk d t)"
      then have k: "k < 56" using D t e(1) by simp
      consider "k = 0" | "0 < k \<and> k < 28" | "k = 28" | "28 < k" by linarith
      then show "DES_ROR junk d t ! k = rot (28 - t) d ! k"
        using k l e(1) e(2) [OF k] t D
        by cases (simp_all add: rot_at nth_list_update)
    qed (use D t e(1) l in simp)
  next
    assume t: "t = 2"
    have D: "DES_ROR junk d 2 = e[1 := x, 29 := y, 0 := d ! 26, 28 := d ! 54, 1 := d ! 27, 29 := d ! 55]"
      using g t by (simp add: DES_ROR_def eval_nat_numeral)
    show ?thesis
    proof (rule nth_equalityI)
      fix k assume "k < length (DES_ROR junk d t)"
      then have k: "k < 56" using D t e(1) by simp
      consider "k = 0" | "k = 1" | "1 < k \<and> k < 28" | "k = 28" | "k = 29" | "29 < k" by linarith
      then show "DES_ROR junk d t ! k = rot (28 - t) d ! k"
        using k l e(1) e(2) [OF k] t D
        by cases (simp_all add: rot_at nth_list_update)
    qed (use D t e(1) l in simp)
  qed
qed

section \<open>Bytes and their bits\<close>

lemma Char8ToBit64_bits: "length ch = 8 \<Longrightarrow> length (snd (Char8ToBit64 ch)) = 64"
  "is_bits (snd (Char8ToBit64 ch))"
proof -
  have "length (concat (map (\<lambda>c. snd (char_bits c 8)) xs)) = 8 * length xs" for xs
    by (induction xs) (auto simp: char_bits_eq)
  then show "length ch = 8 \<Longrightarrow> length (snd (Char8ToBit64 ch)) = 64" by (simp add: Char8ToBit64_def)
  show "is_bits (snd (Char8ToBit64 ch))"
    by (auto simp: Char8ToBit64_def is_bits_def char_bits_eq bit_cell_def)
qed

definition pack :: "byte list \<Rightarrow> byte" where
  "pack bs = foldl (\<lambda>c b. push_bit 1 c OR b) 0 bs"

lemma bit_cell_bit: "bit (bit_cell b) n \<longleftrightarrow> b \<and> n = 0"
  by (auto simp: bit_cell_def bit_1_iff)

lemma pack_bit:
  "length xs \<le> 8 \<Longrightarrow> k < 8 \<Longrightarrow>
   bit (pack (map bit_cell xs)) k \<longleftrightarrow> k < length xs \<and> xs ! (length xs - 1 - k)"
proof (induction xs arbitrary: k rule: rev_induct)
  case (snoc x xs)
  have p: "pack (map bit_cell (xs @ [x])) = push_bit 1 (pack (map bit_cell xs)) OR bit_cell x"
    by (simp add: pack_def)
  show ?case
  proof (cases k)
    case 0
    then show ?thesis unfolding p by (simp only: bit_or_iff bit_push_bit_iff bit_cell_bit) simp
  next
    case (Suc j)
    then have "bit (pack (map bit_cell xs)) j \<longleftrightarrow> j < length xs \<and> xs ! (length xs - 1 - j)"
      using snoc by simp
    moreover have "bit (pack (map bit_cell (xs @ [x]))) (Suc j) \<longleftrightarrow> bit (pack (map bit_cell xs)) j"
      unfolding p bit_or_iff bit_push_bit_iff bit_cell_bit using snoc.prems Suc by simp
    ultimately show ?thesis using Suc by (auto simp: nth_append)
  qed
qed (simp add: pack_def)

lemma pack_char_bits: "pack (snd (char_bits c 8)) = c"
proof (rule bit_word_eqI)
  fix n assume "n < LENGTH(8)"
  then have n: "n < 8" by simp
  have "snd (char_bits c 8) = map bit_cell (map (\<lambda>i. bit c (7 - i)) [0..<8])"
    by (simp add: char_bits_eq comp_def)
  then show "bit (pack (snd (char_bits c 8))) n = bit c n"
    using pack_bit [of "map (\<lambda>i. bit c (7 - i)) [0..<8]" n] n by simp
qed

lemma char_bits_pack: "length bs = 8 \<Longrightarrow> is_bits bs \<Longrightarrow> snd (char_bits (pack bs) 8) = bs"
proof -
  assume l: "length bs = 8" and b: "is_bits bs"
  define xs where "xs = map (\<lambda>b. b = 1) bs"
  have bs: "bs = map bit_cell xs"
    using b by (auto simp: xs_def is_bits_def bit_cell_def intro!: map_idI [symmetric])
  have "length xs = 8" "7 - i < (8 :: nat)" for i using l by (simp_all add: xs_def)
  then show ?thesis
    unfolding char_bits_eq bs by (intro nth_equalityI) (simp_all add: pack_bit)
qed

lemma Bit64ToChar8_pack: "Bit64ToChar8 bits = map (\<lambda>cnt. pack (take 8 (drop (8 * cnt) bits))) [0..<8]"
  by (simp add: Bit64ToChar8_def pack_def)

lemma Bit64ToChar8_length [simp]: "length (Bit64ToChar8 bs) = 8"
  by (simp add: Bit64ToChar8_def)

lemma chunk_concat:
  "\<forall>c \<in> set xss. length c = 8 \<Longrightarrow> n < length xss \<Longrightarrow> take 8 (drop (8 * n) (concat xss)) = xss ! n"
proof (induction xss arbitrary: n)
  case (Cons x xss)
  then show ?case by (cases n) auto
qed simp

lemma concat_chunks:
  "length bs = 8 * n \<Longrightarrow> concat (map (\<lambda>k. take 8 (drop (8 * k) bs)) [0..<n]) = bs"
proof (induction n arbitrary: bs)
  case (Suc n)
  have "concat (map (\<lambda>k. take 8 (drop (8 * k) bs)) [0..<Suc n]) =
      take 8 bs @ concat (map (\<lambda>k. take 8 (drop (8 * k) (drop 8 bs))) [0..<n])"
    by (simp add: upt_conv_Cons map_Suc_upt [symmetric] comp_def del: upt_Suc) (simp add: add.commute)
  also have "concat (map (\<lambda>k. take 8 (drop (8 * k) (drop 8 bs))) [0..<n]) = drop 8 bs"
    by (rule Suc.IH) (use Suc.prems in simp)
  finally show ?case by simp
qed simp

lemma Bit64_Char8: "length ch = 8 \<Longrightarrow> Bit64ToChar8 (snd (Char8ToBit64 ch)) = ch"
proof -
  assume l: "length ch = 8"
  have "take 8 (drop (8 * n) (concat (map (\<lambda>c. snd (char_bits c 8)) ch))) = snd (char_bits (ch ! n) 8)"
    if "n < 8" for n
    using that l chunk_concat [of "map (\<lambda>c. snd (char_bits c 8)) ch" n] by (auto simp: char_bits_eq)
  then show ?thesis
    using l by (intro nth_equalityI) (simp_all add: Bit64ToChar8_pack Char8ToBit64_def pack_char_bits)
qed

lemma Char8_Bit64: "length bs = 64 \<Longrightarrow> is_bits bs \<Longrightarrow> snd (Char8ToBit64 (Bit64ToChar8 bs)) = bs"
proof -
  assume l: "length bs = 64" and b: "is_bits bs"
  have "snd (char_bits (pack (take 8 (drop (8 * k) bs))) 8) = take 8 (drop (8 * k) bs)" if "k < 8" for k
    using that l b by (intro char_bits_pack) (auto intro: is_bits_take_drop)
  then have m: "map (\<lambda>c. snd (char_bits c 8)) (Bit64ToChar8 bs) = map (\<lambda>k. take 8 (drop (8 * k) bs)) [0..<8]"
    by (simp add: Bit64ToChar8_pack)
  then show ?thesis
    using concat_chunks [of bs 8] l by (simp add: Char8ToBit64_def m)
qed

section \<open>The initial permutation\<close>

definition perm :: "nat list \<Rightarrow> byte list \<Rightarrow> byte list" where
  "perm t d = map (\<lambda>i. d ! i) t"

lemma perm_length [simp]: "length (perm t d) = length t"
  by (simp add: perm_def)

lemma perm_perm: "\<forall>i \<in> set t. i < length s \<Longrightarrow> perm t (perm s d) = map (\<lambda>i. d ! (s ! i)) t"
  by (simp add: perm_def)

lemma IP_inverse: "map (\<lambda>i. IP_Table ! i) IP_1_Table = [0..<64]" "map (\<lambda>i. IP_1_Table ! i) IP_Table = [0..<64]"
  by (simp_all add: IP_Table_def IP_1_Table_def upt_rec)

lemma IP_range: "\<forall>i \<in> set IP_Table. i < 64" "\<forall>i \<in> set IP_1_Table. i < 64" "length IP_Table = 64"
  "length IP_1_Table = 64"
  by (simp_all add: IP_Table_def IP_1_Table_def)

lemma perm_inverse:
  assumes "map (\<lambda>i. s ! i) t = [0..<64]" "\<forall>i \<in> set t. i < length s" "length d = 64"
  shows "perm t (perm s d) = d"
proof -
  have "perm t (perm s d) = map (\<lambda>i. d ! i) (map (\<lambda>i. s ! i) t)"
    using perm_perm [OF assms(2)] by (simp add: comp_def)
  also have "\<dots> = d" unfolding assms(1) using map_nth [of d] assms(3) by simp
  finally show ?thesis .
qed

lemma IP_IP_1: "length d = 64 \<Longrightarrow> DES_IP_Transform (DES_IP_1_Transform d) = d"
  "length d = 64 \<Longrightarrow> DES_IP_1_Transform (DES_IP_Transform d) = d"
  using perm_inverse [OF IP_inverse(2), of d] perm_inverse [OF IP_inverse(1), of d] IP_range
  by (simp_all add: DES_IP_Transform_def DES_IP_1_Transform_def perm_def)

lemma IP_bits:
  "length d = 64 \<Longrightarrow> is_bits d \<Longrightarrow> is_bits (DES_IP_Transform d) \<and> length (DES_IP_Transform d) = 64"
  "length d = 64 \<Longrightarrow> is_bits d \<Longrightarrow> is_bits (DES_IP_1_Transform d) \<and> length (DES_IP_1_Transform d) = 64"
  using IP_range by (auto simp: DES_IP_Transform_def DES_IP_1_Transform_def is_bits_def)

section \<open>The round\<close>

lemma DES_XOR_length [simp]: "count \<le> length R \<Longrightarrow> count \<le> length L \<Longrightarrow> length (DES_XOR R L count) = length R"
  by (simp add: DES_XOR_def)

lemma xor_bits: "b = 0 \<or> b = 1 \<Longrightarrow> c = 0 \<or> c = 1 \<Longrightarrow> b XOR c = 0 \<or> b XOR c = (1 :: byte)"
  by auto

lemma DES_XOR_bits:
  "is_bits R \<Longrightarrow> is_bits (take count L) \<Longrightarrow> is_bits (DES_XOR R L count)"
  unfolding DES_XOR_def is_bits_append
  by (auto simp: is_bits_def dest: in_set_dropD)
    (metis in_set_takeD set_zip_leftD set_zip_rightD xor_bits)+

lemma sbox_turn_length [simp]: "length (sbox_turn n d) = length d"
  by (simp add: sbox_turn_def Let_def)

lemma and_one_bit: "y AND 1 = 0 \<or> y AND 1 = (1 :: byte)"
  by (simp add: and_one_eq mod_2_eq_odd)

lemma out_bits:
  "drop_bit 3 (x AND 0x08) = 0 \<or> drop_bit 3 (x AND 0x08) = (1 :: byte)"
  "drop_bit 2 (x AND 0x04) = 0 \<or> drop_bit 2 (x AND 0x04) = (1 :: byte)"
  "drop_bit 1 (x AND 0x02) = 0 \<or> drop_bit 1 (x AND 0x02) = (1 :: byte)"
  "x AND 0x01 = 0 \<or> x AND 0x01 = (1 :: byte)"
  using and_one_bit [of "drop_bit 3 x"] and_one_bit [of "drop_bit 2 x"] and_one_bit [of "drop_bit 1 x"]
    and_one_bit [of x] by (simp_all add: drop_bit_and)

lemma is_bits_take: "m \<le> length e \<Longrightarrow> is_bits (take m e) \<longleftrightarrow> (\<forall>i < m. e ! i = 0 \<or> e ! i = 1)"
  by (simp add: is_bits_def all_set_conv_all_nth)

lemma sbox_prefix:
  "length d = 48 \<Longrightarrow> n \<le> 8 \<Longrightarrow>
   length (fold sbox_turn [0..<n] d) = 48 \<and> is_bits (take (4 * n) (fold sbox_turn [0..<n] d))"
proof (induction n)
  case (Suc n)
  let ?e = "fold sbox_turn [0..<n] d"
  have e: "length ?e = 48" "\<forall>i < 4 * n. ?e ! i = 0 \<or> ?e ! i = 1"
    using Suc is_bits_take [of "4 * n" ?e] by simp_all
  obtain y where y: "sbox_turn n ?e = ?e[n * 4 := drop_bit 3 (y AND 0x08), n * 4 + 1 := drop_bit 2 (y AND 0x04),
      n * 4 + 2 := drop_bit 1 (y AND 0x02), n * 4 + 3 := y AND 0x01]"
    by (simp only: sbox_turn_def Let_def)
  have "sbox_turn n ?e ! i = 0 \<or> sbox_turn n ?e ! i = 1" if i: "i < 4 * Suc n" for i
  proof -
    have "i < 4 * n \<or> i = n * 4 \<or> i = n * 4 + 1 \<or> i = n * 4 + 2 \<or> i = n * 4 + 3"
      using i by presburger
    then consider "i < 4 * n" | "i = n * 4" | "i = n * 4 + 1" | "i = n * 4 + 2" | "i = n * 4 + 3"
      by blast
    then show ?thesis
      using e Suc.prems(2) out_bits [of y] unfolding y by cases (simp_all add: nth_list_update)
  qed
  then show ?case using e(1) Suc.prems(2) by (simp add: is_bits_take)
qed (simp add: is_bits_def)

lemma DES_Swap_simps:
  "length L = 32 \<Longrightarrow> length R = 32 \<Longrightarrow> DES_Swap (L @ R) = R @ L"
  by (simp add: DES_Swap_def)

text \<open>What the round adds to the left half depends on the right half and the subkey only.\<close>

definition mangle :: "byte list \<Rightarrow> byte list \<Rightarrow> byte list" where
  "mangle k R = take 32 (DES_P_Transform (DES_SBOX (DES_XOR (DES_E_Transform R) k 48)))"

lemma des_round_halves:
  "length L = 32 \<Longrightarrow> length R = 32 \<Longrightarrow> des_round k (L @ R) = map2 (XOR) L (mangle k R) @ R"
  by (simp add: des_round_def DES_XOR_def mangle_def Let_def)

lemma table_lengths: "length E_Table = 48" "length P_Table = 32" "length PC_1 = 56" "length PC_2 = 48"
  "\<forall>i \<in> set P_Table. i < 32"
  by (simp_all add: E_Table_def P_Table_def PC_1_def PC_2_def)

lemma mangle_bits: "length k = 48 \<Longrightarrow> length (mangle k R) = 32 \<and> is_bits (mangle k R)"
proof -
  assume k: "length k = 48"
  let ?s = "DES_SBOX (DES_XOR (DES_E_Transform R) k 48)"
  have "length (DES_XOR (DES_E_Transform R) k 48) = 48" using k table_lengths by (simp add: DES_E_Transform_def)
  then have "length ?s = 48" "is_bits (take 32 ?s)"
    using sbox_prefix [of _ 8] by (simp_all add: DES_SBOX_def)
  then have s: "\<forall>i < 32. ?s ! i = 0 \<or> ?s ! i = 1" using is_bits_take [of 32 ?s] by simp
  have m: "mangle k R = map (\<lambda>i. ?s ! i) P_Table"
    using table_lengths by (simp add: mangle_def DES_P_Transform_def)
  show ?thesis using s table_lengths unfolding m by (simp add: is_bits_def)
qed

lemma xor_twice: "length L = length m \<Longrightarrow> map2 (XOR) (map2 (XOR) L m) m = (L :: byte list)"
  by (induction L m rule: list_induct2) (simp_all add: xor.assoc)

lemma halves: "length d = 64 \<Longrightarrow> \<exists>L R. d = L @ R \<and> length L = 32 \<and> length R = (32 :: nat)"
  by (intro exI [of _ "take 32 d"] exI [of _ "drop 32 d"]) simp

lemma des_round_involutive:
  assumes "length d = 64" "length k = 48"
  shows "des_round k (des_round k d) = d"
proof -
  obtain L R where d: "d = L @ R" "length L = 32" "length R = 32" using halves [OF assms(1)] by blast
  have m: "length (mangle k R) = 32" using mangle_bits [OF assms(2)] by blast
  show ?thesis using d m xor_twice [of L "mangle k R"] by (simp add: des_round_halves)
qed

lemma map2_xor_bits: "is_bits a \<Longrightarrow> is_bits b \<Longrightarrow> is_bits (map2 (XOR) a b)"
  by (auto simp: is_bits_def) (metis set_zip_leftD set_zip_rightD xor_bits)+

lemma des_round_ok:
  assumes "length d = 64" "is_bits d" "length k = 48"
  shows "length (des_round k d) = 64" "is_bits (des_round k d)"
proof -
  obtain L R where d: "d = L @ R" "length L = 32" "length R = 32" using halves [OF assms(1)] by blast
  have m: "length (mangle k R) = 32 \<and> is_bits (mangle k R)" by (rule mangle_bits [OF assms(3)])
  show "length (des_round k d) = 64" "is_bits (des_round k d)"
    using assms(2) d m by (simp_all add: des_round_halves map2_xor_bits)
qed

lemma DES_Swap_ok:
  assumes "length d = 64"
  shows "length (DES_Swap d) = 64" "DES_Swap (DES_Swap d) = d" "is_bits d \<Longrightarrow> is_bits (DES_Swap d)"
  using halves [OF assms] by (auto simp: DES_Swap_simps)

section \<open>The network\<close>

text \<open>The turns as a function of the subkeys: every turn ends in a swap, and the last one is undone.\<close>

definition turns :: "byte list list \<Rightarrow> byte list \<Rightarrow> byte list" where
  "turns ks d = fold (\<lambda>k d. DES_Swap (des_round k d)) ks d"

lemma turns_ok:
  "length d = 64 \<Longrightarrow> is_bits d \<Longrightarrow> \<forall>k \<in> set ks. length k = 48 \<Longrightarrow>
   length (turns ks d) = 64 \<and> is_bits (turns ks d)"
  by (induction ks arbitrary: d) (simp_all add: turns_def des_round_ok DES_Swap_ok)

lemma turns_back:
  "length d = 64 \<Longrightarrow> is_bits d \<Longrightarrow> \<forall>k \<in> set ks. length k = 48 \<Longrightarrow>
   turns (rev ks) (DES_Swap (turns ks d)) = DES_Swap d"
proof (induction ks arbitrary: d)
  case (Cons k ks)
  let ?d = "DES_Swap (des_round k d)"
  have d: "length ?d = 64" "is_bits ?d" "length (des_round k d) = 64"
    using Cons.prems by (simp_all add: des_round_ok DES_Swap_ok)
  have "turns (rev (k # ks)) (DES_Swap (turns (k # ks) d)) =
      DES_Swap (des_round k (turns (rev ks) (DES_Swap (turns ks ?d))))"
    by (simp add: turns_def)
  also have "\<dots> = DES_Swap (des_round k (DES_Swap ?d))" using Cons d by simp
  also have "\<dots> = DES_Swap d"
    using Cons.prems DES_Swap_ok(2) [OF d(3)] des_round_involutive [of d k] by simp
  finally show ?case .
qed (simp add: turns_def)

definition network :: "byte list list \<Rightarrow> byte list \<Rightarrow> byte list" where
  "network ks d = DES_Swap (turns ks d)"

lemma network_ok:
  "length d = 64 \<Longrightarrow> is_bits d \<Longrightarrow> \<forall>k \<in> set ks. length k = 48 \<Longrightarrow>
   length (network ks d) = 64 \<and> is_bits (network ks d)"
  using turns_ok [of d ks] by (simp add: network_def DES_Swap_ok)

lemma network_inverse:
  assumes "length d = 64" "is_bits d" "\<forall>k \<in> set ks. length k = 48"
  shows "network (rev ks) (network ks d) = d"
  using turns_back [OF assms] assms(1) by (simp add: network_def DES_Swap_ok)

section \<open>The key schedule\<close>

definition shifts :: "nat \<Rightarrow> nat" where
  "shifts i = sum_list (take (Suc i) ENC_TIMES)"

definition subkey :: "byte list \<Rightarrow> nat \<Rightarrow> byte list" where
  "subkey t i = DES_PC2_Transform (rot (shifts i) t)"

lemma times_facts:
  "i < 16 \<Longrightarrow> ENC_TIMES ! i = 1 \<or> ENC_TIMES ! i = 2" "i < 15 \<Longrightarrow> DEC_TIMES ! Suc i = ENC_TIMES ! (15 - i)"
  "shifts 15 = 28"
proof -
  have "\<forall>i \<in> {..<16}. ENC_TIMES ! i = 1 \<or> ENC_TIMES ! i = 2"
    "\<forall>i \<in> {..<15}. DEC_TIMES ! Suc i = ENC_TIMES ! (15 - i)"
    by (simp_all add: ENC_TIMES_def DEC_TIMES_def lessThan_nat_numeral lessThan_Suc)
  then show "i < 16 \<Longrightarrow> ENC_TIMES ! i = 1 \<or> ENC_TIMES ! i = 2" "i < 15 \<Longrightarrow> DEC_TIMES ! Suc i = ENC_TIMES ! (15 - i)"
    by auto
  show "shifts 15 = 28" by (simp add: shifts_def ENC_TIMES_def)
qed

lemma shifts_0: "shifts 0 = ENC_TIMES ! 0"
  by (simp add: shifts_def ENC_TIMES_def)

lemma shifts_Suc: "Suc i < 16 \<Longrightarrow> shifts (Suc i) = shifts i + ENC_TIMES ! Suc i"
proof -
  assume "Suc i < 16"
  then have "Suc i < length ENC_TIMES" by (simp add: ENC_TIMES_def)
  then show ?thesis by (simp only: shifts_def take_Suc_conv_app_nth [of "Suc i"]) simp
qed

lemma subkey_length [simp]: "length (subkey t i) = 48"
  by (simp add: subkey_def DES_PC2_Transform_def table_lengths)

lemma ROL_step:
  assumes "length t = 56" "i < 16"
  shows "DES_ROL junk (if i = 0 then t else rot (shifts (i - 1)) t) (ENC_TIMES ! i) = rot (shifts i) t"
proof (cases i)
  case 0
  then show ?thesis using DES_ROL_rot [OF assms(1) times_facts(1)] by (simp add: shifts_0)
next
  case (Suc j)
  have "DES_ROL junk (rot (shifts j) t) (ENC_TIMES ! i) = rot (ENC_TIMES ! i) (rot (shifts j) t)"
    using assms by (intro DES_ROL_rot times_facts(1) rot_length)
  then show ?thesis using assms Suc by (simp add: rot_rot shifts_Suc add.commute)
qed

lemma ROR_step:
  assumes "length t = 56" "i < 15"
  shows "DES_ROR junk (rot (shifts (15 - i)) t) (DEC_TIMES ! Suc i) = rot (shifts (14 - i)) t"
proof -
  let ?a = "ENC_TIMES ! (15 - i)"
  have a: "?a = 1 \<or> ?a = 2" using times_facts(1) [of "15 - i"] by simp
  have j: "15 - i = Suc (14 - i)" using assms(2) by simp
  have "DES_ROR junk (rot (shifts (15 - i)) t) ?a = rot (28 - ?a) (rot (shifts (15 - i)) t)"
    using assms a by (intro DES_ROR_rot) simp_all
  also have "\<dots> = rot (28 - ?a + shifts (15 - i)) t" using assms(1) by (simp add: rot_rot)
  also have "28 - ?a + shifts (15 - i) = 28 + shifts (14 - i)"
    using shifts_Suc [of "14 - i"] a unfolding j by auto
  also have "rot (28 + shifts (14 - i)) t = rot (shifts (14 - i)) t"
    using assms(1) rot_rot [of t 28 "shifts (14 - i)"] rot_28 [of "rot (shifts (14 - i)) t"] by simp
  finally show ?thesis using times_facts(2) [OF assms(2)] by simp
qed

lemma encrypt_turns:
  assumes "length t = 56" "n \<le> 15"
  shows "fold (encrypt_turn junk) [0..<n] (t, d) =
    (if n = 0 then t else rot (shifts (n - 1)) t, turns (map (subkey t) [0..<n]) d)"
  using assms(2)
proof (induction n)
  case (Suc n)
  then show ?case
    using ROL_step [OF assms(1), of n "junk n"]
    by (simp add: encrypt_turn_def turns_def subkey_def Let_def)
qed (simp add: turns_def)

lemma encrypt_network:
  assumes "length t = 56" "length d = 64" "is_bits d"
  shows "fold (encrypt_turn junk) [0..<16] (t, d) = (rot 28 t, network (map (subkey t) [0..<16]) d)"
proof -
  have u: "[0..<16] = [0..<15] @ [15]" by (simp add: upt_rec)
  have tu: "length (turns (map (subkey t) [0..<15]) d) = 64" "is_bits (turns (map (subkey t) [0..<15]) d)"
    using turns_ok [of d "map (subkey t) [0..<15]"] assms by simp_all
  have r: "length (des_round (subkey t 15) (turns (map (subkey t) [0..<15]) d)) = 64"
    using des_round_ok(1) [OF tu] by simp
  have "fold (encrypt_turn junk) [0..<16] (t, d) =
      encrypt_turn junk 15 (rot (shifts 14) t, turns (map (subkey t) [0..<15]) d)"
    unfolding u using encrypt_turns [OF assms(1), of 15 junk d] by simp
  also have "\<dots> = (rot 28 t, des_round (subkey t 15) (turns (map (subkey t) [0..<15]) d))"
    using ROL_step [OF assms(1), of 15 "junk 15"] times_facts(3)
    by (simp add: encrypt_turn_def subkey_def Let_def)
  also have "des_round (subkey t 15) (turns (map (subkey t) [0..<15]) d) = network (map (subkey t) [0..<16]) d"
    unfolding u network_def using DES_Swap_ok(2) [OF r] by (simp add: turns_def)
  finally show ?thesis .
qed

lemma decrypt_turns:
  assumes "length t = 56" "n < 15"
  shows "fold (decrypt_turn junk) [0..<Suc n] (t, d) =
    (rot (shifts (15 - n)) t, turns (map (\<lambda>i. subkey t (15 - i)) [0..<Suc n]) d)"
  using assms(2)
proof (induction n)
  case 0
  then show ?case
    using rot_28 [OF assms(1)] times_facts(3)
    by (simp add: decrypt_turn_def turns_def subkey_def Let_def)
next
  case (Suc n)
  then show ?case
    using ROR_step [OF assms(1), of n "junk (Suc n)"]
    by (simp add: decrypt_turn_def turns_def subkey_def Let_def)
qed

lemma decrypt_network:
  assumes "length t = 56" "length d = 64" "is_bits d"
  shows "snd (fold (decrypt_turn junk) [0..<16] (t, d)) = network (rev (map (subkey t) [0..<16])) d"
proof -
  have u: "[0..<16] = [0..<15] @ [15]" by (simp add: upt_rec)
  let ?ks = "map (\<lambda>i. subkey t (15 - i)) [0..<15]"
  have tu: "length (turns ?ks d) = 64" "is_bits (turns ?ks d)"
    using turns_ok [of d ?ks] assms by simp_all
  have r: "length (des_round (subkey t 0) (turns ?ks d)) = 64" using des_round_ok(1) [OF tu] by simp
  have rv: "rev (map (subkey t) [0..<16]) = ?ks @ [subkey t 0]"
    by (rule nth_equalityI) (auto simp: rev_nth nth_append less_Suc_eq)
  have "fold (decrypt_turn junk) [0..<16] (t, d) =
      decrypt_turn junk 15 (rot (shifts 1) t, turns ?ks d)"
    unfolding u using decrypt_turns [OF assms(1), of 14 junk d] by simp
  also have "snd \<dots> = des_round (subkey t 0) (turns ?ks d)"
    using ROR_step [OF assms(1), of 14 "junk 15"]
    by (simp add: decrypt_turn_def subkey_def Let_def)
  also have "\<dots> = network (rev (map (subkey t) [0..<16])) d"
    unfolding rv network_def using DES_Swap_ok(2) [OF r] by (simp add: turns_def)
  finally show ?thesis .
qed

section \<open>DES and triple DES are invertible\<close>

lemma key_bits: "length (DES_PC1_Transform (snd (Char8ToBit64 k))) = 56"
  by (simp add: DES_PC1_Transform_def table_lengths)

definition des_keys :: "byte list \<Rightarrow> byte list list" where
  "des_keys k = map (subkey (DES_PC1_Transform (snd (Char8ToBit64 k)))) [0..<16]"

lemma des_keys_length: "\<forall>k' \<in> set (des_keys k). length k' = 48"
  by (simp add: des_keys_def)

definition through :: "(byte list \<Rightarrow> byte list) \<Rightarrow> byte list \<Rightarrow> byte list" where
  "through f m = Bit64ToChar8 (DES_IP_1_Transform (f (DES_IP_Transform (snd (Char8ToBit64 m)))))"

lemma des_networks:
  assumes "length m = 8" "length k = 8"
  shows "encrypt_des junk m k = through (network (des_keys k)) m"
    and "decrypt_des junk m k = through (network (rev (des_keys k))) m"
proof -
  have b: "length (DES_IP_Transform (snd (Char8ToBit64 m))) = 64" "is_bits (DES_IP_Transform (snd (Char8ToBit64 m)))"
    using IP_bits(1) Char8ToBit64_bits [of m] assms(1) by simp_all
  show "encrypt_des junk m k = through (network (des_keys k)) m"
    using encrypt_network [OF key_bits b, of junk k] assms
    by (simp add: encrypt_des_def through_def des_keys_def case_prod_beta Let_def)
  show "decrypt_des junk m k = through (network (rev (des_keys k))) m"
    using decrypt_network [OF key_bits b, of junk k] assms
    by (simp add: decrypt_des_def through_def des_keys_def case_prod_beta Let_def)
qed

lemma through_through:
  assumes "length m = 8" "\<And>d. length d = 64 \<Longrightarrow> is_bits d \<Longrightarrow> length (f d) = 64 \<and> is_bits (f d) \<and> g (f d) = d"
  shows "through g (through f m) = m"
proof -
  let ?d = "DES_IP_Transform (snd (Char8ToBit64 m))"
  have d: "length ?d = 64 \<and> is_bits ?d" using IP_bits(1) Char8ToBit64_bits [of m] assms(1) by simp
  then have f: "length (f ?d) = 64" "is_bits (f ?d)" "g (f ?d) = ?d" using assms(2) by simp_all
  have "snd (Char8ToBit64 (through f m)) = DES_IP_1_Transform (f ?d)"
    unfolding through_def using Char8_Bit64 IP_bits(2) [OF f(1,2)] by blast
  then have "through g (through f m) = Bit64ToChar8 (DES_IP_1_Transform ?d)"
    unfolding through_def [of g] using IP_IP_1(1) [OF f(1)] f(3) by simp
  then show ?thesis
    using IP_IP_1(2) [of "snd (Char8ToBit64 m)"] Char8ToBit64_bits [of m] assms(1) Bit64_Char8 by simp
qed

lemma des_length: "length m = 8 \<Longrightarrow> length k = 8 \<Longrightarrow> length (encrypt_des junk m k) = 8"
  "length m = 8 \<Longrightarrow> length k = 8 \<Longrightarrow> length (decrypt_des junk m k) = 8"
  by (simp_all add: des_networks through_def)

lemma decrypt_encrypt:
  assumes "length m = 8" "length k = 8"
  shows "decrypt_des junk' (encrypt_des junk m k) k = m"
  using through_through [OF assms(1), of "network (des_keys k)" "network (rev (des_keys k))"]
    network_ok [OF _ _ des_keys_length] network_inverse [OF _ _ des_keys_length]
    des_networks [OF assms] des_networks(2) [OF des_length(1) [OF assms] assms(2)] by simp

lemma encrypt_decrypt:
  assumes "length m = 8" "length k = 8"
  shows "encrypt_des junk' (decrypt_des junk m k) k = m"
proof -
  have r: "\<forall>k' \<in> set (rev (des_keys k)). length k' = 48" using des_keys_length by simp
  show ?thesis
    using through_through [OF assms(1), of "network (rev (des_keys k))" "network (des_keys k)"]
      network_ok [OF _ _ r] network_inverse [OF _ _ r]
      des_networks [OF assms] des_networks(1) [OF des_length(2) [OF assms] assms(2)] by simp
qed

text \<open>
  C3. DES: \<open>decrypt_des\<close> and \<open>encrypt_des\<close> with the same eight-byte key are inverse to one
  another on every eight-byte block, in both orders, and the result does not depend on the stack
  cells the rotations read beyond the key array.
\<close>

theorem des_inverse:
  assumes "length m = 8" and "length k = 8"
  shows "decrypt_des junk' (encrypt_des junk m k) k = m \<and> encrypt_des junk' (decrypt_des junk m k) k = m \<and>
    encrypt_des junk m k = encrypt_des junk' m k"
  using decrypt_encrypt [OF assms] encrypt_decrypt [OF assms] des_networks(1) [OF assms] by simp

theorem des_inverse_witness:
  "decrypt_des (\<lambda>_. 1) (encrypt_des (\<lambda>_. 0) [1, 2, 3, 4, 5, 6, 7, 8] [9, 8, 7, 6, 5, 4, 3, 2]) [9, 8, 7, 6, 5, 4, 3, 2] =
     [1, 2, 3, 4, 5, 6, 7, 8]"
  by (rule des_inverse [THEN conjunct1]) simp_all

subsection \<open>Blocks of an array\<close>

fun map_blocks :: "(byte list \<Rightarrow> byte list) \<Rightarrow> nat \<Rightarrow> byte list \<Rightarrow> byte list" where
  "map_blocks F 0 d = d"
| "map_blocks F (Suc n) d = F (take 8 d) @ map_blocks F n (drop 8 d)"

definition block_fun :: "(byte list \<Rightarrow> byte list) \<Rightarrow> bool" where
  "block_fun F \<longleftrightarrow> (\<forall>b. length b = 8 \<longrightarrow> length (F b) = 8)"

lemma on_block_at:
  assumes "block_fun F" "k + 8 \<le> length d"
  shows "on_block F (int k) d = Some (take k d @ F (take 8 (drop k d)) @ drop (k + 8) d)"
  using assms by (simp add: on_block_def rd_def wr_def block_fun_def nat_add_distrib)

lemma on_block_again:
  assumes "block_fun F" "length p = k" "length b = 8"
  shows "on_block F (int k) (p @ b @ r) = Some (p @ F b @ r)"
  using on_block_at [OF assms(1), of k "p @ b @ r"] assms(2,3) by simp

lemma map_blocks_length:
  "block_fun F \<Longrightarrow> 8 * n \<le> length d \<Longrightarrow> length (map_blocks F n d) = length d"
  by (induction n arbitrary: d) (auto simp: block_fun_def)

lemma map_blocks_inverse:
  "block_fun F \<Longrightarrow> \<forall>b. length b = 8 \<longrightarrow> G (F b) = b \<Longrightarrow> 8 * n \<le> length d \<Longrightarrow> map_blocks G n (map_blocks F n d) = d"
  by (induction n arbitrary: d) (auto simp: block_fun_def)

definition tdes_enc :: "(nat \<Rightarrow> byte) \<Rightarrow> byte list \<Rightarrow> byte list \<Rightarrow> byte list \<Rightarrow> byte list" where
  "tdes_enc junk ka kb b = encrypt_des junk (decrypt_des junk (encrypt_des junk b ka) kb) ka"

definition tdes_dec :: "(nat \<Rightarrow> byte) \<Rightarrow> byte list \<Rightarrow> byte list \<Rightarrow> byte list \<Rightarrow> byte list" where
  "tdes_dec junk ka kb b = decrypt_des junk (encrypt_des junk (decrypt_des junk b ka) kb) ka"

lemma des_block_fun: "length k = 8 \<Longrightarrow> block_fun (\<lambda>b. encrypt_des junk b k)"
  "length k = 8 \<Longrightarrow> block_fun (\<lambda>b. decrypt_des junk b k)"
  by (simp_all add: block_fun_def des_length)

lemma tdes_block_fun: "length ka = 8 \<Longrightarrow> length kb = 8 \<Longrightarrow> block_fun (tdes_enc junk ka kb)"
  "length ka = 8 \<Longrightarrow> length kb = 8 \<Longrightarrow> block_fun (tdes_dec junk ka kb)"
  by (simp_all add: block_fun_def des_length tdes_enc_def tdes_dec_def)

lemma tdes_inverse:
  "length ka = 8 \<Longrightarrow> length kb = 8 \<Longrightarrow> \<forall>b. length b = 8 \<longrightarrow> tdes_dec junk' ka kb (tdes_enc junk ka kb b) = b"
  by (simp add: tdes_enc_def tdes_dec_def des_length decrypt_encrypt encrypt_decrypt)

lemma enc_blocks_map:
  assumes "length ka = 8" "length kb = 8"
  shows "length p = k \<Longrightarrow> 8 * n \<le> length d \<Longrightarrow>
    enc_blocks junk ka kb n (int k) (p @ d) = Some (p @ map_blocks (tdes_enc junk ka kb) n d)"
proof (induction n arbitrary: p k d)
  case (Suc n)
  obtain b r where d: "d = b @ r" and b: "length b = 8"
    using Suc.prems(2) by (metis append_take_drop_id length_take min.absorb2 mult_Suc_right add_leD1)
  note e = on_block_again [OF des_block_fun(1) [OF assms(1)] Suc.prems(1)]
    and f = on_block_again [OF des_block_fun(2) [OF assms(2)] Suc.prems(1)]
  have "enc_blocks junk ka kb (Suc n) (int k) (p @ b @ r) =
      enc_blocks junk ka kb n (int k + 8) (p @ tdes_enc junk ka kb b @ r)"
    using b assms by (simp add: e f des_length tdes_enc_def)
  also have "\<dots> = enc_blocks junk ka kb n (int (k + 8)) ((p @ tdes_enc junk ka kb b) @ r)" by simp
  also have "\<dots> = Some ((p @ tdes_enc junk ka kb b) @ map_blocks (tdes_enc junk ka kb) n r)"
    using Suc b d tdes_block_fun(1) [OF assms] by (intro Suc.IH) (simp_all add: block_fun_def)
  finally show ?case using d b by simp
qed simp

lemma dec_blocks_map:
  assumes "length ka = 8" "length kb = 8"
  shows "length p = k \<Longrightarrow> 8 * n \<le> length d \<Longrightarrow>
    dec_blocks junk ka kb n (int k) (p @ d) = Some (p @ map_blocks (tdes_dec junk ka kb) n d)"
proof (induction n arbitrary: p k d)
  case (Suc n)
  obtain b r where d: "d = b @ r" and b: "length b = 8"
    using Suc.prems(2) by (metis append_take_drop_id length_take min.absorb2 mult_Suc_right add_leD1)
  note e = on_block_again [OF des_block_fun(2) [OF assms(1)] Suc.prems(1)]
    and f = on_block_again [OF des_block_fun(1) [OF assms(2)] Suc.prems(1)]
  have "dec_blocks junk ka kb (Suc n) (int k) (p @ b @ r) =
      dec_blocks junk ka kb n (int k + 8) (p @ tdes_dec junk ka kb b @ r)"
    using b assms by (simp add: e f des_length tdes_dec_def)
  also have "\<dots> = dec_blocks junk ka kb n (int (k + 8)) ((p @ tdes_dec junk ka kb b) @ r)" by simp
  also have "\<dots> = Some ((p @ tdes_dec junk ka kb b) @ map_blocks (tdes_dec junk ka kb) n r)"
    using Suc b d tdes_block_fun(2) [OF assms] by (intro Suc.IH) (simp_all add: block_fun_def)
  finally show ?case using d b by simp
qed simp

subsection \<open>Triple DES\<close>

text \<open>The padded data: the length rounded up, the mark 0x80 behind the last byte.\<close>

definition padded :: "byte \<Rightarrow> byte list \<Rightarrow> byte list" where
  "padded n d = (if n mod 8 = 0 then n # d else ((n div 8 + 1) * 8) # d[unat n := 0x80])"

lemma unat_numeral_8: "unat (8 :: byte) = 8" by simp

lemma small_length:
  fixes n :: byte
  assumes "n \<le> 248"
  shows "unat (n div 8) = unat n div 8" "n mod 8 = 0 \<longleftrightarrow> unat n mod 8 = 0"
    "n mod 8 \<noteq> 0 \<Longrightarrow> unat (n div 8 + 1) = unat n div 8 + 1"
    "n mod 8 \<noteq> 0 \<Longrightarrow> unat ((n div 8 + 1) * 8) = (unat n div 8 + 1) * 8"
    "n mod 8 \<noteq> 0 \<Longrightarrow> ((n div 8 + 1) * 8) div 8 = n div 8 + 1"
proof -
  have n: "unat n \<le> 248" using assms by (simp add: word_le_nat_alt)
  show d: "unat (n div 8) = unat n div 8" by (simp add: unat_div)
  show m: "n mod 8 = 0 \<longleftrightarrow> unat n mod 8 = 0" by (simp add: word_eq_iff_unsigned [of "n mod 8"] unat_mod flip: unat_eq_0)
  show a: "unat (n div 8 + 1) = unat n div 8 + 1" if "n mod 8 \<noteq> 0"
    using n by (simp add: unat_word_ariths d)
  show b: "unat ((n div 8 + 1) * 8) = (unat n div 8 + 1) * 8" if "n mod 8 \<noteq> 0"
  proof -
    have "unat n mod 8 \<noteq> 0" using that m by simp
    then have "unat n \<noteq> 248" by auto
    then have "unat n div 8 \<le> 30" using n by linarith
    then have "(unat n div 8 + 1) * unat (8 :: byte) mod 2 ^ LENGTH(8) = (unat n div 8 + 1) * 8" by simp
    then show ?thesis unfolding unat_word_ariths(2) a [OF that] .
  qed
  show "((n div 8 + 1) * 8) div 8 = n div 8 + 1" if "n mod 8 \<noteq> 0"
  proof (rule word_unat_eq_iff [THEN iffD2])
    have "unat ((n div 8 + 1) * 8 div 8) = unat ((n div 8 + 1) * 8) div unat (8 :: byte)" by (rule unat_div)
    then show "unat ((n div 8 + 1) * 8 div 8) = unat (n div 8 + 1)" unfolding a [OF that] b [OF that] by simp
  qed
qed

lemma blocks_of:
  fixes u :: nat
  shows "u mod 8 = 0 \<Longrightarrow> (u + 7) div 8 = u div 8"
    and "u mod 8 \<noteq> 0 \<Longrightarrow> (u + 7) div 8 = u div 8 + 1"
    and "u < (u div 8 + 1) * 8"
proof -
  have u: "u = 8 * (u div 8) + u mod 8" and m: "u mod 8 < 8" by simp_all
  have d: "(u + 7) div 8 = u div 8 + (u mod 8 + 7) div 8"
    by (subst u) (simp only: add.assoc div_mult_self2 zero_neq_numeral not_False_eq_True)
  show "u mod 8 = 0 \<Longrightarrow> (u + 7) div 8 = u div 8" using d by simp
  show "u < (u div 8 + 1) * 8" by (metis div_less_iff_less_mult less_add_one zero_less_numeral)
  show "(u + 7) div 8 = u div 8 + 1" if "u mod 8 \<noteq> 0"
  proof -
    have "u mod 8 + 7 = (u mod 8 - 1) + 8" using that by simp
    moreover have "(u mod 8 - 1 + 8) div 8 = 1" using m that by (simp add: div_add_self2)
    ultimately show ?thesis using d by simp
  qed
qed

lemma encrypt_3des_padded:
  assumes "length key = 16" "n \<le> 248" "(unat n + 7) div 8 * 8 \<le> length d"
  shows "encrypt_3des junk (n # d) key =
    Some (hd (padded n d) # map_blocks (tdes_enc junk (take 8 key) (drop 8 key)) ((unat n + 7) div 8) (tl (padded n d)))"
proof -
  let ?ka = "take 8 key" and ?kb = "drop 8 key"
  have k: "rd key 0 8 = Some ?ka" "rd key 8 8 = Some ?kb" "length ?ka = 8" "length ?kb = 8"
    using assms(1) by (simp_all add: rd_def)
  note sl = small_length [OF assms(2)]
  show ?thesis
  proof (cases "n mod 8 = 0")
    case True
    then have "(unat n + 7) div 8 = unat n div 8" using sl(2) blocks_of(1) [of "unat n"] by simp
    then show ?thesis
      using True k assms(3) sl(1) enc_blocks_map [OF k(3,4), of "[n]" 1 "unat n div 8" d junk]
      by (simp add: encrypt_3des_def padded_def get_def)
  next
    case False
    then have u: "unat n mod 8 \<noteq> 0" using sl(2) by simp
    note e = blocks_of(2) [OF u]
    have l: "unat n < length d" using assms(3) blocks_of(3) [of "unat n"] unfolding e by linarith
    let ?h = "(n div 8 + 1) * 8"
    have "put (n # d) (uint n + 1) 0x80 = Some (n # d[unat n := 0x80])"
      using l put_nat [of "Suc (unat n)" "n # d" "0x80"] by (simp add: add.commute)
    moreover have "put (n # d[unat n := 0x80]) 0 ?h = Some (?h # d[unat n := 0x80])"
      by (simp add: put_def)
    moreover have "enc_blocks junk ?ka ?kb (unat n div 8 + 1) (int 1) ([?h] @ d[unat n := 0x80]) =
        Some ([?h] @ map_blocks (tdes_enc junk ?ka ?kb) (unat n div 8 + 1) (d[unat n := 0x80]))"
      using assms(3) unfolding e by (intro enc_blocks_map [OF k(3,4)]) auto
    ultimately show ?thesis
      using False k sl(3) e by (simp add: encrypt_3des_def padded_def get_def)
  qed
qed

text \<open>
  Triple DES: for a message of at most 248 bytes in an array that holds its whole blocks,
  and any sixteen-byte key, \<open>encrypt_3des\<close> stays inside the array, and \<open>decrypt_3des\<close> of the
  result is the message with its length rounded up to whole blocks and the padding mark 0x80
  behind its last byte (when it did not fill its last block).
\<close>

theorem tdes_roundtrip:
  assumes "length key = 16" and "n \<le> 248" and "(unat n + 7) div 8 * 8 \<le> length d"
  shows "\<exists>c. encrypt_3des junk (n # d) key = Some c \<and> length c = Suc (length d) \<and>
    decrypt_3des junk' c key = Some (padded n d) \<and>
    take (unat n) (tl (padded n d)) = take (unat n) d"
proof -
  let ?ka = "take 8 key" and ?kb = "drop 8 key" and ?b = "(unat n + 7) div 8"
  let ?h = "hd (padded n d)" and ?d = "tl (padded n d)"
  let ?c = "map_blocks (tdes_enc junk ?ka ?kb) ?b ?d"
  have k: "rd key 0 8 = Some ?ka" "rd key 8 8 = Some ?kb" "length ?ka = 8" "length ?kb = 8"
    using assms(1) by (simp_all add: rd_def)
  note sl = small_length [OF assms(2)]
  have p: "padded n d = ?h # ?d" by (simp add: padded_def)
  have l: "8 * ?b \<le> length ?d" using assms(3) by (simp add: padded_def)
  have h: "unat (?h div 8) = ?b"
  proof (cases "n mod 8 = 0")
    case True
    then have "(unat n + 7) div 8 = unat n div 8" using sl(2) blocks_of(1) [of "unat n"] by simp
    then show ?thesis using True sl(1) by (simp add: padded_def)
  next
    case False
    then have "(unat n + 7) div 8 = unat n div 8 + 1" using sl(2) blocks_of(2) [of "unat n"] by simp
    then show ?thesis using False sl(3,5) by (simp add: padded_def)
  qed
  have c: "length ?c = length ?d" by (rule map_blocks_length [OF tdes_block_fun(1) [OF k(3,4)] l])
  have "dec_blocks junk' ?ka ?kb ?b (int 1) ([?h] @ ?c) =
      Some ([?h] @ map_blocks (tdes_dec junk' ?ka ?kb) ?b ?c)"
    by (rule dec_blocks_map [OF k(3,4)]) (use l c in auto)
  also have "map_blocks (tdes_dec junk' ?ka ?kb) ?b ?c = ?d"
    by (rule map_blocks_inverse [OF tdes_block_fun(1) [OF k(3,4)] tdes_inverse [OF k(3,4)] l])
  finally have "decrypt_3des junk' (?h # ?c) key = Some (padded n d)"
    using k h p by (simp add: decrypt_3des_def get_def)
  moreover have "take (unat n) ?d = take (unat n) d" by (simp add: padded_def)
  ultimately show ?thesis
    using encrypt_3des_padded [OF assms] c by (intro exI [of _ "?h # ?c"]) (simp add: padded_def)
qed

theorem tdes_roundtrip_witness:
  "\<exists>c. encrypt_3des (\<lambda>_. 3) (3 # [7, 8, 9, 0, 0, 0, 0, 0]) (replicate 16 1) = Some c \<and>
     decrypt_3des (\<lambda>_. 5) c (replicate 16 1) = Some [8, 7, 8, 9, 0x80, 0, 0, 0, 0]"
  using tdes_roundtrip [of "replicate 16 1" 3 "[7, 8, 9, 0, 0, 0, 0, 0]" "\<lambda>_. 3" "\<lambda>_. 5"]
  by (auto simp: padded_def)

text \<open>
  A flaw of the length byte: a message of 249 to 255 bytes is rounded up to 256, which the
  byte cannot hold. \<open>encrypt_3des\<close> stores the length 0, and \<open>decrypt_3des\<close> then decrypts
  nothing.
\<close>

theorem tdes_length_wraps:
  assumes "length key = 16" and "248 < n" and "256 \<le> length d"
  shows "\<exists>c. encrypt_3des junk (n # d) key = Some (0 # c) \<and> decrypt_3des junk' (0 # c) key = Some (0 # c)"
proof -
  let ?ka = "take 8 key" and ?kb = "drop 8 key"
  have k: "rd key 0 8 = Some ?ka" "rd key 8 8 = Some ?kb" "length ?ka = 8" "length ?kb = 8"
    using assms(1) by (simp_all add: rd_def)
  have "unat n < 2 ^ LENGTH(8)" by (rule unsigned_less)
  then have u: "248 < unat n" "unat n < 256" using assms(2) by (simp_all add: word_less_nat_alt)
  then have "unat n div 8 = 31" "unat n mod 8 \<noteq> 0" by presburger+
  then have q: "n div 8 = 31" "n mod 8 \<noteq> 0" by (simp_all add: word_unat_eq_iff unat_div unat_mod)
  have "put (n # d) (uint n + 1) 0x80 = Some (n # d[unat n := 0x80])"
    using u assms(3) put_nat [of "Suc (unat n)" "n # d" "0x80"] by (simp add: add.commute)
  moreover have "put (n # d[unat n := 0x80]) 0 256 = Some (0 # d[unat n := 0x80])"
  proof -
    have w: "(256 :: byte) = 0" by (rule word_unat_eq_iff [THEN iffD2]) simp
    show ?thesis unfolding w by (simp add: put_def)
  qed
  moreover have "enc_blocks junk ?ka ?kb 32 (int 1) ([0] @ d[unat n := 0x80]) =
      Some ([0] @ map_blocks (tdes_enc junk ?ka ?kb) 32 (d[unat n := 0x80]))"
    using assms(3) by (intro enc_blocks_map [OF k(3,4)]) auto
  ultimately have "encrypt_3des junk (n # d) key = Some (0 # map_blocks (tdes_enc junk ?ka ?kb) 32 (d[unat n := 0x80]))"
    using q k by (simp add: encrypt_3des_def get_def)
  then show ?thesis using k by (simp add: decrypt_3des_def get_def)
qed

theorem tdes_length_wraps_witness:
  "\<exists>c. encrypt_3des (\<lambda>_. 0) (250 # replicate 256 0) (replicate 16 1) = Some (0 # c) \<and>
     decrypt_3des (\<lambda>_. 0) (0 # c) (replicate 16 1) = Some (0 # c)"
  by (rule tdes_length_wraps) simp_all

subsection \<open>Decrypting a file\<close>

lemma map_blocks_add:
  "8 * a \<le> length d \<Longrightarrow> map_blocks F (a + b) d = map_blocks F a (take (8 * a) d) @ map_blocks F b (drop (8 * a) d)"
  by (induction a arbitrary: d) (simp_all add: drop_take add.commute)

lemma file_step:
  assumes "length io = 248"
  shows "decrypt_3des junk (248 # io) file_key =
    Some (248 # map_blocks (tdes_dec junk (take 8 file_key) (drop 8 file_key)) 31 io)"
proof -
  let ?ka = "take 8 file_key" and ?kb = "drop 8 file_key"
  have k: "rd file_key 0 8 = Some ?ka" "rd file_key 8 8 = Some ?kb" "length ?ka = 8" "length ?kb = 8"
    by (simp_all add: rd_def file_key_def)
  have "dec_blocks junk ?ka ?kb 31 (int 1) ([248] @ io) = Some ([248] @ map_blocks (tdes_dec junk ?ka ?kb) 31 io)"
    by (rule dec_blocks_map [OF k(3,4)]) (use assms in simp_all)
  then show ?thesis using k by (simp add: decrypt_3des_def get_def)
qed

lemma file_blocks_map:
  fixes junk
  defines "F \<equiv> tdes_dec junk (take 8 file_key) (drop 8 file_key)"
  shows "length io = 248 \<Longrightarrow> length p = 248 * i \<Longrightarrow>
    file_blocks junk i n (248 # io) (p @ d) =
      (if n = 0 \<or> 248 * n \<le> length d then Some (p @ map_blocks F (31 * n) d) else None)"
proof (induction n arbitrary: i io p d)
  case (Suc n)
  show ?case
  proof (cases "248 \<le> length d")
    case False
    then have "rd (p @ d) (int i * 248) 248 = None" using Suc.prems by (simp add: rd_def)
    then show ?thesis using False by simp
  next
    case True
    let ?b = "take 248 d" and ?r = "drop 248 d"
    let ?m = "map_blocks F 31 ?b"
    have b: "length ?b = 248" using True by simp
    have bf: "block_fun F" unfolding F_def by (rule tdes_block_fun) (simp_all add: file_key_def)
    have m: "length ?m = 248" using map_blocks_length [OF bf, of 31 ?b] b by simp
    have "rd (p @ d) (int i * 248) 248 = Some ?b"
      using Suc.prems True by (simp add: rd_def nat_mult_distrib mult.commute)
    moreover have "wr (248 # io) 1 ?b = Some (248 # ?b)"
      using Suc.prems b by (simp add: wr_def)
    moreover have "decrypt_3des junk (248 # ?b) file_key = Some (248 # ?m)"
      using file_step [OF b] by (simp add: F_def)
    moreover have "rd (248 # ?m) 1 248 = Some ?m" using m by (simp add: rd_def)
    moreover have "wr (p @ d) (int i * 248) ?m = Some ((p @ ?m) @ ?r)"
      using Suc.prems True m by (simp add: wr_def nat_mult_distrib mult.commute)
    ultimately have "file_blocks junk i (Suc n) (248 # io) (p @ d) =
        file_blocks junk (Suc i) n (248 # ?m) ((p @ ?m) @ ?r)"
      by (simp only: file_blocks.simps bind.bind_lunit)
    also have "\<dots> = (if n = 0 \<or> 248 * n \<le> length ?r then Some ((p @ ?m) @ map_blocks F (31 * n) ?r) else None)"
      by (rule Suc.IH) (use m Suc.prems(2) in simp_all)
    finally have r: "file_blocks junk i (Suc n) (248 # io) (p @ d) =
      (if n = 0 \<or> 248 * n \<le> length ?r then Some ((p @ ?m) @ map_blocks F (31 * n) ?r) else None)" .
    have "?m @ map_blocks F (31 * n) ?r = map_blocks F (31 * Suc n) d"
      using map_blocks_add [of 31 d F "31 * n"] True by (simp add: add.commute)
    then show ?thesis unfolding r using True by auto
  qed
qed simp

text \<open>
  \<open>decrypt_file\<close> always handles 200 pieces of 248 bytes: a file of at least 49,600 bytes is
  triple-DES decrypted in place on its first 6,200 blocks and kept behind them, and for a shorter
  file (whose length the code never looks at) the loop reads and writes behind the buffer.
\<close>

theorem decrypt_file_pieces:
  "decrypt_file junk file =
     (if 49600 \<le> length file
      then Some (map_blocks (tdes_dec junk (take 8 file_key) (drop 8 file_key)) 6200 file) else None)"
proof -
  have "file_blocks junk 0 200 (248 # replicate 248 0) ([] @ file) =
      (if 200 = (0 :: nat) \<or> 248 * 200 \<le> length file
       then Some ([] @ map_blocks (tdes_dec junk (take 8 file_key) (drop 8 file_key)) (31 * 200) file) else None)"
    by (rule file_blocks_map) simp_all
  then show ?thesis by (simp add: decrypt_file_def)
qed

end
