(* ===== verification/CfgPersist.thy ===== *)
theory CfgPersist
  imports CfgMng "HOL-Library.Multiset"
begin

text \<open>
  What the configuration manager promises: an update is written so that loading gives it back,
  new indices are fresh, and an element is found under its type and index.
\<close>

section \<open>The keys of the map\<close>

definition roots :: "string list" where
  "roots = [''Transfer'', ''Alg'', ''Db'', ''App'', ''Task'']"

text \<open>
  Names under which no element can be mistaken for a root node: sub nodes have a name, and an
  index ends with a digit.
\<close>

definition idx_text :: "string \<Rightarrow> bool" where
  "idx_text i \<longleftrightarrow> i \<noteq> [] \<and> is_digit (byte_of (last i))"

definition node_ok :: "string \<times> json \<Rightarrow> bool" where
  "node_ok p \<longleftrightarrow> fst p \<noteq> [] \<and>
     (\<forall>e \<in> set (jvalues (snd p)). case jtext ''idx'' e of None \<Rightarrow> True | Some i \<Rightarrow> idx_text i)"

definition cfg_wf :: "json \<Rightarrow> bool" where
  "cfg_wf j \<longleftrightarrow> (\<forall>r \<in> set roots. \<forall>p \<in> set (members (jget r j)). node_ok p)"

lemma GetSysCfg_save: "GetSysCfg k (CfgSave k' e m) = (if k = k' then GetSysCfg k m @ [e] else GetSysCfg k m)"
  by (simp add: GetSysCfg_def CfgSave_def split: option.split)

lemma root_not_node: "node \<in> set roots \<Longrightarrow> k \<in> set roots \<Longrightarrow> sub \<noteq> [] \<Longrightarrow> node @ sub @ ty \<noteq> k"
  by (auto simp: roots_def append_eq_Cons_conv)

lemma root_not_idx:
  assumes "k \<in> set roots" "idx_text i"
  shows "ty @ i \<noteq> k"
proof
  assume eq: "ty @ i = k"
  then have "last k = last i" using assms(2) by (auto simp: idx_text_def)
  moreover have "\<not> is_digit (byte_of (last k))"
    using assms(1) by (auto simp: roots_def is_digit_def byte_of_def)
  ultimately show False using assms(2) by (simp add: idx_text_def)
qed

lemma save_elms_root:
  assumes "save_elms node sub elms m = Some m'" "node \<in> set roots" "k \<in> set roots" "sub \<noteq> []"
    and "\<forall>e \<in> set elms. case jtext ''idx'' e of None \<Rightarrow> True | Some i \<Rightarrow> idx_text i"
  shows "GetSysCfg k m' = GetSysCfg k m"
  using assms
proof (induction elms arbitrary: m)
  case (Cons e elms)
  obtain ty i where ti: "jtext ''type'' e = Some ty" "jtext ''idx'' e = Some i"
    using Cons.prems(1) by (auto split: bind_splits)
  have "k \<noteq> ty @ i" using root_not_idx [of k i ty] Cons.prems(3,5) ti by auto
  moreover have "k \<noteq> node @ sub @ ty" "k \<noteq> node @ sub"
    using root_not_node [OF Cons.prems(2-4), of ty] root_not_node [OF Cons.prems(2-4), of "[]"] by auto
  ultimately show ?case using Cons.IH Cons.prems ti by (simp add: GetSysCfg_save)
qed simp

lemma save_nodes_root:
  assumes "save_nodes node nodes m = Some m'" "node \<in> set roots" "k \<in> set roots" "\<forall>p \<in> set nodes. node_ok p"
  shows "GetSysCfg k m' = GetSysCfg k m"
  using assms
proof (induction nodes arbitrary: m)
  case (Cons p nodes)
  obtain sub v where p: "p = (sub, v)" by (cases p)
  obtain m1 where m1: "save_elms node sub (jvalues v) m = Some m1" "save_nodes node nodes m1 = Some m'"
    using Cons.prems(1) p by (auto split: bind_splits)
  have "GetSysCfg k m1 = GetSysCfg k m"
    by (rule save_elms_root [OF m1(1) Cons.prems(2,3)]) (use Cons.prems(4) p in \<open>auto simp: node_ok_def\<close>)
  then show ?case using Cons.IH [OF m1(2)] Cons.prems by simp
qed simp

lemma jmember_jget: "jmember k j = Some v \<Longrightarrow> v = jget k j"
  by (auto simp: jmember_def split: json.splits)

lemma keyed_members: "keyed j = Some nodes \<Longrightarrow> set nodes = set (members j)"
  by (auto simp: keyed_def jitems_def members_def split: json.splits if_splits)

lemma ParseJsonNodeObj_root:
  assumes "ParseJsonNodeObj j r m = Some m'" "cfg_wf j" "r \<in> set roots" "k \<in> set roots"
  shows "GetSysCfg k m' = GetSysCfg k m @ (if k = r then [jget r j] else [])"
proof -
  obtain jn nodes where jn: "jmember r j = Some jn" "keyed jn = Some nodes"
      "save_nodes r nodes (CfgSave r jn m) = Some m'"
    using assms(1) by (auto simp: ParseJsonNodeObj_def split: bind_splits)
  have "\<forall>p \<in> set nodes. node_ok p"
    using assms(2,3) keyed_members [OF jn(2)] jmember_jget [OF jn(1)] by (simp add: cfg_wf_def)
  then show ?thesis
    using save_nodes_root [OF jn(3) assms(3,4)] jmember_jget [OF jn(1)] by (simp add: GetSysCfg_save)
qed

lemma ParseJson_root:
  assumes "ParseJson j (\<lambda>_. None) = Some m" "cfg_wf j" "k \<in> set roots"
  shows "GetSysCfg k m = [jget k j]"
proof -
  obtain m1 m2 m3 m4 where ms: "ParseJsonNodeObj j ''Transfer'' (\<lambda>_. None) = Some m1"
      "ParseJsonNodeObj j ''Alg'' m1 = Some m2" "ParseJsonNodeObj j ''Db'' m2 = Some m3"
      "ParseJsonNodeObj j ''App'' m3 = Some m4" "ParseJsonNodeObj j ''Task'' m4 = Some m"
    using assms(1) by (auto simp: ParseJson_def split: bind_splits)
  have r: "''Transfer'' \<in> set roots" "''Alg'' \<in> set roots" "''Db'' \<in> set roots" "''App'' \<in> set roots"
      "''Task'' \<in> set roots" by (simp_all add: roots_def)
  have k: "k = ''Transfer'' \<or> k = ''Alg'' \<or> k = ''Db'' \<or> k = ''App'' \<or> k = ''Task''"
    using assms(3) by (simp add: roots_def)
  have e: "GetSysCfg k (\<lambda>_. None) = []" by (simp add: GetSysCfg_def)
  show ?thesis
    using k unfolding ParseJsonNodeObj_root [OF ms(5) assms(2) r(5) assms(3)]
      ParseJsonNodeObj_root [OF ms(4) assms(2) r(4) assms(3)]
      ParseJsonNodeObj_root [OF ms(3) assms(2) r(3) assms(3)]
      ParseJsonNodeObj_root [OF ms(2) assms(2) r(2) assms(3)]
      ParseJsonNodeObj_root [OF ms(1) assms(2) r(1) assms(3)] e
    by (elim disjE) simp_all
qed

section \<open>The tables after an update\<close>

definition table_row :: "string \<Rightarrow> string \<Rightarrow> json \<Rightarrow> cfg_row option" where
  "table_row t = (if t = ''App'' then AppRow else if t = ''Task'' then TaskRow
     else if t = ''Alg'' then AlgRow else TransferRow)"

definition table_columns :: "string \<Rightarrow> string list" where
  "table_columns t = (if t = ''App'' then app_columns else if t = ''Task'' then task_columns
     else if t = ''Alg'' then alg_columns else transfer_columns)"

lemma table_opt_other: "table_opt row t cfg db = Some db' \<Longrightarrow> u \<noteq> t \<or> db u \<noteq> [] \<Longrightarrow> db' u = db u"
  by (auto simp: table_opt_def DbExeInitFun_def Let_def split: if_splits bind_splits)

lemma table_opt_filled:
  "table_opt row t cfg db = Some db' \<Longrightarrow> db t = [] \<Longrightarrow> GetSysCfg t cfg = [j] \<Longrightarrow> cfg_rows row [j] = Some (db' t)"
  by (auto simp: table_opt_def DbExeInitFun_def Let_def split: if_splits bind_splits)

text \<open>One table after another: a table with rows stays, an empty one is filled from its root node.\<close>

fun opt_tables :: "string list \<Rightarrow> cfg_map \<Rightarrow> cfg_db \<Rightarrow> cfg_db option" where
  "opt_tables [] cfg db = Some db"
| "opt_tables (t # ts) cfg db = table_opt (table_row t) t cfg db \<bind> opt_tables ts cfg"

lemma opt_tables_fun:
  "opt_tables [] cfg = Some"
  "opt_tables (t # ts) cfg = (\<lambda>db. table_opt (table_row t) t cfg db \<bind> opt_tables ts cfg)"
  by (simp_all add: fun_eq_iff)

lemma DBTableOpt_tables: "DBTableOpt cfg db = opt_tables [''App'', ''Task'', ''Alg'', ''Transfer'', ''Db''] cfg db"
  by (simp add: DBTableOpt_def AppCfgTableDbOpt_def TaskCfgTableDbOpt_def AlgCfgTableDbOpt_def
      DbOrTransferTableOpt_def table_row_def opt_tables_fun)

lemma opt_tables_kept: "opt_tables ts cfg db = Some db' \<Longrightarrow> t \<notin> set ts \<or> db t \<noteq> [] \<Longrightarrow> db' t = db t"
proof (induction ts arbitrary: db)
  case (Cons u ts)
  then obtain db1 where db1: "table_opt (table_row u) u cfg db = Some db1" "opt_tables ts cfg db1 = Some db'"
    by (auto split: bind_splits)
  have "db1 t = db t" by (rule table_opt_other [OF db1(1)]) (use Cons.prems(2) in auto)
  then show ?case using Cons.IH [OF db1(2)] Cons.prems(2) by auto
qed simp

lemma opt_tables_filled:
  assumes "opt_tables ts cfg db = Some db'" "t \<in> set ts" "db t = []" "GetSysCfg t cfg = [j]"
    and "cfg_rows (table_row t) [j] = Some rows" "distinct ts"
  shows "db' t = rows"
  using assms
proof (induction ts arbitrary: db)
  case (Cons u ts)
  then obtain db1 where db1: "table_opt (table_row u) u cfg db = Some db1" "opt_tables ts cfg db1 = Some db'"
    by (auto split: bind_splits)
  show ?case
  proof (cases "u = t")
    case True
    then have "db1 t = rows" using table_opt_filled [of "table_row t" t cfg db db1 j] db1(1) Cons.prems by simp
    moreover have "db' t = db1 t" using opt_tables_kept [OF db1(2), of t] Cons.prems(6) True by simp
    ultimately show ?thesis by simp
  next
    case False
    then have "db1 t = []" using table_opt_other [OF db1(1), of t] Cons.prems(3) by simp
    then show ?thesis using Cons.IH [OF db1(2)] Cons.prems False by simp
  qed
qed simp

lemma load_saved_table:
  assumes "fresh_root t cfg" "root_ok (table_columns t) j"
  shows "\<exists>rows. cfg_rows (table_row t) [j] = Some rows \<and> rows \<noteq> [] \<and>
    load_rows t rows cfg = Some (JObj (members cfg @ [(t, reload (table_columns t) j)]))"
  using app_table.load_saved [of t cfg j] task_table.load_saved [of t cfg j] alg_table.load_saved [of t cfg j]
    transfer_table.load_saved [of t cfg j] assms
  by (simp add: table_row_def table_columns_def split: if_splits)

lemma update_tables:
  assumes "RuntimeSysCfgUpdate root jSub s db = Some (s', db')"
    and "GetSysCfgFirst ''DbSqliteSvr'' (m_mapExFactory s) \<noteq> None"
    and "SqliteDelDBTopic ''sqlitesvr'' \<in> set (m_topics s)"
  shows "DBTableOpt (m_mapRuntime s') (db(root := [])) = Some db' \<and>
    ParseJson (m_jRuntimeSysCfg s') (\<lambda>_. None) = Some (m_mapRuntime s')"
  using assms by (auto simp: RuntimeSysCfgUpdate_def Let_def delete_from_def split: bind_splits if_splits)

text \<open>
  C20. A configuration update survives a restart: when the new root node can be written and read
  back (texts without the separators inside nested attributes), the delete request reaches the
  database, and no index can be mistaken for a root node, then loading the table gives exactly
  the new node's columns, and the other tables that hold rows are untouched.
\<close>

theorem config_survives_restart:
  assumes "root \<in> {''App'', ''Transfer'', ''Db''}"
    and "RuntimeSysCfgUpdate root jSub s db = Some (s', db')"
    and "cfg_wf (m_jRuntimeSysCfg s')"
    and "root_ok (table_columns root) (jget root (m_jRuntimeSysCfg s'))"
    and "GetSysCfgFirst ''DbSqliteSvr'' (m_mapExFactory s) = Some svr" and "jtext ''type'' svr = Some ty"
    and "SqliteDelDBTopic ''sqlitesvr'' \<in> set (m_topics s)"
    and "fresh_root root cfg"
  shows "LoadRuntimeSysCfgTableInDb (m_mapExFactory s') db' root cfg =
      Some (JObj (members cfg @ [(root, reload (table_columns root) (jget root (m_jRuntimeSysCfg s')))])) \<and>
    (\<forall>t. t \<noteq> root \<longrightarrow> db t \<noteq> [] \<longrightarrow> db' t = db t)"
proof -
  have r: "root \<in> set roots" and ts: "root \<in> set [''App'', ''Task'', ''Alg'', ''Transfer'', ''Db'']"
    using assms(1) by (auto simp: roots_def)
  have u: "opt_tables [''App'', ''Task'', ''Alg'', ''Transfer'', ''Db''] (m_mapRuntime s') (db(root := [])) = Some db'"
      "ParseJson (m_jRuntimeSysCfg s') (\<lambda>_. None) = Some (m_mapRuntime s')"
    using update_tables [OF assms(2) _ assms(7)] assms(5) unfolding DBTableOpt_tables by simp_all
  obtain rows where rows: "cfg_rows (table_row root) [jget root (m_jRuntimeSysCfg s')] = Some rows"
      "load_rows root rows cfg = Some (JObj (members cfg @ [(root, reload (table_columns root) (jget root (m_jRuntimeSysCfg s')))]))"
    using load_saved_table [OF assms(8,4)] by blast
  have "db' root = rows"
    by (rule opt_tables_filled [OF u(1) ts _ ParseJson_root [OF u(2) assms(3) r] rows(1)]) simp_all
  moreover have "m_mapExFactory s' = m_mapExFactory s"
    using assms(2) by (auto simp: RuntimeSysCfgUpdate_def Let_def split: bind_splits if_splits)
  moreover have "db' t = db t" if "t \<noteq> root" "db t \<noteq> []" for t
    using opt_tables_kept [OF u(1), of t] that by simp
  ultimately show ?thesis using rows(2) assms(5,6) by (simp add: LoadRuntimeSysCfgTableInDb_def)
qed

section \<open>New indices\<close>

definition is_new :: "json \<Rightarrow> bool" where
  "is_new obj \<longleftrightarrow> jtext ''idx'' obj = Some ''-1''"

definition new_idxs :: "json list \<Rightarrow> json list \<Rightarrow> string option list" where
  "new_idxs objs objs' = map (\<lambda>p. jtext ''idx'' (snd p)) (filter (\<lambda>p. is_new (fst p)) (zip objs objs'))"

lemma jtext_jset: "jset k (JStr v) j = Some j' \<Longrightarrow> jtext k j' = Some v"
  by (auto simp: jset_def jtext_def jget_def update_conv' split: json.splits)

lemma max_idx_bound:
  "max_idx objs m = Some M \<Longrightarrow> m \<le> M \<and>
   (\<forall>e \<in> set objs. \<forall>x. jtext ''idx'' e = Some x \<longrightarrow> x \<noteq> ''-1'' \<longrightarrow> (\<exists>v. atoi x = Some v \<and> v \<le> M))"
proof (induction objs arbitrary: m)
  case (Cons obj objs)
  obtain x where x: "jtext ''idx'' obj = Some x" using Cons.prems by (auto split: bind_splits)
  show ?case
  proof (cases "x = ''-1''")
    case True
    then show ?thesis using Cons x by simp
  next
    case False
    then obtain v where v: "atoi x = Some v" "max_idx objs (if v > m then v else m) = Some M"
      using Cons.prems x by (auto split: bind_splits)
    have "(if v > m then v else m) \<le> M" using Cons.IH [OF v(2)] by simp
    then have "v \<le> M" "m \<le> M" by (simp_all split: if_splits)
    then show ?thesis using Cons.IH [OF v(2)] v(1) x by auto
  qed
qed simp

lemma assign_idx_spec:
  "assign_idx objs M = Some objs' \<Longrightarrow> length objs' = length objs \<and>
   (\<forall>i < length objs. \<not> is_new (objs ! i) \<longrightarrow> objs' ! i = objs ! i) \<and>
   new_idxs objs objs' = map (\<lambda>v. Some (to_string v)) [M + 1..M + int (length (filter is_new objs))]"
proof (induction objs arbitrary: M objs')
  case (Cons obj objs)
  obtain x where x: "jtext ''idx'' obj = Some x" using Cons.prems by (auto split: bind_splits)
  show ?case
  proof (cases "x = ''-1''")
    case True
    then obtain obj' os where n: "jset ''idx'' (JStr (to_string (M + 1))) obj = Some obj'"
        "assign_idx objs (M + 1) = Some os" "objs' = obj' # os"
      using Cons.prems x by (auto simp: i32_def split: bind_splits if_splits)
    have new: "is_new obj" using True x by (simp add: is_new_def)
    have "[M + 1..M + int (Suc (length (filter is_new objs)))] =
        (M + 1) # [M + 1 + 1..M + 1 + int (length (filter is_new objs))]"
      by (subst upto_rec1) (simp_all add: algebra_simps)
    then show ?thesis
      using Cons.IH [OF n(2)] n(3) new jtext_jset [OF n(1)]
      by (auto simp: new_idxs_def nth_Cons split: nat.splits)
  next
    case False
    then obtain os where n: "assign_idx objs M = Some os" "objs' = obj # os"
      using Cons.prems x by (auto split: bind_splits)
    then show ?thesis
      using Cons.IH [OF n(1)] False x by (auto simp: new_idxs_def is_new_def nth_Cons split: nat.splits)
  qed
qed (simp add: new_idxs_def)

lemma assign_nodes_spec:
  assumes "assign_nodes jRoot nodes = Some nodes'"
  shows "map fst nodes' = map fst nodes \<and> (\<forall>(n, v) \<in> set nodes. \<exists>M vs.
    max_idx (jvalues (jget n jRoot)) 0 = Some M \<and> assign_idx (jvalues v) M = Some vs \<and> (n, with_values v vs) \<in> set nodes')"
  using assms
proof (induction nodes arbitrary: nodes')
  case (Cons p nodes)
  obtain n v where p: "p = (n, v)" by (cases p)
  obtain old M vs ns where q: "jmember n jRoot = Some old" "max_idx (jvalues old) 0 = Some M"
      "assign_idx (jvalues v) M = Some vs" "assign_nodes jRoot nodes = Some ns" "nodes' = (n, with_values v vs) # ns"
    using Cons.prems p by (auto split: bind_splits)
  show ?case using Cons.IH [OF q(4)] q(2,3,5) jmember_jget [OF q(1)] p by fastforce
qed simp

lemma jget_replace_root: "replace_root r j t cfg = Some cfg' \<Longrightarrow> jget r cfg' = j"
  by (auto simp: replace_root_def jget_def update_conv' split: json.splits if_splits)

text \<open>
  The indices an update hands out are fresh: in every sub node the elements marked \<open>-1\<close> get, in
  their order, the numbers that follow the greatest index of the running configuration (or 0), and
  every other element is stored as it was sent.
\<close>

theorem new_indices_fresh:
  assumes "RuntimeSysCfgUpdate root (JObj nodes) s db = Some (s', db')"
    and "(n, JArr objs) \<in> set nodes" and "distinct (map fst nodes)"
  shows "\<exists>M objs'. jget n (jget root (m_jRuntimeSysCfg s')) = JArr objs' \<and> length objs' = length objs \<and>
    (\<forall>i < length objs. \<not> is_new (objs ! i) \<longrightarrow> objs' ! i = objs ! i) \<and>
    new_idxs objs objs' = map (\<lambda>v. Some (to_string v)) [M + 1..M + int (length (filter is_new objs))] \<and> 0 \<le> M \<and>
    (\<forall>e \<in> set (jvalues (jget n (jget root (m_jRuntimeSysCfg s)))). \<forall>x. jtext ''idx'' e = Some x \<longrightarrow> x \<noteq> ''-1'' \<longrightarrow>
      (\<exists>v. atoi x = Some v \<and> v \<le> M))"
proof -
  have items: "set (jitems nodes) = set nodes" "mset (jitems nodes) = mset nodes" by (simp_all add: jitems_def)
  then have ne: "jitems nodes \<noteq> []" using assms(2) by auto
  obtain jRoot nodes' where a: "jmember root (m_jRuntimeSysCfg s) = Some jRoot" "assign_nodes jRoot (jitems nodes) = Some nodes'"
      "replace_root root (JObj nodes') True (m_jRuntimeSysCfg s) = Some (m_jRuntimeSysCfg s')"
    using assms(1) ne by (auto simp: RuntimeSysCfgUpdate_def Let_def keyed_def split: bind_splits if_splits)
  have root: "jRoot = jget root (m_jRuntimeSysCfg s)" "jget root (m_jRuntimeSysCfg s') = JObj nodes'"
    using jmember_jget [OF a(1)] jget_replace_root [OF a(3)] by simp_all
  obtain M vs where M: "max_idx (jvalues (jget n jRoot)) 0 = Some M" "assign_idx objs M = Some vs"
      "(n, JArr vs) \<in> set nodes'"
    using assign_nodes_spec [OF a(2)] items assms(2) by (fastforce simp: jvalues_def with_values_def)
  have "distinct (map fst nodes')"
    using assign_nodes_spec [OF a(2)] assms(3) items(2) by (metis mset_map mset_eq_imp_distinct_iff)
  then have "jget n (JObj nodes') = JArr vs" using M(3) by simp
  then show ?thesis
    using assign_idx_spec [OF M(2)] max_idx_bound [OF M(1)] root
    by (intro exI [of _ M] exI [of _ vs]) simp
qed

section \<open>Finding elements\<close>

text \<open>The elements of a configuration in the order they are stored, and their keys.\<close>

definition node_elms :: "json \<Rightarrow> string \<Rightarrow> json list" where
  "node_elms j r = concat (map (\<lambda>p. jvalues (snd p)) (jitems (members (jget r j))))"

definition elements :: "json \<Rightarrow> json list" where
  "elements j = concat (map (node_elms j) [''Transfer'', ''Alg'', ''Db'', ''App'', ''Task''])"

definition elm_key :: "json \<Rightarrow> string option" where
  "elm_key e = do { ty \<leftarrow> jtext ''type'' e; i \<leftarrow> jtext ''idx'' e; Some (ty @ i)}"

lemma save_elms_key:
  assumes "save_elms node sub elms m = Some m'" "\<forall>x. k \<noteq> node @ x"
  shows "GetSysCfg k m' = GetSysCfg k m @ filter (\<lambda>e. elm_key e = Some k) elms"
  using assms
proof (induction elms arbitrary: m)
  case (Cons e elms)
  obtain ty i where ti: "jtext ''type'' e = Some ty" "jtext ''idx'' e = Some i"
    using Cons.prems(1) by (auto split: bind_splits)
  then show ?case using Cons by (auto simp: GetSysCfg_save elm_key_def)
qed simp

lemma save_nodes_key:
  assumes "save_nodes node nodes m = Some m'" "\<forall>x. k \<noteq> node @ x"
  shows "GetSysCfg k m' = GetSysCfg k m @ filter (\<lambda>e. elm_key e = Some k) (concat (map (\<lambda>p. jvalues (snd p)) nodes))"
  using assms
proof (induction nodes arbitrary: m)
  case (Cons p nodes)
  then show ?case using save_elms_key [where k = k and node = node] by (cases p) (fastforce split: bind_splits)
qed simp

lemma keyed_jitems: "keyed j = Some nodes \<Longrightarrow> nodes = jitems (members j)"
  by (auto simp: keyed_def members_def jitems_def split: json.splits if_splits)

lemma ParseJsonNodeObj_key:
  assumes "ParseJsonNodeObj j r m = Some m'" "\<forall>x. k \<noteq> r @ x"
  shows "GetSysCfg k m' = GetSysCfg k m @ filter (\<lambda>e. elm_key e = Some k) (node_elms j r)"
proof -
  obtain jn nodes where jn: "jmember r j = Some jn" "keyed jn = Some nodes"
      "save_nodes r nodes (CfgSave r jn m) = Some m'"
    using assms(1) by (auto simp: ParseJsonNodeObj_def split: bind_splits)
  have "k \<noteq> r" using assms(2) by (metis append_Nil2)
  then show ?thesis
    using save_nodes_key [OF jn(3) assms(2)] keyed_jitems [OF jn(2)] jmember_jget [OF jn(1)]
    by (simp add: GetSysCfg_save node_elms_def)
qed

text \<open>
  An element is found under its type and index: for a key that does not begin with the name of
  a root node, the map holds exactly the elements of the configuration whose type followed by the
  index is that key, in order. Elements whose texts run together to the same key share it.
\<close>

theorem elements_by_index:
  assumes "ParseJson j (\<lambda>_. None) = Some m" and "\<forall>r \<in> set roots. \<forall>x. k \<noteq> r @ x"
  shows "GetSysCfg k m = filter (\<lambda>e. elm_key e = Some k) (elements j)"
proof -
  obtain m1 m2 m3 m4 where ms: "ParseJsonNodeObj j ''Transfer'' (\<lambda>_. None) = Some m1"
      "ParseJsonNodeObj j ''Alg'' m1 = Some m2" "ParseJsonNodeObj j ''Db'' m2 = Some m3"
      "ParseJsonNodeObj j ''App'' m3 = Some m4" "ParseJsonNodeObj j ''Task'' m4 = Some m"
    using assms(1) by (auto simp: ParseJson_def split: bind_splits)
  have "GetSysCfg k (\<lambda>_. None) = []" by (simp add: GetSysCfg_def)
  then show ?thesis
    using ms [THEN ParseJsonNodeObj_key, of k] assms(2) by (simp add: elements_def roots_def)
qed

section \<open>Defaults that come back\<close>

lemma load_rows_fresh:
  "load_rows t rows cfg = Some cfg' \<Longrightarrow> fresh_root u cfg \<Longrightarrow> u \<noteq> t \<Longrightarrow> fresh_root u cfg'"
proof (induction rows arbitrary: cfg)
  case (Cons row rows)
  obtain n j sub cfg1 where q: "jset t sub cfg = Some cfg1" "load_rows t rows cfg1 = Some cfg'"
    using Cons.prems(1) by (auto split: bind_splits)
  have "fresh_root u cfg1"
  proof (cases cfg)
    case (JObj m)
    then have "cfg1 = JObj (AList.update t sub m)" using q(1) by simp
    then show ?thesis using Cons.prems(2,3) JObj by (simp add: fresh_root_def dom_update)
  next
    case JNull
    then have "cfg1 = JObj [(t, sub)]" using q(1) by simp
    then show ?thesis using Cons.prems(3) by (simp add: fresh_root_def)
  qed (use q(1) in \<open>simp_all add: jset_def\<close>)
  then show ?case using Cons.IH [OF q(2)] Cons.prems(3) by blast
qed simp

lemma load_table_fresh:
  "LoadRuntimeSysCfgTableInDb ex db t cfg = Some cfg' \<Longrightarrow> fresh_root u cfg \<Longrightarrow> u \<noteq> t \<Longrightarrow> fresh_root u cfg'"
  by (auto simp: LoadRuntimeSysCfgTableInDb_def load_rows_fresh split: option.splits bind_splits)

lemma fresh_JNull [simp]: "fresh_root t JNull"
  by (simp add: fresh_root_def)

text \<open>
  Deleting every application task does not survive a restart: after an update with an empty
  list the table is empty, and the next start fills it with the tasks of the factory file, which
  the running configuration then has again.
\<close>

theorem defaults_return:
  assumes "RuntimeSysCfgUpdate ''App'' (JObj [(''CommSafe'', JArr [])]) s db = Some (s', db')"
    and "GetSysCfgFirst ''DbSqliteSvr'' (m_mapExFactory s) \<noteq> None"
    and "SqliteDelDBTopic ''sqlitesvr'' \<in> set (m_topics s)" and "cfg_wf (m_jRuntimeSysCfg s')"
    and "LoadCfg (Some file) new_CCfgMng db' = Some (subs, s2, db2)"
    and "cfg_wf file" and "root_ok app_columns (jget ''App'' file)"
    and "GetSysCfgFirst ''DbSqliteSvr'' (m_mapExFactory s2) \<noteq> None"
  shows "db' ''App'' = [] \<and> jget ''App'' (m_jRuntimeSysCfg s2) = reload app_columns (jget ''App'' file)"
proof -
  let ?ts = "[''App'', ''Task'', ''Alg'', ''Transfer'', ''Db'']"
  have app: "''App'' \<in> set roots" "''App'' \<in> set ?ts" "distinct ?ts" "table_row ''App'' = AppRow"
      "table_columns ''App'' = app_columns"
    by (simp_all add: roots_def table_row_def table_columns_def)
  have u: "opt_tables ?ts (m_mapRuntime s') (db(''App'' := [])) = Some db'"
      "ParseJson (m_jRuntimeSysCfg s') (\<lambda>_. None) = Some (m_mapRuntime s')"
    using update_tables [OF assms(1-3)] unfolding DBTableOpt_tables by simp_all
  obtain j1 where "replace_root ''App'' (JObj [(''CommSafe'', JArr [])]) True j1 = Some (m_jRuntimeSysCfg s')"
    using assms(1) by (auto simp: RuntimeSysCfgUpdate_def Let_def keyed_def jitems_def jvalues_def
        with_values_def split: bind_splits if_splits)
  then have "cfg_rows (table_row ''App'') [jget ''App'' (m_jRuntimeSysCfg s')] = Some []"
    using jget_replace_root by (simp add: keyed_def jitems_def jvalues_def)
  then have empty: "db' ''App'' = []"
    using opt_tables_filled [OF u(1) app(2) _ ParseJson_root [OF u(2) assms(4) app(1)] _ app(3)] by simp
  obtain m ts s1 where f: "ParseJson file (\<lambda>_. None) = Some m" "DBTableOpt m db' = Some db2"
      "s1 = new_CCfgMng\<lparr>m_jExFactorySysCfg := file, m_mapExFactory := m, m_topics := ts\<rparr>"
      "LoadRuntimeSysCfgInDb s1 db2 = Some s2"
    using assms(5) by (auto simp: LoadCfg_def LoadExFactorySysCfgInFile_def SqliteSvrInit_def new_CCfgMng_def
        split: bind_splits)
  obtain rows where rows: "cfg_rows (table_row ''App'') [jget ''App'' file] = Some rows"
      "\<And>cfg. fresh_root ''App'' cfg \<Longrightarrow> load_rows ''App'' rows cfg = Some (JObj (members cfg @ [(''App'', reload app_columns (jget ''App'' file))]))"
    using load_saved_table [of "''App''" _ "jget ''App'' file"] assms(7) app(5)
    by (metis fresh_JNull option.inject)
  have "db2 ''App'' = rows"
    using opt_tables_filled [OF f(2) [unfolded DBTableOpt_tables] app(2) empty ParseJson_root [OF f(1) assms(6) app(1)] rows(1) app(3)] .
  moreover obtain cfg where cfg: "fresh_root ''App'' cfg" "LoadRuntimeSysCfgTableInDb m db2 ''App'' cfg = Some (m_jRuntimeSysCfg s2)"
  proof -
    obtain c1 c2 c3 c4 where c: "LoadRuntimeSysCfgTableInDb m db2 ''Transfer'' JNull = Some c1"
        "LoadRuntimeSysCfgTableInDb m db2 ''Db'' c1 = Some c2" "LoadRuntimeSysCfgTableInDb m db2 ''Alg'' c2 = Some c3"
        "LoadRuntimeSysCfgTableInDb m db2 ''Task'' c3 = Some c4"
        "LoadRuntimeSysCfgTableInDb m db2 ''App'' c4 = Some (m_jRuntimeSysCfg s2)"
      using f(4) unfolding f(3) by (auto simp: LoadRuntimeSysCfgInDb_def new_CCfgMng_def split: bind_splits)
    have "fresh_root ''App'' c4"
      using load_table_fresh [OF c(1), of "''App''"] load_table_fresh [OF c(2), of "''App''"]
        load_table_fresh [OF c(3), of "''App''"] load_table_fresh [OF c(4), of "''App''"] by simp
    then show ?thesis using that c(5) by blast
  qed
  moreover have "m_mapExFactory s2 = m"
    using f(4) unfolding f(3) by (auto simp: LoadRuntimeSysCfgInDb_def split: bind_splits)
  ultimately have "load_rows ''App'' rows cfg = Some (m_jRuntimeSysCfg s2)"
    using assms(8) by (auto simp: LoadRuntimeSysCfgTableInDb_def split: bind_splits)
  then have "m_jRuntimeSysCfg s2 = JObj (members cfg @ [(''App'', reload app_columns (jget ''App'' file))])"
    using rows(2) [OF cfg(1)] by simp
  then have "jget ''App'' (m_jRuntimeSysCfg s2) = reload app_columns (jget ''App'' file)"
    using cfg(1) by (simp add: fresh_root_def map_of_end del: map_of_append)
  then show ?thesis using empty by blast
qed

section \<open>Concrete runs\<close>

definition demo_task_elm :: "string \<Rightarrow> json" where
  "demo_task_elm i = JObj [(''alg_idx'', JStr ''0''),
     (''data_src'', JArr [JObj [(''desc'', JStr ''yard''), (''transfer_id'', JStr ''rtspcli1'')]]),
     (''end_time'', JStr ''23:59:59''), (''idx'', JStr i), (''start_time'', JStr ''''),
     (''task_lst'', JStr ''0|23''), (''type'', JStr ''Helmet'')]"

definition demo_apps :: "string \<Rightarrow> json" where
  "demo_apps i = JObj [(''CommSafe'', JArr [demo_task_elm i])]"

definition demo_server :: json where
  "demo_server = JObj [(''desc'', JStr ''''), (''enable'', JStr ''1''), (''idx'', JStr ''1''), (''ip'', JStr ''''),
     (''params'', JObj []), (''port'', JStr ''''), (''type'', JStr ''sqlitesvr'')]"

definition demo_file :: json where
  "demo_file = JObj [(''App'', demo_apps ''1''), (''Db'', JObj [(''SqliteSvr'', JArr [demo_server])])]"

definition demo_cfg :: CCfgMng where
  "demo_cfg = new_CCfgMng\<lparr>m_mapExFactory := [''DbSqliteSvr'' \<mapsto> [demo_server]], m_topics := [''sqlitesvrDelFromDB''],
     m_jRuntimeSysCfg := JObj [(''App'', demo_apps ''7'')]\<rparr>"


lemma demo_update:
  "\<exists>s' db'. RuntimeSysCfgUpdate ''App'' (demo_apps ''-1'') demo_cfg (\<lambda>_. []) = Some (s', db') \<and>
     m_jRuntimeSysCfg s' = JObj [(''App'', demo_apps ''8'')]"
proof -
  have "map_option (\<lambda>p. m_jRuntimeSysCfg (fst p)) (RuntimeSysCfgUpdate ''App'' (demo_apps ''-1'') demo_cfg (\<lambda>_. [])) =
      Some (JObj [(''App'', demo_apps ''8'')])"
    by code_simp
  then show ?thesis by auto
qed

theorem config_survives_restart_witness:
  "\<exists>s' db'. RuntimeSysCfgUpdate ''App'' (demo_apps ''-1'') demo_cfg (\<lambda>_. []) = Some (s', db') \<and>
     LoadRuntimeSysCfgTableInDb (m_mapExFactory s') db' ''App'' JNull =
       Some (JObj [(''App'', reload app_columns (demo_apps ''8''))])"
proof -
  obtain s' db' where u: "RuntimeSysCfgUpdate ''App'' (demo_apps ''-1'') demo_cfg (\<lambda>_. []) = Some (s', db')"
      "m_jRuntimeSysCfg s' = JObj [(''App'', demo_apps ''8'')]"
    using demo_update by blast
  have c: "table_columns ''App'' = app_columns" by (simp add: table_columns_def)
  have "root_ok app_columns (demo_apps ''8'')" "cfg_wf (JObj [(''App'', demo_apps ''8'')])" by code_simp+
  then show ?thesis
    using config_survives_restart [of "''App''", OF _ u(1), of demo_server "''sqlitesvr''" JNull] u c
    by (simp add: demo_cfg_def demo_server_def GetSysCfgFirst_def SqliteDelDBTopic_def jtext_def)
qed

theorem new_indices_fresh_witness:
  "\<exists>s' db' M objs'. RuntimeSysCfgUpdate ''App'' (demo_apps ''-1'') demo_cfg (\<lambda>_. []) = Some (s', db') \<and>
     jget ''CommSafe'' (jget ''App'' (m_jRuntimeSysCfg s')) = JArr objs' \<and> 7 \<le> M \<and>
     new_idxs [demo_task_elm ''-1''] objs' = [Some (to_string (M + 1))]"
proof -
  obtain s' db' where u: "RuntimeSysCfgUpdate ''App'' (demo_apps ''-1'') demo_cfg (\<lambda>_. []) = Some (s', db')"
    using demo_update by blast
  have run: "jvalues (jget ''CommSafe'' (jget ''App'' (m_jRuntimeSysCfg demo_cfg))) = [demo_task_elm ''7'']"
    by (simp add: demo_cfg_def demo_apps_def jvalues_def)
  have idx: "jtext ''idx'' (demo_task_elm i) = Some i" for i by (simp add: demo_task_elm_def jtext_def)
  have new: "length (filter is_new [demo_task_elm ''-1'']) = 1" by (simp add: is_new_def idx)
  have seven: "atoi ''7'' = Some 7" by code_simp
  obtain M objs' where "jget ''CommSafe'' (jget ''App'' (m_jRuntimeSysCfg s')) = JArr objs'"
      "new_idxs [demo_task_elm ''-1''] objs' = map (\<lambda>v. Some (to_string v)) [M + 1..M + int 1]"
      "\<forall>e \<in> set [demo_task_elm ''7'']. \<forall>x. jtext ''idx'' e = Some x \<longrightarrow> x \<noteq> ''-1'' \<longrightarrow> (\<exists>v. atoi x = Some v \<and> v \<le> M)"
    using new_indices_fresh [OF u [unfolded demo_apps_def], of "''CommSafe''" "[demo_task_elm ''-1'']"]
    unfolding run new by auto
  moreover from this(3) have "7 \<le> M" using idx [of "''7''"] seven by simp
  ultimately show ?thesis using u by auto
qed

theorem elements_by_index_witness:
  "\<exists>m. ParseJson demo_file (\<lambda>_. None) = Some m \<and> GetSysCfg ''Helmet1'' m = [demo_task_elm ''1'']"
proof -
  have "ParseJson demo_file (\<lambda>_. None) \<noteq> None" by code_simp
  then obtain m where m: "ParseJson demo_file (\<lambda>_. None) = Some m" by auto
  have "filter (\<lambda>e. elm_key e = Some ''Helmet1'') (elements demo_file) = [demo_task_elm ''1'']" by code_simp
  then show ?thesis using elements_by_index [OF m, of "''Helmet1''"] m by (simp add: roots_def)
qed

theorem defaults_return_witness:
  "\<exists>s' db' subs s2 db2. RuntimeSysCfgUpdate ''App'' (JObj [(''CommSafe'', JArr [])]) demo_cfg (\<lambda>_. []) = Some (s', db') \<and>
     LoadCfg (Some demo_file) new_CCfgMng db' = Some (subs, s2, db2) \<and>
     jget ''App'' (m_jRuntimeSysCfg s2) = reload app_columns (demo_apps ''1'')"
proof -
  let ?upd = "RuntimeSysCfgUpdate ''App'' (JObj [(''CommSafe'', JArr [])]) demo_cfg (\<lambda>_. [])"
  have "map_option (\<lambda>(s, db). (m_jRuntimeSysCfg s, map_option (\<lambda>(t, s2, db2). GetSysCfgFirst ''DbSqliteSvr'' (m_mapExFactory s2))
      (LoadCfg (Some demo_file) new_CCfgMng db))) ?upd = Some (JObj [(''App'', JObj [(''CommSafe'', JArr [])])], Some (Some demo_server))"
    by code_simp
  then obtain s' db' subs s2 db2 where u: "?upd = Some (s', db')" "m_jRuntimeSysCfg s' = JObj [(''App'', JObj [(''CommSafe'', JArr [])])]"
      "LoadCfg (Some demo_file) new_CCfgMng db' = Some (subs, s2, db2)"
      "GetSysCfgFirst ''DbSqliteSvr'' (m_mapExFactory s2) = Some demo_server"
    by auto
  have ok: "cfg_wf (JObj [(''App'', JObj [(''CommSafe'', JArr [])])])" "cfg_wf demo_file"
      "root_ok app_columns (jget ''App'' demo_file)" "jget ''App'' demo_file = demo_apps ''1''" by code_simp+
  have "GetSysCfgFirst ''DbSqliteSvr'' (m_mapExFactory demo_cfg) \<noteq> None"
      "SqliteDelDBTopic ''sqlitesvr'' \<in> set (m_topics demo_cfg)"
    by (simp_all add: demo_cfg_def GetSysCfgFirst_def SqliteDelDBTopic_def)
  moreover have "cfg_wf (m_jRuntimeSysCfg s')" using ok(1) u(2) by simp
  moreover have "GetSysCfgFirst ''DbSqliteSvr'' (m_mapExFactory s2) \<noteq> None" using u(4) by simp
  ultimately have "jget ''App'' (m_jRuntimeSysCfg s2) = reload app_columns (jget ''App'' demo_file)"
    using defaults_return [OF u(1) _ _ _ u(3) ok(2,3)] by blast
  then show ?thesis using u(1,3) ok(4) by (intro exI conjI) simp_all
qed

section \<open>Reading that changes the configuration\<close>

lemma map_of_touch: "k \<notin> fst ` set m \<Longrightarrow> map_of (m @ [(k, w)]) k' = (if k' = k then Some w else map_of m k')"
  by (induction m) auto

lemma jin_spec:
  assumes "jin k f j = Some (a, j2)"
  shows "\<exists>v. f (jget k j) = Some (a, v) \<and> jget k j2 = v" and "k' \<noteq> k \<Longrightarrow> jget k' j2 = jget k' j"
proof -
  obtain j1 v where q: "jtouch k j = Some j1" "f (jget k j1) = Some (a, v)" "jset k v j1 = Some j2"
    using assms by (auto simp: jin_def split: bind_splits)
  have g: "jget k'' j1 = jget k'' j" for k''
  proof (cases j)
    case (JObj m)
    then show ?thesis
      using q(1) map_of_touch [of k m JNull k''] map_of_eq_None_iff [of m k]
      by (auto simp: jtouch_def split: if_splits simp del: map_of_append)
  qed (use q(1) in \<open>auto simp: jtouch_def jget_def\<close>)
  have s: "jget k j2 = v" "k' \<noteq> k \<Longrightarrow> jget k' j2 = jget k' j1"
    using q(3) by (auto simp: jset_def jget_def update_conv' split: json.splits)
  show "\<exists>v. f (jget k j) = Some (a, v) \<and> jget k j2 = v" using q(2) g s by auto
  show "k' \<noteq> k \<Longrightarrow> jget k' j2 = jget k' j" using g s by simp
qed

lemma save_nodes_null:
  "(n, JArr [JNull]) \<in> set nodes \<Longrightarrow> save_nodes node nodes m = None"
proof (induction nodes arbitrary: m)
  case (Cons p nodes)
  obtain sub v where p: "p = (sub, v)" by (cases p)
  show ?case
  proof (cases "p = (n, JArr [JNull])")
    case True
    then show ?thesis by (simp add: jvalues_def jtext_def)
  next
    case False
    then show ?thesis using Cons p by (cases "save_elms node sub (jvalues v) m") auto
  qed
qed simp

lemma null_alg_unparsable:
  assumes "jget n (jget ''Alg'' j) = JArr [JNull]"
  shows "ParseJson j m = None"
proof -
  have "ParseJsonNodeObj j ''Alg'' m' = None" for m'
  proof (cases "jmember ''Alg'' j")
    case (Some v)
    then have v: "v = jget ''Alg'' j" by (rule jmember_jget)
    then have "jget n v = JArr [JNull]" using assms by simp
    then obtain ms where ms: "v = JObj ms" "map_of ms n = Some (JArr [JNull])"
      by (cases v) (auto simp: jget_def split: option.splits)
    have "(n, JArr [JNull]) \<in> set (jitems ms)" using map_of_SomeD [OF ms(2)] by (simp add: jitems_def)
    then show ?thesis using Some ms(1) save_nodes_null by (simp add: ParseJsonNodeObj_def keyed_def)
  qed (simp add: ParseJsonNodeObj_def)
  then show ?thesis by (cases "ParseJsonNodeObj j ''Transfer'' m") (simp_all add: ParseJson_def)
qed

lemma replace_root_other: "replace_root r v t j = Some j' \<Longrightarrow> k \<noteq> r \<Longrightarrow> jget k j' = jget k j"
  by (auto simp: replace_root_def jget_def update_conv' split: json.splits if_splits)

text \<open>
  Asking for the configuration can make every later update throw: when the running configuration
  has no detection algorithm, answering request 0x11 leaves a null element in its place, and
  an update of any other root node then ends in an exception while the elements are stored.
\<close>

theorem reading_breaks_updates:
  assumes "CfgRecTcpProtocolMsg parse_json 0x11 (Some req) s db = Some (r, ev, s1, db1)"
    and "jget ''Detect'' (jget ''Alg'' (m_jRuntimeSysCfg s)) \<in> {JNull, JArr []}"
    and "root \<noteq> ''Alg''"
  shows "RuntimeSysCfgUpdate root jSub s1 db1 = None"
proof -
  obtain j where "cfg_reply (m_jRuntimeSysCfg s) = Some (j, m_jRuntimeSysCfg s1)"
    using assms(1) by (auto simp: CfgRecTcpProtocolMsg_def split: bind_splits)
  then obtain a1 a2 a3 a4 a5 a6 c1 c2 c3 c4 c5 where c: "jin ''Transfer'' jread (m_jRuntimeSysCfg s) = Some (a1, c1)"
      "jin ''Db'' jread c1 = Some (a2, c2)" "jin ''Alg'' (jin ''Detect'' (jfirst jread)) c2 = Some (a3, c3)"
      "jin ''Alg'' (jin ''Action'' (jfirst jread)) c3 = Some (a4, c4)"
      "jin ''Task'' (jin ''Detect'' (jfirst (jin ''lst'' jstring))) c4 = Some (a5, c5)"
      "jin ''Task'' (jin ''Action'' (jfirst (jin ''lst'' jstring))) c5 = Some (a6, m_jRuntimeSysCfg s1)"
    by (auto simp: cfg_reply_def split: bind_splits)
  have "jget ''Alg'' c2 = jget ''Alg'' (m_jRuntimeSysCfg s)"
    using jin_spec(2) [OF c(1), of "''Alg''"] jin_spec(2) [OF c(2), of "''Alg''"] by simp
  moreover obtain v where v: "jin ''Detect'' (jfirst jread) (jget ''Alg'' c2) = Some (a3, v)" "jget ''Alg'' c3 = v"
    using jin_spec(1) [OF c(3)] by blast
  ultimately have "jget ''Detect'' (jget ''Alg'' c3) = JArr [JNull]"
    using jin_spec(1) [OF v(1)] assms(2) by (auto simp: jfirst_def jread_def)
  moreover obtain w where w: "jin ''Action'' (jfirst jread) (jget ''Alg'' c3) = Some (a4, w)" "jget ''Alg'' c4 = w"
    using jin_spec(1) [OF c(4)] by blast
  ultimately have "jget ''Detect'' (jget ''Alg'' c4) = JArr [JNull]"
    using jin_spec(2) [OF w(1), of "''Detect''"] by simp
  then have null: "jget ''Detect'' (jget ''Alg'' (m_jRuntimeSysCfg s1)) = JArr [JNull]"
    using jin_spec(2) [OF c(5), of "''Alg''"] jin_spec(2) [OF c(6), of "''Alg''"] by simp
  have "ParseJson j' m = None" if "replace_root root v t (m_jRuntimeSysCfg s1) = Some j'" for v t j' m
    using null replace_root_other [OF that, of "''Alg''"] assms(3) by (simp add: null_alg_unparsable)
  then show ?thesis
    by (auto simp: RuntimeSysCfgUpdate_def Let_def split: Option.bind_splits)
qed

text \<open>Tasks without algorithms: the update works before the request and not after it.\<close>

definition demo_tasks :: CCfgMng where
  "demo_tasks = new_CCfgMng\<lparr>m_jRuntimeSysCfg := JObj [(''Task'', JObj [
     (''Action'', JArr [JObj [(''idx'', JStr ''1''), (''lst'', JStr ''fight''), (''type'', JStr ''action'')]]),
     (''Detect'', JArr [JObj [(''idx'', JStr ''1''), (''lst'', JStr ''person''), (''type'', JStr ''detect'')]])])]\<rparr>"

theorem reading_breaks_updates_witness:
  "\<exists>r ev s1 db1. CfgRecTcpProtocolMsg (\<lambda>_. None) 0x11 (Some []) demo_tasks (\<lambda>_. []) = Some (r, ev, s1, db1) \<and>
     RuntimeSysCfgUpdate ''App'' (JObj [(''CommSafe'', JArr [])]) s1 db1 = None \<and>
     RuntimeSysCfgUpdate ''App'' (JObj [(''CommSafe'', JArr [])]) demo_tasks (\<lambda>_. []) \<noteq> None"
proof -
  have "CfgRecTcpProtocolMsg (\<lambda>_. None) 0x11 (Some []) demo_tasks (\<lambda>_. []) \<noteq> None" by code_simp
  then obtain r ev s1 db1 where q: "CfgRecTcpProtocolMsg (\<lambda>_. None) 0x11 (Some []) demo_tasks (\<lambda>_. []) = Some (r, ev, s1, db1)"
    by auto
  have "jget ''Detect'' (jget ''Alg'' (m_jRuntimeSysCfg demo_tasks)) = JNull"
      "RuntimeSysCfgUpdate ''App'' (JObj [(''CommSafe'', JArr [])]) demo_tasks (\<lambda>_. []) \<noteq> None" by code_simp+
  then show ?thesis using reading_breaks_updates [OF q, of "''App''"] q by auto
qed

end
