(* ===== verification/SmartDB.thy ===== *)
theory SmartDB
  imports AppData
begin

text \<open>
  The wrapper of the SQLite library (db/sqlitedb/SmartDB.h, SmartDB.cpp) and its manager
  (SqliteDbMng.cpp). The library itself is not part of the program: it is the argument
  \<open>E\<close> of every definition, a record of the functions the code calls, acting on a world of its
  own. Pointers are numbers, 0 is the null pointer. \<^term>\<open>None\<close> is an exception, an
  assertion of the JSON library, undefined behaviour, or a loop that does not end.
\<close>

section \<open>The library\<close>

datatype 'f sql_value = SqlNull | SqlInt int | SqlFloat 'f | SqlText string | SqlBlob string

text \<open>JSON as rapidjson parses it; an integer is one that fits 64 bits, signed or unsigned.\<close>

datatype 'f rjson = RNull | RBool bool | RString string | RInt int | RDouble 'f
  | RArray "'f rjson list" | RObject "(string \<times> 'f rjson) list"

record ('w, 'f) sqlite =
  sq_open :: "string \<Rightarrow> 'w \<Rightarrow> int \<times> nat \<times> 'w"
  sq_close :: "nat \<Rightarrow> 'w \<Rightarrow> int \<times> 'w"
  sq_exec :: "nat \<Rightarrow> string \<Rightarrow> 'w \<Rightarrow> int \<times> 'w"
  sq_prepare :: "nat \<Rightarrow> string \<Rightarrow> 'w \<Rightarrow> int \<times> nat \<times> 'w"
  sq_bind :: "nat \<Rightarrow> int \<Rightarrow> 'f sql_value \<Rightarrow> 'w \<Rightarrow> int \<times> 'w"
  sq_step :: "nat \<Rightarrow> 'w \<Rightarrow> int \<times> 'w"
  sq_reset :: "nat \<Rightarrow> 'w \<Rightarrow> 'w"
  sq_finalize :: "nat \<Rightarrow> 'w \<Rightarrow> int \<times> 'w"
  sq_next_stmt :: "nat \<Rightarrow> 'w \<Rightarrow> nat"
  sq_count :: "nat \<Rightarrow> 'w \<Rightarrow> nat"
  sq_name :: "nat \<Rightarrow> nat \<Rightarrow> 'w \<Rightarrow> string"
  sq_column :: "nat \<Rightarrow> nat \<Rightarrow> 'w \<Rightarrow> 'f sql_value option"

abbreviation SQLITE_OK :: int where "SQLITE_OK \<equiv> 0"
abbreviation SQLITE_BUSY :: int where "SQLITE_BUSY \<equiv> 5"
abbreviation SQLITE_DONE :: int where "SQLITE_DONE \<equiv> 101"

section \<open>Connection\<close>

record CSmartDB =
  m_code :: int
  m_bOpened :: bool
  m_dbHandle :: nat
  m_statement :: nat

text \<open>The manager's member is zero-initialised with the manager.\<close>

definition new_CSmartDB :: CSmartDB where
  "new_CSmartDB = \<lparr>m_code = 0, m_bOpened = False, m_dbHandle = 0, m_statement = 0\<rparr>"

definition Excecute :: "('w, 'f) sqlite \<Rightarrow> string \<Rightarrow> CSmartDB \<Rightarrow> 'w \<Rightarrow> bool \<times> CSmartDB \<times> 'w" where
  "Excecute E sqlStr d w = (let (code, w') = sq_exec E (m_dbHandle d) (c_str sqlStr) w in
     (SQLITE_OK = code, d\<lparr>m_code := code\<rparr>, w'))"

definition Begin :: "('w, 'f) sqlite \<Rightarrow> CSmartDB \<Rightarrow> 'w \<Rightarrow> bool \<times> CSmartDB \<times> 'w" where
  "Begin E = Excecute E ''begin transaction''"

definition RollBack :: "('w, 'f) sqlite \<Rightarrow> CSmartDB \<Rightarrow> 'w \<Rightarrow> bool \<times> CSmartDB \<times> 'w" where
  "RollBack E = Excecute E ''rollback transaction''"

definition Commit :: "('w, 'f) sqlite \<Rightarrow> CSmartDB \<Rightarrow> 'w \<Rightarrow> bool \<times> CSmartDB \<times> 'w" where
  "Commit E = Excecute E ''commit transaction''"

definition Open :: "('w, 'f) sqlite \<Rightarrow> string \<Rightarrow> CSmartDB \<Rightarrow> 'w \<Rightarrow> bool \<times> CSmartDB \<times> 'w" where
  "Open E strFileName d w =
     (if m_bOpened d then (True, d, w)
      else let (code, h, w') = sq_open E (c_str strFileName) w in
        (SQLITE_OK = code, d\<lparr>m_code := code, m_dbHandle := h, m_bOpened := (SQLITE_OK = code)\<rparr>, w'))"

text \<open>\<open>CloseDBHandle\<close>: \<open>close_loop\<close> is entered with the code of the last close or finalize.\<close>

partial_function (option) close_loop :: "('w, 'f) sqlite \<Rightarrow> nat \<Rightarrow> int \<Rightarrow> 'w \<Rightarrow> (int \<times> 'w) option" where
  "close_loop E h code w =
     (if code = SQLITE_BUSY then
        (if sq_next_stmt E h w = 0 then Some (SQLITE_OK, w)
         else let (c, w1) = sq_finalize E (sq_next_stmt E h w) w in
           if SQLITE_OK = c then let (c2, w2) = sq_close E h w1 in close_loop E h c2 w2
           else close_loop E h c w1)
      else Some (code, w))"

definition CloseDBHandle :: "('w, 'f) sqlite \<Rightarrow> nat \<Rightarrow> 'w \<Rightarrow> (int \<times> 'w) option" where
  "CloseDBHandle E h w = (let (code, w1) = sq_close E h w in close_loop E h code w1)"

definition CloseDB :: "('w, 'f) sqlite \<Rightarrow> CSmartDB \<Rightarrow> 'w \<Rightarrow> (bool \<times> CSmartDB \<times> 'w) option" where
  "CloseDB E d w =
     (if m_dbHandle d = 0 then Some (True, d, w)
      else do {
        (code, w') \<leftarrow> CloseDBHandle E (m_dbHandle d) (snd (sq_finalize E (m_statement d) w));
        Some (SQLITE_OK = code, d\<lparr>m_code := code, m_dbHandle := 0\<rparr>, w')})"

definition Prepare :: "('w, 'f) sqlite \<Rightarrow> string \<Rightarrow> CSmartDB \<Rightarrow> 'w \<Rightarrow> bool \<times> CSmartDB \<times> 'w" where
  "Prepare E sqlStr d w = (let (code, st, w') = sq_prepare E (m_dbHandle d) (c_str sqlStr) w in
     (SQLITE_OK = code, d\<lparr>m_code := code, m_statement := st\<rparr>, w'))"

section \<open>Writing JSON\<close>

text \<open>
  \<open>GetInt\<close> and \<open>GetInt64\<close> assert that the number fits the signed type; the test before them also lets
  unsigned numbers through.
\<close>

definition number_value :: "'f rjson \<Rightarrow> 'f sql_value option" where
  "number_value t = (case t of
     RInt n \<Rightarrow>
       if - (2 ^ 31) \<le> n \<and> n < 2 ^ 32 then (if n < 2 ^ 31 then Some (SqlInt n) else None)
       else if - (2 ^ 63) \<le> n \<and> n < 2 ^ 64 then (if n < 2 ^ 63 then Some (SqlInt n) else None)
       else None
   | RDouble x \<Rightarrow> Some (SqlFloat x)
   | _ \<Rightarrow> None)"

definition json_value :: "'f rjson \<Rightarrow> 'f sql_value option" where
  "json_value t = (case t of
     RNull \<Rightarrow> Some SqlNull
   | RString s \<Rightarrow> Some (SqlText (c_str s))
   | RInt _ \<Rightarrow> number_value t
   | RDouble _ \<Rightarrow> number_value t
   | _ \<Rightarrow> None)"

definition BindJsonValue :: "('w, 'f) sqlite \<Rightarrow> 'f rjson \<Rightarrow> int \<Rightarrow> CSmartDB \<Rightarrow> 'w \<Rightarrow> (CSmartDB \<times> 'w) option" where
  "BindJsonValue E t index d w = do {
     v \<leftarrow> json_value t;
     let (code, w') = sq_bind E (m_statement d) index v w;
     Some (d\<lparr>m_code := code\<rparr>, w')}"

text \<open>A member is looked up again by its name, which finds the first of that name.\<close>

fun bind_members :: "('w, 'f) sqlite \<Rightarrow> (string \<times> 'f rjson) list \<Rightarrow> (string \<times> 'f rjson) list \<Rightarrow> int \<Rightarrow>
    CSmartDB \<Rightarrow> 'w \<Rightarrow> (CSmartDB \<times> 'w) option" where
  "bind_members E val [] i d w = Some (d, w)"
| "bind_members E val ((k, _) # ms) i d w = do {
     t \<leftarrow> map_of val (c_str k);
     (d1, w1) \<leftarrow> BindJsonValue E t (i + 1) d w;
     bind_members E val ms (i + 1) d1 w1}"

definition ExcecuteJsonVal :: "('w, 'f) sqlite \<Rightarrow> 'f rjson \<Rightarrow> CSmartDB \<Rightarrow> 'w \<Rightarrow> (bool \<times> CSmartDB \<times> 'w) option" where
  "ExcecuteJsonVal E val d w = (case val of
     RObject ms \<Rightarrow> do {
       (d1, w1) \<leftarrow> bind_members E ms ms 0 d w;
       let (code, w2) = sq_step E (m_statement d1) w1;
       Some (SQLITE_DONE = code, d1\<lparr>m_code := code\<rparr>, sq_reset E (m_statement d1) w2)}
   | _ \<Rightarrow> None)"

fun transaction_loop :: "('w, 'f) sqlite \<Rightarrow> 'f rjson list \<Rightarrow> CSmartDB \<Rightarrow> 'w \<Rightarrow> (CSmartDB \<times> 'w) option" where
  "transaction_loop E [] d w = Some (d, w)"
| "transaction_loop E (v # vs) d w = do {
     (ok, d1, w1) \<leftarrow> ExcecuteJsonVal E v d w;
     if \<not> ok then Some (snd (RollBack E d1 w1))
     else transaction_loop E vs d1 w1}"

definition JsonTransaction :: "('w, 'f) sqlite \<Rightarrow> 'f rjson \<Rightarrow> CSmartDB \<Rightarrow> 'w \<Rightarrow> (bool \<times> CSmartDB \<times> 'w) option" where
  "JsonTransaction E doc d w = (case doc of
     RArray vs \<Rightarrow> do {
       (d2, w2) \<leftarrow> (let (_, d1, w1) = Begin E d w in transaction_loop E vs d1 w1);
       if SQLITE_DONE \<noteq> m_code d2 then Some (False, d2, w2)
       else let (_, d3, w3) = Commit E d2 w2 in Some (True, d3, w3)}
   | _ \<Rightarrow> None)"

text \<open>\<open>json\<close> is the parsed text, \<^term>\<open>None\<close> a parse error.\<close>

definition ExcecuteJson :: "('w, 'f) sqlite \<Rightarrow> string \<Rightarrow> 'f rjson option \<Rightarrow> CSmartDB \<Rightarrow> 'w \<Rightarrow>
    (bool \<times> CSmartDB \<times> 'w) option" where
  "ExcecuteJson E sqlStr json d w = (case json of
     None \<Rightarrow> Some (False, d, w)
   | Some doc \<Rightarrow> (let (ok, d1, w1) = Prepare E sqlStr d w in
       if \<not> ok then Some (False, d1, w1) else JsonTransaction E doc d1 w1))"

section \<open>Reading JSON\<close>

text \<open>
  A blob is read up to its first NUL, as a text is, but the library promises none after it, and for an
  empty blob its pointer is null: without a NUL of its own the behaviour is undefined.
\<close>

definition BuildJsonValue :: "('w, 'f) sqlite \<Rightarrow> nat \<Rightarrow> nat \<Rightarrow> 'w \<Rightarrow> 'f rjson option" where
  "BuildJsonValue E stmt index w = (case sq_column E stmt index w of
     Some SqlNull \<Rightarrow> Some RNull
   | Some (SqlInt n) \<Rightarrow> Some (RInt n)
   | Some (SqlFloat x) \<Rightarrow> Some (RDouble x)
   | Some (SqlText s) \<Rightarrow> Some (RString (c_str s))
   | Some (SqlBlob s) \<Rightarrow> if CHR 0x00 \<in> set s then Some (RString (c_str s)) else None
   | None \<Rightarrow> None)"

fun build_columns :: "('w, 'f) sqlite \<Rightarrow> nat \<Rightarrow> nat list \<Rightarrow> 'w \<Rightarrow> (string \<times> 'f rjson) list option" where
  "build_columns E stmt [] w = Some []"
| "build_columns E stmt (i # is) w = do {
     v \<leftarrow> BuildJsonValue E stmt i w;
     ms \<leftarrow> build_columns E stmt is w;
     Some ((c_str (sq_name E stmt i w), v) # ms)}"

definition BuildJsonArray :: "('w, 'f) sqlite \<Rightarrow> nat \<Rightarrow> nat \<Rightarrow> 'w \<Rightarrow> 'f rjson option" where
  "BuildJsonArray E stmt colCount w = map_option RObject (build_columns E stmt [0..<colCount] w)"

text \<open>The loop ends with \<open>SQLITE_DONE\<close> only.\<close>

partial_function (option) rows_loop :: "('w, 'f) sqlite \<Rightarrow> nat \<Rightarrow> nat \<Rightarrow> 'f rjson list \<Rightarrow> 'w \<Rightarrow> ('f rjson list \<times> 'w) option" where
  "rows_loop E stmt colCount acc w = (let (code, w1) = sq_step E stmt w in
     if SQLITE_DONE = code then Some (acc, w1)
     else case BuildJsonArray E stmt colCount w1 of
       None \<Rightarrow> None
     | Some row \<Rightarrow> rows_loop E stmt colCount (acc @ [row]) w1)"

definition BuildJsonObject :: "('w, 'f) sqlite \<Rightarrow> CSmartDB \<Rightarrow> 'w \<Rightarrow> ('f rjson \<times> CSmartDB \<times> 'w) option" where
  "BuildJsonObject E d w = do {
     (rows, w1) \<leftarrow> rows_loop E (m_statement d) (sq_count E (m_statement d) w) [] w;
     Some (RArray rows, d\<lparr>m_code := SQLITE_DONE\<rparr>, sq_reset E (m_statement d) w1)}"

text \<open>A query that cannot be prepared leaves the caller's document as it is.\<close>

definition Query :: "('w, 'f) sqlite \<Rightarrow> string \<Rightarrow> 'f rjson \<Rightarrow> CSmartDB \<Rightarrow> 'w \<Rightarrow> ('f rjson \<times> CSmartDB \<times> 'w) option" where
  "Query E query doc d w = (let (ok, d1, w1) = Prepare E query d w in
     if \<not> ok then Some (doc, d1, w1) else BuildJsonObject E d1 w1)"

section \<open>The manager\<close>

text \<open>One table of the configuration: statements to create, select and insert, and its rows.\<close>

type_synonym 'f table_cfg = "string \<times> string \<times> string \<times> 'f rjson option option"

definition doc_size :: "'f rjson \<Rightarrow> nat option" where
  "doc_size doc = (case doc of RArray vs \<Rightarrow> Some (length vs) | _ \<Rightarrow> None)"

definition init_table :: "('w, 'f) sqlite \<Rightarrow> 'f table_cfg \<Rightarrow> CSmartDB \<Rightarrow> 'w \<Rightarrow> (bool \<times> CSmartDB \<times> 'w) option" where
  "init_table E val d w = (case val of (strCreateSql, strSelectSql, strInsertSql, jDbCfg) \<Rightarrow>
     let (ok, d1, w1) = Excecute E strCreateSql d w in
     if \<not> ok then Some (ok, d1, w1)
     else do {
       (doc, d2, w2) \<leftarrow> Query E strSelectSql RNull d1 w1;
       n \<leftarrow> doc_size doc;
       if 0 < n \<or> strInsertSql = [] then Some (ok, d2, w2)
       else do {
         json \<leftarrow> jDbCfg;
         ExcecuteJson E strInsertSql json d2 w2}})"

fun init_loop :: "('w, 'f) sqlite \<Rightarrow> 'f table_cfg list \<Rightarrow> bool \<Rightarrow> CSmartDB \<Rightarrow> 'w \<Rightarrow> (bool \<times> CSmartDB \<times> 'w) option" where
  "init_loop E [] bRet d w = Some (bRet, d, w)"
| "init_loop E (val # vals) bRet d w = do {
     (r, d1, w1) \<leftarrow> init_table E val d w;
     init_loop E vals r d1 w1}"

definition InitDb :: "('w, 'f) sqlite \<Rightarrow> 'f table_cfg list \<Rightarrow> CSmartDB \<Rightarrow> 'w \<Rightarrow> (bool \<times> CSmartDB \<times> 'w) option" where
  "InitDb E vecCfg d w = (let (bRet, d1, w1) = Open E ''./mysqlite.db'' d w in
     if \<not> bRet then Some (bRet, d1, w1) else init_loop E vecCfg bRet d1 w1)"

end
