(* ===== verification/SmartTx.thy ===== *)
theory SmartTx
  imports SmartDB
begin

text \<open>
  What the wrapper makes of the library's documented behaviour: transactions, queries and the
  release of statements. The behaviour is stated over views of the library's world; a small
  engine below shows that it can hold.
\<close>

section \<open>Documented behaviour\<close>

text \<open>
  The committed content, the content an open transaction works on, the parameters bound to the
  statement, and what executing the statement does to the content.
\<close>

record ('w, 'c, 'f) tx_view =
  committed :: "'w \<Rightarrow> 'c"
  working :: "'w \<Rightarrow> 'c option"
  binds :: "'w \<Rightarrow> int \<Rightarrow> 'f sql_value"
  effect :: "(int \<Rightarrow> 'f sql_value) \<Rightarrow> 'c \<Rightarrow> 'c"

definition same_view :: "('w, 'c, 'f) tx_view \<Rightarrow> 'w \<Rightarrow> 'w \<Rightarrow> bool" where
  "same_view V w w' \<longleftrightarrow> committed V w' = committed V w \<and> working V w' = working V w \<and> binds V w' = binds V w"

text \<open>
  Documented: a begin that succeeds opens a transaction on the committed content; after a rollback no
  transaction is open and nothing is committed, also when an error had already ended it; a commit that
  succeeds makes the content of the transaction permanent, and one that fails makes nothing permanent.
\<close>

definition begin_law :: "('w, 'f) sqlite \<Rightarrow> ('w, 'c, 'f) tx_view \<Rightarrow> nat \<Rightarrow> bool" where
  "begin_law E V h \<longleftrightarrow> (\<forall>w. case sq_exec E h ''begin transaction'' w of (c, w') \<Rightarrow>
     c = SQLITE_OK \<longrightarrow>
       committed V w' = committed V w \<and> working V w' = Some (committed V w) \<and> binds V w' = binds V w)"

definition rollback_law :: "('w, 'f) sqlite \<Rightarrow> ('w, 'c, 'f) tx_view \<Rightarrow> nat \<Rightarrow> bool" where
  "rollback_law E V h \<longleftrightarrow> (\<forall>w. case sq_exec E h ''rollback transaction'' w of (c, w') \<Rightarrow>
     c \<noteq> SQLITE_DONE \<and> committed V w' = committed V w \<and> working V w' = None)"

definition commit_law :: "('w, 'f) sqlite \<Rightarrow> ('w, 'c, 'f) tx_view \<Rightarrow> nat \<Rightarrow> bool" where
  "commit_law E V h \<longleftrightarrow> (\<forall>w x. working V w = Some x \<longrightarrow> (case sq_exec E h ''commit transaction'' w of (c, w') \<Rightarrow>
     if c = SQLITE_OK then committed V w' = x \<and> working V w' = None
     else committed V w' = committed V w))"

text \<open>
  Binding a parameter leaves the database alone, and sets the parameter when it reports success;
  a failed binding may leave any value there. Inside a transaction a step commits nothing; one that is done
  has had its whole effect, one that is not done may have ended the transaction or changed
  any part of what it works on. A reset keeps the bindings.
\<close>

definition bind_law :: "('w, 'f) sqlite \<Rightarrow> ('w, 'c, 'f) tx_view \<Rightarrow> nat \<Rightarrow> bool" where
  "bind_law E V st \<longleftrightarrow> (\<forall>w i v. case sq_bind E st i v w of (c, w') \<Rightarrow>
     committed V w' = committed V w \<and> working V w' = working V w \<and>
     (c = SQLITE_OK \<longrightarrow> binds V w' = (binds V w)(i := v)))"

definition step_law :: "('w, 'f) sqlite \<Rightarrow> ('w, 'c, 'f) tx_view \<Rightarrow> nat \<Rightarrow> bool" where
  "step_law E V st \<longleftrightarrow>
     (\<forall>w x. working V w = Some x \<longrightarrow> (case sq_step E st w of (c, w') \<Rightarrow>
        committed V w' = committed V w \<and>
        (c = SQLITE_DONE \<longrightarrow> binds V w' = binds V w \<and> working V w' = Some (effect V (binds V w) x)))) \<and>
     (\<forall>w. same_view V w (sq_reset E st w))"

section \<open>Transactions\<close>

text \<open>The values a JSON object binds, the bindings after them, and the content after a list of objects.\<close>

definition obj_values :: "(string \<times> 'f rjson) list \<Rightarrow> 'f sql_value list option" where
  "obj_values ms = those (map (\<lambda>p. map_of ms (c_str (fst p)) \<bind> json_value) ms)"

fun rebind :: "int \<Rightarrow> 'f sql_value list \<Rightarrow> (int \<Rightarrow> 'f sql_value) \<Rightarrow> int \<Rightarrow> 'f sql_value" where
  "rebind i [] b = b"
| "rebind i (v # vs) b = rebind (i + 1) vs (b(i + 1 := v))"

definition rmembers :: "'f rjson \<Rightarrow> (string \<times> 'f rjson) list" where
  "rmembers v = (case v of RObject ms \<Rightarrow> ms | _ \<Rightarrow> [])"

definition obj_binds :: "'f rjson \<Rightarrow> (int \<Rightarrow> 'f sql_value) \<Rightarrow> int \<Rightarrow> 'f sql_value" where
  "obj_binds v b = (case obj_values (rmembers v) of None \<Rightarrow> b | Some xs \<Rightarrow> rebind 0 xs b)"

fun insert_all :: "((int \<Rightarrow> 'f sql_value) \<Rightarrow> 'c \<Rightarrow> 'c) \<Rightarrow> 'f rjson list \<Rightarrow> (int \<Rightarrow> 'f sql_value) \<Rightarrow> 'c \<Rightarrow> 'c" where
  "insert_all eff [] b c = c"
| "insert_all eff (v # vs) b c = insert_all eff vs (obj_binds v b) (eff (obj_binds v b) c)"

text \<open>The library accepts the values of an object: binding each of them succeeds.\<close>

fun binds_ok :: "('w, 'f) sqlite \<Rightarrow> nat \<Rightarrow> int \<Rightarrow> 'f sql_value list \<Rightarrow> bool" where
  "binds_ok E st i [] \<longleftrightarrow> True"
| "binds_ok E st i (v # vs) \<longleftrightarrow> (\<forall>w. fst (sq_bind E st (i + 1) v w) = SQLITE_OK) \<and> binds_ok E st (i + 1) vs"

definition accepts :: "('w, 'f) sqlite \<Rightarrow> nat \<Rightarrow> 'f rjson \<Rightarrow> bool" where
  "accepts E st v \<longleftrightarrow> (\<forall>xs. obj_values (rmembers v) = Some xs \<longrightarrow> binds_ok E st 0 xs)"

lemma bind_members_view:
  assumes "bind_law E V st" "bind_members E val ms i d w = Some (d', w')" "m_statement d = st"
  shows "\<exists>xs. those (map (\<lambda>p. map_of val (c_str (fst p)) \<bind> json_value) ms) = Some xs \<and>
    (binds_ok E st i xs \<longrightarrow> binds V w' = rebind i xs (binds V w)) \<and>
    committed V w' = committed V w \<and> working V w' = working V w \<and>
    m_statement d' = st \<and> m_dbHandle d' = m_dbHandle d"
  using assms(2,3)
proof (induction ms arbitrary: i d w)
  case (Cons p ms)
  obtain k u where p: "p = (k, u)" by (cases p)
  obtain t v c w1 where q: "map_of val (c_str k) = Some t" "json_value t = Some v"
      "sq_bind E st (i + 1) v w = (c, w1)" "bind_members E val ms (i + 1) (d\<lparr>m_code := c\<rparr>) w1 = Some (d', w')"
    using Cons.prems p by (auto simp: BindJsonValue_def Let_def split: bind_splits prod.splits)
  have law: "committed V w1 = committed V w" "working V w1 = working V w"
      "c = SQLITE_OK \<longrightarrow> binds V w1 = (binds V w)(i + 1 := v)"
    using assms(1) [unfolded bind_law_def, rule_format, of w "i + 1" v] q(3) by simp_all
  obtain xs where xs: "those (map (\<lambda>p. map_of val (c_str (fst p)) \<bind> json_value) ms) = Some xs"
      "binds_ok E st (i + 1) xs \<longrightarrow> binds V w' = rebind (i + 1) xs (binds V w1)"
      "committed V w' = committed V w1" "working V w' = working V w1" "m_statement d' = st" "m_dbHandle d' = m_dbHandle d"
    using Cons.IH [OF q(4)] Cons.prems(2) by auto
  have "c = SQLITE_OK" if "\<forall>w. fst (sq_bind E st (i + 1) v w) = SQLITE_OK"
    using that [rule_format, of w] q(3) by simp
  then show ?case using p q(1,2) law xs by (intro exI [of _ "v # xs"]) auto
qed simp

lemma ExcecuteJsonVal_view:
  assumes "bind_law E V st" "step_law E V st" "ExcecuteJsonVal E v d w = Some (ok, d', w')"
    and "m_statement d = st" "working V w = Some x"
  shows "m_statement d' = st \<and> m_dbHandle d' = m_dbHandle d \<and> committed V w' = committed V w \<and>
    (ok \<longleftrightarrow> m_code d' = SQLITE_DONE) \<and>
    (ok \<longrightarrow> working V w' = Some (effect V (binds V w') x)) \<and>
    (ok \<and> accepts E st v \<longrightarrow> binds V w' = obj_binds v (binds V w))"
proof -
  obtain ms where v: "v = RObject ms" using assms(3) by (cases v) (auto simp: ExcecuteJsonVal_def)
  obtain d1 w1 where b: "bind_members E ms ms 0 d w = Some (d1, w1)"
      and r: "(let (code, w2) = sq_step E (m_statement d1) w1 in
        Some (SQLITE_DONE = code, d1\<lparr>m_code := code\<rparr>, sq_reset E (m_statement d1) w2)) = Some (ok, d', w')"
    using assms(3) v by (auto simp: ExcecuteJsonVal_def split: bind_splits)
  obtain xs where xs: "obj_values ms = Some xs" "binds_ok E st 0 xs \<longrightarrow> binds V w1 = rebind 0 xs (binds V w)"
      "committed V w1 = committed V w" "working V w1 = working V w" "m_statement d1 = st" "m_dbHandle d1 = m_dbHandle d"
    using bind_members_view [OF assms(1) b assms(4)] by (auto simp: obj_values_def)
  have ob: "accepts E st v \<longrightarrow> binds V w1 = obj_binds v (binds V w)"
    using xs(1,2) v by (simp add: obj_binds_def rmembers_def accepts_def)
  obtain c w2 where s: "sq_step E st w1 = (c, w2)" by (cases "sq_step E st w1")
  have x1: "working V w1 = Some x" using xs(4) assms(5) by simp
  have "committed V w2 = committed V w1 \<and>
      (c = SQLITE_DONE \<longrightarrow> binds V w2 = binds V w1 \<and> working V w2 = Some (effect V (binds V w1) x))"
    using assms(2) [unfolded step_law_def, THEN conjunct1, rule_format, OF x1] s by simp
  moreover have "same_view V w2 (sq_reset E st w2)" using assms(2) unfolding step_law_def by blast
  ultimately show ?thesis using s r xs ob by (auto simp: same_view_def)
qed

lemma transaction_loop_view:
  assumes "bind_law E V st" "step_law E V st" "rollback_law E V h" "transaction_loop E vs d w = Some (d', w')"
    and "m_statement d = st" "m_dbHandle d = h" "working V w = Some x"
  shows "m_statement d' = st \<and> m_dbHandle d' = h \<and> committed V w' = committed V w \<and>
    ((vs = [] \<and> m_code d' = m_code d \<or> vs \<noteq> [] \<and> m_code d' = SQLITE_DONE) \<and> working V w' \<noteq> None \<and>
       ((\<forall>v \<in> set vs. accepts E st v) \<longrightarrow> working V w' = Some (insert_all (effect V) vs (binds V w) x)) \<or>
     m_code d' \<noteq> SQLITE_DONE \<and> vs \<noteq> [] \<and> working V w' = None)"
  using assms(4-7)
proof (induction vs arbitrary: d w x)
  case (Cons v vs)
  obtain ok d1 w1 where q: "ExcecuteJsonVal E v d w = Some (ok, d1, w1)"
      "(if \<not> ok then Some (snd (RollBack E d1 w1)) else transaction_loop E vs d1 w1) = Some (d', w')"
    using Cons.prems(1) by (auto split: bind_splits)
  note e = ExcecuteJsonVal_view [OF assms(1,2) q(1) Cons.prems(2,4)]
  show ?case
  proof (cases ok)
    case True
    then have "working V w1 = Some (effect V (binds V w1) x)" using e by simp
    note IH = Cons.IH [OF _ _ _ this, of d1]
    have "transaction_loop E vs d1 w1 = Some (d', w')" using q(2) True by simp
    then show ?thesis using IH e Cons.prems(3) True by auto
  next
    case False
    obtain c w2 where b: "sq_exec E h ''rollback transaction'' w1 = (c, w2)"
      by (cases "sq_exec E h ''rollback transaction'' w1")
    have "c \<noteq> SQLITE_DONE \<and> committed V w2 = committed V w1 \<and> working V w2 = None"
      using assms(3) [unfolded rollback_law_def, rule_format, of w1] b by simp
    moreover have "c_str ''rollback transaction'' = ''rollback transaction''" by (simp add: byte_of_def)
    ultimately show ?thesis
      using q(2) False e b Cons.prems(3) by (auto simp: RollBack_def Excecute_def)
  qed
qed simp

text \<open>
  C26. Writing a list of objects is all or nothing, once the transaction has been opened: when the
  call reports failure, the database is as it was and no transaction is open, also when the failing
  statement had an effect of its own or had already ended the transaction; when it reports success
  and the commit succeeded, no transaction is open, and the database has the content the statements make of
  all objects, in order, provided the library accepted every value of every object (the code does not look
  at what a binding returns). A failed commit is reported as success too: then nothing is permanent.
\<close>

theorem transaction_atomic:
  assumes "begin_law E V h" "rollback_law E V h" "commit_law E V h" "bind_law E V st" "step_law E V st"
    and "m_dbHandle d = h" "m_statement d = st" "fst (sq_exec E h ''begin transaction'' w) = SQLITE_OK" "vs \<noteq> []"
    and "JsonTransaction E (RArray vs) d w = Some (ok, d', w')"
  shows "(\<not> ok \<longrightarrow> committed V w' = committed V w \<and> working V w' = None) \<and>
    (ok \<and> m_code d' = SQLITE_OK \<longrightarrow> working V w' = None \<and>
      ((\<forall>v \<in> set vs. accepts E st v) \<longrightarrow> committed V w' = insert_all (effect V) vs (binds V w) (committed V w))) \<and>
    (ok \<and> m_code d' \<noteq> SQLITE_OK \<longrightarrow> committed V w' = committed V w)"
proof -
  have cstr: "c_str ''begin transaction'' = ''begin transaction''" "c_str ''commit transaction'' = ''commit transaction''"
    by (simp_all add: byte_of_def)
  obtain w1 where b: "sq_exec E h ''begin transaction'' w = (SQLITE_OK, w1)"
    using assms(8) by (cases "sq_exec E h ''begin transaction'' w") simp
  have w1: "committed V w1 = committed V w" "working V w1 = Some (committed V w)" "binds V w1 = binds V w"
    using assms(1) [unfolded begin_law_def, rule_format, of w] b by simp_all
  obtain d2 w2 where t: "transaction_loop E vs (d\<lparr>m_code := SQLITE_OK\<rparr>) w1 = Some (d2, w2)"
      and r: "(if SQLITE_DONE \<noteq> m_code d2 then Some (False, d2, w2)
        else let (_, d3, w3) = Commit E d2 w2 in Some (True, d3, w3)) = Some (ok, d', w')"
    using assms(6,10) b cstr by (auto simp: JsonTransaction_def Begin_def Excecute_def split: bind_splits)
  have v: "m_dbHandle d2 = h" "committed V w2 = committed V w"
      "m_code d2 = SQLITE_DONE \<and> working V w2 \<noteq> None \<and>
       ((\<forall>v \<in> set vs. accepts E st v) \<longrightarrow> working V w2 = Some (insert_all (effect V) vs (binds V w) (committed V w))) \<or>
       m_code d2 \<noteq> SQLITE_DONE \<and> working V w2 = None"
    using transaction_loop_view [OF assms(4,5,2) t _ _ w1(2)] assms(6,7,9) w1 by auto
  show ?thesis
  proof (cases "m_code d2 = SQLITE_DONE")
    case True
    obtain x where x: "working V w2 = Some x"
        "(\<forall>v \<in> set vs. accepts E st v) \<longrightarrow> x = insert_all (effect V) vs (binds V w) (committed V w)"
      using v(3) True by auto
    obtain c3 w3 where c: "sq_exec E h ''commit transaction'' w2 = (c3, w3)" by (cases "sq_exec E h ''commit transaction'' w2")
    then have "ok" "w' = w3" "m_code d' = c3"
      using r True v(1) cstr by (simp_all add: Commit_def Excecute_def) auto
    then show ?thesis
      using assms(3) [unfolded commit_law_def, rule_format, OF x(1)] c x(2) v(2) by (auto split: if_splits)
  next
    case False
    then have "\<not> ok" "w' = w2" using r by auto
    then show ?thesis using v False by auto
  qed
qed

text \<open>
  Writing an empty list leaves a transaction open: the call reports failure, and neither a
  commit nor a rollback follows the begin.
\<close>

theorem empty_transaction_left_open:
  assumes "begin_law E V (m_dbHandle d)" "fst (sq_exec E (m_dbHandle d) ''begin transaction'' w) = SQLITE_OK"
    and "JsonTransaction E (RArray []) d w = Some (ok, d', w')"
  shows "\<not> ok \<and> committed V w' = committed V w \<and> working V w' = Some (committed V w)"
proof -
  have cstr: "c_str ''begin transaction'' = ''begin transaction''" by (simp add: byte_of_def)
  obtain w1 where b: "sq_exec E (m_dbHandle d) ''begin transaction'' w = (SQLITE_OK, w1)"
    using assms(2) by (cases "sq_exec E (m_dbHandle d) ''begin transaction'' w") simp
  then show ?thesis
    using assms(3) assms(1) [unfolded begin_law_def, rule_format, of w] cstr
    by (auto simp: JsonTransaction_def Begin_def Excecute_def)
qed

section \<open>Queries\<close>

definition stepped :: "('w, 'f) sqlite \<Rightarrow> nat \<Rightarrow> nat \<Rightarrow> 'w \<Rightarrow> 'w" where
  "stepped E st k w = ((\<lambda>w. snd (sq_step E st w)) ^^ k) w"

lemma stepped_0 [simp]: "stepped E st 0 w = w"
  by (simp add: stepped_def)

lemma stepped_Suc: "stepped E st (Suc k) w = stepped E st k (snd (sq_step E st w))"
  by (simp add: stepped_def funpow_Suc_right del: funpow.simps)

lemma rows_loop_done:
  assumes "\<forall>i < n. fst (sq_step E st (stepped E st i w)) \<noteq> SQLITE_DONE"
    and "fst (sq_step E st (stepped E st n w)) = SQLITE_DONE"
    and "\<forall>i < n. BuildJsonArray E st m (stepped E st (Suc i) w) = Some (row i)"
  shows "rows_loop E st m acc w = Some (acc @ map row [0..<n], stepped E st (Suc n) w)"
  using assms
proof (induction n arbitrary: w acc row)
  case 0
  then show ?case by (subst rows_loop.simps) (simp add: stepped_Suc case_prod_beta Let_def)
next
  case (Suc n)
  let ?w1 = "snd (sq_step E st w)"
  have "rows_loop E st m (acc @ [row 0]) ?w1 = Some ((acc @ [row 0]) @ map (row \<circ> Suc) [0..<n], stepped E st (Suc n) ?w1)"
    by (rule Suc.IH) (use Suc.prems in \<open>auto simp: stepped_Suc\<close>)
  moreover have "fst (sq_step E st w) \<noteq> SQLITE_DONE" "BuildJsonArray E st m ?w1 = Some (row 0)"
    using Suc.prems(1,3) by (auto simp: stepped_Suc dest: spec [of _ 0])
  moreover have "map row [0..<Suc n] = row 0 # map (row \<circ> Suc) [0..<n]"
    by (simp only: upt_conv_Cons map_Suc_upt [symmetric] list.map map_map zero_less_Suc)
  ultimately show ?case by (subst rows_loop.simps) (simp add: stepped_Suc case_prod_beta Let_def)
qed

lemma rows_loop_forever:
  assumes "rows_loop E st m acc w = Some r"
  shows "\<exists>k. fst (sq_step E st (stepped E st k w)) = SQLITE_DONE"
  using assms
proof (induction rule: rows_loop.raw_induct [rotated, consumes 1])
  case (1 rec E st m acc w r)
  show ?case
  proof (cases "fst (sq_step E st w) = SQLITE_DONE")
    case True
    then show ?thesis by (intro exI [of _ 0]) simp
  next
    case False
    then obtain acc' where "rec E st m acc' (snd (sq_step E st w)) = Some r"
      using 1(2) by (auto simp: Let_def case_prod_beta split: option.splits)
    then obtain k where "fst (sq_step E st (stepped E st k (snd (sq_step E st w)))) = SQLITE_DONE"
      using 1(1) by blast
    then show ?thesis by (intro exI [of _ "Suc k"]) (simp add: stepped_Suc)
  qed
qed

text \<open>C39. 
  A query returns exactly when the statement is eventually done: stepping through \<open>n\<close> rows gives
  the array of these rows, and a statement that keeps answering anything else than done (a
  busy database, an error) makes the call loop forever.
\<close>

theorem query_returns_iff_done:
  assumes "\<forall>k. BuildJsonArray E (m_statement d) (sq_count E (m_statement d) w) (stepped E (m_statement d) k w) \<noteq> None"
  shows "(BuildJsonObject E d w \<noteq> None \<longleftrightarrow>
      (\<exists>n. fst (sq_step E (m_statement d) (stepped E (m_statement d) n w)) = SQLITE_DONE)) \<and>
    (\<forall>n. (\<forall>i < n. fst (sq_step E (m_statement d) (stepped E (m_statement d) i w)) \<noteq> SQLITE_DONE) \<longrightarrow>
      fst (sq_step E (m_statement d) (stepped E (m_statement d) n w)) = SQLITE_DONE \<longrightarrow>
      (\<exists>d' w' rows. BuildJsonObject E d w = Some (RArray rows, d', w') \<and> length rows = n \<and>
        (\<forall>i < n. BuildJsonArray E (m_statement d) (sq_count E (m_statement d) w)
          (stepped E (m_statement d) (Suc i) w) = Some (rows ! i))))"
proof -
  let ?st = "m_statement d"
  let ?m = "sq_count E ?st w"
  let ?row = "\<lambda>i. the (BuildJsonArray E ?st ?m (stepped E ?st (Suc i) w))"
  have row: "BuildJsonArray E ?st ?m (stepped E ?st (Suc i) w) = Some (?row i)" for i
    using assms by (metis option.exhaust_sel)
  have ends: "BuildJsonObject E d w = Some (RArray (map ?row [0..<n]), d\<lparr>m_code := SQLITE_DONE\<rparr>,
      sq_reset E ?st (stepped E ?st (Suc n) w))"
    if "\<forall>i < n. fst (sq_step E ?st (stepped E ?st i w)) \<noteq> SQLITE_DONE"
      "fst (sq_step E ?st (stepped E ?st n w)) = SQLITE_DONE" for n
    using rows_loop_done [OF that, of ?m ?row "[]"] row by (simp add: BuildJsonObject_def)
  have "BuildJsonObject E d w \<noteq> None" if "fst (sq_step E ?st (stepped E ?st n w)) = SQLITE_DONE" for n
  proof -
    let ?k = "LEAST k. fst (sq_step E ?st (stepped E ?st k w)) = SQLITE_DONE"
    have "fst (sq_step E ?st (stepped E ?st ?k w)) = SQLITE_DONE" using that by (rule LeastI)
    moreover have "\<forall>i < ?k. fst (sq_step E ?st (stepped E ?st i w)) \<noteq> SQLITE_DONE" using not_less_Least by blast
    ultimately show ?thesis using ends by blast
  qed
  moreover have "\<exists>n. fst (sq_step E ?st (stepped E ?st n w)) = SQLITE_DONE" if "BuildJsonObject E d w \<noteq> None"
    using that rows_loop_forever by (auto simp: BuildJsonObject_def split: bind_splits)
  moreover have "\<exists>d' w' rows. BuildJsonObject E d w = Some (RArray rows, d', w') \<and> length rows = n \<and>
      (\<forall>i < n. BuildJsonArray E ?st ?m (stepped E ?st (Suc i) w) = Some (rows ! i))"
    if "\<forall>i < n. fst (sq_step E ?st (stepped E ?st i w)) \<noteq> SQLITE_DONE"
      "fst (sq_step E ?st (stepped E ?st n w)) = SQLITE_DONE" for n
    using ends [OF that] row by (intro exI conjI) auto
  ultimately show ?thesis by blast
qed

section \<open>Closing\<close>

text \<open>
  Documented: closing fails with busy while statements are unfinished and changes nothing then;
  the next-statement call names an unfinished one; finalizing it takes it away.
\<close>

definition close_law :: "('w, 'f) sqlite \<Rightarrow> nat \<Rightarrow> ('w \<Rightarrow> nat list) \<Rightarrow> ('w \<Rightarrow> bool) \<Rightarrow> bool" where
  "close_law E h stmts is_open \<longleftrightarrow> (\<forall>w. case sq_close E h w of (c, w') \<Rightarrow>
     if stmts w = [] then c = SQLITE_OK \<and> stmts w' = [] \<and> \<not> is_open w'
     else c = SQLITE_BUSY \<and> w' = w)"

definition finalize_law :: "('w, 'f) sqlite \<Rightarrow> nat \<Rightarrow> ('w \<Rightarrow> nat list) \<Rightarrow> bool" where
  "finalize_law E h stmts \<longleftrightarrow>
     (\<forall>w. stmts w \<noteq> [] \<longrightarrow> sq_next_stmt E h w \<in> set (stmts w) \<and> sq_next_stmt E h w \<noteq> 0) \<and>
     (\<forall>w s. case sq_finalize E s w of (c, w') \<Rightarrow> stmts w' = remove1 s (stmts w) \<and> (s \<in> set (stmts w) \<longrightarrow> c = SQLITE_OK))"

lemma close_loop_busy:
  assumes "close_law E h stmts is_open" "finalize_law E h stmts" "length (stmts w) = Suc n"
  shows "\<exists>w'. close_loop E h SQLITE_BUSY w = Some (SQLITE_OK, w') \<and> stmts w' = [] \<and> \<not> is_open w'"
  using assms(3)
proof (induction n arbitrary: w)
  case (0 w)
  let ?s = "sq_next_stmt E h w"
  have s: "?s \<in> set (stmts w)" "?s \<noteq> 0" using assms(2) 0 unfolding finalize_law_def by force+
  obtain c w1 where f: "sq_finalize E ?s w = (c, w1)" by (cases "sq_finalize E ?s w")
  have w1: "c = SQLITE_OK" "stmts w1 = []"
    using assms(2) [unfolded finalize_law_def, THEN conjunct2, rule_format, of ?s w] f s(1) 0
    by (auto simp: length_Suc_conv)
  obtain c2 w2 where c: "sq_close E h w1 = (c2, w2)" by (cases "sq_close E h w1")
  have "c2 = SQLITE_OK" "stmts w2 = []" "\<not> is_open w2"
    using assms(1) [unfolded close_law_def, rule_format, of w1] c w1(2) by simp_all
  then show ?case
    using s(2) f w1(1) c by (subst close_loop.simps) (simp add: close_loop.simps)
next
  case (Suc n w)
  let ?s = "sq_next_stmt E h w"
  have s: "?s \<in> set (stmts w)" "?s \<noteq> 0" using assms(2) Suc.prems unfolding finalize_law_def by force+
  obtain c w1 where f: "sq_finalize E ?s w = (c, w1)" by (cases "sq_finalize E ?s w")
  have w1: "c = SQLITE_OK" "length (stmts w1) = Suc n"
    using assms(2) [unfolded finalize_law_def, THEN conjunct2, rule_format, of ?s w] f s(1) Suc.prems
    by (auto simp: length_remove1)
  have "stmts w1 \<noteq> []" using w1(2) by auto
  then have "sq_close E h w1 = (SQLITE_BUSY, w1)"
    using assms(1) [unfolded close_law_def, rule_format, of w1] by (auto split: prod.splits)
  then show ?case using s(2) f w1(1) Suc.IH [OF w1(2)] by (subst close_loop.simps) simp
qed

text \<open>
  Closing ends and releases everything: whatever statements are unfinished, the call returns
  true after finalizing all of them, the connection is closed and the handle is null. Opening again
  then reports success without opening anything, since the opened flag is never reset.
\<close>

theorem close_releases_all:
  assumes "close_law E (m_dbHandle d) stmts is_open" "finalize_law E (m_dbHandle d) stmts"
    and "m_dbHandle d \<noteq> 0" "m_bOpened d"
  shows "\<exists>d' w'. CloseDB E d w = Some (True, d', w') \<and> stmts w' = [] \<and> \<not> is_open w' \<and> m_dbHandle d' = 0 \<and>
    Open E strFileName d' w' = (True, d', w')"
proof -
  let ?h = "m_dbHandle d"
  let ?w = "snd (sq_finalize E (m_statement d) w)"
  have "\<exists>w'. CloseDBHandle E ?h ?w = Some (SQLITE_OK, w') \<and> stmts w' = [] \<and> \<not> is_open w'"
  proof (cases "stmts ?w = []")
    case True
    obtain c w1 where c: "sq_close E ?h ?w = (c, w1)" by (cases "sq_close E ?h ?w")
    have "c = SQLITE_OK" "stmts w1 = []" "\<not> is_open w1"
      using assms(1) [unfolded close_law_def, rule_format, of ?w] c True by simp_all
    then show ?thesis using c by (simp add: CloseDBHandle_def close_loop.simps)
  next
    case False
    then obtain n where n: "length (stmts ?w) = Suc n" by (cases "stmts ?w") auto
    have "sq_close E ?h ?w = (SQLITE_BUSY, ?w)"
      using assms(1) [unfolded close_law_def, rule_format, of ?w] False by (auto split: prod.splits)
    then show ?thesis using close_loop_busy [OF assms(1,2) n] by (simp add: CloseDBHandle_def)
  qed
  then obtain w' where "CloseDBHandle E ?h ?w = Some (SQLITE_OK, w')" "stmts w' = []" "\<not> is_open w'" by blast
  then show ?thesis using assms(3,4)
    by (intro exI [of _ "d\<lparr>m_code := SQLITE_OK, m_dbHandle := 0\<rparr>"] exI [of _ w'])
      (simp add: CloseDB_def Open_def)
qed

section \<open>A small engine\<close>

text \<open>
  One table of one column that rejects null; statement 1 inserts, statement 2 selects, statement 3
  is always busy. An insertion that is rejected ends the transaction, and a rollback without one is an
  error. The statement has one parameter: binding another is out of range (25).
\<close>

record mini =
  mi_committed :: "int sql_value list"
  mi_working :: "int sql_value list option"
  mi_binds :: "int \<Rightarrow> int sql_value"
  mi_left :: nat
  mi_stmts :: "nat list"
  mi_open :: bool

definition mini_exec :: "nat \<Rightarrow> string \<Rightarrow> mini \<Rightarrow> int \<times> mini" where
  "mini_exec h s w =
     (if s = ''begin transaction'' then
        (if mi_working w = None then (0, w\<lparr>mi_working := Some (mi_committed w)\<rparr>) else (1, w))
      else case mi_working w of None \<Rightarrow> (1, w)
      | Some x \<Rightarrow> if s = ''commit transaction'' then (0, w\<lparr>mi_committed := x, mi_working := None\<rparr>)
                  else (0, w\<lparr>mi_working := None\<rparr>))"

definition mini_step :: "nat \<Rightarrow> mini \<Rightarrow> int \<times> mini" where
  "mini_step st w =
     (if st = 1 then
        (if mi_binds w 1 = SqlNull then (19, w\<lparr>mi_working := None\<rparr>)
         else (101, w\<lparr>mi_working := map_option (\<lambda>x. x @ [mi_binds w 1]) (mi_working w)\<rparr>))
      else if st = 2 then
        (if mi_left w = 0 then (101, w) else (100, w\<lparr>mi_left := mi_left w - 1\<rparr>))
      else (5, w))"

definition mini_stmts :: "mini \<Rightarrow> nat list" where
  "mini_stmts w = filter (\<lambda>s. s \<noteq> 0) (mi_stmts w)"

definition mini_sqlite :: "(mini, int) sqlite" where
  "mini_sqlite = \<lparr>sq_open = (\<lambda>_ w. (0, 1, w\<lparr>mi_open := True\<rparr>)),
     sq_close = (\<lambda>_ w. if mini_stmts w = [] then (0, w\<lparr>mi_open := False\<rparr>) else (5, w)),
     sq_exec = mini_exec,
     sq_prepare = (\<lambda>_ s w. (0, 1, w)),
     sq_bind = (\<lambda>_ i v w. if i = 1 then (0, w\<lparr>mi_binds := (mi_binds w)(i := v)\<rparr>) else (25, w)),
     sq_step = mini_step,
     sq_reset = (\<lambda>_ w. w),
     sq_finalize = (\<lambda>s w. (0, w\<lparr>mi_stmts := remove1 s (mi_stmts w)\<rparr>)),
     sq_next_stmt = (\<lambda>_ w. case mini_stmts w of [] \<Rightarrow> 0 | s # _ \<Rightarrow> s),
     sq_count = (\<lambda>_ _. 1), sq_name = (\<lambda>_ _ _. ''id''),
     sq_column = (\<lambda>_ _ w. Some (SqlInt (int (mi_left w))))\<rparr>"

definition mini_view :: "(mini, int sql_value list, int) tx_view" where
  "mini_view = \<lparr>committed = mi_committed, working = mi_working, binds = mi_binds,
     effect = (\<lambda>b x. x @ [b 1])\<rparr>"

definition mini_start :: mini where
  "mini_start = \<lparr>mi_committed = [SqlText ''a''], mi_working = None, mi_binds = (\<lambda>_. SqlNull), mi_left = 2,
     mi_stmts = [4, 6], mi_open = True\<rparr>"

definition demo_db :: "nat \<Rightarrow> CSmartDB" where
  "demo_db st = \<lparr>m_code = 0, m_bOpened = True, m_dbHandle = 1, m_statement = st\<rparr>"

lemma mini_laws:
  "begin_law mini_sqlite mini_view h" "rollback_law mini_sqlite mini_view h" "commit_law mini_sqlite mini_view h"
  "bind_law mini_sqlite mini_view 1" "step_law mini_sqlite mini_view 1"
  by (auto simp: begin_law_def rollback_law_def commit_law_def bind_law_def step_law_def same_view_def mini_sqlite_def
      mini_view_def mini_exec_def mini_step_def split: option.split)

text \<open>The second object is rejected, so the first is not stored either; two good ones are.\<close>

theorem transaction_atomic_witness:
  "(\<exists>d' w'. JsonTransaction mini_sqlite (RArray [RObject [(''id'', RInt 5)], RObject [(''id'', RNull)]]) (demo_db 1) mini_start =
      Some (False, d', w') \<and> mi_committed w' = [SqlText ''a''] \<and> mi_working w' = None) \<and>
   (\<exists>d' w'. JsonTransaction mini_sqlite (RArray [RObject [(''id'', RInt 5)], RObject [(''id'', RInt 6)]]) (demo_db 1) mini_start =
      Some (True, d', w') \<and> mi_committed w' = [SqlText ''a'', SqlInt 5, SqlInt 6])"
proof
  have o: "fst (sq_exec mini_sqlite 1 ''begin transaction'' mini_start) = SQLITE_OK" by code_simp
  let ?bad = "JsonTransaction mini_sqlite (RArray [RObject [(''id'', RInt 5)], RObject [(''id'', RNull)]]) (demo_db 1) mini_start"
  let ?good = "JsonTransaction mini_sqlite (RArray [RObject [(''id'', RInt 5)], RObject [(''id'', RInt 6)]]) (demo_db 1) mini_start"
  have "map_option fst ?bad = Some False" by code_simp
  then obtain d' w' where b: "?bad = Some (False, d', w')" by auto
  show "\<exists>d' w'. ?bad = Some (False, d', w') \<and> mi_committed w' = [SqlText ''a''] \<and> mi_working w' = None"
    using transaction_atomic [OF mini_laws _ _ o _ b] b
    by (simp add: demo_db_def mini_view_def mini_start_def)
  have "map_option (\<lambda>(r, d, w). (r, m_code d)) ?good = Some (True, 0)" by code_simp
  then obtain d2 w2 where g: "?good = Some (True, d2, w2)" "m_code d2 = 0" by auto
  have i: "insert_all (effect mini_view) [RObject [(''id'', RInt 5)], RObject [(''id'', RInt 6)]]
      (binds mini_view mini_start) (committed mini_view mini_start) = [SqlText ''a'', SqlInt 5, SqlInt 6]"
    by code_simp
  have a: "\<forall>v \<in> set [RObject [(''id'', RInt 5)], RObject [(''id'', RInt 6)]]. accepts mini_sqlite 1 v"
    by (simp add: accepts_def rmembers_def obj_values_def json_value_def number_value_def mini_sqlite_def byte_of_def)
  show "\<exists>d' w'. ?good = Some (True, d', w') \<and> mi_committed w' = [SqlText ''a'', SqlInt 5, SqlInt 6]"
    using transaction_atomic [OF mini_laws _ _ o _ g(1)] g i a
    by (simp add: demo_db_def mini_view_def)
qed

text \<open>
  The codes of the bindings are ignored: an object with a member more than the statement has parameters
  is stored without it, and the call reports success.
\<close>

lemma dropped_value_stored:
  "map_option (\<lambda>(r, d, w). (r, m_code d, mi_committed w))
     (JsonTransaction mini_sqlite (RArray [RObject [(''id'', RInt 5), (''size'', RInt 7)]]) (demo_db 1) mini_start) =
   Some (True, SQLITE_OK, [SqlText ''a'', SqlInt 5])"
  by code_simp

theorem empty_transaction_left_open_witness:
  "\<exists>d' w'. JsonTransaction mini_sqlite (RArray []) (demo_db 1) mini_start = Some (False, d', w') \<and>
     mi_working w' = Some [SqlText ''a'']"
proof -
  have "map_option fst (JsonTransaction mini_sqlite (RArray []) (demo_db 1) mini_start) = Some False" by code_simp
  then obtain d' w' where e: "JsonTransaction mini_sqlite (RArray []) (demo_db 1) mini_start = Some (False, d', w')" by auto
  show ?thesis
    using empty_transaction_left_open [OF mini_laws(1) _ e] e
    by (simp add: mini_view_def mini_start_def mini_sqlite_def mini_exec_def)
qed

theorem query_returns_iff_done_witness:
  "BuildJsonObject mini_sqlite (demo_db 3) mini_start = None \<and>
   (\<exists>d' w' rows. BuildJsonObject mini_sqlite (demo_db 2) mini_start = Some (RArray rows, d', w') \<and> length rows = 2)"
proof
  have row: "BuildJsonArray mini_sqlite st m w \<noteq> None" for st m w
  proof -
    have "build_columns mini_sqlite st is w \<noteq> None" for "is"
      by (induction "is") (auto simp: BuildJsonValue_def mini_sqlite_def)
    then show ?thesis by (simp add: BuildJsonArray_def)
  qed
  have "fst (sq_step mini_sqlite 3 w) = SQLITE_BUSY" for w by (simp add: mini_sqlite_def mini_step_def)
  then show "BuildJsonObject mini_sqlite (demo_db 3) mini_start = None"
    using query_returns_iff_done [of mini_sqlite "demo_db 3" mini_start] row by (simp add: demo_db_def del: not_None_eq)
  have s: "\<forall>i < 2. fst (sq_step mini_sqlite 2 (stepped mini_sqlite 2 i mini_start)) \<noteq> SQLITE_DONE"
      "fst (sq_step mini_sqlite 2 (stepped mini_sqlite 2 2 mini_start)) = SQLITE_DONE"
    by (simp_all add: numeral_2_eq_2 less_Suc_eq stepped_Suc mini_sqlite_def mini_step_def mini_start_def)
  show "\<exists>d' w' rows. BuildJsonObject mini_sqlite (demo_db 2) mini_start = Some (RArray rows, d', w') \<and> length rows = 2"
  proof -
    have r: "\<forall>k. BuildJsonArray mini_sqlite (m_statement (demo_db 2)) (sq_count mini_sqlite (m_statement (demo_db 2)) mini_start)
        (stepped mini_sqlite (m_statement (demo_db 2)) k mini_start) \<noteq> None"
      using row by blast
    have st: "m_statement (demo_db 2) = 2" by (simp add: demo_db_def)
    show ?thesis
      using conjunct2 [OF query_returns_iff_done [OF r], THEN spec [of _ 2], unfolded st] s by blast
  qed
qed

theorem close_releases_all_witness:
  "\<exists>d' w'. CloseDB mini_sqlite (demo_db 0) mini_start = Some (True, d', w') \<and> mini_stmts w' = [] \<and> \<not> mi_open w' \<and>
     m_dbHandle d' = 0 \<and> Open mini_sqlite ''db'' d' w' = (True, d', w')"
proof -
  have "close_law mini_sqlite 1 mini_stmts mi_open"
    by (simp add: close_law_def mini_sqlite_def) (simp add: mini_stmts_def)
  moreover have "finalize_law mini_sqlite 1 mini_stmts"
  proof -
    have "(case mini_stmts w of [] \<Rightarrow> 0 | s # _ \<Rightarrow> s) \<in> set (mini_stmts w) \<and> (case mini_stmts w of [] \<Rightarrow> 0 | s # _ \<Rightarrow> s) \<noteq> 0"
      if "mini_stmts w \<noteq> []" for w
    proof (cases "mini_stmts w")
      case (Cons s r)
      then have "s \<in> set (mini_stmts w)" by simp
      then show ?thesis using Cons by (auto simp: mini_stmts_def)
    qed (use that in simp)
    moreover have "mini_stmts (w\<lparr>mi_stmts := remove1 s (mi_stmts w)\<rparr>) = remove1 s (mini_stmts w)" for s w
      by (simp add: mini_stmts_def filter_remove1)
    ultimately show ?thesis by (simp add: finalize_law_def mini_sqlite_def)
  qed
  ultimately show ?thesis
    using close_releases_all [of mini_sqlite "demo_db 0" mini_stmts mi_open mini_start "''db''"]
    by (simp add: demo_db_def)
qed

end
