(* ===== verification/Spec2Isabelle.thy ===== *)
theory Spec2Isabelle
  imports FaceAlg RwLock PeriodicThread LetterTrie FaceDetect DetectAlg RtspSession SouthTransfer AppModule AlgModule MsgBus CommFun Base64 DesInverse CfgPersist SmartTx
begin

text \<open>
  A verification library for the ubiquitous-perception server (src/src): an edge program that pulls
  pictures from IP cameras, runs detection and face algorithms on them, stores alarms in
  SQLite, and answers a configuration tool over a framed TCP protocol.

  How the program's parts interact, and where they are modelled:

  \<^item> bytes on the wire: a request is framed, escaped and checked by \<open>CNetTcpDataPkg\<close>. Theories
    ByteOrder (common/cmmobj/comm/Endian.h), SmartBuffer (smart_buffer), Crc (CalcCrc.h),
    Escape (Convt.h), TcpPkg and TcpStream (NetTcpDataPkg). The stream lemmas say that every message
    that was packed is delivered once and in order, however the stream is cut into chunks.
  \<^item> connections: TcpService (transfer/tcp/server, main/TransferMng/TcpTransferMng.cpp) keeps one
    packet object per connection and publishes requests on the bus; its runs interleave the events of
    any number of clients. MsgBus (MessageBus.h, Any.h) is the bus with its abstract subscriptions.
  \<^item> codecs: CommFun (CommFun.h), Base64 (CBase64), Des and DesInverse (Des.h).
  \<^item> cameras: VideoQueue (VideoQueue.cpp, VideoQueueMng.cpp), RtspSession (RtspCli.cpp: the commands of
    one RTSP session, its subsessions and their release), RtspCliMng (RtspCliMng.cpp), VideoMng
    (PullStream, PullStreamMng, VideoMng, VideoModule) and SouthTransfer (VsTransferMng.cpp,
    TransferMng.cpp), which starts cameras from the configuration.
  \<^item> detection: ImgSlices (common/cmmobj/img/ProcImg.h: the slices of a picture and their memory, with the
    rounding of single precision as \<open>fl32\<close>), DetectNms (the boxes decoded from the networks' outputs,
    their suppression and their way back into the picture, alg/VisionAlgModule/detection/DetectAlg.cpp) and
    DetectAlg (DetectAlg.cpp, DetectAlgMng.cpp: objects, subscriptions, models, and a picture from
    slicing to the reports).
  \<^item> faces: FaceDetect (FaceDetection.cpp: prior boxes, decoding, greedy selection, reported faces) and
    FaceAlg (FaceAlg.cpp, FaceAlgMng.cpp, and the comparison of FaceIdentification.cpp: from a picture to the features
    of its faces and to the registered persons reported).
  \<^item> applications: AppData (JSON values, texts, topics, alarm tables), CommSafeDetect, CommSafeFace,
    CommSafeMng (app/CommSafe), AppModule (main/AppMng) and AlgModule (main/AlgMng), which hand
    the configured tasks to the applications and load the algorithms.
  \<^item> configuration and storage: CfgTables (main/DbMng/SqliteDbSvr.cpp), CfgMng (main/CfgMng) and CfgPersist
    (their round trip through the database), SmartDB and SmartTx (db/sqlitedb).
  \<^item> threads: RwLock (common/cmmobj/mutex/RWLock.hpp, the lock of the camera and picture tables) and
    PeriodicThread (common/cmmobj/thread/Thread.h, Thread.cpp, the thread of every loop) are step
    relations over any number of threads, with spurious wake-ups. The other theories take a
    method that holds a lock as one step, which the exclusion proved in RwLock permits.
  \<^item> containers: LetterTrie (common/template/datastruct/Trie.h).
  \<^item> Prelude holds what the theories share: fallible access to arrays, integers of 32 bits, searching a
    list, and the locales of codecs and of step systems with an invariant.

  How the code is translated. A class is a record with one definition per method, in the order of the
  code; a method that reads or writes outside its data, dereferences a null pointer, or lets an
  exception escape is the value \<^term>\<open>None\<close>. Machine integers are words, or integers with the
  bound written out where signed overflow is undefined. A container of the standard library is
  the list, map or sorted association list of its documentation. Shared and weak pointers are
  addresses of a heap where aliasing matters (picture queues), and values elsewhere. A loop is a
  structural recursion, a \<open>function\<close> with a measure, or, where it may not end (receiving,
  querying, closing a database), a \<open>partial_function\<close> whose termination is proved or refuted.
  Concurrent code is an inductive step relation whose reachable states satisfy an invariant. No fuel is used.

  What is an argument, since its code is outside src/src or is hardware: the ONVIF, HTTP and SQLite
  libraries, the live555 scheduler and decoders, the clock, JSON parsing, dynamic loading, the muduo network
  library, the picture operations of OpenCV, the runtime of the neural networks, and floating-point
  arithmetic (records of operations, such as \<open>nms_ops\<close>, \<open>face_ops\<close> and \<open>face_env\<close>). Theorems that rely on them name the laws
  they use: \<open>zero_law\<close> and \<open>order_law\<close> (comparison of numbers), \<open>sort_law\<close> (what sorting promises),
  \<open>extract_law\<close> (the length of a feature); the witnesses use exact rational arithmetic. \<open>env_ok\<close> collects what the detection
  asks of them and of the networks' outputs.

  What the groups of lemmas show: round trips of every codec and of the stored configuration; refinement of
  the byte buffer by lists, of the message bus by its subscriptions, of the letter tree by multisets, and of
  CRC tables by the bitwise division; invariants of sessions, queues, cameras, alarm tables, locks and threads; isolation
  of clients, cameras and request kinds; that pictures reach the algorithms and their results the tasks; that suppression separates the
  boxes and slices cover the picture; that a reported person is the best match; the decision that raises an
  alarm; atomic transactions; and the errors the code has, as theorems about the states they lead to.

  Not modelled: third-party and generated code (3rdparty, the soap, ONVIF and Thrift stubs, tinyxml, the copied
  layers of the metann library); the HTTP, RPC, Redis, serial and USB clients, which only forward to libraries; logging; drawing;
  the networks for landmarks, quality, pose, eyes and sunglasses, whose code is calls of the network runtime and of OpenCV around numeric constants;
  and utilities the program never instantiates (memory pool, coroutines, object pool, task groups).
\<close>

end
